(* ===== verification/Agency_Prelude.thy ===== *)
theory Agency_Prelude
  imports Main "HOL-Library.AList" "HOL-Library.Sublist"
begin

text \<open>
  Shared vocabulary of the development: the fragment of Python's values the modelled
  modules use, with the lemmas the component proofs rest on, and the locales that state
  what several components promise in the same way.

  \<^item> Strings are lists of characters. A character stands for a code point below 256, and
    \<open>py_space\<close>, \<open>py_lower_char\<close> are Python's \<open>str.isspace\<close> and \<open>str.lower\<close> on that
    range.
  \<^item> A dict is an association list in insertion order: \<open>AList.update\<close> replaces in place
    or appends, \<open>AList.delete\<close> removes, \<open>map_of\<close> looks up.
  \<^item> A raised exception is the left summand of \<open>('e, 'a) res\<close>; an operation on a state
    returns the result together with the state it leaves behind.
\<close>

named_theorems py_simps \<open>equations that evaluate the Python primitives\<close>
named_theorems step_inv \<open>each operation of a component keeps its invariant\<close>

type_synonym str = string
type_synonym ('e, 'a) res = "'e + 'a"
type_synonym ('s, 'e, 'a) outcome = "('e + 'a) \<times> 's"

section \<open>Strings\<close>

definition py_space :: "char \<Rightarrow> bool" where
  "py_space c = (let n = (of_char c :: nat) in
     9 \<le> n \<and> n \<le> 13 \<or> 28 \<le> n \<and> n \<le> 32 \<or> n = 133 \<or> n = 160)"

definition py_lower_char :: "char \<Rightarrow> char" where
  "py_lower_char c = (let n = (of_char c :: nat) in
     if 65 \<le> n \<and> n \<le> 90 \<or> 192 \<le> n \<and> n \<le> 222 \<and> n \<noteq> 215 then char_of (n + 32) else c)"

definition py_lstrip :: "str \<Rightarrow> str" where
  "py_lstrip s = dropWhile py_space s"

definition py_rstrip :: "str \<Rightarrow> str" where
  "py_rstrip s = rev (dropWhile py_space (rev s))"

definition py_strip :: "str \<Rightarrow> str" where
  "py_strip s = py_rstrip (py_lstrip s)"

definition py_lower :: "str \<Rightarrow> str" where
  "py_lower s = map py_lower_char s"

definition newline :: char where
  "newline = CHR 0x0A"

lemma of_char_lt_256: "(of_char c :: nat) < 256"
  by simp

lemma of_char_lower:
  "(of_char (py_lower_char c) :: nat) =
     (let n = of_char c in
      if 65 \<le> n \<and> n \<le> 90 \<or> 192 \<le> n \<and> n \<le> 222 \<and> n \<noteq> 215 then n + 32 else n)"
  by (auto simp: py_lower_char_def Let_def)

lemma py_lower_char_idem [simp]: "py_lower_char (py_lower_char c) = py_lower_char c"
proof -
  have "(of_char (py_lower_char (py_lower_char c)) :: nat) = of_char (py_lower_char c)"
    unfolding of_char_lower Let_def by auto
  then show ?thesis by simp
qed

lemma py_space_lower [simp]: "py_space (py_lower_char c) = py_space c"
  unfolding py_space_def of_char_lower Let_def by auto

lemma py_lower_idem [simp]: "py_lower (py_lower s) = py_lower s"
  by (simp add: py_lower_def)

lemma py_lower_Nil [simp]: "py_lower s = [] \<longleftrightarrow> s = []"
  by (simp add: py_lower_def)

lemma py_strip_Nil_iff: "py_strip s = [] \<longleftrightarrow> (\<forall>c \<in> set s. py_space c)"
proof -
  have "py_strip s = [] \<longleftrightarrow> (\<forall>c \<in> set (dropWhile py_space s). py_space c)"
    by (simp add: py_strip_def py_rstrip_def py_lstrip_def)
  also have "\<dots> \<longleftrightarrow> (\<forall>c \<in> set s. py_space c)"
    by (metis dropWhile_eq_Nil_conv dropWhile_idem)
  finally show ?thesis .
qed

lemma py_lstrip_hd: "py_lstrip s \<noteq> [] \<Longrightarrow> \<not> py_space (hd (py_lstrip s))"
  unfolding py_lstrip_def by (rule hd_dropWhile)

lemma py_rstrip_last: "py_rstrip s \<noteq> [] \<Longrightarrow> \<not> py_space (last (py_rstrip s))"
  unfolding py_rstrip_def by (metis hd_dropWhile hd_rev last_rev rev_is_Nil_conv)

lemma py_lstrip_fix: "s = [] \<or> \<not> py_space (hd s) \<Longrightarrow> py_lstrip s = s"
  by (cases s) (auto simp: py_lstrip_def)

lemma py_rstrip_fix: "s = [] \<or> \<not> py_space (last s) \<Longrightarrow> py_rstrip s = s"
  by (cases s rule: rev_cases) (auto simp: py_rstrip_def)

lemma py_rstrip_prefix: "prefix (py_rstrip s) s"
proof -
  have "suffix (dropWhile py_space (rev s)) (rev s)"
    by (rule suffix_dropWhile)
  then show ?thesis
    by (simp add: py_rstrip_def suffix_to_prefix)
qed

lemma py_strip_hd: "py_strip s \<noteq> [] \<Longrightarrow> \<not> py_space (hd (py_strip s))"
proof -
  assume ne: "py_strip s \<noteq> []"
  have "prefix (py_strip s) (py_lstrip s)"
    unfolding py_strip_def by (rule py_rstrip_prefix)
  then obtain t where "py_lstrip s = py_strip s @ t" by (auto elim: prefixE)
  with ne have "hd (py_lstrip s) = hd (py_strip s)" and "py_lstrip s \<noteq> []" by auto
  then show ?thesis using py_lstrip_hd [of s] by simp
qed

lemma py_strip_idem [simp]: "py_strip (py_strip s) = py_strip s"
proof -
  have l: "py_lstrip (py_strip s) = py_strip s"
    using py_strip_hd by (blast intro: py_lstrip_fix)
  have "py_rstrip (py_strip s) = py_strip s"
    unfolding py_strip_def using py_rstrip_last by (blast intro: py_rstrip_fix)
  with l show ?thesis by (simp add: py_strip_def)
qed

lemma py_lstrip_lower: "py_lstrip (py_lower s) = py_lower (py_lstrip s)"
  by (simp add: py_lstrip_def py_lower_def dropWhile_map comp_def)

lemma py_rstrip_lower: "py_rstrip (py_lower s) = py_lower (py_rstrip s)"
  by (simp add: py_rstrip_def py_lower_def dropWhile_map comp_def rev_map)

lemma py_strip_lower: "py_strip (py_lower s) = py_lower (py_strip s)"
  by (simp add: py_strip_def py_lstrip_lower py_rstrip_lower)


section \<open>JSON values\<close>

text \<open>The payloads typed \<open>dict[str, Any]\<close> in the source.\<close>

datatype json =
    JNull
  | JBool bool
  | JInt int
  | JStr str
  | JArr "json list"
  | JObj "(str \<times> json) list"

section \<open>Dicts\<close>

text \<open>
  \<open>dict_ok d\<close>: the keys of the association list are distinct, as a dict's are. The lemmas
  restate the library's facts on \<open>AList.update\<close> and \<open>AList.delete\<close> in the form the
  component proofs use.
\<close>

definition dict_ok :: "('k \<times> 'v) list \<Rightarrow> bool" where
  "dict_ok d = distinct (map fst d)"

lemma dict_ok_Nil [simp]: "dict_ok []"
  by (simp add: dict_ok_def)

lemma dict_ok_update [simp]: "dict_ok d \<Longrightarrow> dict_ok (AList.update k v d)"
  by (simp add: dict_ok_def distinct_update)

lemma dict_ok_delete [simp]: "dict_ok d \<Longrightarrow> dict_ok (AList.delete k d)"
  by (simp add: dict_ok_def distinct_delete)

lemma dict_ok_filter [simp]: "dict_ok d \<Longrightarrow> dict_ok (filter P d)"
  by (simp add: dict_ok_def distinct_map_filter)

lemma map_of_update [simp]: "map_of (AList.update k v d) = (map_of d)(k \<mapsto> v)"
  by (rule update_conv')

lemma map_of_delete [simp]: "map_of (AList.delete k d) = (map_of d)(k := None)"
  by (rule delete_conv')

lemma dict_mem_iff: "dict_ok d \<Longrightarrow> (k, v) \<in> set d \<longleftrightarrow> map_of d k = Some v"
  by (auto simp: dict_ok_def map_of_is_SomeI dest: map_of_SomeD)

lemma set_update_dict:
  "dict_ok d \<Longrightarrow> set (AList.update k v d) = insert (k, v) {p \<in> set d. fst p \<noteq> k}"
  by (induction d) (auto simp: dict_ok_def image_iff)

lemma update_fresh: "map_of d k = None \<Longrightarrow> AList.update k v d = d @ [(k, v)]"
  by (induction d) (auto split: if_splits)

lemma update_keys_present: "map_of d k \<noteq> None \<Longrightarrow> map fst (AList.update k v d) = map fst d"
  by (induction d) (auto split: if_splits)

lemma delete_mem: "p \<in> set (AList.delete k d) \<longleftrightarrow> p \<in> set d \<and> fst p \<noteq> k"
  by (induction d) auto

lemma dict_length: "dict_ok d \<Longrightarrow> length d = card (dom (map_of d))"
  unfolding dict_ok_def dom_map_of_conv_image_fst
  by (metis distinct_card length_map set_map)

lemma dict_length_le:
  "dict_ok d \<Longrightarrow> dict_ok d' \<Longrightarrow> dom (map_of d) \<subseteq> dom (map_of d') \<Longrightarrow> length d \<le> length d'"
  by (simp add: dict_length card_mono finite_dom_map_of)

lemma list_all_updated: "list_all P d \<Longrightarrow> P (k, v) \<Longrightarrow> list_all P (AList.update k v d)"
  by (induction d) auto

lemma find_append: "find P (xs @ ys) = (case find P xs of None \<Rightarrow> find P ys | Some x \<Rightarrow> Some x)"
  by (induction xs) auto

lemma find_replaced:
  "find (\<lambda>r. key r = k) (filter (\<lambda>x. key x \<noteq> k') xs) = (if k = k' then None else find (\<lambda>r. key r = k) xs)"
  by (induction xs) auto

lemma map_of_filter_key: "map_of (filter (\<lambda>p. fst p = k) d) k = map_of d k"
  by (induction d) auto

lemma map_of_sort_key [simp]: "map_of (sort_key fst d) = map_of d"
proof
  fix k
  have "map_of (filter (\<lambda>p. fst p = k) (sort_key fst d)) k = map_of (filter (\<lambda>p. fst p = k) d) k"
    by (simp add: sort_key_stable)
  then show "map_of (sort_key fst d) k = map_of d k" by (simp add: map_of_filter_key)
qed

lemma list_all_update:
  "dict_ok d \<Longrightarrow> (\<forall>p \<in> set d. P p) \<Longrightarrow> P (k, v) \<Longrightarrow> \<forall>p \<in> set (AList.update k v d). P p"
  by (simp add: set_update_dict)

section \<open>Lists\<close>

text \<open>
  \<open>sorted(xs, key=f, reverse=True)\<close> is stable too: it keeps the order of equal keys, which
  reversing the input, sorting and reversing again does. \<open>last_n n xs\<close> is \<open>xs[-n:]\<close>
  for positive \<open>n\<close>.
\<close>

definition sorted_rev_by :: "('a \<Rightarrow> 'b::linorder) \<Rightarrow> 'a list \<Rightarrow> 'a list" where
  "sorted_rev_by f xs = rev (sort_key f (rev xs))"

definition last_n :: "nat \<Rightarrow> 'a list \<Rightarrow> 'a list" where
  "last_n n xs = drop (length xs - n) xs"

lemma set_sorted_rev_by [simp]: "set (sorted_rev_by f xs) = set xs"
  by (simp add: sorted_rev_by_def)

lemma length_sorted_rev_by [simp]: "length (sorted_rev_by f xs) = length xs"
  by (simp add: sorted_rev_by_def)

lemma sorted_rev_by_desc: "sorted_wrt (\<lambda>a b. f b \<le> f a) (sorted_rev_by f xs)"
proof -
  have "sorted (map f (sort_key f (rev xs)))" by simp
  then have "sorted_wrt (\<lambda>a b. f a \<le> f b) (sort_key f (rev xs))"
    by (simp add: sorted_map)
  then show ?thesis by (simp add: sorted_rev_by_def sorted_wrt_rev)
qed

lemma fold_max_ge:
  fixes l :: "'a::linorder"
  shows "l \<le> fold max xs m \<longleftrightarrow> l \<le> m \<or> (\<exists>x \<in> set xs. l \<le> x)"
  by (induction xs arbitrary: m) (auto simp: le_max_iff_disj)

lemma length_last_n [simp]: "length (last_n n xs) = min n (length xs)"
  by (simp add: last_n_def)

lemma set_last_n: "set (last_n n xs) \<subseteq> set xs"
  by (simp add: last_n_def set_drop_subset)

lemma last_n_short [simp]: "length xs \<le> n \<Longrightarrow> last_n n xs = xs"
  by (simp add: last_n_def)

lemma find_SomeD: "find P xs = Some x \<Longrightarrow> x \<in> set xs \<and> P x"
  by (induction xs) (auto split: if_splits)

lemma length_filter_imp: "(\<And>x. P x \<Longrightarrow> Q x) \<Longrightarrow> length (filter P xs) \<le> length (filter Q xs)"
  by (induction xs) (auto simp: le_SucI)

section \<open>Runs of operations\<close>

text \<open>
  Every stateful component is a step function on its state. \<open>op_machine\<close> is the contract
  that each operation keeps the component's invariant; \<open>op_progress\<close> adds an order the
  state only moves up in (an append-only log, a terminal status, a revocation). The
  components interpret both.
\<close>

definition run_ops :: "('op \<Rightarrow> 's \<Rightarrow> 's) \<Rightarrow> 'op list \<Rightarrow> 's \<Rightarrow> 's" where
  "run_ops step ops s = fold step ops s"

lemma run_ops_Nil [simp]: "run_ops step [] s = s"
  by (simp add: run_ops_def)

lemma run_ops_Cons [simp]: "run_ops step (x # xs) s = run_ops step xs (step x s)"
  by (simp add: run_ops_def)

lemma run_ops_append: "run_ops step (xs @ ys) s = run_ops step ys (run_ops step xs s)"
  by (simp add: run_ops_def)

locale op_machine =
  fixes step :: "'op \<Rightarrow> 's \<Rightarrow> 's"
    and inv :: "'s \<Rightarrow> bool"
    and legal :: "'op \<Rightarrow> bool"
  assumes keeps: "legal x \<Longrightarrow> inv s \<Longrightarrow> inv (step x s)"
begin

lemma run_keeps: "list_all legal xs \<Longrightarrow> inv s \<Longrightarrow> inv (run_ops step xs s)"
  by (induction xs arbitrary: s) (auto intro: keeps)

end

locale op_progress = op_machine step inv legal
  for step :: "'op \<Rightarrow> 's \<Rightarrow> 's" and inv :: "'s \<Rightarrow> bool" and legal :: "'op \<Rightarrow> bool" +
  fixes below :: "'s \<Rightarrow> 's \<Rightarrow> bool"
  assumes below_refl: "below s s"
    and below_trans: "below s t \<Longrightarrow> below t u \<Longrightarrow> below s u"
    and advances: "legal x \<Longrightarrow> inv s \<Longrightarrow> below s (step x s)"
begin

lemma run_advances: "list_all legal xs \<Longrightarrow> inv s \<Longrightarrow> below s (run_ops step xs s)"
proof (induction xs arbitrary: s)
  case Nil
  show ?case by (simp add: below_refl)
next
  case (Cons x xs)
  have "below s (step x s)" using Cons.prems by (simp add: advances)
  moreover have "below (step x s) (run_ops step xs (step x s))"
    using Cons.prems by (simp add: Cons.IH keeps)
  ultimately show ?case by (simp add: below_trans)
qed

end


section \<open>Stores with unique keys\<close>

text \<open>
  The contract of every store that refuses a second record under the same key: the agent
  registry, the task table, the audit table. A refused insertion leaves the store as it
  was, so whatever is inserted later, a key keeps its first record.
\<close>

locale unique_store =
  fixes look :: "'s \<Rightarrow> 'k \<Rightarrow> 'v option"
    and ins :: "'v \<Rightarrow> 's \<Rightarrow> ('e + 'r) \<times> 's"
    and key :: "'v \<Rightarrow> 'k"
  assumes ins_taken: "look s (key v) \<noteq> None \<Longrightarrow> isl (fst (ins v s)) \<and> snd (ins v s) = s"
    and ins_free: "look s (key v) = None \<Longrightarrow>
      \<not> isl (fst (ins v s)) \<and> look (snd (ins v s)) = (look s)(key v \<mapsto> v)"
begin

lemma ins_refused_iff: "isl (fst (ins v s)) \<longleftrightarrow> look s (key v) \<noteq> None"
  using ins_taken ins_free by blast

lemma look_after_ins:
  "look (snd (ins v s)) k = (case look s k of Some w \<Rightarrow> Some w | None \<Rightarrow> if k = key v then Some v else None)"
  using ins_taken [of s v] ins_free [of s v] by (cases "look s (key v)") (auto split: option.splits)

lemma ins_twice: "isl (fst (ins w (snd (ins v s))))" if "key w = key v"
  using that by (auto simp: ins_refused_iff look_after_ins split: option.splits)

lemma first_record_kept:
  "look (run_ops (\<lambda>v s. snd (ins v s)) vs s) k =
     (case look s k of Some w \<Rightarrow> Some w | None \<Rightarrow> find (\<lambda>v. key v = k) vs)"
  by (induction vs arbitrary: s) (auto simp: look_after_ins split: option.splits)

end

end
