(* ===== verification/Kernel_Identity.thy ===== *)
theory Kernel_Identity
  imports Agency_Prelude
begin

text \<open>
  Agent identities and their registry: \<open>src/agency/kernel/identity.py\<close> and
  \<open>src/agency/kernel/registry.py\<close>, with the severity ladder \<open>ActionClass\<close> of
  \<open>src/agency/kernel/policies.py\<close> that the identities refer to.

  The registry keeps its agents in a dict; an operation returns its result and the
  registry it leaves behind. The registry's lock serialises the operations, so a
  concurrent use is a sequence of them. Instants are integers (microseconds). An identity's
  free-form \<open>metadata\<close> is a JSON object.
\<close>

section \<open>Severity ladder and trust levels\<close>

datatype action_class =
    L0_OBSERVATION
  | L1_SAFE_ANALYSIS
  | L2_CONTROLLED_TESTING
  | L3_HIGH_IMPACT
  | L4_PRODUCTION
  | L5_DESTRUCTIVE

fun action_value :: "action_class \<Rightarrow> str" where
  "action_value L0_OBSERVATION = ''L0_OBSERVATION''"
| "action_value L1_SAFE_ANALYSIS = ''L1_SAFE_ANALYSIS''"
| "action_value L2_CONTROLLED_TESTING = ''L2_CONTROLLED_TESTING''"
| "action_value L3_HIGH_IMPACT = ''L3_HIGH_IMPACT''"
| "action_value L4_PRODUCTION = ''L4_PRODUCTION''"
| "action_value L5_DESTRUCTIVE = ''L5_DESTRUCTIVE''"

text \<open>\<open>int(self.value.split("_")[0][1:])\<close>: the digits between the first letter and the
  first underscore.\<close>

definition int_of_digits :: "str \<Rightarrow> nat" where
  "int_of_digits s = foldl (\<lambda>n c. 10 * n + (of_char c - 48)) 0 s"

definition action_level :: "action_class \<Rightarrow> nat" where
  "action_level a = int_of_digits (drop 1 (takeWhile (\<lambda>c. c \<noteq> CHR ''_'') (action_value a)))"

lemma action_level_simps [simp]:
  "action_level L0_OBSERVATION = 0"
  "action_level L1_SAFE_ANALYSIS = 1"
  "action_level L2_CONTROLLED_TESTING = 2"
  "action_level L3_HIGH_IMPACT = 3"
  "action_level L4_PRODUCTION = 4"
  "action_level L5_DESTRUCTIVE = 5"
  by (simp_all add: action_level_def int_of_digits_def)

datatype trust_level = UNKNOWN | OBSERVED | VERIFIED | TRUSTED | HIGH_TRUST

fun trust_rank :: "trust_level \<Rightarrow> nat" where
  "trust_rank UNKNOWN = 0"
| "trust_rank OBSERVED = 1"
| "trust_rank VERIFIED = 2"
| "trust_rank TRUSTED = 3"
| "trust_rank HIGH_TRUST = 4"

text \<open>The ladder and the trust levels are linearly ordered by their ranks.\<close>

lemma action_level_inj: "action_level a = action_level b \<longleftrightarrow> a = b"
  by (cases a; cases b) simp_all

lemma trust_rank_inj: "trust_rank a = trust_rank b \<longleftrightarrow> a = b"
  by (cases a; cases b) simp_all

instantiation action_class :: linorder
begin
definition less_eq_action_class :: "action_class \<Rightarrow> action_class \<Rightarrow> bool" where
  "less_eq_action_class a b = (action_level a \<le> action_level b)"
definition less_action_class :: "action_class \<Rightarrow> action_class \<Rightarrow> bool" where
  "less_action_class a b = (action_level a < action_level b)"
instance
  by standard (auto simp: less_eq_action_class_def less_action_class_def action_level_inj
    simp flip: action_level_inj)
end

instantiation trust_level :: linorder
begin
definition less_eq_trust_level :: "trust_level \<Rightarrow> trust_level \<Rightarrow> bool" where
  "less_eq_trust_level a b = (trust_rank a \<le> trust_rank b)"
definition less_trust_level :: "trust_level \<Rightarrow> trust_level \<Rightarrow> bool" where
  "less_trust_level a b = (trust_rank a < trust_rank b)"
instance
  by standard (auto simp: less_eq_trust_level_def less_trust_level_def trust_rank_inj
    simp flip: trust_rank_inj)
end

section \<open>Capabilities and agents\<close>

datatype identity_error =
    EmptyCapabilityName
  | EmptyAgentId
  | EmptyAgentName
  | AgentExists str
  | UnknownAgent str

record capability =
  cap_name :: str
  cap_description :: str
  cap_max_level :: action_class

text \<open>\<open>Capability(name=..., description=..., max_level=...)\<close>: the length constraint of the
  field, then the normalising validator.\<close>

definition mk_capability :: "str \<Rightarrow> str \<Rightarrow> action_class \<Rightarrow> (identity_error, capability) res" where
  "mk_capability nm descr lvl =
     (if length nm < 1 then Inl EmptyCapabilityName
      else let name = py_lower (py_strip nm) in
        if name = [] then Inl EmptyCapabilityName
        else Inr \<lparr>cap_name = name, cap_description = descr, cap_max_level = lvl\<rparr>)"

text \<open>An entry of a capability list: a plain name or a \<open>Capability\<close>.\<close>

datatype cap_entry = CapStr str | CapObj capability

fun to_capability :: "cap_entry \<Rightarrow> (identity_error, capability) res" where
  "to_capability (CapObj c) = Inr c"
| "to_capability (CapStr nm) = mk_capability nm [] L0_OBSERVATION"

fun coerce_entries :: "cap_entry list \<Rightarrow> (identity_error, capability list) res" where
  "coerce_entries [] = Inr []"
| "coerce_entries (e # es) =
     (case to_capability e of
        Inl err \<Rightarrow> Inl err
      | Inr c \<Rightarrow> (case coerce_entries es of Inl err \<Rightarrow> Inl err | Inr cs \<Rightarrow> Inr (c # cs)))"

datatype cap_input = CapsNone | CapsOne cap_entry | CapsMany "cap_entry list"

fun coerce_capabilities :: "cap_input \<Rightarrow> (identity_error, capability list) res" where
  "coerce_capabilities CapsNone = Inr []"
| "coerce_capabilities (CapsOne e) = coerce_entries [e]"
| "coerce_capabilities (CapsMany es) = coerce_entries es"

record agent =
  agent_id :: str
  agent_name :: str
  agent_domain :: str
  agent_capabilities :: "capability list"
  agent_trust_level :: trust_level
  agent_created_at :: int
  agent_metadata :: "(str \<times> json) list"
  agent_revoked :: bool

text \<open>\<open>Agent(...)\<close>, with every field given; the identifier is normalised by stripping.\<close>

definition mk_agent ::
  "str \<Rightarrow> str \<Rightarrow> str \<Rightarrow> cap_input \<Rightarrow> trust_level \<Rightarrow> int \<Rightarrow> (str \<times> json) list \<Rightarrow> bool
     \<Rightarrow> (identity_error, agent) res" where
  "mk_agent aid nm domain caps trust created meta revoked =
     (if py_strip aid = [] then Inl EmptyAgentId
      else if length nm < 1 then Inl EmptyAgentName
      else case coerce_capabilities caps of
          Inl err \<Rightarrow> Inl err
        | Inr cs \<Rightarrow> Inr \<lparr>agent_id = py_strip aid, agent_name = nm, agent_domain = domain,
            agent_capabilities = cs, agent_trust_level = trust, agent_created_at = created,
            agent_metadata = meta, agent_revoked = revoked\<rparr>)"

definition has_capability :: "agent \<Rightarrow> str \<Rightarrow> bool" where
  "has_capability a nm =
     (let needle = py_lower (py_strip nm) in
      list_ex (\<lambda>c. cap_name c = needle) (agent_capabilities a))"

fun first_level :: "capability list \<Rightarrow> str \<Rightarrow> action_class option" where
  "first_level [] needle = None"
| "first_level (c # cs) needle =
     (if cap_name c = needle then Some (cap_max_level c) else first_level cs needle)"

definition capability_level :: "agent \<Rightarrow> str \<Rightarrow> action_class option" where
  "capability_level a nm = first_level (agent_capabilities a) (py_lower (py_strip nm))"

definition grant :: "cap_entry \<Rightarrow> agent \<Rightarrow> (identity_error, agent) res" where
  "grant e a =
     (case to_capability e of
        Inl err \<Rightarrow> Inl err
      | Inr c \<Rightarrow>
          Inr (if has_capability a (cap_name c) then a
               else a\<lparr>agent_capabilities := agent_capabilities a @ [c]\<rparr>))"

definition agent_revoke_capability :: "str \<Rightarrow> agent \<Rightarrow> agent" where
  "agent_revoke_capability nm a =
     (let needle = py_lower (py_strip nm) in
      a\<lparr>agent_capabilities := filter (\<lambda>c. cap_name c \<noteq> needle) (agent_capabilities a)\<rparr>)"

section \<open>The registry\<close>

type_synonym registry = "(str \<times> agent) list"

definition register :: "agent \<Rightarrow> registry \<Rightarrow> (registry, identity_error, agent) outcome" where
  "register a r =
     (if map_of r (agent_id a) \<noteq> None then (Inl (AgentExists (agent_id a)), r)
      else (Inr a, AList.update (agent_id a) a r))"

definition registry_get :: "registry \<Rightarrow> str \<Rightarrow> agent option" where
  "registry_get r aid = map_of r aid"

definition get_required :: "registry \<Rightarrow> str \<Rightarrow> (identity_error, agent) res" where
  "get_required r aid =
     (case map_of r aid of None \<Rightarrow> Inl (UnknownAgent aid) | Some a \<Rightarrow> Inr a)"

definition list_agents :: "bool \<Rightarrow> str option \<Rightarrow> registry \<Rightarrow> agent list" where
  "list_agents include_revoked domain r =
     (let agents = map snd r;
          live = (if include_revoked then agents else filter (\<lambda>a. \<not> agent_revoked a) agents);
          scoped = (case domain of None \<Rightarrow> live | Some d \<Rightarrow> filter (\<lambda>a. agent_domain a = d) live)
      in sorted_rev_by agent_created_at scoped)"

definition registry_count :: "bool \<Rightarrow> registry \<Rightarrow> nat" where
  "registry_count include_revoked r = length (list_agents include_revoked None r)"

text \<open>The dict \<open>{cap.name: cap for cap in ...}\<close>, and the merge loop that adds only the
  names it does not hold yet.\<close>

definition caps_by_name :: "capability list \<Rightarrow> (str \<times> capability) list" where
  "caps_by_name cs = foldl (\<lambda>d c. AList.update (cap_name c) c d) [] cs"

definition merge_caps :: "(str \<times> capability) list \<Rightarrow> capability list \<Rightarrow> (str \<times> capability) list"
  where
  "merge_caps d cs =
     foldl (\<lambda>d c. if map_of d (cap_name c) = None then AList.update (cap_name c) c d else d) d cs"

definition update_capabilities ::
  "str \<Rightarrow> cap_entry list \<Rightarrow> bool \<Rightarrow> registry \<Rightarrow> (registry, identity_error, agent) outcome" where
  "update_capabilities aid entries replace r =
     (case get_required r aid of
        Inl err \<Rightarrow> (Inl err, r)
      | Inr a \<Rightarrow>
          (case coerce_entries entries of
             Inl err \<Rightarrow> (Inl err, r)
           | Inr incoming \<Rightarrow>
               let caps = (if replace then incoming
                           else map snd (merge_caps (caps_by_name (agent_capabilities a)) incoming));
                   a' = a\<lparr>agent_capabilities := caps\<rparr>
               in (Inr a', AList.update aid a' r)))"

definition grant_capability ::
  "str \<Rightarrow> cap_entry \<Rightarrow> registry \<Rightarrow> (registry, identity_error, agent) outcome" where
  "grant_capability aid e r = update_capabilities aid [e] False r"

definition registry_revoke_capability ::
  "str \<Rightarrow> str \<Rightarrow> registry \<Rightarrow> (registry, identity_error, agent) outcome" where
  "registry_revoke_capability aid nm r =
     (case get_required r aid of
        Inl err \<Rightarrow> (Inl err, r)
      | Inr a \<Rightarrow> let a' = agent_revoke_capability nm a in (Inr a', AList.update aid a' r))"

definition registry_revoke :: "str \<Rightarrow> registry \<Rightarrow> (registry, identity_error, agent) outcome" where
  "registry_revoke aid r =
     (case get_required r aid of
        Inl err \<Rightarrow> (Inl err, r)
      | Inr a \<Rightarrow> let a' = a\<lparr>agent_revoked := True\<rparr> in (Inr a', AList.update aid a' r))"

definition modified_since :: "int \<Rightarrow> registry \<Rightarrow> agent list" where
  "modified_since since r =
     filter (\<lambda>a. agent_created_at a \<ge> since \<and> \<not> agent_revoked a) (map snd r)"

definition registry_contains :: "registry \<Rightarrow> str \<Rightarrow> bool" where
  "registry_contains r aid = (map_of r aid \<noteq> None)"

text \<open>One call on the registry.\<close>

datatype registry_op =
    Register agent
  | UpdateCapabilities str "cap_entry list" bool
  | GrantCapability str cap_entry
  | RevokeCapability str str
  | RevokeAgent str

fun registry_step :: "registry_op \<Rightarrow> registry \<Rightarrow> registry" where
  "registry_step (Register a) r = snd (register a r)"
| "registry_step (UpdateCapabilities aid es rep) r = snd (update_capabilities aid es rep r)"
| "registry_step (GrantCapability aid e) r = snd (grant_capability aid e r)"
| "registry_step (RevokeCapability aid nm) r = snd (registry_revoke_capability aid nm r)"
| "registry_step (RevokeAgent aid) r = snd (registry_revoke aid r)"


section \<open>Invariant and lemmas\<close>

definition cap_ok :: "capability \<Rightarrow> bool" where
  "cap_ok c = (cap_name c \<noteq> [] \<and> py_lower (py_strip (cap_name c)) = cap_name c)"

definition agent_ok :: "agent \<Rightarrow> bool" where
  "agent_ok a = (agent_id a \<noteq> [] \<and> py_strip (agent_id a) = agent_id a \<and> agent_name a \<noteq> []
     \<and> list_all cap_ok (agent_capabilities a))"

fun entry_ok :: "cap_entry \<Rightarrow> bool" where
  "entry_ok (CapObj c) = cap_ok c"
| "entry_ok (CapStr nm) = True"

fun registry_op_ok :: "registry_op \<Rightarrow> bool" where
  "registry_op_ok (Register a) = agent_ok a"
| "registry_op_ok (UpdateCapabilities aid es rep) = list_all entry_ok es"
| "registry_op_ok (GrantCapability aid e) = entry_ok e"
| "registry_op_ok _ = True"

definition registry_ok :: "registry \<Rightarrow> bool" where
  "registry_ok r = (dict_ok r \<and> (\<forall>p \<in> set r. agent_id (snd p) = fst p \<and> agent_ok (snd p)))"

text \<open>What no operation of the registry takes back: a record stays, with the identity it was
  registered with, and a revocation is permanent.\<close>

definition retained :: "agent \<Rightarrow> agent \<Rightarrow> bool" where
  "retained a b = (agent_id b = agent_id a \<and> agent_name b = agent_name a
     \<and> agent_domain b = agent_domain a \<and> agent_trust_level b = agent_trust_level a
     \<and> agent_created_at b = agent_created_at a \<and> (agent_revoked a \<longrightarrow> agent_revoked b))"

definition registry_below :: "registry \<Rightarrow> registry \<Rightarrow> bool" where
  "registry_below r r' = (\<forall>k a. map_of r k = Some a \<longrightarrow>
     (\<exists>b. map_of r' k = Some b \<and> retained a b))"

lemma retained_refl: "retained a a"
  by (simp add: retained_def)

lemma retained_trans: "retained a b \<Longrightarrow> retained b c \<Longrightarrow> retained a c"
  by (auto simp: retained_def)

lemma mk_capability_ok: "mk_capability nm d l = Inr c \<Longrightarrow> cap_ok c"
  by (auto simp: mk_capability_def cap_ok_def Let_def py_strip_lower split: if_splits)

lemma to_capability_ok: "entry_ok e \<Longrightarrow> to_capability e = Inr c \<Longrightarrow> cap_ok c"
  by (cases e) (auto dest: mk_capability_ok)

lemma coerce_entries_ok:
  "list_all entry_ok es \<Longrightarrow> coerce_entries es = Inr cs \<Longrightarrow> list_all cap_ok cs"
  by (induction es arbitrary: cs) (auto split: sum.splits dest: to_capability_ok)

lemma coerce_capabilities_ok:
  assumes "coerce_capabilities caps = Inr cs"
    and "\<And>es. caps = CapsMany es \<Longrightarrow> list_all entry_ok es"
    and "\<And>e. caps = CapsOne e \<Longrightarrow> entry_ok e"
  shows "list_all cap_ok cs"
  using assms by (cases caps) (auto split: sum.splits dest: to_capability_ok coerce_entries_ok)

lemma caps_by_name_snoc:
  "caps_by_name (cs @ [c]) = AList.update (cap_name c) c (caps_by_name cs)"
  by (simp add: caps_by_name_def)

lemma merge_caps_snoc:
  "merge_caps d (cs @ [c]) =
     (let m = merge_caps d cs in
      if map_of m (cap_name c) = None then AList.update (cap_name c) c m else m)"
  by (simp add: merge_caps_def Let_def)

text \<open>The values of both dicts sit under their own name.\<close>

definition named_dict :: "(str \<times> capability) list \<Rightarrow> bool" where
  "named_dict d = (dict_ok d \<and> (\<forall>p \<in> set d. cap_name (snd p) = fst p))"

lemma named_dict_update: "named_dict d \<Longrightarrow> named_dict (AList.update (cap_name c) c d)"
  by (auto simp: named_dict_def set_update_dict)

lemma named_caps_by_name: "named_dict (caps_by_name cs)"
proof (induction cs rule: rev_induct)
  case Nil
  show ?case by (simp add: named_dict_def caps_by_name_def)
next
  case (snoc c cs)
  then show ?case by (simp add: caps_by_name_snoc named_dict_update)
qed

lemma named_merge_caps: "named_dict d \<Longrightarrow> named_dict (merge_caps d cs)"
proof (induction cs rule: rev_induct)
  case Nil
  then show ?case by (simp add: merge_caps_def)
next
  case (snoc c cs)
  then show ?case by (auto simp: merge_caps_snoc Let_def intro: named_dict_update)
qed

lemma set_caps_by_name: "snd ` set (caps_by_name cs) \<subseteq> set cs"
proof (induction cs rule: rev_induct)
  case Nil
  show ?case by (simp add: caps_by_name_def)
next
  case (snoc c cs)
  then show ?case
    using named_caps_by_name [of cs]
    by (auto simp: caps_by_name_snoc set_update_dict named_dict_def)
qed

lemma set_merge_caps: "named_dict d \<Longrightarrow> snd ` set (merge_caps d cs) \<subseteq> snd ` set d \<union> set cs"
proof (induction cs rule: rev_induct)
  case Nil
  then show ?case by (simp add: merge_caps_def)
next
  case (snoc c cs)
  then have "dict_ok (merge_caps d cs)"
    using named_merge_caps by (auto simp: named_dict_def)
  with snoc show ?case by (auto simp: merge_caps_snoc Let_def set_update_dict)
qed

lemma first_level_map_of:
  "named_dict d \<Longrightarrow> first_level (map snd d) n = map_option cap_max_level (map_of d n)"
  by (induction d) (auto simp: named_dict_def dict_ok_def)

lemma caps_by_name_distinct:
  "distinct (map cap_name cs) \<Longrightarrow> caps_by_name cs = map (\<lambda>c. (cap_name c, c)) cs"
proof (induction cs rule: rev_induct)
  case Nil
  show ?case by (simp add: caps_by_name_def)
next
  case (snoc c cs)
  then have "map_of (caps_by_name cs) (cap_name c) = None"
    by (auto simp: map_of_eq_None_iff)
  with snoc show ?case by (simp add: caps_by_name_snoc update_fresh)
qed

lemma map_of_merge_caps:
  "map_of (merge_caps d cs) n =
     (case map_of d n of Some c \<Rightarrow> Some c | None \<Rightarrow> find (\<lambda>c. cap_name c = n) cs)"
proof (induction cs rule: rev_induct)
  case Nil
  show ?case by (simp add: merge_caps_def split: option.splits)
next
  case (snoc c cs)
  have "find P (xs @ [x]) = (case find P xs of Some y \<Rightarrow> Some y | None \<Rightarrow> find P [x])" for P xs
    and x :: capability
    by (induction xs) auto
  with snoc show ?case by (auto simp: merge_caps_snoc Let_def split: option.splits)
qed

lemma first_level_find: "first_level cs n = map_option cap_max_level (find (\<lambda>c. cap_name c = n) cs)"
  by (induction cs) auto

subsection \<open>Each operation keeps the invariant\<close>

lemma registry_ok_lookup: "registry_ok r \<Longrightarrow> map_of r k = Some a \<Longrightarrow> agent_id a = k \<and> agent_ok a"
  by (auto simp: registry_ok_def dest!: map_of_SomeD)

lemma registry_ok_update:
  "registry_ok r \<Longrightarrow> agent_id a = k \<Longrightarrow> agent_ok a \<Longrightarrow> registry_ok (AList.update k a r)"
  by (auto simp: registry_ok_def set_update_dict)

lemma registry_ok_revise:
  assumes "registry_ok r" "map_of r k = Some a" "agent_id b = agent_id a" "agent_ok a \<Longrightarrow> agent_ok b"
  shows "registry_ok (AList.update k b r)"
  using registry_ok_lookup [OF assms(1,2)] assms by (auto intro: registry_ok_update)

lemma get_required_simps:
  "get_required r aid = Inr a \<longleftrightarrow> map_of r aid = Some a"
  "get_required r aid = Inl err \<longleftrightarrow> map_of r aid = None \<and> err = UnknownAgent aid"
  by (auto simp: get_required_def split: option.splits)

lemma new_caps_ok:
  assumes "list_all cap_ok (agent_capabilities a)" "list_all cap_ok inc"
  shows "list_all cap_ok (if rep then inc
           else map snd (merge_caps (caps_by_name (agent_capabilities a)) inc))"
proof -
  have "snd ` set (merge_caps (caps_by_name (agent_capabilities a)) inc)
      \<subseteq> set (agent_capabilities a) \<union> set inc"
    using set_merge_caps [OF named_caps_by_name] set_caps_by_name by blast
  with assms show ?thesis by (auto simp: list_all_iff)
qed

lemma register_ok [step_inv]: "agent_ok a \<Longrightarrow> registry_ok r \<Longrightarrow> registry_ok (snd (register a r))"
  by (simp add: register_def registry_ok_update)

lemma update_capabilities_ok [step_inv]:
  assumes "list_all entry_ok es" "registry_ok r"
  shows "registry_ok (snd (update_capabilities aid es rep r))"
proof (cases "map_of r aid")
  case None
  with assms show ?thesis by (simp add: update_capabilities_def get_required_def)
next
  case (Some a)
  note a = registry_ok_lookup [OF assms(2) Some]
  show ?thesis
  proof (cases "coerce_entries es")
    case (Inl err)
    with assms Some show ?thesis by (simp add: update_capabilities_def get_required_def)
  next
    case (Inr inc)
    have "list_all cap_ok inc" using assms(1) Inr by (rule coerce_entries_ok)
    then have "agent_ok (a\<lparr>agent_capabilities := if rep then inc
        else map snd (merge_caps (caps_by_name (agent_capabilities a)) inc)\<rparr>)"
      using a new_caps_ok [of a inc rep] by (auto simp: agent_ok_def)
    then show ?thesis
      using Some Inr registry_ok_revise [OF assms(2) Some]
      by (simp add: update_capabilities_def get_required_def Let_def)
  qed
qed

lemma registry_revoke_capability_ok [step_inv]:
  "registry_ok r \<Longrightarrow> registry_ok (snd (registry_revoke_capability aid nm r))"
  by (auto simp: registry_revoke_capability_def agent_revoke_capability_def Let_def
      get_required_def agent_ok_def list_all_iff split: option.splits intro: registry_ok_revise)

lemma registry_revoke_ok [step_inv]: "registry_ok r \<Longrightarrow> registry_ok (snd (registry_revoke aid r))"
  by (auto simp: registry_revoke_def Let_def get_required_def agent_ok_def
      split: option.splits intro: registry_ok_revise)

lemma registry_below_update:
  "map_of r k = Some a \<Longrightarrow> retained a b \<Longrightarrow> registry_below r (AList.update k b r)"
  by (auto simp: registry_below_def retained_refl)

lemma registry_below_refl: "registry_below r r"
  by (simp add: registry_below_def retained_refl)

lemma register_below: "registry_below r (snd (register a r))"
  by (auto simp: register_def registry_below_def retained_refl)

lemma update_capabilities_below: "registry_below r (snd (update_capabilities aid es rep r))"
  by (auto simp: update_capabilities_def get_required_def Let_def registry_below_refl retained_def
      split: option.splits sum.splits intro!: registry_below_update)

lemma registry_revoke_capability_below:
  "registry_below r (snd (registry_revoke_capability aid nm r))"
  by (auto simp: registry_revoke_capability_def agent_revoke_capability_def get_required_def
      Let_def registry_below_refl retained_def split: option.splits intro!: registry_below_update)

lemma registry_revoke_below: "registry_below r (snd (registry_revoke aid r))"
  by (auto simp: registry_revoke_def get_required_def Let_def registry_below_refl retained_def
      split: option.splits intro!: registry_below_update)

lemmas registry_belows = register_below update_capabilities_below
  registry_revoke_capability_below registry_revoke_below

interpretation registry_runs: op_progress registry_step registry_ok registry_op_ok registry_below
proof
  fix x r assume "registry_op_ok x" "registry_ok r"
  then show "registry_ok (registry_step x r)"
    by (cases x) (auto simp: grant_capability_def intro: step_inv)
next
  fix x r assume "registry_op_ok x" "registry_ok r"
  then show "registry_below r (registry_step x r)"
    by (cases x) (auto simp: grant_capability_def registry_belows)
next
  fix r s t assume "registry_below r s" "registry_below s t"
  then show "registry_below r t"
    unfolding registry_below_def by (meson retained_trans)
qed (rule registry_below_refl)


interpretation agent_store: unique_store registry_get register agent_id
  by unfold_locales (auto simp: registry_get_def register_def)

section \<open>Properties\<close>

text \<open>Whatever sequence of calls the registry serves, it holds at most one record per
  identifier, each under its own normalised non-empty identifier, and every capability name in
  it is non-empty, stripped and lower case.\<close>

lemma registry_run_wellformed:
  assumes "list_all registry_op_ok ops"
  shows "registry_ok (run_ops registry_step ops [])"
  using assms by (rule registry_runs.run_keeps) (simp add: registry_ok_def)

lemma registry_run_wellformed_example:
  "list_all registry_op_ok
     [Register \<lparr>agent_id = ''a1'', agent_name = ''scout'', agent_domain = ''security'',
        agent_capabilities = [], agent_trust_level = VERIFIED, agent_created_at = 5,
        agent_metadata = [], agent_revoked = False\<rparr>,
      GrantCapability ''a1'' (CapStr '' Inspect''), RevokeAgent ''a1'']
   \<and> registry_ok (run_ops registry_step
     [Register \<lparr>agent_id = ''a1'', agent_name = ''scout'', agent_domain = ''security'',
        agent_capabilities = [], agent_trust_level = VERIFIED, agent_created_at = 5,
        agent_metadata = [], agent_revoked = False\<rparr>,
      GrantCapability ''a1'' (CapStr '' Inspect''), RevokeAgent ''a1''] [])"
proof -
  have "list_all registry_op_ok
     [Register \<lparr>agent_id = ''a1'', agent_name = ''scout'', agent_domain = ''security'',
        agent_capabilities = [], agent_trust_level = VERIFIED, agent_created_at = 5,
        agent_metadata = [], agent_revoked = False\<rparr>,
      GrantCapability ''a1'' (CapStr '' Inspect''), RevokeAgent ''a1'']"
    by (simp add: agent_ok_def py_strip_def py_lstrip_def py_rstrip_def py_space_def)
  then show ?thesis using registry_run_wellformed by blast
qed

text \<open>Registering a list of identities one after the other, an identifier resolves to the
  first identity registered under it: a later registration with the same identifier is refused
  and changes nothing.\<close>

lemma register_first_wins:
  "registry_get (run_ops (\<lambda>a r. snd (register a r)) as []) k = find (\<lambda>a. agent_id a = k) as"
  using agent_store.first_record_kept [of as "[]" k] by (simp add: registry_get_def)

lemma update_keeps_capabilities:
  assumes "map_of r aid = Some a"
    and "distinct (map cap_name (agent_capabilities a))"
    and "coerce_entries es = Inr inc"
    and "update_capabilities aid es False r = (Inr a', r')"
  shows "prefix (agent_capabilities a) (agent_capabilities a')"
    and "distinct (map cap_name (agent_capabilities a'))"
    and "first_level (agent_capabilities a') n =
           (case first_level (agent_capabilities a) n of Some l \<Rightarrow> Some l | None \<Rightarrow> first_level inc n)"
    and "registry_get r' aid = Some a'"
proof -
  let ?old = "map (\<lambda>c. (cap_name c, c)) (agent_capabilities a)"
  let ?new = "merge_caps ?old inc"
  have a': "agent_capabilities a' = map snd ?new" and r': "r' = AList.update aid a' r"
    using assms by (auto simp: update_capabilities_def get_required_def Let_def caps_by_name_distinct)
  have old: "named_dict ?old"
    using assms(2) by (simp add: named_dict_def dict_ok_def comp_def)
  have new: "named_dict ?new" using old by (rule named_merge_caps)
  have names: "map cap_name (map snd d) = map fst d" if "named_dict d" for d
    using that by (simp add: named_dict_def)
  show "distinct (map cap_name (agent_capabilities a'))"
    using new unfolding a' names [OF new] by (simp add: named_dict_def dict_ok_def)
  show "first_level (agent_capabilities a') n =
      (case first_level (agent_capabilities a) n of Some l \<Rightarrow> Some l | None \<Rightarrow> first_level inc n)"
    using first_level_map_of [OF old, of n] first_level_map_of [OF new, of n]
    by (simp add: a' map_of_merge_caps first_level_find comp_def split: option.splits)
  show "registry_get r' aid = Some a'" by (simp add: r' registry_get_def)
  have "prefix d (merge_caps d cs)" for d cs
    by (induction cs rule: rev_induct)
      (auto simp: merge_caps_def update_fresh intro: prefix_order.trans)
  then obtain zs where "?new = ?old @ zs" by (blast elim: prefixE)
  then show "prefix (agent_capabilities a) (agent_capabilities a')"
    by (simp add: a' comp_def)
qed

text \<open>Merging capabilities into an agent with distinct capability names neither drops,
  reorders nor re-bounds what it holds: the old capabilities stay as they were, in front, names
  stay distinct, and a name the agent did not hold gets the ceiling of its first incoming
  entry.\<close>

lemma merge_keeps_ceilings:
  assumes "map_of r aid = Some a"
    and "distinct (map cap_name (agent_capabilities a))"
    and "coerce_entries es = Inr inc"
    and "update_capabilities aid es False r = (Inr a', r')"
  shows "prefix (agent_capabilities a) (agent_capabilities a')
    \<and> distinct (map cap_name (agent_capabilities a'))
    \<and> (\<forall>n. first_level (agent_capabilities a') n =
           (case first_level (agent_capabilities a) n of Some l \<Rightarrow> Some l | None \<Rightarrow> first_level inc n))
    \<and> registry_get r' aid = Some a'"
  using update_keeps_capabilities [OF assms] by blast

lemma merge_keeps_ceilings_witness:
  "\<exists>a a' r'. map_of [(''a1'', a)] ''a1'' = Some a
     \<and> coerce_entries [CapStr ''Inspect'', CapStr ''scan''] =
         Inr [\<lparr>cap_name = ''inspect'', cap_description = [], cap_max_level = L0_OBSERVATION\<rparr>,
              \<lparr>cap_name = ''scan'', cap_description = [], cap_max_level = L0_OBSERVATION\<rparr>]
     \<and> update_capabilities ''a1'' [CapStr ''Inspect'', CapStr ''scan''] False [(''a1'', a)] = (Inr a', r')
     \<and> first_level (agent_capabilities a') ''inspect'' = Some L3_HIGH_IMPACT
     \<and> first_level (agent_capabilities a') ''scan'' = Some L0_OBSERVATION"
proof -
  define a where "a = \<lparr>agent_id = ''a1'', agent_name = ''scout'', agent_domain = ''security'',
      agent_capabilities = [\<lparr>cap_name = ''inspect'', cap_description = [], cap_max_level = L3_HIGH_IMPACT\<rparr>],
      agent_trust_level = TRUSTED, agent_created_at = 5, agent_metadata = [], agent_revoked = False\<rparr>"
  have co: "coerce_entries [CapStr ''Inspect'', CapStr ''scan''] =
         Inr [\<lparr>cap_name = ''inspect'', cap_description = [], cap_max_level = L0_OBSERVATION\<rparr>,
              \<lparr>cap_name = ''scan'', cap_description = [], cap_max_level = L0_OBSERVATION\<rparr>]"
    by code_simp
  obtain a' r' where u: "update_capabilities ''a1'' [CapStr ''Inspect'', CapStr ''scan''] False
      [(''a1'', a)] = (Inr a', r')"
    using co by (auto simp: update_capabilities_def get_required_def Let_def)
  have m: "map_of [(''a1'', a)] ''a1'' = Some a" by simp
  have d: "distinct (map cap_name (agent_capabilities a))" by (simp add: a_def)
  have l: "first_level (agent_capabilities a') n = (case first_level (agent_capabilities a) n of
      Some l \<Rightarrow> Some l
    | None \<Rightarrow> first_level [\<lparr>cap_name = ''inspect'', cap_description = [], cap_max_level = L0_OBSERVATION\<rparr>,
        \<lparr>cap_name = ''scan'', cap_description = [], cap_max_level = L0_OBSERVATION\<rparr>] n)" for n
    using merge_keeps_ceilings [OF m d co u] by blast
  show ?thesis
    using m co u l [of "''inspect''"] l [of "''scan''"] by (auto simp: a_def)
qed

end
