(* ===== verification/Kernel_Policy.thy ===== *)
theory Kernel_Policy
  imports Kernel_Identity
begin

text \<open>
  The policy engine, \<open>src/agency/kernel/policies.py\<close>: permissions with their network,
  filesystem, data and resource clauses, scope globs compiled to anchored regular
  expressions, and the deterministic authorisation decision \<open>evaluate\<close>.

  The engine's state is the dict of issued permissions, in issue order, keyed by agent and
  scope. A \<open>datetime\<close> is an instant in microseconds that is timezone-aware or naive: comparing
  the two kinds raises, which is an error value here. \<open>PurePosixPath\<close> and the three regular
  expression constructs the globs compile to are modelled as the standard library defines
  them.
\<close>

section \<open>Required trust\<close>

fun required_trust :: "action_class \<Rightarrow> trust_level" where
  "required_trust L0_OBSERVATION = UNKNOWN"
| "required_trust L1_SAFE_ANALYSIS = OBSERVED"
| "required_trust L2_CONTROLLED_TESTING = VERIFIED"
| "required_trust L3_HIGH_IMPACT = TRUSTED"
| "required_trust L4_PRODUCTION = TRUSTED"
| "required_trust L5_DESTRUCTIVE = HIGH_TRUST"

section \<open>Clauses of a permission\<close>

datatype network_scope = NetNone | NetLoopback | NetPrivate | NetLimited | NetFull

record network_policy =
  net_scope :: network_scope
  net_allowed_hosts :: "str list"
  net_allowed_ports :: "int list"

definition network_allows :: "network_policy \<Rightarrow> str \<Rightarrow> int \<Rightarrow> bool" where
  "network_allows p host port =
     (if net_allowed_hosts p \<noteq> [] \<and> host \<notin> set (net_allowed_hosts p) then False
      else net_allowed_ports p = [] \<or> port \<in> set (net_allowed_ports p))"

text \<open>\<open>PurePosixPath\<close>: the root (one or exactly two leading slashes), the non-empty parts that
  are not a single dot, the text form and the suffix of the last part.\<close>

fun split_on :: "char \<Rightarrow> str \<Rightarrow> str list" where
  "split_on sep [] = [[]]"
| "split_on sep (c # cs) =
     (if c = sep then [] # split_on sep cs
      else (case split_on sep cs of [] \<Rightarrow> [[c]] | w # ws \<Rightarrow> (c # w) # ws))"

fun join_with :: "str \<Rightarrow> str list \<Rightarrow> str" where
  "join_with sep [] = []"
| "join_with sep [w] = w"
| "join_with sep (w # ws) = w @ sep @ join_with sep ws"

definition path_root :: "str \<Rightarrow> str" where
  "path_root s = (if prefix ''//'' s \<and> \<not> prefix ''///'' s then ''//''
                  else if prefix ''/'' s then ''/'' else [])"

definition path_parts :: "str \<Rightarrow> str list" where
  "path_parts s = filter (\<lambda>w. w \<noteq> [] \<and> w \<noteq> ''.'') (split_on CHR ''/'' s)"

definition path_str :: "str \<Rightarrow> str" where
  "path_str s = (let t = path_root s @ join_with ''/'' (path_parts s) in if t = [] then ''.'' else t)"

definition path_suffix :: "str \<Rightarrow> str" where
  "path_suffix s =
     (case rev (path_parts s) of
        [] \<Rightarrow> []
      | name # _ \<Rightarrow>
          let tail = length (takeWhile (\<lambda>c. c \<noteq> CHR ''.'') (rev name)); n = length name in
          if tail = n then []
          else let i = n - 1 - tail in if 0 < i \<and> i < n - 1 then drop i name else [])"

record filesystem_policy =
  fs_roots :: "str list"
  fs_read_only :: bool
  fs_forbidden_suffixes :: "str list"

definition within_roots :: "filesystem_policy \<Rightarrow> str \<Rightarrow> bool" where
  "within_roots p path =
     (if path_suffix path \<in> set (fs_forbidden_suffixes p) then False
      else list_ex (\<lambda>root. prefix (path_str root) (path_str path)) (fs_roots p))"

definition allows_read :: "filesystem_policy \<Rightarrow> str \<Rightarrow> bool" where
  "allows_read p path = within_roots p path"

definition allows_write :: "filesystem_policy \<Rightarrow> str \<Rightarrow> bool" where
  "allows_write p path = (if fs_read_only p then False else within_roots p path)"

record data_policy =
  data_allow_pii :: bool
  data_allow_persist :: bool
  data_max_egress_bytes :: int
  data_allowed_types :: "str list"

record resource_limits =
  res_max_cpu_seconds :: int
  res_max_memory_mb :: int
  res_max_network_mb :: int
  res_max_concurrency :: int

section \<open>Permissions\<close>

datatype policy_error =
    EmptyField
  | ScopeWhitespace
  | NegativeLimit
  | NaiveAwareComparison

datatype datetime = Aware int | Naive int

fun dt_ge :: "datetime \<Rightarrow> datetime \<Rightarrow> (policy_error, bool) res" where
  "dt_ge (Aware a) (Aware b) = Inr (a \<ge> b)"
| "dt_ge (Naive a) (Naive b) = Inr (a \<ge> b)"
| "dt_ge _ _ = Inl NaiveAwareComparison"

record permission =
  perm_agent_id :: str
  perm_target_scope :: str
  perm_capabilities :: "str list"
  perm_network_policy :: network_policy
  perm_filesystem_policy :: filesystem_policy
  perm_data_policy :: data_policy
  perm_time_limit :: "int option"
  perm_resource_limits :: resource_limits
  perm_created_at :: datetime
  perm_expires_at :: "datetime option"
  perm_human_approved :: bool

definition validate_scope :: "str \<Rightarrow> (policy_error, str) res" where
  "validate_scope raw =
     (let value = py_strip raw in
      if value = [] then Inl EmptyField
      else if list_ex (\<lambda>c. c \<in> {CHR '' '', CHR 0x09, CHR 0x0A}) value then Inl ScopeWhitespace
      else Inr value)"

definition coerce_cap_names :: "str list \<Rightarrow> str list" where
  "coerce_cap_names caps = map (\<lambda>c. py_lower (py_strip c)) (filter (\<lambda>c. py_strip c \<noteq> []) caps)"

definition data_policy_ok :: "data_policy \<Rightarrow> bool" where
  "data_policy_ok d = (data_max_egress_bytes d \<ge> 0)"

definition resource_limits_ok :: "resource_limits \<Rightarrow> bool" where
  "resource_limits_ok l = (res_max_cpu_seconds l \<ge> 0 \<and> res_max_memory_mb l \<ge> 0
     \<and> res_max_network_mb l \<ge> 0 \<and> res_max_concurrency l \<ge> 1)"

text \<open>\<open>Permission(...)\<close> from raw field values: constraints and validators of the model.\<close>

definition mk_permission :: "permission \<Rightarrow> (policy_error, permission) res" where
  "mk_permission p =
     (if length (perm_agent_id p) < 1 \<or> length (perm_target_scope p) < 1 then Inl EmptyField
      else if \<not> data_policy_ok (perm_data_policy p) \<or> \<not> resource_limits_ok (perm_resource_limits p)
        then Inl NegativeLimit
      else case validate_scope (perm_target_scope p) of
          Inl e \<Rightarrow> Inl e
        | Inr scope \<Rightarrow> Inr (p\<lparr>perm_target_scope := scope,
            perm_capabilities := coerce_cap_names (perm_capabilities p)\<rparr>))"

definition is_expired :: "permission \<Rightarrow> datetime \<Rightarrow> (policy_error, bool) res" where
  "is_expired p now =
     (case (case perm_expires_at p of None \<Rightarrow> Inr False | Some e \<Rightarrow> dt_ge now e) of
        Inl err \<Rightarrow> Inl err
      | Inr True \<Rightarrow> Inr True
      | Inr False \<Rightarrow>
          (case perm_time_limit p of
             None \<Rightarrow> Inr False
           | Some limit \<Rightarrow>
               let dead = (case perm_created_at p of Aware c \<Rightarrow> Aware (c + limit) | Naive c \<Rightarrow> Aware c)
               in dt_ge now dead))"

subsection \<open>Scope globs\<close>

datatype regex_item = ReBegin | ReAnyRun | ReChar char | ReEscaped char | ReEnd

definition special_re_chars :: "str" where
  "special_re_chars = ''.^$+?[]{}()'' @ [CHR 0x5C, CHR ''|'']"

definition re_escape :: "char \<Rightarrow> regex_item" where
  "re_escape c = (if c \<in> set special_re_chars then ReEscaped c else ReChar c)"

definition glob_to_regex :: "str \<Rightarrow> regex_item list" where
  "glob_to_regex pattern =
     ReBegin # map (\<lambda>c. if c = CHR ''*'' then ReAnyRun else re_escape c) pattern @ [ReEnd]"

text \<open>\<open>re.match\<close> on these items: a run of dots does not cross a newline, and the end anchor
  also holds just before a final newline.\<close>

fun re_items :: "regex_item list \<Rightarrow> str \<Rightarrow> bool" where
  "re_items [] s = True"
| "re_items (ReChar c # r) s = (case s of [] \<Rightarrow> False | x # xs \<Rightarrow> x = c \<and> re_items r xs)"
| "re_items (ReEscaped c # r) s = (case s of [] \<Rightarrow> False | x # xs \<Rightarrow> x = c \<and> re_items r xs)"
| "re_items (ReAnyRun # r) s =
     (re_items r s \<or> (case s of [] \<Rightarrow> False | x # xs \<Rightarrow> x \<noteq> newline \<and> re_items (ReAnyRun # r) xs))"
| "re_items (ReEnd # r) s = ((s = [] \<or> s = [newline]) \<and> re_items r s)"
| "re_items (ReBegin # r) s = False"

definition re_match :: "regex_item list \<Rightarrow> str \<Rightarrow> bool" where
  "re_match items s = (case items of ReBegin # r \<Rightarrow> re_items r s | _ \<Rightarrow> re_items items s)"

definition matches_scope :: "permission \<Rightarrow> str \<Rightarrow> bool" where
  "matches_scope p target =
     (if perm_target_scope p = ''*'' then True
      else re_match (glob_to_regex (perm_target_scope p)) target)"

section \<open>The engine\<close>

type_synonym engine = "((str \<times> str) \<times> permission) list"

definition issue :: "permission \<Rightarrow> engine \<Rightarrow> engine" where
  "issue p e = AList.update (perm_agent_id p, perm_target_scope p) p e"

definition engine_revoke :: "str \<Rightarrow> str \<Rightarrow> engine \<Rightarrow> bool \<times> engine" where
  "engine_revoke aid scope e = (map_of e (aid, scope) \<noteq> None, AList.delete (aid, scope) e)"

definition revoke_all :: "str \<Rightarrow> engine \<Rightarrow> nat \<times> engine" where
  "revoke_all aid e =
     (let expired = filter (\<lambda>k. fst k = aid) (map fst e)
      in (length expired, foldl (\<lambda>d k. AList.delete k d) e expired))"

definition permissions_for :: "str \<Rightarrow> engine \<Rightarrow> permission list" where
  "permissions_for aid e = map snd (filter (\<lambda>(k, _). fst k = aid) e)"

datatype reason =
    AgentRevoked str
  | TrustTooLow trust_level trust_level action_class
  | NoCapabilityCovers action_class
  | NeedsHumanApproval action_class
  | NoPermissionFor str
  | PermissionExpired
  | GrantsNoCapability str
  | CeilingTooLow action_class nat

record decision =
  dec_allowed :: bool
  dec_action :: action_class
  dec_agent_id :: str
  dec_target :: str
  dec_reasons :: "reason list"
  dec_matched :: "permission option"

definition denied :: "decision \<Rightarrow> bool" where
  "denied d = (\<not> dec_allowed d)"

fun gate_loop :: "action_class \<Rightarrow> str \<Rightarrow> permission list \<Rightarrow> bool" where
  "gate_loop action target [] = False"
| "gate_loop action target (p # ps) =
     (if perm_human_approved p \<and> matches_scope p target
      then (if action = L5_DESTRUCTIVE \<and> perm_time_limit p = None
            then gate_loop action target ps else True)
      else gate_loop action target ps)"

definition human_gate_met :: "action_class \<Rightarrow> agent \<Rightarrow> str \<Rightarrow> engine \<Rightarrow> bool" where
  "human_gate_met action a target e = gate_loop action target (permissions_for (agent_id a) e)"

fun match_loop :: "str \<Rightarrow> str \<Rightarrow> engine \<Rightarrow> permission option" where
  "match_loop aid target [] = None"
| "match_loop aid target ((k, p) # e) =
     (if fst k \<noteq> aid then match_loop aid target e
      else if \<not> matches_scope p target then match_loop aid target e
      else Some p)"

definition ceilings :: "agent \<Rightarrow> (str \<times> nat) list" where
  "ceilings a = foldl (\<lambda>d c. AList.update (cap_name c) (action_level (cap_max_level c)) d) []
     (agent_capabilities a)"

definition granted_names :: "agent \<Rightarrow> permission \<Rightarrow> str list" where
  "granted_names a p =
     filter (\<lambda>n. n \<in> cap_name ` set (agent_capabilities a)) (remdups (perm_capabilities p))"

definition granted_ceiling :: "agent \<Rightarrow> permission \<Rightarrow> nat" where
  "granted_ceiling a p =
     fold max (map (\<lambda>n. case map_of (ceilings a) n of Some l \<Rightarrow> l | None \<Rightarrow> 0) (granted_names a p)) 0"

definition match_reasons ::
  "action_class \<Rightarrow> agent \<Rightarrow> str \<Rightarrow> datetime \<Rightarrow> permission option \<Rightarrow> (policy_error, reason list) res"
  where
  "match_reasons action a target now matched =
     (case matched of
        None \<Rightarrow> Inr [NoPermissionFor target]
      | Some p \<Rightarrow>
          (case is_expired p now of
             Inl err \<Rightarrow> Inl err
           | Inr dead \<Rightarrow>
               Inr ((if dead then [PermissionExpired] else [])
                 @ (if granted_names a p = [] then [GrantsNoCapability (perm_target_scope p)]
                    else if granted_ceiling a p < action_level action
                      then [CeilingTooLow action (action_level action)] else []))))"

text \<open>The reasons the checks before the permission search give, in their order.\<close>

definition agent_reasons :: "action_class \<Rightarrow> agent \<Rightarrow> str \<Rightarrow> engine \<Rightarrow> reason list" where
  "agent_reasons action a target e =
     (if agent_revoked a then [AgentRevoked (agent_id a)] else [])
     @ (if trust_rank (agent_trust_level a) < trust_rank (required_trust action)
        then [TrustTooLow (agent_trust_level a) (required_trust action) action] else [])
     @ (if \<not> list_ex (\<lambda>c. action_level (cap_max_level c) \<ge> action_level action) (agent_capabilities a)
        then [NoCapabilityCovers action] else [])
     @ (if action \<in> {L4_PRODUCTION, L5_DESTRUCTIVE} \<and> \<not> human_gate_met action a target e
        then [NeedsHumanApproval action] else [])"

definition evaluate ::
  "action_class \<Rightarrow> agent \<Rightarrow> str \<Rightarrow> datetime \<Rightarrow> engine \<Rightarrow> (policy_error, decision) res" where
  "evaluate action a target now e =
     (let matched = match_loop (agent_id a) target e
      in case match_reasons action a target now matched of
           Inl err \<Rightarrow> Inl err
         | Inr rs \<Rightarrow>
             let reasons = agent_reasons action a target e @ rs in
             Inr \<lparr>dec_allowed = (reasons = []), dec_action = action, dec_agent_id = agent_id a,
                  dec_target = target, dec_reasons = reasons, dec_matched = matched\<rparr>)"

definition can_execute ::
  "action_class \<Rightarrow> agent \<Rightarrow> str \<Rightarrow> datetime \<Rightarrow> engine \<Rightarrow> (policy_error, bool) res" where
  "can_execute action a target now e = map_sum id dec_allowed (evaluate action a target now e)"

datatype engine_op = Issue permission | RevokeScope str str | RevokeAll str

fun engine_step :: "engine_op \<Rightarrow> engine \<Rightarrow> engine" where
  "engine_step (Issue p) e = issue p e"
| "engine_step (RevokeScope aid scope) e = snd (engine_revoke aid scope e)"
| "engine_step (RevokeAll aid) e = snd (revoke_all aid e)"


section \<open>Lemmas\<close>

subsection \<open>Globs\<close>

text \<open>The language a glob is meant to have: a star is any run of characters other than a
  newline, every other character stands for itself.\<close>

inductive glob_lang :: "str \<Rightarrow> str \<Rightarrow> bool" where
  glob_nil: "glob_lang [] []"
| glob_star: "newline \<notin> set u \<Longrightarrow> glob_lang p v \<Longrightarrow> glob_lang (CHR ''*'' # p) (u @ v)"
| glob_char: "c \<noteq> CHR ''*'' \<Longrightarrow> glob_lang p v \<Longrightarrow> glob_lang (c # p) (c # v)"

inductive_cases glob_lang_NilE [elim!]: "glob_lang [] t"
inductive_cases glob_lang_ConsE: "glob_lang (c # p) t"

lemma glob_lang_Nil [simp]: "glob_lang [] t \<longleftrightarrow> t = []"
  by (auto intro: glob_lang.glob_nil)

lemma glob_lang_char [simp]:
  "c \<noteq> CHR ''*'' \<Longrightarrow> glob_lang (c # p) t \<longleftrightarrow> (\<exists>v. t = c # v \<and> glob_lang p v)"
  by (auto elim: glob_lang_ConsE intro: glob_lang.glob_char)

lemma glob_lang_star:
  "glob_lang (CHR ''*'' # p) t \<longleftrightarrow> (\<exists>u v. t = u @ v \<and> newline \<notin> set u \<and> glob_lang p v)"
proof
  assume "glob_lang (CHR ''*'' # p) t"
  then show "\<exists>u v. t = u @ v \<and> newline \<notin> set u \<and> glob_lang p v"
    by (rule glob_lang_ConsE) blast+
qed (auto intro: glob_lang.glob_star)

lemma re_items_literal:
  "re_items (re_escape c # r) s \<longleftrightarrow> (\<exists>v. s = c # v \<and> re_items r v)"
  by (auto simp: re_escape_def split: list.splits)

lemma re_items_any_run:
  "re_items (ReAnyRun # r) s \<longleftrightarrow> (\<exists>u v. s = u @ v \<and> newline \<notin> set u \<and> re_items r v)"
proof (induction s)
  case Nil
  show ?case by simp
next
  case (Cons x xs)
  have "re_items (ReAnyRun # r) (x # xs) \<longleftrightarrow>
      re_items r (x # xs) \<or> x \<noteq> newline \<and> (\<exists>u v. xs = u @ v \<and> newline \<notin> set u \<and> re_items r v)"
    using Cons.IH by simp
  also have "\<dots> \<longleftrightarrow> (\<exists>u v. x # xs = u @ v \<and> newline \<notin> set u \<and> re_items r v)" (is "?l \<longleftrightarrow> ?r")
  proof
    assume ?l
    then show ?r
    proof
      assume "re_items r (x # xs)"
      then show ?r by (intro exI [of _ "[]"] exI [of _ "x # xs"]) simp
    next
      assume "x \<noteq> newline \<and> (\<exists>u v. xs = u @ v \<and> newline \<notin> set u \<and> re_items r v)"
      then obtain u v where "x # xs = (x # u) @ v" "newline \<notin> set (x # u)" "re_items r v" by auto
      then show ?r by blast
    qed
  next
    assume ?r
    then obtain u v where uv: "x # xs = u @ v" "newline \<notin> set u" "re_items r v" by blast
    then show ?l by (cases u) auto
  qed
  finally show ?case .
qed

lemma re_items_glob:
  "re_items (map (\<lambda>c. if c = CHR ''*'' then ReAnyRun else re_escape c) p @ [ReEnd]) t
     \<longleftrightarrow> (\<exists>v w. t = v @ w \<and> glob_lang p v \<and> (w = [] \<or> w = [newline]))"
proof (induction p arbitrary: t)
  case Nil
  show ?case by auto
next
  case (Cons c p)
  show ?case
  proof (cases "c = CHR ''*''")
    case True
    have "re_items (ReAnyRun # map (\<lambda>c. if c = CHR ''*'' then ReAnyRun else re_escape c) p @ [ReEnd]) t
      \<longleftrightarrow> (\<exists>u v w. t = u @ v @ w \<and> newline \<notin> set u \<and> glob_lang p v \<and> (w = [] \<or> w = [newline]))"
      unfolding re_items_any_run Cons.IH by blast
    also have "\<dots> \<longleftrightarrow> (\<exists>v w. t = v @ w \<and> glob_lang (CHR ''*'' # p) v \<and> (w = [] \<or> w = [newline]))"
      unfolding glob_lang_star by (metis append.assoc)
    finally show ?thesis using True by simp
  next
    case False
    have "re_items (re_escape c # map (\<lambda>c. if c = CHR ''*'' then ReAnyRun else re_escape c) p @ [ReEnd]) t
      \<longleftrightarrow> (\<exists>v w. t = (c # v) @ w \<and> glob_lang p v \<and> (w = [] \<or> w = [newline]))"
      unfolding re_items_literal Cons.IH by auto
    also have "\<dots> \<longleftrightarrow> (\<exists>v w. t = v @ w \<and> glob_lang (c # p) v \<and> (w = [] \<or> w = [newline]))"
      unfolding glob_lang_char [OF False] by blast
    finally show ?thesis using False by simp
  qed
qed

lemma re_match_glob:
  "re_match (glob_to_regex p) t \<longleftrightarrow> glob_lang p t \<or> (\<exists>u. t = u @ [newline] \<and> glob_lang p u)"
  unfolding re_match_def glob_to_regex_def by (auto simp: re_items_glob)

subsection \<open>The loops of the decision\<close>

lemma gate_loop_iff:
  "gate_loop action target ps \<longleftrightarrow>
     (\<exists>p \<in> set ps. perm_human_approved p \<and> matches_scope p target
        \<and> (action = L5_DESTRUCTIVE \<longrightarrow> perm_time_limit p \<noteq> None))"
  by (induction ps) auto

lemma match_loop_find:
  "match_loop aid target e = map_option snd (find (\<lambda>(k, p). fst k = aid \<and> matches_scope p target) e)"
  by (induction aid target e rule: match_loop.induct) auto

lemma match_loop_append:
  "match_loop aid target (e @ e') =
     (case match_loop aid target e of Some p \<Rightarrow> Some p | None \<Rightarrow> match_loop aid target e')"
  by (induction e) auto

lemma match_loop_mem:
  "match_loop aid target e = Some p \<Longrightarrow> \<exists>k. (k, p) \<in> set e \<and> fst k = aid \<and> matches_scope p target"
  by (induction e) (auto split: if_splits)

lemma match_loop_None:
  "(\<forall>(k, p) \<in> set e. fst k \<noteq> aid) \<Longrightarrow> match_loop aid target e = None"
  by (induction e) auto

lemma map_of_ceilings:
  "map_of (foldl (\<lambda>d c. AList.update (cap_name c) (f c) d) [] cs) n =
     map_option f (find (\<lambda>c. cap_name c = n) (rev cs))"
  by (induction cs rule: rev_induct) auto

lemma ceilings_Some_iff:
  "(\<exists>l. map_of (ceilings a) n = Some l) \<longleftrightarrow> n \<in> cap_name ` set (agent_capabilities a)"
proof -
  have "(\<exists>l. map_of (ceilings a) n = Some l) \<longleftrightarrow>
      find (\<lambda>c. cap_name c = n) (rev (agent_capabilities a)) \<noteq> None"
    by (simp add: ceilings_def map_of_ceilings)
  then show ?thesis unfolding find_None_iff by auto
qed

lemma ceilings_cap:
  assumes "map_of (ceilings a) n = Some l"
  shows "\<exists>c \<in> set (agent_capabilities a). cap_name c = n \<and> action_level (cap_max_level c) = l"
proof -
  obtain c where c: "find (\<lambda>c. cap_name c = n) (rev (agent_capabilities a)) = Some c"
    and l: "action_level (cap_max_level c) = l"
    using assms by (auto simp: ceilings_def map_of_ceilings)
  with find_SomeD [OF c] show ?thesis by auto
qed

lemma granted_reaches_iff:
  "granted_names a p \<noteq> [] \<and> \<not> granted_ceiling a p < action_level action \<longleftrightarrow>
     (\<exists>n \<in> set (perm_capabilities p). \<exists>l. map_of (ceilings a) n = Some l \<and> action_level action \<le> l)"
proof -
  have mem: "n \<in> set (granted_names a p) \<longleftrightarrow>
      n \<in> set (perm_capabilities p) \<and> (\<exists>l. map_of (ceilings a) n = Some l)" for n
    by (auto simp: granted_names_def ceilings_Some_iff)
  have "granted_names a p \<noteq> [] \<and> action_level action \<le> granted_ceiling a p \<longleftrightarrow>
      (\<exists>n \<in> set (granted_names a p).
         action_level action \<le> (case map_of (ceilings a) n of Some l \<Rightarrow> l | None \<Rightarrow> 0))"
    unfolding granted_ceiling_def fold_max_ge by (cases "granted_names a p") auto
  also have "\<dots> \<longleftrightarrow> (\<exists>n \<in> set (perm_capabilities p). \<exists>l. map_of (ceilings a) n = Some l
      \<and> action_level action \<le> l)"
  proof
    assume "\<exists>n \<in> set (granted_names a p).
       action_level action \<le> (case map_of (ceilings a) n of Some l \<Rightarrow> l | None \<Rightarrow> 0)"
    then obtain n where n: "n \<in> set (granted_names a p)"
      and le: "action_level action \<le> (case map_of (ceilings a) n of Some l \<Rightarrow> l | None \<Rightarrow> 0)"
      by blast
    from n obtain l where "n \<in> set (perm_capabilities p)" "map_of (ceilings a) n = Some l"
      unfolding mem by blast
    with le show "\<exists>n \<in> set (perm_capabilities p). \<exists>l. map_of (ceilings a) n = Some l
      \<and> action_level action \<le> l" by auto
  next
    assume "\<exists>n \<in> set (perm_capabilities p). \<exists>l. map_of (ceilings a) n = Some l
      \<and> action_level action \<le> l"
    then obtain n l where "n \<in> set (granted_names a p)" "map_of (ceilings a) n = Some l"
      "action_level action \<le> l" unfolding mem by blast
    then show "\<exists>n \<in> set (granted_names a p).
       action_level action \<le> (case map_of (ceilings a) n of Some l \<Rightarrow> l | None \<Rightarrow> 0)"
      by (intro bexI [of _ n]) auto
  qed
  finally show ?thesis by (simp add: not_less)
qed

lemma match_reasons_Nil_iff:
  "match_reasons action a target now m = Inr [] \<longleftrightarrow>
     (\<exists>p. m = Some p \<and> is_expired p now = Inr False
        \<and> granted_names a p \<noteq> [] \<and> \<not> granted_ceiling a p < action_level action)"
  by (auto simp: match_reasons_def split: option.splits sum.splits)

lemma agent_reasons_Nil_iff:
  "agent_reasons action a target e = [] \<longleftrightarrow>
     \<not> agent_revoked a \<and> trust_rank (required_trust action) \<le> trust_rank (agent_trust_level a)
     \<and> (\<exists>c \<in> set (agent_capabilities a). action_level action \<le> action_level (cap_max_level c))
     \<and> (action \<in> {L4_PRODUCTION, L5_DESTRUCTIVE} \<longrightarrow> human_gate_met action a target e)"
  by (auto simp: agent_reasons_def list_ex_iff not_less)

lemma evaluate_allowed:
  "evaluate action a target now e = Inr d \<Longrightarrow>
     dec_allowed d \<longleftrightarrow> agent_reasons action a target e = []
       \<and> match_reasons action a target now (match_loop (agent_id a) target e) = Inr []"
  by (auto simp: evaluate_def Let_def split: sum.splits)

lemma evaluate_fields:
  "evaluate action a target now e = Inr d \<Longrightarrow>
     dec_matched d = match_loop (agent_id a) target e \<and> dec_action d = action
     \<and> dec_agent_id d = agent_id a \<and> dec_target d = target \<and> dec_allowed d = (dec_reasons d = [])"
  by (auto simp: evaluate_def Let_def split: sum.splits)

subsection \<open>The dict of permissions\<close>

definition engine_ok :: "engine \<Rightarrow> bool" where
  "engine_ok e = (dict_ok e \<and> (\<forall>(k, p) \<in> set e. k = (perm_agent_id p, perm_target_scope p)))"

lemma foldl_delete: "foldl (\<lambda>d k. AList.delete k d) e ks = filter (\<lambda>(k, _). k \<notin> set ks) e"
proof (induction ks arbitrary: e)
  case Nil
  show ?case by (simp add: case_prod_beta)
next
  case (Cons k ks)
  have "AList.delete k e = filter (\<lambda>(k', _). k \<noteq> k') e" by (simp add: AList.delete_eq)
  with Cons show ?case by (auto intro: filter_cong)
qed

lemma revoke_all_eq: "snd (revoke_all aid e) = filter (\<lambda>(k, _). fst k \<noteq> aid) e"
  unfolding revoke_all_def Let_def foldl_delete snd_conv
  by (rule filter_cong) (auto simp: image_iff)

lemma engine_ok_filter: "engine_ok e \<Longrightarrow> engine_ok (filter P e)"
  by (auto simp: engine_ok_def)

interpretation engine_runs: op_machine engine_step engine_ok "\<lambda>_. True"
proof
  fix x e assume "engine_ok e"
  then show "engine_ok (engine_step x e)"
  proof (cases x)
    case (Issue p)
    with \<open>engine_ok e\<close> show ?thesis
      by (auto simp: engine_ok_def issue_def set_update_dict)
  qed (simp_all add: engine_revoke_def revoke_all_eq AList.delete_eq engine_ok_filter)
qed


subsection \<open>First match\<close>

text \<open>\<open>p\<close> is the permission of agent \<open>aid\<close> that was issued first among those whose scope
  covers \<open>target\<close>.\<close>

definition first_covering :: "str \<Rightarrow> str \<Rightarrow> engine \<Rightarrow> permission \<Rightarrow> bool" where
  "first_covering aid target e p \<longleftrightarrow>
     (\<exists>pre k post. e = pre @ (k, p) # post \<and> fst k = aid \<and> matches_scope p target
        \<and> (\<forall>(k', q) \<in> set pre. fst k' = aid \<longrightarrow> \<not> matches_scope q target))"

lemma match_loop_skip:
  "(\<forall>(k, q) \<in> set pre. fst k = aid \<longrightarrow> \<not> matches_scope q target) \<Longrightarrow>
     match_loop aid target (pre @ e) = match_loop aid target e"
  by (induction pre) auto

lemma match_loop_iff: "match_loop aid target e = Some p \<longleftrightarrow> first_covering aid target e p"
proof
  show "match_loop aid target e = Some p \<Longrightarrow> first_covering aid target e p"
  proof (induction aid target e rule: match_loop.induct)
    case (2 aid target k q e)
    show ?case
    proof (cases "fst k = aid \<and> matches_scope q target")
      case True
      with "2.prems" have "(k, q) # e = [] @ (k, p) # e" "fst k = aid" "matches_scope p target" by auto
      then show ?thesis unfolding first_covering_def by fastforce
    next
      case False
      with "2.prems" have "match_loop aid target e = Some p" by (auto split: if_splits)
      with False have "first_covering aid target e p" using "2.IH" by blast
      then obtain pre k' post where "e = pre @ (k', p) # post" "fst k' = aid" "matches_scope p target"
        "\<forall>(k', q) \<in> set pre. fst k' = aid \<longrightarrow> \<not> matches_scope q target"
        unfolding first_covering_def by blast
      with False have "(k, q) # e = ((k, q) # pre) @ (k', p) # post"
        "\<forall>(k', q) \<in> set ((k, q) # pre). fst k' = aid \<longrightarrow> \<not> matches_scope q target" by auto
      with \<open>fst k' = aid\<close> \<open>matches_scope p target\<close> show ?thesis
        unfolding first_covering_def by blast
    qed
  qed simp
next
  show "first_covering aid target e p \<Longrightarrow> match_loop aid target e = Some p"
    by (auto simp: first_covering_def match_loop_skip)
qed

section \<open>Properties\<close>

text \<open>C1: An evaluation that returns allows the action exactly when the agent is not revoked,
  its trust reaches what the action requires, one of its capabilities covers the action, the
  human gate holds for production and destructive actions (some human-approved permission of
  this agent covers the target, time-limited for destructive ones), and the first permission in
  issue order that covers the target has not lapsed and names a capability of the agent whose
  ceiling reaches the action.\<close>

theorem evaluate_allowed_iff:
  assumes "evaluate action a target now e = Inr d"
  shows "dec_allowed d \<longleftrightarrow>
     \<not> agent_revoked a
     \<and> trust_rank (required_trust action) \<le> trust_rank (agent_trust_level a)
     \<and> (\<exists>c \<in> set (agent_capabilities a). action_level action \<le> action_level (cap_max_level c))
     \<and> (action \<in> {L4_PRODUCTION, L5_DESTRUCTIVE} \<longrightarrow>
          (\<exists>p \<in> set (permissions_for (agent_id a) e). perm_human_approved p \<and> matches_scope p target
             \<and> (action = L5_DESTRUCTIVE \<longrightarrow> perm_time_limit p \<noteq> None)))
     \<and> (\<exists>p. first_covering (agent_id a) target e p \<and> is_expired p now = Inr False
          \<and> (\<exists>n \<in> set (perm_capabilities p). \<exists>l. map_of (ceilings a) n = Some l
               \<and> action_level action \<le> l))"
  unfolding evaluate_allowed [OF assms] agent_reasons_Nil_iff match_reasons_Nil_iff
    granted_reaches_iff human_gate_met_def gate_loop_iff match_loop_iff
  by (simp only: conj_assoc)

definition sample_permission :: "str \<Rightarrow> str \<Rightarrow> str list \<Rightarrow> int option \<Rightarrow> bool \<Rightarrow> permission" where
  "sample_permission aid scope caps limit approved =
     \<lparr>perm_agent_id = aid, perm_target_scope = scope, perm_capabilities = caps,
      perm_network_policy = \<lparr>net_scope = NetNone, net_allowed_hosts = [], net_allowed_ports = []\<rparr>,
      perm_filesystem_policy = \<lparr>fs_roots = [], fs_read_only = True, fs_forbidden_suffixes = []\<rparr>,
      perm_data_policy = \<lparr>data_allow_pii = False, data_allow_persist = False,
        data_max_egress_bytes = 0, data_allowed_types = []\<rparr>,
      perm_time_limit = limit,
      perm_resource_limits = \<lparr>res_max_cpu_seconds = 0, res_max_memory_mb = 0,
        res_max_network_mb = 0, res_max_concurrency = 1\<rparr>,
      perm_created_at = Aware 0, perm_expires_at = None, perm_human_approved = approved\<rparr>"

definition sample_agent :: "trust_level \<Rightarrow> action_class \<Rightarrow> agent" where
  "sample_agent trust ceiling =
     \<lparr>agent_id = ''a1'', agent_name = ''ops'', agent_domain = ''infra'',
      agent_capabilities = [\<lparr>cap_name = ''deploy'', cap_description = [], cap_max_level = ceiling\<rparr>],
      agent_trust_level = trust, agent_created_at = 0, agent_metadata = [], agent_revoked = False\<rparr>"

theorem evaluate_allowed_iff_witness:
  "\<exists>d. evaluate L4_PRODUCTION (sample_agent TRUSTED L4_PRODUCTION) ''prod/web'' (Aware 9)
        [((''a1'', ''prod/*''), sample_permission ''a1'' ''prod/*'' [''deploy''] None True)] = Inr d
     \<and> dec_allowed d"
proof -
  let ?e = "[((''a1'', ''prod/*''), sample_permission ''a1'' ''prod/*'' [''deploy''] None True)]"
  let ?a = "sample_agent TRUSTED L4_PRODUCTION"
  have "\<not> isl (evaluate L4_PRODUCTION ?a ''prod/web'' (Aware 9) ?e)"
    by code_simp
  then obtain d where d: "evaluate L4_PRODUCTION ?a ''prod/web'' (Aware 9) ?e = Inr d"
    by (cases "evaluate L4_PRODUCTION ?a ''prod/web'' (Aware 9) ?e") auto
  have m: "matches_scope (sample_permission ''a1'' ''prod/*'' [''deploy''] None True) ''prod/web''"
    by (simp add: matches_scope_def sample_permission_def re_match_def glob_to_regex_def
        re_escape_def special_re_chars_def newline_def)
  have "dec_allowed d"
    unfolding evaluate_allowed_iff [OF d]
    using m by (auto simp: sample_agent_def permissions_for_def first_covering_def Cons_eq_append_conv
        is_expired_def ceilings_def sample_permission_def)
  with d show ?thesis by blast
qed

text \<open>A scope pattern matches a target exactly when the pattern is a lone star, or the
  target is in the glob's language (stars are runs without newlines), or it is a string of that
  language followed by one newline, which the end anchor of the generated expression lets
  through.\<close>

lemma matches_scope_language:
  "matches_scope p target \<longleftrightarrow>
     perm_target_scope p = ''*'' \<or> glob_lang (perm_target_scope p) target
     \<or> (\<exists>u. target = u @ [newline] \<and> glob_lang (perm_target_scope p) u)"
  by (simp add: matches_scope_def re_match_glob)

text \<open>After all permissions of an agent are revoked no action of that agent is allowed on
  any target, whatever its trust and capabilities, and the permissions of other agents are all
  still there.\<close>

lemma revoke_all_denies:
  "(\<exists>d. evaluate action a target now (snd (revoke_all (agent_id a) e)) = Inr d \<and> \<not> dec_allowed d
        \<and> NoPermissionFor target \<in> set (dec_reasons d))
     \<and> (\<forall>k p. fst k \<noteq> agent_id a \<longrightarrow>
          (k, p) \<in> set (snd (revoke_all (agent_id a) e)) \<longleftrightarrow> (k, p) \<in> set e)
     \<and> fst (revoke_all (agent_id a) e) = length (permissions_for (agent_id a) e)"
proof -
  have "match_loop (agent_id a) target (snd (revoke_all (agent_id a) e)) = None"
    by (rule match_loop_None) (auto simp: revoke_all_eq)
  then have "\<exists>d. evaluate action a target now (snd (revoke_all (agent_id a) e)) = Inr d
      \<and> \<not> dec_allowed d \<and> NoPermissionFor target \<in> set (dec_reasons d)"
    by (simp add: evaluate_def match_reasons_def)
  moreover have "fst (revoke_all (agent_id a) e) = length (permissions_for (agent_id a) e)"
    by (simp add: revoke_all_def permissions_for_def Let_def filter_map comp_def split_beta')
  ultimately show ?thesis by (auto simp: revoke_all_eq)
qed

lemma revoke_all_denies_witness:
  "\<not> (\<exists>d. evaluate L0_OBSERVATION (sample_agent TRUSTED L4_PRODUCTION) ''prod/web'' (Aware 9)
        (snd (revoke_all ''a1''
          [((''a1'', ''prod/*''), sample_permission ''a1'' ''prod/*'' [''deploy''] None True)])) = Inr d
     \<and> dec_allowed d)"
  using revoke_all_denies [of L0_OBSERVATION "sample_agent TRUSTED L4_PRODUCTION" "''prod/web''"
      "Aware 9" "[((''a1'', ''prod/*''), sample_permission ''a1'' ''prod/*'' [''deploy''] None True)]"]
  by (auto simp: sample_agent_def)

text \<open>The human gate does not look at expiry: a destructive action is allowed on the
  strength of an approved permission that lapsed long before, when an earlier unapproved
  permission covers the target.\<close>

lemma lapsed_approval_opens_gate:
  "\<exists>a e. (\<forall>p \<in> set (permissions_for (agent_id a) e). perm_human_approved p \<longrightarrow>
             is_expired p (Aware 1000) = Inr True)
     \<and> can_execute L5_DESTRUCTIVE a ''db/main'' (Aware 1000) e = Inr True"
proof -
  let ?a = "sample_agent HIGH_TRUST L5_DESTRUCTIVE"
  let ?live = "sample_permission ''a1'' ''*'' [''deploy''] None False"
  let ?old = "sample_permission ''a1'' ''db/*'' [''deploy''] (Some 10) True"
  let ?e = "[((''a1'', ''*''), ?live), ((''a1'', ''db/*''), ?old)]"
  have "can_execute L5_DESTRUCTIVE ?a ''db/main'' (Aware 1000) ?e = Inr True"
    by code_simp
  moreover have "\<forall>p \<in> set (permissions_for ''a1'' ?e). perm_human_approved p \<longrightarrow>
      is_expired p (Aware 1000) = Inr True"
    by (simp add: permissions_for_def is_expired_def sample_permission_def)
  ultimately show ?thesis
    by (intro exI [of _ ?a] exI [of _ ?e]) (simp add: sample_agent_def)
qed

lemma lapsed_approval_opens_gate_example:
  "\<exists>a e. can_execute L5_DESTRUCTIVE a ''db/main'' (Aware 1000) e = Inr True"
  using lapsed_approval_opens_gate by blast

text \<open>A filesystem root is compared as text: a permission for the directory data also
  admits a sibling whose name merely starts with that text, and a path that climbs out of the
  directory through a parent reference; and a forbidden suffix does not apply to a file whose
  whole name is that suffix.\<close>

lemma filesystem_roots_are_text_prefixes:
  "allows_write \<lparr>fs_roots = [''/data''], fs_read_only = False, fs_forbidden_suffixes = [''.env'']\<rparr>
       ''/database/x''
   \<and> allows_write \<lparr>fs_roots = [''/data''], fs_read_only = False, fs_forbidden_suffixes = [''.env'']\<rparr>
       ''/data/../etc/passwd''
   \<and> allows_write \<lparr>fs_roots = [''/data''], fs_read_only = False, fs_forbidden_suffixes = [''.env'']\<rparr>
       ''/data/.env''
   \<and> \<not> allows_write \<lparr>fs_roots = [''/data''], fs_read_only = False, fs_forbidden_suffixes = [''.env'']\<rparr>
       ''/data/app.env''"
  by (simp add: allows_write_def within_roots_def path_str_def path_root_def path_parts_def
      path_suffix_def)

end
