(* ===== verification/Kernel_Tasks.thy ===== *)
theory Kernel_Tasks
  imports Agency_Prelude "HOL-Library.Multiset" "HOL-Library.Product_Lexorder"
begin

text \<open>
  The task manager, \<open>src/agency/kernel/tasks.py\<close>: tasks with their lifecycle, the pending
  queue ordered by priority with first-in-first-out ties, and the append-only conversation
  of each task.

  The manager's lock serialises the operations; the instant an operation reads from the clock
  and the identifier a fresh task gets from \<open>uuid4\<close> are arguments. A queue entry refers to
  its task by identifier: in the code it holds a reference to the very object the task dict
  holds. Message contents, task inputs and outputs are JSON values.
\<close>

section \<open>Data\<close>

datatype task_status = PENDING | RUNNING | COMPLETED | FAILED | BLOCKED

record task_message =
  msg_task_id :: str
  msg_type :: str
  msg_content :: json
  msg_metadata :: "(str \<times> json) list"
  msg_created_by :: str
  msg_created_at :: int

record task =
  task_id :: str
  task_title :: str
  task_status :: task_status
  task_created_by :: str
  task_input :: "(str \<times> json) list"
  task_output :: "(str \<times> json) list"
  task_error :: "str option"
  task_messages :: "task_message list"
  task_parent_id :: "str option"
  task_priority :: int
  task_created_at :: int
  task_updated_at :: int

datatype task_exn =
    EmptyTaskId
  | PriorityOutOfRange
  | TaskExists str
  | UnknownTask str
  | IllegalTransition task_status task_status
  | MessageTaskMismatch

record pending_entry =
  pe_priority :: int
  pe_sequence :: nat
  pe_task :: str

text \<open>\<open>_PendingEntry.__lt__\<close>: higher priority first, then the earlier sequence number.\<close>

definition entry_lt :: "pending_entry \<Rightarrow> pending_entry \<Rightarrow> bool" where
  "entry_lt x y = (if pe_priority x \<noteq> pe_priority y then pe_priority x > pe_priority y
                   else pe_sequence x < pe_sequence y)"

record manager =
  tm_tasks :: "(str \<times> task) list"
  tm_pending :: "pending_entry list"
  tm_sequence :: nat

definition empty_manager :: manager where
  "empty_manager = \<lparr>tm_tasks = [], tm_pending = [], tm_sequence = 0\<rparr>"

section \<open>Operations\<close>

definition enqueue :: "task \<Rightarrow> manager \<Rightarrow> manager" where
  "enqueue t m =
     (let n = tm_sequence m + 1 in
      m\<lparr>tm_sequence := n,
        tm_pending := tm_pending m @ [\<lparr>pe_priority = task_priority t, pe_sequence = n, pe_task = task_id t\<rparr>]\<rparr>)"

definition drop_from_pending :: "str \<Rightarrow> manager \<Rightarrow> manager" where
  "drop_from_pending tid m = m\<lparr>tm_pending := filter (\<lambda>x. pe_task x \<noteq> tid) (tm_pending m)\<rparr>"

text \<open>\<open>Task(...)\<close> with the fields \<open>create_task\<close> gives.\<close>

definition mk_task ::
  "str \<Rightarrow> str \<Rightarrow> str \<Rightarrow> (str \<times> json) list \<Rightarrow> str option \<Rightarrow> int \<Rightarrow> int \<Rightarrow> (task_exn, task) res" where
  "mk_task tid title created_by inp parent priority now =
     (if py_strip tid = [] then Inl EmptyTaskId
      else if \<not> (0 \<le> priority \<and> priority \<le> 10) then Inl PriorityOutOfRange
      else Inr \<lparr>task_id = py_strip tid, task_title = title, task_status = PENDING,
        task_created_by = created_by, task_input = inp, task_output = [], task_error = None,
        task_messages = [], task_parent_id = parent, task_priority = priority,
        task_created_at = now, task_updated_at = now\<rparr>)"

text \<open>The locked part of \<open>create_task\<close>.\<close>

definition insert_task :: "task \<Rightarrow> manager \<Rightarrow> (manager, task_exn, task) outcome" where
  "insert_task t m =
     (if map_of (tm_tasks m) (task_id t) \<noteq> None then (Inl (TaskExists (task_id t)), m)
      else let m' = m\<lparr>tm_tasks := AList.update (task_id t) t (tm_tasks m)\<rparr>
           in (Inr t, if task_status t = PENDING then enqueue t m' else m'))"

definition create_task ::
  "str \<Rightarrow> str option \<Rightarrow> str \<Rightarrow> str \<Rightarrow> (str \<times> json) list \<Rightarrow> str option \<Rightarrow> int \<Rightarrow> int \<Rightarrow> manager
     \<Rightarrow> (manager, task_exn, task) outcome" where
  "create_task fresh tid title created_by inp parent priority now m =
     (let chosen = (case tid of None \<Rightarrow> fresh | Some t \<Rightarrow> if t = [] then fresh else t) in
      case mk_task chosen title created_by inp parent priority now of
        Inl e \<Rightarrow> (Inl e, m)
      | Inr t \<Rightarrow> insert_task t m)"

definition get_task :: "manager \<Rightarrow> str \<Rightarrow> task option" where
  "get_task m tid = map_of (tm_tasks m) tid"

definition list_tasks :: "task_status option \<Rightarrow> manager \<Rightarrow> task list" where
  "list_tasks st m =
     (let tasks = map snd (tm_tasks m);
          picked = (case st of None \<Rightarrow> tasks | Some s \<Rightarrow> filter (\<lambda>t. task_status t = s) tasks)
      in sort_key task_created_at picked)"

fun legal_targets :: "task_status \<Rightarrow> task_status list" where
  "legal_targets PENDING = [RUNNING, BLOCKED, FAILED, COMPLETED]"
| "legal_targets RUNNING = [COMPLETED, FAILED, BLOCKED]"
| "legal_targets BLOCKED = [PENDING, FAILED, COMPLETED]"
| "legal_targets COMPLETED = []"
| "legal_targets FAILED = []"

definition update_status ::
  "str \<Rightarrow> task_status \<Rightarrow> str option \<Rightarrow> int \<Rightarrow> manager \<Rightarrow> (manager, task_exn, task) outcome" where
  "update_status tid status err now m =
     (case map_of (tm_tasks m) tid of
        None \<Rightarrow> (Inl (UnknownTask tid), m)
      | Some t \<Rightarrow>
          if status \<notin> set (legal_targets (task_status t))
          then (Inl (IllegalTransition (task_status t) status), m)
          else
            let m1 = drop_from_pending tid m;
                t1 = t\<lparr>task_status := status,
                       task_error := (case err of None \<Rightarrow> task_error t | Some _ \<Rightarrow> err),
                       task_updated_at := now\<rparr>;
                m2 = m1\<lparr>tm_tasks := AList.update tid t1 (tm_tasks m1)\<rparr>
            in (Inr t1, if status = PENDING then enqueue t1 m2 else m2))"

definition add_message ::
  "str \<Rightarrow> task_message \<Rightarrow> int \<Rightarrow> manager \<Rightarrow> (manager, task_exn, task_message) outcome" where
  "add_message tid msg now m =
     (case map_of (tm_tasks m) tid of
        None \<Rightarrow> (Inl (UnknownTask tid), m)
      | Some t \<Rightarrow>
          if msg_task_id msg \<noteq> [] \<and> msg_task_id msg \<noteq> tid then (Inl MessageTaskMismatch, m)
          else
            let bound = (if msg_task_id msg = [] then msg\<lparr>msg_task_id := tid\<rparr> else msg);
                t1 = t\<lparr>task_messages := task_messages t @ [bound], task_updated_at := now\<rparr>
            in (Inr bound, m\<lparr>tm_tasks := AList.update tid t1 (tm_tasks m)\<rparr>))"

text \<open>\<open>min(queue)\<close>: the first entry that no later one is strictly below.\<close>

fun min_entry :: "pending_entry \<Rightarrow> pending_entry list \<Rightarrow> pending_entry" where
  "min_entry best [] = best"
| "min_entry best (x # xs) = min_entry (if entry_lt x best then x else best) xs"

definition guarded_pop :: "pending_entry list \<Rightarrow> (pending_entry \<times> pending_entry list) option" where
  "guarded_pop q =
     (case q of [] \<Rightarrow> None | x # xs \<Rightarrow> let target = min_entry x xs in Some (target, remove1 target q))"

definition take_next_pending :: "int \<Rightarrow> manager \<Rightarrow> (manager, task_exn, task option) outcome" where
  "take_next_pending now m =
     (case guarded_pop (tm_pending m) of
        None \<Rightarrow> (Inr None, m)
      | Some (x, rest) \<Rightarrow>
          let m1 = m\<lparr>tm_pending := rest\<rparr> in
          (case map_of (tm_tasks m1) (pe_task x) of
             None \<Rightarrow> (Inl (UnknownTask (pe_task x)), m1)
           | Some t \<Rightarrow>
               let t1 = t\<lparr>task_status := RUNNING, task_updated_at := now\<rparr>
               in (Inr (Some t1), m1\<lparr>tm_tasks := AList.update (pe_task x) t1 (tm_tasks m1)\<rparr>)))"

text \<open>One call on the manager.\<close>

datatype task_op =
    CreateTask str "str option" str str "(str \<times> json) list" "str option" int int
  | UpdateStatus str task_status "str option" int
  | AddMessage str task_message int
  | TakeNext int

fun task_step :: "task_op \<Rightarrow> manager \<Rightarrow> manager" where
  "task_step (CreateTask fresh tid title by inp parent prio now) m =
     snd (create_task fresh tid title by inp parent prio now m)"
| "task_step (UpdateStatus tid st err now) m = snd (update_status tid st err now m)"
| "task_step (AddMessage tid msg now) m = snd (add_message tid msg now m)"
| "task_step (TakeNext now) m = snd (take_next_pending now m)"


section \<open>A priority queue drained in order\<close>

text \<open>\<open>drain pop n q\<close>: up to \<open>n\<close> elements popped one after the other.\<close>

fun drain :: "('q \<Rightarrow> ('e \<times> 'q) option) \<Rightarrow> nat \<Rightarrow> 'q \<Rightarrow> 'e list" where
  "drain pop 0 q = []"
| "drain pop (Suc n) q = (case pop q of None \<Rightarrow> [] | Some (x, q') \<Rightarrow> x # drain pop n q')"

text \<open>The contract of a queue that pops a least element of a strict order.\<close>

locale least_first =
  fixes pop :: "'q \<Rightarrow> ('e \<times> 'q) option"
    and elems :: "'q \<Rightarrow> 'e multiset"
    and before :: "'e \<Rightarrow> 'e \<Rightarrow> bool"
  assumes pop_None: "pop q = None \<longleftrightarrow> elems q = {#}"
    and pop_elems: "pop q = Some (x, q') \<Longrightarrow> elems q = add_mset x (elems q')"
    and pop_least: "pop q = Some (x, q') \<Longrightarrow> y \<in># elems q' \<Longrightarrow> \<not> before y x"
begin

lemma drain_elems: "set (drain pop n q) \<subseteq> set_mset (elems q)"
proof (induction n arbitrary: q)
  case (Suc n)
  show ?case
  proof (cases "pop q")
    case (Some r)
    obtain x q' where r: "pop q = Some (x, q')" using Some by (cases r) simp
    then show ?thesis using Suc [of q'] pop_elems [OF r] by auto
  qed simp
qed simp

lemma drain_ordered: "sorted_wrt (\<lambda>x y. \<not> before y x) (drain pop n q)"
proof (induction n arbitrary: q)
  case (Suc n)
  show ?case
  proof (cases "pop q")
    case (Some r)
    obtain x q' where r: "pop q = Some (x, q')" using Some by (cases r) simp
    then show ?thesis using Suc drain_elems [of n q'] pop_least [OF r] by auto
  qed simp
qed simp

lemma drain_all: "size (elems q) \<le> n \<Longrightarrow> mset (drain pop n q) = elems q"
proof (induction n arbitrary: q)
  case (Suc n)
  show ?case
  proof (cases "pop q")
    case None
    with pop_None [of q] show ?thesis by auto
  next
    case (Some r)
    obtain x q' where r: "pop q = Some (x, q')" using Some by (cases r) simp
    then show ?thesis using Suc pop_elems [OF r] by simp
  qed
qed simp

end

lemma entry_lt_irrefl: "\<not> entry_lt x x"
  by (simp add: entry_lt_def)

lemma entry_lt_trans: "entry_lt x y \<Longrightarrow> entry_lt y z \<Longrightarrow> entry_lt x z"
  by (auto simp: entry_lt_def split: if_splits)

lemma entry_le_trans: "\<not> entry_lt y x \<Longrightarrow> \<not> entry_lt z y \<Longrightarrow> \<not> entry_lt z x"
  by (auto simp: entry_lt_def split: if_splits)

lemma min_entry_mem: "min_entry x xs \<in> set (x # xs)"
  by (induction xs arbitrary: x) (auto split: if_splits)

lemma min_entry_least: "y \<in> set (x # xs) \<Longrightarrow> \<not> entry_lt y (min_entry x xs)"
proof (induction xs arbitrary: x y)
  case Nil
  then show ?case by (simp add: entry_lt_irrefl)
next
  case (Cons z xs)
  let ?b = "if entry_lt z x then z else x"
  have b: "\<not> entry_lt ?b (min_entry ?b xs)" by (rule Cons.IH) simp
  consider "y = x" | "y = z" | "y \<in> set xs" using Cons.prems by auto
  then show ?case
  proof cases
    case 1
    have "\<not> entry_lt x ?b" by (auto simp: entry_lt_irrefl dest: entry_lt_trans)
    with b 1 show ?thesis using entry_le_trans by auto
  next
    case 2
    have "\<not> entry_lt z ?b" by (auto simp: entry_lt_irrefl)
    with b 2 show ?thesis using entry_le_trans by auto
  next
    case 3
    then show ?thesis using Cons.IH [of y ?b] by simp
  qed
qed

lemma guarded_pop_SomeD:
  assumes "guarded_pop q = Some (x, q')"
  shows "x \<in> set q" "q' = remove1 x q" "\<forall>y \<in> set q. \<not> entry_lt y x"
  using assms min_entry_mem min_entry_least
  by (fastforce simp: guarded_pop_def Let_def split: list.splits)+

lemma guarded_pop_None [simp]: "guarded_pop q = None \<longleftrightarrow> q = []"
  by (auto simp: guarded_pop_def Let_def split: list.splits)

interpretation pending_queue: least_first guarded_pop mset entry_lt
proof
  fix q show "guarded_pop q = None \<longleftrightarrow> mset q = {#}" by simp
next
  fix q x q' assume "guarded_pop q = Some (x, q')"
  then show "mset q = add_mset x (mset q')" using guarded_pop_SomeD by fastforce
next
  fix q x q' y assume "guarded_pop q = Some (x, q')" "y \<in># mset q'"
  then show "\<not> entry_lt y x"
    using guarded_pop_SomeD [of q x q'] set_remove1_subset [of x q] by auto
qed

section \<open>Invariant\<close>

definition tasks_ok :: "(str \<times> task) list \<Rightarrow> bool" where
  "tasks_ok ts \<longleftrightarrow> dict_ok ts \<and> (\<forall>k t. map_of ts k = Some t \<longrightarrow>
     task_id t = k \<and> k \<noteq> [] \<and> 0 \<le> task_priority t \<and> task_priority t \<le> 10
     \<and> (\<forall>msg \<in> set (task_messages t). msg_task_id msg = k))"

definition queue_ok :: "pending_entry list \<Rightarrow> nat \<Rightarrow> bool" where
  "queue_ok q n \<longleftrightarrow> distinct (map pe_sequence q) \<and> distinct (map pe_task q)
     \<and> (\<forall>x \<in> set q. pe_sequence x \<le> n)"

text \<open>The queue holds exactly the pending tasks, each with its own priority.\<close>

definition link_ok :: "(str \<times> task) list \<Rightarrow> pending_entry list \<Rightarrow> bool" where
  "link_ok ts q \<longleftrightarrow>
     (\<forall>x \<in> set q. \<exists>t. map_of ts (pe_task x) = Some t \<and> task_status t = PENDING
        \<and> task_priority t = pe_priority x)
     \<and> (\<forall>k t. map_of ts k = Some t \<longrightarrow> task_status t = PENDING \<longrightarrow> k \<in> pe_task ` set q)"

definition manager_ok :: "manager \<Rightarrow> bool" where
  "manager_ok m \<longleftrightarrow> tasks_ok (tm_tasks m) \<and> queue_ok (tm_pending m) (tm_sequence m)
     \<and> link_ok (tm_tasks m) (tm_pending m)"

lemmas manager_defs = manager_ok_def tasks_ok_def queue_ok_def link_ok_def

lemma manager_ok_empty: "manager_ok empty_manager"
  by (simp add: manager_defs empty_manager_def)

lemma enqueue_fields [simp]:
  "tm_tasks (enqueue t m) = tm_tasks m"
  "tm_sequence (enqueue t m) = Suc (tm_sequence m)"
  "tm_pending (enqueue t m) = tm_pending m @
     [\<lparr>pe_priority = task_priority t, pe_sequence = Suc (tm_sequence m), pe_task = task_id t\<rparr>]"
  by (simp_all add: enqueue_def Let_def)

lemma queue_ok_snoc:
  "queue_ok q n \<Longrightarrow> pe_task x \<notin> pe_task ` set q \<Longrightarrow> pe_sequence x = Suc n \<Longrightarrow> queue_ok (q @ [x]) (Suc n)"
  by (auto simp: queue_ok_def)

lemma queue_ok_filter: "queue_ok q n \<Longrightarrow> queue_ok (filter P q) n"
  by (auto simp: queue_ok_def distinct_map_filter)

lemma queue_ok_remove1: "queue_ok q n \<Longrightarrow> queue_ok (remove1 x q) n"
  unfolding queue_ok_def
  by (auto simp: distinct_map intro: inj_on_subset dest: notin_set_remove1)

lemma tasks_ok_update:
  "tasks_ok ts \<Longrightarrow> task_id t = k \<Longrightarrow> k \<noteq> [] \<Longrightarrow> 0 \<le> task_priority t \<Longrightarrow> task_priority t \<le> 10 \<Longrightarrow>
     (\<forall>msg \<in> set (task_messages t). msg_task_id msg = k) \<Longrightarrow> tasks_ok (AList.update k t ts)"
  by (simp add: tasks_ok_def)

lemma mk_task_simps:
  "mk_task tid title by inp parent prio now = Inr t \<Longrightarrow>
     task_id t = py_strip tid \<and> task_id t \<noteq> [] \<and> task_status t = PENDING \<and> 0 \<le> task_priority t
     \<and> task_priority t \<le> 10 \<and> task_messages t = [] \<and> task_priority t = prio"
  by (auto simp: mk_task_def split: if_splits)

lemma insert_task_ok:
  assumes "manager_ok m" "task_id t \<noteq> []" "task_status t = PENDING" "0 \<le> task_priority t"
    "task_priority t \<le> 10" "task_messages t = []"
  shows "manager_ok (snd (insert_task t m))"
proof (cases "map_of (tm_tasks m) (task_id t)")
  case None
  then have fresh: "task_id t \<notin> pe_task ` set (tm_pending m)"
    using assms(1) by (force simp: manager_ok_def link_ok_def)
  have "link_ok (AList.update (task_id t) t (tm_tasks m)) (tm_pending m @
     [\<lparr>pe_priority = task_priority t, pe_sequence = Suc (tm_sequence m), pe_task = task_id t\<rparr>])"
    using assms(1,3) fresh by (auto simp: manager_ok_def link_ok_def)
  with None assms fresh show ?thesis
    by (simp add: insert_task_def manager_ok_def queue_ok_snoc tasks_ok_update)
qed (use assms in \<open>simp add: insert_task_def\<close>)

lemma create_task_ok [step_inv]:
  "manager_ok m \<Longrightarrow> manager_ok (snd (create_task fresh tid title by inp parent prio now m))"
  by (auto simp: create_task_def Let_def split: sum.splits dest!: mk_task_simps intro: insert_task_ok)

lemma link_ok_drop:
  "link_ok ts q \<Longrightarrow> task_status t \<noteq> PENDING \<Longrightarrow>
     link_ok (AList.update k t ts) (filter (\<lambda>x. pe_task x \<noteq> k) q)"
  by (fastforce simp: link_ok_def)

lemma link_ok_requeue:
  "link_ok ts q \<Longrightarrow> task_status t = PENDING \<Longrightarrow> pe_task x = k \<Longrightarrow> pe_priority x = task_priority t \<Longrightarrow>
     link_ok (AList.update k t ts) (filter (\<lambda>x. pe_task x \<noteq> k) q @ [x])"
  by (fastforce simp: link_ok_def)

lemma update_status_ok [step_inv]:
  assumes "manager_ok m"
  shows "manager_ok (snd (update_status tid st err now m))"
proof (cases "map_of (tm_tasks m) tid")
  case (Some t)
  have t: "task_id t = tid" "tid \<noteq> []" "0 \<le> task_priority t" "task_priority t \<le> 10"
    "\<forall>msg \<in> set (task_messages t). msg_task_id msg = tid"
    using assms Some by (auto simp: manager_ok_def tasks_ok_def)
  show ?thesis
  proof (cases "st \<in> set (legal_targets (task_status t))")
    case True
    then show ?thesis
      using assms Some t
      by (cases "st = PENDING")
        (auto simp: update_status_def drop_from_pending_def Let_def manager_ok_def
          intro: tasks_ok_update queue_ok_filter link_ok_drop link_ok_requeue intro!: queue_ok_snoc)
  qed (use assms Some in \<open>simp add: update_status_def\<close>)
qed (use assms in \<open>simp add: update_status_def\<close>)

lemma link_ok_same_status:
  "link_ok ts q \<Longrightarrow> map_of ts k = Some t \<Longrightarrow> task_status t' = task_status t \<Longrightarrow>
     task_priority t' = task_priority t \<Longrightarrow> link_ok (AList.update k t' ts) q"
  by (auto simp: link_ok_def)

lemma add_message_ok [step_inv]:
  assumes "manager_ok m"
  shows "manager_ok (snd (add_message tid msg now m))"
proof (cases "map_of (tm_tasks m) tid")
  case (Some t)
  have t: "task_id t = tid" "tid \<noteq> []" "0 \<le> task_priority t" "task_priority t \<le> 10"
    "\<forall>msg \<in> set (task_messages t). msg_task_id msg = tid"
    using assms Some by (auto simp: manager_ok_def tasks_ok_def)
  with assms Some show ?thesis
    by (auto simp: add_message_def Let_def manager_ok_def
        intro!: tasks_ok_update link_ok_same_status [where t = t])
qed (use assms in \<open>simp add: add_message_def\<close>)

lemma pending_task:
  "manager_ok m \<Longrightarrow> x \<in> set (tm_pending m) \<Longrightarrow>
     \<exists>t. map_of (tm_tasks m) (pe_task x) = Some t \<and> task_status t = PENDING
       \<and> task_priority t = pe_priority x \<and> task_id t = pe_task x"
  by (fastforce simp: manager_ok_def link_ok_def tasks_ok_def)

lemma link_ok_taken:
  assumes "link_ok ts q" "queue_ok q n" "x \<in> set q" "task_status t \<noteq> PENDING"
  shows "link_ok (AList.update (pe_task x) t ts) (remove1 x q)"
proof -
  have "remove1 x q = filter (\<lambda>y. pe_task y \<noteq> pe_task x) q"
    using assms(2,3) unfolding queue_ok_def distinct_map
    by (auto simp: distinct_remove1_removeAll removeAll_filter_not_eq dest: inj_onD
        intro!: filter_cong)
  with assms(1,4) show ?thesis by (simp add: link_ok_drop)
qed

lemma take_next_cases:
  assumes "manager_ok m" "guarded_pop (tm_pending m) = Some (x, rest)"
  obtains t where "map_of (tm_tasks m) (pe_task x) = Some t" "task_status t = PENDING"
    "task_priority t = pe_priority x" "task_id t = pe_task x"
    "take_next_pending now m =
       (let t1 = t\<lparr>task_status := RUNNING, task_updated_at := now\<rparr> in
        (Inr (Some t1), m\<lparr>tm_pending := rest, tm_tasks := AList.update (pe_task x) t1 (tm_tasks m)\<rparr>))"
  using pending_task [OF assms(1) guarded_pop_SomeD(1) [OF assms(2)]] assms(2)
  by (auto simp: take_next_pending_def Let_def)

lemma take_next_pending_ok [step_inv]:
  assumes "manager_ok m"
  shows "manager_ok (snd (take_next_pending now m))"
proof (cases "guarded_pop (tm_pending m)")
  case (Some p)
  obtain x rest where p: "guarded_pop (tm_pending m) = Some (x, rest)" using Some by (cases p) simp
  note pop = guarded_pop_SomeD [OF p]
  obtain t where t: "map_of (tm_tasks m) (pe_task x) = Some t"
    and eq: "take_next_pending now m =
       (let t1 = t\<lparr>task_status := RUNNING, task_updated_at := now\<rparr> in
        (Inr (Some t1), m\<lparr>tm_pending := rest, tm_tasks := AList.update (pe_task x) t1 (tm_tasks m)\<rparr>))"
    using take_next_cases [OF assms p] by metis
  have t_ok: "task_id t = pe_task x" "pe_task x \<noteq> []" "0 \<le> task_priority t" "task_priority t \<le> 10"
    "\<forall>msg \<in> set (task_messages t). msg_task_id msg = pe_task x"
    using assms t by (auto simp: manager_ok_def tasks_ok_def)
  show ?thesis
    using assms pop t_ok unfolding eq manager_ok_def
    by (auto simp: Let_def intro!: tasks_ok_update queue_ok_remove1 link_ok_taken)
qed (use assms in \<open>simp add: take_next_pending_def guarded_pop_def\<close>)


section \<open>What a run can change\<close>

text \<open>\<open>status_moves\<close> is the reflexive step of the lifecycle graph. Along a run a task keeps its
  identity, its conversation only grows, and a terminal task never leaves its status.\<close>

definition status_moves :: "task_status \<Rightarrow> task_status \<Rightarrow> bool" where
  "status_moves a b = (b = a \<or> b \<in> set (legal_targets a))"

definition task_evolves :: "task \<Rightarrow> task \<Rightarrow> bool" where
  "task_evolves t u \<longleftrightarrow> task_id u = task_id t \<and> task_title u = task_title t
     \<and> task_created_by u = task_created_by t \<and> task_input u = task_input t
     \<and> task_parent_id u = task_parent_id t \<and> task_priority u = task_priority t
     \<and> task_created_at u = task_created_at t \<and> prefix (task_messages t) (task_messages u)
     \<and> (task_status t \<in> {COMPLETED, FAILED} \<longrightarrow> task_status u = task_status t)"

definition manager_below :: "manager \<Rightarrow> manager \<Rightarrow> bool" where
  "manager_below m m' \<longleftrightarrow> (\<forall>k t. map_of (tm_tasks m) k = Some t \<longrightarrow>
     (\<exists>u. map_of (tm_tasks m') k = Some u \<and> task_evolves t u))"

lemma task_evolves_refl [simp]: "task_evolves t t"
  by (simp add: task_evolves_def)

lemma task_evolves_trans: "task_evolves t u \<Longrightarrow> task_evolves u v \<Longrightarrow> task_evolves t v"
  by (auto simp: task_evolves_def)

text \<open>Every operation adds a fresh task, or replaces one task by an evolved one along the
  lifecycle graph, or leaves the dict alone.\<close>

definition dict_step :: "manager \<Rightarrow> manager \<Rightarrow> bool" where
  "dict_step m m' \<longleftrightarrow>
     tm_tasks m' = tm_tasks m
     \<or> (\<exists>k t. map_of (tm_tasks m) k = None \<and> tm_tasks m' = AList.update k t (tm_tasks m))
     \<or> (\<exists>k t u. map_of (tm_tasks m) k = Some t \<and> tm_tasks m' = AList.update k u (tm_tasks m)
          \<and> task_evolves t u \<and> status_moves (task_status t) (task_status u))"

lemma legal_from_terminal: "st \<in> set (legal_targets s) \<Longrightarrow> s \<noteq> COMPLETED \<and> s \<noteq> FAILED"
  by (cases s) auto

lemma create_task_step: "dict_step m (snd (create_task fresh tid title by inp parent prio now m))"
  by (auto simp: dict_step_def create_task_def insert_task_def Let_def split: sum.splits)

lemma update_status_step: "dict_step m (snd (update_status tid st err now m))"
proof (cases "map_of (tm_tasks m) tid")
  case (Some t)
  show ?thesis
  proof (cases "st \<in> set (legal_targets (task_status t))")
    case True
    define u where "u = t\<lparr>task_status := st,
      task_error := (case err of None \<Rightarrow> task_error t | Some _ \<Rightarrow> err), task_updated_at := now\<rparr>"
    have "tm_tasks (snd (update_status tid st err now m)) = AList.update tid u (tm_tasks m)"
      using Some True by (simp add: update_status_def Let_def u_def drop_from_pending_def)
    moreover have "task_evolves t u" "status_moves (task_status t) (task_status u)"
      using True legal_from_terminal by (auto simp: u_def task_evolves_def status_moves_def)
    ultimately show ?thesis using Some unfolding dict_step_def by blast
  qed (use Some in \<open>simp add: update_status_def dict_step_def\<close>)
qed (simp add: update_status_def dict_step_def)

lemma add_message_step: "dict_step m (snd (add_message tid msg now m))"
proof (cases "map_of (tm_tasks m) tid")
  case (Some t)
  show ?thesis
  proof (cases "msg_task_id msg \<noteq> [] \<and> msg_task_id msg \<noteq> tid")
    case False
    define u where "u = t\<lparr>task_messages := task_messages t
      @ [if msg_task_id msg = [] then msg\<lparr>msg_task_id := tid\<rparr> else msg], task_updated_at := now\<rparr>"
    have "tm_tasks (snd (add_message tid msg now m)) = AList.update tid u (tm_tasks m)"
      using Some False by (auto simp: add_message_def Let_def u_def)
    moreover have "task_evolves t u" "status_moves (task_status t) (task_status u)"
      by (simp_all add: u_def task_evolves_def status_moves_def)
    ultimately show ?thesis using Some unfolding dict_step_def by blast
  qed (use Some in \<open>auto simp: add_message_def dict_step_def\<close>)
qed (simp add: add_message_def dict_step_def)

lemma take_next_pending_step:
  assumes "manager_ok m"
  shows "dict_step m (snd (take_next_pending now m))"
proof (cases "guarded_pop (tm_pending m)")
  case (Some p)
  obtain x rest where p: "guarded_pop (tm_pending m) = Some (x, rest)" using Some by (cases p) simp
  obtain t where t: "map_of (tm_tasks m) (pe_task x) = Some t" "task_status t = PENDING"
    and eq: "take_next_pending now m =
       (let t1 = t\<lparr>task_status := RUNNING, task_updated_at := now\<rparr> in
        (Inr (Some t1), m\<lparr>tm_pending := rest, tm_tasks := AList.update (pe_task x) t1 (tm_tasks m)\<rparr>))"
    using take_next_cases [OF assms p] by metis
  have "task_evolves t (t\<lparr>task_status := RUNNING, task_updated_at := now\<rparr>)"
    using t(2) by (simp add: task_evolves_def)
  with t show ?thesis
    unfolding eq dict_step_def by (force simp: Let_def status_moves_def)
qed (simp add: take_next_pending_def guarded_pop_def dict_step_def)

lemma task_step_dict: "manager_ok m \<Longrightarrow> dict_step m (task_step x m)"
  by (cases x) (simp_all add: create_task_step update_status_step add_message_step take_next_pending_step)

lemma dict_step_below: "dict_step m m' \<Longrightarrow> manager_below m m'"
  unfolding dict_step_def manager_below_def by (elim disjE exE conjE) auto

interpretation task_runs: op_progress task_step manager_ok "\<lambda>_. True" manager_below
proof
  fix x m assume "manager_ok m"
  then show "manager_ok (task_step x m)" by (cases x) (auto intro: step_inv)
next
  fix x m assume "manager_ok m"
  then show "manager_below m (task_step x m)" by (intro dict_step_below task_step_dict)
next
  fix a b c assume "manager_below a b" "manager_below b c"
  then show "manager_below a c" unfolding manager_below_def by (meson task_evolves_trans)
qed (simp add: manager_below_def)

interpretation task_store: unique_store get_task insert_task task_id
  by unfold_locales (auto simp: get_task_def insert_task_def Let_def fun_eq_iff)

section \<open>Properties\<close>

text \<open>C8: In every state the task manager can reach, the pending queue and the task table agree:
  the queue holds exactly the tasks whose status is pending, each once and under its own
  priority, sequence numbers are unique, priorities lie in 0..10, and every message in a
  conversation carries the identifier of its task.\<close>

theorem task_manager_reachable_ok: "manager_ok (run_ops task_step ops empty_manager)"
  by (rule task_runs.run_keeps) (simp_all add: list_all_iff manager_ok_empty)

text \<open>In a reachable state, taking the next task never fails: it returns nothing exactly when
  no task is pending, and otherwise a task that was pending, is now running, and that no pending
  task precedes (every other pending entry has lower priority, or the same priority and a later
  sequence number).\<close>

lemma take_next_returns_best:
  fixes ops now
  defines "m \<equiv> run_ops task_step ops empty_manager"
  shows "(fst (take_next_pending now m) = Inr None \<and> (\<forall>k t. get_task m k = Some t \<longrightarrow> task_status t \<noteq> PENDING))
    \<or> (\<exists>t t' x. fst (take_next_pending now m) = Inr (Some t') \<and> get_task m (task_id t') = Some t
         \<and> task_status t = PENDING \<and> get_task (snd (take_next_pending now m)) (task_id t') = Some t'
         \<and> t' = t\<lparr>task_status := RUNNING, task_updated_at := now\<rparr>
         \<and> x \<in> set (tm_pending m) \<and> pe_task x = task_id t'
         \<and> (\<forall>y \<in> set (tm_pending m). y \<noteq> x \<longrightarrow>
              pe_priority y < pe_priority x
              \<or> pe_priority y = pe_priority x \<and> pe_sequence x < pe_sequence y))"
proof -
  have ok: "manager_ok m" unfolding m_def
    by (rule task_runs.run_keeps) (simp_all add: list_all_iff manager_ok_empty)
  show ?thesis
  proof (cases "guarded_pop (tm_pending m)")
    case None
    then have "tm_pending m = []" by simp
    with ok None have "\<forall>k t. get_task m k = Some t \<longrightarrow> task_status t \<noteq> PENDING"
      by (auto simp: manager_ok_def link_ok_def get_task_def)
    with None show ?thesis by (simp add: take_next_pending_def guarded_pop_def)
  next
    case (Some p)
    obtain x rest where p: "guarded_pop (tm_pending m) = Some (x, rest)" using Some by (cases p) simp
    note pop = guarded_pop_SomeD [OF p]
    obtain t where t: "map_of (tm_tasks m) (pe_task x) = Some t" "task_status t = PENDING"
      "task_id t = pe_task x"
      and eq: "take_next_pending now m =
         (let t1 = t\<lparr>task_status := RUNNING, task_updated_at := now\<rparr> in
          (Inr (Some t1), m\<lparr>tm_pending := rest, tm_tasks := AList.update (pe_task x) t1 (tm_tasks m)\<rparr>))"
      using take_next_cases [OF ok p] by metis
    have seqs: "inj_on pe_sequence (set (tm_pending m))"
      using ok by (simp add: manager_ok_def queue_ok_def distinct_map)
    have best: "\<forall>y \<in> set (tm_pending m). y \<noteq> x \<longrightarrow> pe_priority y < pe_priority x
        \<or> pe_priority y = pe_priority x \<and> pe_sequence x < pe_sequence y"
    proof (intro ballI impI)
      fix y assume y: "y \<in> set (tm_pending m)" "y \<noteq> x"
      then have "\<not> entry_lt y x" "pe_sequence y \<noteq> pe_sequence x"
        using pop(1,3) seqs by (auto dest: inj_onD)
      then show "pe_priority y < pe_priority x
          \<or> pe_priority y = pe_priority x \<and> pe_sequence x < pe_sequence y"
        by (auto simp: entry_lt_def split: if_splits)
    qed
    show ?thesis
      using t pop(1) best unfolding eq by (intro disjI2) (auto simp: Let_def get_task_def)
  qed
qed

lemma take_next_returns_best_example:
  "\<exists>t'. fst (take_next_pending 7 (run_ops task_step
      [CreateTask ''u1'' None ''low'' ''op'' [] None 1 5, CreateTask ''u2'' None ''high'' ''op'' [] None 9 6]
      empty_manager)) = Inr (Some t') \<and> task_id t' = ''u2''"
  using take_next_returns_best [of 7
      "[CreateTask ''u1'' None ''low'' ''op'' [] None 1 5, CreateTask ''u2'' None ''high'' ''op'' [] None 9 6]"]
  by (auto simp: create_task_def mk_task_def insert_task_def empty_manager_def py_strip_def py_lstrip_def
      py_rstrip_def py_space_def take_next_pending_def guarded_pop_def entry_lt_def Let_def enqueue_def)

text \<open>Popping the whole queue of a reachable state one entry at a time gives the pending
  entries sorted by descending priority and, within a priority, by ascending sequence number:
  the linear scans of the code compute that sort.\<close>

lemma draining_queue_sorts:
  fixes ops
  defines "q \<equiv> tm_pending (run_ops task_step ops empty_manager)"
  shows "drain guarded_pop (length q) q = sort_key (\<lambda>x. (- pe_priority x, pe_sequence x)) q"
proof -
  let ?f = "\<lambda>x. (- pe_priority x, pe_sequence x)"
  have "manager_ok (run_ops task_step ops empty_manager)"
    by (rule task_runs.run_keeps) (simp_all add: list_all_iff manager_ok_empty)
  then have "inj_on pe_sequence (set q)"
    by (simp add: q_def manager_ok_def queue_ok_def distinct_map)
  then have inj: "inj_on ?f (set q)" by (auto simp: inj_on_def)
  have "sorted_wrt (\<lambda>x y. \<not> entry_lt y x) (drain guarded_pop (length q) q)"
    by (rule pending_queue.drain_ordered)
  then have srt: "sorted (map ?f (drain guarded_pop (length q) q))"
    unfolding sorted_map by (rule sorted_wrt_mono_rel [rotated]) (auto simp: entry_lt_def split: if_splits)
  have "mset (drain guarded_pop (length q) q) = mset q"
    by (rule pending_queue.drain_all) simp
  then have "sort_key ?f q = drain guarded_pop (length q) q"
    using inj srt by (intro sort_key_inj_key_eq) simp_all
  then show ?thesis by simp
qed

text \<open>C9: One operation on a reachable manager moves the status of an existing task only along
  the edges of the lifecycle graph (or leaves it), and over a whole run a task keeps its
  identity and priority, its conversation is only extended, and once completed or failed it
  stays so.\<close>

theorem task_lifecycle:
  assumes "get_task (run_ops task_step ops empty_manager) k = Some t"
  shows "(\<exists>u. get_task (task_step x (run_ops task_step ops empty_manager)) k = Some u
        \<and> status_moves (task_status t) (task_status u))
    \<and> (\<exists>u. get_task (run_ops task_step later (run_ops task_step ops empty_manager)) k = Some u
        \<and> task_evolves t u)"
proof
  let ?m = "run_ops task_step ops empty_manager"
  have ok: "manager_ok ?m"
    by (rule task_runs.run_keeps) (simp_all add: list_all_iff manager_ok_empty)
  show "\<exists>u. get_task (task_step x ?m) k = Some u \<and> status_moves (task_status t) (task_status u)"
    using task_step_dict [OF ok, of x] assms
    unfolding dict_step_def get_task_def by (elim disjE exE conjE) (auto simp: status_moves_def)
  have "manager_below ?m (run_ops task_step later ?m)"
    using ok by (intro task_runs.run_advances) (simp_all add: list_all_iff)
  then show "\<exists>u. get_task (run_ops task_step later ?m) k = Some u \<and> task_evolves t u"
    using assms by (simp add: manager_below_def get_task_def)
qed

theorem task_lifecycle_witness:
  "\<exists>u. get_task (run_ops task_step [TakeNext 9]
       (run_ops task_step [CreateTask ''u1'' None ''t'' ''op'' [] None 1 5, UpdateStatus ''u1'' COMPLETED None 6]
         empty_manager)) ''u1'' = Some u \<and> task_status u = COMPLETED"
proof -
  let ?ops = "[CreateTask ''u1'' None ''t'' ''op'' [] None 1 5, UpdateStatus ''u1'' COMPLETED None 6]"
  obtain t where "get_task (run_ops task_step ?ops empty_manager) ''u1'' = Some t"
      "task_status t = COMPLETED"
    by (auto simp: create_task_def mk_task_def insert_task_def empty_manager_def py_strip_def py_lstrip_def
        py_rstrip_def py_space_def Let_def enqueue_def update_status_def drop_from_pending_def get_task_def)
  then show ?thesis
    using task_lifecycle [of ?ops "''u1''" t _ "[TakeNext 9]"] by (auto simp: task_evolves_def)
qed

end
