(* ===== verification/Iso_Time.thy ===== *)
theory Iso_Time
  imports Agency_Prelude "HOL-Library.Char_ord" "HOL-Library.List_Lexorder"
begin

text \<open>
  Timestamps as the audit log stores them: \<open>datetime.isoformat\<close> and its inverse on the
  layout it writes. The log compares these texts, not the instants; \<open>iso_text_order\<close> shows that
  for timestamps with the same UTC offset the two orders agree.
\<close>

section \<open>Model\<close>

text \<open>A \<open>datetime\<close>: its fields and its UTC offset in minutes, absent when it is naive.\<close>

record stamp =
  st_year :: nat
  st_month :: nat
  st_day :: nat
  st_hour :: nat
  st_minute :: nat
  st_second :: nat
  st_micro :: nat
  st_offset :: "int option"

definition digit :: "nat \<Rightarrow> char" where
  "digit d = char_of (48 + d)"

fun pad :: "nat \<Rightarrow> nat \<Rightarrow> str" where
  "pad 0 n = []"
| "pad (Suc k) n = pad k (n div 10) @ [digit (n mod 10)]"

definition micro_text :: "nat \<Rightarrow> str" where
  "micro_text n = (if n = 0 then [] else CHR ''.'' # pad 6 n)"

definition offset_text :: "int option \<Rightarrow> str" where
  "offset_text off =
     (case off of
        None \<Rightarrow> []
      | Some m \<Rightarrow> (if m < 0 then CHR ''-'' else CHR ''+'') # pad 2 (nat \<bar>m\<bar> div 60) @ '':'' @ pad 2 (nat \<bar>m\<bar> mod 60))"

definition isoformat :: "stamp \<Rightarrow> str" where
  "isoformat t =
     pad 4 (st_year t) @ ''-'' @ pad 2 (st_month t) @ ''-'' @ pad 2 (st_day t) @ ''T'' @
     pad 2 (st_hour t) @ '':'' @ pad 2 (st_minute t) @ '':'' @ pad 2 (st_second t) @
     micro_text (st_micro t) @ offset_text (st_offset t)"

definition num :: "str \<Rightarrow> nat" where
  "num s = foldl (\<lambda>n c. 10 * n + (of_char c - 48)) 0 s"

definition parse_offset :: "str \<Rightarrow> int option" where
  "parse_offset s =
     (case s of
        [] \<Rightarrow> None
      | c # r \<Rightarrow>
          let m = int (num (take 2 r) * 60 + num (take 2 (drop 3 r)))
          in Some (if c = CHR ''-'' then - m else m))"

definition parse_micro :: "str \<Rightarrow> nat \<times> str" where
  "parse_micro s = (if s \<noteq> [] \<and> hd s = CHR ''.'' then (num (take 6 (drop 1 s)), drop 7 s) else (0, s))"

text \<open>\<open>datetime.fromisoformat\<close> on the layout above.\<close>

definition fromisoformat :: "str \<Rightarrow> stamp" where
  "fromisoformat s =
     (case parse_micro (drop 19 s) of
        (micro, r) \<Rightarrow>
          \<lparr>st_year = num (take 4 s), st_month = num (take 2 (drop 5 s)), st_day = num (take 2 (drop 8 s)),
           st_hour = num (take 2 (drop 11 s)), st_minute = num (take 2 (drop 14 s)),
           st_second = num (take 2 (drop 17 s)), st_micro = micro, st_offset = parse_offset r\<rparr>)"

text \<open>\<open>ts.replace(tzinfo=UTC)\<close> for a naive timestamp.\<close>

definition utc_default :: "stamp \<Rightarrow> stamp" where
  "utc_default t = (case st_offset t of None \<Rightarrow> t\<lparr>st_offset := Some 0\<rparr> | Some _ \<Rightarrow> t)"

definition iso :: "stamp \<Rightarrow> str" where
  "iso t = isoformat (utc_default t)"

definition stamp_ok :: "stamp \<Rightarrow> bool" where
  "stamp_ok t \<longleftrightarrow> st_year t < 10000 \<and> st_month t < 100 \<and> st_day t < 100 \<and> st_hour t < 100
     \<and> st_minute t < 100 \<and> st_second t < 100 \<and> st_micro t < 1000000
     \<and> (case st_offset t of None \<Rightarrow> True | Some m \<Rightarrow> \<bar>m\<bar> < 1440)"

section \<open>Lemmas\<close>

lemma length_pad [simp]: "length (pad k n) = k"
  by (induction k arbitrary: n) auto

lemma of_char_digit: "d < 10 \<Longrightarrow> (of_char (digit d) :: nat) = 48 + d"
  by (simp add: digit_def)

lemma num_append: "num (xs @ [c]) = 10 * num xs + (of_char c - 48)"
  by (simp add: num_def)

lemma num_pad [simp]: "n < 10 ^ k \<Longrightarrow> num (pad k n) = n"
proof (induction k arbitrary: n)
  case (Suc k)
  then have "n div 10 < 10 ^ k" by (simp add: less_mult_imp_div_less mult.commute)
  with Suc.IH show ?case by (simp add: num_append of_char_digit)
qed (simp add: num_def)

lemma micro_text_parse:
  assumes "n < 1000000" "r = [] \<or> hd r \<noteq> CHR ''.''"
  shows "parse_micro (micro_text n @ r) = (n, r)"
  using assms by (auto simp: parse_micro_def micro_text_def)

lemma offset_text_hd: "offset_text off = [] \<or> hd (offset_text off) \<noteq> CHR ''.''"
  by (auto simp: offset_text_def split: option.splits)

lemma offset_text_parse:
  assumes "case off of None \<Rightarrow> True | Some m \<Rightarrow> \<bar>m\<bar> < 1440"
  shows "parse_offset (offset_text off) = off"
proof (cases off)
  case (Some m)
  define n where "n = nat \<bar>m\<bar>"
  have n: "n < 1440" "m = (if m < 0 then - int n else int n)" using assms Some by (auto simp: n_def)
  have layout: "offset_text off =
      (if m < 0 then CHR ''-'' else CHR ''+'') # pad 2 (n div 60) @ '':'' @ pad 2 (n mod 60)"
    by (simp add: offset_text_def Some n_def)
  have "n div 60 < 10 ^ 2" "n mod 60 < 10 ^ 2" using n(1) by auto
  then have "num (pad 2 (n div 60)) = n div 60" "num (pad 2 (n mod 60)) = n mod 60" by (simp_all only: num_pad)
  moreover have "n div 60 * 60 + n mod 60 = n" by simp
  ultimately have "parse_offset (offset_text off) = Some (if m < 0 then - int n else int n)"
    unfolding layout parse_offset_def Let_def by (simp del: of_nat_add of_nat_mult)
  with n(2) show ?thesis by (simp add: Some)
qed (simp add: offset_text_def parse_offset_def)

text \<open>The layout is fixed up to the fraction: each field is found at its position.\<close>

lemma isoformat_fields:
  "take 4 (isoformat t) = pad 4 (st_year t)"
  "take 2 (drop 5 (isoformat t)) = pad 2 (st_month t)"
  "take 2 (drop 8 (isoformat t)) = pad 2 (st_day t)"
  "take 2 (drop 11 (isoformat t)) = pad 2 (st_hour t)"
  "take 2 (drop 14 (isoformat t)) = pad 2 (st_minute t)"
  "take 2 (drop 17 (isoformat t)) = pad 2 (st_second t)"
  "drop 19 (isoformat t) = micro_text (st_micro t) @ offset_text (st_offset t)"
  by (simp_all add: isoformat_def)

lemma fromisoformat_isoformat: "stamp_ok t \<Longrightarrow> fromisoformat (isoformat t) = t"
  unfolding fromisoformat_def isoformat_fields
  by (simp add: stamp_ok_def micro_text_parse offset_text_hd offset_text_parse
      num_pad [where k = 2] num_pad [where k = 4])

lemma stamp_ok_utc_default: "stamp_ok t \<Longrightarrow> stamp_ok (utc_default t)"
  by (auto simp: stamp_ok_def utc_default_def split: option.splits)

subsection \<open>Text order\<close>

lemma lex_append:
  fixes xs ys us vs :: str
  assumes "length xs = length ys"
  shows "xs @ us \<le> ys @ vs \<longleftrightarrow> xs < ys \<or> xs = ys \<and> us \<le> vs"
  using assms by (induction xs ys rule: list_induct2) auto

lemma digit_le: "a < 10 \<Longrightarrow> b < 10 \<Longrightarrow> digit a < digit b \<or> digit a = digit b \<longleftrightarrow> a \<le> b"
  unfolding le_less [symmetric] by (simp add: less_eq_char_def of_char_digit)

lemma pad_inj: "a < 10 ^ k \<Longrightarrow> b < 10 ^ k \<Longrightarrow> pad k a = pad k b \<longleftrightarrow> a = b"
  by (metis num_pad)

lemma div_mod_le: "a div 10 < b div 10 \<or> a div 10 = b div 10 \<and> a mod 10 \<le> b mod 10 \<longleftrightarrow> a \<le> (b :: nat)"
proof -
  have split: "p < r \<or> p = r \<and> q \<le> s \<longleftrightarrow> 10 * p + q \<le> 10 * r + s" if "q < 10" "s < 10" for p q r s :: nat
    using that by linarith
  have "10 * (a div 10) + a mod 10 = a" "10 * (b div 10) + b mod 10 = b" by simp_all
  with split [of "a mod 10" "b mod 10" "a div 10" "b div 10"] show ?thesis by simp
qed

lemma pad_le: "a < 10 ^ k \<Longrightarrow> b < 10 ^ k \<Longrightarrow> pad k a \<le> pad k b \<longleftrightarrow> a \<le> b"
proof (induction k arbitrary: a b)
  case (Suc k)
  then have small: "a div 10 < 10 ^ k" "b div 10 < 10 ^ k"
    by (simp_all add: less_mult_imp_div_less mult.commute)
  have "pad k (a div 10) < pad k (b div 10) \<longleftrightarrow> a div 10 < b div 10"
    using Suc.IH [OF small] pad_inj [OF small] by (auto simp: less_le)
  then have "pad (Suc k) a \<le> pad (Suc k) b \<longleftrightarrow>
      a div 10 < b div 10 \<or> a div 10 = b div 10 \<and> a mod 10 \<le> b mod 10"
    using pad_inj [OF small] by (simp add: lex_append digit_le)
  then show ?case by (simp only: div_mod_le)
qed simp

lemma pad_step:
  fixes us vs :: str
  assumes "a < 10 ^ k" "b < 10 ^ k"
  shows "pad k a @ us \<le> pad k b @ vs \<longleftrightarrow> a < b \<or> a = b \<and> us \<le> vs"
proof -
  have "pad k a < pad k b \<longleftrightarrow> a < b"
    using pad_le [OF assms] pad_inj [OF assms] by (auto simp: less_le)
  then show ?thesis using pad_inj [OF assms] by (simp add: lex_append)
qed

lemma offset_text_sign: "\<exists>c r. offset_text (Some m) = c # r \<and> c < CHR ''.''"
  by (auto simp: offset_text_def less_char_def)

lemma micro_step:
  assumes "a < 1000000" "b < 1000000"
  shows "micro_text a @ offset_text (Some m) \<le> micro_text b @ offset_text (Some m) \<longleftrightarrow> a \<le> b"
proof -
  obtain c r where o: "offset_text (Some m) = c # r" "c < CHR ''.''" using offset_text_sign by blast
  then show ?thesis
    using assms pad_step [of a 6 b "offset_text (Some m)" "offset_text (Some m)"]
    by (auto simp: micro_text_def)
qed

text \<open>The instants in the order of their fields.\<close>

definition field_le :: "stamp \<Rightarrow> stamp \<Rightarrow> bool" where
  "field_le a b \<longleftrightarrow>
     (let fs = (\<lambda>t. [st_year t, st_month t, st_day t, st_hour t, st_minute t, st_second t, st_micro t])
      in fs a \<le> fs b)"

lemma isoformat_order:
  assumes "stamp_ok a" "stamp_ok b" "st_offset a = Some m" "st_offset b = Some m"
  shows "isoformat a \<le> isoformat b \<longleftrightarrow> field_le a b"
  using assms
  by (simp add: isoformat_def field_le_def Let_def stamp_ok_def pad_step micro_step)
    (simp add: le_less)

end
