(* ===== verification/Json_Text.thy ===== *)
theory Json_Text
  imports Agency_Prelude "HOL-Library.List_Lexorder" "HOL-Library.Char_ord" "HOL-Library.Multiset"
begin

text \<open>
  The bytes that \<open>json.dumps\<close> and \<open>str.encode\<close> produce for the values of the model: UTF-8, the
  escapes of a string under \<open>ensure_ascii=False\<close>, and the text of a value with its keys in the
  order given.
\<close>

definition utf8_char :: "char \<Rightarrow> str" where
  "utf8_char c = (let n = (of_char c :: nat) in
     if n < 128 then [c] else [char_of (192 + n div 64), char_of (128 + n mod 64)])"

definition utf8 :: "str \<Rightarrow> str" where
  "utf8 s = concat (map utf8_char s)"

definition hex_char :: "nat \<Rightarrow> char" where
  "hex_char n = ''0123456789abcdef'' ! (n mod 16)"

definition json_escape :: "char \<Rightarrow> str" where
  "json_escape c = (let n = (of_char c :: nat) in
     if n = 34 \<or> n = 92 then [CHR 0x5C, c]
     else if n = 8 then CHR 0x5C # ''b''
     else if n = 12 then CHR 0x5C # ''f''
     else if n = 10 then CHR 0x5C # ''n''
     else if n = 13 then CHR 0x5C # ''r''
     else if n = 9 then CHR 0x5C # ''t''
     else if n < 32 then CHR 0x5C # ''u00'' @ [hex_char (n div 16), hex_char n]
     else [c])"

definition json_string :: "str \<Rightarrow> str" where
  "json_string s = CHR 0x22 # concat (map json_escape s) @ [CHR 0x22]"

fun nat_text :: "nat \<Rightarrow> str" where
  "nat_text n = (if n < 10 then [char_of (48 + n)] else nat_text (n div 10) @ [char_of (48 + n mod 10)])"

declare nat_text.simps [simp del]

definition int_text :: "int \<Rightarrow> str" where
  "int_text i = (if i < 0 then CHR ''-'' # nat_text (nat (- i)) else nat_text (nat i))"

fun joined :: "str \<Rightarrow> str list \<Rightarrow> str" where
  "joined sep [] = []"
| "joined sep [x] = x"
| "joined sep (x # y # xs) = x @ sep @ joined sep (y # xs)"

text \<open>\<open>json.dumps\<close> with the default separators.\<close>

primrec json_text :: "json \<Rightarrow> str" where
  "json_text JNull = ''null''"
| "json_text (JBool b) = (if b then ''true'' else ''false'')"
| "json_text (JInt i) = int_text i"
| "json_text (JStr s) = json_string s"
| "json_text (JArr xs) = ''['' @ joined '', '' (map json_text xs) @ '']''"
| "json_text (JObj kvs) =
     ''{'' @ joined '', '' (map (\<lambda>p. json_string (fst p) @ '': '' @ snd p) (map (map_prod id json_text) kvs)) @ ''}''"

text \<open>\<open>sort_keys=True\<close>: the keys of every object in order.\<close>

primrec sorted_keys :: "json \<Rightarrow> json" where
  "sorted_keys JNull = JNull"
| "sorted_keys (JBool b) = JBool b"
| "sorted_keys (JInt i) = JInt i"
| "sorted_keys (JStr s) = JStr s"
| "sorted_keys (JArr xs) = JArr (map sorted_keys xs)"
| "sorted_keys (JObj kvs) = JObj (sort_key fst (map (map_prod id sorted_keys) kvs))"

definition dumps :: "json \<Rightarrow> str" where
  "dumps v = json_text (sorted_keys v)"

definition json_size :: "json \<Rightarrow> int" where
  "json_size v = int (length (utf8 (dumps v)))"

text \<open>Sorting the keys twice is sorting them once.\<close>

lemma insort_key_map: "insort_key f (g x) (map g xs) = map g (insort_key (\<lambda>y. f (g y)) x xs)"
  by (induction xs) auto

lemma sort_key_map: "sort_key f (map g xs) = map g (sort_key (\<lambda>y. f (g y)) xs)"
  by (induction xs) (simp_all add: insort_key_map)

lemma sorted_keys_idem [simp]: "sorted_keys (sorted_keys v) = sorted_keys v"
proof (induction v)
  case (JObj kvs)
  let ?g = "map_prod id sorted_keys"
  have idem: "map ?g (map ?g kvs) = map ?g kvs" using JObj by (auto simp: snds.simps)
  have "map ?g (sort_key fst (map ?g kvs)) = sort_key fst (map ?g (map ?g kvs))"
    by (simp add: sort_key_map [of fst ?g "map ?g kvs", simplified])
  then show ?case unfolding idem by (simp add: sort_key_id_if_sorted)
qed simp_all

lemma json_size_sorted [simp]: "json_size (sorted_keys v) = json_size v"
  by (simp add: json_size_def dumps_def)

section \<open>Sizes\<close>

definition bytes :: "str \<Rightarrow> int" where
  "bytes s = int (length (utf8 s))"

lemma bytes_Nil [simp]: "bytes [] = 0"
  by (simp add: bytes_def utf8_def)

lemma bytes_append [simp]: "bytes (a @ b) = bytes a + bytes b"
  by (simp add: bytes_def utf8_def)

lemma bytes_Cons: "bytes (c # s) = int (length (utf8_char c)) + bytes s"
  by (simp add: bytes_def utf8_def)

lemma bytes_nonneg [simp]: "0 \<le> bytes s"
  by (simp add: bytes_def)

lemma hex_char_ascii: "(of_char (hex_char n) :: nat) < 128"
proof -
  have "n mod 16 < length ''0123456789abcdef''" by simp
  then have "hex_char n \<in> set ''0123456789abcdef''" unfolding hex_char_def by (rule nth_mem)
  then show ?thesis by auto
qed

lemma utf8_char_length: "length (utf8_char c) \<le> 2" "(of_char c :: nat) < 128 \<Longrightarrow> length (utf8_char c) = 1"
  by (simp_all add: utf8_char_def Let_def)

lemma json_escape_bytes: "bytes (json_escape c) \<le> 6"
  using utf8_char_length(1) [of c] by (auto simp: json_escape_def Let_def bytes_Cons utf8_char_length(2) hex_char_ascii)

lemma json_string_bytes: "bytes (json_string s) \<le> 2 + 6 * int (length s)"
proof -
  have "bytes (concat (map json_escape s)) \<le> 6 * int (length s)"
  proof (induction s)
    case (Cons c s)
    then show ?case using json_escape_bytes [of c] by simp
  qed simp
  then show ?thesis by (simp add: json_string_def bytes_Cons utf8_char_length(2))
qed

lemma joined_bytes: "bytes (joined sep xs) = sum_list (map bytes xs) + bytes sep * int (length xs - 1)"
  by (induction sep xs rule: joined.induct) (simp_all add: algebra_simps)

lemma sorted_sum: "sum_list (map f (sort_key k xs)) = sum_list (map f xs)" for f :: "'a \<Rightarrow> int"
  by (metis mset_map mset_sort sum_mset_sum_list)

lemma json_size_object:
  "json_size (JObj kvs) = 2 + (\<Sum>p \<leftarrow> kvs. bytes (json_string (fst p)) + 2 + json_size (snd p)) + 2 * int (length kvs - 1)"
proof -
  let ?s = "\<lambda>p. json_string (fst p) @ '': '' @ snd p"
  have "map ?s (map (map_prod id json_text) (sort_key fst (map (map_prod id sorted_keys) kvs))) =
      map (\<lambda>p. json_string (fst p) @ '': '' @ json_text (snd p)) (sort_key fst (map (map_prod id sorted_keys) kvs))"
    by simp
  moreover have "(\<Sum>p \<leftarrow> sort_key fst (map (map_prod id sorted_keys) kvs).
      bytes (json_string (fst p) @ '': '' @ json_text (snd p))) =
    (\<Sum>p \<leftarrow> kvs. bytes (json_string (fst p)) + 2 + json_size (snd p))"
    by (simp add: sorted_sum comp_def bytes_Cons utf8_char_length(2) json_size_def dumps_def algebra_simps flip: bytes_def)
  ultimately show ?thesis
    by (simp add: json_size_def [of "JObj kvs"] dumps_def joined_bytes comp_def bytes_Cons utf8_char_length(2) flip: bytes_def)
qed

lemma json_size_bound:
  assumes "\<And>k v. (k, v) \<in> set kvs \<Longrightarrow> int (length k) \<le> m \<and> json_size v \<le> b"
  shows "json_size (JObj kvs) \<le> 2 + (6 * m + b + 6) * int (length kvs)"
proof -
  have "(\<Sum>p \<leftarrow> kvs. bytes (json_string (fst p)) + 2 + json_size (snd p)) \<le> (\<Sum>p \<leftarrow> kvs. 6 * m + b + 4)"
  proof (rule sum_list_mono)
    fix p
    assume "p \<in> set kvs"
    then show "bytes (json_string (fst p)) + 2 + json_size (snd p) \<le> 6 * m + b + 4"
      using assms [of "fst p" "snd p"] json_string_bytes [of "fst p"] by simp
  qed
  also have "\<dots> = (6 * m + b + 4) * int (length kvs)" by (simp add: sum_list_triv mult.commute)
  finally show ?thesis unfolding json_size_object by (simp add: algebra_simps)
qed

end
