(* ===== verification/Kernel_Audit.thy ===== *)
theory Kernel_Audit
  imports Kernel_Identity Iso_Time Json_Text "HOL-Library.Multiset"
begin

text \<open>
  The audit log, \<open>src/agency/kernel/audit.py\<close>: the append-only table, its queries, and the
  beta log whose intents and outcomes bracket every tool call.

  The table is a list of rows in insertion order. A JSON column holds the value its text
  denotes, with the keys of every object sorted as \<open>json.dumps(sort_keys=True)\<close> writes them.
  Two things of SQLite are parameters: the text \<open>json_extract\<close> renders for an array or an
  object, and the order \<open>ORDER BY timestamp DESC\<close> gives rows with equal timestamps.
\<close>

section \<open>Model\<close>

datatype action_field = ActionEnum action_class | ActionText str

record audit_entry =
  ae_entry_id :: str
  ae_timestamp :: stamp
  ae_agent :: "str option"
  ae_task :: "str option"
  ae_target :: "str option"
  ae_authorization :: "str option"
  ae_capability :: "str option"
  ae_action :: "action_field option"
  ae_result :: str
  ae_evidence :: "(str \<times> json) list option"
  ae_model :: "str option"
  ae_model_version :: "str option"
  ae_tool_version :: "str option"
  ae_environment :: "(str \<times> json) list option"

record audit_row =
  ar_entry_id :: str
  ar_timestamp :: str
  ar_agent :: "str option"
  ar_task :: "str option"
  ar_target :: "str option"
  ar_authorization :: "str option"
  ar_capability :: "str option"
  ar_action :: "str option"
  ar_result :: str
  ar_evidence :: "(str \<times> json) list option"
  ar_model :: "str option"
  ar_model_version :: "str option"
  ar_tool_version :: "str option"
  ar_environment :: "(str \<times> json) list option"

definition as_ts :: "audit_entry \<Rightarrow> str" where
  "as_ts e = iso (ae_timestamp e)"

text \<open>\<open>_json\<close> and \<open>_unjson\<close>.\<close>

definition json_column :: "(str \<times> json) list option \<Rightarrow> (str \<times> json) list option" where
  "json_column v = map_option (\<lambda>kvs. sort_key fst (map (map_prod id sorted_keys) kvs)) v"

fun enum_value :: "action_field \<Rightarrow> str" where
  "enum_value (ActionEnum a) = action_value a"
| "enum_value (ActionText s) = s"

definition parse_action :: "str \<Rightarrow> action_field" where
  "parse_action v =
     (case find (\<lambda>a. action_value a = v)
         [L0_OBSERVATION, L1_SAFE_ANALYSIS, L2_CONTROLLED_TESTING, L3_HIGH_IMPACT, L4_PRODUCTION, L5_DESTRUCTIVE] of
        Some a \<Rightarrow> ActionEnum a
      | None \<Rightarrow> ActionText v)"

definition entry_row :: "audit_entry \<Rightarrow> audit_row" where
  "entry_row e =
     \<lparr>ar_entry_id = ae_entry_id e, ar_timestamp = as_ts e, ar_agent = ae_agent e, ar_task = ae_task e,
      ar_target = ae_target e, ar_authorization = ae_authorization e, ar_capability = ae_capability e,
      ar_action = map_option enum_value (ae_action e), ar_result = ae_result e,
      ar_evidence = json_column (ae_evidence e), ar_model = ae_model e,
      ar_model_version = ae_model_version e, ar_tool_version = ae_tool_version e,
      ar_environment = json_column (ae_environment e)\<rparr>"

definition row_to_entry :: "audit_row \<Rightarrow> audit_entry" where
  "row_to_entry r =
     \<lparr>ae_entry_id = ar_entry_id r, ae_timestamp = fromisoformat (ar_timestamp r), ae_agent = ar_agent r,
      ae_task = ar_task r, ae_target = ar_target r, ae_authorization = ar_authorization r,
      ae_capability = ar_capability r, ae_action = map_option parse_action (ar_action r),
      ae_result = ar_result r, ae_evidence = ar_evidence r, ae_model = ar_model r,
      ae_model_version = ar_model_version r, ae_tool_version = ar_tool_version r,
      ae_environment = ar_environment r\<rparr>"

subsection \<open>Filters\<close>

record audit_filter =
  af_agent :: "str option"
  af_task :: "str option"
  af_target :: "str option"
  af_action :: "str option"
  af_result :: "str option"
  af_since :: "stamp option"
  af_until :: "stamp option"
  af_limit :: nat
  af_offset :: nat

definition default_filter :: audit_filter where
  "default_filter = \<lparr>af_agent = None, af_task = None, af_target = None, af_action = None, af_result = None,
     af_since = None, af_until = None, af_limit = 100, af_offset = 0\<rparr>"

definition filter_fields_ok :: "audit_filter \<Rightarrow> bool" where
  "filter_fields_ok f \<longleftrightarrow> 1 \<le> af_limit f \<and> af_limit f \<le> 10000"

text \<open>A clause on a column: an absent filter gives none, a NULL column never matches.\<close>

definition column_is :: "str option \<Rightarrow> str option \<Rightarrow> bool" where
  "column_is want col = (case want of None \<Rightarrow> True | Some w \<Rightarrow> col = Some w)"

definition clauses :: "audit_filter \<Rightarrow> audit_row \<Rightarrow> bool" where
  "clauses f r \<longleftrightarrow>
     column_is (af_agent f) (ar_agent r) \<and> column_is (af_task f) (ar_task r)
     \<and> column_is (af_target f) (ar_target r) \<and> column_is (af_action f) (ar_action r)
     \<and> column_is (af_result f) (Some (ar_result r))
     \<and> (case af_since f of None \<Rightarrow> True | Some d \<Rightarrow> iso d \<le> ar_timestamp r)
     \<and> (case af_until f of None \<Rightarrow> True | Some d \<Rightarrow> ar_timestamp r \<le> iso d)"

subsection \<open>The log\<close>

datatype audit_error =
    NotInitialized
  | DuplicateEntry str
  | IntegrityFailure
  | NotAnIntent
  | NotWal
  | NotFullSync
  | NotOnDisk
  | NotAcknowledged

record audit_log =
  al_open :: bool
  al_rows :: "audit_row list"

definition initialize_log :: "audit_log \<Rightarrow> audit_log" where
  "initialize_log s = s\<lparr>al_open := True\<rparr>"

definition close_log :: "audit_log \<Rightarrow> audit_log" where
  "close_log s = s\<lparr>al_open := False\<rparr>"

definition row_of :: "audit_row list \<Rightarrow> str \<Rightarrow> audit_row option" where
  "row_of rows i = find (\<lambda>r. ar_entry_id r = i) rows"

definition insert_row :: "audit_row \<Rightarrow> audit_row list \<Rightarrow> (audit_row list, audit_error, unit) outcome" where
  "insert_row r rows =
     (if row_of rows (ar_entry_id r) \<noteq> None then (Inl IntegrityFailure, rows) else (Inr (), rows @ [r]))"

definition append_entry :: "audit_entry \<Rightarrow> audit_log \<Rightarrow> (audit_log, audit_error, str) outcome" where
  "append_entry e s =
     (if \<not> al_open s then (Inl NotInitialized, s)
      else case insert_row (entry_row e) (al_rows s) of
          (Inl _, _) \<Rightarrow> (Inl (DuplicateEntry (ae_entry_id e)), s)
        | (Inr _, rows) \<Rightarrow> (Inr (ae_entry_id e), s\<lparr>al_rows := rows\<rparr>))"

text \<open>\<open>order\<close> is what \<open>ORDER BY timestamp DESC\<close> makes of the rows that match.\<close>

definition query :: "(audit_row list \<Rightarrow> audit_row list) \<Rightarrow> audit_filter \<Rightarrow> audit_log
    \<Rightarrow> (audit_error, audit_entry list) res" where
  "query order f s =
     (if \<not> al_open s then Inl NotInitialized
      else Inr (map row_to_entry (take (af_limit f) (drop (af_offset f) (order (filter (clauses f) (al_rows s)))))))"

definition count_entries :: "audit_filter \<Rightarrow> audit_log \<Rightarrow> (audit_error, int) res" where
  "count_entries f s =
     (if \<not> al_open s then Inl NotInitialized
      else Inr (int (length (filter (clauses f) (al_rows s)))))"

subsection \<open>The beta log\<close>

datatype sql_value = SNull | SInt int | SText str

definition sql_eq :: "sql_value \<Rightarrow> sql_value \<Rightarrow> bool" where
  "sql_eq a b = (a \<noteq> SNull \<and> a = b)"

fun sql_of :: "(json \<Rightarrow> str) \<Rightarrow> json \<Rightarrow> sql_value" where
  "sql_of render JNull = SNull"
| "sql_of render (JBool b) = SInt (if b then 1 else 0)"
| "sql_of render (JInt i) = SInt i"
| "sql_of render (JStr s) = SText s"
| "sql_of render j = SText (render j)"

definition json_extract :: "(json \<Rightarrow> str) \<Rightarrow> (str \<times> json) list option \<Rightarrow> str \<Rightarrow> sql_value" where
  "json_extract render ev k =
     (case ev of
        None \<Rightarrow> SNull
      | Some kvs \<Rightarrow> (case map_of kvs k of None \<Rightarrow> SNull | Some v \<Rightarrow> sql_of render v))"

definition intent_row :: "(json \<Rightarrow> str) \<Rightarrow> audit_row \<Rightarrow> bool" where
  "intent_row render r \<longleftrightarrow> ar_result r = ''pending''
     \<and> sql_eq (json_extract render (ar_evidence r) ''phase'') (SText ''intent'')"

definition outcome_for :: "(json \<Rightarrow> str) \<Rightarrow> audit_row \<Rightarrow> audit_row \<Rightarrow> bool" where
  "outcome_for render i r \<longleftrightarrow>
     sql_eq (json_extract render (ar_evidence r) ''phase'') (SText ''outcome'')
     \<and> sql_eq (json_extract render (ar_evidence r) ''call_id'') (json_extract render (ar_evidence i) ''call_id'')"

definition pending_rows :: "(json \<Rightarrow> str) \<Rightarrow> audit_row list \<Rightarrow> audit_row list" where
  "pending_rows render rows =
     filter (\<lambda>i. intent_row render i \<and> \<not> list_ex (outcome_for render i) rows) rows"

definition has_pending_calls :: "(json \<Rightarrow> str) \<Rightarrow> audit_log \<Rightarrow> (audit_error, bool) res" where
  "has_pending_calls render s =
     (if \<not> al_open s then Inl NotInitialized else Inr (pending_rows render (al_rows s) \<noteq> []))"

text \<open>What the three \<open>PRAGMA\<close> queries of a connection answer.\<close>

record beta_connection =
  bc_wal :: bool
  bc_full_sync :: bool
  bc_on_disk :: bool

definition verify_beta_connection :: "beta_connection \<Rightarrow> (audit_error, unit) res" where
  "verify_beta_connection c =
     (if \<not> bc_wal c then Inl NotWal
      else if \<not> bc_full_sync c then Inl NotFullSync
      else if \<not> bc_on_disk c then Inl NotOnDisk
      else Inr ())"

definition claims_intent :: "audit_entry \<Rightarrow> bool" where
  "claims_intent e \<longleftrightarrow> ae_result e = ''pending''
     \<and> (\<exists>kvs. ae_evidence e = Some kvs \<and> kvs \<noteq> [] \<and> map_of kvs ''phase'' = Some (JStr ''intent''))"

lemma claims_intent_code [code]:
  "claims_intent e = (ae_result e = ''pending'' \<and> (case ae_evidence e of None \<Rightarrow> False
     | Some kvs \<Rightarrow> kvs \<noteq> [] \<and> map_of kvs ''phase'' = Some (JStr ''intent'')))"
  by (simp add: claims_intent_def split: option.splits)

definition acknowledged :: "audit_entry \<Rightarrow> audit_row list \<Rightarrow> bool" where
  "acknowledged e rows =
     (map_option (\<lambda>r. (ar_result r, ar_evidence r)) (row_of rows (ae_entry_id e))
      = Some (ae_result e, json_column (ae_evidence e)))"

definition claim_intent :: "(json \<Rightarrow> str) \<Rightarrow> beta_connection \<Rightarrow> beta_connection \<Rightarrow> audit_entry \<Rightarrow> audit_log
    \<Rightarrow> (audit_log, audit_error, bool) outcome" where
  "claim_intent render own fresh e s =
     (if \<not> al_open s then (Inl NotInitialized, s)
      else if \<not> claims_intent e then (Inl NotAnIntent, s)
      else case verify_beta_connection own of
          Inl err \<Rightarrow> (Inl err, s)
        | Inr _ \<Rightarrow>
            (case verify_beta_connection fresh of
               Inl err \<Rightarrow> (Inl err, s)
             | Inr _ \<Rightarrow>
                 if pending_rows render (al_rows s) \<noteq> [] then (Inr False, s)
                 else (case insert_row (entry_row e) (al_rows s) of
                     (Inl err, _) \<Rightarrow> (Inl err, s)
                   | (Inr _, rows) \<Rightarrow>
                       if \<not> acknowledged e rows then (Inl NotAcknowledged, s\<lparr>al_rows := rows\<rparr>)
                       else (Inr True, s\<lparr>al_rows := rows\<rparr>))))"

definition append_beta :: "beta_connection \<Rightarrow> audit_entry \<Rightarrow> audit_log \<Rightarrow> (audit_log, audit_error, str) outcome"
  where
  "append_beta own e s =
     (if \<not> al_open s then (Inl NotInitialized, s)
      else case verify_beta_connection own of
          Inl err \<Rightarrow> (Inl err, s)
        | Inr _ \<Rightarrow>
            (case append_entry e s of
               (Inl err, s') \<Rightarrow> (Inl err, s')
             | (Inr i, s') \<Rightarrow>
                 if i \<noteq> ae_entry_id e \<or> \<not> acknowledged e (al_rows s') then (Inl NotAcknowledged, s')
                 else (Inr i, s')))"

datatype audit_op =
    InitializeLog
  | CloseLog
  | AppendEntry audit_entry
  | AppendBeta beta_connection audit_entry
  | ClaimIntent beta_connection beta_connection audit_entry

fun audit_step :: "(json \<Rightarrow> str) \<Rightarrow> audit_op \<Rightarrow> audit_log \<Rightarrow> audit_log" where
  "audit_step render InitializeLog s = initialize_log s"
| "audit_step render CloseLog s = close_log s"
| "audit_step render (AppendEntry e) s = snd (append_entry e s)"
| "audit_step render (AppendBeta c e) s = snd (append_beta c e s)"
| "audit_step render (ClaimIntent c d e) s = snd (claim_intent render c d e s)"

section \<open>Lemmas\<close>

subsection \<open>The table\<close>

interpretation audit_table: unique_store row_of insert_row ar_entry_id
proof
  fix rows r
  show "row_of rows (ar_entry_id r) \<noteq> None \<Longrightarrow>
      isl (fst (insert_row r rows)) \<and> snd (insert_row r rows) = rows"
    by (simp add: insert_row_def)
  have snoc: "row_of (rows @ [r]) i = (case row_of rows i of Some x \<Rightarrow> Some x | None \<Rightarrow> if ar_entry_id r = i then Some r else None)" for i
    by (induction rows) (auto simp: row_of_def)
  show "row_of rows (ar_entry_id r) = None \<Longrightarrow>
      \<not> isl (fst (insert_row r rows)) \<and> row_of (snd (insert_row r rows)) = (row_of rows)(ar_entry_id r \<mapsto> r)"
    by (auto simp: insert_row_def snoc fun_eq_iff split: option.splits)
qed

lemma row_of_None: "row_of rows i = None \<longleftrightarrow> i \<notin> ar_entry_id ` set rows"
  by (auto simp: row_of_def find_None_iff)

lemma acknowledged_insert:
  "row_of rows (ae_entry_id e) = None \<Longrightarrow> acknowledged e (rows @ [entry_row e])"
proof -
  assume "row_of rows (ae_entry_id e) = None"
  then have "row_of (rows @ [entry_row e]) (ae_entry_id e) = Some (entry_row e)"
    using audit_table.ins_free [of rows "entry_row e"] by (simp add: insert_row_def entry_row_def)
  then show ?thesis by (simp add: acknowledged_def entry_row_def)
qed

lemma entry_row_id [simp]: "ar_entry_id (entry_row e) = ae_entry_id e"
  by (simp add: entry_row_def)

text \<open>Every operation leaves the table as it was or adds the row of its entry.\<close>

definition adds :: "audit_entry \<Rightarrow> audit_row list \<Rightarrow> audit_row list \<Rightarrow> bool" where
  "adds e rows rows' \<longleftrightarrow> rows' = rows
     \<or> rows' = rows @ [entry_row e] \<and> row_of rows (ae_entry_id e) = None"

lemma append_entry_adds: "adds e (al_rows s) (al_rows (snd (append_entry e s)))"
  by (simp add: adds_def append_entry_def insert_row_def)

lemma append_beta_adds: "adds e (al_rows s) (al_rows (snd (append_beta c e s)))"
  using append_entry_adds [of e s] by (auto simp: append_beta_def adds_def split: sum.splits prod.splits)

lemma claim_intent_adds:
  "adds e (al_rows s) (al_rows (snd (claim_intent render c d e s)))"
  "pending_rows render (al_rows s) \<noteq> [] \<Longrightarrow> al_rows (snd (claim_intent render c d e s)) = al_rows s"
  unfolding claim_intent_def adds_def insert_row_def
  by (simp_all split: sum.split if_split)

definition audit_ok :: "audit_log \<Rightarrow> bool" where
  "audit_ok s \<longleftrightarrow> distinct (map ar_entry_id (al_rows s))"

definition audit_below :: "audit_log \<Rightarrow> audit_log \<Rightarrow> bool" where
  "audit_below s s' \<longleftrightarrow> prefix (al_rows s) (al_rows s')"

lemma audit_step_adds: "\<exists>e. adds e (al_rows s) (al_rows (audit_step render x s))"
proof (cases x)
  case (AppendEntry e)
  then show ?thesis using append_entry_adds [of e s] by auto
next
  case (AppendBeta c e)
  then show ?thesis using append_beta_adds [of e s c] by auto
next
  case (ClaimIntent c d e)
  then show ?thesis using claim_intent_adds(1) [of e s render c d] by auto
qed (auto simp: initialize_log_def close_log_def adds_def)

interpretation audit_runs: op_progress "audit_step render" audit_ok "\<lambda>_. True" audit_below for render
proof
  fix x s assume ok: "audit_ok s"
  show "audit_ok (audit_step render x s)"
    using ok audit_step_adds [of s render x] by (auto simp: audit_ok_def adds_def row_of_None image_iff)
  show "audit_below s (audit_step render x s)"
    using audit_step_adds [of s render x] by (auto simp: audit_below_def adds_def)
qed (auto simp: audit_below_def intro: prefix_order.trans)

subsection \<open>Intents and outcomes\<close>

lemma pending_snoc:
  "length (pending_rows render (rows @ [r])) \<le>
     length (pending_rows render rows) + (if intent_row render r then 1 else 0)"
proof -
  have "length (filter (\<lambda>i. intent_row render i \<and> \<not> list_ex (outcome_for render i) (rows @ [r])) rows)
      \<le> length (pending_rows render rows)"
    unfolding pending_rows_def by (rule length_filter_imp) auto
  then show ?thesis by (auto simp: pending_rows_def)
qed

lemma pending_adds:
  assumes "adds e rows rows'"
    and "intent_row render (entry_row e) \<Longrightarrow> pending_rows render rows \<noteq> [] \<Longrightarrow> rows' = rows"
    and "length (pending_rows render rows) \<le> 1"
  shows "length (pending_rows render rows') \<le> 1"
  using assms pending_snoc [of render rows "entry_row e"]
  by (cases "pending_rows render rows = []") (auto simp: adds_def split: if_splits)

text \<open>The discipline of the beta bridge: intents enter the log through \<open>claim_intent\<close> only.\<close>

fun intents_claimed :: "(json \<Rightarrow> str) \<Rightarrow> audit_op \<Rightarrow> bool" where
  "intents_claimed render (AppendEntry e) = (\<not> intent_row render (entry_row e))"
| "intents_claimed render (AppendBeta c e) = (\<not> intent_row render (entry_row e))"
| "intents_claimed render x = True"

interpretation beta_runs: op_machine "audit_step render" "\<lambda>s. length (pending_rows render (al_rows s)) \<le> 1"
  "intents_claimed render" for render
proof
  fix x and s :: audit_log
  assume legal: "intents_claimed render x" and one: "length (pending_rows render (al_rows s)) \<le> 1"
  show "length (pending_rows render (al_rows (audit_step render x s))) \<le> 1"
  proof (cases x)
    case (AppendEntry e)
    with legal have no: "\<not> intent_row render (entry_row e)" by simp
    show ?thesis unfolding AppendEntry audit_step.simps
      by (rule pending_adds [OF append_entry_adds _ one]) (use no in simp)
  next
    case (AppendBeta c e)
    with legal have no: "\<not> intent_row render (entry_row e)" by simp
    show ?thesis unfolding AppendBeta audit_step.simps
      by (rule pending_adds [OF append_beta_adds _ one]) (use no in simp)
  next
    case (ClaimIntent c d e)
    show ?thesis unfolding ClaimIntent audit_step.simps
      by (rule pending_adds [OF claim_intent_adds(1) claim_intent_adds(2) one])
  qed (use one in \<open>auto simp: initialize_log_def close_log_def\<close>)
qed

lemma map_of_sorted: "dict_ok kvs \<Longrightarrow> map_of (sort_key fst kvs) = map_of kvs"
  unfolding dict_ok_def
  by (rule map_of_inject_set [THEN iffD2])
    (simp_all, metis distinct_map_filter distinct_sort mset_sort mset_map mset_eq_imp_distinct_iff)

lemma json_column_lookup:
  assumes "dict_ok kvs"
  shows "map_option (\<lambda>m. map_of m k) (json_column (Some kvs)) = Some (map_option sorted_keys (map_of kvs k))"
proof -
  have "dict_ok (map (map_prod id sorted_keys) kvs)"
    using assms by (simp add: dict_ok_def comp_def)
  moreover have "map_of (map (map_prod id f) kvs) k = map_option f (map_of kvs k)" for f :: "json \<Rightarrow> json"
    by (induction kvs) auto
  ultimately show ?thesis by (simp add: json_column_def map_of_sorted)
qed

lemma claims_intent_row:
  assumes "claims_intent e" "\<And>kvs. ae_evidence e = Some kvs \<Longrightarrow> dict_ok kvs"
  shows "intent_row render (entry_row e)"
proof -
  obtain kvs where ev: "ae_evidence e = Some kvs" "map_of kvs ''phase'' = Some (JStr ''intent'')"
    "ae_result e = ''pending''"
    using assms(1) by (auto simp: claims_intent_def)
  then obtain col where "json_column (ae_evidence e) = Some col" "map_of col ''phase'' = Some (JStr ''intent'')"
    using json_column_lookup [OF assms(2) [OF ev(1)], of "''phase''"] by (auto simp: json_column_def)
  with ev show ?thesis by (simp add: intent_row_def entry_row_def json_extract_def sql_eq_def)
qed

subsection \<open>Reading back\<close>

text \<open>What a caller sees of an entry it stored: a naive timestamp read as UTC, the action parsed,
  the objects with sorted keys.\<close>

definition as_stored :: "audit_entry \<Rightarrow> audit_entry" where
  "as_stored e = e\<lparr>ae_timestamp := utc_default (ae_timestamp e),
     ae_action := map_option (parse_action \<circ> enum_value) (ae_action e),
     ae_evidence := json_column (ae_evidence e), ae_environment := json_column (ae_environment e)\<rparr>"

lemma parse_action_value: "parse_action (action_value a) = ActionEnum a"
  by (cases a) (simp_all add: parse_action_def)

lemma row_round_trip: "stamp_ok (ae_timestamp e) \<Longrightarrow> row_to_entry (entry_row e) = as_stored e"
  by (cases e) (simp add: row_to_entry_def entry_row_def as_stored_def as_ts_def iso_def
      fromisoformat_isoformat stamp_ok_utc_default option.map_comp)

definition newest_first :: "(audit_row list \<Rightarrow> audit_row list) \<Rightarrow> bool" where
  "newest_first order \<longleftrightarrow> (\<forall>rows. mset (order rows) = mset rows
     \<and> sorted_wrt (\<lambda>a b. ar_timestamp b \<le> ar_timestamp a) (order rows))"

lemma newest_first_exists: "newest_first (sorted_rev_by ar_timestamp)"
  by (simp add: newest_first_def sorted_rev_by_desc) (simp add: sorted_rev_by_def)

section \<open>Properties\<close>

text \<open>The log is append-only and its identifiers are unique: after any operations, refused
  and failing ones included, the earlier rows are still there, unchanged and in the same order,
  as a prefix of the table, and no identifier occurs twice.\<close>

lemma audit_append_only:
  assumes "distinct (map ar_entry_id (al_rows s))"
  shows "prefix (al_rows s) (al_rows (run_ops (audit_step render) xs s))
    \<and> distinct (map ar_entry_id (al_rows (run_ops (audit_step render) xs s)))"
  using audit_runs.run_advances [of xs s render] audit_runs.run_keeps [of xs s render] assms
  by (simp add: list_all_iff audit_ok_def audit_below_def)

definition demo_stamp :: stamp where
  "demo_stamp = \<lparr>st_year = 2026, st_month = 1, st_day = 2, st_hour = 11, st_minute = 0, st_second = 0,
     st_micro = 0, st_offset = Some 0\<rparr>"

definition demo_intent :: "str \<Rightarrow> audit_entry" where
  "demo_intent i = \<lparr>ae_entry_id = i, ae_timestamp = demo_stamp, ae_agent = None, ae_task = None,
     ae_target = None, ae_authorization = None, ae_capability = None,
     ae_action = Some (ActionEnum L2_CONTROLLED_TESTING), ae_result = ''pending'',
     ae_evidence = Some [(''phase'', JStr ''intent''), (''call_id'', JStr i)], ae_model = None,
     ae_model_version = None, ae_tool_version = None, ae_environment = None\<rparr>"

lemma audit_append_only_example:
  "prefix [] (al_rows (run_ops (audit_step (\<lambda>_. [])) [InitializeLog, AppendEntry (demo_intent ''a'')]
     \<lparr>al_open = False, al_rows = []\<rparr>))"
  using audit_append_only [of "\<lparr>al_open = False, al_rows = []\<rparr>" "\<lambda>_. []"] by simp

text \<open>C7: At most one call is in flight. As long as intents enter the log through
  \<open>claim_intent\<close>, whatever else is appended, in any order, by however many writers, at most one
  intent is without its outcome, restarts included.\<close>

theorem single_pending_intent:
  assumes "list_all (intents_claimed render) xs" "al_rows s = []"
  shows "length (pending_rows render (al_rows (run_ops (audit_step render) xs s))) \<le> 1"
  using beta_runs.run_keeps [OF assms(1), of s] assms(2) by (simp add: pending_rows_def)

definition good_connection :: beta_connection where
  "good_connection = \<lparr>bc_wal = True, bc_full_sync = True, bc_on_disk = True\<rparr>"

theorem single_pending_intent_witness:
  "length (pending_rows (\<lambda>_. []) (al_rows (run_ops (audit_step (\<lambda>_. []))
     [InitializeLog, ClaimIntent good_connection good_connection (demo_intent ''a''),
      ClaimIntent good_connection good_connection (demo_intent ''b'')]
     \<lparr>al_open = False, al_rows = []\<rparr>))) \<le> 1"
  by (rule single_pending_intent) simp_all

text \<open>A successful claim excludes the others. After \<open>claim_intent\<close> has returned True for an
  intent whose call id is a string no outcome has used, the log reports pending work, and every
  further claim of a well-formed intent returns False and writes nothing.\<close>

lemma claim_is_exclusive:
  assumes claim: "claim_intent render c d e s = (Inr True, s')"
    and dict: "ae_evidence e = Some kvs" "dict_ok kvs" "map_of kvs ''call_id'' = Some (JStr i)"
    and unused: "\<forall>r \<in> set (al_rows s).
      json_extract render (ar_evidence r) ''phase'' = SText ''outcome'' \<longrightarrow>
      json_extract render (ar_evidence r) ''call_id'' \<noteq> SText i"
    and other: "claims_intent e'" "verify_beta_connection c' = Inr ()" "verify_beta_connection d' = Inr ()"
  shows "has_pending_calls render s' = Inr True \<and> claim_intent render c' d' e' s' = (Inr False, s')"
proof -
  have ready: "al_open s" "claims_intent e" "row_of (al_rows s) (ae_entry_id e) = None"
    and s': "s' = s\<lparr>al_rows := al_rows s @ [entry_row e]\<rparr>"
    using claim by (auto simp: claim_intent_def insert_row_def split: if_splits sum.splits)
  have intent: "intent_row render (entry_row e)"
    using ready(2) dict by (intro claims_intent_row) auto
  have call: "json_extract render (ar_evidence (entry_row e)) ''call_id'' = SText i"
    using json_column_lookup [OF dict(2), of "''call_id''"] dict(3)
    by (auto simp: json_extract_def entry_row_def dict(1) json_column_def)
  have "json_extract render (ar_evidence (entry_row e)) ''phase'' = SText ''intent''"
    using intent by (simp add: intent_row_def sql_eq_def)
  then have "\<not> list_ex (outcome_for render (entry_row e)) (al_rows s')"
    using unused call by (auto simp: s' list_ex_iff outcome_for_def sql_eq_def)
  with intent have "entry_row e \<in> set (pending_rows render (al_rows s'))"
    by (simp add: pending_rows_def s')
  then have "pending_rows render (al_rows s') \<noteq> []" by auto
  with ready(1) other show ?thesis
    by (simp add: has_pending_calls_def claim_intent_def s')
qed

lemma claim_is_exclusive_witness:
  "has_pending_calls (\<lambda>_. []) \<lparr>al_open = True, al_rows = [entry_row (demo_intent ''a'')]\<rparr> = Inr True"
proof -
  have "claim_intent (\<lambda>_. []) good_connection good_connection (demo_intent ''a'') \<lparr>al_open = True, al_rows = []\<rparr>
      = (Inr True, \<lparr>al_open = True, al_rows = [entry_row (demo_intent ''a'')]\<rparr>)"
    using acknowledged_insert [of "[]" "demo_intent ''a''"]
    by (simp add: claim_intent_def good_connection_def verify_beta_connection_def claims_intent_def
        demo_intent_def pending_rows_def insert_row_def row_of_def)
  from claim_is_exclusive [OF this _ _ _ _ _ _ _, of _ "''a''" "demo_intent ''b''" good_connection good_connection]
  show ?thesis
    by (simp add: demo_intent_def dict_ok_def claims_intent_def verify_beta_connection_def good_connection_def)
qed

text \<open>C40: Round trip. An entry that was appended, with a timestamp in range, is what a query for
  everything gives back, up to what storage normalises (naive timestamps become UTC, actions are
  parsed, object keys are sorted); an \<open>ActionClass\<close> comes back as itself.\<close>

theorem stored_entry_read_back:
  assumes "append_entry e s = (Inr i, s')" "stamp_ok (ae_timestamp e)" "newest_first order"
    "af_limit f \<ge> length (al_rows s')" "af_offset f = 0" "clauses f (entry_row e)"
  shows "\<exists>es. query order f s' = Inr es \<and> as_stored e \<in> set es
    \<and> (\<forall>a. ae_action e = Some (ActionEnum a) \<longrightarrow> ae_action (as_stored e) = Some (ActionEnum a))"
proof -
  have s': "al_open s'" "entry_row e \<in> set (al_rows s')"
    using assms(1) by (auto simp: append_entry_def insert_row_def split: if_splits)
  let ?rows = "order (filter (clauses f) (al_rows s'))"
  have m: "mset ?rows = mset (filter (clauses f) (al_rows s'))" using assms(3) by (simp add: newest_first_def)
  then have "set ?rows = set (filter (clauses f) (al_rows s'))" "length ?rows \<le> af_limit f"
    using assms(4) by (metis set_mset_mset, metis length_filter_le mset_eq_length order_trans)
  with s' assms(5,6) have "query order f s' = Inr (map row_to_entry ?rows)" "entry_row e \<in> set ?rows"
    by (auto simp: query_def)
  then show ?thesis
    using row_round_trip [OF assms(2)] by (force simp: as_stored_def parse_action_value)
qed

theorem stored_entry_read_back_witness:
  "\<exists>es. query (sorted_rev_by ar_timestamp) default_filter \<lparr>al_open = True, al_rows = [entry_row (demo_intent ''a'')]\<rparr> = Inr es
     \<and> as_stored (demo_intent ''a'') \<in> set es"
proof -
  have "append_entry (demo_intent ''a'') \<lparr>al_open = True, al_rows = []\<rparr>
      = (Inr ''a'', \<lparr>al_open = True, al_rows = [entry_row (demo_intent ''a'')]\<rparr>)"
    by (simp add: append_entry_def insert_row_def row_of_def) (simp add: demo_intent_def)
  from stored_entry_read_back [OF this, of "sorted_rev_by ar_timestamp" default_filter] show ?thesis
    by (force simp: newest_first_exists default_filter_def clauses_def column_is_def demo_intent_def
        demo_stamp_def stamp_ok_def)
qed

definition utc_stamp :: "stamp \<Rightarrow> bool" where
  "utc_stamp t \<longleftrightarrow> stamp_ok t \<and> st_offset (utc_default t) = Some 0"

lemma iso_order: "utc_stamp a \<Longrightarrow> utc_stamp b \<Longrightarrow> iso a \<le> iso b \<longleftrightarrow> field_le a b"
proof -
  assume u: "utc_stamp a" "utc_stamp b"
  have same: "field_le (utc_default a) (utc_default b) = field_le a b"
    by (simp add: field_le_def utc_default_def split: option.splits)
  show ?thesis
    using u isoformat_order [of "utc_default a" "utc_default b" 0]
    by (simp add: iso_def utc_stamp_def stamp_ok_utc_default same)
qed

lemma row_time: "utc_stamp (ae_timestamp e) \<Longrightarrow>
    ae_timestamp (row_to_entry (entry_row e)) = utc_default (ae_timestamp e)"
  by (simp add: row_round_trip utc_stamp_def as_stored_def)

lemma entry_row_time: "ar_timestamp (entry_row e) = iso (ae_timestamp e)"
  by (simp add: entry_row_def as_ts_def)

lemma field_le_utc [simp]:
  "field_le (utc_default a) b = field_le a b" "field_le a (utc_default b) = field_le a b"
  by (simp_all add: field_le_def utc_default_def split: option.splits)

text \<open>Queries are chronological for UTC timestamps. The log compares texts, but when the
  stored timestamps and the bound are in UTC (or naive, which is read as UTC), a query with
  \<open>since\<close> returns only entries that are not before the bound, newest first.\<close>

lemma query_chronological:
  assumes order: "newest_first order"
    and rows: "al_open s" "al_rows s = map entry_row es" "\<forall>e \<in> set es. utc_stamp (ae_timestamp e)"
    and f: "af_since f = Some d" "utc_stamp d"
  shows "\<exists>out. query order f s = Inr out
    \<and> sorted_wrt (\<lambda>a b. field_le (ae_timestamp b) (ae_timestamp a)) out
    \<and> (\<forall>e \<in> set out. field_le d (ae_timestamp e))"
proof -
  let ?page = "take (af_limit f) (drop (af_offset f) (order (filter (clauses f) (al_rows s))))"
  have mem: "r \<in> set (filter (clauses f) (al_rows s))" if "r \<in> set ?page" for r
    using that order unfolding newest_first_def
    by (metis in_set_dropD in_set_takeD set_mset_mset)
  have desc: "sorted_wrt (\<lambda>a b. ar_timestamp b \<le> ar_timestamp a) ?page"
    using order by (simp add: newest_first_def sorted_wrt_take sorted_wrt_drop)
  have le: "iso d \<le> ar_timestamp r" and src: "\<exists>e. r = entry_row e \<and> utc_stamp (ae_timestamp e)"
    if "r \<in> set ?page" for r
    using mem [OF that] rows f by (auto simp: clauses_def)
  have "sorted_wrt (\<lambda>a b. field_le (ae_timestamp (row_to_entry b)) (ae_timestamp (row_to_entry a))) ?page"
  proof (rule sorted_wrt_mono_rel [OF _ desc])
    fix a b
    assume a: "a \<in> set ?page" and b: "b \<in> set ?page" and "ar_timestamp b \<le> ar_timestamp a"
    then show "field_le (ae_timestamp (row_to_entry b)) (ae_timestamp (row_to_entry a))"
      using src [OF a] src [OF b] by (auto simp: row_time iso_order entry_row_time)
  qed
  moreover have "field_le d (ae_timestamp (row_to_entry r))" if "r \<in> set ?page" for r
    using src [OF that] le [OF that] f(2) by (auto simp: row_time iso_order entry_row_time)
  ultimately show ?thesis using rows(1) by (auto simp: query_def sorted_wrt_map)
qed

lemma query_chronological_witness:
  "\<exists>out. query (sorted_rev_by ar_timestamp) (default_filter\<lparr>af_since := Some demo_stamp\<rparr>)
      \<lparr>al_open = True, al_rows = [entry_row (demo_intent ''a'')]\<rparr> = Inr out
    \<and> (\<forall>e \<in> set out. field_le demo_stamp (ae_timestamp e))"
proof -
  have u: "utc_stamp demo_stamp" by (simp add: utc_stamp_def demo_stamp_def stamp_ok_def utc_default_def)
  have "\<forall>e \<in> set [demo_intent ''a'']. utc_stamp (ae_timestamp e)" using u by (simp add: demo_intent_def)
  from query_chronological [OF newest_first_exists _ _ this, of "\<lparr>al_open = True, al_rows = [entry_row (demo_intent ''a'')]\<rparr>"
      "default_filter\<lparr>af_since := Some demo_stamp\<rparr>" demo_stamp] u
  show ?thesis by auto
qed

text \<open>With other offsets they are not. An entry of 12:00+02:00, which is 10:00 UTC, is stored
  as it is and passes a filter for entries since 11:00 UTC.\<close>

lemma offsets_compared_as_text:
  "let early = demo_stamp\<lparr>st_hour := 12, st_offset := Some 120\<rparr>;
       minutes = (\<lambda>t. int (st_hour t * 60 + st_minute t) - (case st_offset t of Some m \<Rightarrow> m | None \<Rightarrow> 0))
   in minutes early < minutes demo_stamp
      \<and> clauses (default_filter\<lparr>af_since := Some demo_stamp\<rparr>)
          (entry_row ((demo_intent ''a'')\<lparr>ae_timestamp := early\<rparr>))"
proof -
  have "iso demo_stamp \<le> iso (demo_stamp\<lparr>st_hour := 12, st_offset := Some 120\<rparr>)"
    unfolding iso_def isoformat_def
    by (simp add: utc_default_def demo_stamp_def pad_step)
  then show ?thesis
    by (simp add: Let_def demo_stamp_def clauses_def column_is_def default_filter_def entry_row_def as_ts_def
        demo_intent_def)
qed

end
