(* ===== verification/Sliding_Window.thy ===== *)
theory Sliding_Window
  imports Complex_Main Agency_Prelude
begin

text \<open>
  Clock readings and sliding windows, shared by the in-process limiter
  (\<open>src/agency/telegram/rate_limit.py\<close>) and the durable ledger
  (\<open>src/agency/telegram/budget_store.py\<close>). Both grant a request when fewer than a limit of
  earlier grants lie in the window that ends now; \<open>in_window_snoc\<close> is the step both proofs
  take: such a grant leaves every window within the limit.
\<close>

text \<open>What a call of the clock gives once it has returned: a finite number of seconds (finite
  floats are rational numbers, and their arithmetic is exact here), infinity or NaN, or a
  value that is not a number.\<close>

datatype clock_reading = NotANumber | NotFinite | Seconds rat

text \<open>The instants of a list that lie in the window \<open>(T - w, T]\<close>.\<close>

definition in_window :: "rat \<Rightarrow> rat \<Rightarrow> rat list \<Rightarrow> nat" where
  "in_window w T ts = length (filter (\<lambda>t. T - w < t \<and> t \<le> T) ts)"

lemma in_window_Nil [simp]: "in_window w T [] = 0"
  by (simp add: in_window_def)

lemma in_window_snoc:
  assumes "\<forall>T. in_window w T ts \<le> n" "length (filter (\<lambda>t. m - w < t) ts) < n"
  shows "in_window w T (ts @ [m]) \<le> n"
proof (cases "T - w < m \<and> m \<le> T")
  case True
  then have "filter (\<lambda>t. T - w < t \<and> t \<le> T) ts =
      filter (\<lambda>t. T - w < t \<and> t \<le> T) (filter (\<lambda>t. m - w < t) ts)"
    unfolding filter_filter by (auto intro!: filter_cong)
  then have "in_window w T ts \<le> length (filter (\<lambda>t. m - w < t) ts)"
    unfolding in_window_def by (metis length_filter_le)
  with assms(2) True show ?thesis by (simp add: in_window_def)
next
  case False
  then have "in_window w T (ts @ [m]) = in_window w T ts"
    by (auto simp: in_window_def)
  with assms(1) show ?thesis by simp
qed

section \<open>Quotas kept in a table\<close>

text \<open>
  A durable quota is a table of grants \<open>(bot, update, user, instant)\<close>. \<open>quota_table\<close> is what
  its client may rely on: a call with no usable clock reading changes nothing; a call that
  reads \<open>t\<close> keeps every row younger than the retention \<open>R\<close> and adds the row of its grant,
  if it grants; and it grants only while each limit \<open>(w, n)\<close> leaves room in the window of
  length \<open>w \<le> R\<close> that ends at \<open>t\<close>. With readings that never decrease, the rows that were
  dropped do not matter: the limits then hold for the whole history of grants.
\<close>

type_synonym grant = "str \<times> int \<times> int \<times> rat"

fun g_key :: "grant \<Rightarrow> str \<times> int" where "g_key (b, u, p, t) = (b, u)"
fun g_owner :: "grant \<Rightarrow> str \<times> int" where "g_owner (b, u, p, t) = (b, p)"
fun g_time :: "grant \<Rightarrow> rat" where "g_time (b, u, p, t) = t"

definition times_of :: "str \<times> int \<Rightarrow> grant list \<Rightarrow> rat list" where
  "times_of k h = map g_time (filter (\<lambda>g. g_owner g = k) h)"

definition since :: "rat \<Rightarrow> grant list \<Rightarrow> grant list" where
  "since c = filter (\<lambda>g. c \<le> g_time g)"

fun monotone_from :: "('op \<Rightarrow> rat option) \<Rightarrow> rat \<Rightarrow> 'op list \<Rightarrow> bool" where
  "monotone_from reading m [] = True"
| "monotone_from reading m (x # xs) =
     (case reading x of
        None \<Rightarrow> monotone_from reading m xs
      | Some t \<Rightarrow> m \<le> t \<and> monotone_from reading t xs)"

fun grant_history :: "('op \<Rightarrow> 'l \<Rightarrow> 'l) \<Rightarrow> ('op \<Rightarrow> 'l \<Rightarrow> grant option) \<Rightarrow> 'op list \<Rightarrow> 'l \<Rightarrow> grant list" where
  "grant_history step granted [] l = []"
| "grant_history step granted (x # xs) l =
     (case granted x l of None \<Rightarrow> [] | Some g \<Rightarrow> [g]) @ grant_history step granted xs (step x l)"

lemma times_of_append [simp]: "times_of k (h @ h') = times_of k h @ times_of k h'"
  by (simp add: times_of_def)

lemma grant_history_append:
  "grant_history step granted (xs @ ys) l =
     grant_history step granted xs l @ grant_history step granted ys (run_ops step xs l)"
  by (induction xs arbitrary: l) simp_all

lemma times_of_one [simp]: "times_of k [g] = (if g_owner g = k then [g_time g] else [])" "times_of k [] = []"
  by (simp_all add: times_of_def)

lemma since_later: "c \<le> c' \<Longrightarrow> since c' (since c h) = since c' h"
  by (auto simp: since_def intro!: filter_cong)

lemma since_append [simp]: "since c (h @ h') = since c h @ since c h'"
  by (simp add: since_def)

lemma times_of_since:
  "c < c' \<Longrightarrow> filter (\<lambda>t. c' < t) (times_of k (since c h)) = filter (\<lambda>t. c' < t) (times_of k h)"
  by (induction h) (auto simp: times_of_def since_def)

locale quota_table =
  fixes rows :: "'l \<Rightarrow> grant list"
    and step :: "'op \<Rightarrow> 'l \<Rightarrow> 'l"
    and reading :: "'op \<Rightarrow> rat option"
    and granted :: "'op \<Rightarrow> 'l \<Rightarrow> grant option"
    and limits :: "(rat \<times> nat) set"
    and R :: rat
  assumes unread: "reading x = None \<Longrightarrow> rows (step x l) = rows l \<and> granted x l = None"
    and kept: "reading x = Some t \<Longrightarrow> since (t - R) (rows (step x l)) =
      since (t - R) (rows l) @ (case granted x l of None \<Rightarrow> [] | Some g \<Rightarrow> [g])"
    and grant_time: "granted x l = Some g \<Longrightarrow> reading x = Some (g_time g)"
    and grant_room: "granted x l = Some g \<Longrightarrow> (w, n) \<in> limits \<Longrightarrow>
      length (filter (\<lambda>t. g_time g - w < t) (times_of (g_owner g) (rows l))) < n"
    and short: "(w, n) \<in> limits \<Longrightarrow> w < R"
    and some_time: "0 < R"
begin

definition faithful_log :: "grant list \<Rightarrow> rat \<Rightarrow> 'l \<Rightarrow> bool" where
  "faithful_log h m l \<longleftrightarrow> since (m - R) (rows l) = since (m - R) h
     \<and> (\<forall>w n k T. (w, n) \<in> limits \<longrightarrow> in_window w T (times_of k h) \<le> n)"

lemma faithful_later:
  assumes "faithful_log h m l" "m \<le> t"
  shows "since (t - R) (rows l) = since (t - R) h"
proof -
  have "since (t - R) (since (m - R) (rows l)) = since (t - R) (since (m - R) h)"
    using assms(1) by (simp add: faithful_log_def)
  then show ?thesis using assms(2) by (simp add: since_later)
qed

lemma faithful_step:
  assumes log: "faithful_log h m l" and read: "reading x = Some t" and mt: "m \<le> t"
  shows "faithful_log (h @ (case granted x l of None \<Rightarrow> [] | Some g \<Rightarrow> [g])) t (step x l)"
proof -
  have agree: "since (t - R) (rows l) = since (t - R) h"
    using log mt by (rule faithful_later)
  have "in_window w T (times_of k (h @ [g])) \<le> n"
    if g: "granted x l = Some g" and wn: "(w, n) \<in> limits" for g w n k T
  proof -
    have t: "g_time g = t" using grant_time [OF g] read by simp
    have "t - R < t - w" using short [OF wn] by simp
    then have "filter (\<lambda>s. t - w < s) (times_of (g_owner g) h) =
        filter (\<lambda>s. t - w < s) (times_of (g_owner g) (rows l))"
      using times_of_since [of "t - R" "t - w"] agree by metis
    then have "length (filter (\<lambda>s. t - w < s) (times_of (g_owner g) h)) < n"
      using grant_room [OF g wn] t by simp
    moreover have old: "\<forall>T. in_window w T (times_of k h) \<le> n" for k
      using log wn unfolding faithful_log_def by blast
    ultimately have "in_window w T (times_of (g_owner g) h @ [t]) \<le> n"
      by (intro in_window_snoc) auto
    then show ?thesis using old [of k] t by auto
  qed
  moreover have "since (t - R) [g] = [g]" if "granted x l = Some g" for g
    using grant_time [OF that] read some_time by (simp add: since_def)
  ultimately show ?thesis
    using log agree kept [OF read, of l]
    unfolding faithful_log_def by (cases "granted x l") (simp_all, blast?)
qed

lemma faithful_run:
  "faithful_log h m l \<Longrightarrow> monotone_from reading m xs \<Longrightarrow>
     \<exists>m' \<ge> m. faithful_log (h @ grant_history step granted xs l) m' (run_ops step xs l)"
proof (induction xs arbitrary: h m l)
  case Nil
  then show ?case by auto
next
  case (Cons x xs)
  show ?case
  proof (cases "reading x")
    case None
    then have "rows (step x l) = rows l" "granted x l = None" using unread by auto
    with Cons None show ?thesis by (simp add: faithful_log_def)
  next
    case (Some t)
    with Cons.prems have "faithful_log (h @ (case granted x l of None \<Rightarrow> [] | Some g \<Rightarrow> [g])) t (step x l)"
      by (intro faithful_step) auto
    moreover have "m \<le> t" "monotone_from reading t xs" using Cons.prems Some by auto
    ultimately obtain m' where "t \<le> m'" "faithful_log ((h @ (case granted x l of None \<Rightarrow> [] | Some g \<Rightarrow> [g])) @
        grant_history step granted xs (step x l)) m' (run_ops step xs (step x l))"
      using Cons.IH by blast
    with \<open>m \<le> t\<close> show ?thesis by (intro exI [of _ m']) simp
  qed
qed

lemma faithful_start: "rows l = [] \<Longrightarrow> faithful_log [] m l"
  by (auto simp: faithful_log_def since_def)

lemma quota_holds:
  assumes "rows l = []" "monotone_from reading m xs" "(w, n) \<in> limits"
  shows "in_window w T (times_of k (grant_history step granted xs l)) \<le> n"
  using faithful_run [OF faithful_start [OF assms(1)] assms(2)] assms(3)
  unfolding faithful_log_def append_Nil by blast

end

text \<open>A table that also refuses a key it still holds: no key is granted twice within the
  retention time.\<close>

locale replay_guard = quota_table rows step reading granted limits R
  for rows :: "'l \<Rightarrow> grant list" and step :: "'op \<Rightarrow> 'l \<Rightarrow> 'l" and reading :: "'op \<Rightarrow> rat option"
    and granted :: "'op \<Rightarrow> 'l \<Rightarrow> grant option" and limits :: "(rat \<times> nat) set" and R :: rat +
  assumes grant_fresh: "granted x l = Some g \<Longrightarrow> g_key g \<notin> g_key ` set (since (g_time g - R) (rows l))"
begin

lemma replay_step:
  assumes "faithful_log h m l" "reading x = Some t" "m \<le> t" "granted x l = Some g"
    "old \<in> set h" "g_key old = g_key g"
  shows "g_time old < g_time g - R"
proof (rule ccontr)
  assume "\<not> g_time old < g_time g - R"
  moreover have "g_time g = t" using grant_time [OF assms(4)] assms(2) by simp
  ultimately have "old \<in> set (since (t - R) h)" using assms(5) by (simp add: since_def)
  also have "since (t - R) h = since (t - R) (rows l)"
    using assms(1,3) by (rule faithful_later [symmetric])
  finally show False using grant_fresh [OF assms(4)] assms(6) \<open>g_time g = t\<close> by (metis image_eqI)
qed

lemma replay_run:
  "faithful_log h m l \<Longrightarrow> monotone_from reading m xs \<Longrightarrow>
     sorted_wrt (\<lambda>a b. g_key a = g_key b \<longrightarrow> g_time a < g_time b - R) h \<Longrightarrow>
     sorted_wrt (\<lambda>a b. g_key a = g_key b \<longrightarrow> g_time a < g_time b - R)
       (h @ grant_history step granted xs l)"
proof (induction xs arbitrary: h m l)
  case (Cons x xs)
  let ?g = "case granted x l of None \<Rightarrow> [] | Some g \<Rightarrow> [g]"
  show ?case
  proof (cases "reading x")
    case None
    then have "rows (step x l) = rows l" "granted x l = None" using unread by auto
    then have "faithful_log h m (step x l)" using Cons.prems(1) by (simp add: faithful_log_def)
    from Cons.IH [OF this] Cons.prems None \<open>granted x l = None\<close> show ?thesis by simp
  next
    case (Some t)
    then have mt: "m \<le> t" and rest: "monotone_from reading t xs" using Cons.prems by auto
    have log: "faithful_log (h @ ?g) t (step x l)" using Cons.prems(1) Some mt by (rule faithful_step)
    have "sorted_wrt (\<lambda>a b. g_key a = g_key b \<longrightarrow> g_time a < g_time b - R) (h @ ?g)"
      using Cons.prems(3) replay_step [OF Cons.prems(1) Some mt]
      by (auto simp: sorted_wrt_append split: option.splits)
    from Cons.IH [OF log rest this] show ?thesis by simp
  qed
qed simp

lemma replays_apart:
  assumes "rows l = []" "monotone_from reading m xs"
  shows "sorted_wrt (\<lambda>a b. g_key a = g_key b \<longrightarrow> g_time a < g_time b - R)
    (grant_history step granted xs l)"
  using replay_run [OF faithful_start [OF assms(1)] assms(2)] by simp

end

end
