(* ===== verification/Rate_Limit.thy ===== *)
theory Rate_Limit
  imports Sliding_Window
begin

text \<open>
  The in-process sliding-window limiter, \<open>src/agency/telegram/rate_limit.py\<close>.

  The dict of hits keeps
  its insertion order: \<open>allow\<close> moves the user it serves to the end. A deque with
  \<open>maxlen\<close> keeps its last entries.
\<close>

section \<open>Model\<close>

datatype limiter_error = NotPositive | BadWindow

record limiter =
  rl_max_requests :: nat
  rl_window_seconds :: rat
  rl_max_users :: nat
  rl_hits :: "(int \<times> rat list) list"
  rl_last_seen :: "rat option"

definition mk_limiter :: "int \<Rightarrow> clock_reading \<Rightarrow> int \<Rightarrow> (limiter_error, limiter) res" where
  "mk_limiter max_requests window max_users =
     (if max_requests \<le> 0 then Inl NotPositive
      else case window of
          Seconds w \<Rightarrow>
            if w \<le> 0 then Inl BadWindow
            else if max_users \<le> 0 then Inl NotPositive
            else Inr \<lparr>rl_max_requests = nat max_requests, rl_window_seconds = w,
              rl_max_users = nat max_users, rl_hits = [], rl_last_seen = None\<rparr>
        | _ \<Rightarrow> Inl BadWindow)"

text \<open>\<open>deque(..., maxlen=n)\<close> built from a sequence keeps the last \<open>n\<close> elements.\<close>

definition live_stamps :: "nat \<Rightarrow> rat \<Rightarrow> rat \<Rightarrow> rat list \<Rightarrow> rat list" where
  "live_stamps n cutoff now stamps = last_n n (filter (\<lambda>t. cutoff < t \<and> t \<le> now) stamps)"

definition evict_one :: "limiter \<Rightarrow> rat \<Rightarrow> (int \<times> rat list) list \<Rightarrow> int \<times> rat list \<Rightarrow> (int \<times> rat list) list"
  where
  "evict_one l now hits p =
     (let live = live_stamps (rl_max_requests l) (now - rl_window_seconds l) now (snd p) in
      if live \<noteq> [] then AList.update (fst p) live hits else AList.delete (fst p) hits)"

definition evict_expired :: "rat \<Rightarrow> limiter \<Rightarrow> limiter" where
  "evict_expired now l = l\<lparr>rl_hits := foldl (evict_one l now) (rl_hits l) (rl_hits l)\<rparr>"

text \<open>The instant the limiter works with: never before the latest one seen.\<close>

definition clamp_moment :: "rat option \<Rightarrow> rat \<Rightarrow> rat" where
  "clamp_moment seen t = (case seen of Some m \<Rightarrow> if t < m then m else t | None \<Rightarrow> t)"

definition push_stamp :: "nat \<Rightarrow> rat list \<Rightarrow> rat \<Rightarrow> rat list" where
  "push_stamp n stamps t = last_n n (stamps @ [t])"

definition move_to_end :: "int \<Rightarrow> rat list \<Rightarrow> (int \<times> rat list) list \<Rightarrow> (int \<times> rat list) list" where
  "move_to_end uid stamps hits = AList.update uid stamps (AList.delete uid hits)"

definition allow :: "int \<Rightarrow> clock_reading \<Rightarrow> limiter \<Rightarrow> bool \<times> limiter" where
  "allow uid reading l =
     (if uid \<le> 0 then (False, l)
      else case reading of
          NotANumber \<Rightarrow> (False, l)
        | NotFinite \<Rightarrow> (False, l)
        | Seconds t \<Rightarrow>
            let moment = clamp_moment (rl_last_seen l) t;
                l1 = evict_expired moment (l\<lparr>rl_last_seen := Some moment\<rparr>)
            in (case map_of (rl_hits l1) uid of
                  Some stamps \<Rightarrow>
                    if length stamps \<ge> rl_max_requests l1
                    then (False, l1\<lparr>rl_hits := move_to_end uid stamps (rl_hits l1)\<rparr>)
                    else (True, l1\<lparr>rl_hits :=
                      move_to_end uid (push_stamp (rl_max_requests l1) stamps moment) (rl_hits l1)\<rparr>)
                | None \<Rightarrow>
                    if length (rl_hits l1) \<ge> rl_max_users l1 then (False, l1)
                    else (True, l1\<lparr>rl_hits := AList.update uid [moment] (rl_hits l1)\<rparr>)))"

text \<open>The requests a sequence of calls grants, each with the instant it was granted at.\<close>

fun grants :: "(int \<times> clock_reading) list \<Rightarrow> limiter \<Rightarrow> (int \<times> rat) list" where
  "grants [] l = []"
| "grants ((u, r) # calls) l =
     (case allow u r l of (ok, l') \<Rightarrow>
        (case r of Seconds t \<Rightarrow> if ok then [(u, clamp_moment (rl_last_seen l) t)] else [] | _ \<Rightarrow> [])
        @ grants calls l')"

fun limiter_step :: "int \<times> clock_reading \<Rightarrow> limiter \<Rightarrow> limiter" where
  "limiter_step (u, r) l = snd (allow u r l)"

section \<open>Lemmas\<close>

definition stamps_of :: "limiter \<Rightarrow> int \<Rightarrow> rat list" where
  "stamps_of l u = (case map_of (rl_hits l) u of None \<Rightarrow> [] | Some ts \<Rightarrow> ts)"

text \<open>The configuration is positive, at most \<open>max_users\<close> users are tracked, each with a
  non-empty list of at most \<open>max_requests\<close> instants not after the latest one seen.\<close>

definition limiter_ok :: "limiter \<Rightarrow> bool" where
  "limiter_ok l \<longleftrightarrow> 0 < rl_max_requests l \<and> 0 < rl_window_seconds l \<and> 0 < rl_max_users l
     \<and> dict_ok (rl_hits l) \<and> length (rl_hits l) \<le> rl_max_users l
     \<and> (\<forall>u ts. map_of (rl_hits l) u = Some ts \<longrightarrow> 0 < u \<and> ts \<noteq> [] \<and> length ts \<le> rl_max_requests l)
     \<and> (\<forall>u. \<forall>t \<in> set (stamps_of l u). \<exists>m. rl_last_seen l = Some m \<and> t \<le> m)"

lemma mk_limiter_ok: "mk_limiter a w b = Inr l \<Longrightarrow> limiter_ok l"
  by (auto simp: mk_limiter_def limiter_ok_def stamps_of_def split: if_splits clock_reading.splits)

lemma evict_fold:
  assumes "dict_ok ps"
  shows "dict_ok hits \<Longrightarrow> dict_ok (foldl (evict_one l now) hits ps)"
    and "map_of (foldl (evict_one l now) hits ps) u =
      (case map_of ps u of
         None \<Rightarrow> map_of hits u
       | Some ts \<Rightarrow>
           let live = live_stamps (rl_max_requests l) (now - rl_window_seconds l) now ts
           in if live = [] then None else Some live)"
proof -
  have one: "dict_ok h \<Longrightarrow> dict_ok (evict_one l now h p)" for h p
    by (simp add: evict_one_def Let_def)
  show "dict_ok hits \<Longrightarrow> dict_ok (foldl (evict_one l now) hits ps)"
    by (induction ps arbitrary: hits) (auto simp: one)
  show "map_of (foldl (evict_one l now) hits ps) u =
      (case map_of ps u of
         None \<Rightarrow> map_of hits u
       | Some ts \<Rightarrow>
           let live = live_stamps (rl_max_requests l) (now - rl_window_seconds l) now ts
           in if live = [] then None else Some live)"
    using assms
  proof (induction ps arbitrary: hits)
    case (Cons p ps)
    have fresh: "map_of ps (fst p) = None" and ps: "dict_ok ps"
      using Cons.prems by (auto simp: dict_ok_def map_of_eq_None_iff)
    show ?case
      using Cons.IH [OF ps] fresh by (cases p) (auto simp: evict_one_def Let_def split: option.splits)
  qed simp
qed

lemma evict_expired_fields [simp]:
  "rl_max_requests (evict_expired now l) = rl_max_requests l"
  "rl_window_seconds (evict_expired now l) = rl_window_seconds l"
  "rl_max_users (evict_expired now l) = rl_max_users l"
  "rl_last_seen (evict_expired now l) = rl_last_seen l"
  by (simp_all add: evict_expired_def)

lemma evict_expired_lookup:
  "dict_ok (rl_hits l) \<Longrightarrow>
     map_of (rl_hits (evict_expired now l)) u =
       (case map_of (rl_hits l) u of
          None \<Rightarrow> None
        | Some ts \<Rightarrow>
            let live = live_stamps (rl_max_requests l) (now - rl_window_seconds l) now ts
            in if live = [] then None else Some live)"
  by (simp add: evict_expired_def evict_fold(2) Let_def split: option.splits)

lemma stamps_of_evict:
  "dict_ok (rl_hits l) \<Longrightarrow>
     stamps_of (evict_expired now l) u =
       live_stamps (rl_max_requests l) (now - rl_window_seconds l) now (stamps_of l u)"
  by (auto simp: stamps_of_def evict_expired_lookup Let_def live_stamps_def split: option.splits)

lemma evict_expired_ok:
  assumes "limiter_ok l"
  shows "limiter_ok (evict_expired now l)"
proof -
  have d: "dict_ok (rl_hits l)" using assms by (simp add: limiter_ok_def)
  then have d': "dict_ok (rl_hits (evict_expired now l))"
    by (simp add: evict_expired_def evict_fold(1))
  have "dom (map_of (rl_hits (evict_expired now l))) \<subseteq> dom (map_of (rl_hits l))"
    by (auto simp: evict_expired_lookup [OF d] split: option.splits)
  with d d' have "length (rl_hits (evict_expired now l)) \<le> length (rl_hits l)"
    by (intro dict_length_le)
  moreover have "set (stamps_of (evict_expired now l) u) \<subseteq> set (stamps_of l u)" for u
    unfolding stamps_of_evict [OF d] live_stamps_def using set_last_n by fastforce
  ultimately show ?thesis
    using assms d' unfolding limiter_ok_def
    by (fastforce simp: evict_expired_lookup [OF d] Let_def live_stamps_def split: option.splits if_splits)
qed


text \<open>The three ways a call with a finite clock reading ends: a full user is refused, a known
  or new user is served, a new user is refused while the table is full.\<close>

lemma allow_cases:
  fixes uid :: int and l :: limiter and t :: rat
  assumes "0 < uid"
  defines "moment \<equiv> clamp_moment (rl_last_seen l) t"
  defines "l1 \<equiv> evict_expired moment (l\<lparr>rl_last_seen := Some moment\<rparr>)"
  obtains (full) stamps where "map_of (rl_hits l1) uid = Some stamps" "rl_max_requests l \<le> length stamps"
      "allow uid (Seconds t) l = (False, l1\<lparr>rl_hits := move_to_end uid stamps (rl_hits l1)\<rparr>)"
  | (known) stamps where "map_of (rl_hits l1) uid = Some stamps" "length stamps < rl_max_requests l"
      "allow uid (Seconds t) l = (True, l1\<lparr>rl_hits :=
         move_to_end uid (push_stamp (rl_max_requests l) stamps moment) (rl_hits l1)\<rparr>)"
  | (new) "map_of (rl_hits l1) uid = None" "length (rl_hits l1) < rl_max_users l"
      "allow uid (Seconds t) l = (True, l1\<lparr>rl_hits := AList.update uid [moment] (rl_hits l1)\<rparr>)"
  | (saturated) "map_of (rl_hits l1) uid = None" "rl_max_users l \<le> length (rl_hits l1)"
      "allow uid (Seconds t) l = (False, l1)"
proof -
  have eq: "allow uid (Seconds t) l =
      (case map_of (rl_hits l1) uid of
         Some stamps \<Rightarrow>
           if length stamps \<ge> rl_max_requests l
           then (False, l1\<lparr>rl_hits := move_to_end uid stamps (rl_hits l1)\<rparr>)
           else (True, l1\<lparr>rl_hits :=
             move_to_end uid (push_stamp (rl_max_requests l) stamps moment) (rl_hits l1)\<rparr>)
       | None \<Rightarrow>
           if length (rl_hits l1) \<ge> rl_max_users l then (False, l1)
           else (True, l1\<lparr>rl_hits := AList.update uid [moment] (rl_hits l1)\<rparr>))"
    using assms(1) unfolding allow_def l1_def moment_def Let_def by (simp split: option.split)
  show thesis
  proof (cases "map_of (rl_hits l1) uid")
    case None
    with eq new saturated show thesis by (cases "rl_max_users l \<le> length (rl_hits l1)") auto
  next
    case (Some stamps)
    with eq full known show thesis by (cases "rl_max_requests l \<le> length stamps") auto
  qed
qed

lemma move_to_end_lookup [simp]:
  "map_of (move_to_end u ts hits) = (map_of hits)(u \<mapsto> ts)"
  "dict_ok hits \<Longrightarrow> dict_ok (move_to_end u ts hits)"
  by (auto simp: move_to_end_def)

lemma length_move_to_end:
  "dict_ok hits \<Longrightarrow> map_of hits u = Some ts \<Longrightarrow> length (move_to_end u ts' hits) = length hits"
  by (auto simp: dict_length intro!: arg_cong [where f = card])

lemma limiter_ok_put:
  assumes "limiter_ok l" "dict_ok hits" "map_of hits = (map_of (rl_hits l))(u \<mapsto> ts)"
    "length hits \<le> rl_max_users l" "0 < u" "ts \<noteq> []" "length ts \<le> rl_max_requests l"
    "\<forall>t \<in> set ts. t \<in> set (stamps_of l u) \<or> Some t = rl_last_seen l"
  shows "limiter_ok (l\<lparr>rl_hits := hits\<rparr>)"
proof -
  have "stamps_of (l\<lparr>rl_hits := hits\<rparr>) v = (if v = u then ts else stamps_of l v)" for v
    using assms(3) by (simp add: stamps_of_def)
  with assms show ?thesis unfolding limiter_ok_def by (auto split: if_splits) (metis order_refl)
qed

lemma limiter_ok_seen:
  assumes "limiter_ok l"
  shows "limiter_ok (l\<lparr>rl_last_seen := Some (clamp_moment (rl_last_seen l) t)\<rparr>)"
proof -
  have "stamps_of (l\<lparr>rl_last_seen := m\<rparr>) u = stamps_of l u" for m u
    by (simp add: stamps_of_def)
  with assms show ?thesis
    by (force simp: limiter_ok_def clamp_moment_def split: option.splits)
qed

lemma allow_ok [step_inv]:
  assumes "limiter_ok l"
  shows "limiter_ok (snd (allow uid r l))"
proof (cases "0 < uid \<and> (\<exists>t. r = Seconds t)")
  case False
  then show ?thesis using assms by (cases r) (auto simp: allow_def)
next
  case True
  then obtain t where uid: "0 < uid" and r: "r = Seconds t" by blast
  let ?m = "clamp_moment (rl_last_seen l) t"
  let ?l1 = "evict_expired ?m (l\<lparr>rl_last_seen := Some ?m\<rparr>)"
  have ok: "limiter_ok ?l1" using assms by (intro evict_expired_ok limiter_ok_seen)
  then have d: "dict_ok (rl_hits ?l1)" and n: "length (rl_hits ?l1) \<le> rl_max_users ?l1"
    and pos: "0 < rl_max_requests ?l1" by (auto simp: limiter_ok_def)
  have stamps: "ts \<noteq> []" "length ts \<le> rl_max_requests ?l1" "stamps_of ?l1 uid = ts"
    if "map_of (rl_hits ?l1) uid = Some ts" for ts
    using ok that by (auto simp: limiter_ok_def stamps_of_def)
  show ?thesis
    using uid
  proof (cases rule: allow_cases [where l = l and t = t])
    case (full ts)
    have "limiter_ok (?l1\<lparr>rl_hits := move_to_end uid ts (rl_hits ?l1)\<rparr>)"
      using ok d n uid stamps [OF full(1)] full(1)
      by (intro limiter_ok_put) (auto simp: length_move_to_end)
    then show ?thesis by (simp add: r full(3))
  next
    case (known ts)
    have "limiter_ok (?l1\<lparr>rl_hits :=
        move_to_end uid (push_stamp (rl_max_requests l) ts ?m) (rl_hits ?l1)\<rparr>)"
      using ok d n uid stamps [OF known(1)] known(1,2)
      by (intro limiter_ok_put [where ts = "ts @ [?m]" and u = uid])
        (auto simp: length_move_to_end push_stamp_def)
    then show ?thesis by (simp add: r known(3))
  next
    case new
    have "length (AList.update uid [?m] (rl_hits ?l1)) = Suc (length (rl_hits ?l1))"
      using new(1) by (simp add: update_fresh)
    with new uid have "limiter_ok (?l1\<lparr>rl_hits := AList.update uid [?m] (rl_hits ?l1)\<rparr>)"
      using ok d pos by (intro limiter_ok_put) auto
    then show ?thesis by (simp add: r new(3))
  qed (use ok in \<open>simp add: r\<close>)
qed

interpretation limiter_runs: op_machine limiter_step limiter_ok "\<lambda>_. True"
  by unfold_locales (auto intro: step_inv)

lemma allow_config:
  "rl_max_requests (snd (allow uid r l)) = rl_max_requests l"
  "rl_window_seconds (snd (allow uid r l)) = rl_window_seconds l"
  "rl_max_users (snd (allow uid r l)) = rl_max_users l"
  by (auto simp: allow_def Let_def split: clock_reading.splits option.splits)

subsection \<open>The history of grants\<close>

definition times :: "int \<Rightarrow> (int \<times> rat) list \<Rightarrow> rat list" where
  "times u h = map snd (filter (\<lambda>g. fst g = u) h)"

lemma times_append [simp]: "times u (h @ h') = times u h @ times u h'"
  by (simp add: times_def)

lemma times_single [simp]: "times u [(v, t)] = (if v = u then [t] else [])" "times u [] = []"
  by (simp_all add: times_def)

text \<open>What the limiter remembers of the grants so far: exactly those of the window that ends at
  the latest instant seen; no window ever holds more than \<open>max_requests\<close> of one user.\<close>

definition history_ok :: "(int \<times> rat) list \<Rightarrow> limiter \<Rightarrow> bool" where
  "history_ok h l \<longleftrightarrow>
     (\<forall>u T. in_window (rl_window_seconds l) T (times u h) \<le> rl_max_requests l)
     \<and> (case rl_last_seen l of
          None \<Rightarrow> h = []
        | Some m \<Rightarrow> (\<forall>u. \<forall>t \<in> set (times u h). t \<le> m)
            \<and> (\<forall>u. stamps_of l u = filter (\<lambda>t. m - rl_window_seconds l < t) (times u h)))"

lemma history_evict:
  fixes l :: limiter and t :: rat
  assumes "limiter_ok l" "history_ok h l"
  defines "m \<equiv> clamp_moment (rl_last_seen l) t"
  defines "l1 \<equiv> evict_expired m (l\<lparr>rl_last_seen := Some m\<rparr>)"
  shows "history_ok h l1" and "\<forall>u. \<forall>t \<in> set (times u h). t \<le> m"
proof -
  have d: "dict_ok (rl_hits l)" and short: "length (stamps_of l u) \<le> rl_max_requests l" for u
    using assms(1) by (auto simp: limiter_ok_def stamps_of_def split: option.splits)
  have le: "\<forall>u. \<forall>t \<in> set (times u h). t \<le> m"
    using assms(2) by (fastforce simp: history_ok_def m_def clamp_moment_def split: option.splits)
  have "stamps_of l1 u = filter (\<lambda>t. m - rl_window_seconds l < t) (times u h)" for u
  proof -
    have "stamps_of (l\<lparr>rl_last_seen := Some m\<rparr>) u = stamps_of l u" by (simp add: stamps_of_def)
    then have "stamps_of l1 u =
        last_n (rl_max_requests l) (filter (\<lambda>t. m - rl_window_seconds l < t \<and> t \<le> m) (stamps_of l u))"
      unfolding l1_def using d by (simp add: stamps_of_evict live_stamps_def)
    also have "\<dots> = filter (\<lambda>t. m - rl_window_seconds l < t \<and> t \<le> m) (stamps_of l u)"
      using short [of u] by (intro last_n_short) (rule le_trans [OF length_filter_le])
    also have "\<dots> = filter (\<lambda>t. m - rl_window_seconds l < t) (times u h)"
    proof (cases "rl_last_seen l")
      case None
      with assms(1,2) have "stamps_of l u = []" "h = []"
        by (auto simp: limiter_ok_def history_ok_def)
      then show ?thesis by simp
    next
      case (Some m0)
      with assms(2) have "stamps_of l u = filter (\<lambda>t. m0 - rl_window_seconds l < t) (times u h)"
        by (simp add: history_ok_def)
      moreover have "m0 \<le> m" using Some by (simp add: m_def clamp_moment_def)
      ultimately show ?thesis using le by (auto intro!: filter_cong)
    qed
    finally show ?thesis .
  qed
  with le assms(2) show "history_ok h l1" by (simp add: history_ok_def l1_def)
  show "\<forall>u. \<forall>t \<in> set (times u h). t \<le> m" by (rule le)
qed

lemma history_refused:
  assumes "history_ok h l" "\<And>u. stamps_of l' u = stamps_of l u" "rl_last_seen l' = rl_last_seen l"
    "rl_window_seconds l' = rl_window_seconds l" "rl_max_requests l' = rl_max_requests l"
  shows "history_ok h l'"
  using assms by (simp add: history_ok_def split: option.splits)

text \<open>A grant at the instant the window ends now leaves every window within the limit.\<close>

lemma history_granted:
  assumes h: "history_ok h l" and seen: "rl_last_seen l = Some m"
    and room: "length (stamps_of l u) < rl_max_requests l" and w: "0 < rl_window_seconds l"
    and l': "\<And>v. stamps_of l' v = (if v = u then stamps_of l u @ [m] else stamps_of l v)"
      "rl_last_seen l' = Some m" "rl_window_seconds l' = rl_window_seconds l"
      "rl_max_requests l' = rl_max_requests l"
  shows "history_ok (h @ [(u, m)]) l'"
proof -
  have le: "\<forall>v. \<forall>t \<in> set (times v h). t \<le> m"
    and st: "\<forall>v. stamps_of l v = filter (\<lambda>t. m - rl_window_seconds l < t) (times v h)"
    using h seen by (auto simp: history_ok_def)
  have "in_window (rl_window_seconds l) T (times u h @ [m]) \<le> rl_max_requests l" for T
    using h room st by (intro in_window_snoc) (auto simp: history_ok_def)
  with h le st w show ?thesis by (auto simp: history_ok_def l')
qed

lemma allow_history:
  assumes ok: "limiter_ok l" and h: "history_ok h l"
  shows "history_ok (h @ grants [(u, r)] l) (snd (allow u r l))"
proof (cases "0 < u \<and> (\<exists>t. r = Seconds t)")
  case False
  then show ?thesis using h by (cases r) (auto simp: allow_def)
next
  case True
  then obtain t where u: "0 < u" and r: "r = Seconds t" by blast
  let ?m = "clamp_moment (rl_last_seen l) t"
  let ?l1 = "evict_expired ?m (l\<lparr>rl_last_seen := Some ?m\<rparr>)"
  note h1 = history_evict(1) [OF ok h, of t]
  have ok1: "limiter_ok ?l1" using ok by (intro evict_expired_ok limiter_ok_seen)
  then have w: "0 < rl_window_seconds ?l1" and pos: "0 < rl_max_requests ?l1" by (auto simp: limiter_ok_def)
  show ?thesis
    using u
  proof (cases rule: allow_cases [where l = l and t = t])
    case (full ts)
    then have "history_ok h (?l1\<lparr>rl_hits := move_to_end u ts (rl_hits ?l1)\<rparr>)"
      by (intro history_refused [OF h1]) (auto simp: stamps_of_def)
    then show ?thesis by (simp add: r full(3))
  next
    case (known ts)
    then have "history_ok (h @ [(u, ?m)])
        (?l1\<lparr>rl_hits := move_to_end u (push_stamp (rl_max_requests l) ts ?m) (rl_hits ?l1)\<rparr>)"
      using w by (intro history_granted [OF h1, where m = ?m]) (auto simp: stamps_of_def push_stamp_def)
    then show ?thesis by (simp add: r known(3))
  next
    case new
    then have "history_ok (h @ [(u, ?m)]) (?l1\<lparr>rl_hits := AList.update u [?m] (rl_hits ?l1)\<rparr>)"
      using w pos by (intro history_granted [OF h1, where m = ?m]) (auto simp: stamps_of_def)
    then show ?thesis by (simp add: r new(3))
  qed (use h1 in \<open>simp add: r\<close>)
qed

lemma grants_Cons: "grants (c # calls) l = grants [c] l @ grants calls (limiter_step c l)"
  by (cases c) (simp add: split_beta)

lemma run_history:
  "limiter_ok l \<Longrightarrow> history_ok h l \<Longrightarrow> history_ok (h @ grants calls l) (run_ops limiter_step calls l)"
proof (induction calls arbitrary: l h)
  case (Cons c calls)
  obtain u r where c: "c = (u, r)" by fastforce
  have "history_ok ((h @ grants [c] l) @ grants calls (limiter_step c l))
      (run_ops limiter_step calls (limiter_step c l))"
    unfolding c using Cons.prems by (intro Cons.IH) (auto intro: allow_ok allow_history simp del: grants.simps)
  then show ?case by (subst grants_Cons) (simp del: grants.simps)
qed simp

lemma run_config:
  "rl_max_requests (run_ops limiter_step calls l) = rl_max_requests l"
  "rl_window_seconds (run_ops limiter_step calls l) = rl_window_seconds l"
  "rl_max_users (run_ops limiter_step calls l) = rl_max_users l"
  by (induction calls arbitrary: l) (auto simp: allow_config)

section \<open>Properties\<close>

text \<open>C34: Whatever calls arrive, and however the clock behaves (steps backwards and unusable
  readings included), no user is granted more than \<open>max_requests\<close> requests in any window
  of \<open>window_seconds\<close> of the limiter's own time.\<close>

theorem sliding_window_bound:
  assumes "mk_limiter max_requests (Seconds w) max_users = Inr l"
  shows "in_window w T (times u (grants calls l)) \<le> nat max_requests"
proof -
  have l: "rl_max_requests l = nat max_requests" "rl_window_seconds l = w" "history_ok [] l"
    using assms by (auto simp: mk_limiter_def history_ok_def in_window_def split: if_splits)
  have "history_ok ([] @ grants calls l) (run_ops limiter_step calls l)"
    using assms l(3) by (intro run_history mk_limiter_ok)
  then show ?thesis using l by (simp add: history_ok_def run_config)
qed

theorem sliding_window_bound_witness:
  "in_window 10 12 (times 7 (grants [(7, Seconds 1), (7, Seconds 2), (7, Seconds 3), (7, Seconds 12)]
     \<lparr>rl_max_requests = 2, rl_window_seconds = 10, rl_max_users = 5, rl_hits = [], rl_last_seen = None\<rparr>)) \<le> 2"
  using sliding_window_bound [of 2 10 5 "\<lparr>rl_max_requests = 2, rl_window_seconds = 10, rl_max_users = 5,
    rl_hits = [], rl_last_seen = None\<rparr>" 12 7
    "[(7, Seconds 1), (7, Seconds 2), (7, Seconds 3), (7, Seconds 12)]"]
  by (simp add: mk_limiter_def)

text \<open>The limiter is exact, not only safe. A call for a valid user with a usable clock
  reading, after any sequence of calls, is granted exactly when fewer than \<open>max_requests\<close>
  of the user's own grants lie in the window that ends at the instant of the call and, for a
  user with none there, fewer than \<open>max_users\<close> users have one: refused calls cost nothing.\<close>

lemma allow_iff_budget_left:
  assumes "mk_limiter max_requests (Seconds w) max_users = Inr l0" and "0 < u"
  shows "let l = run_ops limiter_step calls l0; h = grants calls l0;
             T = clamp_moment (rl_last_seen l) t;
             used = (\<lambda>v. in_window w T (times v h))
         in fst (allow u (Seconds t) l) \<longleftrightarrow>
              used u < nat max_requests \<and> (used u = 0 \<longrightarrow> card {v. used v > 0} < nat max_users)"
proof -
  let ?l = "run_ops limiter_step calls l0" and ?h = "grants calls l0"
  let ?T = "clamp_moment (rl_last_seen ?l) t"
  let ?l1 = "evict_expired ?T (?l\<lparr>rl_last_seen := Some ?T\<rparr>)"
  have cfg: "rl_max_requests ?l = nat max_requests" "rl_window_seconds ?l = w"
    "rl_max_users ?l = nat max_users" "0 < max_requests" and h0: "history_ok [] l0"
    using assms by (auto simp: mk_limiter_def run_config history_ok_def in_window_def split: if_splits)
  have ok: "limiter_ok ?l" using assms by (auto intro: limiter_runs.run_keeps mk_limiter_ok simp: list_all_iff)
  have h: "history_ok ?h ?l" using run_history [OF mk_limiter_ok [OF assms(1)] h0, of calls] by simp
  have ok1: "limiter_ok ?l1" using ok by (intro evict_expired_ok limiter_ok_seen)
  have used: "in_window w ?T (times v ?h) = length (stamps_of ?l1 v)" for v
  proof -
    have "stamps_of ?l1 v = filter (\<lambda>x. ?T - w < x) (times v ?h)"
      using history_evict(1) [OF ok h, of t] by (simp add: history_ok_def cfg)
    then show ?thesis
      using history_evict(2) [OF ok h, of t] by (auto simp: in_window_def intro!: arg_cong [where f = length] filter_cong)
  qed
  have tracked: "stamps_of ?l1 v \<noteq> [] \<longleftrightarrow> map_of (rl_hits ?l1) v \<noteq> None" for v
    using ok1 by (auto simp: limiter_ok_def stamps_of_def split: option.splits)
  then have "{v. 0 < in_window w ?T (times v ?h)} = dom (map_of (rl_hits ?l1))"
    by (auto simp: used dom_def)
  then have users: "card {v. 0 < in_window w ?T (times v ?h)} = length (rl_hits ?l1)"
    using ok1 by (simp add: limiter_ok_def dict_length)
  have "fst (allow u (Seconds t) ?l) \<longleftrightarrow>
      length (stamps_of ?l1 u) < nat max_requests
      \<and> (length (stamps_of ?l1 u) = 0 \<longrightarrow> length (rl_hits ?l1) < nat max_users)"
    using assms(2)
  proof (cases rule: allow_cases [where l = ?l and t = t])
    case (known ts)
    then have "stamps_of ?l1 u = ts" "ts \<noteq> []" using ok1 by (auto simp: stamps_of_def limiter_ok_def)
    with known cfg show ?thesis by simp
  qed (use cfg in \<open>auto simp: stamps_of_def\<close>)
  then show ?thesis unfolding Let_def used [symmetric] users [symmetric] .
qed

lemma allow_iff_budget_left_example:
  "fst (allow 7 (Seconds 2) (run_ops limiter_step [(7, Seconds 1)]
     \<lparr>rl_max_requests = 2, rl_window_seconds = 10, rl_max_users = 1, rl_hits = [], rl_last_seen = None\<rparr>))"
proof -
  let ?l = "\<lparr>rl_max_requests = 2, rl_window_seconds = 10, rl_max_users = 1, rl_hits = [], rl_last_seen = None\<rparr>"
  have "mk_limiter 2 (Seconds 10) 1 = Inr ?l" by (simp add: mk_limiter_def)
  then have "let l = run_ops limiter_step [(7, Seconds 1)] ?l; h = grants [(7, Seconds 1)] ?l;
        T = clamp_moment (rl_last_seen l) 2; used = (\<lambda>v. in_window 10 T (times v h))
      in fst (allow 7 (Seconds 2) l) \<longleftrightarrow>
           used 7 < nat 2 \<and> (used 7 = 0 \<longrightarrow> card {v. used v > 0} < nat 1)"
    by (rule allow_iff_budget_left) simp
  moreover have "grants [(7, Seconds 1)] ?l = [(7, 1)]"
    "rl_last_seen (run_ops limiter_step [(7, Seconds 1)] ?l) = Some 1"
    by (simp_all add: allow_def clamp_moment_def evict_expired_def)
  ultimately show ?thesis
    by (simp add: Let_def clamp_moment_def in_window_def del: run_ops_Cons grants.simps)
qed

text \<open>The table stays bounded: from construction on, at most \<open>max_users\<close> users are
  tracked, each a positive id with a non-empty list of at most \<open>max_requests\<close> instants, none
  after the latest instant seen.\<close>

lemma limiter_state_bounded:
  assumes "mk_limiter max_requests window max_users = Inr l"
  shows "limiter_ok (run_ops limiter_step calls l)
    \<and> rl_max_users (run_ops limiter_step calls l) = nat max_users
    \<and> rl_max_requests (run_ops limiter_step calls l) = nat max_requests"
proof -
  have "rl_max_users l = nat max_users" "rl_max_requests l = nat max_requests"
    using assms by (auto simp: mk_limiter_def split: if_splits clock_reading.splits)
  with assms show ?thesis
    by (auto intro: limiter_runs.run_keeps mk_limiter_ok simp: run_config list_all_iff)
qed

lemma limiter_state_bounded_witness:
  "limiter_ok (run_ops limiter_step [(7, Seconds 1), (8, NotFinite), (0, Seconds 2)]
     \<lparr>rl_max_requests = 2, rl_window_seconds = 10, rl_max_users = 5, rl_hits = [], rl_last_seen = None\<rparr>)"
  using limiter_state_bounded [of 2 "Seconds 10" 5 "\<lparr>rl_max_requests = 2, rl_window_seconds = 10,
    rl_max_users = 5, rl_hits = [], rl_last_seen = None\<rparr>" "[(7, Seconds 1), (8, NotFinite), (0, Seconds 2)]"]
  by (simp add: mk_limiter_def del: run_ops_Cons)

end
