(* ===== verification/Budget_Ledger.thy ===== *)
theory Budget_Ledger
  imports Sliding_Window
begin

text \<open>
  The durable quota ledger, \<open>src/agency/telegram/budget_store.py\<close>: limits, validators and
  the transactions the worker threads run. The asynchronous API on top of them is in
  \<open>Budget_Store\<close>.

  The database is three tables, each a list of rows in insertion order. A transaction runs
  under \<open>BEGIN IMMEDIATE\<close>, so it sees and changes the tables alone: it is a function from
  tables to an exception, with the tables rolled back, or to a result with new tables. What
  the outside does during a transaction is an argument of it: whether the connection opens,
  whether \<open>BEGIN IMMEDIATE\<close> gets the write lock, whether the statements and the commit go
  through, and what the clock returns. An integer that does not fit the 64 bits of a statement's
  parameter raises where it is bound.
\<close>

section \<open>Limits\<close>

record budget_limits =
  requests_per_hour :: int
  requests_per_day :: int
  model_calls_per_hour :: int
  model_calls_per_day :: int
  model_calls_per_request :: int

definition limit_ceilings :: "(str \<times> (budget_limits \<Rightarrow> int) \<times> int) list" where
  "limit_ceilings =
     [(''requests_per_hour'', requests_per_hour, 5),
      (''requests_per_day'', requests_per_day, 20),
      (''model_calls_per_hour'', model_calls_per_hour, 40),
      (''model_calls_per_day'', model_calls_per_day, 160),
      (''model_calls_per_request'', model_calls_per_request, 8)]"

datatype limits_error = LimitNotPositive str | LimitAboveCeiling str

fun check_limits :: "(str \<times> (budget_limits \<Rightarrow> int) \<times> int) list \<Rightarrow> budget_limits \<Rightarrow> (limits_error, budget_limits) res"
  where
  "check_limits [] b = Inr b"
| "check_limits ((field, get, most) # cs) b =
     (if get b \<le> 0 then Inl (LimitNotPositive field)
      else if get b > most then Inl (LimitAboveCeiling field)
      else check_limits cs b)"

definition mk_limits :: "budget_limits \<Rightarrow> (limits_error, budget_limits) res" where
  "mk_limits b = check_limits limit_ceilings b"

definition default_limits :: budget_limits where
  "default_limits = \<lparr>requests_per_hour = 5, requests_per_day = 20, model_calls_per_hour = 40,
     model_calls_per_day = 160, model_calls_per_request = 8\<rparr>"

section \<open>Validators\<close>

datatype request_state = RESERVED | RUNNING | COMPLETED | FAILED

datatype budget_error =
    BudgetUnavailable
  | BadBotId
  | TokenAsBotId
  | BadUpdateId
  | BadUserId
  | UnknownReservation
  | UserMismatch
  | InvalidState request_state
  | OwnershipDenied
  | NonAsciiDigest
  | OperationalError
  | IntegerTooLarge

text \<open>\<open>str.isdigit\<close>: the decimal digits and the three superscript digits of the range.\<close>

definition digit_char :: "char \<Rightarrow> bool" where
  "digit_char c = (let n = (of_char c :: nat) in 48 \<le> n \<and> n \<le> 57 \<or> n \<in> {178, 179, 185})"

definition str_isdigit :: "str \<Rightarrow> bool" where
  "str_isdigit s = (s \<noteq> [] \<and> list_all digit_char s)"

definition before_colon :: "str \<Rightarrow> str" where
  "before_colon s = takeWhile (\<lambda>c. c \<noteq> CHR '':'') s"

definition after_colon :: "str \<Rightarrow> str" where
  "after_colon s = drop 1 (dropWhile (\<lambda>c. c \<noteq> CHR '':'') s)"

definition validate_bot_id :: "str \<Rightarrow> (budget_error, str) res" where
  "validate_bot_id b =
     (if py_strip b = [] \<or> length b > 128 then Inl BadBotId
      else if CHR '':'' \<in> set b \<and> length b \<ge> 20
          \<and> str_isdigit (before_colon b) \<and> length (after_colon b) \<ge> 20
      then Inl TokenAsBotId
      else Inr b)"

definition validate_update_id :: "int \<Rightarrow> (budget_error, int) res" where
  "validate_update_id u = (if u < 0 then Inl BadUpdateId else Inr u)"

definition validate_user_id :: "int \<Rightarrow> (budget_error, int) res" where
  "validate_user_id u = (if u \<le> 0 then Inl BadUserId else Inr u)"

section \<open>Tables\<close>

record request_row =
  rq_bot_id :: str
  rq_update_id :: int
  rq_user_id :: int
  rq_created_at :: rat
  rq_state :: request_state

record attempt_row =
  ma_bot_id :: str
  ma_update_id :: int
  ma_user_id :: int
  ma_attempt_index :: int
  ma_created_at :: rat

record ledger =
  requests :: "request_row list"
  model_attempts :: "attempt_row list"
  quota_clock :: "(str \<times> rat) list"

definition empty_ledger :: ledger where
  "empty_ledger = \<lparr>requests = [], model_attempts = [], quota_clock = []\<rparr>"

definition hour_seconds :: rat where "hour_seconds = 3600"
definition day_seconds :: rat where "day_seconds = 86400"
definition retention_seconds :: rat where "retention_seconds = 172800"

datatype clock_call = ClockRaises | ClockReturns clock_reading

record budget_env =
  env_connects :: bool
  env_begins :: bool
  env_commits :: bool
  env_clock :: clock_call

definition read_clock :: "clock_call \<Rightarrow> (budget_error, rat) res" where
  "read_clock c =
     (case c of
        ClockReturns (Seconds t) \<Rightarrow> if t < 0 then Inl BudgetUnavailable else Inr t
      | _ \<Rightarrow> Inl BudgetUnavailable)"

text \<open>A transaction body either raises or yields its value with the new tables. In the four
  methods that write, \<open>BEGIN IMMEDIATE\<close> stands before the inner \<open>try\<close>, so a lock that is not
  obtained raises the raw \<open>sqlite3.OperationalError\<close>; in the two that read it stands inside the
  \<open>try\<close> that turns it into \<open>BudgetUnavailable\<close>. What a body raises leaves through the
  \<open>ROLLBACK\<close>, or through the closing of the connection, which also undoes it.\<close>

definition transaction :: "budget_env \<Rightarrow> (ledger \<Rightarrow> (budget_error, 'a \<times> ledger) res)
    \<Rightarrow> ledger \<Rightarrow> (ledger, budget_error, 'a) outcome" where
  "transaction env body l =
     (if \<not> env_connects env then (Inl BudgetUnavailable, l)
      else if \<not> env_begins env then (Inl OperationalError, l)
      else case body l of
          Inl e \<Rightarrow> (Inl e, l)
        | Inr (a, l') \<Rightarrow> if env_commits env then (Inr a, l') else (Inl BudgetUnavailable, l))"

definition read_transaction :: "budget_env \<Rightarrow> (ledger \<Rightarrow> (budget_error, 'a) res)
    \<Rightarrow> ledger \<Rightarrow> (ledger, budget_error, 'a) outcome" where
  "read_transaction env body l =
     (if \<not> env_connects env \<or> \<not> env_begins env then (Inl BudgetUnavailable, l)
      else case body l of
          Inl e \<Rightarrow> (Inl e, l)
        | Inr a \<Rightarrow> if env_commits env then (Inr a, l) else (Inl BudgetUnavailable, l))"

text \<open>A statement binds its integers as 64-bit values: one that does not fit raises
  \<open>OverflowError\<close>, which no handler of the file names.\<close>

definition fits64 :: "int \<Rightarrow> bool" where
  "fits64 n \<longleftrightarrow> - (2 ^ 63) \<le> n \<and> n < 2 ^ 63"

definition binding :: "int \<Rightarrow> (budget_error, 'a) res \<Rightarrow> (budget_error, 'a) res" where
  "binding n r = (if fits64 n then r else Inl IntegerTooLarge)"

lemma binding_Inr [simp]: "binding n r = Inr x \<longleftrightarrow> fits64 n \<and> r = Inr x"
  by (simp add: binding_def)

lemma binding_fits [simp]: "fits64 n \<Longrightarrow> binding n r = r"
  by (simp add: binding_def)

definition advance_clock_txn :: "str \<Rightarrow> rat \<Rightarrow> ledger \<Rightarrow> (budget_error, ledger) res" where
  "advance_clock_txn bid now l =
     (case map_of (quota_clock l) bid of
        Some seen \<Rightarrow>
          if now < seen then Inl BudgetUnavailable
          else Inr (l\<lparr>quota_clock := AList.update bid now (quota_clock l)\<rparr>)
      | None \<Rightarrow> Inr (l\<lparr>quota_clock := AList.update bid now (quota_clock l)\<rparr>))"

definition terminal :: "request_state \<Rightarrow> bool" where
  "terminal s = (s \<in> {COMPLETED, FAILED})"

definition request_at :: "str \<Rightarrow> int \<Rightarrow> request_row \<Rightarrow> bool" where
  "request_at bid upd r = (rq_bot_id r = bid \<and> rq_update_id r = upd)"

definition attempt_at :: "str \<Rightarrow> int \<Rightarrow> attempt_row \<Rightarrow> bool" where
  "attempt_at bid upd a = (ma_bot_id a = bid \<and> ma_update_id a = upd)"

definition prune_attempts :: "rat \<Rightarrow> request_row list \<Rightarrow> attempt_row list \<Rightarrow> attempt_row list" where
  "prune_attempts cutoff rs as =
     filter (\<lambda>a. \<not> (ma_created_at a < cutoff \<and>
       (\<not> list_ex (request_at (ma_bot_id a) (ma_update_id a)) rs
        \<or> list_ex (\<lambda>r. request_at (ma_bot_id a) (ma_update_id a) r \<and> terminal (rq_state r)) rs))) as"

definition prune_requests :: "rat \<Rightarrow> attempt_row list \<Rightarrow> request_row list \<Rightarrow> request_row list" where
  "prune_requests cutoff as rs =
     filter (\<lambda>r. \<not> (rq_created_at r < cutoff \<and> terminal (rq_state r)
       \<and> \<not> list_ex (attempt_at (rq_bot_id r) (rq_update_id r)) as)) rs"

definition prune_txn :: "rat \<Rightarrow> ledger \<Rightarrow> ledger" where
  "prune_txn now l =
     (let cutoff = now - retention_seconds;
          as = prune_attempts cutoff (requests l) (model_attempts l)
      in l\<lparr>model_attempts := as, requests := prune_requests cutoff as (requests l)\<rparr>)"

definition count_requests :: "str \<Rightarrow> int \<Rightarrow> rat \<Rightarrow> ledger \<Rightarrow> int" where
  "count_requests bid user after l =
     int (length (filter (\<lambda>r. rq_bot_id r = bid \<and> rq_user_id r = user \<and> rq_created_at r > after)
       (requests l)))"

definition count_attempts :: "str \<Rightarrow> int \<Rightarrow> rat \<Rightarrow> ledger \<Rightarrow> int" where
  "count_attempts bid user after l =
     int (length (filter (\<lambda>a. ma_bot_id a = bid \<and> ma_user_id a = user \<and> ma_created_at a > after)
       (model_attempts l)))"

definition attempts_of :: "str \<Rightarrow> int \<Rightarrow> ledger \<Rightarrow> attempt_row list" where
  "attempts_of bid upd l = filter (attempt_at bid upd) (model_attempts l)"

definition find_request :: "str \<Rightarrow> int \<Rightarrow> ledger \<Rightarrow> request_row option" where
  "find_request bid upd l = find (request_at bid upd) (requests l)"

definition set_state :: "str \<Rightarrow> int \<Rightarrow> request_state \<Rightarrow> ledger \<Rightarrow> ledger" where
  "set_state bid upd s l =
     l\<lparr>requests := map (\<lambda>r. if request_at bid upd r then r\<lparr>rq_state := s\<rparr> else r) (requests l)\<rparr>"

section \<open>Transactions\<close>

datatype reservation_state = InState request_state | DENIED | UNKNOWN

record reservation =
  rv_allowed :: bool
  rv_duplicate :: bool
  rv_state :: reservation_state
  rv_capability :: "str option"

definition mk_reservation :: "bool \<Rightarrow> bool \<Rightarrow> reservation_state \<Rightarrow> reservation" where
  "mk_reservation a d s = \<lparr>rv_allowed = a, rv_duplicate = d, rv_state = s, rv_capability = None\<rparr>"

definition reserve_request_body ::
  "budget_limits \<Rightarrow> clock_call \<Rightarrow> str \<Rightarrow> int \<Rightarrow> int \<Rightarrow> ledger \<Rightarrow> (budget_error, reservation \<times> ledger) res"
  where
  "reserve_request_body lims clock bid upd user l =
     (case read_clock clock of
        Inl e \<Rightarrow> Inl e
      | Inr now \<Rightarrow>
          (case advance_clock_txn bid now l of
             Inl e \<Rightarrow> Inl e
           | Inr l1 \<Rightarrow>
               let l2 = prune_txn now l1 in
               binding upd (case find_request bid upd l2 of
                  Some r \<Rightarrow>
                    if rq_user_id r \<noteq> user then Inr (mk_reservation False False DENIED, l2)
                    else Inr (mk_reservation False True (InState (rq_state r)), l2)
                | None \<Rightarrow> binding user (
                    if count_requests bid user (now - hour_seconds) l2 \<ge> requests_per_hour lims
                       \<or> count_requests bid user (now - day_seconds) l2 \<ge> requests_per_day lims
                    then Inr (mk_reservation False False DENIED, l2)
                    else Inr (mk_reservation True False (InState RESERVED),
                      l2\<lparr>requests := requests l2 @ [\<lparr>rq_bot_id = bid, rq_update_id = upd,
                        rq_user_id = user, rq_created_at = now, rq_state = RESERVED\<rparr>]\<rparr>)))))"

definition mark_running_body :: "clock_call \<Rightarrow> str \<Rightarrow> int \<Rightarrow> int \<Rightarrow> ledger \<Rightarrow> (budget_error, unit \<times> ledger) res"
  where
  "mark_running_body clock bid upd user l =
     (case read_clock clock of
        Inl e \<Rightarrow> Inl e
      | Inr now \<Rightarrow>
          (case advance_clock_txn bid now l of
             Inl e \<Rightarrow> Inl e
           | Inr l1 \<Rightarrow>
               binding upd (case find_request bid upd l1 of
                  None \<Rightarrow> Inl UnknownReservation
                | Some r \<Rightarrow>
                    if rq_user_id r \<noteq> user then Inl UserMismatch
                    else if rq_state r \<noteq> RESERVED then Inl (InvalidState (rq_state r))
                    else Inr ((), set_state bid upd RUNNING l1))))"

text \<open>\<open>COALESCE(MAX(attempt_index), -1)\<close>.\<close>

definition peak_index :: "attempt_row list \<Rightarrow> int" where
  "peak_index as = foldr (\<lambda>a. max (ma_attempt_index a)) as (- 1)"

definition insert_attempt :: "attempt_row \<Rightarrow> ledger \<Rightarrow> (budget_error, ledger) res" where
  "insert_attempt a l =
     (if list_ex (\<lambda>b. attempt_at (ma_bot_id a) (ma_update_id a) b
         \<and> ma_attempt_index b = ma_attempt_index a) (model_attempts l)
      then Inl BudgetUnavailable
      else Inr (l\<lparr>model_attempts := model_attempts l @ [a]\<rparr>))"

definition reserve_model_call_body ::
  "budget_limits \<Rightarrow> clock_call \<Rightarrow> str \<Rightarrow> int \<Rightarrow> int \<Rightarrow> ledger \<Rightarrow> (budget_error, bool \<times> ledger) res" where
  "reserve_model_call_body lims clock bid upd user l =
     (case read_clock clock of
        Inl e \<Rightarrow> Inl e
      | Inr now \<Rightarrow>
          (case advance_clock_txn bid now l of
             Inl e \<Rightarrow> Inl e
           | Inr l1 \<Rightarrow>
               let l2 = prune_txn now l1 in
               binding upd (case find_request bid upd l2 of
                  None \<Rightarrow> Inr (False, l2)
                | Some r \<Rightarrow>
                    if rq_user_id r \<noteq> user \<or> rq_state r \<noteq> RUNNING then Inr (False, l2)
                    else binding user (
                    if int (length (attempts_of bid upd l2)) \<ge> model_calls_per_request lims
                       \<or> count_attempts bid user (now - hour_seconds) l2 \<ge> model_calls_per_hour lims
                       \<or> count_attempts bid user (now - day_seconds) l2 \<ge> model_calls_per_day lims
                    then Inr (False, l2)
                    else
                      (case insert_attempt \<lparr>ma_bot_id = bid, ma_update_id = upd, ma_user_id = user,
                          ma_attempt_index = peak_index (attempts_of bid upd l2) + 1,
                          ma_created_at = now\<rparr> l2 of
                         Inl e \<Rightarrow> Inl e
                       | Inr l3 \<Rightarrow> Inr (True, l3))))))"

definition finish_request_body ::
  "clock_call \<Rightarrow> str \<Rightarrow> int \<Rightarrow> int \<Rightarrow> bool \<Rightarrow> ledger \<Rightarrow> (budget_error, unit \<times> ledger) res" where
  "finish_request_body clock bid upd user success l =
     (case read_clock clock of
        Inl e \<Rightarrow> Inl e
      | Inr now \<Rightarrow>
          (case advance_clock_txn bid now l of
             Inl e \<Rightarrow> Inl e
           | Inr l1 \<Rightarrow>
               binding upd (case find_request bid upd l1 of
                  None \<Rightarrow> Inl UnknownReservation
                | Some r \<Rightarrow>
                    if rq_user_id r \<noteq> user then Inl UserMismatch
                    else if rq_state r \<noteq> RUNNING then Inl (InvalidState (rq_state r))
                    else Inr ((), set_state bid upd (if success then COMPLETED else FAILED) l1))))"

definition reserve_request_sync where
  "reserve_request_sync lims env bid upd user =
     transaction env (reserve_request_body lims (env_clock env) bid upd user)"

definition mark_running_sync where
  "mark_running_sync env bid upd user = transaction env (mark_running_body (env_clock env) bid upd user)"

definition reserve_model_call_sync where
  "reserve_model_call_sync lims env bid upd user =
     transaction env (reserve_model_call_body lims (env_clock env) bid upd user)"

definition finish_request_sync where
  "finish_request_sync env bid upd user success =
     transaction env (finish_request_body (env_clock env) bid upd user success)"

definition inspect_reservation_sync ::
  "budget_env \<Rightarrow> str \<Rightarrow> int \<Rightarrow> ledger \<Rightarrow> (ledger, budget_error, request_state option) outcome" where
  "inspect_reservation_sync env bid upd =
     read_transaction env (\<lambda>l. binding upd (Inr (map_option rq_state (find_request bid upd l))))"

definition crash_recovery_sync ::
  "budget_env \<Rightarrow> str \<Rightarrow> int \<Rightarrow> int \<Rightarrow> ledger \<Rightarrow> (ledger, budget_error, reservation) outcome" where
  "crash_recovery_sync env bid upd user =
     read_transaction env (\<lambda>l. binding upd (Inr
       (case find_request bid upd l of
          None \<Rightarrow> mk_reservation False False UNKNOWN
        | Some r \<Rightarrow>
            if rq_user_id r \<noteq> user then mk_reservation False False DENIED
            else mk_reservation False True (InState (rq_state r)))))"

text \<open>The transactions as one step function on the tables.\<close>

datatype ledger_op =
    ReserveRequest str int int
  | MarkRunning str int int
  | ReserveModelCall str int int
  | FinishRequest str int int bool
  | InspectReservation str int
  | CrashRecovery str int int

fun ledger_step :: "budget_limits \<Rightarrow> budget_env \<times> ledger_op \<Rightarrow> ledger \<Rightarrow> ledger" where
  "ledger_step lims (env, ReserveRequest b u p) l = snd (reserve_request_sync lims env b u p l)"
| "ledger_step lims (env, MarkRunning b u p) l = snd (mark_running_sync env b u p l)"
| "ledger_step lims (env, ReserveModelCall b u p) l = snd (reserve_model_call_sync lims env b u p l)"
| "ledger_step lims (env, FinishRequest b u p ok) l = snd (finish_request_sync env b u p ok l)"
| "ledger_step lims (env, InspectReservation b u) l = snd (inspect_reservation_sync env b u l)"
| "ledger_step lims (env, CrashRecovery b u p) l = snd (crash_recovery_sync env b u p l)"

section \<open>Lemmas\<close>

subsection \<open>The tables as histories of grants\<close>

definition req_rows :: "ledger \<Rightarrow> grant list" where
  "req_rows l = map (\<lambda>r. (rq_bot_id r, rq_update_id r, rq_user_id r, rq_created_at r)) (requests l)"

definition att_rows :: "ledger \<Rightarrow> grant list" where
  "att_rows l = map (\<lambda>a. (ma_bot_id a, ma_update_id a, ma_user_id a, ma_created_at a)) (model_attempts l)"

text \<open>The instant an operation works with, when it gets as far as a usable clock reading.\<close>

fun op_reading :: "budget_env \<times> ledger_op \<Rightarrow> rat option" where
  "op_reading (env, InspectReservation b u) = None"
| "op_reading (env, CrashRecovery b u p) = None"
| "op_reading (env, x) =
     (if env_connects env \<and> env_begins env then case read_clock (env_clock env) of Inl e \<Rightarrow> None | Inr t \<Rightarrow> Some t
      else None)"

fun request_granted :: "budget_limits \<Rightarrow> budget_env \<times> ledger_op \<Rightarrow> ledger \<Rightarrow> grant option" where
  "request_granted lims (env, ReserveRequest b u p) l =
     (case (fst (reserve_request_sync lims env b u p l), op_reading (env, ReserveRequest b u p)) of
        (Inr rv, Some t) \<Rightarrow> if rv_allowed rv then Some (b, u, p, t) else None
      | _ \<Rightarrow> None)"
| "request_granted lims x l = None"

fun model_call_granted :: "budget_limits \<Rightarrow> budget_env \<times> ledger_op \<Rightarrow> ledger \<Rightarrow> grant option" where
  "model_call_granted lims (env, ReserveModelCall b u p) l =
     (case (fst (reserve_model_call_sync lims env b u p l), op_reading (env, ReserveModelCall b u p)) of
        (Inr True, Some t) \<Rightarrow> Some (b, u, p, t)
      | _ \<Rightarrow> None)"
| "model_call_granted lims x l = None"

lemma rows_clock [simp]:
  "req_rows (l\<lparr>quota_clock := c\<rparr>) = req_rows l" "att_rows (l\<lparr>quota_clock := c\<rparr>) = att_rows l"
  "req_rows (l\<lparr>model_attempts := as\<rparr>) = req_rows l" "att_rows (l\<lparr>requests := rs\<rparr>) = att_rows l"
  by (simp_all add: req_rows_def att_rows_def)

lemma rows_set_state [simp]:
  "req_rows (set_state b u s l) = req_rows l" "att_rows (set_state b u s l) = att_rows l"
  by (auto simp: req_rows_def att_rows_def set_state_def)

lemma rows_advance [simp]:
  "advance_clock_txn b t l = Inr l' \<Longrightarrow> req_rows l' = req_rows l"
  "advance_clock_txn b t l = Inr l' \<Longrightarrow> att_rows l' = att_rows l"
  by (auto simp: advance_clock_txn_def split: option.splits if_splits)

lemma rows_prune [simp]:
  "since (t - retention_seconds) (req_rows (prune_txn t l)) = since (t - retention_seconds) (req_rows l)"
  "since (t - retention_seconds) (att_rows (prune_txn t l)) = since (t - retention_seconds) (att_rows l)"
proof -
  have keep: "filter P (map f (filter Q xs)) = filter P (map f xs)"
    if "\<And>x. x \<in> set xs \<Longrightarrow> P (f x) \<Longrightarrow> Q x" for P Q xs and f :: "'x \<Rightarrow> grant"
    using that by (induction xs) auto
  show "since (t - retention_seconds) (req_rows (prune_txn t l)) = since (t - retention_seconds) (req_rows l)"
    unfolding since_def req_rows_def prune_txn_def prune_requests_def by (auto simp: Let_def intro!: keep)
  show "since (t - retention_seconds) (att_rows (prune_txn t l)) = since (t - retention_seconds) (att_rows l)"
    unfolding since_def att_rows_def prune_txn_def prune_attempts_def by (auto simp: Let_def intro!: keep)
qed

lemma counts_in_rows:
  "count_requests b p c l = int (length (filter (\<lambda>t. c < t) (times_of (b, p) (req_rows l))))"
  "count_attempts b p c l = int (length (filter (\<lambda>t. c < t) (times_of (b, p) (att_rows l))))"
  by (simp_all add: count_requests_def count_attempts_def times_of_def req_rows_def att_rows_def
      filter_map comp_def conj_commute conj_left_commute conj_assoc)

lemma counts_after_prune:
  assumes "w < retention_seconds"
  shows "count_requests b p (t - w) (prune_txn t l) = count_requests b p (t - w) l"
    and "count_attempts b p (t - w) (prune_txn t l) = count_attempts b p (t - w) l"
proof -
  have "t - retention_seconds < t - w" using assms by simp
  from times_of_since [OF this] show "count_requests b p (t - w) (prune_txn t l) = count_requests b p (t - w) l"
    "count_attempts b p (t - w) (prune_txn t l) = count_attempts b p (t - w) l"
    unfolding counts_in_rows by (metis rows_prune(1), metis rows_prune(2))
qed

lemma window_lengths [simp]: "hour_seconds < retention_seconds" "day_seconds < retention_seconds"
  "0 < retention_seconds" "0 \<le> retention_seconds"
  by (simp_all add: hour_seconds_def day_seconds_def retention_seconds_def)

text \<open>What each transaction does to the two tables, seen from the rows younger than the
  retention time.\<close>

lemma reserve_request_cases:
  assumes "read_clock c = Inr t"
  obtains (fails) e where "reserve_request_body lims c b u p l = Inl e"
  | (refused) rv l2 where "reserve_request_body lims c b u p l = Inr (rv, l2)" "\<not> rv_allowed rv"
      "since (t - retention_seconds) (req_rows l2) = since (t - retention_seconds) (req_rows l)"
      "since (t - retention_seconds) (att_rows l2) = since (t - retention_seconds) (att_rows l)"
  | (granted) rv l2 where "reserve_request_body lims c b u p l = Inr (rv, l2)" "rv_allowed rv"
      "(b, u) \<notin> g_key ` set (since (t - retention_seconds) (req_rows l))"
      "since (t - retention_seconds) (req_rows l2) =
         since (t - retention_seconds) (req_rows l) @ [(b, u, p, t)]"
      "since (t - retention_seconds) (att_rows l2) = since (t - retention_seconds) (att_rows l)"
      "count_requests b p (t - hour_seconds) l < requests_per_hour lims"
      "count_requests b p (t - day_seconds) l < requests_per_day lims"
proof (cases "advance_clock_txn b t l")
  case (Inl e)
  with assms fails show thesis by (simp add: reserve_request_body_def)
next
  case (Inr l1)
  let ?l2 = "prune_txn t l1"
  have old: "since (t - retention_seconds) (req_rows ?l2) = since (t - retention_seconds) (req_rows l)"
    "since (t - retention_seconds) (att_rows ?l2) = since (t - retention_seconds) (att_rows l)"
    using Inr by simp_all
  have counts: "count_requests b p (t - w) ?l2 = count_requests b p (t - w) l" if "w < retention_seconds" for w
    using Inr that by (simp add: counts_after_prune) (simp add: counts_in_rows)
  show thesis
  proof (cases "fits64 u \<and> (fits64 p \<or> find_request b u ?l2 \<noteq> None)")
    case False
    with Inr assms show thesis
      by (intro fails [of IntegerTooLarge]) (auto simp: reserve_request_body_def Let_def binding_def)
  next
  case fits: True
  show thesis
  proof (cases "find_request b u ?l2")
    case (Some r)
    let ?rv = "if rq_user_id r \<noteq> p then mk_reservation False False DENIED
      else mk_reservation False True (InState (rq_state r))"
    have "reserve_request_body lims c b u p l = Inr (?rv, ?l2)"
      using Inr Some fits assms by (simp add: reserve_request_body_def Let_def)
    then show thesis by (rule refused [OF _ _ old]) (simp add: mk_reservation_def)
  next
    case None
    show thesis
    proof (cases "requests_per_hour lims \<le> count_requests b p (t - hour_seconds) ?l2
        \<or> requests_per_day lims \<le> count_requests b p (t - day_seconds) ?l2")
      case True
      with Inr None fits assms old refused show thesis
        by (auto simp: reserve_request_body_def mk_reservation_def Let_def)
    next
      case False
      have "(b, u) \<notin> g_key ` set (req_rows ?l2)"
        using None by (auto simp: find_request_def find_None_iff req_rows_def request_at_def)
      then have "(b, u) \<notin> g_key ` set (since (t - retention_seconds) (req_rows ?l2))"
        by (auto simp: since_def)
      with Inr None False fits assms old counts granted show thesis
        by (auto simp: reserve_request_body_def mk_reservation_def Let_def not_le req_rows_def since_def)
    qed
  qed
  qed
qed

lemma reserve_model_call_cases:
  assumes "read_clock c = Inr t"
  obtains (fails) e where "reserve_model_call_body lims c b u p l = Inl e"
  | (refused) l2 where "reserve_model_call_body lims c b u p l = Inr (False, l2)"
      "since (t - retention_seconds) (req_rows l2) = since (t - retention_seconds) (req_rows l)"
      "since (t - retention_seconds) (att_rows l2) = since (t - retention_seconds) (att_rows l)"
  | (granted) l2 where "reserve_model_call_body lims c b u p l = Inr (True, l2)"
      "since (t - retention_seconds) (req_rows l2) = since (t - retention_seconds) (req_rows l)"
      "since (t - retention_seconds) (att_rows l2) =
         since (t - retention_seconds) (att_rows l) @ [(b, u, p, t)]"
      "count_attempts b p (t - hour_seconds) l < model_calls_per_hour lims"
      "count_attempts b p (t - day_seconds) l < model_calls_per_day lims"
proof (cases "advance_clock_txn b t l")
  case (Inl e)
  with assms fails show thesis by (simp add: reserve_model_call_body_def)
next
  case (Inr l1)
  let ?l2 = "prune_txn t l1"
  let ?a = "\<lparr>ma_bot_id = b, ma_update_id = u, ma_user_id = p,
    ma_attempt_index = peak_index (attempts_of b u ?l2) + 1, ma_created_at = t\<rparr>"
  have old: "since (t - retention_seconds) (req_rows ?l2) = since (t - retention_seconds) (req_rows l)"
    "since (t - retention_seconds) (att_rows ?l2) = since (t - retention_seconds) (att_rows l)"
    using Inr by simp_all
  have counts: "count_attempts b p (t - w) ?l2 = count_attempts b p (t - w) l" if "w < retention_seconds" for w
    using Inr that by (simp add: counts_after_prune) (simp add: counts_in_rows)
  have added: "since (t - retention_seconds) (att_rows (l'\<lparr>model_attempts := model_attempts l' @ [?a]\<rparr>)) =
      since (t - retention_seconds) (att_rows l') @ [(b, u, p, t)]" for l'
    by (simp add: att_rows_def since_def)
  let ?mine = "\<lambda>r. find_request b u ?l2 = Some r \<and> rq_user_id r = p \<and> rq_state r = RUNNING"
  consider (overflow) "\<not> (fits64 u \<and> (fits64 p \<or> (\<nexists>r. ?mine r)))" | (fits) "fits64 u" "fits64 p \<or> (\<nexists>r. ?mine r)"
    by blast
  then show thesis
  proof cases
    case overflow
    with Inr assms show thesis
      by (intro fails [of IntegerTooLarge]) (auto simp: reserve_model_call_body_def Let_def binding_def)
  next
  case fits
  show thesis
  proof (cases "\<exists>r. find_request b u ?l2 = Some r \<and> rq_user_id r = p \<and> rq_state r = RUNNING
      \<and> int (length (attempts_of b u ?l2)) < model_calls_per_request lims
      \<and> count_attempts b p (t - hour_seconds) ?l2 < model_calls_per_hour lims
      \<and> count_attempts b p (t - day_seconds) ?l2 < model_calls_per_day lims")
    case True
    then have eq: "reserve_model_call_body lims c b u p l =
        (case insert_attempt ?a ?l2 of Inl e \<Rightarrow> Inl e | Inr l3 \<Rightarrow> Inr (True, l3))"
      using Inr fits assms by (auto simp: reserve_model_call_body_def Let_def)
    show thesis
    proof (cases "insert_attempt ?a ?l2")
      case (Inl e)
      with eq fails show thesis by simp
    next
      case (Inr l3)
      then have l3: "l3 = ?l2\<lparr>model_attempts := model_attempts ?l2 @ [?a]\<rparr>"
        by (simp add: insert_attempt_def split: if_splits)
      show thesis
      proof (rule granted)
        show "reserve_model_call_body lims c b u p l = Inr (True, l3)" using eq Inr by simp
        show "since (t - retention_seconds) (att_rows l3) =
            since (t - retention_seconds) (att_rows l) @ [(b, u, p, t)]"
          using added [of ?l2] old by (simp add: l3)
      qed (use True counts old in \<open>auto simp: l3\<close>)
    qed
  next
    case False
    then have "reserve_model_call_body lims c b u p l = Inr (False, ?l2)"
      using Inr fits assms by (auto simp: reserve_model_call_body_def Let_def not_le split: option.splits)
    then show thesis using old by (rule refused)
  qed
  qed
qed

lemma transaction_same:
  assumes "\<And>a l'. body l = Inr (a, l') \<Longrightarrow> rows l' = rows l"
  shows "rows (snd (transaction env body l)) = rows l"
  using assms by (auto simp: transaction_def split: sum.splits prod.splits)

lemma set_state_ops_rows:
  "req_rows (snd (mark_running_sync env b u p l)) = req_rows l"
  "att_rows (snd (mark_running_sync env b u p l)) = att_rows l"
  "req_rows (snd (finish_request_sync env b u p ok l)) = req_rows l"
  "att_rows (snd (finish_request_sync env b u p ok l)) = att_rows l"
  unfolding mark_running_sync_def finish_request_sync_def mark_running_body_def finish_request_body_def
  by (rule transaction_same; auto split: sum.splits option.splits if_splits)+

lemma read_only_ops:
  "snd (inspect_reservation_sync env b u l) = l" "snd (crash_recovery_sync env b u p l) = l"
  by (auto simp: inspect_reservation_sync_def crash_recovery_sync_def read_transaction_def split: sum.splits)

lemma no_reading_no_change:
  "op_reading x = None \<Longrightarrow> ledger_step lims x l = l"
  by (cases "(lims, x, l)" rule: ledger_step.cases)
    (auto simp: read_only_ops reserve_request_sync_def mark_running_sync_def reserve_model_call_sync_def
      finish_request_sync_def transaction_def reserve_request_body_def mark_running_body_def
      reserve_model_call_body_def finish_request_body_def split: if_splits sum.splits)

lemma ledger_step_att_rows:
  assumes "op_reading x = Some t"
  shows "since (t - retention_seconds) (att_rows (ledger_step lims x l)) =
    since (t - retention_seconds) (att_rows l) @
      (case model_call_granted lims x l of None \<Rightarrow> [] | Some g \<Rightarrow> [g])"
proof -
  obtain env y where x: "x = (env, y)" by (cases x)
  show ?thesis
  proof (cases y)
    case (ReserveRequest b u p)
    then have clock: "read_clock (env_clock env) = Inr t" using assms x by (auto split: if_splits sum.splits)
    then show ?thesis
      by (cases rule: reserve_request_cases [where lims = lims and b = b and u = u and p = p and l = l])
        (auto simp: x ReserveRequest reserve_request_sync_def transaction_def)
  next
    case (ReserveModelCall b u p)
    then have clock: "env_connects env" "env_begins env" "read_clock (env_clock env) = Inr t"
      using assms x by (auto split: if_splits sum.splits)
    from clock(3) show ?thesis
      by (cases rule: reserve_model_call_cases [where lims = lims and b = b and u = u and p = p and l = l])
        (auto simp: x ReserveModelCall clock reserve_model_call_sync_def transaction_def)
  qed (use assms in \<open>auto simp: x set_state_ops_rows read_only_ops\<close>)
qed

lemma ledger_step_req_rows:
  assumes "op_reading x = Some t"
  shows "since (t - retention_seconds) (req_rows (ledger_step lims x l)) =
    since (t - retention_seconds) (req_rows l) @
      (case request_granted lims x l of None \<Rightarrow> [] | Some g \<Rightarrow> [g])"
proof -
  obtain env y where x: "x = (env, y)" by (cases x)
  show ?thesis
  proof (cases y)
    case (ReserveRequest b u p)
    then have clock: "env_connects env" "env_begins env" "read_clock (env_clock env) = Inr t"
      using assms x by (auto split: if_splits sum.splits)
    from clock(3) show ?thesis
      by (cases rule: reserve_request_cases [where lims = lims and b = b and u = u and p = p and l = l])
        (auto simp: x ReserveRequest clock reserve_request_sync_def transaction_def)
  next
    case (ReserveModelCall b u p)
    then have clock: "read_clock (env_clock env) = Inr t" using assms x by (auto split: if_splits sum.splits)
    then show ?thesis
      by (cases rule: reserve_model_call_cases [where lims = lims and b = b and u = u and p = p and l = l])
        (auto simp: x ReserveModelCall reserve_model_call_sync_def transaction_def)
  qed (use assms in \<open>auto simp: x set_state_ops_rows read_only_ops\<close>)
qed

lemma request_grantedD:
  assumes "request_granted lims x l = Some (b, u, p, t)"
  shows "op_reading x = Some t" "(b, u) \<notin> g_key ` set (since (t - retention_seconds) (req_rows l))"
    "count_requests b p (t - hour_seconds) l < requests_per_hour lims"
    "count_requests b p (t - day_seconds) l < requests_per_day lims"
proof -
  obtain env where x: "x = (env, ReserveRequest b u p)" and t: "op_reading x = Some t"
    and ok: "env_connects env" "env_begins env" "read_clock (env_clock env) = Inr t"
    using assms by (cases "(lims, x, l)" rule: request_granted.cases)
      (auto split: sum.splits option.splits if_splits)
  show "op_reading x = Some t" by (rule t)
  from ok(3) have "(b, u) \<notin> g_key ` set (since (t - retention_seconds) (req_rows l)) \<and>
    count_requests b p (t - hour_seconds) l < requests_per_hour lims \<and>
    count_requests b p (t - day_seconds) l < requests_per_day lims"
    using assms ok
    by (cases rule: reserve_request_cases [where lims = lims and b = b and u = u and p = p and l = l])
      (auto simp: x reserve_request_sync_def transaction_def split: if_splits)
  then show "(b, u) \<notin> g_key ` set (since (t - retention_seconds) (req_rows l))"
    "count_requests b p (t - hour_seconds) l < requests_per_hour lims"
    "count_requests b p (t - day_seconds) l < requests_per_day lims" by auto
qed

lemma model_call_grantedD:
  assumes "model_call_granted lims x l = Some (b, u, p, t)"
  shows "op_reading x = Some t" "count_attempts b p (t - hour_seconds) l < model_calls_per_hour lims"
    "count_attempts b p (t - day_seconds) l < model_calls_per_day lims"
proof -
  obtain env where x: "x = (env, ReserveModelCall b u p)" and t: "op_reading x = Some t"
    and ok: "env_connects env" "env_begins env" "read_clock (env_clock env) = Inr t"
    using assms by (cases "(lims, x, l)" rule: model_call_granted.cases)
      (auto split: sum.splits option.splits if_splits bool.splits)
  show "op_reading x = Some t" by (rule t)
  from ok(3) have "count_attempts b p (t - hour_seconds) l < model_calls_per_hour lims \<and>
    count_attempts b p (t - day_seconds) l < model_calls_per_day lims"
    using assms ok
    by (cases rule: reserve_model_call_cases [where lims = lims and b = b and u = u and p = p and l = l])
      (auto simp: x reserve_model_call_sync_def transaction_def split: if_splits)
  then show "count_attempts b p (t - hour_seconds) l < model_calls_per_hour lims"
    "count_attempts b p (t - day_seconds) l < model_calls_per_day lims" by auto
qed

interpretation request_quota: replay_guard req_rows "ledger_step lims" op_reading "request_granted lims"
  "{(hour_seconds, nat (requests_per_hour lims)), (day_seconds, nat (requests_per_day lims))}"
  retention_seconds
  for lims
proof unfold_locales
  fix x l
  show "op_reading x = None \<Longrightarrow>
      req_rows (ledger_step lims x l) = req_rows l \<and> request_granted lims x l = None"
    using request_grantedD(1) [of lims x l] by (cases "request_granted lims x l") (auto simp: no_reading_no_change)
  show "op_reading x = Some t \<Longrightarrow> since (t - retention_seconds) (req_rows (ledger_step lims x l)) =
      since (t - retention_seconds) (req_rows l) @
        (case request_granted lims x l of None \<Rightarrow> [] | Some g \<Rightarrow> [g])" for t
    by (rule ledger_step_req_rows)
  fix g :: grant
  obtain b u p t where g: "g = (b, u, p, t)" by (cases g)
  assume "request_granted lims x l = Some g"
  note grantedD = request_grantedD [OF this [unfolded g]]
  show "op_reading x = Some (g_time g)" using grantedD by (simp add: g)
  show "g_key g \<notin> g_key ` set (since (g_time g - retention_seconds) (req_rows l))"
    using grantedD by (simp add: g)
  show "(w, n) \<in> {(hour_seconds, nat (requests_per_hour lims)), (day_seconds, nat (requests_per_day lims))}
      \<Longrightarrow> length (filter (\<lambda>t. g_time g - w < t) (times_of (g_owner g) (req_rows l))) < n" for w n
    using grantedD(3,4) by (auto simp: g counts_in_rows)
qed auto

interpretation model_quota: quota_table att_rows "ledger_step lims" op_reading "model_call_granted lims"
  "{(hour_seconds, nat (model_calls_per_hour lims)), (day_seconds, nat (model_calls_per_day lims))}"
  retention_seconds
  for lims
proof unfold_locales
  fix x l
  show "op_reading x = None \<Longrightarrow>
      att_rows (ledger_step lims x l) = att_rows l \<and> model_call_granted lims x l = None"
    using model_call_grantedD(1) [of lims x l] by (cases "model_call_granted lims x l") (auto simp: no_reading_no_change)
  show "op_reading x = Some t \<Longrightarrow> since (t - retention_seconds) (att_rows (ledger_step lims x l)) =
      since (t - retention_seconds) (att_rows l) @
        (case model_call_granted lims x l of None \<Rightarrow> [] | Some g \<Rightarrow> [g])" for t
    by (rule ledger_step_att_rows)
  fix g :: grant
  obtain b u p t where g: "g = (b, u, p, t)" by (cases g)
  assume "model_call_granted lims x l = Some g"
  note grantedD = model_call_grantedD [OF this [unfolded g]]
  show "op_reading x = Some (g_time g)" using grantedD by (simp add: g)
  show "(w, n) \<in> {(hour_seconds, nat (model_calls_per_hour lims)), (day_seconds, nat (model_calls_per_day lims))}
      \<Longrightarrow> length (filter (\<lambda>t. g_time g - w < t) (times_of (g_owner g) (att_rows l))) < n" for w n
    using grantedD(2,3) by (auto simp: g counts_in_rows)
qed auto

subsection \<open>The invariant of the tables\<close>

text \<open>
  Primary keys are unique; every attempt belongs to a request of the same user that has been
  started; the attempts of a running request are numbered from 0 without gaps; no request has
  more attempts than the limit \<open>n\<close>.
\<close>

definition req_key :: "request_row \<Rightarrow> str \<times> int" where
  "req_key r = (rq_bot_id r, rq_update_id r)"

definition att_key :: "attempt_row \<Rightarrow> str \<times> int" where
  "att_key a = (ma_bot_id a, ma_update_id a)"

definition indices :: "str \<times> int \<Rightarrow> attempt_row list \<Rightarrow> int list" where
  "indices k as = map ma_attempt_index (filter (\<lambda>a. att_key a = k) as)"

definition tables_ok :: "int \<Rightarrow> request_row list \<Rightarrow> attempt_row list \<Rightarrow> bool" where
  "tables_ok n rs as \<longleftrightarrow>
     distinct (map req_key rs)
     \<and> (\<forall>a \<in> set as. \<exists>r \<in> set rs. req_key r = att_key a \<and> rq_user_id r = ma_user_id a \<and> rq_state r \<noteq> RESERVED)
     \<and> (\<forall>k. distinct (indices k as) \<and> int (length (indices k as)) \<le> n)
     \<and> (\<forall>r \<in> set rs. rq_state r = RUNNING \<longrightarrow>
          indices (req_key r) as = map int [0..<length (indices (req_key r) as)])"

definition ledger_ok :: "budget_limits \<Rightarrow> ledger \<Rightarrow> bool" where
  "ledger_ok lims l \<longleftrightarrow> dict_ok (quota_clock l)
     \<and> tables_ok (model_calls_per_request lims) (requests l) (model_attempts l)"

lemma at_key [simp]:
  "request_at b u r \<longleftrightarrow> req_key r = (b, u)" "attempt_at b u a \<longleftrightarrow> att_key a = (b, u)"
  by (auto simp: request_at_def req_key_def attempt_at_def att_key_def)

lemma indices_filter_subseq: "subseq (indices k (filter P as)) (indices k as)"
  by (induction as) (auto simp: indices_def)

lemma subseq_distinct: "subseq xs ys \<Longrightarrow> distinct ys \<Longrightarrow> distinct xs"
  by (induction rule: list_emb.induct) (auto dest: list_emb_set)

lemma indices_none: "\<forall>a \<in> set as. att_key a \<noteq> k \<Longrightarrow> indices k as = []"
  by (auto simp: indices_def filter_empty_conv)

lemma key_unique: "distinct (map req_key rs) \<Longrightarrow> r \<in> set rs \<Longrightarrow> r' \<in> set rs \<Longrightarrow> req_key r = req_key r' \<Longrightarrow> r = r'"
  by (auto simp: distinct_map dest: inj_onD)

lemma tables_ok_prune:
  fixes c :: rat
  assumes ok: "tables_ok n rs as"
  defines "as' \<equiv> prune_attempts c rs as"
  shows "tables_ok n (prune_requests c as' rs) as'"
proof -
  have dist: "distinct (map req_key rs)" using ok by (simp add: tables_ok_def)
  have sub: "subseq (indices k as') (indices k as)" for k
    unfolding as'_def prune_attempts_def by (rule indices_filter_subseq)
  have live: "indices (req_key r) as' = indices (req_key r) as"
    if r: "r \<in> set rs" "\<not> terminal (rq_state r)" for r
  proof -
    have keep: "att_key a = req_key r \<Longrightarrow> list_ex (request_at (ma_bot_id a) (ma_update_id a)) rs
        \<and> \<not> list_ex (\<lambda>r. request_at (ma_bot_id a) (ma_update_id a) r \<and> terminal (rq_state r)) rs" for a
      using r dist by (auto simp: list_ex_iff att_key_def dest: key_unique)
    have "filter (\<lambda>a. att_key a = req_key r) as' = filter (\<lambda>a. att_key a = req_key r) as"
      unfolding as'_def prune_attempts_def filter_filter using keep by (intro filter_cong) blast+
    then show ?thesis by (simp add: indices_def)
  qed
  have "\<exists>r \<in> set (prune_requests c as' rs). req_key r = att_key a \<and> rq_user_id r = ma_user_id a
      \<and> rq_state r \<noteq> RESERVED" if a: "a \<in> set as'" for a
  proof -
    have "a \<in> set as" using a by (simp add: as'_def prune_attempts_def)
    then obtain r where r: "r \<in> set rs" "req_key r = att_key a" "rq_user_id r = ma_user_id a" "rq_state r \<noteq> RESERVED"
      using ok by (auto simp: tables_ok_def)
    then have "r \<in> set (prune_requests c as' rs)"
      using a by (auto simp: prune_requests_def list_ex_iff req_key_def)
    with r show ?thesis by blast
  qed
  moreover have "distinct (map req_key (prune_requests c as' rs))"
    using dist by (simp add: prune_requests_def distinct_map_filter)
  moreover have "distinct (indices k as') \<and> int (length (indices k as')) \<le> n" for k
  proof
    show "distinct (indices k as')"
      using ok subseq_distinct [OF sub [of k]] unfolding tables_ok_def by blast
    show "int (length (indices k as')) \<le> n"
      using ok list_emb_length [OF sub [of k]] unfolding tables_ok_def
      by (meson of_nat_le_iff order_trans)
  qed
  moreover have "indices (req_key r) as' = map int [0..<length (indices (req_key r) as')]"
    if "r \<in> set (prune_requests c as' rs)" "rq_state r = RUNNING" for r
    using that ok live [of r] by (auto simp: tables_ok_def prune_requests_def terminal_def)
  ultimately show ?thesis unfolding tables_ok_def by blast
qed

lemma tables_ok_new_request:
  assumes "tables_ok n rs as" "req_key r \<notin> req_key ` set rs" "rq_state r = RESERVED"
  shows "tables_ok n (rs @ [r]) as"
  using assms unfolding tables_ok_def by (auto 0 4)

lemma tables_ok_set_state:
  assumes ok: "tables_ok n rs as" and r: "r \<in> set rs" "req_key r = k"
    and move: "rq_state r = RESERVED \<and> s = RUNNING \<or> rq_state r = RUNNING \<and> terminal s"
  shows "tables_ok n (map (\<lambda>r. if req_key r = k then r\<lparr>rq_state := s\<rparr> else r) rs) as"
proof -
  let ?f = "\<lambda>r. if req_key r = k then r\<lparr>rq_state := s\<rparr> else r"
  have keys [simp]: "req_key (?f x) = req_key x" "rq_user_id (?f x) = rq_user_id x" for x
    by (auto simp: req_key_def)
  have comp: "req_key \<circ> ?f = req_key" by (rule ext) simp
  have s: "s \<noteq> RESERVED" using move by (auto simp: terminal_def)
  have none: "indices k as = []" if "rq_state r = RESERVED"
  proof (rule indices_none, rule ballI, rule notI)
    fix a assume "a \<in> set as" "att_key a = k"
    then obtain r' where "r' \<in> set rs" "req_key r' = k" "rq_state r' \<noteq> RESERVED"
      using ok unfolding tables_ok_def by metis
    moreover have "distinct (map req_key rs)" using ok by (simp add: tables_ok_def)
    ultimately show False using that r by (metis key_unique)
  qed
  have run: "indices (req_key r') as = map int [0..<length (indices (req_key r') as)]"
    if r': "r' \<in> set rs" "rq_state (?f r') = RUNNING" for r'
  proof (cases "req_key r' = k")
    case True
    with r'(2) have "s = RUNNING" by simp
    with move none True show ?thesis by (auto simp: terminal_def)
  next
    case False
    with r' ok show ?thesis by (auto simp: tables_ok_def)
  qed
  show ?thesis
    unfolding tables_ok_def
  proof (intro conjI ballI impI)
    show "distinct (map req_key (map ?f rs))"
      using ok unfolding map_map comp by (simp add: tables_ok_def)
    show "\<forall>k. distinct (indices k as) \<and> int (length (indices k as)) \<le> n"
      using ok by (simp add: tables_ok_def)
    fix a assume "a \<in> set as"
    then obtain x where "x \<in> set rs" "req_key x = att_key a" "rq_user_id x = ma_user_id a" "rq_state x \<noteq> RESERVED"
      using ok unfolding tables_ok_def by blast
    then have "?f x \<in> set (map ?f rs)" "req_key (?f x) = att_key a" "rq_user_id (?f x) = ma_user_id a"
      "rq_state (?f x) \<noteq> RESERVED"
      using s by (auto simp: req_key_def)
    then show "\<exists>x \<in> set (map ?f rs). req_key x = att_key a \<and> rq_user_id x = ma_user_id a \<and> rq_state x \<noteq> RESERVED"
      by blast
  next
    fix x assume "x \<in> set (map ?f rs)" "rq_state x = RUNNING"
    then obtain y where "y \<in> set rs" "x = ?f y" "rq_state (?f y) = RUNNING" by auto
    with run [of y] show "indices (req_key x) as = map int [0..<length (indices (req_key x) as)]" by simp
  qed
qed

lemma tables_ok_new_attempt:
  assumes ok: "tables_ok n rs as" and r: "r \<in> set rs" "req_key r = att_key a"
    "rq_user_id r = ma_user_id a" "rq_state r = RUNNING"
    and room: "int (length (indices (att_key a) as)) < n"
    and index: "ma_attempt_index a = int (length (indices (att_key a) as))"
  shows "tables_ok n rs (as @ [a])"
proof -
  have add: "indices k (as @ [a]) = indices k as @ (if att_key a = k then [ma_attempt_index a] else [])" for k
    by (simp add: indices_def)
  have old: "indices (att_key a) as = map int [0..<length (indices (att_key a) as)]"
    using ok r unfolding tables_ok_def by (metis (no_types, lifting))
  have "ma_attempt_index a \<notin> set (indices (att_key a) as)"
    by (subst old) (auto simp: index)
  moreover have "distinct (indices k as)" "int (length (indices k as)) \<le> n" for k
    using ok unfolding tables_ok_def by blast+
  ultimately have "distinct (indices k (as @ [a])) \<and> int (length (indices k (as @ [a]))) \<le> n" for k
    using room by (auto simp: add)
  moreover have "indices (req_key x) (as @ [a]) = map int [0..<length (indices (req_key x) (as @ [a]))]"
    if "x \<in> set rs" "rq_state x = RUNNING" for x
  proof (cases "att_key a = req_key x")
    case True
    with old index show ?thesis by (simp add: add)
  next
    case False
    with ok that show ?thesis by (simp add: add tables_ok_def)
  qed
  moreover have "\<exists>r \<in> set rs. req_key r = att_key b \<and> rq_user_id r = ma_user_id b \<and> rq_state r \<noteq> RESERVED"
    if "b \<in> set (as @ [a])" for b
    using that ok r unfolding tables_ok_def by (cases "b = a") auto
  moreover have "distinct (map req_key rs)" using ok by (simp add: tables_ok_def)
  ultimately show ?thesis unfolding tables_ok_def by blast
qed

lemma attempts_of_indices: "map ma_attempt_index (attempts_of b u l) = indices (b, u) (model_attempts l)"
  by (auto simp: attempts_of_def indices_def intro!: arg_cong [where f = "map ma_attempt_index"] filter_cong)

lemma peak_upto: "map ma_attempt_index as = map int [0..<n] \<Longrightarrow> peak_index as = int n - 1"
proof -
  have "foldr (\<lambda>a. max (ma_attempt_index a)) as c = foldr max (map ma_attempt_index as) c" for c
    by (induction as) auto
  moreover have "foldr max (map int [0..<n]) c = (if n = 0 then c else max c (int n - 1))" for c
    by (induction n arbitrary: c) (auto simp: max_def)
  ultimately show "map ma_attempt_index as = map int [0..<n] \<Longrightarrow> peak_index as = int n - 1"
    by (simp add: peak_index_def)
qed

lemma find_requestD: "find_request b u l = Some r \<Longrightarrow> r \<in> set (requests l) \<and> req_key r = (b, u)"
  by (auto simp: find_request_def dest: find_SomeD)

lemma find_request_None: "find_request b u l = None \<longleftrightarrow> (b, u) \<notin> req_key ` set (requests l)"
  by (force simp: find_request_def find_None_iff)

lemma ledger_ok_advance: "ledger_ok lims l \<Longrightarrow> advance_clock_txn b t l = Inr l' \<Longrightarrow> ledger_ok lims l'"
  by (auto simp: ledger_ok_def advance_clock_txn_def split: option.splits if_splits)

lemma ledger_ok_prune: "ledger_ok lims l \<Longrightarrow> ledger_ok lims (prune_txn t l)"
  using tables_ok_prune by (simp add: ledger_ok_def prune_txn_def Let_def)

lemma ledger_ok_set_state:
  assumes "ledger_ok lims l" "find_request b u l = Some r"
    "rq_state r = RESERVED \<and> s = RUNNING \<or> rq_state r = RUNNING \<and> terminal s"
  shows "ledger_ok lims (set_state b u s l)"
  using assms tables_ok_set_state [OF _ _ _ assms(3)] by (auto simp: ledger_ok_def set_state_def dest!: find_requestD)

text \<open>The index a new attempt gets is the number of attempts before it, so the primary key of
  \<open>model_attempts\<close> is never violated.\<close>

lemma next_index:
  assumes "ledger_ok lims l" "find_request b u l = Some r" "rq_state r = RUNNING"
  shows "peak_index (attempts_of b u l) + 1 = int (length (attempts_of b u l))"
    and "\<forall>a \<in> set (attempts_of b u l). ma_attempt_index a < int (length (attempts_of b u l))"
proof -
  have r: "r \<in> set (requests l)" "req_key r = (b, u)" using find_requestD [OF assms(2)] by auto
  then have ix: "indices (b, u) (model_attempts l) = map int [0..<length (indices (b, u) (model_attempts l))]"
    using assms(1,3) unfolding ledger_ok_def tables_ok_def by (metis (no_types, lifting))
  have len: "length (indices (b, u) (model_attempts l)) = length (attempts_of b u l)"
    by (metis attempts_of_indices length_map)
  show "peak_index (attempts_of b u l) + 1 = int (length (attempts_of b u l))"
    using peak_upto [of "attempts_of b u l" "length (attempts_of b u l)"] ix len
    by (simp add: attempts_of_indices)
  have "ma_attempt_index ` set (attempts_of b u l) = set (indices (b, u) (model_attempts l))"
    by (metis attempts_of_indices set_map)
  also have "\<dots> = int ` {0..<length (attempts_of b u l)}" by (subst ix) (simp add: len)
  finally have "ma_attempt_index ` set (attempts_of b u l) = {0..<int (length (attempts_of b u l))}"
    by (simp add: image_int_atLeastLessThan)
  then show "\<forall>a \<in> set (attempts_of b u l). ma_attempt_index a < int (length (attempts_of b u l))"
    by (metis atLeastLessThan_iff image_eqI)
qed

lemma insert_next_attempt:
  fixes t :: rat
  assumes ok: "ledger_ok lims l" and r: "find_request b u l = Some r" "rq_state r = RUNNING" "rq_user_id r = p"
    and room: "int (length (attempts_of b u l)) < model_calls_per_request lims"
  defines "a \<equiv> \<lparr>ma_bot_id = b, ma_update_id = u, ma_user_id = p,
      ma_attempt_index = peak_index (attempts_of b u l) + 1, ma_created_at = t\<rparr>"
  shows "insert_attempt a l = Inr (l\<lparr>model_attempts := model_attempts l @ [a]\<rparr>)"
    and "ledger_ok lims (l\<lparr>model_attempts := model_attempts l @ [a]\<rparr>)"
proof -
  note ix = next_index [OF ok r(1,2)]
  have key: "att_key a = (b, u)" by (simp add: a_def att_key_def)
  have "ma_attempt_index x \<noteq> ma_attempt_index a" if "x \<in> set (model_attempts l)" "att_key x = (b, u)" for x
    using that ix by (fastforce simp: a_def attempts_of_def)
  then show "insert_attempt a l = Inr (l\<lparr>model_attempts := model_attempts l @ [a]\<rparr>)"
    by (auto simp: insert_attempt_def list_ex_iff a_def)
  have "length (indices (b, u) (model_attempts l)) = length (attempts_of b u l)"
    by (metis attempts_of_indices length_map)
  then have "tables_ok (model_calls_per_request lims) (requests l) (model_attempts l @ [a])"
    using ok r room ix(1) find_requestD [OF r(1)] key
    by (intro tables_ok_new_attempt [where r = r]) (auto simp: ledger_ok_def a_def)
  with ok show "ledger_ok lims (l\<lparr>model_attempts := model_attempts l @ [a]\<rparr>)"
    by (simp add: ledger_ok_def)
qed

lemma transaction_keeps:
  assumes "P l" "\<And>a l'. body l = Inr (a, l') \<Longrightarrow> P l'"
  shows "P (snd (transaction env body l))"
  using assms by (auto simp: transaction_def split: sum.splits prod.splits)

lemma reserve_request_keeps [step_inv]:
  assumes "ledger_ok lims l"
  shows "ledger_ok lims (snd (reserve_request_sync lims env b u p l))"
  unfolding reserve_request_sync_def using assms
proof (rule transaction_keeps)
  fix rv l'
  assume "reserve_request_body lims (env_clock env) b u p l = Inr (rv, l')"
  then obtain now l1 where l1: "advance_clock_txn b now l = Inr l1"
    and l': "l' = prune_txn now l1 \<or> (find_request b u (prune_txn now l1) = None \<and>
      l' = prune_txn now l1\<lparr>requests := requests (prune_txn now l1) @ [\<lparr>rq_bot_id = b, rq_update_id = u,
        rq_user_id = p, rq_created_at = now, rq_state = RESERVED\<rparr>]\<rparr>)"
    unfolding reserve_request_body_def Let_def by (auto split: sum.splits option.splits if_splits)
  have ok: "ledger_ok lims (prune_txn now l1)"
    using assms l1 by (intro ledger_ok_prune) (rule ledger_ok_advance)
  show "ledger_ok lims l'"
    using l' ok tables_ok_new_request by (auto simp: ledger_ok_def find_request_None req_key_def)
qed

lemma ledger_ok_moved:
  assumes "ledger_ok lims l" "advance_clock_txn b t l = Inr l1" "find_request b u l1 = Some r"
  shows "rq_state r = RESERVED \<Longrightarrow> ledger_ok lims (set_state b u RUNNING l1)"
    and "rq_state r = RUNNING \<Longrightarrow> terminal s \<Longrightarrow> ledger_ok lims (set_state b u s l1)"
  using ledger_ok_set_state [OF ledger_ok_advance [OF assms(1,2)] assms(3)] by auto

lemma mark_running_keeps [step_inv]:
  assumes "ledger_ok lims l"
  shows "ledger_ok lims (snd (mark_running_sync env b u p l))"
  unfolding mark_running_sync_def mark_running_body_def using assms
  by (rule transaction_keeps)
    (auto split: sum.splits option.splits if_splits intro: ledger_ok_moved [OF assms])

lemma finish_request_keeps [step_inv]:
  assumes "ledger_ok lims l"
  shows "ledger_ok lims (snd (finish_request_sync env b u p ok l))"
  unfolding finish_request_sync_def finish_request_body_def using assms
  by (rule transaction_keeps)
    (auto split: sum.splits option.splits if_splits intro: ledger_ok_moved [OF assms] simp: terminal_def)

lemma reserve_model_call_keeps [step_inv]:
  assumes "ledger_ok lims l"
  shows "ledger_ok lims (snd (reserve_model_call_sync lims env b u p l))"
  unfolding reserve_model_call_sync_def using assms
proof (rule transaction_keeps)
  fix a l'
  assume body: "reserve_model_call_body lims (env_clock env) b u p l = Inr (a, l')"
  then obtain now l1 where l1: "advance_clock_txn b now l = Inr l1" and "read_clock (env_clock env) = Inr now"
    unfolding reserve_model_call_body_def by (auto split: sum.splits)
  have ok: "ledger_ok lims (prune_txn now l1)"
    using assms l1 by (intro ledger_ok_prune) (rule ledger_ok_advance)
  show "ledger_ok lims l'"
    using body l1 \<open>read_clock (env_clock env) = Inr now\<close> ok insert_next_attempt [OF ok, where t = now]
    unfolding reserve_model_call_body_def Let_def
    by (auto simp: not_le split: option.splits if_splits)
qed

interpretation ledger_runs: op_machine "ledger_step lims" "ledger_ok lims" "\<lambda>_. True" for lims
proof
  fix x l assume "ledger_ok lims l"
  then show "ledger_ok lims (ledger_step lims x l)"
    by (cases "(lims, x, l)" rule: ledger_step.cases) (auto simp: read_only_ops intro: step_inv)
qed

text \<open>Pruning never touches a running request or its attempts.\<close>

lemma find_running_prune:
  assumes ok: "ledger_ok lims l" and r: "rq_state r = RUNNING"
  shows "find_request b u (prune_txn t (l\<lparr>quota_clock := c\<rparr>)) = Some r \<longleftrightarrow> find_request b u l = Some r"
proof -
  have dist: "distinct (map req_key (requests l))" using ok by (simp add: ledger_ok_def tables_ok_def)
  have unique: "find (request_at b u) rs = Some r \<longleftrightarrow> r \<in> set rs \<and> req_key r = (b, u)"
    if "distinct (map req_key rs)" for rs
    using that by (induction rs) (force split: if_splits)+
  let ?as = "prune_attempts (t - retention_seconds) (requests l) (model_attempts l)"
  have "r \<in> set (prune_requests (t - retention_seconds) ?as (requests l)) \<longleftrightarrow> r \<in> set (requests l)"
    using r by (auto simp: prune_requests_def terminal_def)
  moreover have "distinct (map req_key (prune_requests (t - retention_seconds) ?as (requests l)))"
    using dist by (simp add: prune_requests_def distinct_map_filter)
  ultimately show ?thesis
    using dist by (simp add: find_request_def prune_txn_def Let_def unique)
qed

lemma attempts_of_prune:
  assumes ok: "ledger_ok lims l" and r: "find_request b u l = Some r" "rq_state r = RUNNING"
  shows "attempts_of b u (prune_txn t (l\<lparr>quota_clock := c\<rparr>)) = attempts_of b u l"
proof -
  have dist: "distinct (map req_key (requests l))" using ok by (simp add: ledger_ok_def tables_ok_def)
  have r': "r \<in> set (requests l)" "req_key r = (b, u)" using find_requestD [OF r(1)] by auto
  have keep: "attempt_at b u a \<Longrightarrow> list_ex (request_at (ma_bot_id a) (ma_update_id a)) (requests l)
      \<and> \<not> list_ex (\<lambda>r. request_at (ma_bot_id a) (ma_update_id a) r \<and> terminal (rq_state r)) (requests l)" for a
  proof -
    assume "attempt_at b u a"
    then have "ma_bot_id a = b" "ma_update_id a = u" by (auto simp: att_key_def)
    moreover have "\<not> terminal (rq_state x)" if "x \<in> set (requests l)" "req_key x = (b, u)" for x
      using key_unique [OF dist that(1) r'(1)] that r'(2) r(2) by (simp add: terminal_def)
    ultimately show ?thesis using r' by (auto simp: list_ex_iff)
  qed
  show ?thesis
    unfolding attempts_of_def prune_txn_def Let_def
    by (simp add: prune_attempts_def del: at_key) (rule filter_cong [OF refl], use keep in blast)
qed

section \<open>Properties\<close>

lemma check_limitsD:
  "check_limits cs b = Inr lims \<Longrightarrow> lims = b \<and> (\<forall>(f, get, most) \<in> set cs. 0 < get b \<and> get b \<le> most)"
  by (induction cs) (auto split: if_splits)

lemma mk_limitsD:
  assumes "mk_limits b = Inr lims"
  shows "0 < requests_per_hour lims" "requests_per_hour lims \<le> 5"
    "0 < requests_per_day lims" "requests_per_day lims \<le> 20"
    "0 < model_calls_per_hour lims" "model_calls_per_hour lims \<le> 40"
    "0 < model_calls_per_day lims" "model_calls_per_day lims \<le> 160"
    "0 < model_calls_per_request lims" "model_calls_per_request lims \<le> 8"
  using assms check_limitsD [of limit_ceilings b lims] by (auto simp: mk_limits_def limit_ceilings_def)

lemma empty_ledger_ok: "0 \<le> model_calls_per_request lims \<Longrightarrow> ledger_ok lims empty_ledger"
  by (simp add: ledger_ok_def empty_ledger_def tables_ok_def indices_def)

lemma empty_rows [simp]: "req_rows empty_ledger = []" "att_rows empty_ledger = []"
  by (simp_all add: req_rows_def att_rows_def empty_ledger_def)

text \<open>C3: The request quota of the gateway. For limits that pass validation and clock readings
  that do not decrease, whatever transactions run, in whatever order, for whatever bots and
  users, with whatever database failures, no user of a bot is granted more than
  \<open>requests_per_hour\<close> (at most 5) requests in any hour, nor more than \<open>requests_per_day\<close>
  (at most 20) in any day.\<close>

theorem request_quota_holds:
  assumes "mk_limits b = Inr lims" "monotone_from op_reading m xs"
  shows "in_window hour_seconds T (times_of k (grant_history (ledger_step lims) (request_granted lims) xs empty_ledger))
      \<le> nat (requests_per_hour lims)
    \<and> in_window day_seconds T (times_of k (grant_history (ledger_step lims) (request_granted lims) xs empty_ledger))
      \<le> nat (requests_per_day lims)
    \<and> requests_per_hour lims \<le> 5 \<and> requests_per_day lims \<le> 20"
  using request_quota.quota_holds [OF empty_rows(1) assms(2)] mk_limitsD [OF assms(1)] by simp

definition env_at :: "rat \<Rightarrow> budget_env" where
  "env_at t = \<lparr>env_connects = True, env_begins = True, env_commits = True, env_clock = ClockReturns (Seconds t)\<rparr>"

theorem request_quota_holds_witness:
  "in_window hour_seconds 3 (times_of (''b'', 7)
     (grant_history (ledger_step default_limits) (request_granted default_limits)
       [(env_at 1, ReserveRequest ''b'' 1 7), (env_at 2, ReserveRequest ''b'' 2 7)] empty_ledger)) \<le> 5"
proof -
  have "mk_limits default_limits = Inr default_limits"
    by (simp add: mk_limits_def limit_ceilings_def default_limits_def)
  moreover have "monotone_from op_reading 0 [(env_at 1, ReserveRequest ''b'' 1 7), (env_at 2, ReserveRequest ''b'' 2 7)]"
    by (simp add: env_at_def read_clock_def)
  ultimately show ?thesis
    using request_quota_holds [of default_limits default_limits 0
      "[(env_at 1, ReserveRequest ''b'' 1 7), (env_at 2, ReserveRequest ''b'' 2 7)]" 3 "(''b'', 7)"]
    by (simp add: default_limits_def del: grant_history.simps)
qed

text \<open>C4: The model-call quota. For limits that pass validation and clock readings that do not
  decrease, over all bots together, no user of a bot is granted more than
  \<open>model_calls_per_hour\<close> model calls in any hour, nor more than \<open>model_calls_per_day\<close> in any
  day.\<close>

theorem model_quota_holds:
  assumes "mk_limits b = Inr lims" "monotone_from op_reading m xs"
  shows "in_window hour_seconds T (times_of k (grant_history (ledger_step lims) (model_call_granted lims) xs empty_ledger))
      \<le> nat (model_calls_per_hour lims)
    \<and> in_window day_seconds T (times_of k (grant_history (ledger_step lims) (model_call_granted lims) xs empty_ledger))
      \<le> nat (model_calls_per_day lims)
    \<and> model_calls_per_hour lims \<le> 40 \<and> model_calls_per_day lims \<le> 160"
  using model_quota.quota_holds [OF empty_rows(2) assms(2)] mk_limitsD [OF assms(1)] by simp

theorem model_quota_holds_witness:
  "in_window hour_seconds 3 (times_of (''b'', 7)
     (grant_history (ledger_step default_limits) (model_call_granted default_limits)
       [(env_at 1, ReserveRequest ''b'' 1 7), (env_at 2, MarkRunning ''b'' 1 7),
        (env_at 3, ReserveModelCall ''b'' 1 7)] empty_ledger)) \<le> 40"
proof -
  have "mk_limits default_limits = Inr default_limits"
    by (simp add: mk_limits_def limit_ceilings_def default_limits_def)
  moreover have "monotone_from op_reading 0 [(env_at 1, ReserveRequest ''b'' 1 7),
      (env_at 2, MarkRunning ''b'' 1 7), (env_at 3, ReserveModelCall ''b'' 1 7)]"
    by (simp add: env_at_def read_clock_def)
  ultimately show ?thesis
    using model_quota_holds [of default_limits default_limits 0
      "[(env_at 1, ReserveRequest ''b'' 1 7), (env_at 2, MarkRunning ''b'' 1 7),
        (env_at 3, ReserveModelCall ''b'' 1 7)]" 3 "(''b'', 7)"]
    by (simp add: default_limits_def del: grant_history.simps)
qed

text \<open>Replay protection. With readings that do not decrease, an update of a bot is never
  granted again within the 48 hours of retention: two grants for the same \<open>(bot, update)\<close> are
  more than 172800 seconds apart.\<close>

lemma no_replay_within_retention:
  assumes "monotone_from op_reading m xs"
    and "i < j" "j < length (grant_history (ledger_step lims) (request_granted lims) xs empty_ledger)"
    and "g_key (grant_history (ledger_step lims) (request_granted lims) xs empty_ledger ! i)
       = g_key (grant_history (ledger_step lims) (request_granted lims) xs empty_ledger ! j)"
  shows "g_time (grant_history (ledger_step lims) (request_granted lims) xs empty_ledger ! i) + 172800
       < g_time (grant_history (ledger_step lims) (request_granted lims) xs empty_ledger ! j)"
proof -
  have "sorted_wrt (\<lambda>a b. g_key a = g_key b \<longrightarrow> g_time a < g_time b - retention_seconds)
      (grant_history (ledger_step lims) (request_granted lims) xs empty_ledger)"
    using request_quota.replays_apart [OF empty_rows(1) assms(1)] .
  with assms(2-4) show ?thesis by (simp add: sorted_wrt_iff_nth_less retention_seconds_def less_diff_eq)
qed

lemmas ledger_eval =
  reserve_request_sync_def reserve_request_body_def mark_running_sync_def mark_running_body_def
  finish_request_sync_def finish_request_body_def transaction_def binding_def fits64_def read_clock_def advance_clock_txn_def
  prune_txn_def prune_attempts_def prune_requests_def find_request_def count_requests_def set_state_def
  mk_reservation_def empty_ledger_def env_at_def terminal_def req_key_def
  hour_seconds_def day_seconds_def retention_seconds_def default_limits_def

lemma no_replay_within_retention_example:
  "\<exists>xs. monotone_from op_reading 0 xs
     \<and> grant_history (ledger_step default_limits) (request_granted default_limits) xs empty_ledger
         = [(''b'', 1, 7, 0), (''b'', 1, 7, 200000)]
     \<and> (0 :: rat) + 172800 < 200000"
proof -
  let ?xs = "[(env_at 0, ReserveRequest ''b'' 1 7), (env_at 0, MarkRunning ''b'' 1 7),
    (env_at 0, FinishRequest ''b'' 1 7 True), (env_at 200000, ReserveRequest ''b'' 1 7)]"
  have mono: "monotone_from op_reading 0 ?xs" by (simp add: env_at_def read_clock_def)
  have h: "grant_history (ledger_step default_limits) (request_granted default_limits) ?xs empty_ledger
      = [(''b'', 1, 7, 0), (''b'', 1, 7, 200000)]"
    by (simp add: ledger_eval Let_def)
  have "(0 :: rat) + 172800 < 200000"
    using no_replay_within_retention [OF mono, of 0 1 default_limits] unfolding h by simp
  with mono h show ?thesis by blast
qed

text \<open>In every state the transactions reach, primary keys are unique, every model attempt
  belongs to a request of the same user that was started, the attempts of a running request are
  numbered 0, 1, 2, ... without gaps, and no request has more than
  \<open>model_calls_per_request\<close> (at most 8) attempts. This needs nothing of the clock.\<close>

lemma ledger_reachable_ok:
  assumes "mk_limits b = Inr lims"
  shows "ledger_ok lims (run_ops (ledger_step lims) xs empty_ledger) \<and> model_calls_per_request lims \<le> 8"
  using assms mk_limitsD(9,10) [OF assms]
  by (auto intro!: ledger_runs.run_keeps empty_ledger_ok simp: list_all_iff)

lemma ledger_reachable_ok_example:
  "ledger_ok default_limits (run_ops (ledger_step default_limits)
     [(env_at 0, ReserveRequest ''b'' 1 7), (env_at 0, MarkRunning ''b'' 1 7)] empty_ledger)"
proof -
  have "mk_limits default_limits = Inr default_limits"
    by (simp add: mk_limits_def limit_ceilings_def default_limits_def)
  from ledger_reachable_ok [OF this] show ?thesis by blast
qed

text \<open>Model calls are granted exactly when they should be. On a reachable ledger, with a
  database that answers and a clock reading \<open>t\<close> not before the bot's last one, a model call is
  granted if and only if the request is running, belongs to the user and all three budgets have
  room; otherwise the answer is False. It never fails: in particular the primary key of the
  attempts table is never violated.\<close>

lemma reserve_model_call_exact:
  assumes ok: "ledger_ok lims l"
    and env: "env_connects env" "env_begins env" "env_commits env" "read_clock (env_clock env) = Inr t"
    and ids: "fits64 u" "fits64 p"
    and clock: "\<forall>seen. map_of (quota_clock l) b = Some seen \<longrightarrow> seen \<le> t"
  shows "fst (reserve_model_call_sync lims env b u p l) =
    Inr (\<exists>r. find_request b u l = Some r \<and> rq_user_id r = p \<and> rq_state r = RUNNING
      \<and> int (length (attempts_of b u l)) < model_calls_per_request lims
      \<and> count_attempts b p (t - hour_seconds) l < model_calls_per_hour lims
      \<and> count_attempts b p (t - day_seconds) l < model_calls_per_day lims)"
proof -
  let ?l1 = "l\<lparr>quota_clock := AList.update b t (quota_clock l)\<rparr>" and ?l2 = "prune_txn t (l\<lparr>quota_clock := AList.update b t (quota_clock l)\<rparr>)"
  have adv: "advance_clock_txn b t l = Inr ?l1"
    using clock by (auto simp: advance_clock_txn_def split: option.splits)
  have ok2: "ledger_ok lims ?l2" using ok adv by (blast intro: ledger_ok_prune ledger_ok_advance)
  have run: "find_request b u ?l2 = Some r \<longleftrightarrow> find_request b u l = Some r" if "rq_state r = RUNNING" for r
    using ok that by (rule find_running_prune)
  have att: "attempts_of b u ?l2 = attempts_of b u l" if "find_request b u l = Some r" "rq_state r = RUNNING" for r
    using ok that by (rule attempts_of_prune)
  have cnt: "count_attempts b p (t - w) ?l2 = count_attempts b p (t - w) l" if "w < retention_seconds" for w
    using that by (simp add: counts_after_prune) (simp add: counts_in_rows)
  let ?go = "\<exists>r. find_request b u ?l2 = Some r \<and> rq_user_id r = p \<and> rq_state r = RUNNING
      \<and> int (length (attempts_of b u ?l2)) < model_calls_per_request lims
      \<and> count_attempts b p (t - hour_seconds) ?l2 < model_calls_per_hour lims
      \<and> count_attempts b p (t - day_seconds) ?l2 < model_calls_per_day lims"
  have "fst (reserve_model_call_sync lims env b u p l) = Inr ?go"
    using env ids adv insert_next_attempt(1) [OF ok2, where t = t]
    by (auto simp: reserve_model_call_sync_def transaction_def reserve_model_call_body_def Let_def not_le
        split: option.splits)
  also have "?go \<longleftrightarrow> (\<exists>r. find_request b u l = Some r \<and> rq_user_id r = p \<and> rq_state r = RUNNING
      \<and> int (length (attempts_of b u l)) < model_calls_per_request lims
      \<and> count_attempts b p (t - hour_seconds) l < model_calls_per_hour lims
      \<and> count_attempts b p (t - day_seconds) l < model_calls_per_day lims)"
  proof (intro iff_exI)
    fix r
    have "find_request b u ?l2 = Some r \<and> rq_state r = RUNNING \<longleftrightarrow> find_request b u l = Some r \<and> rq_state r = RUNNING"
      using run by blast
    then show "find_request b u ?l2 = Some r \<and> rq_user_id r = p \<and> rq_state r = RUNNING
        \<and> int (length (attempts_of b u ?l2)) < model_calls_per_request lims
        \<and> count_attempts b p (t - hour_seconds) ?l2 < model_calls_per_hour lims
        \<and> count_attempts b p (t - day_seconds) ?l2 < model_calls_per_day lims
      \<longleftrightarrow> find_request b u l = Some r \<and> rq_user_id r = p \<and> rq_state r = RUNNING
        \<and> int (length (attempts_of b u l)) < model_calls_per_request lims
        \<and> count_attempts b p (t - hour_seconds) l < model_calls_per_hour lims
        \<and> count_attempts b p (t - day_seconds) l < model_calls_per_day lims"
      unfolding cnt [OF window_lengths(1)] cnt [OF window_lengths(2)] by (metis att)
  qed
  finally show ?thesis .
qed

definition running_ledger :: ledger where
  "running_ledger = \<lparr>requests = [\<lparr>rq_bot_id = ''b'', rq_update_id = 1, rq_user_id = 7, rq_created_at = 0,
     rq_state = RUNNING\<rparr>], model_attempts = [], quota_clock = [(''b'', 0)]\<rparr>"

lemma reserve_model_call_exact_example:
  "fst (reserve_model_call_sync default_limits (env_at 1) ''b'' 1 7 running_ledger) = Inr True"
proof -
  have "ledger_ok default_limits running_ledger"
    by (simp add: ledger_ok_def running_ledger_def tables_ok_def indices_def default_limits_def dict_ok_def)
  from reserve_model_call_exact [OF this, of "env_at 1" 1 1 7 "''b''"] show ?thesis
    by (simp add: env_at_def fits64_def read_clock_def running_ledger_def find_request_def attempts_of_def
        count_attempts_def default_limits_def req_key_def)
qed

text \<open>The condition on the clock cannot be dropped, and the ledger's own guard does not
  supply it: the guard compares a reading with the last one of the same bot, while pruning is
  over all bots. Here the readings of each bot never decrease and no call fails, yet with a limit
  of one request per hour user 7 of bot \<open>b\<close> is granted two within ten seconds, because bot \<open>a\<close>
  saw a later time in between and its call deleted the first grant.\<close>

lemma pruning_ignores_other_clocks:
  "let lims = default_limits\<lparr>requests_per_hour := 1\<rparr>;
       xs = [(env_at 0, ReserveRequest ''b'' 1 7), (env_at 0, MarkRunning ''b'' 1 7),
             (env_at 0, FinishRequest ''b'' 1 7 True), (env_at 172801, ReserveRequest ''a'' 1 9),
             (env_at 10, ReserveRequest ''b'' 2 7)]
   in mk_limits lims = Inr lims
      \<and> in_window hour_seconds 10 (times_of (''b'', 7)
           (grant_history (ledger_step lims) (request_granted lims) xs empty_ledger)) = 2"
proof -
  let ?lims = "default_limits\<lparr>requests_per_hour := 1\<rparr>"
  let ?xs = "[(env_at 0, ReserveRequest ''b'' 1 7), (env_at 0, MarkRunning ''b'' 1 7),
    (env_at 0, FinishRequest ''b'' 1 7 True), (env_at 172801, ReserveRequest ''a'' 1 9),
    (env_at 10, ReserveRequest ''b'' 2 7)]"
  have "grant_history (ledger_step ?lims) (request_granted ?lims) ?xs empty_ledger =
      [(''b'', 1, 7, 0), (''a'', 1, 9, 172801), (''b'', 2, 7, 10)]"
    by (simp add: ledger_eval Let_def)
  moreover have "mk_limits ?lims = Inr ?lims"
    by (simp add: mk_limits_def limit_ceilings_def default_limits_def)
  ultimately show ?thesis
    unfolding Let_def by (simp add: in_window_def times_of_def hour_seconds_def del: grant_history.simps)
qed

end
