(* ===== verification/Budget_Store.thy ===== *)
theory Budget_Store
  imports Budget_Ledger
begin

text \<open>
  The asynchronous API of \<open>src/agency/telegram/budget_store.py\<close> on top of the transactions of
  \<open>Budget_Ledger\<close>.

  A call of the API is three atomic parts, cut at its one \<open>await\<close>: what runs on the event loop
  before it, the transaction in the worker thread, and what runs on the event loop after it.
  Between the parts other calls, and \<open>close\<close>, may run. A state keeps the calls in flight; an
  event starts a call, runs a worker, resumes a call or closes the store. The random token of
  \<open>secrets.token_urlsafe\<close> is an argument of the event that resumes the call. Answers are
  appended to a log, in the order in which they are returned. What may be executed is specified
  by an abstract machine on that log; the locale \<open>backed_answers\<close> ties granting answers to the
  grants of the ledger.
\<close>

section \<open>Model\<close>

datatype answer =
    ANone
  | AReservation reservation
  | ABool bool
  | AState "request_state option"

datatype api_call =
    Initialize
  | CallInspect str int
  | CallRecover str int int
  | CallReserve str int int
  | CallMark str int int "str option"
  | CallModel str int int "str option"
  | CallFinish str int int bool "str option"

datatype call_stage = Waiting api_call | Worked api_call "(budget_error, answer) res"

record budget_store =
  bs_limits :: budget_limits
  bs_closed :: bool
  bs_owners :: "((str \<times> int \<times> int) \<times> str) list"
  bs_db :: "ledger option"
  bs_calls :: "(nat \<times> call_stage) list"
  bs_log :: "(api_call \<times> (budget_error, answer) res) list"

datatype store_error = EmptyDbPath | MemoryDbPath

definition mk_store :: "str \<Rightarrow> budget_limits option \<Rightarrow> ledger option \<Rightarrow> (store_error, budget_store) res" where
  "mk_store path lims db =
     (if py_strip path = [] then Inl EmptyDbPath
      else if py_strip path = '':memory:'' then Inl MemoryDbPath
      else Inr \<lparr>bs_limits = (case lims of Some b \<Rightarrow> b | None \<Rightarrow> default_limits), bs_closed = False,
        bs_owners = [], bs_db = db, bs_calls = [], bs_log = []\<rparr>)"

definition ascii :: "str \<Rightarrow> bool" where
  "ascii s = list_all (\<lambda>c. (of_char c :: nat) < 128) s"

text \<open>\<open>secrets.compare_digest\<close> refuses strings that are not ASCII.\<close>

definition compare_digest :: "str \<Rightarrow> str \<Rightarrow> (budget_error, bool) res" where
  "compare_digest a b = (if ascii a \<and> ascii b then Inr (a = b) else Inl NonAsciiDigest)"

definition owns :: "str \<Rightarrow> int \<Rightarrow> int \<Rightarrow> str option \<Rightarrow> budget_store \<Rightarrow> (budget_error, bool) res" where
  "owns bid upd user cap s =
     (case cap of
        None \<Rightarrow> Inr False
      | Some c \<Rightarrow>
          if bs_closed s \<or> c = [] then Inr False
          else case map_of (bs_owners s) (bid, upd, user) of
              None \<Rightarrow> Inr False
            | Some expected \<Rightarrow> compare_digest expected c)"

definition validate_pair :: "str \<Rightarrow> int \<Rightarrow> (budget_error, unit) res" where
  "validate_pair bid upd =
     (case validate_bot_id bid of
        Inl e \<Rightarrow> Inl e
      | Inr _ \<Rightarrow> (case validate_update_id upd of Inl e \<Rightarrow> Inl e | Inr _ \<Rightarrow> Inr ()))"

definition validate_triple :: "str \<Rightarrow> int \<Rightarrow> int \<Rightarrow> (budget_error, unit) res" where
  "validate_triple bid upd user =
     (case validate_pair bid upd of
        Inl e \<Rightarrow> Inl e
      | Inr _ \<Rightarrow> (case validate_user_id user of Inl e \<Rightarrow> Inl e | Inr _ \<Rightarrow> Inr ()))"

text \<open>Before the await: \<open>Some r\<close> when the call ends here with \<open>r\<close>, \<open>None\<close> when it goes on to
  its worker.\<close>

fun before_await :: "api_call \<Rightarrow> budget_store \<Rightarrow> (budget_error, answer) res option" where
  "before_await Initialize s = None"
| "before_await (CallInspect bid upd) s =
     (case validate_pair bid upd of
        Inl e \<Rightarrow> Some (Inl e)
      | Inr _ \<Rightarrow> if bs_closed s then Some (Inl BudgetUnavailable) else None)"
| "before_await (CallRecover bid upd user) s =
     (case validate_triple bid upd user of
        Inl e \<Rightarrow> Some (Inl e)
      | Inr _ \<Rightarrow> if bs_closed s then Some (Inl BudgetUnavailable) else None)"
| "before_await (CallReserve bid upd user) s =
     (case validate_triple bid upd user of
        Inl e \<Rightarrow> Some (Inl e)
      | Inr _ \<Rightarrow> if bs_closed s then Some (Inl BudgetUnavailable) else None)"
| "before_await (CallMark bid upd user cap) s =
     (case validate_triple bid upd user of
        Inl e \<Rightarrow> Some (Inl e)
      | Inr _ \<Rightarrow>
          (case owns bid upd user cap s of
             Inl e \<Rightarrow> Some (Inl e)
           | Inr yes \<Rightarrow> if yes then None else Some (Inl OwnershipDenied)))"
| "before_await (CallModel bid upd user cap) s =
     (case validate_triple bid upd user of
        Inl e \<Rightarrow> Some (Inl e)
      | Inr _ \<Rightarrow>
          (case owns bid upd user cap s of
             Inl e \<Rightarrow> Some (Inl e)
           | Inr yes \<Rightarrow> if yes then None else Some (Inr (ABool False))))"
| "before_await (CallFinish bid upd user success cap) s =
     (case validate_triple bid upd user of
        Inl e \<Rightarrow> Some (Inl e)
      | Inr _ \<Rightarrow>
          (case owns bid upd user cap s of
             Inl e \<Rightarrow> Some (Inl e)
           | Inr yes \<Rightarrow> if yes then None else Some (Inl OwnershipDenied)))"

text \<open>A transaction on a database without the tables ends in an \<open>sqlite3.Error\<close>.\<close>

definition on_tables :: "(ledger \<Rightarrow> (ledger, budget_error, 'a) outcome) \<Rightarrow> ('a \<Rightarrow> answer) \<Rightarrow> ledger option
    \<Rightarrow> (budget_error, answer) res \<times> ledger option" where
  "on_tables txn ret db =
     (case db of
        None \<Rightarrow> (Inl BudgetUnavailable, None)
      | Some l \<Rightarrow> (case txn l of (r, l') \<Rightarrow> (map_sum id ret r, Some l')))"

definition init_sync :: "bool \<Rightarrow> budget_env \<Rightarrow> ledger option \<Rightarrow> (budget_error, answer) res \<times> ledger option" where
  "init_sync shut env db =
     (if shut then (Inl BudgetUnavailable, db)
      else if \<not> env_connects env \<or> \<not> env_commits env then (Inl BudgetUnavailable, db)
      else (Inr ANone, Some (case db of Some l \<Rightarrow> l | None \<Rightarrow> empty_ledger)))"

fun worker :: "budget_env \<Rightarrow> api_call \<Rightarrow> budget_store \<Rightarrow> (budget_error, answer) res \<times> ledger option" where
  "worker env Initialize s = init_sync (bs_closed s) env (bs_db s)"
| "worker env (CallInspect bid upd) s = on_tables (inspect_reservation_sync env bid upd) AState (bs_db s)"
| "worker env (CallRecover bid upd user) s =
     on_tables (crash_recovery_sync env bid upd user) AReservation (bs_db s)"
| "worker env (CallReserve bid upd user) s =
     on_tables (reserve_request_sync (bs_limits s) env bid upd user) AReservation (bs_db s)"
| "worker env (CallMark bid upd user cap) s =
     on_tables (mark_running_sync env bid upd user) (\<lambda>_. ANone) (bs_db s)"
| "worker env (CallModel bid upd user cap) s =
     on_tables (reserve_model_call_sync (bs_limits s) env bid upd user) ABool (bs_db s)"
| "worker env (CallFinish bid upd user success cap) s =
     on_tables (finish_request_sync env bid upd user success) (\<lambda>_. ANone) (bs_db s)"

definition known_state :: "reservation_state \<Rightarrow> bool" where
  "known_state st = (st \<in> InState ` {RESERVED, RUNNING, COMPLETED, FAILED} \<or> st = DENIED)"

definition reserve_request_end :: "str \<Rightarrow> str \<Rightarrow> int \<Rightarrow> int \<Rightarrow> reservation \<Rightarrow> budget_store
    \<Rightarrow> (budget_store, budget_error, answer) outcome" where
  "reserve_request_end token bid upd user rv s =
     (if bs_closed s then (Inl BudgetUnavailable, s)
      else if \<not> known_state (rv_state rv) then (Inl BudgetUnavailable, s)
      else if rv_allowed rv \<and> \<not> rv_duplicate rv \<and> rv_state rv = InState RESERVED
      then (Inr (AReservation \<lparr>rv_allowed = True, rv_duplicate = False, rv_state = InState RESERVED,
              rv_capability = Some token\<rparr>),
            s\<lparr>bs_owners := AList.update (bid, upd, user) token (bs_owners s)\<rparr>)
      else (Inr (AReservation rv), s))"

definition reserve_model_call_end :: "str \<Rightarrow> int \<Rightarrow> int \<Rightarrow> str option \<Rightarrow> bool \<Rightarrow> budget_store
    \<Rightarrow> (budget_error, answer) res" where
  "reserve_model_call_end bid upd user cap reserved s =
     (if \<not> reserved then Inr (ABool False) else map_sum id ABool (owns bid upd user cap s))"

text \<open>After the await. An exception of the worker is raised as it is.\<close>

fun after_await :: "str \<Rightarrow> api_call \<Rightarrow> (budget_error, answer) res \<Rightarrow> budget_store
    \<Rightarrow> (budget_store, budget_error, answer) outcome" where
  "after_await token call (Inl e) s = (Inl e, s)"
| "after_await token (CallReserve bid upd user) (Inr (AReservation rv)) s =
     reserve_request_end token bid upd user rv s"
| "after_await token (CallModel bid upd user cap) (Inr (ABool reserved)) s =
     (reserve_model_call_end bid upd user cap reserved s, s)"
| "after_await token (CallFinish bid upd user success cap) (Inr a) s =
     (Inr ANone, s\<lparr>bs_owners := AList.delete (bid, upd, user) (bs_owners s)\<rparr>)"
| "after_await token call (Inr a) s = (Inr a, s)"

definition close :: "budget_store \<Rightarrow> budget_store" where
  "close s = s\<lparr>bs_closed := True, bs_owners := []\<rparr>"

datatype store_event =
    Start nat api_call
  | Work nat budget_env
  | Resume nat str
  | Close

fun store_step :: "store_event \<Rightarrow> budget_store \<Rightarrow> budget_store" where
  "store_step (Start i call) s =
     (if map_of (bs_calls s) i \<noteq> None then s
      else case before_await call s of
          Some r \<Rightarrow> s\<lparr>bs_log := bs_log s @ [(call, r)]\<rparr>
        | None \<Rightarrow> s\<lparr>bs_calls := AList.update i (Waiting call) (bs_calls s)\<rparr>)"
| "store_step (Work i env) s =
     (case map_of (bs_calls s) i of
        Some (Waiting call) \<Rightarrow>
          (case worker env call s of
             (r, db) \<Rightarrow> s\<lparr>bs_db := db, bs_calls := AList.update i (Worked call r) (bs_calls s)\<rparr>)
      | _ \<Rightarrow> s)"
| "store_step (Resume i token) s =
     (case map_of (bs_calls s) i of
        Some (Worked call r) \<Rightarrow>
          (case after_await token call r s of
             (r', s') \<Rightarrow> s'\<lparr>bs_log := bs_log s' @ [(call, r')], bs_calls := AList.delete i (bs_calls s')\<rparr>)
      | _ \<Rightarrow> s)"
| "store_step Close s = close s"

section \<open>Lemmas\<close>

text \<open>The kinds of answer a worker gives each call.\<close>

fun fits :: "api_call \<Rightarrow> (budget_error, answer) res \<Rightarrow> bool" where
  "fits call (Inl e) = True"
| "fits (CallReserve b u p) (Inr a) = (\<exists>rv. a = AReservation rv \<and> rv_capability rv = None)"
| "fits (CallRecover b u p) (Inr a) = (\<exists>rv. a = AReservation rv \<and> \<not> rv_allowed rv)"
| "fits (CallModel b u p cap) (Inr a) = (\<exists>x. a = ABool x)"
| "fits (CallInspect b u) (Inr a) = (\<exists>x. a = AState x)"
| "fits call (Inr a) = (a = ANone)"

fun grants_execution :: "(budget_error, answer) res \<Rightarrow> bool" where
  "grants_execution (Inr (AReservation rv)) = rv_allowed rv"
| "grants_execution (Inr (ABool b)) = b"
| "grants_execution r = False"

text \<open>
  The abstract machine of the capabilities: who may execute what is determined by the answers
  given so far. A reservation answered with a capability makes it the holder of its request, an
  answered finish ends that, and nothing else matters.
\<close>

type_synonym holders = "str \<times> int \<times> int \<Rightarrow> str option"

fun holder_step :: "api_call \<times> (budget_error, answer) res \<Rightarrow> holders \<Rightarrow> holders" where
  "holder_step (CallReserve b u p, Inr (AReservation rv)) h =
     (case rv_capability rv of Some c \<Rightarrow> h((b, u, p) \<mapsto> c) | None \<Rightarrow> h)"
| "holder_step (CallFinish b u p success cap, Inr a) h = h((b, u, p) := None)"
| "holder_step x h = h"

definition holders :: "(api_call \<times> (budget_error, answer) res) list \<Rightarrow> holders" where
  "holders lg = fold holder_step lg Map.empty"

lemma holders_simps [simp]: "holders [] = Map.empty" "holders (lg @ [x]) = holder_step x (holders lg)"
  by (simp_all add: holders_def)

text \<open>A holder's capability was handed out by an answered reservation, and no finish was
  answered since.\<close>

lemma holders_handed_out:
  "holders lg (b, u, p) = Some c \<Longrightarrow>
     \<exists>j < length lg. \<exists>rv. lg ! j = (CallReserve b u p, Inr (AReservation rv)) \<and> rv_capability rv = Some c
       \<and> (\<forall>i success cap a. j < i \<longrightarrow> i < length lg \<longrightarrow> lg ! i \<noteq> (CallFinish b u p success cap, Inr a))"
proof (induction lg rule: rev_induct)
  case (snoc x lg)
  let ?out = "\<lambda>lg j rv. lg ! j = (CallReserve b u p, Inr (AReservation rv)) \<and> rv_capability rv = Some c
    \<and> (\<forall>i success cap a. j < i \<longrightarrow> i < length lg \<longrightarrow> lg ! i \<noteq> (CallFinish b u p success cap, Inr a))"
  show ?case
  proof (cases "\<exists>rv. x = (CallReserve b u p, Inr (AReservation rv)) \<and> rv_capability rv = Some c")
    case True
    then show ?thesis by (intro exI [of _ "length lg"]) (auto simp: nth_append)
  next
    case False
    then have old: "holders lg (b, u, p) = Some c" and x: "x \<noteq> (CallFinish b u p success cap, Inr a)" for success cap a
      using snoc.prems by (cases "(x, holders lg)" rule: holder_step.cases; auto split: if_splits option.splits)+
    obtain j rv where j: "j < length lg" "?out lg j rv" using snoc.IH [OF old] by blast
    then have "?out (lg @ [x]) j rv" using x by (auto simp: nth_append less_Suc_eq)
    with j(1) show ?thesis by (intro exI [of _ j]) auto
  qed
qed simp

definition store_ok :: "budget_store \<Rightarrow> bool" where
  "store_ok s \<longleftrightarrow>
     (\<forall>i call r. map_of (bs_calls s) i = Some (Worked call r) \<longrightarrow> fits call r)
     \<and> map_of (bs_owners s) = (if bs_closed s then Map.empty else holders (bs_log s))
     \<and> (\<forall>n < length (bs_log s). \<forall>b u p cap. bs_log s ! n = (CallModel b u p cap, Inr (ABool True)) \<longrightarrow>
          cap \<noteq> None \<and> holders (take n (bs_log s)) (b, u, p) = cap)"

lemma on_tables_fits:
  assumes "\<And>l a. fst (txn l) = Inr a \<Longrightarrow> fits call (Inr (ret a))"
  shows "fits call (fst (on_tables txn ret db))"
proof (cases db)
  case (Some l)
  with assms [of l] show ?thesis by (cases "txn l"; cases "fst (txn l)") (auto simp: on_tables_def)
qed (simp add: on_tables_def)

lemma reserve_request_no_capability:
  "fst (reserve_request_sync lims env b u p l) = Inr rv \<Longrightarrow> rv_capability rv = None"
  by (auto simp: reserve_request_sync_def transaction_def reserve_request_body_def mk_reservation_def Let_def
      split: if_splits sum.splits option.splits prod.splits)

lemma worker_fits: "fits call (fst (worker env call s))"
proof (cases call)
  case (CallReserve b u p)
  then show ?thesis by (auto intro!: on_tables_fits dest: reserve_request_no_capability)
next
  case (CallRecover b u p)
  have "\<not> rv_allowed rv" if "fst (crash_recovery_sync env b u p l) = Inr rv" for l rv
    using that by (auto simp: crash_recovery_sync_def read_transaction_def mk_reservation_def split: if_splits option.splits sum.splits)
  then show ?thesis by (auto simp: CallRecover intro!: on_tables_fits)
qed (auto simp: init_sync_def intro!: on_tables_fits)

lemma owns_iff:
  "owns b u p cap s = Inr True \<longleftrightarrow> (\<exists>c. cap = Some c \<and> c \<noteq> [] \<and> ascii c \<and> \<not> bs_closed s
     \<and> map_of (bs_owners s) (b, u, p) = Some c)"
  by (auto simp: owns_def compare_digest_def split: option.splits if_splits)

lemma store_ok_owners: "store_ok s \<Longrightarrow> map_of (bs_owners s) = (if bs_closed s then Map.empty else holders (bs_log s))"
  by (unfold store_ok_def, elim conjE)

text \<open>Appending an answer: the owners must follow the abstract machine, and a granted model call
  must have presented the holder's capability.\<close>

lemma store_ok_answer:
  assumes ok: "store_ok s"
    and own: "map_of ow = (if bs_closed s then Map.empty else holder_step (call, r) (holders (bs_log s)))"
    and model: "\<And>b u p cap. call = CallModel b u p cap \<Longrightarrow> r = Inr (ABool True) \<Longrightarrow>
      cap \<noteq> None \<and> holders (bs_log s) (b, u, p) = cap"
  shows "store_ok (s\<lparr>bs_owners := ow, bs_log := bs_log s @ [(call, r)]\<rparr>)"
proof -
  have "cap \<noteq> None \<and> holders (take n (bs_log s @ [(call, r)])) (b, u, p) = cap"
    if "n < Suc (length (bs_log s))" "(bs_log s @ [(call, r)]) ! n = (CallModel b u p cap, Inr (ABool True))" for n b u p cap
  proof (cases "n = length (bs_log s)")
    case True
    with that model show ?thesis by auto
  next
    case False
    with that have "n < length (bs_log s)" "bs_log s ! n = (CallModel b u p cap, Inr (ABool True))"
      by (auto simp: nth_append split: if_splits)
    with ok show ?thesis unfolding store_ok_def by simp
  qed
  with ok own show ?thesis by (simp add: store_ok_def)
qed

lemma store_ok_log:
  assumes ok: "store_ok s" and same: "holder_step (call, r) (holders (bs_log s)) = holders (bs_log s)"
    and model: "\<And>b u p cap. call = CallModel b u p cap \<Longrightarrow> r = Inr (ABool True) \<Longrightarrow>
      cap \<noteq> None \<and> holders (bs_log s) (b, u, p) = cap"
  shows "store_ok (s\<lparr>bs_log := bs_log s @ [(call, r)]\<rparr>)"
proof -
  have "map_of (bs_owners s) = (if bs_closed s then Map.empty else holder_step (call, r) (holders (bs_log s)))"
    unfolding same using ok by (simp add: store_ok_def)
  from store_ok_answer [OF ok this model] show ?thesis by simp
qed

lemma before_await_no_grant: "before_await call s = Some r \<Longrightarrow> \<not> grants_execution r"
  by (cases call) (auto split: sum.splits if_splits)

lemma before_await_keeps: "before_await call s = Some r \<Longrightarrow> holder_step (call, r) h = h"
  by (cases call) (auto split: sum.splits if_splits)

lemma after_await_frame:
  assumes "after_await token call r s = (r', s')"
  shows "bs_log s' = bs_log s" "bs_calls s' = bs_calls s" "bs_db s' = bs_db s"
    "bs_limits s' = bs_limits s" "bs_closed s' = bs_closed s"
  using assms by (induction token call r s rule: after_await.induct)
    (auto simp: reserve_request_end_def split: if_splits)

lemma after_await_closed:
  "after_await token call r s = (r', s') \<Longrightarrow> fits call r \<Longrightarrow> bs_closed s \<Longrightarrow> \<not> grants_execution r'"
  by (induction token call r s rule: after_await.induct)
    (auto simp: reserve_request_end_def reserve_model_call_end_def owns_def split: if_splits option.splits)

lemma store_ok_calls:
  assumes "store_ok s" "\<And>i call r. map_of cs i = Some (Worked call r) \<Longrightarrow> fits call r"
  shows "store_ok (s\<lparr>bs_calls := cs\<rparr>)"
  using assms by (auto simp: store_ok_def)

lemma store_ok_db: "store_ok (s\<lparr>bs_db := db\<rparr>) = store_ok s"
  by (simp add: store_ok_def)

text \<open>The state a call leaves behind once its answer is in the log.\<close>

definition answered :: "api_call \<times> (budget_error, answer) res \<times> budget_store \<Rightarrow> budget_store" where
  "answered x = (case x of (call, r, s) \<Rightarrow> s\<lparr>bs_log := bs_log s @ [(call, r)]\<rparr>)"

lemma reserve_answered_ok:
  assumes ok: "store_ok s" and rv: "rv_capability rv = None" and e: "reserve_request_end token b u p rv s = (r, s')"
  shows "store_ok (answered (CallReserve b u p, r, s'))"
proof (cases "\<exists>rv'. r = Inr (AReservation rv') \<and> rv_capability rv' = Some token")
  case True
  then obtain rv' where r: "r = Inr (AReservation rv')" "rv_capability rv' = Some token" by blast
  have s': "s' = s\<lparr>bs_owners := AList.update (b, u, p) token (bs_owners s)\<rparr>" and "\<not> bs_closed s"
    using e rv r by (auto simp: reserve_request_end_def split: if_splits)
  then have own: "map_of (AList.update (b, u, p) token (bs_owners s)) =
      (if bs_closed s then Map.empty else holder_step (CallReserve b u p, r) (holders (bs_log s)))"
    using store_ok_owners [OF ok] r by (simp add: AList.update_conv')
  have "store_ok (s\<lparr>bs_owners := AList.update (b, u, p) token (bs_owners s),
      bs_log := bs_log s @ [(CallReserve b u p, r)]\<rparr>)"
    by (rule store_ok_answer [OF ok own]) (simp_all add: r)
  then show ?thesis by (simp add: answered_def s')
next
  case False
  then have s': "s' = s" and r: "r = Inl BudgetUnavailable \<or> r = Inr (AReservation rv)"
    using e unfolding reserve_request_end_def by (fastforce split: if_split_asm)+
  from r rv have "holder_step (CallReserve b u p, r) (holders (bs_log s)) = holders (bs_log s)" by auto
  from store_ok_log [OF ok this] show ?thesis by (simp add: answered_def s')
qed

lemma model_answered_ok:
  assumes ok: "store_ok s"
  shows "store_ok (answered (CallModel b u p cap, reserve_model_call_end b u p cap x s, s))"
  unfolding answered_def prod.case using assms
proof (rule store_ok_log)
  fix b' u' p' cap'
  assume "CallModel b u p cap = CallModel b' u' p' cap'"
    and "reserve_model_call_end b u p cap x s = Inr (ABool True)"
  then have "cap' = cap" "(b', u', p') = (b, u, p)" "owns b u p cap s = Inr True"
    by (auto simp: reserve_model_call_end_def split: if_splits) (cases "owns b u p cap s"; simp)
  with ok show "cap' \<noteq> None \<and> holders (bs_log s) (b', u', p') = cap'"
    by (auto simp: owns_iff store_ok_def)
qed simp

lemma finish_answered_ok:
  assumes ok: "store_ok s"
  shows "store_ok (s\<lparr>bs_owners := AList.delete (b, u, p) (bs_owners s),
    bs_log := bs_log s @ [(CallFinish b u p success cap, Inr ANone)]\<rparr>)"
  using ok by (intro store_ok_answer) (auto simp: store_ok_def AList.delete_conv' fun_upd_idem)

lemma after_await_ok:
  assumes ok: "store_ok s" and f: "fits call r" and e: "after_await token call r s = (r', s')"
  shows "store_ok (answered (call, r', s'))"
proof (cases r)
  case (Inl x)
  with e ok show ?thesis by (auto simp: answered_def intro!: store_ok_log)
next
  case (Inr a)
  show ?thesis
  proof (cases call)
    case (CallReserve b u p)
    with f e Inr reserve_answered_ok [OF ok] show ?thesis by auto
  next
    case (CallModel b u p cap)
    with f e Inr model_answered_ok [OF ok] show ?thesis by auto
  next
    case (CallFinish b u p success cap)
    with e Inr finish_answered_ok [OF ok] show ?thesis by (auto simp: answered_def)
  qed (use f e Inr ok in \<open>auto simp: answered_def intro!: store_ok_log\<close>)
qed

lemma store_step_ok [step_inv]: "store_ok s \<Longrightarrow> store_ok (store_step e s)"
proof (cases e)
  case (Start i call)
  assume ok: "store_ok s"
  have now: "store_ok (s\<lparr>bs_log := bs_log s @ [(call, r)]\<rparr>)" if "before_await call s = Some r" for r
    using ok before_await_no_grant [OF that] before_await_keeps [OF that] by (intro store_ok_log) auto
  have later: "store_ok (s\<lparr>bs_calls := AList.update i (Waiting call) (bs_calls s)\<rparr>)"
    using ok by (intro store_ok_calls) (auto simp: store_ok_def split: if_splits)
  show ?thesis using Start ok now later by (auto split: option.splits)
next
  case (Work i env)
  assume ok: "store_ok s"
  have "store_ok (s\<lparr>bs_db := db, bs_calls := AList.update i (Worked call (fst (worker env call s))) (bs_calls s)\<rparr>)"
    for call db
    using ok worker_fits by (intro store_ok_calls) (auto simp: store_ok_def split: if_splits)
  with Work ok show ?thesis by (auto split: option.splits call_stage.splits prod.splits) (metis fst_conv)
next
  case (Resume i token)
  assume ok: "store_ok s"
  show ?thesis
  proof (cases "\<exists>call r. map_of (bs_calls s) i = Some (Worked call r)")
    case True
    then obtain call r where c: "map_of (bs_calls s) i = Some (Worked call r)" by blast
    obtain r' s' where e: "after_await token call r s = (r', s')" by fastforce
    have "store_ok (answered (call, r', s'))"
      using ok c e by (intro after_await_ok) (auto simp: store_ok_def)
    then have "store_ok ((answered (call, r', s'))\<lparr>bs_calls := AList.delete i (bs_calls s')\<rparr>)"
      using ok after_await_frame(2) [OF e]
      by (intro store_ok_calls) (auto simp: store_ok_def split: if_splits)
    then show ?thesis by (simp add: Resume c e answered_def)
  next
    case False
    with Resume ok show ?thesis by (auto split: option.splits call_stage.splits)
  qed
next
  case Close
  assume ok: "store_ok s"
  then show ?thesis using Close by (auto simp: close_def store_ok_def)
qed

definition store_below :: "budget_store \<Rightarrow> budget_store \<Rightarrow> bool" where
  "store_below s s' \<longleftrightarrow> (bs_closed s \<longrightarrow> bs_closed s')
     \<and> (\<exists>ext. bs_log s' = bs_log s @ ext \<and> (bs_closed s \<longrightarrow> (\<forall>x \<in> set ext. \<not> grants_execution (snd x))))"

lemma store_below_same: "bs_closed s' = bs_closed s \<Longrightarrow> bs_log s' = bs_log s \<Longrightarrow> store_below s s'"
  by (auto simp: store_below_def)

lemma store_below_log:
  "bs_closed s' = bs_closed s \<Longrightarrow> bs_log s' = bs_log s @ [x] \<Longrightarrow>
     (bs_closed s \<Longrightarrow> \<not> grants_execution (snd x)) \<Longrightarrow> store_below s s'"
  by (auto simp: store_below_def)

lemma store_step_below: "store_ok s \<Longrightarrow> store_below s (store_step e s)"
proof (cases e)
  case (Start i call)
  have "store_below s (s\<lparr>bs_log := bs_log s @ [(call, r)]\<rparr>)" if "before_await call s = Some r" for r
    using before_await_no_grant [OF that] by (auto intro: store_below_log)
  with Start show ?thesis by (auto intro: store_below_same split: option.splits)
next
  case (Work i env)
  then show ?thesis
    by (auto intro!: store_below_same split: option.splits call_stage.splits prod.splits)
next
  case (Resume i token)
  assume ok: "store_ok s"
  show ?thesis
  proof (cases "\<exists>call r. map_of (bs_calls s) i = Some (Worked call r)")
    case True
    then obtain call r where c: "map_of (bs_calls s) i = Some (Worked call r)" by blast
    obtain r' s' where e: "after_await token call r s = (r', s')" by fastforce
    have "fits call r" using ok c by (auto simp: store_ok_def)
    then show ?thesis
      using after_await_closed [OF e] after_await_frame [OF e]
      by (intro store_below_log [where x = "(call, r')"]) (auto simp: Resume c e)
  qed (use Resume in \<open>auto intro!: store_below_same split: option.splits call_stage.splits\<close>)
next
  case Close
  then show ?thesis by (auto simp: close_def store_below_def)
qed

lemma store_below_trans: "store_below s t \<Longrightarrow> store_below t u \<Longrightarrow> store_below s u"
  unfolding store_below_def by (elim conjE exE, intro conjI, blast) (auto 0 3)

interpretation store_runs: op_progress store_step store_ok "\<lambda>_. True" store_below
  by unfold_locales (auto intro: store_step_ok store_step_below store_below_same store_below_trans)

lemma new_store_ok: "mk_store path lims db = Inr s \<Longrightarrow> store_ok s"
  by (auto simp: mk_store_def store_ok_def split: if_splits)

lemma reachable_store_ok: "mk_store path lims db = Inr s \<Longrightarrow> store_ok (run_ops store_step es s)"
  by (rule store_runs.run_keeps) (auto simp: list_all_iff intro: new_store_ok)

text \<open>The transactions a run of the store performs, in order.\<close>

fun ledger_op_of :: "api_call \<Rightarrow> ledger_op option" where
  "ledger_op_of Initialize = None"
| "ledger_op_of (CallInspect b u) = Some (InspectReservation b u)"
| "ledger_op_of (CallRecover b u p) = Some (CrashRecovery b u p)"
| "ledger_op_of (CallReserve b u p) = Some (ReserveRequest b u p)"
| "ledger_op_of (CallMark b u p cap) = Some (MarkRunning b u p)"
| "ledger_op_of (CallModel b u p cap) = Some (ReserveModelCall b u p)"
| "ledger_op_of (CallFinish b u p ok cap) = Some (FinishRequest b u p ok)"

fun worked_op :: "store_event \<Rightarrow> budget_store \<Rightarrow> (budget_env \<times> ledger_op) list" where
  "worked_op (Work i env) s =
     (case map_of (bs_calls s) i of
        Some (Waiting call) \<Rightarrow> (case ledger_op_of call of Some x \<Rightarrow> [(env, x)] | None \<Rightarrow> [])
      | _ \<Rightarrow> [])"
| "worked_op e s = []"

fun worked_ops :: "store_event list \<Rightarrow> budget_store \<Rightarrow> (budget_env \<times> ledger_op) list" where
  "worked_ops [] s = []"
| "worked_ops (e # es) s = worked_op e s @ worked_ops es (store_step e s)"

lemma worker_ledger:
  "bs_db s = Some l \<Longrightarrow> snd (worker env call s) =
     Some (case ledger_op_of call of Some x \<Rightarrow> ledger_step (bs_limits s) (env, x) l | None \<Rightarrow> l)"
  by (cases call) (auto simp: on_tables_def init_sync_def split: prod.splits)

lemma store_step_ledger:
  assumes "bs_db s = Some l"
  shows "bs_db (store_step e s) = Some (run_ops (ledger_step (bs_limits s)) (worked_op e s) l)"
    and "bs_limits (store_step e s) = bs_limits s"
proof -
  have "bs_db (store_step e s) = Some (run_ops (ledger_step (bs_limits s)) (worked_op e s) l)
      \<and> bs_limits (store_step e s) = bs_limits s"
  proof (cases e)
    case (Work i env)
    show ?thesis
    proof (cases "\<exists>call. map_of (bs_calls s) i = Some (Waiting call)")
      case True
      then obtain call where c: "map_of (bs_calls s) i = Some (Waiting call)" by blast
      show ?thesis
        using worker_ledger [OF assms, of env call] by (auto simp: Work c split: prod.splits option.splits)
    qed (use Work assms in \<open>auto split: option.splits call_stage.splits\<close>)
  next
    case (Resume i token)
    show ?thesis
    proof (cases "\<exists>call r. map_of (bs_calls s) i = Some (Worked call r)")
      case True
      then obtain call r where c: "map_of (bs_calls s) i = Some (Worked call r)" by blast
      obtain r' s' where e: "after_await token call r s = (r', s')" by fastforce
      show ?thesis using after_await_frame [OF e] assms by (simp add: Resume c e)
    qed (use Resume assms in \<open>auto split: option.splits call_stage.splits\<close>)
  qed (use assms in \<open>auto simp: close_def split: option.splits\<close>)
  then show "bs_db (store_step e s) = Some (run_ops (ledger_step (bs_limits s)) (worked_op e s) l)"
    "bs_limits (store_step e s) = bs_limits s" by auto
qed

subsection \<open>Answers and grants of the ledger\<close>

text \<open>
  The contract between the answers of the API and the grants of the ledger: a granting answer
  stems from the answer of a worker whose transaction granted, and the parts of the call before
  and after the await can withhold a grant but not make one. Inside the locale the granting
  answers of a run, with those that are still on their way, never outnumber the grants of the
  transactions.
\<close>

type_synonym request_key = "str \<times> int \<times> int"

fun g_request :: "grant \<Rightarrow> request_key" where
  "g_request (b, u, p, t) = (b, u, p)"

locale backed_answers =
  fixes lims :: budget_limits
    and answer_grant :: "api_call \<times> (budget_error, answer) res \<Rightarrow> request_key option"
    and ledger_grant :: "budget_env \<times> ledger_op \<Rightarrow> ledger \<Rightarrow> grant option"
  assumes before_no_grant: "before_await call s = Some r \<Longrightarrow> answer_grant (call, r) = None"
    and worker_backed: "bs_limits s = lims \<Longrightarrow> bs_db s = Some l \<Longrightarrow>
      answer_grant (call, fst (worker env call s)) = Some k \<Longrightarrow>
      \<exists>x g. ledger_op_of call = Some x \<and> ledger_grant (env, x) l = Some g \<and> g_request g = k"
    and after_no_new_grant: "fits call r \<Longrightarrow> after_await token call r s = (r', s') \<Longrightarrow>
      answer_grant (call, r') = Some k \<Longrightarrow> answer_grant (call, r) = Some k"
begin

definition on_their_way :: "request_key \<Rightarrow> budget_store \<Rightarrow> nat set" where
  "on_their_way k s =
     {i. \<exists>call r. map_of (bs_calls s) i = Some (Worked call r) \<and> answer_grant (call, r) = Some k}"

definition answered_grants :: "request_key \<Rightarrow> budget_store \<Rightarrow> nat" where
  "answered_grants k s = length (filter (\<lambda>x. answer_grant x = Some k) (bs_log s))"

definition new_grants :: "request_key \<Rightarrow> (budget_env \<times> ledger_op) list \<Rightarrow> ledger \<Rightarrow> nat" where
  "new_grants k xs l = length (filter (\<lambda>g. g_request g = k) (grant_history (ledger_step lims) ledger_grant xs l))"

lemma finite_on_their_way [simp]: "finite (on_their_way k s)"
proof -
  have "on_their_way k s \<subseteq> dom (map_of (bs_calls s))" by (auto simp: on_their_way_def)
  then show ?thesis using finite_dom_map_of by (rule finite_subset)
qed

lemma worker_step_backed:
  assumes db: "bs_db s = Some l" "bs_limits s = lims" and c: "map_of (bs_calls s) i = Some (Waiting call)"
  shows "card (on_their_way k (store_step (Work i env) s))
    \<le> card (on_their_way k s) + new_grants k (worked_op (Work i env) s) l"
proof (cases "answer_grant (call, fst (worker env call s)) = Some k")
  case True
  with db obtain x g where g: "ledger_op_of call = Some x" "ledger_grant (env, x) l = Some g" "g_request g = k"
    using worker_backed by blast
  have "on_their_way k (store_step (Work i env) s) \<subseteq> insert i (on_their_way k s)"
    by (auto simp: c on_their_way_def AList.update_conv' split: prod.splits if_splits)
  then have "card (on_their_way k (store_step (Work i env) s)) \<le> card (insert i (on_their_way k s))"
    by (intro card_mono) simp_all
  also have "\<dots> \<le> card (on_their_way k s) + 1" by (simp add: card_insert_if)
  finally show ?thesis using c g by (simp add: new_grants_def)
next
  case False
  then have "on_their_way k (store_step (Work i env) s) \<subseteq> on_their_way k s"
    using c by (auto simp: on_their_way_def AList.update_conv' split: prod.splits if_splits)
  then show ?thesis by (simp add: card_mono trans_le_add1)
qed

lemma answer_step_backed:
  assumes ok: "store_ok s" and c: "map_of (bs_calls s) i = Some (Worked call r)"
  shows "answered_grants k (store_step (Resume i token) s) + card (on_their_way k (store_step (Resume i token) s))
    \<le> answered_grants k s + card (on_their_way k s)"
proof -
  obtain r' s' where e: "after_await token call r s = (r', s')" by fastforce
  have f: "fits call r" using ok c by (auto simp: store_ok_def)
  have way: "on_their_way k (store_step (Resume i token) s) = on_their_way k s - {i}"
    using after_await_frame(2) [OF e] by (auto simp: c e on_their_way_def AList.delete_conv')
  show ?thesis
  proof (cases "answer_grant (call, r') = Some k")
    case True
    then have "i \<in> on_their_way k s"
      using after_no_new_grant [OF f e] c by (auto simp: on_their_way_def)
    then have "Suc (card (on_their_way k s - {i})) = card (on_their_way k s)"
      by (intro card_Suc_Diff1) simp_all
    then show ?thesis
      unfolding way using after_await_frame(1) [OF e] by (simp add: c e True answered_grants_def)
  next
    case False
    moreover have "card (on_their_way k s - {i}) \<le> card (on_their_way k s)" by (intro card_mono) auto
    ultimately show ?thesis
      unfolding way using after_await_frame(1) [OF e] by (simp add: c e answered_grants_def)
  qed
qed

lemma step_backed:
  assumes ok: "store_ok s" and db: "bs_db s = Some l" "bs_limits s = lims"
  shows "answered_grants k (store_step e s) + card (on_their_way k (store_step e s))
    \<le> answered_grants k s + card (on_their_way k s) + new_grants k (worked_op e s) l"
proof (cases e)
  case (Start i call)
  have "on_their_way k (store_step e s) \<subseteq> on_their_way k s"
    by (auto simp: Start on_their_way_def AList.update_conv' split: option.splits if_splits)
  then have "card (on_their_way k (store_step e s)) \<le> card (on_their_way k s)" by (simp add: card_mono)
  moreover have "answered_grants k (store_step e s) = answered_grants k s"
    using before_no_grant by (auto simp: Start answered_grants_def split: option.splits)
  ultimately show ?thesis by simp
next
  case (Work i env)
  show ?thesis
  proof (cases "\<exists>call. map_of (bs_calls s) i = Some (Waiting call)")
    case True
    then obtain call where c: "map_of (bs_calls s) i = Some (Waiting call)" by blast
    have "answered_grants k (store_step (Work i env) s) = answered_grants k s"
      by (simp add: answered_grants_def c split: prod.split)
    with worker_step_backed [OF db c, of k env] show ?thesis by (simp only: Work)
  next
    case False
    then have "store_step e s = s" by (auto simp: Work split: option.splits call_stage.splits)
    then show ?thesis by simp
  qed
next
  case (Resume i token)
  show ?thesis
  proof (cases "\<exists>call r. map_of (bs_calls s) i = Some (Worked call r)")
    case True
    then obtain call r where c: "map_of (bs_calls s) i = Some (Worked call r)" by blast
    from answer_step_backed [OF ok c, of k token] show ?thesis by (simp only: Resume)
  next
    case False
    then have "store_step e s = s" by (auto simp: Resume split: option.splits call_stage.splits)
    then show ?thesis by simp
  qed
next
  case Close
  then show ?thesis by (simp add: close_def answered_grants_def on_their_way_def)
qed

lemma run_backed:
  assumes "store_ok s" "bs_db s = Some l" "bs_limits s = lims"
  shows "answered_grants k (run_ops store_step es s)
    \<le> answered_grants k s + card (on_their_way k s) + new_grants k (worked_ops es s) l"
  using assms
proof (induction es arbitrary: s l)
  case (Cons e es)
  note db = store_step_ledger [OF Cons.prems(2), of e]
  have "answered_grants k (run_ops store_step es (store_step e s))
      \<le> answered_grants k (store_step e s) + card (on_their_way k (store_step e s))
        + new_grants k (worked_ops es (store_step e s)) (run_ops (ledger_step lims) (worked_op e s) l)"
    using Cons.prems(3) db by (intro Cons.IH store_step_ok Cons.prems(1)) simp_all
  moreover have "new_grants k (worked_op e s) l
        + new_grants k (worked_ops es (store_step e s)) (run_ops (ledger_step lims) (worked_op e s) l)
      = new_grants k (worked_ops (e # es) s) l"
    by (simp add: new_grants_def grant_history_append)
  ultimately show ?case using step_backed [OF Cons.prems, of k e] by simp
qed (simp add: new_grants_def)

end

text \<open>The two kinds of granting answers, and that each meets the contract.\<close>

fun model_answer :: "api_call \<times> (budget_error, answer) res \<Rightarrow> request_key option" where
  "model_answer (CallModel b u p cap, Inr (ABool yes)) = (if yes then Some (b, u, p) else None)"
| "model_answer x = None"

fun reservation_answer :: "api_call \<times> (budget_error, answer) res \<Rightarrow> request_key option" where
  "reservation_answer (CallReserve b u p, Inr (AReservation rv)) = (if rv_allowed rv then Some (b, u, p) else None)"
| "reservation_answer x = None"

lemma on_tables_Inr:
  "fst (on_tables txn ret (Some l)) = Inr a \<longleftrightarrow> (\<exists>x. fst (txn l) = Inr x \<and> a = ret x)"
  by (cases "txn l"; cases "fst (txn l)") (auto simp: on_tables_def)

lemma model_call_grant_time:
  assumes "fst (reserve_model_call_sync lims env b u p l) = Inr True"
  shows "\<exists>t. op_reading (env, ReserveModelCall b u p) = Some t"
  using assms by (auto simp: reserve_model_call_sync_def transaction_def reserve_model_call_body_def
      split: if_splits sum.splits)

lemma request_grant_time:
  assumes "fst (reserve_request_sync lims env b u p l) = Inr rv"
  shows "\<exists>t. op_reading (env, ReserveRequest b u p) = Some t"
  using assms by (auto simp: reserve_request_sync_def transaction_def reserve_request_body_def
      split: if_splits sum.splits)

interpretation model_answers: backed_answers lims model_answer "model_call_granted lims" for lims
proof unfold_locales
  fix s call r
  show "before_await call s = Some r \<Longrightarrow> model_answer (call, r) = None"
    by (cases call) (auto split: sum.splits if_splits)
next
  fix s call env l k
  assume s: "bs_limits s = lims" "bs_db s = Some l" and k: "model_answer (call, fst (worker env call s)) = Some k"
  from k obtain b u p cap where c: "call = CallModel b u p cap" "k = (b, u, p)"
      "fst (worker env call s) = Inr (ABool True)"
    by (cases "(call, fst (worker env call s))" rule: model_answer.cases) (auto split: if_splits)
  then have "fst (reserve_model_call_sync lims env b u p l) = Inr True"
    using s by (auto simp: on_tables_Inr)
  with model_call_grant_time [OF this] c(1,2)
  show "\<exists>x g. ledger_op_of call = Some x \<and> model_call_granted lims (env, x) l = Some g \<and> g_request g = k"
    by (auto split: if_splits sum.splits)
next
  fix call r token s r' s' k
  assume f: "fits call r" and e: "after_await token call r s = (r', s')" and k: "model_answer (call, r') = Some k"
  from k obtain b u p cap where c: "call = CallModel b u p cap" "k = (b, u, p)" "r' = Inr (ABool True)"
    by (cases "(call, r')" rule: model_answer.cases) (auto split: if_splits)
  then show "model_answer (call, r) = Some k"
    using f e by (cases r) (auto simp: reserve_model_call_end_def split: if_splits)
qed

interpretation reservation_answers: backed_answers lims reservation_answer "request_granted lims" for lims
proof unfold_locales
  fix s call r
  show "before_await call s = Some r \<Longrightarrow> reservation_answer (call, r) = None"
    by (cases call) (auto split: sum.splits if_splits)
next
  fix s call env l k
  assume s: "bs_limits s = lims" "bs_db s = Some l"
    and k: "reservation_answer (call, fst (worker env call s)) = Some k"
  from k obtain b u p rv where c: "call = CallReserve b u p" "k = (b, u, p)" "rv_allowed rv"
      "fst (worker env call s) = Inr (AReservation rv)"
    by (cases "(call, fst (worker env call s))" rule: reservation_answer.cases) (auto split: if_splits)
  then have "fst (reserve_request_sync lims env b u p l) = Inr rv"
    using s by (auto simp: on_tables_Inr)
  with request_grant_time [OF this] c(1-3)
  show "\<exists>x g. ledger_op_of call = Some x \<and> request_granted lims (env, x) l = Some g \<and> g_request g = k"
    by (auto split: if_splits sum.splits)
next
  fix call r token s r' s' k
  assume f: "fits call r" and e: "after_await token call r s = (r', s')" and k: "reservation_answer (call, r') = Some k"
  from k obtain b u p rv where c: "call = CallReserve b u p" "k = (b, u, p)" "r' = Inr (AReservation rv)" "rv_allowed rv"
    by (cases "(call, r')" rule: reservation_answer.cases) (auto split: if_splits)
  then show "reservation_answer (call, r) = Some k"
    using f e by (cases r) (auto simp: reserve_request_end_def split: if_splits)
qed

text \<open>The tables of a run are those of its transactions in the order the workers ran.\<close>

lemma store_tables_serial:
  assumes "bs_db s = Some l"
  shows "bs_db (run_ops store_step es s) = Some (run_ops (ledger_step (bs_limits s)) (worked_ops es s) l)"
  using assms
proof (induction es arbitrary: s l)
  case (Cons e es)
  from Cons.IH [OF store_step_ledger(1) [OF Cons.prems, of e]] store_step_ledger(2) [OF Cons.prems, of e]
  show ?case by (simp add: run_ops_append)
qed simp

section \<open>Properties\<close>

text \<open>C6: The store refines the machine of capabilities over the ledger. However the calls of the
  API, its workers and its closing are interleaved: the owners the process remembers are the
  holders that its answers determine, none once it is closed; a model call is answered True only
  to a caller that presents the capability its request holds at that moment, one handed out by an
  answered reservation of the same request and user with no finish answered since; and for no
  request are more reservations answered as allowed, or more model calls answered True, than the
  transactions of the run granted for it in the ledger.\<close>

theorem store_refines_capabilities:
  assumes "mk_store path lims (Some l) = Inr s0"
  shows "let s = run_ops store_step es s0; L = bs_limits s0; xs = worked_ops es s0 in
    map_of (bs_owners s) = (if bs_closed s then Map.empty else holders (bs_log s))
    \<and> (\<forall>n < length (bs_log s). \<forall>b u p cap. bs_log s ! n = (CallModel b u p cap, Inr (ABool True)) \<longrightarrow>
         cap \<noteq> None \<and> holders (take n (bs_log s)) (b, u, p) = cap)
    \<and> length (filter (\<lambda>x. reservation_answer x = Some k) (bs_log s))
        \<le> length (filter (\<lambda>g. g_request g = k) (grant_history (ledger_step L) (request_granted L) xs l))
    \<and> length (filter (\<lambda>x. model_answer x = Some k) (bs_log s))
        \<le> length (filter (\<lambda>g. g_request g = k) (grant_history (ledger_step L) (model_call_granted L) xs l))"
proof -
  let ?s = "run_ops store_step es s0"
  have new: "bs_db s0 = Some l" "bs_log s0 = []" "bs_calls s0 = []"
    using assms by (auto simp: mk_store_def split: if_splits)
  have ok: "store_ok s0" "store_ok ?s"
    using assms by (auto intro: new_store_ok reachable_store_ok)
  have "model_answers.on_their_way k s0 = {}" "reservation_answers.on_their_way k s0 = {}"
    by (simp_all add: model_answers.on_their_way_def reservation_answers.on_their_way_def new)
  then have "length (filter (\<lambda>x. model_answer x = Some k) (bs_log ?s))
        \<le> length (filter (\<lambda>g. g_request g = k)
            (grant_history (ledger_step (bs_limits s0)) (model_call_granted (bs_limits s0)) (worked_ops es s0) l))"
    "length (filter (\<lambda>x. reservation_answer x = Some k) (bs_log ?s))
        \<le> length (filter (\<lambda>g. g_request g = k)
            (grant_history (ledger_step (bs_limits s0)) (request_granted (bs_limits s0)) (worked_ops es s0) l))"
    using model_answers.run_backed [OF ok(1) new(1) refl, of k es]
      reservation_answers.run_backed [OF ok(1) new(1) refl, of k es]
    by (simp_all add: new model_answers.answered_grants_def model_answers.new_grants_def
        reservation_answers.answered_grants_def reservation_answers.new_grants_def)
  with ok(2) show ?thesis unfolding Let_def by (auto simp: store_ok_def)
qed

definition demo_store :: budget_store where
  "demo_store = \<lparr>bs_limits = default_limits, bs_closed = False, bs_owners = [], bs_db = Some empty_ledger,
     bs_calls = [], bs_log = []\<rparr>"

text \<open>C5: Once the store is closed no call returns a grant, neither a reservation nor a model
  call, even when its transaction committed before or after the closing: whatever follows only
  appends refusals and errors to the answers.\<close>

theorem closed_store_grants_nothing:
  assumes "mk_store path lims db = Inr s0" "s = run_ops store_step es s0" "bs_closed s"
  shows "bs_closed (run_ops store_step es' s)
    \<and> (\<exists>ext. bs_log (run_ops store_step es' s) = bs_log s @ ext
         \<and> (\<forall>x \<in> set ext. \<not> grants_execution (snd x)))"
proof -
  have "store_ok s"
    using assms(1,2) reachable_store_ok by simp
  then have "store_below s (run_ops store_step es' s)"
    by (intro store_runs.run_advances) (auto simp: list_all_iff)
  with assms(3) show ?thesis by (auto simp: store_below_def)
qed

theorem closed_store_grants_nothing_witness:
  "bs_closed (run_ops store_step [Work 0 (env_at 5), Resume 0 ''tok'']
     (run_ops store_step [Start 0 (CallReserve ''b'' 1 7), Close] demo_store))"
proof -
  have "mk_store ''beta.db'' (Some default_limits) (Some empty_ledger) = Inr demo_store"
    by (simp add: mk_store_def demo_store_def py_strip_def py_rstrip_def py_lstrip_def py_space_def)
  moreover have "bs_closed (run_ops store_step [Start 0 (CallReserve ''b'' 1 7), Close] demo_store)"
    by (simp add: close_def)
  ultimately show ?thesis using closed_store_grants_nothing [OF _ refl] by blast
qed

definition demo_events :: "store_event list" where
  "demo_events =
     [Start 0 (CallReserve ''b'' 1 7), Work 0 (env_at 5), Resume 0 ''tok'',
      Start 1 (CallMark ''b'' 1 7 (Some ''tok'')), Work 1 (env_at 6), Resume 1 [],
      Start 2 (CallModel ''b'' 1 7 (Some ''tok'')), Work 2 (env_at 7), Resume 2 []]"

lemmas store_eval =
  ledger_eval demo_store_def demo_events_def validate_triple_def validate_pair_def validate_bot_id_def
  validate_update_id_def validate_user_id_def py_strip_def py_rstrip_def py_lstrip_def py_space_def
  on_tables_def owns_def compare_digest_def ascii_def reserve_request_end_def known_state_def
  reserve_model_call_end_def reserve_model_call_sync_def reserve_model_call_body_def attempts_of_def
  count_attempts_def insert_attempt_def

theorem store_refines_capabilities_witness:
  "holders (take 2 (bs_log (run_ops store_step demo_events demo_store))) (''b'', 1, 7) = Some ''tok''
   \<and> 1 \<le> length (filter (\<lambda>g. g_request g = (''b'', 1, 7))
       (grant_history (ledger_step default_limits) (model_call_granted default_limits)
         (worked_ops demo_events demo_store) empty_ledger))"
proof -
  have new: "mk_store ''beta.db'' (Some default_limits) (Some empty_ledger) = Inr demo_store"
    by (simp add: mk_store_def demo_store_def py_strip_def py_rstrip_def py_lstrip_def py_space_def)
  have "2 < length (bs_log (run_ops store_step demo_events demo_store))
      \<and> bs_log (run_ops store_step demo_events demo_store) ! 2 =
          (CallModel ''b'' 1 7 (Some ''tok''), Inr (ABool True))
      \<and> length (filter (\<lambda>x. model_answer x = Some (''b'', 1, 7)) (bs_log (run_ops store_step demo_events demo_store))) = 1"
    by (simp add: store_eval Let_def)
  moreover have "bs_limits demo_store = default_limits" by (simp add: demo_store_def)
  ultimately show ?thesis
    using store_refines_capabilities [OF new, of demo_events "(''b'', 1, 7)"] unfolding Let_def by metis
qed

end
