(* ===== verification/Lattice_Governance.thy ===== *)
theory Lattice_Governance
  imports Complex_Main Agency_Prelude
begin

text \<open>
  Reputation and consensus of the lattice: \<open>src/agency/lattice/reputation.py\<close>,
  \<open>src/agency/lattice/governance.py\<close> and the records \<open>Vote\<close>, \<open>Reputation\<close> and
  \<open>ConsensusProposal\<close> of \<open>src/agency/lattice/models.py\<close>.

  Scores, weights and quorums are rational numbers and their arithmetic is exact. Each engine
  serialises its operations with a lock, so an operation is one step on its state; the instant
  it reads from the clock (in seconds) and the id it draws are arguments. A vote reads its weight
  from the reputation engine before it takes the governance lock, so a vote is two steps of the
  two engines together: \<open>lattice_step\<close> keeps the votes in between, and \<open>cast_vote\<close>, the part under
  the lock, takes the weight as an argument.
  The mirror to the graph backend never raises and never changes the engines' state.
\<close>

section \<open>Reputation\<close>

record reputation =
  rp_agent_id :: str
  rp_score :: rat
  rp_tasks_completed :: nat
  rp_tasks_failed :: nat
  rp_peer_ratings :: "rat list"
  rp_last_updated :: int

datatype lattice_error =
    EmptyId
  | RatingOutOfRange
  | BadLimit
  | BadProposalType
  | BadQuorum
  | BadTtl
  | BadDecision
  | UnknownProposal
  | AlreadyResolved str

definition reputation_window :: nat where
  "reputation_window = 20"

definition trusted_voters :: "str list" where
  "trusted_voters = [''butler'', ''user'']"

definition baseline :: "str \<Rightarrow> int \<Rightarrow> reputation" where
  "baseline a now = \<lparr>rp_agent_id = a, rp_score = 1 / 2, rp_tasks_completed = 0, rp_tasks_failed = 0,
     rp_peer_ratings = [], rp_last_updated = now\<rparr>"

type_synonym reputations = "(str \<times> reputation) list"

definition stored_or_baseline :: "str \<Rightarrow> int \<Rightarrow> reputations \<Rightarrow> reputation" where
  "stored_or_baseline a now rs = (case map_of rs a of Some r \<Rightarrow> r | None \<Rightarrow> baseline a now)"

definition compute_score :: "reputation \<Rightarrow> rat" where
  "compute_score r =
     (let total = rp_tasks_completed r + rp_tasks_failed r;
          window = last_n reputation_window (rp_peer_ratings r)
      in if total = 0 \<and> window = [] then 1 / 2
         else if total = 0 then sum_list window / of_nat (length window)
         else let success_rate = of_nat (rp_tasks_completed r) / of_nat total in
           if window = [] then success_rate
           else 6 / 10 * success_rate + 4 / 10 * (sum_list window / of_nat (length window)))"

definition rescored :: "reputation \<Rightarrow> reputation" where
  "rescored r = r\<lparr>rp_score := compute_score r\<rparr>"

definition record_task_completion :: "str \<Rightarrow> bool \<Rightarrow> rat option \<Rightarrow> int \<Rightarrow> reputations
    \<Rightarrow> (reputations, lattice_error, reputation) outcome" where
  "record_task_completion a success rating now rs =
     (if a = [] then (Inl EmptyId, rs)
      else if (case rating of Some x \<Rightarrow> \<not> (0 \<le> x \<and> x \<le> 1) | None \<Rightarrow> False) then (Inl RatingOutOfRange, rs)
      else
        let rep = stored_or_baseline a now rs;
            ratings = (case rating of
                Some x \<Rightarrow> last_n reputation_window (rp_peer_ratings rep @ [x])
              | None \<Rightarrow> rp_peer_ratings rep);
            updated = rescored \<lparr>rp_agent_id = a, rp_score = 1 / 2,
              rp_tasks_completed = rp_tasks_completed rep + (if success then 1 else 0),
              rp_tasks_failed = rp_tasks_failed rep + (if success then 0 else 1),
              rp_peer_ratings = ratings, rp_last_updated = now\<rparr>
        in (Inr updated, AList.update a updated rs))"

definition get_reputation :: "str \<Rightarrow> int \<Rightarrow> reputations \<Rightarrow> (lattice_error, reputation) res" where
  "get_reputation a now rs = (if a = [] then Inl EmptyId else Inr (stored_or_baseline a now rs))"

definition get_leaderboard :: "int \<Rightarrow> reputations \<Rightarrow> (lattice_error, reputation list) res" where
  "get_leaderboard limit rs =
     (if limit \<le> 0 then Inl BadLimit else Inr (take (nat limit) (sorted_rev_by rp_score (map snd rs))))"

definition vote_weight :: "str \<Rightarrow> int \<Rightarrow> reputations \<Rightarrow> (lattice_error, rat) res" where
  "vote_weight v now rs =
     (if v = [] then Inl EmptyId
      else if py_lower (py_strip v) \<in> set trusted_voters then Inr 1
      else map_sum id rp_score (get_reputation v now rs))"

definition submit_peer_rating :: "str \<Rightarrow> str \<Rightarrow> rat \<Rightarrow> int \<Rightarrow> reputations
    \<Rightarrow> (reputations, lattice_error, bool) outcome" where
  "submit_peer_rating rater ratee rating now rs =
     (if rater = [] then (Inl EmptyId, rs)
      else if ratee = [] then (Inl EmptyId, rs)
      else if \<not> (0 \<le> rating \<and> rating \<le> 1) then (Inl RatingOutOfRange, rs)
      else
        let rep = stored_or_baseline ratee now rs;
            updated = rescored \<lparr>rp_agent_id = ratee, rp_score = 1 / 2,
              rp_tasks_completed = rp_tasks_completed rep, rp_tasks_failed = rp_tasks_failed rep,
              rp_peer_ratings = last_n reputation_window (rp_peer_ratings rep @ [rating]),
              rp_last_updated = now\<rparr>
        in (Inr True, AList.update ratee updated rs))"

datatype reputation_op =
    RecordTask str bool "rat option" int
  | SubmitRating str str rat int

fun reputation_step :: "reputation_op \<Rightarrow> reputations \<Rightarrow> reputations" where
  "reputation_step (RecordTask a ok rating now) rs = snd (record_task_completion a ok rating now rs)"
| "reputation_step (SubmitRating rater ratee x now) rs = snd (submit_peer_rating rater ratee x now rs)"

section \<open>Governance\<close>

record vote =
  vt_voter_id :: str
  vt_proposal_id :: str
  vt_decision :: str
  vt_evidence :: "str list"
  vt_weight :: rat
  vt_timestamp :: int

datatype proposal_status = ProposalOpen | Passed | Denied | Expired

fun status_text :: "proposal_status \<Rightarrow> str" where
  "status_text ProposalOpen = ''open''"
| "status_text Passed = ''passed''"
| "status_text Denied = ''denied''"
| "status_text Expired = ''expired''"

record proposal =
  pr_proposal_id :: str
  pr_proposer_id :: str
  pr_proposal_type :: str
  pr_quorum_required :: rat
  pr_votes :: "vote list"
  pr_status :: proposal_status
  pr_expires_at :: int

record governance =
  gv_proposals :: "(str \<times> proposal) list"
  gv_payloads :: "(str \<times> (str \<times> json) list) list"

definition proposal_types :: "str list" where
  "proposal_types = [''spawn_agent'', ''replace_agent'', ''policy_change'', ''agent_restart'']"

definition vote_decisions :: "str list" where
  "vote_decisions = [''approve'', ''deny'', ''abstain'']"

definition submit_proposal :: "str \<Rightarrow> str \<Rightarrow> str \<Rightarrow> (str \<times> json) list \<Rightarrow> rat \<Rightarrow> int \<Rightarrow> int \<Rightarrow> governance
    \<Rightarrow> (governance, lattice_error, str) outcome" where
  "submit_proposal new_id proposer kind payload quorum ttl now g =
     (if proposer = [] then (Inl EmptyId, g)
      else if kind \<notin> set proposal_types then (Inl BadProposalType, g)
      else if \<not> (0 < quorum \<and> quorum \<le> 1) then (Inl BadQuorum, g)
      else if ttl \<le> 0 then (Inl BadTtl, g)
      else
        let p = \<lparr>pr_proposal_id = new_id, pr_proposer_id = proposer, pr_proposal_type = kind,
              pr_quorum_required = quorum, pr_votes = [], pr_status = ProposalOpen, pr_expires_at = now + ttl\<rparr>
        in (Inr new_id, g\<lparr>gv_proposals := AList.update new_id p (gv_proposals g),
              gv_payloads := AList.update new_id payload (gv_payloads g)\<rparr>))"

definition is_expired_at :: "int \<Rightarrow> proposal \<Rightarrow> bool" where
  "is_expired_at now p = (pr_expires_at p \<le> now)"

definition mark :: "proposal_status \<Rightarrow> proposal \<Rightarrow> proposal" where
  "mark s p = p\<lparr>pr_status := s\<rparr>"

definition tally :: "proposal \<Rightarrow> rat \<times> rat" where
  "tally p =
     (sum_list (map vt_weight (filter (\<lambda>v. vt_decision v = ''approve'') (pr_votes p))),
      sum_list (map vt_weight (filter (\<lambda>v. vt_decision v = ''deny'') (pr_votes p))))"

definition approve_ratio :: "proposal \<Rightarrow> rat option" where
  "approve_ratio p = (case tally p of (a, d) \<Rightarrow> if a + d \<le> 0 then None else Some (a / (a + d)))"

definition meets_quorum :: "proposal \<Rightarrow> bool" where
  "meets_quorum p = (case approve_ratio p of None \<Rightarrow> False | Some r \<Rightarrow> pr_quorum_required p \<le> r)"

definition apply_quorum :: "proposal \<Rightarrow> bool \<times> proposal" where
  "apply_quorum p = (if meets_quorum p then (True, mark Passed p) else (False, p))"

text \<open>The answer of \<open>cast_vote\<close>: the status and whether the quorum was reached.\<close>

type_synonym vote_result = "proposal_status \<times> bool"

definition put_proposal :: "str \<Rightarrow> proposal \<Rightarrow> governance \<Rightarrow> governance" where
  "put_proposal pid p g = g\<lparr>gv_proposals := AList.update pid p (gv_proposals g)\<rparr>"

definition with_ballot :: "str \<Rightarrow> str \<Rightarrow> str \<Rightarrow> str list \<Rightarrow> rat \<Rightarrow> int \<Rightarrow> proposal \<Rightarrow> proposal" where
  "with_ballot voter pid decision evidence weight now p =
     p\<lparr>pr_votes := filter (\<lambda>v. vt_voter_id v \<noteq> voter) (pr_votes p) @
       [\<lparr>vt_voter_id = voter, vt_proposal_id = pid, vt_decision = decision, vt_evidence = evidence,
         vt_weight = weight, vt_timestamp = now\<rparr>]\<rparr>"

definition cast_vote :: "str \<Rightarrow> str \<Rightarrow> str \<Rightarrow> str list \<Rightarrow> rat \<Rightarrow> int \<Rightarrow> governance
    \<Rightarrow> (governance, lattice_error, vote_result) outcome" where
  "cast_vote voter pid decision evidence weight now g =
     (if voter = [] then (Inl EmptyId, g)
      else if decision \<notin> set vote_decisions then (Inl BadDecision, g)
      else case map_of (gv_proposals g) pid of
          None \<Rightarrow> (Inl UnknownProposal, g)
        | Some p \<Rightarrow>
            if pr_status p \<noteq> ProposalOpen then
              if pr_status p = Expired \<or> is_expired_at now p
              then (Inr (Expired, False), put_proposal pid (mark Expired p) g)
              else (Inl (AlreadyResolved (status_text (pr_status p))), g)
            else if is_expired_at now p
            then (Inr (Expired, False), put_proposal pid (mark Expired p) g)
            else
              let q = with_ballot voter pid decision evidence weight now p;
                  (resolved, q') =
                    (if py_lower (py_strip voter) = ''user'' \<and> decision \<in> {''approve'', ''deny''}
                     then (True, mark (if decision = ''approve'' then Passed else Denied) q)
                     else apply_quorum q)
              in (Inr (pr_status q', resolved \<and> pr_status q' = Passed), put_proposal pid q' g))"

definition resolve_proposal :: "str \<Rightarrow> int \<Rightarrow> governance \<Rightarrow> (governance, lattice_error, proposal_status) outcome" where
  "resolve_proposal pid now g =
     (case map_of (gv_proposals g) pid of
        None \<Rightarrow> (Inl UnknownProposal, g)
      | Some p \<Rightarrow>
          if pr_status p \<noteq> ProposalOpen then (Inr (pr_status p), g)
          else
            let s = (if is_expired_at now p then Expired
                     else if approve_ratio p \<noteq> None \<and> meets_quorum p then Passed
                     else Denied)
            in (Inr s, put_proposal pid (mark s p) g))"

definition check_quorum :: "str \<Rightarrow> int \<Rightarrow> governance \<Rightarrow> (governance, lattice_error, bool) outcome" where
  "check_quorum pid now g =
     (case map_of (gv_proposals g) pid of
        None \<Rightarrow> (Inl UnknownProposal, g)
      | Some p \<Rightarrow>
          if pr_status p \<noteq> ProposalOpen then (Inr (pr_status p = Passed), g)
          else if is_expired_at now p then (Inr False, put_proposal pid (mark Expired p) g)
          else if meets_quorum p then (Inr True, put_proposal pid (mark Passed p) g)
          else (Inr False, g))"

definition get_proposal_status :: "str \<Rightarrow> governance \<Rightarrow> (lattice_error, proposal) res" where
  "get_proposal_status pid g =
     (case map_of (gv_proposals g) pid of None \<Rightarrow> Inl UnknownProposal | Some p \<Rightarrow> Inr p)"

definition list_open_proposals :: "governance \<Rightarrow> proposal list" where
  "list_open_proposals g = filter (\<lambda>p. pr_status p = ProposalOpen) (map snd (gv_proposals g))"

datatype governance_op =
    Submit str str str "(str \<times> json) list" rat int int
  | CastVote str str str "str list" rat int
  | Resolve str int
  | CheckQuorum str int

fun governance_step :: "governance_op \<Rightarrow> governance \<Rightarrow> governance" where
  "governance_step (Submit i p k pl q ttl now) g = snd (submit_proposal i p k pl q ttl now g)"
| "governance_step (CastVote v i d ev w now) g = snd (cast_vote v i d ev w now g)"
| "governance_step (Resolve i now) g = snd (resolve_proposal i now g)"
| "governance_step (CheckQuorum i now) g = snd (check_quorum i now g)"

text \<open>The two engines together. A vote that has read its weight waits for the lock; other votes, and
  outcomes and ratings that change reputations, may come first.\<close>

record ballot =
  bl_voter :: str
  bl_proposal :: str
  bl_decision :: str
  bl_evidence :: "str list"
  bl_weight :: rat

record lattice =
  lt_reputations :: reputations
  lt_governance :: governance
  lt_waiting :: "ballot list"

definition new_lattice :: lattice where
  "new_lattice = \<lparr>lt_reputations = [], lt_governance = \<lparr>gv_proposals = [], gv_payloads = []\<rparr>, lt_waiting = []\<rparr>"

datatype lattice_op =
    Reputation_Op reputation_op
  | Submit_Op str str str "(str \<times> json) list" rat int int
  | Resolve_Op str int
  | Check_Op str int
  | Weigh_Op str str str "str list" int
  | Cast_Op nat int

definition weigh_vote :: "str \<Rightarrow> str \<Rightarrow> str \<Rightarrow> str list \<Rightarrow> int \<Rightarrow> lattice \<Rightarrow> lattice" where
  "weigh_vote voter pid decision evidence now s =
     (if voter = [] \<or> decision \<notin> set vote_decisions then s
      else case vote_weight voter now (lt_reputations s) of
          Inl _ \<Rightarrow> s
        | Inr w \<Rightarrow> s\<lparr>lt_waiting := lt_waiting s @ [\<lparr>bl_voter = voter, bl_proposal = pid, bl_decision = decision,
            bl_evidence = evidence, bl_weight = w\<rparr>]\<rparr>)"

definition cast_waiting :: "nat \<Rightarrow> int \<Rightarrow> lattice \<Rightarrow> lattice" where
  "cast_waiting n now s =
     (if n < length (lt_waiting s)
      then let b = lt_waiting s ! n in
        s\<lparr>lt_governance := snd (cast_vote (bl_voter b) (bl_proposal b) (bl_decision b) (bl_evidence b) (bl_weight b) now
              (lt_governance s)),
          lt_waiting := take n (lt_waiting s) @ drop (n + 1) (lt_waiting s)\<rparr>
      else s)"

fun lattice_step :: "lattice_op \<Rightarrow> lattice \<Rightarrow> lattice" where
  "lattice_step (Reputation_Op x) s = s\<lparr>lt_reputations := reputation_step x (lt_reputations s)\<rparr>"
| "lattice_step (Submit_Op i p k pl q ttl now) s = s\<lparr>lt_governance := governance_step (Submit i p k pl q ttl now) (lt_governance s)\<rparr>"
| "lattice_step (Resolve_Op i now) s = s\<lparr>lt_governance := governance_step (Resolve i now) (lt_governance s)\<rparr>"
| "lattice_step (Check_Op i now) s = s\<lparr>lt_governance := governance_step (CheckQuorum i now) (lt_governance s)\<rparr>"
| "lattice_step (Weigh_Op v i d ev now) s = weigh_vote v i d ev now s"
| "lattice_step (Cast_Op n now) s = cast_waiting n now s"

section \<open>Lemmas\<close>

subsection \<open>Scores\<close>

definition unit_interval :: "rat \<Rightarrow> bool" where
  "unit_interval x \<longleftrightarrow> 0 \<le> x \<and> x \<le> 1"

lemma average_unit:
  assumes "\<forall>x \<in> set xs. unit_interval x" "xs \<noteq> []"
  shows "unit_interval (sum_list xs / of_nat (length xs))"
proof -
  have "0 \<le> sum_list xs \<and> sum_list xs \<le> of_nat (length xs)"
    using assms(1) by (induction xs) (auto simp: unit_interval_def)
  then show ?thesis using assms(2) by (simp add: unit_interval_def)
qed

lemma mix_unit: "unit_interval x \<Longrightarrow> unit_interval y \<Longrightarrow> unit_interval (6 / 10 * x + 4 / 10 * y)"
  by (simp add: unit_interval_def)

lemma compute_score_unit:
  assumes "\<forall>x \<in> set (rp_peer_ratings r). unit_interval x"
  shows "unit_interval (compute_score r)"
proof -
  let ?w = "last_n reputation_window (rp_peer_ratings r)"
  have w: "\<forall>x \<in> set ?w. unit_interval x"
    using assms set_last_n [of reputation_window "rp_peer_ratings r"] by auto
  define rate :: rat where "rate = of_nat (rp_tasks_completed r) / of_nat (rp_tasks_completed r + rp_tasks_failed r)"
  define avg where "avg = sum_list ?w / of_nat (length ?w)"
  have rate: "unit_interval rate"
    by (cases "rp_tasks_completed r + rp_tasks_failed r = 0") (auto simp: unit_interval_def rate_def divide_le_eq_1)
  have avg: "?w \<noteq> [] \<Longrightarrow> unit_interval avg" using average_unit [OF w] by (simp add: avg_def)
  have "compute_score r =
      (if rp_tasks_completed r + rp_tasks_failed r = 0 \<and> ?w = [] then 1 / 2
       else if rp_tasks_completed r + rp_tasks_failed r = 0 then avg
       else if ?w = [] then rate else 6 / 10 * rate + 4 / 10 * avg)"
    unfolding compute_score_def Let_def rate_def avg_def ..
  with rate avg mix_unit [OF rate avg] show ?thesis by (simp add: unit_interval_def [of "1 / 2"])
qed

definition rep_ok :: "str \<Rightarrow> reputation \<Rightarrow> bool" where
  "rep_ok a r \<longleftrightarrow> rp_agent_id r = a \<and> (\<forall>x \<in> set (rp_peer_ratings r). unit_interval x)
     \<and> length (rp_peer_ratings r) \<le> reputation_window \<and> rp_score r = compute_score r"

definition reps_ok :: "reputations \<Rightarrow> bool" where
  "reps_ok rs \<longleftrightarrow> dict_ok rs \<and> (\<forall>a r. map_of rs a = Some r \<longrightarrow> a \<noteq> [] \<and> rep_ok a r)"

lemma compute_score_score [simp]: "compute_score (r\<lparr>rp_score := x\<rparr>) = compute_score r"
  by (simp add: compute_score_def Let_def)

lemma baseline_ok: "rep_ok a (baseline a now)"
  by (simp add: rep_ok_def baseline_def compute_score_def last_n_def)

lemma stored_ok: "reps_ok rs \<Longrightarrow> rep_ok a (stored_or_baseline a now rs)"
  by (auto simp: reps_ok_def stored_or_baseline_def baseline_ok split: option.splits)

lemma reps_ok_put:
  assumes "reps_ok rs" "a \<noteq> []" "rp_agent_id r = a" "\<forall>x \<in> set (rp_peer_ratings r). unit_interval x"
    "length (rp_peer_ratings r) \<le> reputation_window"
  shows "reps_ok (AList.update a (rescored r) rs)"
  using assms by (auto simp: reps_ok_def rep_ok_def rescored_def split: if_splits)

lemma ratings_snoc:
  assumes "reps_ok rs" "unit_interval x"
  shows "\<forall>y \<in> set (last_n reputation_window (rp_peer_ratings (stored_or_baseline a now rs) @ [x])). unit_interval y"
  using stored_ok [OF assms(1), of a now] assms(2) set_last_n by (fastforce simp: rep_ok_def)

lemma record_task_ok [step_inv]:
  assumes "reps_ok rs"
  shows "reps_ok (snd (record_task_completion a ok rating now rs))"
proof -
  have keep: "\<forall>y \<in> set (rp_peer_ratings (stored_or_baseline a now rs)). unit_interval y"
    "length (rp_peer_ratings (stored_or_baseline a now rs)) \<le> reputation_window"
    using stored_ok [OF assms, of a now] by (auto simp: rep_ok_def)
  show ?thesis
  proof (cases rating)
    case None
    with assms keep show ?thesis
      by (auto simp: record_task_completion_def Let_def intro!: reps_ok_put)
  next
    case (Some x)
    show ?thesis
    proof (cases "unit_interval x")
      case True
      with assms ratings_snoc [OF assms True] Some show ?thesis
        by (auto simp: record_task_completion_def Let_def intro!: reps_ok_put)
    next
      case False
      with assms Some show ?thesis by (simp add: record_task_completion_def unit_interval_def)
    qed
  qed
qed

lemma submit_rating_ok [step_inv]:
  assumes "reps_ok rs"
  shows "reps_ok (snd (submit_peer_rating rater ratee x now rs))"
proof (cases "unit_interval x")
  case True
  with assms ratings_snoc [OF assms True] show ?thesis
    by (auto simp: submit_peer_rating_def Let_def intro!: reps_ok_put)
next
  case False
  with assms show ?thesis by (simp add: submit_peer_rating_def unit_interval_def)
qed

interpretation reputation_runs: op_machine reputation_step reps_ok "\<lambda>_. True"
proof
  fix x rs assume "reps_ok rs"
  then show "reps_ok (reputation_step x rs)" by (cases x) (auto intro: step_inv)
qed

lemma vote_weight_unit: "reps_ok rs \<Longrightarrow> vote_weight v now rs = Inr w \<Longrightarrow> unit_interval w"
proof -
  assume ok: "reps_ok rs" and w: "vote_weight v now rs = Inr w"
  have "rep_ok v (stored_or_baseline v now rs)" by (rule stored_ok [OF ok])
  then have "unit_interval (rp_score (stored_or_baseline v now rs))"
    by (simp add: rep_ok_def compute_score_unit)
  with w show ?thesis
    by (auto simp: vote_weight_def get_reputation_def unit_interval_def split: if_splits)
qed

subsection \<open>Proposals\<close>

text \<open>A proposal that has passed did so on the ballots it still records: either they meet the
  quorum or the human user approved.\<close>

definition user_approved :: "proposal \<Rightarrow> bool" where
  "user_approved p \<longleftrightarrow> (\<exists>v \<in> set (pr_votes p). py_lower (py_strip (vt_voter_id v)) = ''user'' \<and> vt_decision v = ''approve'')"

definition proposal_ok :: "str \<Rightarrow> proposal \<Rightarrow> bool" where
  "proposal_ok pid p \<longleftrightarrow> pr_proposal_id p = pid \<and> pr_proposal_type p \<in> set proposal_types
     \<and> 0 < pr_quorum_required p \<and> pr_quorum_required p \<le> 1
     \<and> distinct (map vt_voter_id (pr_votes p))
     \<and> (\<forall>v \<in> set (pr_votes p). vt_decision v \<in> set vote_decisions \<and> unit_interval (vt_weight v) \<and> vt_voter_id v \<noteq> [])
     \<and> (pr_status p = Passed \<longrightarrow> meets_quorum p \<or> user_approved p)"

definition governance_ok :: "governance \<Rightarrow> bool" where
  "governance_ok g \<longleftrightarrow> dict_ok (gv_proposals g)
     \<and> (\<forall>pid p. map_of (gv_proposals g) pid = Some p \<longrightarrow> proposal_ok pid p)"

fun weights_ok :: "governance_op \<Rightarrow> bool" where
  "weights_ok (CastVote v i d ev w now) = unit_interval w"
| "weights_ok x = True"

lemma mark_simps [simp]:
  "pr_votes (mark s p) = pr_votes p" "pr_quorum_required (mark s p) = pr_quorum_required p"
  "pr_status (mark s p) = s" "pr_proposal_id (mark s p) = pr_proposal_id p"
  "pr_proposal_type (mark s p) = pr_proposal_type p" "pr_expires_at (mark s p) = pr_expires_at p"
  "meets_quorum (mark s p) = meets_quorum p" "user_approved (mark s p) = user_approved p"
  by (simp_all add: mark_def meets_quorum_def approve_ratio_def tally_def user_approved_def)

lemma proposal_ok_mark:
  "proposal_ok pid p \<Longrightarrow> (s = Passed \<Longrightarrow> meets_quorum p \<or> user_approved p) \<Longrightarrow> proposal_ok pid (mark s p)"
  by (auto simp: proposal_ok_def)

lemma governance_ok_put:
  "governance_ok g \<Longrightarrow> proposal_ok pid p \<Longrightarrow> governance_ok (put_proposal pid p g)"
  by (auto simp: governance_ok_def put_proposal_def split: if_splits)

lemma proposal_ok_ballot:
  assumes "proposal_ok pid p" "pr_status p = ProposalOpen" "voter \<noteq> []" "decision \<in> set vote_decisions" "unit_interval w"
  shows "proposal_ok pid (with_ballot voter i decision ev w now p)"
proof -
  have "distinct (map vt_voter_id (filter (\<lambda>v. vt_voter_id v \<noteq> voter) (pr_votes p)))"
    using assms(1) by (simp add: proposal_ok_def distinct_map_filter)
  with assms show ?thesis by (auto simp: proposal_ok_def with_ballot_def)
qed

text \<open>The proposal a vote leaves behind, when the proposal was open and has not expired.\<close>

definition voted :: "str \<Rightarrow> str \<Rightarrow> str \<Rightarrow> str list \<Rightarrow> rat \<Rightarrow> int \<Rightarrow> proposal \<Rightarrow> proposal" where
  "voted voter pid decision evidence weight now p =
     (let q = with_ballot voter pid decision evidence weight now p in
      if py_lower (py_strip voter) = ''user'' \<and> decision \<in> {''approve'', ''deny''}
      then mark (if decision = ''approve'' then Passed else Denied) q
      else if meets_quorum q then mark Passed q else q)"

lemma cast_vote_state:
  "snd (cast_vote voter pid decision ev w now g) =
     (if voter = [] \<or> decision \<notin> set vote_decisions then g
      else case map_of (gv_proposals g) pid of
          None \<Rightarrow> g
        | Some p \<Rightarrow>
            if pr_status p = Expired \<or> is_expired_at now p then put_proposal pid (mark Expired p) g
            else if pr_status p \<noteq> ProposalOpen then g
            else put_proposal pid (voted voter pid decision ev w now p) g)"
  by (simp add: cast_vote_def voted_def apply_quorum_def Let_def split: option.split)

lemma voted_ok:
  assumes "proposal_ok pid p" "pr_status p = ProposalOpen" "voter \<noteq> []" "decision \<in> set vote_decisions" "unit_interval w"
  shows "proposal_ok pid (voted voter pid decision ev w now p)"
proof -
  let ?q = "with_ballot voter pid decision ev w now p"
  have ok: "proposal_ok pid ?q" using assms by (rule proposal_ok_ballot)
  have "user_approved ?q" if "py_lower (py_strip voter) = ''user''" "decision = ''approve''"
    using that by (auto simp: user_approved_def with_ballot_def)
  then show ?thesis using ok by (auto simp: voted_def Let_def intro!: proposal_ok_mark)
qed

lemma governance_step_ok:
  assumes ok: "governance_ok g" and w: "weights_ok x"
  shows "governance_ok (governance_step x g)"
proof (cases x)
  case (Submit i p k pl q ttl now)
  then show ?thesis
    using ok by (auto simp: submit_proposal_def governance_ok_def proposal_ok_def Let_def split: if_splits)
next
  case (CastVote v i d ev wt now)
  with ok w show ?thesis
    by (auto simp: cast_vote_state governance_ok_def [of g] split: option.split
        intro!: governance_ok_put [OF ok] proposal_ok_mark voted_ok)
next
  case (Resolve i now)
  with ok show ?thesis
    by (auto simp: resolve_proposal_def governance_ok_def [of g] Let_def split: option.split
        intro!: governance_ok_put [OF ok] proposal_ok_mark)
next
  case (CheckQuorum i now)
  with ok show ?thesis
    by (auto simp: check_quorum_def governance_ok_def [of g] split: option.split
        intro!: governance_ok_put [OF ok] proposal_ok_mark)
qed

interpretation governance_runs: op_machine governance_step governance_ok weights_ok
  by unfold_locales (rule governance_step_ok)

text \<open>How one proposal moves, as long as its id is not submitted a second time.\<close>

fun not_resubmitted :: "str \<Rightarrow> governance_op \<Rightarrow> bool" where
  "not_resubmitted pid (Submit i p k pl q ttl now) = (i \<noteq> pid)"
| "not_resubmitted pid x = True"

definition proposal_moves :: "proposal \<Rightarrow> proposal \<Rightarrow> bool" where
  "proposal_moves p p' \<longleftrightarrow> pr_quorum_required p' = pr_quorum_required p \<and> pr_expires_at p' = pr_expires_at p
     \<and> (pr_status p \<noteq> ProposalOpen \<longrightarrow> pr_votes p' = pr_votes p \<and> (pr_status p' = pr_status p \<or> pr_status p' = Expired))"

definition governance_below :: "str \<Rightarrow> governance \<Rightarrow> governance \<Rightarrow> bool" where
  "governance_below pid g g' \<longleftrightarrow> (\<forall>p. map_of (gv_proposals g) pid = Some p \<longrightarrow>
     (\<exists>p'. map_of (gv_proposals g') pid = Some p' \<and> proposal_moves p p'))"

lemma below_same: "governance_below pid g g"
  by (simp add: governance_below_def proposal_moves_def)

lemma below_put:
  "(i = pid \<Longrightarrow> map_of (gv_proposals g) pid = Some p \<Longrightarrow> proposal_moves p p') \<Longrightarrow>
     map_of (gv_proposals g) i = Some p \<Longrightarrow> governance_below pid g (put_proposal i p' g)"
  by (auto simp: governance_below_def put_proposal_def proposal_moves_def)

lemma voted_moves: "pr_status p = ProposalOpen \<Longrightarrow> proposal_moves p (voted v i d ev w now p)"
  by (auto simp: proposal_moves_def voted_def with_ballot_def Let_def mark_def)

lemma governance_step_below:
  assumes "not_resubmitted pid x"
  shows "governance_below pid g (governance_step x g)"
proof (cases x)
  case (Submit i p k pl q ttl now)
  with assms show ?thesis
    by (auto simp: submit_proposal_def governance_below_def proposal_moves_def Let_def)
next
  case (CastVote v i d ev w now)
  then show ?thesis
    by (auto simp: cast_vote_state split: option.split intro!: below_same below_put voted_moves)
      (auto simp: proposal_moves_def)
next
  case (Resolve i now)
  then show ?thesis
    by (auto simp: resolve_proposal_def Let_def split: option.split intro!: below_same below_put)
      (auto simp: proposal_moves_def)
next
  case (CheckQuorum i now)
  then show ?thesis
    by (auto simp: check_quorum_def split: option.split intro!: below_same below_put)
      (auto simp: proposal_moves_def)
qed

lemma proposal_moves_trans: "proposal_moves p q \<Longrightarrow> proposal_moves q r \<Longrightarrow> proposal_moves p r"
  by (auto simp: proposal_moves_def)

interpretation proposal_runs: op_progress governance_step "\<lambda>_. True" "not_resubmitted pid" "governance_below pid"
  for pid
  by unfold_locales
    (auto simp: below_same governance_step_below, meson governance_below_def proposal_moves_trans)

section \<open>Properties\<close>

text \<open>Reputation stays in range. After any sequence of outcomes and ratings, refused ones
  included, every stored score is the one \<open>compute_score\<close> gives its record and lies in
  \<open>[0, 1]\<close>, at most the last 20 ratings are kept, and every voter's weight is in \<open>[0, 1]\<close>.\<close>

lemma reputation_in_range:
  "let rs = run_ops reputation_step xs [] in
     (\<forall>a r. map_of rs a = Some r \<longrightarrow> rp_score r = compute_score r \<and> 0 \<le> rp_score r \<and> rp_score r \<le> 1
        \<and> length (rp_peer_ratings r) \<le> 20)
     \<and> (\<forall>v now w. vote_weight v now rs = Inr w \<longrightarrow> 0 \<le> w \<and> w \<le> 1)"
proof -
  let ?rs = "run_ops reputation_step xs []"
  have ok: "reps_ok ?rs" by (rule reputation_runs.run_keeps) (auto simp: list_all_iff reps_ok_def)
  then have "\<forall>a r. map_of ?rs a = Some r \<longrightarrow> rp_score r = compute_score r \<and> unit_interval (rp_score r)
      \<and> length (rp_peer_ratings r) \<le> 20"
    using compute_score_unit by (auto simp: reps_ok_def rep_ok_def reputation_window_def)
  moreover have "\<forall>v now w. vote_weight v now ?rs = Inr w \<longrightarrow> 0 \<le> w \<and> w \<le> 1"
    using vote_weight_unit [OF ok] unfolding unit_interval_def by blast
  ultimately show ?thesis unfolding Let_def unit_interval_def by blast
qed

lemma reputation_in_range_example:
  "vote_weight ''scout'' 0 (run_ops reputation_step [RecordTask ''scout'' True (Some (1 / 2)) 0] []) = Inr (4 / 5)
   \<and> (4 / 5 :: rat) \<le> 1"
proof -
  have "vote_weight ''scout'' 0 (run_ops reputation_step [RecordTask ''scout'' True (Some (1 / 2)) 0] []) = Inr (4 / 5)"
    by (simp add: record_task_completion_def stored_or_baseline_def baseline_def rescored_def
        compute_score_def reputation_window_def last_n_def vote_weight_def get_reputation_def trusted_voters_def
        py_strip_def py_rstrip_def py_lstrip_def py_lower_def py_space_def py_lower_char_def Let_def)
  with reputation_in_range [of "[RecordTask ''scout'' True (Some (1 / 2)) 0]"] show ?thesis
    unfolding Let_def by blast
qed

text \<open>Where the weights come from: a weight the reputation engine gave the voter at some moment of the run.\<close>

definition weighed :: "lattice_op list \<Rightarrow> str \<Rightarrow> rat \<Rightarrow> bool" where
  "weighed xs voter w \<longleftrightarrow> (\<exists>n now. n \<le> length xs
     \<and> vote_weight voter now (lt_reputations (run_ops lattice_step (take n xs) new_lattice)) = Inr w)"

lemma weighed_snoc: "weighed xs voter w \<Longrightarrow> weighed (xs @ [x]) voter w"
  unfolding weighed_def by (elim exE conjE, rule exI, rule exI) (auto simp: le_Suc_eq)

lemma weighed_now:
  "vote_weight voter now (lt_reputations (run_ops lattice_step xs new_lattice)) = Inr w \<Longrightarrow> weighed xs voter w"
  unfolding weighed_def by (intro exI [of _ "length xs"]) auto

text \<open>The ballots of a step are old ones or the one it casts.\<close>

lemma voted_ballots:
  "set (pr_votes (voted voter pid decision ev w now p)) \<subseteq> set (pr_votes p)
     \<union> {\<lparr>vt_voter_id = voter, vt_proposal_id = pid, vt_decision = decision, vt_evidence = ev, vt_weight = w, vt_timestamp = now\<rparr>}"
  by (auto simp: voted_def with_ballot_def Let_def)

definition ballots :: "governance \<Rightarrow> (str \<times> vote) set" where
  "ballots g = {(pid, v). \<exists>p. map_of (gv_proposals g) pid = Some p \<and> v \<in> set (pr_votes p)}"

lemma ballots_put:
  "ballots (put_proposal pid p g) \<subseteq> ballots g \<union> Pair pid ` set (pr_votes p)"
  by (auto simp: ballots_def put_proposal_def split: if_splits)

lemma ballots_same: "map_of (gv_proposals g) pid = Some p \<Longrightarrow> ballots (put_proposal pid (mark s p) g) \<subseteq> ballots g"
  using ballots_put [of pid "mark s p" g] by (auto simp: ballots_def)

lemma ballots_cast:
  "ballots (snd (cast_vote voter pid decision ev w now g)) \<subseteq> ballots g
     \<union> {(pid, \<lparr>vt_voter_id = voter, vt_proposal_id = pid, vt_decision = decision, vt_evidence = ev, vt_weight = w, vt_timestamp = now\<rparr>)}"
proof (cases "map_of (gv_proposals g) pid")
  case (Some p)
  define v where "v = \<lparr>vt_voter_id = voter, vt_proposal_id = pid, vt_decision = decision, vt_evidence = ev, vt_weight = w, vt_timestamp = now\<rparr>"
  have old: "Pair pid ` set (pr_votes p) \<subseteq> ballots g" using Some by (auto simp: ballots_def)
  have "Pair pid ` set (pr_votes (voted voter pid decision ev w now p)) \<subseteq> Pair pid ` (set (pr_votes p) \<union> {v})"
    unfolding v_def by (intro image_mono voted_ballots)
  also have "\<dots> \<subseteq> ballots g \<union> {(pid, v)}"
    unfolding image_Un image_insert image_empty by (rule Un_mono [OF old order_refl])
  finally have "ballots (put_proposal pid (voted voter pid decision ev w now p) g) \<subseteq> ballots g \<union> {(pid, v)}"
    by (intro order_trans [OF ballots_put] Un_least Un_upper1)
  moreover have "ballots (put_proposal pid (mark Expired p) g) \<subseteq> ballots g" by (rule ballots_same [OF Some])
  ultimately show ?thesis unfolding v_def [symmetric] by (simp add: cast_vote_state Some subset_insertI subset_insertI2)
qed (simp add: cast_vote_state subset_insertI)

lemma ballots_others:
  "ballots (snd (submit_proposal i p k pl q ttl now g)) \<subseteq> ballots g"
  "ballots (snd (resolve_proposal i now g)) \<subseteq> ballots g"
  "ballots (snd (check_quorum i now g)) \<subseteq> ballots g"
  using ballots_same by (fastforce simp: submit_proposal_def ballots_def Let_def split: if_splits,
    simp_all add: resolve_proposal_def check_quorum_def Let_def split: option.split)

definition lattice_ok :: "lattice_op list \<Rightarrow> lattice \<Rightarrow> bool" where
  "lattice_ok xs s \<longleftrightarrow> reps_ok (lt_reputations s) \<and> governance_ok (lt_governance s)
     \<and> (\<forall>b \<in> set (lt_waiting s). weighed xs (bl_voter b) (bl_weight b) \<and> unit_interval (bl_weight b))
     \<and> (\<forall>(pid, v) \<in> ballots (lt_governance s). vt_proposal_id v = pid \<and> weighed xs (vt_voter_id v) (vt_weight v))"

lemma lattice_ok_snoc: "lattice_ok xs s \<Longrightarrow> lattice_ok (xs @ [x]) s"
  using weighed_snoc by (fastforce simp: lattice_ok_def)

lemma lattice_ok_governance:
  assumes "lattice_ok xs s" "governance_ok g" "ballots g \<subseteq> ballots (lt_governance s)"
  shows "lattice_ok xs (s\<lparr>lt_governance := g\<rparr>)"
  using assms by (auto simp: lattice_ok_def)

lemma lattice_ok_weigh:
  assumes ok: "lattice_ok xs s" and s: "s = run_ops lattice_step xs new_lattice"
  shows "lattice_ok xs (weigh_vote voter pid decision ev now s)"
proof (cases "vote_weight voter now (lt_reputations s)")
  case (Inr w)
  then have "weighed xs voter w" "unit_interval w"
    using ok weighed_now [of voter now xs w] vote_weight_unit [of "lt_reputations s" voter now w] unfolding s [symmetric]
    by (simp_all add: lattice_ok_def)
  with ok Inr show ?thesis by (auto simp: weigh_vote_def lattice_ok_def)
qed (use ok in \<open>simp add: weigh_vote_def\<close>)

lemma lattice_ok_cast:
  assumes ok: "lattice_ok xs s"
  shows "lattice_ok xs (cast_waiting n now s)"
proof (cases "n < length (lt_waiting s)")
  case True
  define b where "b = lt_waiting s ! n"
  define g where "g = snd (cast_vote (bl_voter b) (bl_proposal b) (bl_decision b) (bl_evidence b) (bl_weight b) now (lt_governance s))"
  have "b \<in> set (lt_waiting s)" using True by (simp add: b_def)
  then have b: "weighed xs (bl_voter b) (bl_weight b)" "unit_interval (bl_weight b)" using ok by (auto simp: lattice_ok_def)
  have "governance_ok g"
    using governance_step_ok [of "lt_governance s" "CastVote (bl_voter b) (bl_proposal b) (bl_decision b) (bl_evidence b) (bl_weight b) now"]
      ok b(2) by (simp add: g_def lattice_ok_def)
  moreover have "\<forall>(pid, v) \<in> ballots g. vt_proposal_id v = pid \<and> weighed xs (vt_voter_id v) (vt_weight v)"
    using ballots_cast [of "bl_voter b" "bl_proposal b" "bl_decision b" "bl_evidence b" "bl_weight b" now "lt_governance s"] ok b(1)
    unfolding g_def [symmetric] lattice_ok_def by auto
  moreover have "\<forall>b \<in> set (take n (lt_waiting s) @ drop (n + 1) (lt_waiting s)). weighed xs (bl_voter b) (bl_weight b) \<and> unit_interval (bl_weight b)"
    using ok unfolding lattice_ok_def by (auto dest!: in_set_takeD in_set_dropD)
  ultimately show ?thesis
    using ok True by (simp add: cast_waiting_def lattice_ok_def Let_def b_def [symmetric] g_def [symmetric])
qed (use ok in \<open>simp add: cast_waiting_def\<close>)

lemma reachable_lattice_ok: "lattice_ok xs (run_ops lattice_step xs new_lattice)"
proof (induction xs rule: rev_induct)
  case Nil
  show ?case by (simp add: lattice_ok_def new_lattice_def reps_ok_def governance_ok_def ballots_def)
next
  case (snoc x xs)
  let ?s = "run_ops lattice_step xs new_lattice"
  have gov: "governance_ok (governance_step y (lt_governance ?s))" if "weights_ok y" for y
    using snoc.IH that by (auto simp: lattice_ok_def intro: governance_step_ok)
  have "lattice_ok xs (lattice_step x ?s)"
  proof (cases x)
    case (Reputation_Op y)
    have "reps_ok (reputation_step y (lt_reputations ?s))"
      using snoc.IH by (cases y) (auto simp: lattice_ok_def intro: step_inv)
    with snoc.IH show ?thesis by (simp add: Reputation_Op lattice_ok_def)
  next
    case (Weigh_Op v i d ev now)
    with lattice_ok_weigh [OF snoc.IH refl] show ?thesis by simp
  next
    case (Cast_Op n now)
    with lattice_ok_cast [OF snoc.IH] show ?thesis by simp
  next
    case (Submit_Op i p k pl q ttl now)
    with snoc.IH gov [of "Submit i p k pl q ttl now"] ballots_others(1) show ?thesis by (simp add: lattice_ok_governance)
  next
    case (Resolve_Op i now)
    with snoc.IH gov [of "Resolve i now"] ballots_others(2) show ?thesis by (simp add: lattice_ok_governance)
  next
    case (Check_Op i now)
    with snoc.IH gov [of "CheckQuorum i now"] ballots_others(3) show ?thesis by (simp add: lattice_ok_governance)
  qed
  then show ?case by (simp add: run_ops_append lattice_ok_snoc)
qed

text \<open>C35: Ballots carry the weights of the reputation engine. However outcomes, ratings, submissions,
  resolutions and votes interleave, with anything between the moment a vote reads its weight and the
  moment it is cast: every ballot a proposal records names that proposal and one of the three
  decisions, its weight is the one the reputation engine gave its voter at some moment of the run and
  lies in [0, 1], and no voter has two ballots on a proposal.\<close>

theorem ballots_are_weighed:
  assumes "map_of (gv_proposals (lt_governance (run_ops lattice_step xs new_lattice))) pid = Some p"
    and "v \<in> set (pr_votes p)"
  shows "(\<exists>n now. n \<le> length xs \<and>
        vote_weight (vt_voter_id v) now (lt_reputations (run_ops lattice_step (take n xs) new_lattice)) = Inr (vt_weight v))
    \<and> 0 \<le> vt_weight v \<and> vt_weight v \<le> 1 \<and> vt_proposal_id v = pid \<and> vt_decision v \<in> {''approve'', ''deny'', ''abstain''}
    \<and> distinct (map vt_voter_id (pr_votes p))"
proof -
  have "(pid, v) \<in> ballots (lt_governance (run_ops lattice_step xs new_lattice))"
    using assms by (auto simp: ballots_def)
  moreover have "proposal_ok pid p"
    using assms(1) reachable_lattice_ok [of xs] by (simp add: lattice_ok_def governance_ok_def)
  ultimately show ?thesis
    using reachable_lattice_ok [of xs] assms(2)
    by (auto simp: lattice_ok_def weighed_def proposal_ok_def unit_interval_def vote_decisions_def)
qed

text \<open>A proposal passes only on its recorded ballots. In every reachable state each voter id
  has one ballot, all weights are in \<open>[0, 1]\<close>, and a proposal marked passed either meets its
  quorum by the ballots it records or records an approval of the human user.\<close>

lemma passed_is_justified:
  assumes "list_all weights_ok xs"
    and "map_of (gv_proposals (run_ops governance_step xs \<lparr>gv_proposals = [], gv_payloads = []\<rparr>)) pid = Some p"
  shows "distinct (map vt_voter_id (pr_votes p)) \<and> (\<forall>v \<in> set (pr_votes p). 0 \<le> vt_weight v \<and> vt_weight v \<le> 1)
    \<and> (pr_status p = Passed \<longrightarrow>
        (\<exists>r. approve_ratio p = Some r \<and> pr_quorum_required p \<le> r) \<or> user_approved p)"
proof -
  have "governance_ok (run_ops governance_step xs \<lparr>gv_proposals = [], gv_payloads = []\<rparr>)"
    using assms(1) by (rule governance_runs.run_keeps) (simp add: governance_ok_def)
  with assms(2) have "proposal_ok pid p" by (simp add: governance_ok_def)
  then show ?thesis
    by (auto simp: proposal_ok_def unit_interval_def meets_quorum_def split: option.splits)
qed

lemmas governance_eval =
  submit_proposal_def cast_vote_def proposal_types_def vote_decisions_def is_expired_at_def with_ballot_def
  apply_quorum_def meets_quorum_def approve_ratio_def tally_def mark_def put_proposal_def
  py_strip_def py_rstrip_def py_lstrip_def py_lower_def py_space_def py_lower_char_def

definition demo_submit :: governance_op where
  "demo_submit = Submit ''prop_1'' ''scout'' ''spawn_agent'' [] (66 / 100) 3600 0"

lemma passed_is_justified_example:
  "\<exists>p. map_of (gv_proposals (run_ops governance_step [demo_submit, CastVote ''scout'' ''prop_1'' ''approve'' [] (1 / 2) 1]
       \<lparr>gv_proposals = [], gv_payloads = []\<rparr>)) ''prop_1'' = Some p
     \<and> pr_status p = Passed \<and> distinct (map vt_voter_id (pr_votes p))"
proof -
  let ?xs = "[demo_submit, CastVote ''scout'' ''prop_1'' ''approve'' [] (1 / 2) 1]"
  have "\<exists>p. map_of (gv_proposals (run_ops governance_step ?xs \<lparr>gv_proposals = [], gv_payloads = []\<rparr>)) ''prop_1'' = Some p
      \<and> pr_status p = Passed"
    by (simp add: demo_submit_def governance_eval Let_def)
  moreover have "list_all weights_ok ?xs" by (simp add: demo_submit_def unit_interval_def)
  ultimately show ?thesis using passed_is_justified by blast
qed

definition demo_lattice_run :: "lattice_op list" where
  "demo_lattice_run = [Submit_Op ''prop_1'' ''ann'' ''spawn_agent'' [] 1 3600 0, Weigh_Op ''scout'' ''prop_1'' ''deny'' [] 1,
     Reputation_Op (RecordTask ''scout'' True None 2), Cast_Op 0 3]"

theorem ballots_are_weighed_witness:
  "\<exists>n now. n \<le> 4 \<and> vote_weight ''scout'' now (lt_reputations (run_ops lattice_step (take n demo_lattice_run) new_lattice)) = Inr (1 / 2)"
proof -
  let ?v = "\<lparr>vt_voter_id = ''scout'', vt_proposal_id = ''prop_1'', vt_decision = ''deny'', vt_evidence = [], vt_weight = 1 / 2, vt_timestamp = 3\<rparr>"
  have "\<exists>p. map_of (gv_proposals (lt_governance (run_ops lattice_step demo_lattice_run new_lattice))) ''prop_1'' = Some p \<and> ?v \<in> set (pr_votes p)"
    by (simp add: demo_lattice_run_def new_lattice_def governance_eval weigh_vote_def cast_waiting_def vote_weight_def
        get_reputation_def stored_or_baseline_def baseline_def trusted_voters_def Let_def)
  moreover have "length demo_lattice_run = 4" by (simp add: demo_lattice_run_def)
  ultimately show ?thesis using ballots_are_weighed [of demo_lattice_run "''prop_1''" _ ?v] by force
qed

text \<open>The outcome of a resolved proposal is final but for expiry. Once a proposal is not open,
  no operation changes its ballots, and its status stays what it is or becomes expired.\<close>

lemma resolution_is_final:
  assumes "list_all (not_resubmitted pid) xs" "map_of (gv_proposals g) pid = Some p" "pr_status p \<noteq> ProposalOpen"
  shows "\<exists>p'. map_of (gv_proposals (run_ops governance_step xs g)) pid = Some p'
    \<and> pr_votes p' = pr_votes p \<and> (pr_status p' = pr_status p \<or> pr_status p' = Expired)"
  using proposal_runs.run_advances [OF assms(1), of g] assms(2,3)
  by (auto simp: governance_below_def proposal_moves_def)

definition demo_passed :: proposal where
  "demo_passed = \<lparr>pr_proposal_id = ''prop_1'', pr_proposer_id = ''scout'', pr_proposal_type = ''spawn_agent'',
     pr_quorum_required = 66 / 100, pr_votes = [], pr_status = Passed, pr_expires_at = 3600\<rparr>"

lemma resolution_is_final_example:
  "\<exists>p'. map_of (gv_proposals (run_ops governance_step [CastVote ''scout'' ''prop_1'' ''deny'' [] 1 5]
       \<lparr>gv_proposals = [(''prop_1'', demo_passed)], gv_payloads = []\<rparr>)) ''prop_1'' = Some p'
     \<and> pr_votes p' = []"
  using resolution_is_final [of "''prop_1''" "[CastVote ''scout'' ''prop_1'' ''deny'' [] 1 5]"
    "\<lparr>gv_proposals = [(''prop_1'', demo_passed)], gv_payloads = []\<rparr>" demo_passed]
  by (auto simp: demo_passed_def)

text \<open>The exception is real. A vote that arrives after the expiry time on a proposal that has
  passed, or was denied, does not raise: it overwrites the outcome with expired.\<close>

lemma late_vote_overwrites_outcome:
  assumes "map_of (gv_proposals g) pid = Some p" "pr_status p \<in> {Passed, Denied}" "pr_expires_at p \<le> now"
    and "voter \<noteq> []" "decision \<in> set vote_decisions"
  shows "fst (cast_vote voter pid decision ev w now g) = Inr (Expired, False)
    \<and> (\<exists>p'. map_of (gv_proposals (snd (cast_vote voter pid decision ev w now g))) pid = Some p' \<and> pr_status p' = Expired)"
  using assms by (auto simp: cast_vote_def is_expired_at_def put_proposal_def)

lemma late_vote_overwrites_outcome_example:
  "fst (cast_vote ''scout'' ''prop_1'' ''approve'' [] 1 4000
     \<lparr>gv_proposals = [(''prop_1'', demo_passed)], gv_payloads = []\<rparr>) = Inr (Expired, False)"
  using late_vote_overwrites_outcome [of "\<lparr>gv_proposals = [(''prop_1'', demo_passed)], gv_payloads = []\<rparr>"
    "''prop_1''" demo_passed 4000 "''scout''" "''approve''" "[]" 1]
  by (simp add: demo_passed_def vote_decisions_def)

text \<open>One approving ballot is a quorum. On an open proposal with no deny ballot, whatever its
  quorum, the first approval of any voter with a positive weight passes it: the ratio counts only
  the ballots cast.\<close>

lemma single_approval_passes:
  assumes "map_of (gv_proposals g) pid = Some p" "pr_status p = ProposalOpen" "now < pr_expires_at p"
    and "\<forall>v \<in> set (pr_votes p). vt_decision v \<noteq> ''deny'' \<and> 0 \<le> vt_weight v"
    and "pr_quorum_required p \<le> 1" "voter \<noteq> []" "0 < w"
  shows "fst (cast_vote voter pid ''approve'' ev w now g) = Inr (Passed, True)"
proof -
  let ?q = "with_ballot voter pid ''approve'' ev w now p"
  let ?old = "filter (\<lambda>v. vt_voter_id v \<noteq> voter) (pr_votes p)"
  have "0 \<le> sum_list (map vt_weight (filter (\<lambda>v. vt_decision v = ''approve'') ?old))"
    using assms(4) by (intro sum_list_nonneg) auto
  moreover have "filter (\<lambda>v. vt_decision v = ''deny'') ?old = []"
    using assms(4) by (auto simp: filter_empty_conv)
  ultimately have "approve_ratio ?q = Some 1"
    using assms(7) by (simp add: approve_ratio_def tally_def with_ballot_def)
  then have "meets_quorum ?q" using assms(5) by (simp add: meets_quorum_def with_ballot_def)
  with assms show ?thesis
    by (simp add: cast_vote_def vote_decisions_def is_expired_at_def apply_quorum_def Let_def)
qed

lemma single_approval_passes_example:
  "fst (cast_vote ''anyone'' ''prop_1'' ''approve'' [] (1 / 2) 1
     (governance_step (Submit ''prop_1'' ''scout'' ''policy_change'' [] 1 3600 0) \<lparr>gv_proposals = [], gv_payloads = []\<rparr>))
     = Inr (Passed, True)"
proof -
  let ?p = "\<lparr>pr_proposal_id = ''prop_1'', pr_proposer_id = ''scout'', pr_proposal_type = ''policy_change'',
     pr_quorum_required = 1, pr_votes = [], pr_status = ProposalOpen, pr_expires_at = 3600\<rparr>"
  let ?g = "governance_step (Submit ''prop_1'' ''scout'' ''policy_change'' [] 1 3600 0) \<lparr>gv_proposals = [], gv_payloads = []\<rparr>"
  have "map_of (gv_proposals ?g) ''prop_1'' = Some ?p"
    by (simp add: submit_proposal_def proposal_types_def)
  from single_approval_passes [OF this, of 1 "''anyone''" "1 / 2"] show ?thesis by simp
qed

end
