(* ===== verification/Forge_Merge.thy ===== *)
theory Forge_Merge
  imports Complex_Main Agency_Prelude "HOL-Library.Multiset"
begin

text \<open>
  The gates of the code factory: the merge queue (\<open>src/agency/forge/merge_queue.py\<close>), the
  composed pipeline verdict (\<open>src/agency/forge/pipeline.py\<close>) and the cost ledger
  (\<open>src/agency/forge/cost.py\<close>).

  A gate argument is one of the shapes \<open>_gate_value\<close> distinguishes. Ids and instants that the
  code draws are arguments. A stored JSON document is the report it denotes. Costs are rational
  numbers with exact arithmetic.
\<close>

section \<open>Report stores\<close>

text \<open>Every store of the factory is one table with a primary key: \<open>save\<close> inserts, \<open>load\<close>
  selects by key.\<close>

datatype store_failure = DuplicateKey

definition table_insert :: "('r \<Rightarrow> str) \<Rightarrow> 'r \<Rightarrow> 'r list \<Rightarrow> ('r list, store_failure, str) outcome" where
  "table_insert key r rows =
     (if list_ex (\<lambda>x. key x = key r) rows then (Inl DuplicateKey, rows) else (Inr (key r), rows @ [r]))"

definition table_select :: "('r \<Rightarrow> str) \<Rightarrow> 'r list \<Rightarrow> str \<Rightarrow> 'r option" where
  "table_select key rows k = find (\<lambda>x. key x = k) rows"

interpretation report_table: unique_store "table_select key" "table_insert key" key for key
proof
  fix rows v
  show "table_select key rows (key v) \<noteq> None \<Longrightarrow>
      isl (fst (table_insert key v rows)) \<and> snd (table_insert key v rows) = rows"
    by (auto simp: table_select_def table_insert_def list_ex_iff find_None_iff)
  have snoc: "table_select key (rows @ [v]) k =
      (case table_select key rows k of Some x \<Rightarrow> Some x | None \<Rightarrow> if key v = k then Some v else None)" for k
    by (induction rows) (auto simp: table_select_def)
  show "table_select key rows (key v) = None \<Longrightarrow>
      \<not> isl (fst (table_insert key v rows)) \<and>
      table_select key (snd (table_insert key v rows)) = (table_select key rows)(key v \<mapsto> v)"
    by (auto simp: table_insert_def list_ex_iff snoc fun_eq_iff split: option.splits)
      (auto simp: table_select_def find_None_iff)
qed

section \<open>Merge queue\<close>

text \<open>\<open>str.upper\<close>: the sharp s becomes two letters; the two characters whose upper case lies
  outside the range are kept.\<close>

definition py_upper_char :: "char \<Rightarrow> str" where
  "py_upper_char c = (let n = (of_char c :: nat) in
     if n = 223 then ''SS''
     else if 97 \<le> n \<and> n \<le> 122 \<or> 224 \<le> n \<and> n \<le> 254 \<and> n \<noteq> 247 then [char_of (n - 32)]
     else [c])"

definition py_upper :: "str \<Rightarrow> str" where
  "py_upper s = concat (map py_upper_char s)"

text \<open>An argument that stands for a gate: absent, a bool, a string, an object with a \<open>gate\<close>
  attribute, a mapping (with the \<open>str\<close> of its values, and of itself), anything else by its
  \<open>str\<close>.\<close>

datatype gate_arg =
    GNone
  | GBool bool
  | GStr str
  | GAttr str
  | GDict "(str \<times> str) list" str
  | GOther str

fun gate_value :: "gate_arg \<Rightarrow> str" where
  "gate_value GNone = ''FAIL''"
| "gate_value (GBool b) = (if b then ''PASS'' else ''FAIL'')"
| "gate_value (GStr s) = py_upper s"
| "gate_value (GAttr s) = py_upper s"
| "gate_value (GDict kvs txt) =
     (case map_of kvs ''gate'' of
        Some v \<Rightarrow> py_upper v
      | None \<Rightarrow> (case map_of kvs ''status'' of Some v \<Rightarrow> py_upper v | None \<Rightarrow> py_upper txt))"
| "gate_value (GOther s) = py_upper s"

datatype paths_arg = PNone | POne str | PMany "str list"

fun normalize_paths :: "paths_arg \<Rightarrow> str list" where
  "normalize_paths PNone = []"
| "normalize_paths (POne s) = [s]"
| "normalize_paths (PMany xs) = xs"

definition to_slashes :: "str \<Rightarrow> str" where
  "to_slashes s = map (\<lambda>c. if c = CHR 0x5C then CHR ''/'' else c) s"

text \<open>\<open>lstrip("./")\<close> removes every leading dot and slash.\<close>

definition strip_dots :: "str \<Rightarrow> str" where
  "strip_dots s = dropWhile (\<lambda>c. c = CHR ''.'' \<or> c = CHR ''/'') s"

definition rstrip_slash :: "str \<Rightarrow> str" where
  "rstrip_slash s = rev (dropWhile (\<lambda>c. c = CHR ''/'') (rev s))"

definition norm_path :: "str \<Rightarrow> str" where
  "norm_path path = dropWhile (\<lambda>c. c = CHR ''/'') (strip_dots (to_slashes path))"

definition is_protected :: "str \<Rightarrow> str list \<Rightarrow> bool" where
  "is_protected path protected =
     list_ex (\<lambda>prot. let p = rstrip_slash (to_slashes prot); norm = norm_path path in
       p \<noteq> [] \<and> (norm = p \<or> prefix (p @ ''/'') norm \<or> (suffix ''/'' p \<and> prefix p norm))) protected"

record merge_args =
  mg_inspection :: gate_arg
  mg_security :: gate_arg
  mg_tests :: gate_arg
  mg_review :: gate_arg
  mg_changed_paths :: paths_arg
  mg_protected_paths :: paths_arg
  mg_root :: "str option"
  mg_approved :: bool
  mg_approval :: bool
  mg_approved_protected :: bool
  mg_protected_approved :: bool
  mg_paths :: paths_arg
  mg_protected :: paths_arg
  mg_inspection_gate :: gate_arg
  mg_security_gate :: gate_arg
  mg_test_gate :: gate_arg
  mg_review_gate :: gate_arg

record merge_entry =
  me_entry_id :: str
  me_created_at :: int
  me_changed_paths :: "str list"
  me_protected_paths :: "str list"
  me_touched_protected :: "str list"
  me_approved :: bool

record merge_plan =
  mp_actions :: "str list"
  mp_sealed :: bool
  mp_merge_allowed :: bool

record merge_report =
  mr_report_id :: str
  mr_created_at :: int
  mr_root :: str
  mr_merge_allowed :: bool
  mr_plan :: merge_plan
  mr_entries :: "merge_entry list"
  mr_blocked_reasons :: "str list"
  mr_caveats :: "str list"

definition or_else :: "gate_arg \<Rightarrow> gate_arg \<Rightarrow> gate_arg" where
  "or_else a b = (if a = GNone then b else a)"

definition or_paths :: "paths_arg \<Rightarrow> paths_arg \<Rightarrow> paths_arg" where
  "or_paths a b = (if a = PNone then b else a)"

definition is_approved :: "merge_args \<Rightarrow> bool" where
  "is_approved a = (mg_approved a \<or> mg_approval a \<or> mg_approved_protected a \<or> mg_protected_approved a)"

definition changed_of :: "merge_args \<Rightarrow> str list" where
  "changed_of a = normalize_paths (or_paths (mg_changed_paths a) (mg_paths a))"

definition protected_of :: "merge_args \<Rightarrow> str list" where
  "protected_of a = normalize_paths (or_paths (mg_protected_paths a) (mg_protected a))"

definition touched_of :: "merge_args \<Rightarrow> str list" where
  "touched_of a = filter (\<lambda>p. is_protected p (protected_of a)) (changed_of a)"

definition gates_of :: "merge_args \<Rightarrow> (str \<times> str) list" where
  "gates_of a =
     [(''inspection_gate_not_pass:'', gate_value (or_else (mg_inspection a) (mg_inspection_gate a))),
      (''security_gate_not_pass:'', gate_value (or_else (mg_security a) (mg_security_gate a))),
      (''test_gate_not_pass:'', gate_value (or_else (mg_tests a) (mg_test_gate a))),
      (''review_gate_not_pass:'', gate_value (or_else (mg_review a) (mg_review_gate a)))]"

fun comma_join :: "str list \<Rightarrow> str" where
  "comma_join [] = []"
| "comma_join [x] = x"
| "comma_join (x # xs) = x @ '','' @ comma_join xs"

definition blocked_of :: "merge_args \<Rightarrow> str list" where
  "blocked_of a =
     map (\<lambda>g. fst g @ snd g) (filter (\<lambda>g. snd g \<noteq> ''PASS'') (gates_of a)) @
     (if touched_of a \<noteq> [] \<and> \<not> is_approved a
      then [''protected_path_touched_without_approval:'' @ comma_join (touched_of a)] else [])"

definition merge_actions :: "bool \<Rightarrow> str list" where
  "merge_actions allowed =
     [''verify_inspection_gate'', ''verify_security_gate'', ''verify_test_gate'', ''verify_review_gate'',
      ''check_protected_paths'',
      if allowed then ''queue_for_human_merge_approval'' else ''block_merge'',
      ''never_auto_merge'']"

definition evaluate_merge :: "str \<Rightarrow> str \<Rightarrow> int \<Rightarrow> merge_args \<Rightarrow> merge_report" where
  "evaluate_merge entry_id report_id now a =
     (let blocked = blocked_of a; allowed = (length blocked = 0) in
      \<lparr>mr_report_id = report_id, mr_created_at = now,
       mr_root = (case mg_root a of Some r \<Rightarrow> r | None \<Rightarrow> []),
       mr_merge_allowed = allowed,
       mr_plan = \<lparr>mp_actions = merge_actions allowed, mp_sealed = True, mp_merge_allowed = allowed\<rparr>,
       mr_entries = [\<lparr>me_entry_id = entry_id, me_created_at = now, me_changed_paths = changed_of a,
         me_protected_paths = protected_of a, me_touched_protected = touched_of a,
         me_approved = is_approved a\<rparr>],
       mr_blocked_reasons = blocked,
       mr_caveats = [''never_auto_merges'', ''human_approval_required'']\<rparr>)"

definition merge_save :: "merge_report \<Rightarrow> merge_report list \<Rightarrow> (merge_report list, store_failure, str) outcome" where
  "merge_save = table_insert mr_report_id"

definition merge_load :: "merge_report list \<Rightarrow> str \<Rightarrow> merge_report option" where
  "merge_load = table_select mr_report_id"

section \<open>Pipeline\<close>

text \<open>The three stages are arguments: each yields a report with a gate.\<close>

record 'i pipeline_report =
  pl_report_id :: str
  pl_created_at :: int
  pl_root :: str
  pl_gate :: str
  pl_inspection :: 'i
  pl_security :: 'i
  pl_tests :: "'i option"
  pl_caveats :: "str list"

datatype pipeline_error = RelativeRoot

definition run_pipeline ::
  "(str \<Rightarrow> str list \<Rightarrow> 'i) \<Rightarrow> (str \<Rightarrow> str list \<Rightarrow> 'i) \<Rightarrow> (str \<Rightarrow> str list \<Rightarrow> int \<Rightarrow> 'i) \<Rightarrow> ('i \<Rightarrow> str)
   \<Rightarrow> str \<Rightarrow> int \<Rightarrow> str \<Rightarrow> str list \<Rightarrow> bool \<Rightarrow> str list option \<Rightarrow> int \<Rightarrow> (pipeline_error, 'i pipeline_report) res" where
  "run_pipeline inspect_changes scan_changes run_tests gate report_id now dir changed flag test_paths timeout =
     (if \<not> prefix ''/'' dir then Inl RelativeRoot
      else
        let inspection = inspect_changes dir changed;
            security = scan_changes dir changed;
            tests = (if flag then Some (run_tests dir (case test_paths of Some ps \<Rightarrow> ps | None \<Rightarrow> []) timeout) else None);
            overall = (if gate inspection \<noteq> ''PASS'' then ''FAIL''
                       else if gate security \<noteq> ''PASS'' then ''FAIL''
                       else case tests of
                           Some t \<Rightarrow> if gate t \<noteq> ''PASS'' then ''FAIL'' else ''PASS''
                         | None \<Rightarrow> ''PASS'');
            base = [''tests_not_run'', ''security_review_not_run'', ''release_not_authorized''];
            caveats = filter (\<lambda>c. c \<noteq> ''security_review_not_run'')
              (if tests \<noteq> None then filter (\<lambda>c. c \<noteq> ''tests_not_run'') base else base)
        in Inr \<lparr>pl_report_id = report_id, pl_created_at = now, pl_root = dir, pl_gate = overall,
             pl_inspection = inspection, pl_security = security, pl_tests = tests, pl_caveats = caveats\<rparr>)"

definition pipeline_save where
  "pipeline_save = (table_insert :: ('i pipeline_report \<Rightarrow> str) \<Rightarrow> _) pl_report_id"

definition pipeline_load where
  "pipeline_load = (table_select :: ('i pipeline_report \<Rightarrow> str) \<Rightarrow> _) pl_report_id"

section \<open>Cost ledger\<close>

record cost_entry =
  ce_entry_id :: str
  ce_created_at :: int
  ce_run_id :: str
  ce_model :: str
  ce_prompt_tokens :: int
  ce_completion_tokens :: int
  ce_total_tokens :: int
  ce_cost :: rat

datatype cost_error = BadEntry | CostDuplicate

definition cost_entry_ok :: "cost_entry \<Rightarrow> bool" where
  "cost_entry_ok e \<longleftrightarrow> 1 \<le> length (ce_entry_id e) \<and> 1 \<le> length (ce_run_id e) \<and> length (ce_run_id e) \<le> 128
     \<and> 1 \<le> length (ce_model e) \<and> length (ce_model e) \<le> 128 \<and> 0 \<le> ce_prompt_tokens e
     \<and> 0 \<le> ce_completion_tokens e \<and> 0 \<le> ce_total_tokens e \<and> 0 \<le> ce_cost e"

record cost_report =
  cr_report_id :: str
  cr_created_at :: int
  cr_entries :: "cost_entry list"
  cr_total_tokens :: int
  cr_total_cost :: rat
  cr_by_model :: "(str \<times> rat \<times> rat) list"
  cr_by_model_cost :: "(str \<times> rat) list"
  cr_by_model_tokens :: "(str \<times> int) list"
  cr_gate :: str

definition max_entries :: nat where
  "max_entries = 100000"

definition cost_save :: "cost_entry \<Rightarrow> cost_entry list \<Rightarrow> (cost_entry list, store_failure, str) outcome" where
  "cost_save = table_insert ce_entry_id"

definition dict_get :: "(str \<times> 'v) list \<Rightarrow> str \<Rightarrow> 'v \<Rightarrow> 'v" where
  "dict_get d k v = (case map_of d k of Some x \<Rightarrow> x | None \<Rightarrow> v)"

text \<open>The loop of \<open>aggregate\<close> over its three dicts.\<close>

definition add_entry :: "(str \<times> rat) list \<times> (str \<times> int) list \<times> (str \<times> rat \<times> rat) list \<Rightarrow> cost_entry
    \<Rightarrow> (str \<times> rat) list \<times> (str \<times> int) list \<times> (str \<times> rat \<times> rat) list" where
  "add_entry acc e =
     (case acc of (costs, tokens, both) \<Rightarrow>
        let m = ce_model e;
            costs' = AList.update m (dict_get costs m 0 + ce_cost e) costs;
            tokens' = AList.update m (dict_get tokens m 0 + ce_total_tokens e) tokens
        in (costs', tokens', AList.update m (dict_get costs' m 0, of_int (dict_get tokens' m 0)) both))"

definition aggregate :: "(cost_entry list \<Rightarrow> cost_entry list) \<Rightarrow> str \<Rightarrow> int \<Rightarrow> cost_entry list \<Rightarrow> cost_report" where
  "aggregate order report_id now rows =
     (let listed = order rows;
          entries = (if length listed > max_entries then last_n max_entries listed else listed)
      in case foldl add_entry ([], [], []) entries of
          (costs, tokens, both) \<Rightarrow>
            \<lparr>cr_report_id = report_id, cr_created_at = now, cr_entries = entries,
             cr_total_tokens = sum_list (map ce_total_tokens entries),
             cr_total_cost = sum_list (map ce_cost entries), cr_by_model = both,
             cr_by_model_cost = costs, cr_by_model_tokens = tokens, cr_gate = ''PASS''\<rparr>)"

definition cost_record :: "str \<Rightarrow> int \<Rightarrow> str \<Rightarrow> str \<Rightarrow> int \<Rightarrow> int \<Rightarrow> int option \<Rightarrow> rat \<Rightarrow> rat option
    \<Rightarrow> cost_entry list \<Rightarrow> (cost_entry list, cost_error, cost_entry) outcome" where
  "cost_record entry_id now run_id model prompt completion tokens cost cost_usd rows =
     (let e = \<lparr>ce_entry_id = entry_id, ce_created_at = now, ce_run_id = run_id, ce_model = model,
            ce_prompt_tokens = prompt, ce_completion_tokens = completion,
            ce_total_tokens = (case tokens of Some t \<Rightarrow> t | None \<Rightarrow> prompt + completion),
            ce_cost = (case cost_usd of Some c \<Rightarrow> c | None \<Rightarrow> cost)\<rparr>
      in if \<not> cost_entry_ok e then (Inl BadEntry, rows)
         else case cost_save e rows of
             (Inl _, _) \<Rightarrow> (Inl CostDuplicate, rows)
           | (Inr _, rows') \<Rightarrow> (Inr e, rows'))"

definition record_cost :: "(cost_entry list \<Rightarrow> cost_entry list) \<Rightarrow> str \<Rightarrow> str \<Rightarrow> int \<Rightarrow> str \<Rightarrow> str \<Rightarrow> int \<Rightarrow> int
    \<Rightarrow> int option \<Rightarrow> rat \<Rightarrow> rat option \<Rightarrow> cost_entry list \<Rightarrow> (cost_entry list, cost_error, cost_report) outcome" where
  "record_cost order entry_id report_id now run_id model prompt completion tokens cost cost_usd rows =
     (case cost_record entry_id now run_id model prompt completion tokens cost cost_usd rows of
        (Inl e, rows') \<Rightarrow> (Inl e, rows')
      | (Inr _, rows') \<Rightarrow> (Inr (aggregate order report_id now rows'), rows'))"

section \<open>Lemmas\<close>

lemma hd_strip_dots: "strip_dots s = c # r \<Longrightarrow> c \<noteq> CHR ''.'' \<and> c \<noteq> CHR ''/''"
  unfolding strip_dots_def by (drule dropWhile_eq_Cons_conv [THEN iffD1]) simp

lemma norm_path_eq: "norm_path path = strip_dots (to_slashes path)"
proof (cases "strip_dots (to_slashes path)")
  case (Cons c r)
  then show ?thesis using hd_strip_dots [OF Cons] by (simp add: norm_path_def)
qed (simp add: norm_path_def)

lemma rstrip_slash_last: "\<not> suffix ''/'' (rstrip_slash s)"
proof
  assume "suffix ''/'' (rstrip_slash s)"
  then have "prefix (rev ''/'') (rev (rstrip_slash s))" by (simp add: suffix_to_prefix)
  then obtain r where "dropWhile (\<lambda>c. c = CHR ''/'') (rev s) = CHR ''/'' # r"
    by (auto simp: rstrip_slash_def prefix_def)
  then show False by (simp add: dropWhile_eq_Cons_conv)
qed

lemma is_protected_one:
  "is_protected path [prot] \<longleftrightarrow>
     (let p = rstrip_slash (to_slashes prot) in
      p \<noteq> [] \<and> (norm_path path = p \<or> prefix (p @ ''/'') (norm_path path)))"
  using rstrip_slash_last by (auto simp: is_protected_def Let_def)

lemma blocked_Nil:
  "blocked_of a = [] \<longleftrightarrow> (\<forall>g \<in> set (gates_of a). snd g = ''PASS'') \<and> (touched_of a = [] \<or> is_approved a)"
  by (auto simp: blocked_of_def filter_empty_conv)

lemma dict_get_update: "dict_get (AList.update k v d) k' x = (if k' = k then v else dict_get d k' x)"
  by (simp add: dict_get_def)

text \<open>Adding to one key of a dict adds to the sum over its values.\<close>

lemma sum_dict_add:
  fixes x :: "'v::ordered_ab_group_add"
  assumes "dict_ok d"
  shows "sum_list (map snd (AList.update k (dict_get d k 0 + x) d)) = sum_list (map snd d) + x"
  using assms
proof (induction d)
  case (Cons p d)
  obtain k' v where p: "p = (k', v)" by fastforce
  show ?case
  proof (cases "k' = k")
    case True
    then show ?thesis by (simp add: p dict_get_def algebra_simps)
  next
    case False
    then have "dict_get (p # d) k 0 = (dict_get d k 0 :: 'v)" by (simp add: p dict_get_def)
    with Cons False show ?thesis by (simp add: p dict_ok_def algebra_simps)
  qed
qed (simp add: dict_get_def)

definition model_sum :: "(cost_entry \<Rightarrow> 'v::comm_monoid_add) \<Rightarrow> str \<Rightarrow> cost_entry list \<Rightarrow> 'v" where
  "model_sum f m es = sum_list (map f (filter (\<lambda>e. ce_model e = m) es))"

lemma aggregate_loop:
  assumes "foldl add_entry ([], [], []) es = (costs, tokens, both)"
  shows "dict_ok costs \<and> dict_ok tokens
    \<and> sum_list (map snd costs) = sum_list (map ce_cost es)
    \<and> sum_list (map snd tokens) = sum_list (map ce_total_tokens es)
    \<and> (\<forall>m. dict_get costs m 0 = model_sum ce_cost m es)
    \<and> (\<forall>m. map_of both m = (if m \<in> ce_model ` set es
         then Some (model_sum ce_cost m es, of_int (model_sum ce_total_tokens m es)) else None))
    \<and> (\<forall>m. dict_get tokens m 0 = model_sum ce_total_tokens m es)"
  using assms
proof (induction es arbitrary: costs tokens both rule: rev_induct)
  case Nil
  then show ?case by (simp add: dict_get_def model_sum_def)
next
  case (snoc e es)
  obtain c t b where f: "foldl add_entry ([], [], []) es = (c, t, b)" by (metis prod_cases3)
  note IH = snoc.IH [OF f]
  have new: "costs = AList.update (ce_model e) (dict_get c (ce_model e) 0 + ce_cost e) c"
    "tokens = AList.update (ce_model e) (dict_get t (ce_model e) 0 + ce_total_tokens e) t"
    "both = AList.update (ce_model e) (dict_get costs (ce_model e) 0, of_int (dict_get tokens (ce_model e) 0)) b"
  proof -
    have "add_entry (c, t, b) e = (costs, tokens, both)" using snoc.prems f by simp
    then show "costs = AList.update (ce_model e) (dict_get c (ce_model e) 0 + ce_cost e) c"
      "tokens = AList.update (ce_model e) (dict_get t (ce_model e) 0 + ce_total_tokens e) t"
      "both = AList.update (ce_model e) (dict_get costs (ce_model e) 0, of_int (dict_get tokens (ce_model e) 0)) b"
      by (auto simp: add_entry_def Let_def)
  qed
  have sums: "sum_list (map snd costs) = sum_list (map ce_cost (es @ [e]))"
    "sum_list (map snd tokens) = sum_list (map ce_total_tokens (es @ [e]))"
    unfolding new(1,2) using IH by (subst sum_dict_add, simp, simp)+
  have each: "dict_get costs m 0 = model_sum ce_cost m (es @ [e])"
    "dict_get tokens m 0 = model_sum ce_total_tokens m (es @ [e])" for m
    unfolding new(1,2) dict_get_update using IH by (simp_all add: model_sum_def)
  have both: "map_of both m = (if m \<in> ce_model ` set (es @ [e])
      then Some (model_sum ce_cost m (es @ [e]), of_int (model_sum ce_total_tokens m (es @ [e]))) else None)" for m
    unfolding new(3) each using IH by (auto simp: model_sum_def)
  show ?case using IH sums each both by (simp add: new(1,2))
qed

section \<open>Properties\<close>

text \<open>A merge is allowed exactly when all four gates read PASS and no changed path is under a
  protected one unless approval was given; a missing gate blocks. Allowed or not, the plan ends in
  \<open>never_auto_merge\<close>: it at most queues the merge for a human.\<close>

lemma merge_allowed_iff:
  "let r = evaluate_merge eid rid now a in
     (mr_merge_allowed r \<longleftrightarrow>
        gate_value (or_else (mg_inspection a) (mg_inspection_gate a)) = ''PASS''
        \<and> gate_value (or_else (mg_security a) (mg_security_gate a)) = ''PASS''
        \<and> gate_value (or_else (mg_tests a) (mg_test_gate a)) = ''PASS''
        \<and> gate_value (or_else (mg_review a) (mg_review_gate a)) = ''PASS''
        \<and> ((\<forall>p \<in> set (changed_of a). \<not> is_protected p (protected_of a)) \<or> is_approved a))
     \<and> mp_merge_allowed (mr_plan r) = mr_merge_allowed r
     \<and> last (mp_actions (mr_plan r)) = ''never_auto_merge''
     \<and> (''queue_for_human_merge_approval'' \<in> set (mp_actions (mr_plan r)) \<longleftrightarrow> mr_merge_allowed r)
     \<and> (mr_merge_allowed r \<longleftrightarrow> mr_blocked_reasons r = [])"
  by (auto simp: evaluate_merge_def Let_def blocked_Nil gates_of_def touched_of_def merge_actions_def
      filter_empty_conv)

lemma merge_allowed_iff_example:
  "\<not> mr_merge_allowed (evaluate_merge ''e'' ''r'' 0
     \<lparr>mg_inspection = GBool True, mg_security = GBool True, mg_tests = GBool True, mg_review = GNone,
      mg_changed_paths = PNone, mg_protected_paths = PNone, mg_root = None, mg_approved = True,
      mg_approval = False, mg_approved_protected = False, mg_protected_approved = False, mg_paths = PNone,
      mg_protected = PNone, mg_inspection_gate = GNone, mg_security_gate = GNone, mg_test_gate = GNone,
      mg_review_gate = GNone\<rparr>)"
  using merge_allowed_iff [of "''e''" "''r''" 0
    "\<lparr>mg_inspection = GBool True, mg_security = GBool True, mg_tests = GBool True, mg_review = GNone,
      mg_changed_paths = PNone, mg_protected_paths = PNone, mg_root = None, mg_approved = True,
      mg_approval = False, mg_approved_protected = False, mg_protected_approved = False, mg_paths = PNone,
      mg_protected = PNone, mg_inspection_gate = GNone, mg_security_gate = GNone, mg_test_gate = GNone,
      mg_review_gate = GNone\<rparr>"]
  by (simp add: or_else_def Let_def)

text \<open>Protected paths that begin with a dot or a slash are never detected. A changed path loses
  all its leading dots and slashes before it is compared, a protected path does not: whatever path
  a change touches, an entry such as \<open>.github\<close>, \<open>.env\<close>, \<open>./infra\<close> or \<open>/etc\<close> protects nothing.\<close>

lemma dotted_protection_is_void:
  assumes "to_slashes prot = c # rest" "c = CHR ''.'' \<or> c = CHR ''/''"
  shows "\<not> is_protected path [prot]"
proof -
  let ?p = "rstrip_slash (to_slashes prot)" and ?n = "norm_path path"
  have pre: "prefix ?p (to_slashes prot)"
  proof -
    have "suffix (dropWhile (\<lambda>c. c = CHR ''/'') (rev (to_slashes prot))) (rev (to_slashes prot))"
      by (rule suffix_dropWhile)
    then show ?thesis by (simp add: rstrip_slash_def suffix_to_prefix)
  qed
  have "\<not> (?n = ?p \<or> prefix (?p @ ''/'') ?n)" if "?p \<noteq> []"
  proof -
    from that pre assms(1) have hd: "hd ?p = c" by (cases ?p) auto
    have "hd ?n \<noteq> c" if "?n \<noteq> []"
      using that assms(2) hd_strip_dots [of "to_slashes path"] by (cases ?n) (auto simp: norm_path_eq)
    moreover have "hd ?n = c" "?n \<noteq> []" if "?n = ?p \<or> prefix (?p @ ''/'') ?n"
      using that hd \<open>?p \<noteq> []\<close> by (auto simp: prefix_def)
    ultimately show ?thesis by blast
  qed
  then show ?thesis unfolding is_protected_one Let_def by blast
qed

lemma dotted_protection_is_void_example:
  "\<not> is_protected ''.github/workflows/deploy.yml'' [''.github'']"
  by (rule dotted_protection_is_void [of _ "CHR ''.''" "''github''"]) (simp_all add: to_slashes_def)

text \<open>The cost report balances. Whatever order the table is listed in, the costs per model add
  up to the total cost and the tokens per model to the total tokens; each model's figures are the
  sums over its own entries; at most 100000 entries are reported.\<close>

lemma cost_report_balances:
  "let r = aggregate order rid now rows in
     sum_list (map snd (cr_by_model_cost r)) = cr_total_cost r
     \<and> sum_list (map snd (cr_by_model_tokens r)) = cr_total_tokens r
     \<and> (\<forall>m. map_of (cr_by_model r) m =
          (if m \<in> ce_model ` set (cr_entries r)
           then Some (model_sum ce_cost m (cr_entries r), of_int (model_sum ce_total_tokens m (cr_entries r)))
           else None))
     \<and> length (cr_entries r) \<le> max_entries"
proof -
  let ?es = "if length (order rows) > max_entries then last_n max_entries (order rows) else order rows"
  obtain c t b where f: "foldl add_entry ([], [], []) ?es = (c, t, b)" by (metis prod_cases3)
  have "length ?es \<le> max_entries" by auto
  with aggregate_loop [OF f] show ?thesis by (simp add: aggregate_def Let_def f)
qed

end
