(* ===== verification/Execution_Assessment.thy ===== *)
theory Execution_Assessment
  imports Complex_Main Json_Text
begin

text \<open>
  The diagnostic reports of \<open>src/agency/agents/assessment.py\<close>: check, risk, subtask and
  execution assessments with their validators, the functions that build them and the binding
  of a report to a task and an output.

  A validated model is built by a function that returns the value or the \<open>ValueError\<close> of
  its first failing validator. The enumerations are datatypes; the strings that the builders
  take and check are strings. Scores are rational numbers. The hexadecimal SHA-256 digest of a byte string is the
  argument \<open>sha\<close> of the definitions that use it.
\<close>

section \<open>Data\<close>

datatype criterion = Completeness | Accuracy | Safety

datatype assessment_status = Not_Performed | Passed | Failed | Needs_Review

datatype check_method = No_Method | Keyword_Coverage | Denylist

datatype check_reason =
    Tool_Path_Unchecked | Isolated_Path_Unchecked | Execution_Not_Completed
  | No_Trusted_Accuracy_Oracle | Heuristic_Passed | Heuristic_Failed

datatype risk_category = Critical | High | Medium | Low | Negligible

datatype exec_path = Classic | Tool | Isolated

datatype exec_status = Completed | Failed_Run | Cancelled | Timeout

datatype risk_coverage = Not_Assessed | Assessed | Partially_Assessed

record check_assessment =
  ck_criterion :: criterion
  ck_status :: assessment_status
  ck_method :: check_method
  ck_reason :: check_reason
  ck_score :: "rat option"

record risk_assessment =
  rk_assessed :: bool
  rk_engine :: bool
  rk_category :: "risk_category option"
  rk_finding_id :: "str option"

record subtask_assessment =
  sb_execution_status :: exec_status
  sb_output_sha256 :: str
  sb_subtask_id :: str
  sb_path :: exec_path
  sb_verification :: assessment_status
  sb_checks :: "check_assessment list"
  sb_risk :: risk_assessment

record execution_assessment =
  ex_execution_status :: exec_status
  ex_output_sha256 :: str
  ex_schema_version :: str
  ex_task_id :: str
  ex_verification :: assessment_status
  ex_risk_status :: risk_coverage
  ex_independently_verified :: bool
  ex_subtasks :: "subtask_assessment list"

datatype assess_error = Value_Error | Key_Error

section \<open>Validators\<close>

definition criteria :: "criterion list" where
  "criteria = [Completeness, Accuracy, Safety]"

fun heuristic_of :: "criterion \<Rightarrow> check_method option" where
  "heuristic_of Completeness = Some Keyword_Coverage"
| "heuristic_of Safety = Some Denylist"
| "heuristic_of Accuracy = None"

definition check_consistent :: "check_assessment \<Rightarrow> bool" where
  "check_consistent c =
     ((case ck_score c of None \<Rightarrow> True | Some x \<Rightarrow> 0 \<le> x \<and> x \<le> 1)
      \<and> (if ck_status c = Not_Performed
         then ck_method c = No_Method \<and> ck_score c = None
           \<and> ck_reason c \<noteq> Heuristic_Passed \<and> ck_reason c \<noteq> Heuristic_Failed
           \<and> (ck_reason c = No_Trusted_Accuracy_Oracle \<longrightarrow> ck_criterion c = Accuracy)
         else heuristic_of (ck_criterion c) = Some (ck_method c) \<and> ck_score c \<noteq> None
           \<and> (ck_status c = Passed \<or> ck_status c = Failed)
           \<and> ck_reason c = (if ck_status c = Passed then Heuristic_Passed else Heuristic_Failed)
           \<and> (ck_status c = Passed \<longleftrightarrow> ck_score c = Some 1)
           \<and> (ck_criterion c = Safety \<and> ck_status c \<noteq> Passed \<longrightarrow> ck_score c = Some 0)))"

definition risk_consistent :: "risk_assessment \<Rightarrow> bool" where
  "risk_consistent r =
     ((case rk_finding_id r of None \<Rightarrow> True | Some i \<Rightarrow> i \<noteq> [])
      \<and> (if \<not> rk_assessed r
         then \<not> rk_engine r \<and> rk_category r = None \<and> rk_finding_id r = None
         else rk_engine r \<and> rk_category r \<noteq> None \<and> rk_finding_id r \<noteq> None))"

definition hex_digit :: "char \<Rightarrow> bool" where
  "hex_digit c = (c \<in> set ''0123456789abcdef'')"

definition is_digest :: "str \<Rightarrow> bool" where
  "is_digest s = (length s = 64 \<and> list_all hex_digit s)"

definition verification :: "check_assessment list \<Rightarrow> assessment_status" where
  "verification checks =
     (if list_ex (\<lambda>c. ck_status c = Failed) checks then Failed
      else if list_all (\<lambda>c. ck_status c = Not_Performed) checks then Not_Performed
      else if list_ex (\<lambda>c. ck_status c = Needs_Review \<or> ck_status c = Not_Performed) checks then Needs_Review
      else Passed)"

definition risk_status :: "subtask_assessment list \<Rightarrow> risk_coverage" where
  "risk_status subtasks =
     (let n = length (filter (\<lambda>s. rk_assessed (sb_risk s)) subtasks) in
      if n = 0 then Not_Assessed
      else if n = length subtasks then Assessed else Partially_Assessed)"

fun terminal :: "str \<Rightarrow> (assess_error, exec_status) res" where
  "terminal v =
     (if v = ''completed'' then Inr Completed
      else if v = ''failed'' then Inr Failed_Run
      else if v = ''cancelled'' then Inr Cancelled
      else if v = ''timeout'' then Inr Timeout
      else Inl Value_Error)"

definition omission :: "exec_path \<Rightarrow> exec_status \<Rightarrow> check_reason" where
  "omission path st =
     (if st \<noteq> Completed then Execution_Not_Completed
      else if path = Isolated then Isolated_Path_Unchecked else Tool_Path_Unchecked)"

definition subtask_consistent :: "subtask_assessment \<Rightarrow> bool" where
  "subtask_consistent s =
     (is_digest (sb_output_sha256 s) \<and> sb_subtask_id s \<noteq> []
      \<and> list_all check_consistent (sb_checks s) \<and> risk_consistent (sb_risk s)
      \<and> map ck_criterion (sb_checks s) = criteria
      \<and> sb_verification s = verification (sb_checks s)
      \<and> (sb_path s \<noteq> Classic \<longrightarrow>
           sb_subtask_id s = (if sb_path s = Tool then ''tool_loop'' else ''isolated''))
      \<and> (if sb_path s = Classic \<and> sb_execution_status s = Completed
         then rk_assessed (sb_risk s)
           \<and> list_all (\<lambda>c. if ck_criterion c = Accuracy then ck_reason c = No_Trusted_Accuracy_Oracle
                else ck_status c = Passed \<or> ck_status c = Failed) (sb_checks s)
         else \<not> rk_assessed (sb_risk s)
           \<and> list_all (\<lambda>c. ck_status c = Not_Performed
                \<and> ck_reason c = omission (sb_path s) (sb_execution_status s)) (sb_checks s)))"

definition all_checks :: "subtask_assessment list \<Rightarrow> check_assessment list" where
  "all_checks subtasks = concat (map sb_checks subtasks)"

definition execution_consistent :: "execution_assessment \<Rightarrow> bool" where
  "execution_consistent e =
     (is_digest (ex_output_sha256 e) \<and> ex_schema_version e = ''a2.v1'' \<and> ex_task_id e \<noteq> []
      \<and> \<not> ex_independently_verified e
      \<and> list_all subtask_consistent (ex_subtasks e)
      \<and> (ex_subtasks e = [] \<longrightarrow> ex_execution_status e = Failed_Run)
      \<and> (ex_execution_status e = Completed \<longrightarrow>
           list_all (\<lambda>s. sb_execution_status s = Completed) (ex_subtasks e))
      \<and> ex_verification e = verification (all_checks (ex_subtasks e))
      \<and> ex_risk_status e = risk_status (ex_subtasks e))"

definition validated :: "('m \<Rightarrow> bool) \<Rightarrow> 'm \<Rightarrow> (assess_error, 'm) res" where
  "validated ok x = (if ok x then Inr x else Inl Value_Error)"

section \<open>Builders\<close>

text \<open>An output: nothing, a string, or anything else by its \<open>str\<close>.\<close>

datatype exec_output = No_Output | Text_Output str | Other_Output str

fun render_output :: "exec_output \<Rightarrow> str" where
  "render_output No_Output = []"
| "render_output (Text_Output s) = s"
| "render_output (Other_Output s) = s"

definition output_digest :: "(str \<Rightarrow> str) \<Rightarrow> exec_output \<Rightarrow> str" where
  "output_digest sha v = sha (utf8 (render_output v))"

definition unperformed :: "check_reason \<Rightarrow> criterion \<Rightarrow> check_assessment" where
  "unperformed reason c = \<lparr>ck_criterion = c, ck_status = Not_Performed, ck_method = No_Method,
     ck_reason = reason, ck_score = None\<rparr>"

definition no_risk :: risk_assessment where
  "no_risk = \<lparr>rk_assessed = False, rk_engine = False, rk_category = None, rk_finding_id = None\<rparr>"

definition unchecked_subtask :: "(str \<Rightarrow> str) \<Rightarrow> str \<Rightarrow> exec_path \<Rightarrow> str \<Rightarrow> exec_output
    \<Rightarrow> (assess_error, subtask_assessment) res" where
  "unchecked_subtask sha sid path st out =
     (if st = ''completed'' \<and> py_strip (render_output out) = [] then Inl Value_Error
      else case terminal st of
          Inl e \<Rightarrow> Inl e
        | Inr t \<Rightarrow> validated subtask_consistent
            \<lparr>sb_execution_status = t, sb_output_sha256 = output_digest sha out, sb_subtask_id = sid,
             sb_path = path, sb_verification = Not_Performed,
             sb_checks = map (unperformed (omission path t)) criteria, sb_risk = no_risk\<rparr>)"

definition build_assessment :: "(str \<Rightarrow> str) \<Rightarrow> str \<Rightarrow> str \<Rightarrow> exec_output \<Rightarrow> subtask_assessment list
    \<Rightarrow> (assess_error, execution_assessment) res" where
  "build_assessment sha task st out subtasks =
     (if st = ''completed'' \<and> py_strip (render_output out) = [] then Inl Value_Error
      else case terminal st of
          Inl e \<Rightarrow> Inl e
        | Inr t \<Rightarrow> validated execution_consistent
            \<lparr>ex_execution_status = t, ex_output_sha256 = output_digest sha out,
             ex_schema_version = ''a2.v1'', ex_task_id = task,
             ex_verification = verification (all_checks subtasks),
             ex_risk_status = risk_status subtasks, ex_independently_verified = False,
             ex_subtasks = subtasks\<rparr>)"

text \<open>A check of the classic path, from the verifier's outcome \<open>(passed, score)\<close> under the
  criterion's name.\<close>

definition classic_check :: "(criterion \<Rightarrow> (bool \<times> rat) option) \<Rightarrow> criterion
    \<Rightarrow> (assess_error, check_assessment) res" where
  "classic_check outcomes c =
     (if c = Accuracy then validated check_consistent (unperformed No_Trusted_Accuracy_Oracle Accuracy)
      else case outcomes c of
          None \<Rightarrow> Inl Key_Error
        | Some (passed, score) \<Rightarrow> validated check_consistent
            \<lparr>ck_criterion = c, ck_status = (if passed then Passed else Failed),
             ck_method = (if c = Completeness then Keyword_Coverage else Denylist),
             ck_reason = (if passed then Heuristic_Passed else Heuristic_Failed),
             ck_score = Some score\<rparr>)"

fun collect_checks :: "(criterion \<Rightarrow> (bool \<times> rat) option) \<Rightarrow> criterion list
    \<Rightarrow> (assess_error, check_assessment list) res" where
  "collect_checks outcomes [] = Inr []"
| "collect_checks outcomes (c # cs) =
     (case classic_check outcomes c of
        Inl e \<Rightarrow> Inl e
      | Inr k \<Rightarrow> (case collect_checks outcomes cs of Inl e \<Rightarrow> Inl e | Inr ks \<Rightarrow> Inr (k # ks)))"

definition classic_subtask :: "(str \<Rightarrow> str) \<Rightarrow> str \<Rightarrow> str \<Rightarrow> exec_output
    \<Rightarrow> (criterion \<Rightarrow> (bool \<times> rat) option) \<Rightarrow> risk_category \<Rightarrow> str \<Rightarrow> (assess_error, subtask_assessment) res" where
  "classic_subtask sha sid st out outcomes cat finding =
     (if st \<noteq> ''completed'' \<or> py_strip (render_output out) = [] then Inl Value_Error
      else case collect_checks outcomes criteria of
          Inl e \<Rightarrow> Inl e
        | Inr checks \<Rightarrow>
            (case validated risk_consistent \<lparr>rk_assessed = True, rk_engine = True,
                rk_category = Some cat, rk_finding_id = Some finding\<rparr> of
               Inl e \<Rightarrow> Inl e
             | Inr risk \<Rightarrow> validated subtask_consistent
                 \<lparr>sb_execution_status = Completed, sb_output_sha256 = output_digest sha out,
                  sb_subtask_id = sid, sb_path = Classic, sb_verification = verification checks,
                  sb_checks = checks, sb_risk = risk\<rparr>))"

section \<open>Binding a report\<close>

definition status_text :: "exec_status \<Rightarrow> str" where
  "status_text t = (case t of Completed \<Rightarrow> ''completed'' | Failed_Run \<Rightarrow> ''failed''
     | Cancelled \<Rightarrow> ''cancelled'' | Timeout \<Rightarrow> ''timeout'')"

definition bound_assessment :: "(str \<Rightarrow> str) \<Rightarrow> execution_assessment option \<Rightarrow> str \<Rightarrow> str \<Rightarrow> exec_output
    \<Rightarrow> execution_assessment option" where
  "bound_assessment sha a task st out =
     (case a of
        None \<Rightarrow> None
      | Some report \<Rightarrow>
          if \<not> execution_consistent report then None
          else if ex_task_id report \<noteq> task \<or> status_text (ex_execution_status report) \<noteq> st
            \<or> ex_output_sha256 report \<noteq> output_digest sha out then None
          else Some report)"

definition verification_words :: "assessment_status \<Rightarrow> str" where
  "verification_words v = (case v of Not_Performed \<Rightarrow> ''not performed'' | Passed \<Rightarrow> ''passed''
     | Failed \<Rightarrow> ''failed'' | Needs_Review \<Rightarrow> ''needs review'')"

definition risk_words :: "risk_coverage \<Rightarrow> str" where
  "risk_words r = (case r of Not_Assessed \<Rightarrow> ''not assessed'' | Assessed \<Rightarrow> ''assessed''
     | Partially_Assessed \<Rightarrow> ''partially assessed'')"

definition assessment_notice :: "execution_assessment option \<Rightarrow> str" where
  "assessment_notice a =
     (case a of
        None \<Rightarrow> ''Runtime assessment: unavailable. No independent verification or authorization.''
      | Some e \<Rightarrow>
          let heuristic = list_ex (\<lambda>c. ck_method c \<noteq> No_Method) (all_checks (ex_subtasks e)) in
          ''Runtime assessment: execution '' @ status_text (ex_execution_status e)
          @ ''; checks '' @ verification_words (ex_verification e)
          @ (if heuristic then '' (heuristic checks only; accuracy not checked)'' else [])
          @ ''; risk '' @ risk_words (ex_risk_status e)
          @ (if ex_risk_status e \<noteq> Not_Assessed
             then '' (synthetic-finding heuristic, not a safety clearance)'' else [])
          @ ''. No independent verification or authorization.'')"

definition assessed_output :: "(str \<Rightarrow> str) \<Rightarrow> exec_output \<Rightarrow> execution_assessment option \<Rightarrow> str \<Rightarrow> str \<Rightarrow> str" where
  "assessed_output sha out a task st =
     render_output out @ [newline, newline] @ assessment_notice (bound_assessment sha a task st out)"

section \<open>What a valid report says\<close>

lemma accuracy_unperformed:
  "check_consistent c \<Longrightarrow> ck_criterion c = Accuracy \<Longrightarrow> ck_status c = Not_Performed"
  by (auto simp: check_consistent_def split: if_splits)

lemma needs_review_impossible: "check_consistent c \<Longrightarrow> ck_status c \<noteq> Needs_Review"
  by (auto simp: check_consistent_def split: if_splits)

lemma subtask_has_accuracy:
  assumes "subtask_consistent s"
  shows "\<exists>c \<in> set (sb_checks s). ck_status c = Not_Performed"
proof -
  have crit: "Accuracy \<in> set (map ck_criterion (sb_checks s))"
    using assms by (simp add: subtask_consistent_def criteria_def)
  have ok: "list_all check_consistent (sb_checks s)"
    using assms by (simp add: subtask_consistent_def)
  from crit obtain c where "c \<in> set (sb_checks s)" "ck_criterion c = Accuracy" by auto
  then show ?thesis using ok accuracy_unperformed by (auto simp: list_all_iff)
qed

lemma set_all_checks: "set (all_checks subs) = (\<Union>s \<in> set subs. set (sb_checks s))"
  by (simp add: all_checks_def)

lemma execution_has_accuracy:
  assumes "execution_consistent e" "ex_subtasks e \<noteq> []"
  shows "\<exists>c \<in> set (all_checks (ex_subtasks e)). ck_status c = Not_Performed"
proof -
  have "hd (ex_subtasks e) \<in> set (ex_subtasks e)" using assms(2) by simp
  moreover from this have "subtask_consistent (hd (ex_subtasks e))"
    using assms(1) by (simp add: execution_consistent_def list_all_iff)
  ultimately show ?thesis using subtask_has_accuracy by (fastforce simp: set_all_checks)
qed

text \<open>C36: A report that passes its validators never says that the checks passed. Its verdict
  is \<open>Failed\<close> when a check of a subtask failed, \<open>Not_Performed\<close> when no check was performed and
  \<open>Needs_Review\<close> otherwise: accuracy has no oracle, so a run whose heuristics all pass is still
  one to review.\<close>

theorem report_never_passes:
  assumes "execution_consistent e"
  shows "ex_verification e =
     (if \<exists>s \<in> set (ex_subtasks e). \<exists>c \<in> set (sb_checks s). ck_status c = Failed then Failed
      else if \<forall>s \<in> set (ex_subtasks e). \<forall>c \<in> set (sb_checks s). ck_status c = Not_Performed then Not_Performed
      else Needs_Review)"
proof (cases "ex_subtasks e = []")
  case True
  then show ?thesis using assms by (simp add: execution_consistent_def all_checks_def verification_def)
next
  case False
  have "ex_verification e = verification (all_checks (ex_subtasks e))"
    using assms by (simp add: execution_consistent_def)
  then show ?thesis using execution_has_accuracy [OF assms False]
    by (auto simp: verification_def list_ex_iff list_all_iff set_all_checks)
qed

section \<open>Builders\<close>

lemma unperformed_fields [simp]:
  "ck_criterion (unperformed r c) = c" "ck_status (unperformed r c) = Not_Performed"
  "ck_reason (unperformed r c) = r"
  by (simp_all add: unperformed_def)

lemma check_unperformed:
  "check_consistent (unperformed r c) \<longleftrightarrow>
     r \<noteq> Heuristic_Passed \<and> r \<noteq> Heuristic_Failed \<and> (r = No_Trusted_Accuracy_Oracle \<longrightarrow> c = Accuracy)"
  by (auto simp: check_consistent_def unperformed_def)

lemma verification_unperformed: "verification (map (unperformed r) cs) = Not_Performed"
  by (auto simp: verification_def list_ex_iff list_all_iff)

lemma no_risk_consistent: "risk_consistent no_risk" "\<not> rk_assessed no_risk"
  by (simp_all add: risk_consistent_def no_risk_def)

lemma omission_reason:
  "omission p t \<noteq> Heuristic_Passed" "omission p t \<noteq> Heuristic_Failed"
  "omission p t \<noteq> No_Trusted_Accuracy_Oracle"
  by (simp_all add: omission_def)

lemma terminal_Inr_iff: "terminal v = Inr t \<longleftrightarrow> v = status_text t"
  by (cases t) (auto simp: status_text_def)

lemma unchecked_fields:
  assumes "\<And>x. is_digest (sha x)" and "path = Classic \<Longrightarrow> t \<noteq> Completed"
  shows "subtask_consistent
     \<lparr>sb_execution_status = t, sb_output_sha256 = output_digest sha out, sb_subtask_id = sid,
      sb_path = path, sb_verification = Not_Performed,
      sb_checks = map (unperformed (omission path t)) criteria, sb_risk = no_risk\<rparr> \<longleftrightarrow>
     sid \<noteq> [] \<and> (path = Tool \<longrightarrow> sid = ''tool_loop'') \<and> (path = Isolated \<longrightarrow> sid = ''isolated'')"
  using assms(2)
  by (cases path)
    (auto simp: subtask_consistent_def assms(1) output_digest_def list_all_iff check_unperformed
      omission_reason no_risk_consistent verification_unperformed comp_def)

text \<open>\<open>unchecked_subtask\<close> reports a run whose output was not checked. It returns a report
  exactly for a terminal status and an admissible unit id, a completed run having to show an
  output that is not blank; and a completed classic run is refused, since it has to be checked.
  The digest function is assumed to return 64 hexadecimal digits.\<close>

lemma unchecked_subtask_iff:
  assumes "\<And>x. is_digest (sha x)"
  shows "(\<exists>r. unchecked_subtask sha sid path st out = Inr r) \<longleftrightarrow>
     st \<in> {''completed'', ''failed'', ''cancelled'', ''timeout''}
     \<and> (st = ''completed'' \<longrightarrow> py_strip (render_output out) \<noteq> [] \<and> path \<noteq> Classic)
     \<and> (case path of Classic \<Rightarrow> sid \<noteq> [] | Tool \<Rightarrow> sid = ''tool_loop'' | Isolated \<Rightarrow> sid = ''isolated'')"
proof (cases "path = Classic \<and> st = ''completed''")
  case True
  have "\<not> subtask_consistent
     \<lparr>sb_execution_status = Completed, sb_output_sha256 = output_digest sha out, sb_subtask_id = sid,
      sb_path = Classic, sb_verification = Not_Performed,
      sb_checks = map (unperformed (omission Classic Completed)) criteria, sb_risk = no_risk\<rparr>"
    by (simp add: subtask_consistent_def no_risk_consistent)
  then show ?thesis using True by (auto simp: unchecked_subtask_def validated_def)
next
  case False
  show ?thesis
  proof (cases "\<exists>t. st = status_text t")
    case True
    then obtain t where t: "st = status_text t" by blast
    then have "path = Classic \<Longrightarrow> t \<noteq> Completed" using False by (auto simp: status_text_def)
    from unchecked_fields [of sha path t out sid, OF assms this] show ?thesis
      using t False by (cases t; cases path) (auto simp: unchecked_subtask_def validated_def status_text_def)
  next
    case False
    then have "st \<noteq> status_text Completed" "st \<noteq> status_text Failed_Run"
      "st \<noteq> status_text Cancelled" "st \<noteq> status_text Timeout" by auto
    then have "st \<notin> {''completed'', ''failed'', ''cancelled'', ''timeout''}"
      by (simp add: status_text_def)
    moreover from this have "terminal st = Inl Value_Error" by simp
    ultimately show ?thesis by (simp add: unchecked_subtask_def)
  qed
qed

text \<open>A check of the classic path is accepted exactly when the verifier's score fits its
  verdict.\<close>

definition outcome_fits :: "criterion \<Rightarrow> (bool \<times> rat) option \<Rightarrow> bool" where
  "outcome_fits c o1 = (case o1 of None \<Rightarrow> False | Some (passed, score) \<Rightarrow>
     0 \<le> score \<and> score \<le> 1 \<and> (passed \<longleftrightarrow> score = 1) \<and> (c = Safety \<and> \<not> passed \<longrightarrow> score = 0))"

lemma classic_check_fits:
  assumes "c \<noteq> Accuracy" and "outcome_fits c (outcomes c)"
  shows "classic_check outcomes c = Inr \<lparr>ck_criterion = c,
      ck_status = (if fst (the (outcomes c)) then Passed else Failed),
      ck_method = (if c = Completeness then Keyword_Coverage else Denylist),
      ck_reason = (if fst (the (outcomes c)) then Heuristic_Passed else Heuristic_Failed),
      ck_score = Some (snd (the (outcomes c)))\<rparr>"
  using assms
  by (cases c) (auto simp: classic_check_def outcome_fits_def validated_def check_consistent_def split: option.splits)

lemma classic_check_misfit:
  assumes "c \<noteq> Accuracy" and "\<not> outcome_fits c (outcomes c)"
  shows "isl (classic_check outcomes c)"
  using assms
  by (cases c) (auto simp: classic_check_def outcome_fits_def validated_def check_consistent_def split: option.splits)

lemma classic_check_accuracy:
  "classic_check outcomes Accuracy = Inr (unperformed No_Trusted_Accuracy_Oracle Accuracy)"
  by (simp add: classic_check_def validated_def check_unperformed)

lemma collect_checks_cases:
  "collect_checks outcomes criteria =
     (case classic_check outcomes Completeness of
        Inl e \<Rightarrow> Inl e
      | Inr k \<Rightarrow> (case classic_check outcomes Safety of
            Inl e \<Rightarrow> Inl e
          | Inr k' \<Rightarrow> Inr [k, unperformed No_Trusted_Accuracy_Oracle Accuracy, k']))"
  by (simp add: criteria_def classic_check_accuracy split: sum.splits)

text \<open>\<open>classic_subtask\<close> on a completed run with an output that is not blank, a unit id, a
  finding id and verifier outcomes whose scores fit their verdicts returns a valid report, and
  its verdict is \<open>Needs_Review\<close> when both heuristics passed and \<open>Failed\<close> when one failed. The
  digest function is assumed to return 64 hexadecimal digits.\<close>

lemma classic_subtask_verdict:
  assumes "\<And>x. is_digest (sha x)"
    and "py_strip (render_output out) \<noteq> []" and "sid \<noteq> []" and "finding \<noteq> []"
    and "outcomes Completeness = Some (p1, s1)" and "outcomes Safety = Some (p2, s2)"
    and "outcome_fits Completeness (Some (p1, s1))" and "outcome_fits Safety (Some (p2, s2))"
  shows "\<exists>r. classic_subtask sha sid ''completed'' out outcomes cat finding = Inr r
     \<and> subtask_consistent r \<and> sb_verification r = (if p1 \<and> p2 then Needs_Review else Failed)"
proof -
  let ?k = "\<lambda>c p s. \<lparr>ck_criterion = c, ck_status = (if p then Passed else Failed),
      ck_method = (if c = Completeness then Keyword_Coverage else Denylist),
      ck_reason = (if p then Heuristic_Passed else Heuristic_Failed), ck_score = Some s\<rparr>"
  let ?checks = "[?k Completeness p1 s1, unperformed No_Trusted_Accuracy_Oracle Accuracy, ?k Safety p2 s2]"
  have "collect_checks outcomes criteria = Inr ?checks"
    using classic_check_fits [of Completeness outcomes] classic_check_fits [of Safety outcomes] assms(5-8)
    by (simp add: collect_checks_cases)
  moreover have "list_all check_consistent ?checks"
    using assms(7,8) by (simp add: check_unperformed) (auto simp: check_consistent_def outcome_fits_def)
  ultimately show ?thesis using assms(1-4)
    by (simp add: classic_subtask_def validated_def risk_consistent_def subtask_consistent_def
      criteria_def output_digest_def verification_def)
qed

text \<open>A report that \<open>build_assessment\<close> returns is bound to its task, its status and its
  output: \<open>bound_assessment\<close> gives it back for those, and nothing for another task, another
  status or an output with another digest.\<close>

lemma built_report_is_bound:
  assumes "build_assessment sha task st out subtasks = Inr e"
  shows "bound_assessment sha (Some e) task' st' out' =
     (if task' = task \<and> st' = st \<and> output_digest sha out' = output_digest sha out then Some e else None)"
proof -
  obtain t where t: "terminal st = Inr t"
    using assms by (auto simp: build_assessment_def simp del: terminal.simps split: sum.splits if_splits)
  then have "st = status_text t" by (simp add: terminal_Inr_iff del: terminal.simps)
  then show ?thesis using assms t
    by (auto simp: build_assessment_def validated_def bound_assessment_def simp del: terminal.simps split: if_splits)
qed

text \<open>Witness: a completed run with one classic unit whose two heuristics passed.\<close>

definition zero_digest :: "str \<Rightarrow> str" where
  "zero_digest x = replicate 64 (CHR ''0'')"

definition demo_checks :: "check_assessment list" where
  "demo_checks =
     [\<lparr>ck_criterion = Completeness, ck_status = Passed, ck_method = Keyword_Coverage,
       ck_reason = Heuristic_Passed, ck_score = Some 1\<rparr>,
      unperformed No_Trusted_Accuracy_Oracle Accuracy,
      \<lparr>ck_criterion = Safety, ck_status = Passed, ck_method = Denylist,
       ck_reason = Heuristic_Passed, ck_score = Some 1\<rparr>]"

definition demo_unit :: subtask_assessment where
  "demo_unit = \<lparr>sb_execution_status = Completed, sb_output_sha256 = zero_digest [], sb_subtask_id = ''s1'',
     sb_path = Classic, sb_verification = Needs_Review, sb_checks = demo_checks,
     sb_risk = \<lparr>rk_assessed = True, rk_engine = True, rk_category = Some Low, rk_finding_id = Some ''f1''\<rparr>\<rparr>"

definition demo_report :: execution_assessment where
  "demo_report = \<lparr>ex_execution_status = Completed, ex_output_sha256 = zero_digest [],
     ex_schema_version = ''a2.v1'', ex_task_id = ''t1'', ex_verification = Needs_Review,
     ex_risk_status = Assessed, ex_independently_verified = False, ex_subtasks = [demo_unit]\<rparr>"

lemmas demo_defs = demo_report_def demo_unit_def demo_checks_def zero_digest_def

lemma demo_unit_consistent: "subtask_consistent demo_unit"
  by (simp add: subtask_consistent_def is_digest_def list_all_iff hex_digit_def criteria_def
    verification_def risk_consistent_def demo_unit_def zero_digest_def demo_checks_def check_unperformed)
    (simp add: check_consistent_def)

lemma demo_report_consistent: "execution_consistent demo_report"
  using demo_unit_consistent
  by (simp add: execution_consistent_def demo_report_def is_digest_def list_all_iff hex_digit_def
    zero_digest_def all_checks_def risk_status_def)
    (simp add: demo_unit_def demo_checks_def verification_def)

theorem report_never_passes_witness:
  "execution_consistent demo_report \<and> ex_verification demo_report = Needs_Review
   \<and> (\<exists>s \<in> set (ex_subtasks demo_report). \<exists>c \<in> set (sb_checks s). ck_status c = Passed)"
  using report_never_passes [OF demo_report_consistent]
  by (simp add: demo_report_consistent) (simp add: demo_defs)

lemma built_report_is_bound_witness:
  "build_assessment zero_digest ''t1'' ''completed'' (Text_Output ''4'') [demo_unit] = Inr demo_report
   \<and> bound_assessment zero_digest (Some demo_report) ''t1'' ''completed'' (Text_Output ''4'') = Some demo_report
   \<and> bound_assessment zero_digest (Some demo_report) ''t2'' ''completed'' (Text_Output ''4'') = None"
proof -
  have "\<lparr>ex_execution_status = Completed, ex_output_sha256 = output_digest zero_digest (Text_Output ''4''),
      ex_schema_version = ''a2.v1'', ex_task_id = ''t1'',
      ex_verification = verification (all_checks [demo_unit]),
      ex_risk_status = risk_status [demo_unit], ex_independently_verified = False,
      ex_subtasks = [demo_unit]\<rparr> = demo_report"
    by (simp add: demo_report_def output_digest_def zero_digest_def all_checks_def risk_status_def)
      (simp add: demo_unit_def demo_checks_def verification_def)
  then have "build_assessment zero_digest ''t1'' ''completed'' (Text_Output ''4'') [demo_unit] = Inr demo_report"
    by (simp add: build_assessment_def validated_def demo_report_consistent
      py_strip_Nil_iff py_space_def)
  from this built_report_is_bound [OF this] show ?thesis by simp
qed

end
