(* ===== verification/Admission_Store.thy ===== *)
theory Admission_Store
  imports Execution_Assessment
begin

text \<open>
  The owner pilot's durable store, \<open>src/agency/admission/store.py\<close>, with the values of
  \<open>src/agency/admission/models.py\<close> it uses.

  The SQLite tables are lists of records in rowid order, with the counters of their
  \<open>AUTOINCREMENT\<close> keys; the two sets the process keeps in memory and the flags of its
  lifecycle stand beside them. A transaction body is a function from the store to a result
  and a store: when it raises, or the commit fails, the tables are rolled back and the
  memory is not. Readings of the clock and random ids are arguments, one per call site
  (\<open>clk k\<close>, \<open>uid k\<close>); a stored ISO text is the instant it shows.

  A JSON column is the value its text denotes. \<open>codec\<close> holds what is not computed here: the
  hexadecimal SHA-256 digest of a byte string, the text \<open>json.dumps\<close> writes for a result
  (it contains floats), and the text it writes for a result as a caller passes it.
\<close>

section \<open>Values and failures\<close>

record pilot_error =
  pe_code :: str
  pe_status :: int
  pe_uncertain :: bool

definition error_table :: "(str \<times> int) list" where
  "error_table =
     [(''unauthorized'', 401), (''forbidden'', 403), (''not_found'', 404), (''conflict'', 409),
      (''too_large'', 413), (''media'', 415), (''invalid_request'', 422), (''quota'', 429),
      (''disabled'', 503), (''audit'', 503), (''store'', 503), (''uncertainty'', 503)]"

definition PilotError :: "str \<Rightarrow> int \<Rightarrow> bool \<Rightarrow> pilot_error" where
  "PilotError code st uncertain =
     (let c = (if code \<in> fst ` set error_table then code else ''disabled'') in
      \<lparr>pe_code = c,
       pe_status = (if st = 503 then (case map_of error_table c of Some n \<Rightarrow> n | None \<Rightarrow> 503) else st),
       pe_uncertain = uncertain\<rparr>)"

text \<open>What a body raises: a \<open>PilotError\<close>, a \<open>ValueError\<close>, which a transaction turns into the
  error \<open>store\<close>, or another exception of Python.\<close>

datatype raised = Pilot pilot_error | Py_ValueError | Py_TypeError

definition fail :: "str \<Rightarrow> raised" where
  "fail code = Pilot (PilotError code 503 False)"

record principal =
  pr_owner_id :: str
  pr_transport :: str
  pr_subject_id :: str

definition identifier_ok :: "str \<Rightarrow> bool" where
  "identifier_ok v = (py_strip v \<noteq> [] \<and> length v \<le> 128)"

definition check_principal :: "principal \<Rightarrow> (raised, unit) res" where
  "check_principal p =
     (if \<not> identifier_ok (pr_owner_id p) \<or> \<not> identifier_ok (pr_subject_id p)
        \<or> pr_transport p \<notin> {''local'', ''telegram''}
      then Inl (fail ''invalid_request'') else Inr ())"

definition id_head :: "char \<Rightarrow> bool" where
  "id_head c = (let n = (of_char c :: nat) in
     65 \<le> n \<and> n \<le> 90 \<or> 97 \<le> n \<and> n \<le> 122 \<or> 48 \<le> n \<and> n \<le> 57)"

definition id_ok :: "str \<Rightarrow> bool" where
  "id_ok v = (v \<noteq> [] \<and> id_head (hd v) \<and> length v \<le> 128
     \<and> list_all (\<lambda>c. id_head c \<or> c \<in> set ''._:-'') (tl v))"

definition check_id :: "str \<Rightarrow> (raised, unit) res" where
  "check_id v = (if id_ok v then Inr () else Inl (fail ''invalid_request''))"

text \<open>The three payloads that are stored, and their texts with sorted keys.\<close>

datatype op_input =
    New_Thread str "str option"
  | Turn_Input str str
  | Cancel_Input str

fun input_text :: "op_input \<Rightarrow> str" where
  "input_text (New_Thread title parent) =
     ''{'' @ json_string ''parent_thread_id'' @ '':''
     @ (case parent of None \<Rightarrow> ''null'' | Some p \<Rightarrow> json_string p)
     @ '','' @ json_string ''title'' @ '':'' @ json_string title @ ''}''"
| "input_text (Turn_Input thread msg) =
     ''{'' @ json_string ''message'' @ '':'' @ json_string msg
     @ '','' @ json_string ''thread_id'' @ '':'' @ json_string thread @ ''}''"
| "input_text (Cancel_Input task) = ''{'' @ json_string ''task_id'' @ '':'' @ json_string task @ ''}''"

record turn_result =
  tr_task_id :: "str option"
  tr_response :: str
  tr_assessment :: "execution_assessment option"

text \<open>The \<open>assessment\<close> entry of a result that a caller passes: null, the dump of a report, or
  something else, by what validation makes of it.\<close>

datatype raw_assessment = Raw_None | Raw_Dump execution_assessment | Raw_Other "execution_assessment option"

datatype raw_result = Wrong_Keys | Raw_Result json json raw_assessment

record codec =
  cd_sha :: "str \<Rightarrow> str"
  cd_result :: "turn_result \<Rightarrow> str"
  cd_raw :: "raw_result \<Rightarrow> str option"

definition canonical_input :: "codec \<Rightarrow> op_input \<Rightarrow> (raised, str) res" where
  "canonical_input cd v =
     (let data = utf8 (input_text v) in
      if int (length data) > 32768 then Inl (fail ''too_large'') else Inr (cd_sha cd data))"

definition canonical_result :: "codec \<Rightarrow> turn_result \<Rightarrow> (raised, str) res" where
  "canonical_result cd v =
     (let data = utf8 (cd_result cd v) in
      if int (length data) > 524288 then Inl (fail ''too_large'') else Inr (cd_sha cd data))"

definition canonical_raw :: "codec \<Rightarrow> raw_result \<Rightarrow> (raised, unit) res" where
  "canonical_raw cd v =
     (case cd_raw cd v of
        None \<Rightarrow> Inl (fail ''invalid_request'')
      | Some txt \<Rightarrow> if int (length (utf8 txt)) > 524288 then Inl (fail ''too_large'') else Inr ())"

section \<open>Tables\<close>

record workspace =
  ws_id :: str
  ws_owner :: str
  ws_title :: str
  ws_created_at :: rat

record thread =
  th_id :: str
  th_workspace_id :: str
  th_owner :: str
  th_title :: str
  th_parent :: "str option"
  th_state :: str
  th_created_at :: rat
  th_updated_at :: rat

record thread_message =
  ms_id :: "str option"
  ms_thread_id :: str
  ms_role :: str
  ms_content :: str
  ms_created_at :: rat

record subject =
  su_quota_id :: int
  su_owner_id :: str
  su_workspace_id :: str

record pilot_request =
  rq_sequence :: int
  rq_owner_id :: str
  rq_request_id :: str
  rq_operation :: str
  rq_input_digest :: str
  rq_input :: op_input
  rq_task_id :: "str option"
  rq_thread_id :: "str option"
  rq_resource_id :: "str option"
  rq_state :: str
  rq_phase :: str
  rq_cancel_requested :: bool
  rq_model_attempts :: int
  rq_tool_attempts :: int
  rq_result :: "turn_result option"
  rq_result_digest :: "str option"
  rq_error_code :: "str option"
  rq_provider_config_id :: "str option"
  rq_user_message_id :: "str option"
  rq_assistant_message_id :: "str option"
  rq_created_at :: rat
  rq_updated_at :: rat

record pilot_event =
  ev_id :: int
  ev_sequence :: int
  ev_phase :: str
  ev_code :: str
  ev_created_at :: rat

record pilot_db =
  db_workspaces :: "workspace list"
  db_threads :: "thread list"
  db_messages :: "thread_message list"
  db_subjects :: "subject list"
  db_requests :: "pilot_request list"
  db_events :: "pilot_event list"
  db_subject_seq :: int
  db_request_seq :: int
  db_event_seq :: int

definition empty_db :: pilot_db where
  "empty_db = \<lparr>db_workspaces = [], db_threads = [], db_messages = [], db_subjects = [],
     db_requests = [], db_events = [], db_subject_seq = 0, db_request_seq = 0, db_event_seq = 0\<rparr>"

record pilot_store =
  ps_ready :: bool
  ps_closed :: bool
  ps_fenced :: bool
  ps_fresh :: "int set"
  ps_blocked :: "int set"
  ps_db :: pilot_db

definition mk_pilot_store :: "str \<Rightarrow> pilot_db \<Rightarrow> (raised, pilot_store) res" where
  "mk_pilot_store path db =
     (if py_strip path = [] \<or> path = '':memory:'' \<or> prefix ''file:'' path
      then Inl (fail ''invalid_request'')
      else Inr \<lparr>ps_ready = False, ps_closed = False, ps_fenced = False,
        ps_fresh = {}, ps_blocked = {}, ps_db = db\<rparr>)"

section \<open>Transactions\<close>

type_synonym 'a work = "pilot_store \<Rightarrow> (raised, 'a) res \<times> pilot_store"

definition give :: "'a \<Rightarrow> 'a work" where
  "give x s = (Inr x, s)"

definition throw :: "raised \<Rightarrow> 'a work" where
  "throw e s = (Inl e, s)"

definition then_do :: "'a work \<Rightarrow> ('a \<Rightarrow> 'b work) \<Rightarrow> 'b work" where
  "then_do m f s = (case m s of (Inl e, s') \<Rightarrow> (Inl e, s') | (Inr x, s') \<Rightarrow> f x s')"

definition guard :: "bool \<Rightarrow> str \<Rightarrow> unit work" where
  "guard ok code = (if ok then give () else throw (fail code))"

definition of_res :: "(raised, 'a) res \<Rightarrow> 'a work" where
  "of_res r s = (r, s)"

definition query :: "(pilot_db \<Rightarrow> (raised, 'a) res) \<Rightarrow> 'a work" where
  "query q s = (q (ps_db s), s)"

definition modify :: "(pilot_db \<Rightarrow> pilot_db) \<Rightarrow> unit work" where
  "modify f s = (Inr (), s\<lparr>ps_db := f (ps_db s)\<rparr>)"

definition settle :: "int \<Rightarrow> unit work" where
  "settle k s = (Inr (), s\<lparr>ps_blocked := insert k (ps_blocked s), ps_fresh := ps_fresh s - {k}\<rparr>)"

record pilot_io =
  io_connects :: bool
  io_commits :: bool

definition transaction :: "pilot_io \<Rightarrow> bool \<Rightarrow> 'a work \<Rightarrow> 'a work" where
  "transaction io publication work s =
     (if \<not> io_connects io then (Inl (fail ''store''), s)
      else case work s of
          (Inl e, s') \<Rightarrow>
            (Inl (if e = Py_ValueError then fail ''store'' else e), s'\<lparr>ps_db := ps_db s\<rparr>)
        | (Inr x, s') \<Rightarrow>
            if publication \<and> ps_fenced s'
            then (Inl (Pilot (PilotError ''disabled'' 503 True)), s'\<lparr>ps_db := ps_db s\<rparr>)
            else if \<not> io_commits io then (Inl (fail ''store''), s'\<lparr>ps_db := ps_db s\<rparr>)
            else (Inr x, s'))"

definition run_work :: "pilot_io \<Rightarrow> bool \<Rightarrow> 'a work \<Rightarrow> 'a work" where
  "run_work io publication work s =
     (if \<not> ps_ready s \<or> ps_closed s then (Inl (fail ''store''), s)
      else transaction io publication work s)"

text \<open>\<open>initialize\<close>: taking the lock file and creating the tables succeed or not.\<close>

definition initialize :: "bool \<Rightarrow> unit work" where
  "initialize ok s =
     (if ps_closed s then (Inl (fail ''store''), s)
      else if ps_ready s then (Inr (), s)
      else if ok then (Inr (), s\<lparr>ps_ready := True\<rparr>)
      else (Inl (fail ''store''), s))"

definition fence_publication :: "pilot_store \<Rightarrow> pilot_store" where
  "fence_publication s = s\<lparr>ps_fenced := True\<rparr>"

definition close_store :: "pilot_store \<Rightarrow> pilot_store" where
  "close_store s = (fence_publication s)\<lparr>ps_ready := False, ps_closed := True\<rparr>"

section \<open>Rows\<close>

definition max_rowid :: int where
  "max_rowid = 2 ^ 63 - 1"

definition owned_thread :: "pilot_db \<Rightarrow> str \<Rightarrow> thread \<Rightarrow> bool" where
  "owned_thread db owner t =
     (th_owner t = owner
      \<and> list_ex (\<lambda>u. su_workspace_id u = th_workspace_id t \<and> su_owner_id u = owner) (db_subjects db))"

definition owned_request :: "pilot_db \<Rightarrow> pilot_request \<Rightarrow> bool" where
  "owned_request db r =
     list_ex (\<lambda>t. rq_thread_id r = Some (th_id t) \<and> owned_thread db (rq_owner_id r) t) (db_threads db)"

definition fetch :: "str \<Rightarrow> 'a option \<Rightarrow> (raised, 'a) res" where
  "fetch code x = (case x of None \<Rightarrow> Inl (fail code) | Some v \<Rightarrow> Inr v)"

definition thread_row :: "principal \<Rightarrow> str option \<Rightarrow> pilot_db \<Rightarrow> (raised, thread) res" where
  "thread_row p tid db =
     (case tid of
        None \<Rightarrow> Inl (fail ''invalid_request'')
      | Some i \<Rightarrow>
          if \<not> id_ok i then Inl (fail ''invalid_request'')
          else fetch ''not_found''
            (find (\<lambda>t. th_id t = i \<and> owned_thread db (pr_owner_id p) t) (db_threads db)))"

definition stored_request :: "str \<Rightarrow> str \<Rightarrow> pilot_db \<Rightarrow> pilot_request option" where
  "stored_request owner rid db =
     find (\<lambda>r. rq_owner_id r = owner \<and> rq_request_id r = rid) (db_requests db)"

definition stored_turn :: "str \<Rightarrow> str \<Rightarrow> pilot_db \<Rightarrow> pilot_request option" where
  "stored_turn owner task db =
     find (\<lambda>r. rq_owner_id r = owner \<and> rq_task_id r = Some task \<and> rq_operation r = ''turn'')
       (db_requests db)"

definition request_row :: "principal \<Rightarrow> str \<Rightarrow> pilot_db \<Rightarrow> (raised, pilot_request) res" where
  "request_row p rid db =
     fetch ''not_found'' (find (\<lambda>r. rq_owner_id r = pr_owner_id p \<and> rq_request_id r = rid
       \<and> owned_request db r) (db_requests db))"

definition turn_row :: "int \<Rightarrow> pilot_db \<Rightarrow> (raised, pilot_request) res" where
  "turn_row k db =
     (if \<not> (1 \<le> k \<and> k \<le> max_rowid) then Inl (fail ''invalid_request'')
      else fetch ''not_found'' (find (\<lambda>r. rq_sequence r = k \<and> rq_operation r = ''turn''
        \<and> owned_request db r) (db_requests db)))"

definition expired :: "rat \<Rightarrow> pilot_request \<Rightarrow> bool" where
  "expired now r = (rq_created_at r + 120 \<le> now)"

definition live :: "rat \<Rightarrow> pilot_request \<Rightarrow> (raised, unit) res" where
  "live now r =
     (if rq_state r \<noteq> ''RUNNING'' \<or> rq_cancel_requested r then Inl (fail ''conflict'')
      else if expired now r then Inl (Pilot (PilotError ''uncertainty'' 503 True))
      else Inr ())"

definition set_request :: "int \<Rightarrow> (pilot_request \<Rightarrow> pilot_request) \<Rightarrow> pilot_db \<Rightarrow> pilot_db" where
  "set_request k f db =
     db\<lparr>db_requests := map (\<lambda>r. if rq_sequence r = k then f r else r) (db_requests db)\<rparr>"

definition blank_request :: "str \<Rightarrow> str \<Rightarrow> str \<Rightarrow> str \<Rightarrow> op_input \<Rightarrow> str \<Rightarrow> str \<Rightarrow> rat \<Rightarrow> pilot_request" where
  "blank_request owner rid op digest inp st phase now =
     \<lparr>rq_sequence = 0, rq_owner_id = owner, rq_request_id = rid, rq_operation = op,
      rq_input_digest = digest, rq_input = inp, rq_task_id = None, rq_thread_id = None,
      rq_resource_id = None, rq_state = st, rq_phase = phase, rq_cancel_requested = False,
      rq_model_attempts = 0, rq_tool_attempts = 0, rq_result = None, rq_result_digest = None,
      rq_error_code = None, rq_provider_config_id = None, rq_user_message_id = None,
      rq_assistant_message_id = None, rq_created_at = now, rq_updated_at = now\<rparr>"

text \<open>Insertions; a violated key is an \<open>sqlite3.Error\<close>.\<close>

definition insert_request :: "pilot_request \<Rightarrow> unit work" where
  "insert_request r s =
     (let db = ps_db s in
      if db_request_seq db \<ge> max_rowid
        \<or> list_ex (\<lambda>x. rq_owner_id x = rq_owner_id r \<and> rq_request_id x = rq_request_id r
             \<or> rq_task_id r \<noteq> None \<and> rq_task_id x = rq_task_id r) (db_requests db)
      then (Inl (fail ''store''), s)
      else (Inr (), s\<lparr>ps_db := db\<lparr>
        db_requests := db_requests db @ [r\<lparr>rq_sequence := db_request_seq db + 1\<rparr>],
        db_request_seq := db_request_seq db + 1\<rparr>\<rparr>))"

definition insert_workspace :: "workspace \<Rightarrow> unit work" where
  "insert_workspace w s =
     (if list_ex (\<lambda>x. ws_id x = ws_id w) (db_workspaces (ps_db s)) then (Inl (fail ''store''), s)
      else (Inr (), s\<lparr>ps_db := (ps_db s)\<lparr>db_workspaces := db_workspaces (ps_db s) @ [w]\<rparr>\<rparr>))"

definition insert_subject :: "str \<Rightarrow> str \<Rightarrow> unit work" where
  "insert_subject owner ws s =
     (let db = ps_db s in
      if db_subject_seq db \<ge> max_rowid
        \<or> list_ex (\<lambda>x. su_owner_id x = owner \<or> su_workspace_id x = ws) (db_subjects db)
      then (Inl (fail ''store''), s)
      else (Inr (), s\<lparr>ps_db := db\<lparr>
        db_subjects := db_subjects db @ [\<lparr>su_quota_id = db_subject_seq db + 1, su_owner_id = owner,
          su_workspace_id = ws\<rparr>],
        db_subject_seq := db_subject_seq db + 1\<rparr>\<rparr>))"

definition insert_thread :: "thread \<Rightarrow> unit work" where
  "insert_thread t s =
     (if list_ex (\<lambda>x. th_id x = th_id t) (db_threads (ps_db s)) then (Inl (fail ''store''), s)
      else (Inr (), s\<lparr>ps_db := (ps_db s)\<lparr>db_threads := db_threads (ps_db s) @ [t]\<rparr>\<rparr>))"

text \<open>A primary key of type \<open>TEXT\<close> admits several nulls.\<close>

definition insert_message :: "thread_message \<Rightarrow> unit work" where
  "insert_message m s =
     (if list_ex (\<lambda>x. ms_id m \<noteq> None \<and> ms_id x = ms_id m) (db_messages (ps_db s))
      then (Inl (fail ''store''), s)
      else (Inr (), s\<lparr>ps_db := (ps_db s)\<lparr>db_messages := db_messages (ps_db s) @ [m]\<rparr>\<rparr>))"

definition event :: "int \<Rightarrow> str \<Rightarrow> str \<Rightarrow> rat \<Rightarrow> unit work" where
  "event k phase code now s =
     (let db = ps_db s in
      if db_event_seq db \<ge> max_rowid then (Inl (fail ''store''), s)
      else (Inr (), s\<lparr>ps_db := db\<lparr>
        db_events := db_events db @ [\<lparr>ev_id = db_event_seq db + 1, ev_sequence = k, ev_phase = phase,
          ev_code = code, ev_created_at = now\<rparr>],
        db_event_seq := db_event_seq db + 1\<rparr>\<rparr>))"

section \<open>Workspaces and threads\<close>

definition workspace_of :: "(nat \<Rightarrow> rat) \<Rightarrow> (nat \<Rightarrow> str) \<Rightarrow> principal \<Rightarrow> str work" where
  "workspace_of clk uid p s =
     (case find (\<lambda>u. su_owner_id u = pr_owner_id p) (db_subjects (ps_db s)) of
        Some u \<Rightarrow> give (su_workspace_id u) s
      | None \<Rightarrow>
          then_do (insert_workspace \<lparr>ws_id = uid 0, ws_owner = pr_owner_id p, ws_title = ''Owner pilot'',
              ws_created_at = clk 0\<rparr>)
            (\<lambda>_. then_do (insert_subject (pr_owner_id p) (uid 0)) (\<lambda>_. give (uid 0))) s)"

definition ensure_workspace :: "pilot_io \<Rightarrow> (nat \<Rightarrow> rat) \<Rightarrow> (nat \<Rightarrow> str) \<Rightarrow> principal \<Rightarrow> str work" where
  "ensure_workspace io clk uid p =
     then_do (of_res (check_principal p)) (\<lambda>_. run_work io False (workspace_of clk uid p))"

record thread_view =
  tv_id :: str
  tv_title :: str
  tv_parent :: "str option"
  tv_state :: str
  tv_created_at :: rat
  tv_updated_at :: rat

definition wire_id :: "str \<Rightarrow> bool" where
  "wire_id v = (1 \<le> length v \<and> length v \<le> 128)"

definition view_thread :: "thread \<Rightarrow> (raised, thread_view) res" where
  "view_thread t =
     (if wire_id (th_id t) \<and> 1 \<le> length (th_title t) \<and> length (th_title t) \<le> 120
        \<and> (case th_parent t of None \<Rightarrow> True | Some i \<Rightarrow> wire_id i)
      then Inr \<lparr>tv_id = th_id t, tv_title = th_title t, tv_parent = th_parent t, tv_state = th_state t,
        tv_created_at = th_created_at t, tv_updated_at = th_updated_at t\<rparr>
      else Inl Py_ValueError)"

record receipt =
  rc_request_id :: str
  rc_state :: str
  rc_replayed :: bool
  rc_resource_id :: str

definition create_thread_work :: "(nat \<Rightarrow> rat) \<Rightarrow> (nat \<Rightarrow> str) \<Rightarrow> principal \<Rightarrow> str \<Rightarrow> str \<Rightarrow> str option \<Rightarrow> str
    \<Rightarrow> (receipt \<times> thread_view) work" where
  "create_thread_work clk uid p rid title parent digest s =
     (case stored_request (pr_owner_id p) rid (ps_db s) of
        Some old \<Rightarrow>
          then_do (guard (rq_operation old = ''new_thread'' \<and> rq_input_digest old = digest
              \<and> rq_input old = New_Thread title parent) ''conflict'')
            (\<lambda>_. then_do (query (thread_row p (rq_resource_id old)))
              (\<lambda>t. then_do (of_res (view_thread t))
                (\<lambda>v. give (\<lparr>rc_request_id = rid, rc_state = rq_state old, rc_replayed = True,
                  rc_resource_id = th_id t\<rparr>, v)))) s
      | None \<Rightarrow>
          then_do (workspace_of clk uid p)
            (\<lambda>ws. then_do (case parent of None \<Rightarrow> give () | Some i \<Rightarrow>
                 then_do (query (thread_row p (Some i))) (\<lambda>_. give ()))
              (\<lambda>_. then_do (insert_thread \<lparr>th_id = uid 1, th_workspace_id = ws, th_owner = pr_owner_id p,
                  th_title = title, th_parent = parent, th_state = ''active'', th_created_at = clk 1,
                  th_updated_at = clk 1\<rparr>)
                (\<lambda>_. then_do (insert_request
                    ((blank_request (pr_owner_id p) rid ''new_thread'' digest (New_Thread title parent)
                      ''COMPLETED'' ''committed'' (clk 1))
                     \<lparr>rq_thread_id := Some (uid 1), rq_resource_id := Some (uid 1)\<rparr>))
                  (\<lambda>_. then_do (query (thread_row p (Some (uid 1))))
                    (\<lambda>t. then_do (of_res (view_thread t))
                      (\<lambda>v. give (\<lparr>rc_request_id = rid, rc_state = ''COMPLETED'', rc_replayed = False,
                        rc_resource_id = uid 1\<rparr>, v))))))) s)"

definition create_thread :: "codec \<Rightarrow> pilot_io \<Rightarrow> (nat \<Rightarrow> rat) \<Rightarrow> (nat \<Rightarrow> str) \<Rightarrow> principal \<Rightarrow> str \<Rightarrow> str
    \<Rightarrow> str option \<Rightarrow> (receipt \<times> thread_view) work" where
  "create_thread cd io clk uid p rid title parent =
     then_do (of_res (check_principal p))
       (\<lambda>_. then_do (of_res (check_id rid))
         (\<lambda>_. then_do (guard (1 \<le> length title \<and> length title \<le> 120) ''invalid_request'')
           (\<lambda>_. then_do (of_res (canonical_input cd (New_Thread title parent)))
             (\<lambda>digest. run_work io False (create_thread_work clk uid p rid title parent digest)))))"

section \<open>Turns\<close>

text \<open>A record that is returned: the row, and whether it is a replay.\<close>

type_synonym admission_record = "pilot_request \<times> bool"

definition admit_work :: "(nat \<Rightarrow> rat) \<Rightarrow> (nat \<Rightarrow> str) \<Rightarrow> principal \<Rightarrow> str \<Rightarrow> str \<Rightarrow> str \<Rightarrow> str
    \<Rightarrow> admission_record work" where
  "admit_work clk uid p rid thread msg digest =
     then_do (query (thread_row p (Some thread)))
       (\<lambda>_ s. case stored_request (pr_owner_id p) rid (ps_db s) of
          Some old \<Rightarrow>
            then_do (guard (rq_operation old = ''turn'' \<and> rq_input_digest old = digest
                \<and> rq_input old = Turn_Input thread msg) ''conflict'') (\<lambda>_. give (old, True)) s
        | None \<Rightarrow>
            then_do (insert_request
                ((blank_request (pr_owner_id p) rid ''turn'' digest (Turn_Input thread msg)
                  ''ADMITTED'' ''admitted'' (clk 0))
                 \<lparr>rq_task_id := Some (uid 0), rq_thread_id := Some thread, rq_resource_id := Some (uid 0),
                  rq_user_message_id := Some (uid 1), rq_assistant_message_id := Some (uid 2)\<rparr>))
              (\<lambda>_. then_do (query (request_row p rid))
                (\<lambda>r s'. (Inr (r, False), s'\<lparr>ps_fresh := insert (rq_sequence r) (ps_fresh s')\<rparr>))) s)"

text \<open>A payload is a dict; every rejection of \<open>OwnerTaskRequest\<close> is the same error.\<close>

definition turn_payload :: "(str \<times> json) list \<Rightarrow> (str \<times> str) option" where
  "turn_payload payload =
     (if set (map fst payload) \<noteq> {''thread_id'', ''message''} then None
      else case (map_of payload ''thread_id'', map_of payload ''message'') of
          (Some (JStr thread), Some (JStr msg)) \<Rightarrow>
            if wire_id thread \<and> 1 \<le> length msg \<and> int (length msg) \<le> 8000 then Some (thread, msg) else None
        | _ \<Rightarrow> None)"

definition admit :: "codec \<Rightarrow> pilot_io \<Rightarrow> (nat \<Rightarrow> rat) \<Rightarrow> (nat \<Rightarrow> str) \<Rightarrow> principal \<Rightarrow> str \<Rightarrow> str
    \<Rightarrow> (str \<times> json) list \<Rightarrow> admission_record work" where
  "admit cd io clk uid p rid op payload =
     then_do (of_res (check_principal p))
       (\<lambda>_. then_do (of_res (check_id rid))
         (\<lambda>_. then_do (guard (op = ''turn'') ''invalid_request'')
           (\<lambda>_. then_do (of_res (fetch ''invalid_request'' (turn_payload payload)))
             (\<lambda>(thread, msg). then_do (of_res (canonical_input cd (Turn_Input thread msg)))
               (\<lambda>digest. run_work io False (admit_work clk uid p rid thread msg digest))))))"

definition claimable :: "rat \<Rightarrow> int set \<Rightarrow> pilot_request \<Rightarrow> bool" where
  "claimable now fresh r =
     (rq_sequence r \<in> fresh \<and> rq_state r = ''ADMITTED'' \<and> rq_phase r = ''admitted''
      \<and> \<not> rq_cancel_requested r \<and> \<not> expired now r)"

definition claim_work :: "(nat \<Rightarrow> rat) \<Rightarrow> principal \<Rightarrow> str \<Rightarrow> str \<Rightarrow> (admission_record \<times> int) work" where
  "claim_work clk p rid task =
     then_do (query (request_row p rid))
       (\<lambda>r. then_do (guard (rq_task_id r = Some task \<and> rq_operation r = ''turn'') ''not_found'')
         (\<lambda>_. then_do (query (thread_row p (rq_thread_id r)))
           (\<lambda>_ s. then_do (guard (claimable (clk 0) (ps_fresh s) r) ''conflict'')
             (\<lambda>_ s. then_do (modify (set_request (rq_sequence r)
                   (\<lambda>x. x\<lparr>rq_phase := ''reserved'', rq_updated_at := clk 1\<rparr>)))
               (\<lambda>_. then_do (query (\<lambda>db.
                   case find (\<lambda>u. su_owner_id u = pr_owner_id p) (db_subjects db) of
                     None \<Rightarrow> Inl Py_TypeError | Some u \<Rightarrow> Inr (su_quota_id u)))
                 (\<lambda>quota. give ((r, False), quota)))
               (s\<lparr>ps_fresh := ps_fresh s - {rq_sequence r}\<rparr>)) s)))"

definition claim :: "pilot_io \<Rightarrow> (nat \<Rightarrow> rat) \<Rightarrow> principal \<Rightarrow> str \<Rightarrow> str \<Rightarrow> (admission_record \<times> int) work" where
  "claim io clk p rid task =
     then_do (of_res (check_principal p))
       (\<lambda>_. then_do (of_res (check_id rid))
         (\<lambda>_. then_do (of_res (check_id task)) (\<lambda>_. run_work io False (claim_work clk p rid task))))"

definition get_work :: "principal \<Rightarrow> str \<Rightarrow> admission_record work" where
  "get_work p task =
     then_do (query (\<lambda>db. fetch ''not_found'' (stored_turn (pr_owner_id p) task db)))
       (\<lambda>r. then_do (query (thread_row p (rq_thread_id r))) (\<lambda>_. give (r, False)))"

definition get_turn :: "pilot_io \<Rightarrow> principal \<Rightarrow> str \<Rightarrow> admission_record work" where
  "get_turn io p task =
     then_do (of_res (check_principal p))
       (\<lambda>_. then_do (of_res (check_id task)) (\<lambda>_. run_work io False (get_work p task)))"

definition get_request :: "pilot_io \<Rightarrow> principal \<Rightarrow> str \<Rightarrow> admission_record work" where
  "get_request io p rid =
     then_do (of_res (check_principal p))
       (\<lambda>_. then_do (of_res (check_id rid))
         (\<lambda>_. run_work io False (then_do (query (request_row p rid)) (\<lambda>r. give (r, False)))))"

definition owner_turns :: "str \<Rightarrow> pilot_db \<Rightarrow> pilot_request list" where
  "owner_turns owner db =
     filter (\<lambda>r. rq_owner_id r = owner \<and> owned_request db r \<and> rq_operation r = ''turn'') (db_requests db)"

definition has_uncertainty :: "pilot_io \<Rightarrow> principal \<Rightarrow> bool work" where
  "has_uncertainty io p =
     then_do (of_res (check_principal p))
       (\<lambda>_. run_work io False (query (\<lambda>db.
          Inr (list_ex (\<lambda>r. rq_state r = ''UNCERTAIN'') (owner_turns (pr_owner_id p) db)))))"

definition list_tasks :: "pilot_io \<Rightarrow> principal \<Rightarrow> int \<Rightarrow> admission_record list work" where
  "list_tasks io p limit =
     then_do (of_res (check_principal p))
       (\<lambda>_. then_do (guard (1 \<le> limit \<and> limit \<le> 100) ''invalid_request'')
         (\<lambda>_. run_work io False (query (\<lambda>db. Inr (map (\<lambda>r. (r, False))
            (take (nat limit) (rev (sort_key rq_sequence (owner_turns (pr_owner_id p) db)))))))))"

section \<open>The life of a turn\<close>

fun targets :: "str \<Rightarrow> str list" where
  "targets from =
     (if from = ''ADMITTED'' then [''RUNNING'', ''FAILED'', ''DENIED'', ''CANCELLED'', ''UNCERTAIN'']
      else if from = ''RUNNING'' then [''FAILED'', ''UNCERTAIN'']
      else [])"

definition phases :: "str list" where
  "phases = [''admitted'', ''reserved'', ''running'', ''dispatch'', ''request'', ''result'', ''staged'',
     ''committed'', ''finished'', ''failed'', ''denied'', ''cancelled'', ''uncertain'', ''recovery'']"

definition transition_work :: "(nat \<Rightarrow> rat) \<Rightarrow> int \<Rightarrow> str \<Rightarrow> str \<Rightarrow> str \<Rightarrow> str option \<Rightarrow> unit work" where
  "transition_work clk k expected st phase err =
     then_do (query (turn_row k))
       (\<lambda>r. then_do (guard (\<not> (rq_state r \<noteq> expected
             \<or> st = ''RUNNING'' \<and> (rq_cancel_requested r \<or> expired (clk 0) r))) ''conflict'')
         (\<lambda>_. then_do (guard (\<not> (st = ''CANCELLED'' \<and> (rq_model_attempts r \<noteq> 0 \<or> rq_tool_attempts r \<noteq> 0)))
               ''conflict'')
           (\<lambda>_. then_do (modify (set_request k (\<lambda>x. x\<lparr>rq_state := st, rq_phase := phase,
                 rq_error_code := err, rq_updated_at := clk 1\<rparr>)))
             (\<lambda>_. then_do (event k phase (case err of Some c \<Rightarrow> c | None \<Rightarrow> py_lower st) (clk 2))
               (\<lambda>_. if st \<noteq> ''RUNNING'' then settle k else give ())))))"

definition transition :: "pilot_io \<Rightarrow> (nat \<Rightarrow> rat) \<Rightarrow> int \<Rightarrow> str \<Rightarrow> str \<Rightarrow> str \<Rightarrow> str option \<Rightarrow> unit work" where
  "transition io clk k expected st phase err =
     then_do (guard (st \<in> set (targets expected) \<and> phase \<in> set phases) ''conflict'')
       (\<lambda>_. then_do (guard (case err of None \<Rightarrow> True | Some c \<Rightarrow> c \<in> fst ` set error_table) ''invalid_request'')
         (\<lambda>_. run_work io False (transition_work clk k expected st phase err)))"

definition turn_result_of :: "codec \<Rightarrow> pilot_request \<Rightarrow> str \<Rightarrow> execution_assessment option
    \<Rightarrow> (raised, turn_result) res" where
  "turn_result_of cd r txt a =
     (if py_strip txt = [] then Inl (fail ''invalid_request'')
      else if int (length (utf8 txt)) > 65536 then Inl (fail ''too_large'')
      else case a of
          None \<Rightarrow> Inr \<lparr>tr_task_id = rq_task_id r, tr_response = txt, tr_assessment = None\<rparr>
        | Some e \<Rightarrow>
            if \<not> execution_consistent e then Inl Py_ValueError
            else if rq_task_id r \<noteq> Some (ex_task_id e)
              \<or> ex_output_sha256 e \<noteq> output_digest (cd_sha cd) (Text_Output txt)
              \<or> ex_execution_status e \<noteq> Completed
            then Inl (fail ''conflict'')
            else Inr \<lparr>tr_task_id = rq_task_id r, tr_response = txt, tr_assessment = Some e\<rparr>)"

definition raw_report :: "raw_assessment \<Rightarrow> (raised, execution_assessment option) res" where
  "raw_report a =
     (case a of
        Raw_None \<Rightarrow> Inr None
      | Raw_Dump e \<Rightarrow> if execution_consistent e then Inr (Some e) else Inl Py_ValueError
      | Raw_Other None \<Rightarrow> Inl Py_ValueError
      | Raw_Other (Some e) \<Rightarrow> Inr (Some e))"

text \<open>The report and the result bound to the row, with a \<open>ValueError\<close> turned into
  \<open>invalid_request\<close>.\<close>

definition staged_bound :: "codec \<Rightarrow> pilot_request \<Rightarrow> json \<Rightarrow> raw_assessment \<Rightarrow> (raised, turn_result) res" where
  "staged_bound cd r response a =
     map_sum (\<lambda>e. if e = Py_ValueError then fail ''invalid_request'' else e) id
       (case raw_report a of
          Inl e \<Rightarrow> Inl e
        | Inr e \<Rightarrow>
            (case response of JStr txt \<Rightarrow> turn_result_of cd r txt e | _ \<Rightarrow> Inl (fail ''invalid_request'')))"

definition stage_work :: "codec \<Rightarrow> (nat \<Rightarrow> rat) \<Rightarrow> int \<Rightarrow> json \<Rightarrow> json \<Rightarrow> raw_assessment \<Rightarrow> unit work" where
  "stage_work cd clk k task response a =
     then_do (query (turn_row k))
       (\<lambda>r. then_do (of_res (live (clk 0) r))
         (\<lambda>_. then_do (of_res (staged_bound cd r response a))
           (\<lambda>bound. then_do (guard (task = (case tr_task_id bound of None \<Rightarrow> JNull | Some t \<Rightarrow> JStr t)
                 \<and> (case a of Raw_Other _ \<Rightarrow> False | _ \<Rightarrow> True)) ''conflict'')
             (\<lambda>_. then_do (of_res (canonical_result cd bound))
               (\<lambda>digest. then_do (guard (rq_result r = None
                     \<or> rq_result r = Some bound \<and> rq_result_digest r = Some digest) ''conflict'')
                 (\<lambda>_. then_do (modify (set_request k (\<lambda>x. x\<lparr>rq_result := Some bound,
                       rq_result_digest := Some digest, rq_phase := ''staged'', rq_updated_at := clk 1\<rparr>)))
                   (\<lambda>_. event k ''staged'' ''staged'' (clk 2))))))))"

definition stage_result :: "codec \<Rightarrow> pilot_io \<Rightarrow> (nat \<Rightarrow> rat) \<Rightarrow> int \<Rightarrow> raw_result \<Rightarrow> unit work" where
  "stage_result cd io clk k result =
     (case result of
        Wrong_Keys \<Rightarrow> throw (fail ''invalid_request'')
      | Raw_Result task response a \<Rightarrow>
          then_do (of_res (canonical_raw cd result))
            (\<lambda>_. run_work io False (stage_work cd clk k task response a)))"

definition publish :: "(nat \<Rightarrow> rat) \<Rightarrow> pilot_request \<Rightarrow> str \<Rightarrow> str \<Rightarrow> str \<Rightarrow> unit work" where
  "publish clk r thread msg txt =
     then_do (insert_message \<lparr>ms_id = rq_user_message_id r, ms_thread_id = thread, ms_role = ''user'',
         ms_content = msg, ms_created_at = clk 1\<rparr>)
       (\<lambda>_. then_do (insert_message \<lparr>ms_id = rq_assistant_message_id r, ms_thread_id = thread,
           ms_role = ''assistant'', ms_content = txt, ms_created_at = clk 1\<rparr>)
         (\<lambda>_. modify (\<lambda>db. db\<lparr>db_threads := map (\<lambda>t. if th_id t = thread \<and> th_owner t = rq_owner_id r
             then t\<lparr>th_updated_at := clk 1\<rparr> else t) (db_threads db)\<rparr>)))"

definition commit_work :: "codec \<Rightarrow> (nat \<Rightarrow> rat) \<Rightarrow> int \<Rightarrow> str \<Rightarrow> execution_assessment option \<Rightarrow> unit work" where
  "commit_work cd clk k txt a =
     then_do (query (turn_row k))
       (\<lambda>r. then_do (of_res (live (clk 0) r))
         (\<lambda>_. then_do (of_res (turn_result_of cd r txt a))
           (\<lambda>bound. then_do (of_res (canonical_result cd bound))
             (\<lambda>digest. then_do (guard (rq_result r = Some bound \<and> rq_result_digest r = Some digest) ''conflict'')
               (\<lambda>_. case rq_input r of
                  Turn_Input thread msg \<Rightarrow>
                    then_do (guard (cd_sha cd (utf8 (input_text (rq_input r))) = rq_input_digest r
                        \<and> rq_thread_id r = Some thread) ''store'')
                      (\<lambda>_. then_do (publish clk r thread msg txt)
                        (\<lambda>_. then_do (modify (set_request k (\<lambda>x. x\<lparr>rq_state := ''COMPLETED'',
                              rq_phase := ''committed'', rq_updated_at := clk 1\<rparr>)))
                          (\<lambda>_. then_do (event k ''committed'' ''completed'' (clk 2)) (\<lambda>_. settle k))))
                | _ \<Rightarrow> throw Py_TypeError)))))"

definition commit_turn :: "codec \<Rightarrow> pilot_io \<Rightarrow> (nat \<Rightarrow> rat) \<Rightarrow> int \<Rightarrow> str \<Rightarrow> execution_assessment option \<Rightarrow> unit work" where
  "commit_turn cd io clk k txt a = run_work io True (commit_work cd clk k txt a)"

definition cancelled_state :: "pilot_request \<Rightarrow> str" where
  "cancelled_state r =
     (if rq_state r = ''ADMITTED'' \<and> rq_model_attempts r = 0 \<and> rq_tool_attempts r = 0
      then ''CANCELLED'' else rq_state r)"

definition is_open :: "pilot_request \<Rightarrow> bool" where
  "is_open r = (rq_state r = ''ADMITTED'' \<or> rq_state r = ''RUNNING'')"

definition cancel_work :: "(nat \<Rightarrow> rat) \<Rightarrow> principal \<Rightarrow> str \<Rightarrow> str \<Rightarrow> str \<Rightarrow> admission_record work" where
  "cancel_work clk p task rid digest =
     then_do (query (\<lambda>db. fetch ''not_found'' (stored_turn (pr_owner_id p) task db)))
       (\<lambda>r. then_do (query (thread_row p (rq_thread_id r)))
         (\<lambda>_ s. case stored_request (pr_owner_id p) rid (ps_db s) of
            Some old \<Rightarrow>
              then_do (guard (rq_operation old = ''cancel'' \<and> rq_input_digest old = digest
                  \<and> rq_input old = Cancel_Input task) ''conflict'') (\<lambda>_. give (r, True)) s
          | None \<Rightarrow>
              then_do (insert_request
                  ((blank_request (pr_owner_id p) rid ''cancel'' digest (Cancel_Input task)
                    ''COMPLETED'' ''cancelled'' (clk 0))
                   \<lparr>rq_thread_id := rq_thread_id r, rq_resource_id := Some task\<rparr>))
                (\<lambda>_. then_do
                  (if is_open r
                   then then_do (modify (set_request (rq_sequence r) (\<lambda>x. x\<lparr>rq_cancel_requested := True,
                            rq_state := cancelled_state r, rq_phase := ''cancelled'', rq_updated_at := clk 0\<rparr>)))
                          (\<lambda>_. then_do (settle (rq_sequence r))
                            (\<lambda>_. event (rq_sequence r) ''cancelled'' ''cancelled'' (clk 1)))
                   else give ())
                  (\<lambda>_. then_do (query (turn_row (rq_sequence r))) (\<lambda>x. give (x, False)))) s))"

definition request_cancel :: "codec \<Rightarrow> pilot_io \<Rightarrow> (nat \<Rightarrow> rat) \<Rightarrow> principal \<Rightarrow> str \<Rightarrow> str \<Rightarrow> admission_record work" where
  "request_cancel cd io clk p task rid =
     then_do (of_res (check_principal p))
       (\<lambda>_. then_do (of_res (check_id task))
         (\<lambda>_. then_do (of_res (check_id rid))
           (\<lambda>_. then_do (of_res (canonical_input cd (Cancel_Input task)))
             (\<lambda>digest. run_work io False (cancel_work clk p task rid digest)))))"

definition recover_row :: "rat \<Rightarrow> rat \<Rightarrow> int \<Rightarrow> admission_record work" where
  "recover_row now1 now2 k =
     then_do (modify (set_request k (\<lambda>x. x\<lparr>rq_state := ''UNCERTAIN'', rq_phase := ''recovery'',
           rq_error_code := Some ''uncertainty'', rq_updated_at := now1\<rparr>)))
       (\<lambda>_. then_do (settle k)
         (\<lambda>_. then_do (event k ''recovery'' ''uncertainty'' now2)
           (\<lambda>_. then_do (query (turn_row k)) (\<lambda>r. give (r, False)))))"

fun recover_rows :: "(nat \<Rightarrow> rat) \<Rightarrow> nat \<Rightarrow> int list \<Rightarrow> admission_record list work" where
  "recover_rows clk i [] = give []"
| "recover_rows clk i (k # ks) =
     then_do (recover_row (clk (2 * i)) (clk (2 * i + 1)) k)
       (\<lambda>r. then_do (recover_rows clk (Suc i) ks) (\<lambda>rs. give (r # rs)))"

definition open_turns :: "pilot_db \<Rightarrow> pilot_request list" where
  "open_turns db = filter (\<lambda>r. rq_operation r = ''turn'' \<and> is_open r) (db_requests db)"

definition recover_interrupted :: "pilot_io \<Rightarrow> (nat \<Rightarrow> rat) \<Rightarrow> admission_record list work" where
  "recover_interrupted io clk =
     run_work io False (\<lambda>s.
       recover_rows clk 0 (map rq_sequence (sort_key rq_sequence (open_turns (ps_db s)))) s)"

datatype attempt_kind = Model_Attempt | Tool_Attempt | Other_Attempt str

definition attempts :: "attempt_kind \<Rightarrow> pilot_request \<Rightarrow> int" where
  "attempts kind r = (if kind = Model_Attempt then rq_model_attempts r else rq_tool_attempts r)"

definition attempt_ceiling :: "attempt_kind \<Rightarrow> int" where
  "attempt_ceiling kind = (if kind = Model_Attempt then 8 else 4)"

definition reserve_work :: "(nat \<Rightarrow> rat) \<Rightarrow> int \<Rightarrow> attempt_kind \<Rightarrow> int \<Rightarrow> bool work" where
  "reserve_work clk k kind limit =
     then_do (query (turn_row k))
       (\<lambda>r. if rq_state r \<noteq> ''RUNNING'' \<or> rq_cancel_requested r \<or> limit \<le> attempts kind r
             \<or> expired (clk 0) r
           then give False
           else then_do (modify (set_request k (if kind = Model_Attempt
                  then (\<lambda>x. x\<lparr>rq_model_attempts := rq_model_attempts x + 1, rq_updated_at := clk 1\<rparr>)
                  else (\<lambda>x. x\<lparr>rq_tool_attempts := rq_tool_attempts x + 1, rq_updated_at := clk 1\<rparr>))))
             (\<lambda>_. then_do (event k ''dispatch'' (if kind = Model_Attempt then ''model'' else ''tool'') (clk 2))
               (\<lambda>_. give True)))"

definition reserve_attempt :: "pilot_io \<Rightarrow> (nat \<Rightarrow> rat) \<Rightarrow> int \<Rightarrow> attempt_kind \<Rightarrow> int \<Rightarrow> bool work" where
  "reserve_attempt io clk k kind limit =
     then_do (guard (kind \<in> {Model_Attempt, Tool_Attempt} \<and> 1 \<le> limit \<and> limit \<le> attempt_ceiling kind)
         ''invalid_request'')
       (\<lambda>_. run_work io False (reserve_work clk k kind limit))"

section \<open>Reading\<close>

fun collect :: "('a \<Rightarrow> (raised, 'b) res) \<Rightarrow> 'a list \<Rightarrow> (raised, 'b list) res" where
  "collect f [] = Inr []"
| "collect f (x # xs) =
     (case f x of Inl e \<Rightarrow> Inl e | Inr y \<Rightarrow> (case collect f xs of Inl e \<Rightarrow> Inl e | Inr ys \<Rightarrow> Inr (y # ys)))"

definition list_threads :: "pilot_io \<Rightarrow> principal \<Rightarrow> thread_view list work" where
  "list_threads io p =
     then_do (of_res (check_principal p))
       (\<lambda>_. run_work io False (query (\<lambda>db.
          collect view_thread (filter (owned_thread db (pr_owner_id p)) (db_threads db)))))"

definition view_message :: "thread_message \<Rightarrow> (raised, thread_message) res" where
  "view_message m =
     (if (case ms_id m of None \<Rightarrow> False | Some i \<Rightarrow> wire_id i) \<and> wire_id (ms_thread_id m)
        \<and> ms_role m \<in> {''user'', ''assistant'', ''system''}
      then Inr m else Inl Py_ValueError)"

definition list_messages :: "pilot_io \<Rightarrow> principal \<Rightarrow> str \<Rightarrow> thread_message list work" where
  "list_messages io p tid =
     then_do (of_res (check_principal p))
       (\<lambda>_. run_work io False (then_do (query (thread_row p (Some tid)))
          (\<lambda>_. query (\<lambda>db. collect view_message (filter (\<lambda>m. ms_thread_id m = tid) (db_messages db))))))"

end
