(* ===== verification/Admission_Spec.thy ===== *)
theory Admission_Spec
  imports Admission_Store "HOL-Library.Multiset"
begin

text \<open>
  The abstract specification of the owner pilot's store. The relation \<open>db_step\<close> lists the
  seven ways in which a committed transaction may change the tables on behalf of an owner;
  its first argument says whether publishing messages is among them. The invariants are
  proved on the steps: the tables stay consistent, the messages are those of the published
  turns, rows only move forward, the rows of other owners stay as they are. The operations of
  \<open>Admission_Store\<close> are shown to refine the steps in \<open>Admission_Turns\<close>.
\<close>

section \<open>Abstract steps\<close>

definition settled :: "pilot_request \<Rightarrow> bool" where
  "settled r = (\<not> is_open r)"

definition same_request :: "pilot_request \<Rightarrow> pilot_request \<Rightarrow> bool" where
  "same_request r r' =
     (rq_sequence r' = rq_sequence r \<and> rq_owner_id r' = rq_owner_id r
      \<and> rq_request_id r' = rq_request_id r \<and> rq_operation r' = rq_operation r
      \<and> rq_input_digest r' = rq_input_digest r \<and> rq_input r' = rq_input r
      \<and> rq_task_id r' = rq_task_id r \<and> rq_thread_id r' = rq_thread_id r
      \<and> rq_resource_id r' = rq_resource_id r \<and> rq_user_message_id r' = rq_user_message_id r
      \<and> rq_assistant_message_id r' = rq_assistant_message_id r \<and> rq_created_at r' = rq_created_at r)"

definition unclaimed :: "pilot_request \<Rightarrow> bool" where
  "unclaimed r = (rq_state r = ''ADMITTED'' \<and> rq_phase r = ''admitted'')"

definition turn_move :: "pilot_request \<Rightarrow> pilot_request \<Rightarrow> bool" where
  "turn_move r r' =
     (same_request r r' \<and> is_open r
      \<and> (rq_state r' = rq_state r \<or> rq_state r' \<in> set (targets (rq_state r)))
      \<and> (rq_model_attempts r' = rq_model_attempts r
         \<or> rq_model_attempts r' = rq_model_attempts r + 1 \<and> rq_model_attempts r' \<le> 8)
      \<and> (rq_tool_attempts r' = rq_tool_attempts r
         \<or> rq_tool_attempts r' = rq_tool_attempts r + 1 \<and> rq_tool_attempts r' \<le> 4)
      \<and> (rq_cancel_requested r \<longrightarrow> rq_cancel_requested r')
      \<and> (rq_result r \<noteq> None \<longrightarrow> rq_result r' = rq_result r)
      \<and> \<not> unclaimed r')"

definition add_request :: "pilot_request \<Rightarrow> pilot_db \<Rightarrow> pilot_db" where
  "add_request r db = db\<lparr>
     db_requests := db_requests db @ [r\<lparr>rq_sequence := db_request_seq db + 1\<rparr>],
     db_request_seq := db_request_seq db + 1\<rparr>"

definition new_key :: "pilot_request \<Rightarrow> pilot_db \<Rightarrow> bool" where
  "new_key r db = (db_request_seq db < max_rowid \<and> (\<forall>x \<in> set (db_requests db).
     \<not> (rq_owner_id x = rq_owner_id r \<and> rq_request_id x = rq_request_id r)
     \<and> (rq_task_id r \<noteq> None \<longrightarrow> rq_task_id x \<noteq> rq_task_id r)))"

definition fresh_turn :: "pilot_request \<Rightarrow> bool" where
  "fresh_turn r = (rq_operation r = ''turn'' \<and> unclaimed r \<and> rq_task_id r \<noteq> None
     \<and> rq_user_message_id r \<noteq> None \<and> rq_assistant_message_id r \<noteq> None
     \<and> rq_model_attempts r = 0 \<and> rq_tool_attempts r = 0 \<and> rq_result r = None
     \<and> (\<exists>thread msg. rq_input r = Turn_Input thread msg \<and> rq_thread_id r = Some thread))"

definition published :: "pilot_request \<Rightarrow> bool" where
  "published r = (rq_operation r = ''turn'' \<and> rq_state r = ''COMPLETED'')"

definition publish_db :: "rat \<Rightarrow> pilot_request \<Rightarrow> str \<Rightarrow> str \<Rightarrow> str \<Rightarrow> pilot_db \<Rightarrow> pilot_db" where
  "publish_db now r thread msg txt db =
     set_request (rq_sequence r)
       (\<lambda>x. x\<lparr>rq_state := ''COMPLETED'', rq_phase := ''committed'', rq_updated_at := now\<rparr>)
       (db\<lparr>db_messages := db_messages db
            @ [\<lparr>ms_id = rq_user_message_id r, ms_thread_id = thread, ms_role = ''user'',
                ms_content = msg, ms_created_at = now\<rparr>,
               \<lparr>ms_id = rq_assistant_message_id r, ms_thread_id = thread, ms_role = ''assistant'',
                ms_content = txt, ms_created_at = now\<rparr>],
          db_threads := map (\<lambda>t. if th_id t = thread \<and> th_owner t = rq_owner_id r
             then t\<lparr>th_updated_at := now\<rparr> else t) (db_threads db)\<rparr>)"

inductive db_step :: "bool \<Rightarrow> str \<Rightarrow> pilot_db \<Rightarrow> pilot_db \<Rightarrow> bool" for pub owner where
  workspace: "\<forall>u \<in> set (db_subjects db). su_owner_id u \<noteq> owner \<and> su_workspace_id u \<noteq> ws_id w \<Longrightarrow>
    ws_owner w = owner \<Longrightarrow>
    db_step pub owner db (db\<lparr>db_workspaces := db_workspaces db @ [w],
      db_subjects := db_subjects db @ [\<lparr>su_quota_id = db_subject_seq db + 1, su_owner_id = owner,
        su_workspace_id = ws_id w\<rparr>],
      db_subject_seq := db_subject_seq db + 1\<rparr>)"
| thread: "\<forall>t' \<in> set (db_threads db). th_id t' \<noteq> th_id t \<Longrightarrow> th_owner t = owner \<Longrightarrow>
    db_step pub owner db (db\<lparr>db_threads := db_threads db @ [t]\<rparr>)"
| note_down: "rq_operation r \<noteq> ''turn'' \<Longrightarrow> settled r \<Longrightarrow> rq_task_id r = None \<Longrightarrow> rq_owner_id r = owner \<Longrightarrow>
    new_key r db \<Longrightarrow> db_step pub owner db (add_request r db)"
| admit: "fresh_turn r \<Longrightarrow> rq_owner_id r = owner \<Longrightarrow> owned_request db r \<Longrightarrow> new_key r db \<Longrightarrow>
    db_step pub owner db (add_request r db)"
| move: "r \<in> set (db_requests db) \<Longrightarrow> rq_operation r = ''turn'' \<Longrightarrow> rq_owner_id r = owner \<Longrightarrow>
    rq_sequence r = k \<Longrightarrow> turn_move r (f r) \<Longrightarrow> db_step pub owner db (set_request k f db)"
| log: "db_event_seq db < max_rowid \<Longrightarrow>
    db_step pub owner db (db\<lparr>db_events := db_events db @ [e], db_event_seq := db_event_seq db + 1\<rparr>)"
| publication: "pub \<Longrightarrow> r \<in> set (db_requests db) \<Longrightarrow> rq_operation r = ''turn'' \<Longrightarrow> rq_owner_id r = owner \<Longrightarrow>
    rq_state r = ''RUNNING'' \<Longrightarrow> \<not> rq_cancel_requested r \<Longrightarrow> rq_input r = Turn_Input thread msg \<Longrightarrow>
    rq_thread_id r = Some thread \<Longrightarrow> rq_result r = Some tr \<Longrightarrow> tr_response tr = txt \<Longrightarrow>
    db_step pub owner db (publish_db now r thread msg txt db)"

section \<open>Consistency of the tables\<close>

definition keys_ok :: "pilot_db \<Rightarrow> bool" where
  "keys_ok db =
     (map rq_sequence (db_requests db) = map (\<lambda>i. int i + 1) [0..<length (db_requests db)]
      \<and> db_request_seq db = int (length (db_requests db)) \<and> db_request_seq db \<le> max_rowid
      \<and> distinct (map (\<lambda>r. (rq_owner_id r, rq_request_id r)) (db_requests db))
      \<and> distinct (map th_id (db_threads db)))"

definition turn_ok :: "pilot_db \<Rightarrow> pilot_request \<Rightarrow> bool" where
  "turn_ok db r =
     (if rq_operation r = ''turn''
      then owned_request db r \<and> rq_task_id r \<noteq> None
        \<and> rq_user_message_id r \<noteq> None \<and> rq_assistant_message_id r \<noteq> None
        \<and> (\<exists>thread msg. rq_input r = Turn_Input thread msg \<and> rq_thread_id r = Some thread)
        \<and> 0 \<le> rq_model_attempts r \<and> rq_model_attempts r \<le> 8
        \<and> 0 \<le> rq_tool_attempts r \<and> rq_tool_attempts r \<le> 4
        \<and> (rq_state r = ''COMPLETED'' \<longrightarrow> rq_result r \<noteq> None)
      else settled r \<and> rq_task_id r = None)"

text \<open>The messages of a turn, without their time: id, thread, role and content.\<close>

definition message_core :: "thread_message \<Rightarrow> str option \<times> str \<times> str \<times> str" where
  "message_core m = (ms_id m, ms_thread_id m, ms_role m, ms_content m)"

definition turn_messages :: "pilot_request \<Rightarrow> (str option \<times> str \<times> str \<times> str) list" where
  "turn_messages r =
     (case (rq_input r, rq_result r) of
        (Turn_Input thread msg, Some tr) \<Rightarrow>
          [(rq_user_message_id r, thread, ''user'', msg),
           (rq_assistant_message_id r, thread, ''assistant'', tr_response tr)]
      | _ \<Rightarrow> [])"

definition messages_ok :: "pilot_db \<Rightarrow> bool" where
  "messages_ok db =
     (mset (map message_core (db_messages db))
      = mset (concat (map turn_messages (filter published (db_requests db)))))"

definition db_ok :: "pilot_db \<Rightarrow> bool" where
  "db_ok db = (keys_ok db \<and> (\<forall>r \<in> set (db_requests db). turn_ok db r) \<and> messages_ok db)"

declare targets.simps [simp del]

lemma keys_distinct: "keys_ok db \<Longrightarrow> distinct (map rq_sequence (db_requests db))"
  by (simp add: keys_ok_def distinct_map inj_on_def)

lemma set_request_split:
  assumes "keys_ok db" "r \<in> set (db_requests db)" "rq_sequence r = k"
  obtains ys zs where "db_requests db = ys @ r # zs" "db_requests (set_request k f db) = ys @ f r # zs"
proof -
  obtain ys zs where split: "db_requests db = ys @ r # zs"
    using assms(2) by (meson split_list)
  then have "\<forall>x \<in> set ys \<union> set zs. rq_sequence x \<noteq> k"
    using keys_distinct [OF assms(1)] assms(3) by (auto, (metis image_eqI)+)
  then have "db_requests (set_request k f db) = ys @ f r # zs"
    using split assms(3) by (simp add: set_request_def map_idI)
  with split show ?thesis by (rule that)
qed

lemma set_request_other [simp]:
  "db_messages (set_request k f db) = db_messages db" "db_threads (set_request k f db) = db_threads db"
  "db_subjects (set_request k f db) = db_subjects db" "db_workspaces (set_request k f db) = db_workspaces db"
  "db_request_seq (set_request k f db) = db_request_seq db"
  "db_events (set_request k f db) = db_events db" "db_event_seq (set_request k f db) = db_event_seq db"
  "db_subject_seq (set_request k f db) = db_subject_seq db"
  by (simp_all add: set_request_def)

lemma owned_request_cong:
  assumes "\<And>t. t \<in> set (db_threads db) \<Longrightarrow> \<exists>t' \<in> set (db_threads db').
      th_id t' = th_id t \<and> th_owner t' = th_owner t \<and> th_workspace_id t' = th_workspace_id t"
    and "set (db_subjects db) \<subseteq> set (db_subjects db')"
    and "rq_thread_id r' = rq_thread_id r" "rq_owner_id r' = rq_owner_id r"
    and "owned_request db r"
  shows "owned_request db' r'"
proof -
  obtain t u where t: "t \<in> set (db_threads db)" "rq_thread_id r = Some (th_id t)" "th_owner t = rq_owner_id r"
    and u: "u \<in> set (db_subjects db)" "su_workspace_id u = th_workspace_id t" "su_owner_id u = rq_owner_id r"
    using assms(5) by (auto simp: owned_request_def owned_thread_def list_ex_iff)
  obtain t' where "t' \<in> set (db_threads db')"
    "th_id t' = th_id t" "th_owner t' = th_owner t" "th_workspace_id t' = th_workspace_id t"
    using assms(1) [OF t(1)] by blast
  moreover have "u \<in> set (db_subjects db')" using u(1) assms(2) by blast
  ultimately show ?thesis
    using t(2,3) u(2,3) assms(3,4) unfolding owned_request_def owned_thread_def list_ex_iff by metis
qed

lemma owned_request_same:
  "rq_thread_id r' = rq_thread_id r \<Longrightarrow> rq_owner_id r' = rq_owner_id r \<Longrightarrow>
   owned_request db r' = owned_request db r"
  by (simp add: owned_request_def)

lemma turn_ok_cong:
  assumes "\<And>t. t \<in> set (db_threads db) \<Longrightarrow> \<exists>t' \<in> set (db_threads db').
      th_id t' = th_id t \<and> th_owner t' = th_owner t \<and> th_workspace_id t' = th_workspace_id t"
    and "set (db_subjects db) \<subseteq> set (db_subjects db')" and "turn_ok db r"
  shows "turn_ok db' r"
  using assms(3) owned_request_cong [OF assms(1,2), of r r] by (auto simp: turn_ok_def split: if_splits)

lemma move_unpublished: "turn_move r r' \<Longrightarrow> \<not> published r \<and> \<not> published r' \<and> rq_state r' \<noteq> ''COMPLETED''"
  by (auto simp: turn_move_def published_def is_open_def targets.simps)

lemma move_turn_ok:
  assumes "turn_ok db r" "turn_move r r'" "rq_operation r = ''turn''"
  shows "turn_ok db r'"
proof -
  have same: "same_request r r'" using assms(2) by (simp add: turn_move_def)
  then have "owned_request db r'"
    using owned_request_same [of r' r db] assms by (simp add: turn_ok_def same_request_def)
  moreover have "0 \<le> rq_model_attempts r' \<and> rq_model_attempts r' \<le> 8"
    "0 \<le> rq_tool_attempts r' \<and> rq_tool_attempts r' \<le> 4"
    using assms unfolding turn_ok_def turn_move_def by force+
  ultimately show ?thesis
    using assms same move_unpublished [OF assms(2)] by (simp add: turn_ok_def same_request_def)
qed

lemma keys_ok_set:
  assumes "keys_ok db" "r \<in> set (db_requests db)" "rq_sequence r = k" "same_request r (f r)"
  shows "keys_ok (set_request k f db)"
proof -
  obtain ys zs where "db_requests db = ys @ r # zs" "db_requests (set_request k f db) = ys @ f r # zs"
    using set_request_split [OF assms(1-3)] .
  then have "map rq_sequence (db_requests (set_request k f db)) = map rq_sequence (db_requests db)"
    "map (\<lambda>r. (rq_owner_id r, rq_request_id r)) (db_requests (set_request k f db))
       = map (\<lambda>r. (rq_owner_id r, rq_request_id r)) (db_requests db)"
    "length (db_requests (set_request k f db)) = length (db_requests db)"
    using assms(4) by (simp_all add: same_request_def)
  then show ?thesis using assms(1) by (simp add: keys_ok_def)
qed

lemma move_db_ok:
  assumes "db_ok db" "r \<in> set (db_requests db)" "rq_operation r = ''turn''" "rq_sequence r = k"
    "turn_move r (f r)"
  shows "db_ok (set_request k f db)"
proof -
  have keys: "keys_ok db" using assms(1) by (simp add: db_ok_def)
  obtain ys zs where split: "db_requests db = ys @ r # zs"
      "db_requests (set_request k f db) = ys @ f r # zs"
    using set_request_split [OF keys assms(2,4)] .
  have "turn_ok db (f r)" using assms by (auto simp: db_ok_def intro: move_turn_ok)
  then have "\<forall>x \<in> set (db_requests (set_request k f db)). turn_ok db x"
    using assms(1) split by (auto simp: db_ok_def)
  then have "\<forall>x \<in> set (db_requests (set_request k f db)). turn_ok (set_request k f db) x"
    using turn_ok_cong [of db "set_request k f db"] by auto
  moreover have "filter published (db_requests (set_request k f db)) = filter published (db_requests db)"
    using split move_unpublished [OF assms(5)] by simp
  ultimately show ?thesis
    using assms(1) keys_ok_set [OF keys assms(2,4)] assms(5)
    by (simp add: db_ok_def messages_ok_def turn_move_def)
qed

lemma publish_fields:
  "db_requests (publish_db now r thread msg txt db) =
     db_requests (set_request (rq_sequence r)
       (\<lambda>x. x\<lparr>rq_state := ''COMPLETED'', rq_phase := ''committed'', rq_updated_at := now\<rparr>) db)"
  "db_subjects (publish_db now r thread msg txt db) = db_subjects db"
  "db_request_seq (publish_db now r thread msg txt db) = db_request_seq db"
  "map message_core (db_messages (publish_db now r thread msg txt db)) = map message_core (db_messages db)
     @ [(rq_user_message_id r, thread, ''user'', msg), (rq_assistant_message_id r, thread, ''assistant'', txt)]"
  "map th_id (db_threads (publish_db now r thread msg txt db)) = map th_id (db_threads db)"
  by (simp_all add: publish_db_def set_request_def message_core_def)

lemma publish_threads:
  "t \<in> set (db_threads db) \<Longrightarrow> \<exists>t' \<in> set (db_threads (publish_db now r thread msg txt db)).
     th_id t' = th_id t \<and> th_owner t' = th_owner t \<and> th_workspace_id t' = th_workspace_id t"
  by (rule bexI [where x = "if th_id t = thread \<and> th_owner t = rq_owner_id r
      then t\<lparr>th_updated_at := now\<rparr> else t"]) (auto simp: publish_db_def)

lemma publish_db_ok:
  assumes "db_ok db" "r \<in> set (db_requests db)" "rq_operation r = ''turn''" "rq_state r = ''RUNNING''"
    "rq_input r = Turn_Input thread msg" "rq_thread_id r = Some thread"
    "rq_result r = Some tr" "tr_response tr = txt"
  shows "db_ok (publish_db now r thread msg txt db)" (is "db_ok ?db")
proof -
  let ?r = "r\<lparr>rq_state := ''COMPLETED'', rq_phase := ''committed'', rq_updated_at := now\<rparr>"
  have keys: "keys_ok db" using assms(1) by (simp add: db_ok_def)
  obtain ys zs where split: "db_requests db = ys @ r # zs" "db_requests ?db = ys @ ?r # zs"
    using set_request_split [OF keys assms(2) refl] unfolding publish_fields by blast
  have "keys_ok ?db"
    using keys split by (simp add: keys_ok_def publish_fields(3,5))
  moreover have "turn_ok db ?r"
    using assms owned_request_cong [of db db ?r r] by (auto simp: db_ok_def turn_ok_def)
  then have "\<forall>x \<in> set (db_requests ?db). turn_ok db x"
    using assms(1) split by (auto simp: db_ok_def)
  then have "\<forall>x \<in> set (db_requests ?db). turn_ok ?db x"
    using turn_ok_cong [of db ?db, OF publish_threads] by (simp add: publish_fields(2))
  moreover have "messages_ok ?db"
  proof -
    have "turn_messages ?r = [(rq_user_message_id r, thread, ''user'', msg),
        (rq_assistant_message_id r, thread, ''assistant'', txt)]"
      using assms(5,7,8) by (simp add: turn_messages_def)
    moreover have "published ?r" "\<not> published r" using assms(3,4) by (simp_all add: published_def)
    ultimately show ?thesis
      using assms(1) split unfolding messages_ok_def publish_fields(4) db_ok_def by simp
  qed
  ultimately show ?thesis by (simp add: db_ok_def)
qed

lemma add_request_ok:
  assumes "db_ok db" "new_key r db" "turn_ok db (r\<lparr>rq_sequence := db_request_seq db + 1\<rparr>)" "\<not> published r"
  shows "db_ok (add_request r db)" (is "db_ok ?db")
proof -
  let ?r = "r\<lparr>rq_sequence := db_request_seq db + 1\<rparr>"
  have reqs: "db_requests ?db = db_requests db @ [?r]" by (simp add: add_request_def)
  have "keys_ok ?db"
    using assms(1,2) by (auto simp: keys_ok_def db_ok_def new_key_def add_request_def)
  moreover have "\<forall>x \<in> set (db_requests ?db). turn_ok ?db x"
    using assms(1,3) turn_ok_cong [of db ?db] by (auto simp: reqs db_ok_def add_request_def)
  moreover have "messages_ok ?db"
  proof -
    have "\<not> published ?r" using assms(4) by (simp add: published_def)
    moreover have "db_messages ?db = db_messages db" by (simp add: add_request_def)
    ultimately show ?thesis using assms(1) by (simp add: messages_ok_def db_ok_def reqs)
  qed
  ultimately show ?thesis by (simp add: db_ok_def)
qed

lemma grow_db_ok:
  assumes "db_ok db" "db_requests db' = db_requests db" "db_request_seq db' = db_request_seq db"
    "db_messages db' = db_messages db" "set (db_threads db) \<subseteq> set (db_threads db')"
    "distinct (map th_id (db_threads db'))"
    "set (db_subjects db) \<subseteq> set (db_subjects db')"
  shows "db_ok db'"
proof -
  have "turn_ok db' r" if "r \<in> set (db_requests db)" for r
    using that assms(1,5) by (intro turn_ok_cong [of db db' r, OF _ assms(7)]) (auto simp: db_ok_def)
  then show ?thesis using assms(1-4,6) by (simp add: db_ok_def keys_ok_def messages_ok_def)
qed

lemma fresh_turn_ok:
  assumes "fresh_turn r" "owned_request db r"
  shows "turn_ok db (r\<lparr>rq_sequence := n\<rparr>) \<and> \<not> published r"
  using assms owned_request_cong [of db db "r\<lparr>rq_sequence := n\<rparr>" r]
  by (auto simp: fresh_turn_def turn_ok_def published_def unclaimed_def)

lemma threads_distinct: "db_ok db \<Longrightarrow> distinct (map th_id (db_threads db))"
  by (simp add: db_ok_def keys_ok_def)

lemma db_step_ok: "db_step pub owner db db' \<Longrightarrow> db_ok db \<Longrightarrow> db_ok db'"
proof (induction rule: db_step.induct)
  case (note_down r db)
  then show ?case
    by (intro add_request_ok) (auto simp: turn_ok_def settled_def is_open_def published_def)
next
  case (admit r db)
  then show ?case using fresh_turn_ok by (intro add_request_ok) auto
next
  case (move r db k f)
  then show ?case by (blast intro: move_db_ok)
next
  case (publication r db thread msg tr reply now)
  then show ?case by (blast intro: publish_db_ok)
next
  case (workspace db w)
  then show ?case using threads_distinct [of db] by - (rule grow_db_ok [of db], auto)
next
  case (thread db t)
  then show ?case using threads_distinct [of db] by - (rule grow_db_ok [of db], auto)
next
  case (log db e)
  then show ?case using threads_distinct [of db] by - (rule grow_db_ok [of db], auto)
qed

section \<open>The tables only move forward\<close>

definition row_le :: "pilot_request \<Rightarrow> pilot_request \<Rightarrow> bool" where
  "row_le r r' =
     (same_request r r' \<and> (settled r \<longrightarrow> r' = r)
      \<and> (rq_cancel_requested r \<longrightarrow> rq_cancel_requested r')
      \<and> (rq_result r \<noteq> None \<longrightarrow> rq_result r' = rq_result r)
      \<and> rq_model_attempts r \<le> rq_model_attempts r' \<and> rq_tool_attempts r \<le> rq_tool_attempts r'
      \<and> (unclaimed r' \<longrightarrow> unclaimed r)
      \<and> (rq_cancel_requested r \<and> published r' \<longrightarrow> published r))"

definition thread_core :: "thread \<Rightarrow> str \<times> str \<times> str \<times> str \<times> str option \<times> rat" where
  "thread_core t = (th_id t, th_workspace_id t, th_owner t, th_title t, th_parent t, th_created_at t)"

definition db_le :: "pilot_db \<Rightarrow> pilot_db \<Rightarrow> bool" where
  "db_le db db' =
     ((\<exists>rs news. db_requests db' = rs @ news \<and> list_all2 row_le (db_requests db) rs)
      \<and> prefix (db_messages db) (db_messages db') \<and> prefix (db_subjects db) (db_subjects db')
      \<and> prefix (db_events db) (db_events db')
      \<and> prefix (map thread_core (db_threads db)) (map thread_core (db_threads db')))"

lemma row_le_refl: "row_le r r"
  by (simp add: row_le_def same_request_def)

lemma row_le_trans: "row_le r s \<Longrightarrow> row_le s t \<Longrightarrow> row_le r t"
  by (auto simp: row_le_def same_request_def)

lemma rows_le_refl: "list_all2 row_le rs rs"
  by (simp add: list_all2_refl row_le_refl)

lemma db_le_refl: "db_le db db"
  using rows_le_refl by (auto simp: db_le_def)

lemma db_le_trans:
  assumes "db_le a b" "db_le b c"
  shows "db_le a c"
proof -
  obtain rs news where ab: "db_requests b = rs @ news" "list_all2 row_le (db_requests a) rs"
    using assms(1) by (auto simp: db_le_def)
  obtain ts news' where bc: "db_requests c = ts @ news'" "list_all2 row_le (rs @ news) ts"
    using assms(2) ab(1) by (auto simp: db_le_def)
  obtain us vs where "ts = us @ vs" "list_all2 row_le rs us"
    using bc(2) by (auto simp: list_all2_append1)
  moreover have "list_all2 row_le (db_requests a) us"
    using list_all2_trans [OF row_le_trans ab(2) \<open>list_all2 row_le rs us\<close>] .
  ultimately have "\<exists>rs news. db_requests c = rs @ news \<and> list_all2 row_le (db_requests a) rs"
    using bc(1) by auto
  then show ?thesis using assms unfolding db_le_def by (meson prefix_order.trans)
qed

lemma move_row_le: "turn_move r r' \<Longrightarrow> row_le r r'"
  using move_unpublished [of r r'] by (auto simp: turn_move_def row_le_def settled_def)

lemma rows_le_set:
  assumes "keys_ok db" "r \<in> set (db_requests db)" "rq_sequence r = k" "row_le r (f r)"
  shows "list_all2 row_le (db_requests db) (db_requests (set_request k f db))"
proof -
  obtain ys zs where "db_requests db = ys @ r # zs" "db_requests (set_request k f db) = ys @ f r # zs"
    using set_request_split [OF assms(1-3)] .
  then show ?thesis using assms(4) by (simp add: list_all2_appendI rows_le_refl)
qed

lemma published_row_le:
  "rq_state r = ''RUNNING'' \<Longrightarrow> \<not> rq_cancel_requested r \<Longrightarrow>
   row_le r (r\<lparr>rq_state := ''COMPLETED'', rq_phase := ''committed'', rq_updated_at := now\<rparr>)"
  by (simp add: row_le_def same_request_def settled_def is_open_def unclaimed_def)

lemma publish_thread_core:
  "map thread_core (db_threads (publish_db now r thread msg txt db)) = map thread_core (db_threads db)"
  by (simp add: publish_db_def thread_core_def)

lemma db_step_le: "db_step pub owner db db' \<Longrightarrow> db_ok db \<Longrightarrow> db_le db db'"
proof (induction rule: db_step.induct)
  case (move r db k f)
  then have "list_all2 row_le (db_requests db) (db_requests (set_request k f db))"
    by (intro rows_le_set) (auto simp: db_ok_def move_row_le)
  then show ?case by (auto simp: db_le_def)
next
  case (publication r db thread msg tr reply now)
  then have "list_all2 row_le (db_requests db) (db_requests (publish_db now r thread msg reply db))"
    unfolding publish_fields by (intro rows_le_set) (auto simp: db_ok_def published_row_le)
  moreover have "prefix (db_messages db) (db_messages (publish_db now r thread msg reply db))"
    "db_events (publish_db now r thread msg reply db) = db_events db"
    by (simp_all add: publish_db_def)
  ultimately show ?case by (auto simp: db_le_def publish_thread_core publish_fields)
qed (use rows_le_refl in \<open>auto simp: db_le_def add_request_def\<close>)

section \<open>Isolation and the publication gate\<close>

text \<open>What an owner has in the tables: requests, threads, the quota subject, and the messages
  of the threads.\<close>

definition owner_view :: "str \<Rightarrow> pilot_db
    \<Rightarrow> pilot_request list \<times> thread list \<times> subject list \<times> thread_message list" where
  "owner_view o1 db =
     (filter (\<lambda>r. rq_owner_id r = o1) (db_requests db),
      filter (\<lambda>t. th_owner t = o1) (db_threads db),
      filter (\<lambda>u. su_owner_id u = o1) (db_subjects db),
      filter (\<lambda>m. list_ex (\<lambda>t. th_id t = ms_thread_id m \<and> th_owner t = o1) (db_threads db))
        (db_messages db))"

lemma filter_owner_set:
  assumes "keys_ok db" "r \<in> set (db_requests db)" "rq_sequence r = k" "same_request r (f r)"
    "rq_owner_id r \<noteq> o1"
  shows "filter (\<lambda>r. rq_owner_id r = o1) (db_requests (set_request k f db))
    = filter (\<lambda>r. rq_owner_id r = o1) (db_requests db)"
proof -
  obtain ys zs where "db_requests db = ys @ r # zs" "db_requests (set_request k f db) = ys @ f r # zs"
    using set_request_split [OF assms(1-3)] .
  then show ?thesis using assms(4,5) by (simp add: same_request_def)
qed

lemma turn_thread_owner:
  assumes "db_ok db" "r \<in> set (db_requests db)" "rq_operation r = ''turn''" "rq_thread_id r = Some i"
    "t \<in> set (db_threads db)" "th_id t = i"
  shows "th_owner t = rq_owner_id r"
proof -
  have "owned_request db r" using assms(1-3) by (auto simp: db_ok_def turn_ok_def)
  then obtain t' where t': "t' \<in> set (db_threads db)" "th_id t' = i" "th_owner t' = rq_owner_id r"
    using assms(4) by (auto simp: owned_request_def owned_thread_def list_ex_iff)
  have "distinct (map th_id (db_threads db))" by (rule threads_distinct [OF assms(1)])
  then have "t' = t" using t'(1,2) assms(5,6) by (auto simp: distinct_map dest: inj_onD)
  with t'(3) show ?thesis by simp
qed

lemma publish_view:
  assumes "db_ok db" "r \<in> set (db_requests db)" "rq_operation r = ''turn''" "rq_thread_id r = Some thread"
    "rq_owner_id r \<noteq> o1"
  shows "owner_view o1 (publish_db now r thread msg txt db) = owner_view o1 db"
proof -
  have "filter (\<lambda>r. rq_owner_id r = o1) (db_requests (publish_db now r thread msg txt db))
      = filter (\<lambda>r. rq_owner_id r = o1) (db_requests db)"
    unfolding publish_fields using assms
    by (intro filter_owner_set) (auto simp: db_ok_def same_request_def)
  moreover have "filter (\<lambda>t. th_owner t = o1) (map (\<lambda>t. if th_id t = thread \<and> th_owner t = rq_owner_id r
      then t\<lparr>th_updated_at := now\<rparr> else t) ts) = filter (\<lambda>t. th_owner t = o1) ts" for ts :: "thread list"
    using assms(5) by (induction ts) auto
  moreover have "list_ex (\<lambda>t. th_id t = i \<and> th_owner t = o1)
      (map (\<lambda>t. if th_id t = thread \<and> th_owner t = rq_owner_id r then t\<lparr>th_updated_at := now\<rparr> else t) ts)
      = list_ex (\<lambda>t. th_id t = i \<and> th_owner t = o1) ts" for i and ts :: "thread list"
    by (induction ts) auto
  moreover have "\<not> list_ex (\<lambda>t. th_id t = thread \<and> th_owner t = o1) (db_threads db)"
    using turn_thread_owner [OF assms(1-4)] assms(5) by (auto simp: list_ex_iff)
  ultimately show ?thesis by (simp add: owner_view_def publish_fields) (simp add: publish_db_def)
qed

lemma db_step_view: "db_step pub owner db db' \<Longrightarrow> db_ok db \<Longrightarrow> o1 \<noteq> owner \<Longrightarrow> owner_view o1 db' = owner_view o1 db"
proof (induction rule: db_step.induct)
  case (move r db k f)
  then have "filter (\<lambda>r. rq_owner_id r = o1) (db_requests (set_request k f db))
      = filter (\<lambda>r. rq_owner_id r = o1) (db_requests db)"
    by (intro filter_owner_set) (auto simp: db_ok_def turn_move_def)
  then show ?case by (simp add: owner_view_def)
next
  case (publication r db thread msg tr reply now)
  then show ?case by (intro publish_view) auto
qed (auto simp: owner_view_def add_request_def)

lemma unpublished_step:
  "db_step pub owner db db' \<Longrightarrow> db_ok db \<Longrightarrow> \<not> pub \<Longrightarrow>
   db_messages db' = db_messages db \<and> filter published (db_requests db') = filter published (db_requests db)"
proof (induction rule: db_step.induct)
  case (move r db k f)
  then have keys: "keys_ok db" by (simp add: db_ok_def)
  obtain ys zs where "db_requests db = ys @ r # zs" "db_requests (set_request k f db) = ys @ f r # zs"
    using set_request_split [OF keys move(1,4)] .
  then show ?case using move_unpublished [OF move(5)] by simp
qed (auto simp: add_request_def published_def fresh_turn_def unclaimed_def)

section \<open>Sequences of steps\<close>

definition steps :: "bool \<Rightarrow> str \<Rightarrow> pilot_db \<Rightarrow> pilot_db \<Rightarrow> bool" where
  "steps pub owner = (db_step pub owner)\<^sup>*\<^sup>*"

definition any_steps :: "bool \<Rightarrow> pilot_db \<Rightarrow> pilot_db \<Rightarrow> bool" where
  "any_steps pub = (\<lambda>db db'. \<exists>owner. db_step pub owner db db')\<^sup>*\<^sup>*"

lemma steps_refl: "steps pub owner db db"
  by (simp add: steps_def)

lemma steps_step: "db_step pub owner db db' \<Longrightarrow> steps pub owner db' db'' \<Longrightarrow> steps pub owner db db''"
  by (simp add: steps_def converse_rtranclp_into_rtranclp)

lemma steps_one: "db_step pub owner db db' \<Longrightarrow> steps pub owner db db'"
  by (simp add: steps_def)

lemma steps_trans: "steps pub owner a b \<Longrightarrow> steps pub owner b c \<Longrightarrow> steps pub owner a c"
  unfolding steps_def by (rule rtranclp_trans)

lemma steps_any: "steps pub owner db db' \<Longrightarrow> any_steps pub db db'"
  unfolding steps_def any_steps_def by (erule rtranclp_mono [THEN predicate2D, rotated]) blast

lemma any_steps_trans: "any_steps pub a b \<Longrightarrow> any_steps pub b c \<Longrightarrow> any_steps pub a c"
  unfolding any_steps_def by (rule rtranclp_trans)

lemma any_steps_refl: "any_steps pub db db"
  by (simp add: any_steps_def)

lemma any_steps_ok: "any_steps pub db db' \<Longrightarrow> db_ok db \<Longrightarrow> db_ok db' \<and> db_le db db'"
  unfolding any_steps_def
  by (induction rule: rtranclp_induct) (auto simp: db_le_refl intro: db_step_ok dest: db_step_le db_le_trans)

lemma steps_ok: "steps pub owner db db' \<Longrightarrow> db_ok db \<Longrightarrow> db_ok db'"
  using any_steps_ok [OF steps_any] by blast

lemma steps_view:
  assumes "steps pub owner db db'" "db_ok db" "o1 \<noteq> owner"
  shows "owner_view o1 db' = owner_view o1 db"
  using assms(1) unfolding steps_def
proof (induction rule: rtranclp_induct)
  case (step a b)
  have "db_ok a" using steps_ok [of pub owner db a] step(1) assms(2) by (simp add: steps_def)
  then show ?case using db_step_view [OF step(2)] assms(3) step(3) by simp
qed simp

lemma unpublished_steps:
  assumes "any_steps False db db'" "db_ok db"
  shows "db_messages db' = db_messages db \<and> filter published (db_requests db') = filter published (db_requests db)"
  using assms(1) unfolding any_steps_def
proof (induction rule: rtranclp_induct)
  case (step a b)
  have "db_ok a" using any_steps_ok [of False db a] step(1) assms(2) by (simp add: any_steps_def)
  then show ?case using unpublished_step step(2,3) by metis
qed simp

end
