(* ===== verification/Admission_Turns.thy ===== *)
theory Admission_Turns
  imports Admission_Spec
begin

text \<open>
  The operations of \<open>Admission_Store\<close> refine the steps of \<open>Admission_Spec\<close>: whatever an
  operation of the store commits is a sequence of abstract steps, on behalf of its principal
  or of the owners of the turns it works on, and only \<open>commit_turn\<close> publishes, and only while
  the gate is open. The properties of the store follow from the invariants of the steps.
\<close>

section \<open>Successful bodies\<close>

lemma then_do_Inr:
  "then_do m f s = (Inr y, s') \<longleftrightarrow> (\<exists>x t. m s = (Inr x, t) \<and> f x t = (Inr y, s'))"
  by (auto simp: then_do_def split: prod.splits sum.splits)

lemma fetch_Inr: "fetch code x = Inr v \<longleftrightarrow> x = Some v"
  by (simp add: fetch_def split: option.splits)

lemma insert_request_Inr:
  "insert_request r s = (Inr u, s') \<longleftrightarrow>
     new_key r (ps_db s) \<and> s' = s\<lparr>ps_db := add_request r (ps_db s)\<rparr>"
  by (auto simp: insert_request_def new_key_def add_request_def Let_def list_ex_iff)

lemma event_Inr:
  "event k phase code now s = (Inr u, s') \<longleftrightarrow> db_event_seq (ps_db s) < max_rowid \<and>
     s' = s\<lparr>ps_db := (ps_db s)\<lparr>
        db_events := db_events (ps_db s) @ [\<lparr>ev_id = db_event_seq (ps_db s) + 1, ev_sequence = k,
          ev_phase = phase, ev_code = code, ev_created_at = now\<rparr>],
        db_event_seq := db_event_seq (ps_db s) + 1\<rparr>\<rparr>"
  by (auto simp: event_def Let_def)

lemma basic_Inr:
  "give x s = (Inr y, s') \<longleftrightarrow> y = x \<and> s' = s"
  "throw e s \<noteq> (Inr y, s')"
  "guard ok code s = (Inr u, s') \<longleftrightarrow> ok \<and> s' = s"
  "of_res r s = (Inr y, s') \<longleftrightarrow> r = Inr y \<and> s' = s"
  "query q s = (Inr y, s') \<longleftrightarrow> q (ps_db s) = Inr y \<and> s' = s"
  "modify f s = (Inr u, s') \<longleftrightarrow> s' = s\<lparr>ps_db := f (ps_db s)\<rparr>"
  "settle k s = (Inr u, s') \<longleftrightarrow>
     s' = s\<lparr>ps_blocked := insert k (ps_blocked s), ps_fresh := ps_fresh s - {k}\<rparr>"
  by (auto simp: give_def throw_def guard_def of_res_def query_def modify_def settle_def)

lemmas work_Inr = then_do_Inr basic_Inr fetch_Inr insert_request_Inr event_Inr

lemma turn_row_Inr:
  assumes "turn_row k db = Inr r"
  shows "r \<in> set (db_requests db)" "rq_sequence r = k" "rq_operation r = ''turn''" "owned_request db r"
    and "1 \<le> k" "k \<le> max_rowid"
  using assms by (auto simp: turn_row_def fetch_Inr dest: find_SomeD split: if_splits)

lemma stored_request_None:
  "stored_request owner rid db = None \<longleftrightarrow>
     (\<forall>r \<in> set (db_requests db). \<not> (rq_owner_id r = owner \<and> rq_request_id r = rid))"
  by (auto simp: stored_request_def find_None_iff)

lemma thread_row_Inr:
  assumes "thread_row p tid db = Inr t"
  shows "tid = Some (th_id t)" "t \<in> set (db_threads db)" "owned_thread db (pr_owner_id p) t"
  using assms by (auto simp: thread_row_def fetch_Inr dest: find_SomeD split: option.splits if_splits)

lemma thread_row_owned:
  assumes "thread_row p tid db = Inr t" "rq_thread_id r = tid" "rq_owner_id r = pr_owner_id p"
  shows "owned_request db r"
  using thread_row_Inr [OF assms(1)] assms(2,3) by (auto simp: owned_request_def list_ex_iff)

lemma request_row_Inr:
  assumes "request_row p rid db = Inr r"
  shows "r \<in> set (db_requests db)" "rq_owner_id r = pr_owner_id p" "rq_request_id r = rid" "owned_request db r"
  using assms by (auto simp: request_row_def fetch_Inr dest: find_SomeD)

lemma stored_turn_Some:
  assumes "stored_turn owner task db = Some r"
  shows "r \<in> set (db_requests db)" "rq_owner_id r = owner" "rq_operation r = ''turn''" "rq_task_id r = Some task"
  using assms by (auto simp: stored_turn_def dest: find_SomeD)

section \<open>Refinement\<close>

text \<open>A body refines the steps on behalf of an owner when whatever it leaves on success is
  reached by them.\<close>

definition refines :: "str \<Rightarrow> 'a work \<Rightarrow> bool" where
  "refines owner m = (\<forall>s y s'. m s = (Inr y, s') \<longrightarrow> steps False owner (ps_db s) (ps_db s'))"

lemma refinesD: "refines owner m \<Longrightarrow> m s = (Inr y, s') \<Longrightarrow> steps False owner (ps_db s) (ps_db s')"
  by (simp add: refines_def)

lemma refines_then_do:
  "refines owner m \<Longrightarrow> (\<And>x. refines owner (f x)) \<Longrightarrow> refines owner (then_do m f)"
  unfolding refines_def then_do_Inr by (meson steps_trans)

lemma refines_basic:
  "refines owner (give x)" "refines owner (throw e)" "refines owner (guard b c)"
  "refines owner (of_res q)" "refines owner (query r)" "refines owner (settle k)"
  by (auto simp: refines_def basic_Inr steps_refl)

lemma refines_event: "refines owner (event k phase code now)"
  by (auto simp: refines_def event_Inr intro!: steps_one db_step.log)

lemma refines_option:
  assumes "refines owner m" "\<And>x. refines owner (f x)"
  shows "refines owner (\<lambda>s. case g s of None \<Rightarrow> m s | Some x \<Rightarrow> f x s)"
  using assms by (auto simp: refines_def split: option.splits)

lemma refines_workspace: "refines (pr_owner_id p) (workspace_of clk uid p)"
  unfolding refines_def
proof (intro allI impI)
  fix s y s'
  assume run: "workspace_of clk uid p s = (Inr y, s')"
  show "steps False (pr_owner_id p) (ps_db s) (ps_db s')"
  proof (cases "find (\<lambda>u. su_owner_id u = pr_owner_id p) (db_subjects (ps_db s))")
    case None
    let ?w = "\<lparr>ws_id = uid 0, ws_owner = pr_owner_id p, ws_title = ''Owner pilot'', ws_created_at = clk 0\<rparr>"
    have fresh: "\<forall>u \<in> set (db_subjects (ps_db s)). su_owner_id u \<noteq> pr_owner_id p \<and> su_workspace_id u \<noteq> ws_id ?w"
      using run None by (auto simp: workspace_of_def insert_workspace_def insert_subject_def Let_def
        list_ex_iff find_None_iff work_Inr split: if_splits)
    have "ps_db s' = (ps_db s)\<lparr>db_workspaces := db_workspaces (ps_db s) @ [?w],
      db_subjects := db_subjects (ps_db s) @ [\<lparr>su_quota_id = db_subject_seq (ps_db s) + 1,
        su_owner_id = pr_owner_id p, su_workspace_id = ws_id ?w\<rparr>],
      db_subject_seq := db_subject_seq (ps_db s) + 1\<rparr>"
      using run None by (auto simp: workspace_of_def insert_workspace_def insert_subject_def Let_def
        list_ex_iff work_Inr split: if_splits)
    then show ?thesis using db_step.workspace [OF fresh, of False] by (auto intro: steps_one)
  qed (use run in \<open>auto simp: workspace_of_def work_Inr steps_refl\<close>)
qed

lemma refines_insert_thread: "th_owner t = owner \<Longrightarrow> refines owner (insert_thread t)"
  by (auto simp: refines_def insert_thread_def list_ex_iff intro!: steps_one db_step.thread split: if_splits)

lemma refines_note:
  "rq_operation r \<noteq> ''turn'' \<Longrightarrow> settled r \<Longrightarrow> rq_task_id r = None \<Longrightarrow> rq_owner_id r = owner \<Longrightarrow>
   refines owner (insert_request r)"
  by (auto simp: refines_def insert_request_Inr intro!: steps_one db_step.note_down)

lemma blank_request_fields [simp]:
  "rq_operation (blank_request owner rid op digest inp st phase now) = op"
  "rq_task_id (blank_request owner rid op digest inp st phase now) = None"
  "rq_owner_id (blank_request owner rid op digest inp st phase now) = owner"
  "rq_state (blank_request owner rid op digest inp st phase now) = st"
  by (simp_all add: blank_request_def)

lemmas refines_rules = refines_then_do refines_basic refines_event refines_option refines_workspace
  refines_insert_thread refines_note

lemma refines_create_thread_work:
  "refines (pr_owner_id p) (create_thread_work clk uid p rid title parent digest)"
  unfolding create_thread_work_def
  by (intro refines_rules) (auto simp: settled_def is_open_def intro!: refines_rules split: option.splits)

lemma refines_admit_work:
  "refines (pr_owner_id p) (admit_work clk uid p rid thread msg digest)"
  unfolding refines_def
proof (intro allI impI)
  fix s y s'
  let ?r = "(blank_request (pr_owner_id p) rid ''turn'' digest (Turn_Input thread msg)
                  ''ADMITTED'' ''admitted'' (clk 0))
                 \<lparr>rq_task_id := Some (uid 0), rq_thread_id := Some thread, rq_resource_id := Some (uid 0),
                  rq_user_message_id := Some (uid 1), rq_assistant_message_id := Some (uid 2)\<rparr>"
  assume run: "admit_work clk uid p rid thread msg digest s = (Inr y, s')"
  then obtain t where t: "thread_row p (Some thread) (ps_db s) = Inr t"
    by (auto simp: admit_work_def work_Inr)
  have "ps_db s' = ps_db s \<or> new_key ?r (ps_db s) \<and> ps_db s' = add_request ?r (ps_db s)"
    using run by (auto simp: admit_work_def work_Inr split: option.splits)
  moreover have "fresh_turn ?r" by (simp add: fresh_turn_def unclaimed_def blank_request_def)
  moreover have "owned_request (ps_db s) ?r" using thread_row_owned [OF t, of ?r] by simp
  then have "new_key ?r (ps_db s) \<Longrightarrow> steps False (pr_owner_id p) (ps_db s) (add_request ?r (ps_db s))"
    using \<open>fresh_turn ?r\<close> by (intro steps_one db_step.admit) simp_all
  ultimately show "steps False (pr_owner_id p) (ps_db s) (ps_db s')"
    using steps_refl by metis
qed

text \<open>A body that updates one open turn and logs the change.\<close>

lemma steps_move:
  assumes "r \<in> set (db_requests db)" "rq_operation r = ''turn''" "rq_sequence r = k" "turn_move r (f r)"
  shows "steps pub (rq_owner_id r) db (set_request k f db)"
  using assms by (intro steps_one db_step.move) auto

lemma steps_move_log:
  assumes "r \<in> set (db_requests db)" "rq_operation r = ''turn''" "rq_sequence r = k" "turn_move r (f r)"
    and "event k' phase code now t = (Inr u, t')" "ps_db t = set_request k f db"
  shows "steps False (rq_owner_id r) db (ps_db t')"
  using steps_trans [OF steps_move [of r db k f, OF assms(1-4)]] refinesD [OF refines_event assms(5)] assms(6) by simp

lemma refines_claim_work: "refines (pr_owner_id p) (claim_work clk p rid task)"
  unfolding refines_def
proof (intro allI impI)
  fix s y s'
  assume run: "claim_work clk p rid task s = (Inr y, s')"
  then obtain r where r: "request_row p rid (ps_db s) = Inr r" "rq_operation r = ''turn''"
      "claimable (clk 0) (ps_fresh s) r"
      "ps_db s' = set_request (rq_sequence r) (\<lambda>x. x\<lparr>rq_phase := ''reserved'', rq_updated_at := clk 1\<rparr>) (ps_db s)"
    by (auto simp: claim_work_def work_Inr)
  have "turn_move r (r\<lparr>rq_phase := ''reserved'', rq_updated_at := clk 1\<rparr>)"
    using r(3) by (simp add: turn_move_def same_request_def claimable_def is_open_def unclaimed_def)
  then show "steps False (pr_owner_id p) (ps_db s) (ps_db s')"
    using steps_move [of r "ps_db s" "rq_sequence r" "\<lambda>x. x\<lparr>rq_phase := ''reserved'', rq_updated_at := clk 1\<rparr>"
      False, OF request_row_Inr(1) [OF r(1)] r(2) refl] request_row_Inr(2) [OF r(1)] r(4)
    by simp
qed

lemma cancel_move:
  assumes "is_open r"
  shows "turn_move r (r\<lparr>rq_cancel_requested := True, rq_state := cancelled_state r, rq_phase := ''cancelled'',
    rq_updated_at := now\<rparr>)"
  using assms by (auto simp: turn_move_def same_request_def unclaimed_def cancelled_state_def targets.simps)

lemma refines_cancel_work: "refines (pr_owner_id p) (cancel_work clk p task rid digest)"
  unfolding refines_def
proof (intro allI impI)
  fix s y s'
  let ?n = "\<lambda>r. (blank_request (pr_owner_id p) rid ''cancel'' digest (Cancel_Input task)
                    ''COMPLETED'' ''cancelled'' (clk 0))
                   \<lparr>rq_thread_id := rq_thread_id r, rq_resource_id := Some task\<rparr>"
  let ?f = "\<lambda>r x. x\<lparr>rq_cancel_requested := True, rq_state := cancelled_state r, rq_phase := ''cancelled'',
      rq_updated_at := clk 0\<rparr>"
  assume run: "cancel_work clk p task rid digest s = (Inr y, s')"
  then obtain r where r: "stored_turn (pr_owner_id p) task (ps_db s) = Some r"
    by (auto simp: cancel_work_def work_Inr)
  note row = stored_turn_Some [OF r]
  show "steps False (pr_owner_id p) (ps_db s) (ps_db s')"
  proof (cases "stored_request (pr_owner_id p) rid (ps_db s)")
    case None
    let ?db = "add_request (?n r) (ps_db s)"
    have new: "new_key (?n r) (ps_db s)"
      using run r None by (auto simp: cancel_work_def work_Inr)
    then have noted: "steps False (pr_owner_id p) (ps_db s) ?db"
      by (intro steps_one db_step.note_down) (simp_all add: settled_def is_open_def)
    show ?thesis
    proof (cases "is_open r")
      case True
      then obtain t t' where "event (rq_sequence r) ''cancelled'' ''cancelled'' (clk 1) t = (Inr (), t')"
          "ps_db t = set_request (rq_sequence r) (?f r) ?db" "ps_db s' = ps_db t'"
        using run r None by (fastforce simp: cancel_work_def then_do_Inr basic_Inr fetch_Inr insert_request_Inr)
      moreover have "r \<in> set (db_requests ?db)" using row(1) by (simp add: add_request_def)
      ultimately have "steps False (rq_owner_id r) ?db (ps_db s')"
        using steps_move_log [of r ?db "rq_sequence r" "?f r", OF _ row(3) refl cancel_move [OF True]] by metis
      then show ?thesis using noted row(2) by (auto intro: steps_trans)
    next
      case False
      then have "ps_db s' = ?db" using run r None by (auto simp: cancel_work_def work_Inr)
      then show ?thesis using noted by simp
    qed
  qed (use run r in \<open>auto simp: cancel_work_def work_Inr steps_refl\<close>)
qed

text \<open>The operations on a turn by its number.\<close>

definition refines_turn :: "bool \<Rightarrow> int \<Rightarrow> 'a work \<Rightarrow> bool" where
  "refines_turn pub k m = (\<forall>s y s'. m s = (Inr y, s') \<longrightarrow>
     (\<exists>r \<in> set (db_requests (ps_db s)). rq_sequence r = k \<and> steps pub (rq_owner_id r) (ps_db s) (ps_db s')))"

lemma transition_move:
  assumes "is_open r" "st \<in> set (targets (rq_state r))"
  shows "turn_move r (r\<lparr>rq_state := st, rq_phase := phase, rq_error_code := err, rq_updated_at := now\<rparr>)"
  using assms by (auto simp: turn_move_def same_request_def unclaimed_def targets.simps split: if_splits)

lemma refines_transition_work:
  assumes "st \<in> set (targets expected)"
  shows "refines_turn False k (transition_work clk k expected st phase err)"
  unfolding refines_turn_def
proof (intro allI impI)
  fix s y s'
  let ?f = "\<lambda>x. x\<lparr>rq_state := st, rq_phase := phase, rq_error_code := err, rq_updated_at := clk 1\<rparr>"
  assume run: "transition_work clk k expected st phase err s = (Inr y, s')"
  then obtain r t t' code where r: "turn_row k (ps_db s) = Inr r" "rq_state r = expected"
      and ev: "event k phase code (clk 2) t = (Inr (), t')" "ps_db t = set_request k ?f (ps_db s)"
      "ps_db s' = ps_db t'"
    by (auto simp: transition_work_def then_do_Inr basic_Inr split: if_splits)
  have "is_open r" using assms r(2) by (auto simp: is_open_def targets.simps split: if_splits)
  note row = turn_row_Inr [OF r(1)]
  from \<open>is_open r\<close> have "turn_move r (?f r)" using assms r(2) by (auto intro: transition_move)
  then show "\<exists>r \<in> set (db_requests (ps_db s)). rq_sequence r = k \<and> steps False (rq_owner_id r) (ps_db s) (ps_db s')"
    using steps_move_log [of r "ps_db s" k ?f, OF row(1,3,2) _ ev(1,2)] row(1,2) ev(3) by auto
qed

lemma live_Inr: "live now r = Inr u \<longleftrightarrow> rq_state r = ''RUNNING'' \<and> \<not> rq_cancel_requested r \<and> \<not> expired now r"
  by (simp add: live_def)

lemma stage_move:
  assumes "rq_state r = ''RUNNING''" "rq_result r = None \<or> rq_result r = Some bound"
  shows "turn_move r (r\<lparr>rq_result := Some bound, rq_result_digest := d, rq_phase := ''staged'', rq_updated_at := now\<rparr>)"
  using assms by (auto simp: turn_move_def same_request_def unclaimed_def is_open_def)

lemma refines_stage_work: "refines_turn False k (stage_work cd clk k task response a)"
  unfolding refines_turn_def
proof (intro allI impI)
  fix s y s'
  assume run: "stage_work cd clk k task response a s = (Inr y, s')"
  then obtain r bound digest t where r: "turn_row k (ps_db s) = Inr r" "rq_state r = ''RUNNING''"
      "rq_result r = None \<or> rq_result r = Some bound"
      and ev: "event k ''staged'' ''staged'' (clk 2) t = (Inr (), s')"
      "ps_db t = set_request k (\<lambda>x. x\<lparr>rq_result := Some bound, rq_result_digest := Some digest,
         rq_phase := ''staged'', rq_updated_at := clk 1\<rparr>) (ps_db s)"
    by (auto simp: stage_work_def then_do_Inr basic_Inr live_Inr)
  note row = turn_row_Inr [OF r(1)]
  show "\<exists>r \<in> set (db_requests (ps_db s)). rq_sequence r = k \<and> steps False (rq_owner_id r) (ps_db s) (ps_db s')"
    using steps_move_log [of r "ps_db s" k "\<lambda>x. x\<lparr>rq_result := Some bound, rq_result_digest := Some digest,
         rq_phase := ''staged'', rq_updated_at := clk 1\<rparr>", OF row(1,3,2) stage_move [OF r(2,3)] ev]
      row(1,2) by auto
qed

definition count_attempt :: "attempt_kind \<Rightarrow> rat \<Rightarrow> pilot_request \<Rightarrow> pilot_request" where
  "count_attempt kind now = (if kind = Model_Attempt
     then (\<lambda>x. x\<lparr>rq_model_attempts := rq_model_attempts x + 1, rq_updated_at := now\<rparr>)
     else (\<lambda>x. x\<lparr>rq_tool_attempts := rq_tool_attempts x + 1, rq_updated_at := now\<rparr>))"

lemma reserve_move:
  assumes "rq_state r = ''RUNNING''" "attempts kind r < limit" "limit \<le> attempt_ceiling kind"
  shows "turn_move r (count_attempt kind now r)"
  using assms by (auto simp: turn_move_def same_request_def unclaimed_def is_open_def count_attempt_def
    attempts_def attempt_ceiling_def split: if_splits)

lemma refines_reserve_work:
  assumes "limit \<le> attempt_ceiling kind"
  shows "refines_turn False k (reserve_work clk k kind limit)"
  unfolding refines_turn_def
proof (intro allI impI)
  fix s y s'
  assume run: "reserve_work clk k kind limit s = (Inr y, s')"
  then obtain r where r: "turn_row k (ps_db s) = Inr r" by (auto simp: reserve_work_def work_Inr)
  note row = turn_row_Inr [OF r]
  consider "ps_db s' = ps_db s"
    | t code where "rq_state r = ''RUNNING''" "attempts kind r < limit"
        "event k ''dispatch'' code (clk 2) t = (Inr (), s')"
        "ps_db t = set_request k (count_attempt kind (clk 1)) (ps_db s)"
    using run r by (auto simp: reserve_work_def then_do_Inr basic_Inr count_attempt_def split: if_splits)
  then have "steps False (rq_owner_id r) (ps_db s) (ps_db s')"
  proof cases
    case 1
    then show ?thesis by (simp add: steps_refl)
  next
    case 2
    show ?thesis
      by (rule steps_move_log [OF row(1,3,2) reserve_move [OF 2(1,2) assms] 2(3,4)])
  qed
  then show "\<exists>r \<in> set (db_requests (ps_db s)). rq_sequence r = k \<and> steps False (rq_owner_id r) (ps_db s) (ps_db s')"
    using row(1,2) by auto
qed

lemma publish_Inr:
  assumes "publish clk r thread msg reply s = (Inr u, s')"
  shows "s' = s\<lparr>ps_db := (ps_db s)\<lparr>db_messages := db_messages (ps_db s)
            @ [\<lparr>ms_id = rq_user_message_id r, ms_thread_id = thread, ms_role = ''user'',
                ms_content = msg, ms_created_at = clk 1\<rparr>,
               \<lparr>ms_id = rq_assistant_message_id r, ms_thread_id = thread, ms_role = ''assistant'',
                ms_content = reply, ms_created_at = clk 1\<rparr>],
          db_threads := map (\<lambda>t. if th_id t = thread \<and> th_owner t = rq_owner_id r
             then t\<lparr>th_updated_at := clk 1\<rparr> else t) (db_threads (ps_db s))\<rparr>\<rparr>"
  using assms by (auto simp: publish_def insert_message_def then_do_Inr basic_Inr split: if_splits)

lemma turn_result_response: "turn_result_of cd r reply a = Inr b \<Longrightarrow> tr_response b = reply"
  by (auto simp: turn_result_of_def split: if_splits option.splits)

lemma commit_work_Inr:
  assumes "commit_work cd clk k reply a s = (Inr y, s')"
  obtains r thread msg bound t t' where "turn_row k (ps_db s) = Inr r" "rq_state r = ''RUNNING''"
    "\<not> rq_cancel_requested r" "rq_input r = Turn_Input thread msg" "rq_thread_id r = Some thread"
    "rq_result r = Some bound" "tr_response bound = reply"
    "event k ''committed'' ''completed'' (clk 2) t = (Inr (), t')"
    "ps_db t = publish_db (clk 1) r thread msg reply (ps_db s)" "ps_db s' = ps_db t'" "ps_fenced s' = ps_fenced s"
proof -
  from assms obtain r bound where r: "turn_row k (ps_db s) = Inr r" "live (clk 0) r = Inr ()"
      "turn_result_of cd r reply a = Inr bound" "rq_result r = Some bound"
    by (auto simp: commit_work_def then_do_Inr basic_Inr)
  with assms obtain thread msg t0 t where i: "rq_input r = Turn_Input thread msg" "rq_thread_id r = Some thread"
      "publish clk r thread msg reply s = (Inr (), t0)"
      "event k ''committed'' ''completed'' (clk 2) (t0\<lparr>ps_db := set_request k (\<lambda>x. x\<lparr>rq_state := ''COMPLETED'',
          rq_phase := ''committed'', rq_updated_at := clk 1\<rparr>) (ps_db t0)\<rparr>) = (Inr (), t)"
      "settle k t = (Inr y, s')"
    by (auto simp: commit_work_def then_do_Inr basic_Inr split: op_input.splits)
  have "rq_sequence r = k" using turn_row_Inr(2) [OF r(1)] .
  then have "ps_db (t0\<lparr>ps_db := set_request k (\<lambda>x. x\<lparr>rq_state := ''COMPLETED'',
          rq_phase := ''committed'', rq_updated_at := clk 1\<rparr>) (ps_db t0)\<rparr>)
      = publish_db (clk 1) r thread msg reply (ps_db s)"
    using publish_Inr [OF i(3)] by (simp add: publish_db_def del: One_nat_def)
  moreover have "ps_db s' = ps_db t" "ps_fenced s' = ps_fenced s"
    using i(4,5) publish_Inr [OF i(3)] by (auto simp: basic_Inr event_Inr)
  ultimately show ?thesis
    using that [OF r(1) _ _ i(1,2) r(4) turn_result_response [OF r(3)] i(4)] r(2) by (simp add: live_Inr)
qed

lemma refines_commit_work: "refines_turn True k (commit_work cd clk k reply a)"
  unfolding refines_turn_def
proof (intro allI impI)
  fix s y s'
  assume "commit_work cd clk k reply a s = (Inr y, s')"
  then obtain r thread msg bound t t' where c: "turn_row k (ps_db s) = Inr r" "rq_state r = ''RUNNING''"
    "\<not> rq_cancel_requested r" "rq_input r = Turn_Input thread msg" "rq_thread_id r = Some thread"
    "rq_result r = Some bound" "tr_response bound = reply"
    "event k ''committed'' ''completed'' (clk 2) t = (Inr (), t')"
    "ps_db t = publish_db (clk 1) r thread msg reply (ps_db s)" "ps_db s' = ps_db t'"
    by (rule commit_work_Inr)
  note row = turn_row_Inr [OF c(1)]
  have "db_step True (rq_owner_id r) (ps_db s) (ps_db t)"
    using c row by (auto intro!: db_step.publication)
  moreover have "db_step True (rq_owner_id r) (ps_db t) (ps_db t')"
    using c(8) by (auto simp: event_Inr intro!: db_step.log)
  ultimately have "steps True (rq_owner_id r) (ps_db s) (ps_db s')"
    using c(10) by (metis steps_step steps_one)
  then show "\<exists>r \<in> set (db_requests (ps_db s)). rq_sequence r = k \<and> steps True (rq_owner_id r) (ps_db s) (ps_db s')"
    using row(1,2) by auto
qed

section \<open>Recovery\<close>

lemma recover_move:
  "is_open r \<Longrightarrow> turn_move r (r\<lparr>rq_state := ''UNCERTAIN'', rq_phase := ''recovery'',
     rq_error_code := Some ''uncertainty'', rq_updated_at := now\<rparr>)"
  by (auto simp: turn_move_def same_request_def is_open_def unclaimed_def targets.simps)

lemma open_turns_set:
  assumes "keys_ok db" "r \<in> set (db_requests db)" "rq_sequence r = k" "same_request r (f r)" "\<not> is_open (f r)"
  shows "open_turns (set_request k f db) = filter (\<lambda>x. rq_sequence x \<noteq> k) (open_turns db)"
proof -
  obtain ys zs where split: "db_requests db = ys @ r # zs" "db_requests (set_request k f db) = ys @ f r # zs"
    using set_request_split [OF assms(1-3)] .
  then have "\<forall>x \<in> set ys \<union> set zs. rq_sequence x \<noteq> k"
    using keys_distinct [OF assms(1)] assms(3) by (auto, (metis image_eqI)+)
  then have "filter (\<lambda>x. rq_sequence x \<noteq> k) (filter P ys) = filter P ys"
    "filter (\<lambda>x. rq_sequence x \<noteq> k) (filter P zs) = filter P zs" for P
    by (auto simp: filter_id_conv simp del: filter_filter)
  then show ?thesis using split assms(3,5) by (simp add: open_turns_def del: filter_filter)
qed

lemma turn_row_found:
  assumes "db_ok db" "r \<in> set (db_requests db)" "rq_operation r = ''turn''"
  shows "turn_row (rq_sequence r) db = Inr r"
proof -
  have keys: "keys_ok db" and own: "owned_request db r" using assms by (auto simp: db_ok_def turn_ok_def)
  have "rq_sequence r \<in> set (map rq_sequence (db_requests db))" using assms(2) by simp
  also have "\<dots> = set (map (\<lambda>i. int i + 1) [0..<length (db_requests db)])"
    using keys by (simp only: keys_ok_def)
  finally have range: "1 \<le> rq_sequence r" "rq_sequence r \<le> max_rowid"
    using keys by (auto simp: keys_ok_def)
  obtain x where x: "find (\<lambda>x. rq_sequence x = rq_sequence r \<and> rq_operation x = ''turn'' \<and> owned_request db x)
      (db_requests db) = Some x"
    using assms(2,3) own by (cases "find (\<lambda>x. rq_sequence x = rq_sequence r \<and> rq_operation x = ''turn''
      \<and> owned_request db x) (db_requests db)") (auto simp: find_None_iff)
  then have "x \<in> set (db_requests db)" "rq_sequence x = rq_sequence r" using find_SomeD [OF x] by auto
  then have "x = r" using keys_distinct [OF keys] assms(2) by (auto simp: distinct_map dest: inj_onD)
  then show ?thesis using x range by (simp add: turn_row_def fetch_def)
qed

lemma recover_row_runs:
  assumes "db_ok (ps_db s)" "r \<in> set (open_turns (ps_db s))" "db_event_seq (ps_db s) < max_rowid"
  obtains x s' where "recover_row n1 n2 (rq_sequence r) s = (Inr x, s')"
    "any_steps False (ps_db s) (ps_db s')"
    "open_turns (ps_db s') = filter (\<lambda>x. rq_sequence x \<noteq> rq_sequence r) (open_turns (ps_db s))"
    "db_event_seq (ps_db s') = db_event_seq (ps_db s) + 1"
proof -
  let ?k = "rq_sequence r"
  let ?f = "\<lambda>x. x\<lparr>rq_state := ''UNCERTAIN'', rq_phase := ''recovery'',
     rq_error_code := Some ''uncertainty'', rq_updated_at := n1\<rparr>"
  have r: "r \<in> set (db_requests (ps_db s))" "rq_operation r = ''turn''" "is_open r"
    using assms(2) by (auto simp: open_turns_def)
  have keys: "keys_ok (ps_db s)" using assms(1) by (simp add: db_ok_def)
  let ?s1 = "s\<lparr>ps_db := set_request ?k ?f (ps_db s), ps_blocked := insert ?k (ps_blocked s),
      ps_fresh := ps_fresh s - {?k}\<rparr>"
  obtain t where ev: "event ?k ''recovery'' ''uncertainty'' n2 ?s1 = (Inr (), t)"
    using assms(3) by (auto simp: event_Inr)
  have move: "turn_move r (?f r)" by (rule recover_move [OF r(3)])
  have path: "steps False (rq_owner_id r) (ps_db s) (ps_db t)"
    by (rule steps_move_log [of r _ ?k ?f, OF r(1,2) refl move ev]) simp
  have ok: "db_ok (ps_db t)" by (rule steps_ok [OF path assms(1)])
  have reqs: "db_requests (ps_db t) = db_requests (set_request ?k ?f (ps_db s))"
    using ev by (auto simp: event_Inr)
  obtain ys zs where "db_requests (set_request ?k ?f (ps_db s)) = ys @ ?f r # zs"
    using set_request_split [OF keys r(1) refl] .
  then have "turn_row ?k (ps_db t) = Inr (?f r)"
    using turn_row_found [OF ok, of "?f r"] r(2) reqs by simp
  then have run: "recover_row n1 n2 ?k s = (Inr (?f r, False), t)"
    using ev by (simp add: recover_row_def then_do_def modify_def settle_def query_def give_def)
  have "open_turns (ps_db t) = filter (\<lambda>x. rq_sequence x \<noteq> ?k) (open_turns (ps_db s))"
    using open_turns_set [OF keys r(1) refl, of ?f] reqs
    by (simp add: open_turns_def is_open_def same_request_def)
  moreover have "db_event_seq (ps_db t) = db_event_seq (ps_db s) + 1" using ev by (auto simp: event_Inr)
  ultimately show ?thesis using that [OF run steps_any [OF path]] by blast
qed

lemma recover_row_room: "recover_row n1 n2 k s = (Inr x, s') \<Longrightarrow> db_event_seq (ps_db s) < max_rowid"
  by (auto simp: recover_row_def work_Inr)

lemma recover_rows_refine:
  assumes "recover_rows clk i ks s = (Inr rs, s')" "db_ok (ps_db s)" "distinct ks"
    "set ks \<subseteq> rq_sequence ` set (open_turns (ps_db s))"
  shows "any_steps False (ps_db s) (ps_db s')
    \<and> open_turns (ps_db s') = filter (\<lambda>x. rq_sequence x \<notin> set ks) (open_turns (ps_db s))"
  using assms
proof (induction ks arbitrary: i s rs)
  case Nil
  then show ?case by (simp add: basic_Inr any_steps_refl)
next
  case (Cons k ks)
  then obtain r where r: "r \<in> set (open_turns (ps_db s))" "k = rq_sequence r" by auto
  from Cons.prems(1) obtain x t rs' where run: "recover_row (clk (2 * i)) (clk (2 * i + 1)) k s = (Inr x, t)"
      "recover_rows clk (Suc i) ks t = (Inr rs', s')"
    by (auto simp: then_do_Inr basic_Inr)
  obtain x' t' where "recover_row (clk (2 * i)) (clk (2 * i + 1)) k s = (Inr x', t')"
      "any_steps False (ps_db s) (ps_db t')"
      "open_turns (ps_db t') = filter (\<lambda>x. rq_sequence x \<noteq> k) (open_turns (ps_db s))"
    using recover_row_runs [OF Cons.prems(2) r(1) recover_row_room [OF run(1)]] r(2) by metis
  with run(1) have t: "any_steps False (ps_db s) (ps_db t)"
      "open_turns (ps_db t) = filter (\<lambda>x. rq_sequence x \<noteq> k) (open_turns (ps_db s))" by auto
  have "set ks \<subseteq> rq_sequence ` set (open_turns (ps_db t))"
    using Cons.prems(3,4) unfolding t(2) by fastforce
  then have "any_steps False (ps_db t) (ps_db s')
      \<and> open_turns (ps_db s') = filter (\<lambda>x. rq_sequence x \<notin> set ks) (open_turns (ps_db t))"
    using Cons.IH [OF run(2)] any_steps_ok [OF t(1) Cons.prems(2)] Cons.prems(3) by simp
  then show ?case using t any_steps_trans by (auto simp: conj_commute intro!: filter_cong)
qed

lemma recover_rows_runs:
  assumes "db_ok (ps_db s)" "distinct ks" "set ks \<subseteq> rq_sequence ` set (open_turns (ps_db s))"
    "db_event_seq (ps_db s) + int (length ks) \<le> max_rowid"
  shows "\<exists>rs s'. recover_rows clk i ks s = (Inr rs, s')"
  using assms
proof (induction ks arbitrary: i s)
  case Nil
  then show ?case by (simp add: give_def)
next
  case (Cons k ks)
  then obtain r where r: "r \<in> set (open_turns (ps_db s))" "k = rq_sequence r" by auto
  have room: "db_event_seq (ps_db s) < max_rowid" using Cons.prems(4) by simp
  obtain x t where t: "recover_row (clk (2 * i)) (clk (2 * i + 1)) k s = (Inr x, t)"
      "any_steps False (ps_db s) (ps_db t)"
      "open_turns (ps_db t) = filter (\<lambda>x. rq_sequence x \<noteq> k) (open_turns (ps_db s))"
      "db_event_seq (ps_db t) = db_event_seq (ps_db s) + 1"
    using recover_row_runs [OF Cons.prems(1) r(1) room] r(2) by metis
  have "set ks \<subseteq> rq_sequence ` set (open_turns (ps_db t))"
    using Cons.prems(2,3) unfolding t(3) by fastforce
  then have "\<exists>rs s'. recover_rows clk (Suc i) ks t = (Inr rs, s')"
    using Cons.prems(2,4) t(4) any_steps_ok [OF t(2) Cons.prems(1)] by (intro Cons.IH) auto
  then show ?case using t(1) by (auto simp: then_do_Inr basic_Inr)
qed

definition open_numbers :: "pilot_db \<Rightarrow> int list" where
  "open_numbers db = map rq_sequence (sort_key rq_sequence (open_turns db))"

lemma open_numbers_set: "set (open_numbers db) = rq_sequence ` set (open_turns db)"
  by (simp add: open_numbers_def)

lemma open_numbers_distinct: "db_ok db \<Longrightarrow> distinct (open_numbers db)"
proof -
  assume "db_ok db"
  then have "distinct (map rq_sequence (open_turns db))"
    using keys_distinct by (auto simp: db_ok_def open_turns_def intro: distinct_map_filter)
  then show ?thesis by (simp add: open_numbers_def distinct_map)
qed

section \<open>Runs of the store\<close>

text \<open>\<open>P_restart\<close> is a new process on the same database file.\<close>

datatype pilot_op =
    P_initialize bool
  | P_fence
  | P_close
  | P_restart
  | P_workspace pilot_io "nat \<Rightarrow> rat" "nat \<Rightarrow> str" principal
  | P_create_thread pilot_io "nat \<Rightarrow> rat" "nat \<Rightarrow> str" principal str str "str option"
  | P_admit pilot_io "nat \<Rightarrow> rat" "nat \<Rightarrow> str" principal str str "(str \<times> json) list"
  | P_claim pilot_io "nat \<Rightarrow> rat" principal str str
  | P_transition pilot_io "nat \<Rightarrow> rat" int str str str "str option"
  | P_stage pilot_io "nat \<Rightarrow> rat" int raw_result
  | P_commit pilot_io "nat \<Rightarrow> rat" int str "execution_assessment option"
  | P_cancel pilot_io "nat \<Rightarrow> rat" principal str str
  | P_recover pilot_io "nat \<Rightarrow> rat"
  | P_attempt pilot_io "nat \<Rightarrow> rat" int attempt_kind int

definition restart :: "pilot_store \<Rightarrow> pilot_store" where
  "restart s = \<lparr>ps_ready = False, ps_closed = False, ps_fenced = False, ps_fresh = {}, ps_blocked = {},
     ps_db = ps_db s\<rparr>"

fun pilot_step :: "codec \<Rightarrow> pilot_op \<Rightarrow> pilot_store \<Rightarrow> pilot_store" where
  "pilot_step cd (P_initialize ok) s = snd (initialize ok s)"
| "pilot_step cd P_fence s = fence_publication s"
| "pilot_step cd P_close s = close_store s"
| "pilot_step cd P_restart s = restart s"
| "pilot_step cd (P_workspace io clk uid p) s = snd (ensure_workspace io clk uid p s)"
| "pilot_step cd (P_create_thread io clk uid p rid title parent) s =
     snd (create_thread cd io clk uid p rid title parent s)"
| "pilot_step cd (P_admit io clk uid p rid op payload) s = snd (admit cd io clk uid p rid op payload s)"
| "pilot_step cd (P_claim io clk p rid task) s = snd (claim io clk p rid task s)"
| "pilot_step cd (P_transition io clk k expected st phase err) s = snd (transition io clk k expected st phase err s)"
| "pilot_step cd (P_stage io clk k result) s = snd (stage_result cd io clk k result s)"
| "pilot_step cd (P_commit io clk k reply a) s = snd (commit_turn cd io clk k reply a s)"
| "pilot_step cd (P_cancel io clk p task rid) s = snd (request_cancel cd io clk p task rid s)"
| "pilot_step cd (P_recover io clk) s = snd (recover_interrupted io clk s)"
| "pilot_step cd (P_attempt io clk k kind limit) s = snd (reserve_attempt io clk k kind limit s)"

fun op_owner :: "pilot_op \<Rightarrow> str option" where
  "op_owner (P_workspace io clk uid p) = Some (pr_owner_id p)"
| "op_owner (P_create_thread io clk uid p rid title parent) = Some (pr_owner_id p)"
| "op_owner (P_admit io clk uid p rid op payload) = Some (pr_owner_id p)"
| "op_owner (P_claim io clk p rid task) = Some (pr_owner_id p)"
| "op_owner (P_cancel io clk p task rid) = Some (pr_owner_id p)"
| "op_owner _ = None"

lemma snd_then_of_res: "snd (then_do (of_res q) f s) = (case q of Inl e \<Rightarrow> s | Inr x \<Rightarrow> snd (f x s))"
  by (auto simp: then_do_def of_res_def split: sum.splits)

lemma snd_then_guard: "snd (then_do (guard b c) f s) = (if b then snd (f () s) else s)"
  by (auto simp: then_do_def guard_def give_def throw_def)

lemmas snd_then_do = snd_then_of_res snd_then_guard

lemma run_work_db:
  "ps_db (snd (run_work io pub m s)) = ps_db s
   \<or> (\<exists>x t. m s = (Inr x, t) \<and> ps_db (snd (run_work io pub m s)) = ps_db t \<and> (pub \<longrightarrow> \<not> ps_fenced t))"
  by (auto simp: run_work_def transaction_def split: prod.splits sum.splits)

lemma refines_run: "refines owner m \<Longrightarrow> steps False owner (ps_db s) (ps_db (snd (run_work io pub m s)))"
  using run_work_db [of io pub m s] refinesD [of owner m s] steps_refl [of False owner "ps_db s"] by auto

lemma refines_turn_run:
  assumes "refines_turn pub k m"
  shows "any_steps pub (ps_db s) (ps_db (snd (run_work io pub' m s)))"
  using run_work_db [of io pub' m s]
proof
  assume "\<exists>x t. m s = (Inr x, t) \<and> ps_db (snd (run_work io pub' m s)) = ps_db t \<and> (pub' \<longrightarrow> \<not> ps_fenced t)"
  then obtain x t where "m s = (Inr x, t)" "ps_db (snd (run_work io pub' m s)) = ps_db t" by blast
  then show ?thesis using assms steps_any unfolding refines_turn_def by metis
qed (simp add: any_steps_refl)

lemma owner_op_refines:
  "op_owner x = Some owner \<Longrightarrow> steps False owner (ps_db s) (ps_db (pilot_step cd x s))"
  by (cases x) (auto simp: snd_then_do ensure_workspace_def create_thread_def admit_def claim_def
    request_cancel_def steps_refl refines_run refines_workspace refines_create_thread_work
    refines_admit_work refines_claim_work refines_cancel_work split: sum.splits)

lemma recover_refines:
  assumes "db_ok (ps_db s)"
  shows "any_steps False (ps_db s) (ps_db (snd (recover_interrupted io clk s)))"
proof -
  let ?m = "\<lambda>s. recover_rows clk 0 (open_numbers (ps_db s)) s"
  have eq: "recover_interrupted io clk = run_work io False ?m"
    by (simp add: recover_interrupted_def open_numbers_def)
  show ?thesis unfolding eq using run_work_db [of io False ?m s]
  proof
    assume "\<exists>x t. ?m s = (Inr x, t) \<and> ps_db (snd (run_work io False ?m s)) = ps_db t \<and> (False \<longrightarrow> \<not> ps_fenced t)"
    then show "any_steps False (ps_db s) (ps_db (snd (run_work io False ?m s)))"
      using recover_rows_refine [OF _ assms open_numbers_distinct [OF assms]] open_numbers_set by auto
  qed (simp add: any_steps_refl)
qed

lemma commit_fenced:
  assumes "ps_fenced s"
  shows "ps_db (snd (commit_turn cd io clk k reply a s)) = ps_db s"
  using run_work_db [of io True "commit_work cd clk k reply a" s] assms
  by (auto simp: commit_turn_def elim: commit_work_Inr)

text \<open>Every operation refines the abstract steps; publishing is among them only for
  \<open>commit_turn\<close> before the fence.\<close>

lemma op_refines:
  assumes "db_ok (ps_db s)" "pub \<or> ps_fenced s \<or> (\<forall>io clk k reply a. x \<noteq> P_commit io clk k reply a)"
  shows "any_steps pub (ps_db s) (ps_db (pilot_step cd x s))"
proof -
  have lift: "any_steps pub db db'" if "any_steps False db db'" for db db'
    using that unfolding any_steps_def
    by (rule rtranclp_mono [THEN predicate2D, rotated]) (auto elim!: db_step.cases intro: db_step.intros)
  show ?thesis
  proof (cases "op_owner x")
    case (Some owner)
    then show ?thesis using owner_op_refines steps_any lift by blast
  next
    case None
    show ?thesis
    proof (cases x)
      case (P_commit io clk k reply a)
      show ?thesis
      proof (cases "ps_fenced s")
        case True
        then show ?thesis using P_commit by (simp add: commit_fenced any_steps_refl)
      next
        case False
        then have pub using assms(2) P_commit by auto
        then show ?thesis using P_commit refines_turn_run [OF refines_commit_work] by (simp add: commit_turn_def)
      qed
    next
      case (P_recover io clk)
      then show ?thesis using recover_refines [OF assms(1)] lift by simp
    next
      case (P_transition io clk k expected st phase err)
      then show ?thesis
        using refines_turn_run [OF refines_transition_work] lift any_steps_refl
        by (auto simp: transition_def snd_then_do)
    next
      case (P_stage io clk k result)
      then show ?thesis
        using refines_turn_run [OF refines_stage_work] lift any_steps_refl
        by (auto simp: stage_result_def snd_then_do throw_def split: raw_result.splits sum.splits)
    next
      case (P_attempt io clk k kind limit)
      then show ?thesis
        using refines_turn_run [OF refines_reserve_work] lift any_steps_refl
        by (auto simp: reserve_attempt_def snd_then_do)
    qed (use None in \<open>auto simp: initialize_def fence_publication_def close_store_def restart_def any_steps_refl\<close>)
  qed
qed

end
