(* ===== verification/Admission_Pilot.thy ===== *)
theory Admission_Pilot
  imports Admission_Turns
begin

text \<open>
  The properties of the owner pilot's store over runs of its operations, with restarts of the
  process among them: messages are published exactly once and never behind the fence, settled
  turns are final, a turn is claimed once, requests are idempotent, owners are isolated, and
  recovery settles every interrupted turn.
\<close>

section \<open>The store as a machine\<close>

interpretation pilot: op_progress "pilot_step cd" "\<lambda>s. db_ok (ps_db s)" "\<lambda>_. True"
  "\<lambda>s s'. db_le (ps_db s) (ps_db s')" for cd
proof
  fix x and s t u :: pilot_store
  have path: "any_steps True (ps_db s) (ps_db (pilot_step cd x s))" if "db_ok (ps_db s)"
    by (rule op_refines [OF that]) simp
  show "db_ok (ps_db s) \<Longrightarrow> db_ok (ps_db (pilot_step cd x s))"
    using any_steps_ok [OF path] by blast
  show "db_ok (ps_db s) \<Longrightarrow> db_le (ps_db s) (ps_db (pilot_step cd x s))"
    using any_steps_ok [OF path] by blast
  show "db_le (ps_db s) (ps_db s)" by (rule db_le_refl)
  show "db_le (ps_db s) (ps_db t) \<Longrightarrow> db_le (ps_db t) (ps_db u) \<Longrightarrow> db_le (ps_db s) (ps_db u)"
    by (rule db_le_trans)
qed

lemma legal_all: "list_all (\<lambda>_. True) xs"
  by (simp add: list_all_iff)

lemmas pilot_run = pilot.run_keeps [OF legal_all] pilot.run_advances [OF legal_all]

lemma empty_db_ok: "db_ok empty_db"
  by (simp add: db_ok_def keys_ok_def messages_ok_def empty_db_def max_rowid_def)

lemma mk_pilot_store_db: "mk_pilot_store path db = Inr s \<Longrightarrow> ps_db s = db"
  by (auto simp: mk_pilot_store_def split: if_splits)

lemma reached_ok:
  assumes "mk_pilot_store path empty_db = Inr s"
  shows "db_ok (ps_db (run_ops (pilot_step cd) ops s))"
  using pilot_run(1) mk_pilot_store_db [OF assms] empty_db_ok by metis

lemma row_later:
  assumes "db_le db db'" "r \<in> set (db_requests db)"
  obtains r' where "r' \<in> set (db_requests db')" "row_le r r'"
proof -
  obtain rs news where rs: "db_requests db' = rs @ news" "list_all2 row_le (db_requests db) rs"
    using assms(1) by (auto simp: db_le_def)
  obtain i where i: "i < length (db_requests db)" "db_requests db ! i = r"
    using assms(2) by (auto simp: in_set_conv_nth)
  then have "row_le r (rs ! i)" "i < length rs"
    using rs(2) by (auto simp: list_all2_conv_all_nth)
  then show ?thesis using that [of "rs ! i"] rs(1) by auto
qed

lemma request_unique:
  assumes "db_ok db" "r \<in> set (db_requests db)" "r' \<in> set (db_requests db)"
    "rq_owner_id r = rq_owner_id r'" "rq_request_id r = rq_request_id r'"
  shows "r = r'"
proof -
  have "distinct (map (\<lambda>r. (rq_owner_id r, rq_request_id r)) (db_requests db))"
    using assms(1) by (simp add: db_ok_def keys_ok_def)
  then show ?thesis using assms(2-5) by (auto simp: distinct_map dest: inj_onD)
qed

lemma sequence_unique:
  assumes "db_ok db" "r \<in> set (db_requests db)" "r' \<in> set (db_requests db)" "rq_sequence r = rq_sequence r'"
  shows "r = r'"
proof -
  have "distinct (map rq_sequence (db_requests db))"
    using keys_distinct assms(1) by (simp add: db_ok_def)
  then show ?thesis using assms(2-4) by (auto simp: distinct_map dest: inj_onD)
qed

section \<open>Flags of the process\<close>

definition flags :: "pilot_store \<Rightarrow> bool \<times> bool \<times> bool" where
  "flags s = (ps_ready s, ps_closed s, ps_fenced s)"

definition keeps_flags :: "'a work \<Rightarrow> bool" where
  "keeps_flags m = (\<forall>s. flags (snd (m s)) = flags s)"

lemma keeps_then_do: "keeps_flags m \<Longrightarrow> (\<And>x. keeps_flags (f x)) \<Longrightarrow> keeps_flags (then_do m f)"
  by (simp add: keeps_flags_def then_do_def split: prod.splits sum.splits) (metis snd_conv)

lemma keeps_basic:
  "keeps_flags (give x)" "keeps_flags (throw e)" "keeps_flags (guard b c)" "keeps_flags (of_res q)"
  "keeps_flags (query r)" "keeps_flags (modify h)" "keeps_flags (settle k)"
  "keeps_flags (event k phase code now)" "keeps_flags (insert_request row)" "keeps_flags (insert_workspace w)"
  "keeps_flags (insert_subject owner ws)" "keeps_flags (insert_thread t)" "keeps_flags (insert_message m)"
  by (auto simp: keeps_flags_def flags_def give_def throw_def guard_def of_res_def query_def modify_def
    settle_def event_def insert_request_def insert_workspace_def insert_subject_def insert_thread_def
    insert_message_def Let_def)

lemma keeps_option:
  "keeps_flags m \<Longrightarrow> (\<And>x. keeps_flags (f x)) \<Longrightarrow> keeps_flags (\<lambda>s. case g s of None \<Rightarrow> m s | Some x \<Rightarrow> f x s)"
  by (simp add: keeps_flags_def split: option.splits)

lemma keeps_run: "keeps_flags m \<Longrightarrow> keeps_flags (run_work io pub m)"
  unfolding keeps_flags_def
proof
  fix s
  assume keeps: "\<forall>s. flags (snd (m s)) = flags s"
  obtain q t where t: "m s = (q, t)" by (cases "m s")
  then have "flags t = flags s" using keeps by (metis snd_conv)
  then show "flags (snd (run_work io pub m s)) = flags s"
    using t by (cases q) (auto simp: flags_def run_work_def transaction_def)
qed

lemmas keeps_rules = keeps_then_do keeps_basic keeps_option keeps_run

lemma keeps_workspace: "keeps_flags (workspace_of clk uid p)"
  unfolding workspace_of_def by (intro keeps_rules)

lemma keeps_create_thread_work: "keeps_flags (create_thread_work clk uid p rid title parent digest)"
  unfolding create_thread_work_def
  by (intro keeps_rules keeps_workspace) (auto intro!: keeps_rules split: option.splits)

lemma keeps_set_fresh: "keeps_flags (\<lambda>s. (Inr (f s), s\<lparr>ps_fresh := g s\<rparr>))"
  by (simp add: keeps_flags_def flags_def)

lemma keeps_admit_work: "keeps_flags (admit_work clk uid p rid thread msg digest)"
  unfolding admit_work_def by (intro keeps_rules keeps_set_fresh)

lemma keeps_claim_work: "keeps_flags (claim_work clk p rid task)"
  by (simp add: keeps_flags_def flags_def claim_work_def then_do_def query_def guard_def give_def throw_def
    modify_def split: sum.splits option.splits)

lemma keeps_cancel_work: "keeps_flags (cancel_work clk p task rid digest)"
  unfolding cancel_work_def by (intro keeps_rules) (auto intro!: keeps_rules)

lemma keeps_transition_work: "keeps_flags (transition_work clk k expected st phase err)"
  unfolding transition_work_def by (intro keeps_rules) (auto intro!: keeps_rules)

lemma keeps_stage_work: "keeps_flags (stage_work cd clk k task response a)"
  unfolding stage_work_def by (intro keeps_rules)

lemma keeps_commit_work: "keeps_flags (commit_work cd clk k reply a)"
  unfolding commit_work_def publish_def
  by (intro keeps_rules) (auto intro!: keeps_rules split: op_input.splits)

lemma keeps_reserve_work: "keeps_flags (reserve_work clk k kind limit)"
  unfolding reserve_work_def by (intro keeps_rules) (auto intro!: keeps_rules)

lemma keeps_recover_rows: "keeps_flags (recover_rows clk i ks)"
  by (induction ks arbitrary: i) (auto simp: recover_row_def intro!: keeps_rules)

lemmas keeps_bodies = keeps_workspace keeps_create_thread_work keeps_admit_work keeps_claim_work
  keeps_cancel_work keeps_transition_work keeps_stage_work keeps_commit_work keeps_reserve_work

lemma keepsD: "keeps_flags m \<Longrightarrow> ps_fenced (snd (m s)) = ps_fenced s"
  by (simp add: keeps_flags_def flags_def)

text \<open>Nothing but a restart opens the gate again.\<close>

lemma fence_kept:
  assumes "ps_fenced s" "x \<noteq> P_restart"
  shows "ps_fenced (pilot_step cd x s)"
proof -
  have "keeps_flags (recover_interrupted io clk)" for io clk
    unfolding recover_interrupted_def
    by (rule keeps_run) (use keeps_recover_rows in \<open>simp add: keeps_flags_def\<close>)
  then show ?thesis using assms keepsD [OF keeps_run [OF keeps_bodies(1)]]
      keepsD [OF keeps_run [OF keeps_bodies(2)]] keepsD [OF keeps_run [OF keeps_bodies(3)]]
      keepsD [OF keeps_run [OF keeps_bodies(4)]] keepsD [OF keeps_run [OF keeps_bodies(5)]]
      keepsD [OF keeps_run [OF keeps_bodies(6)]] keepsD [OF keeps_run [OF keeps_bodies(7)]]
      keepsD [OF keeps_run [OF keeps_bodies(8)]] keepsD [OF keeps_run [OF keeps_bodies(9)]]
    by (cases x) (auto simp: snd_then_do initialize_def fence_publication_def close_store_def keepsD
      ensure_workspace_def create_thread_def admit_def claim_def request_cancel_def transition_def
      stage_result_def commit_turn_def reserve_attempt_def throw_def split: sum.splits raw_result.splits)
qed

section \<open>Publication\<close>

text \<open>C10: Whatever operations run on a new store, with failures and restarts among them, the
  messages in the database are exactly those of the completed turns: for each of them the
  admitted user message and the staged response, once, under the ids drawn at admission, and
  no other message.\<close>

theorem messages_are_published_turns:
  assumes "mk_pilot_store path empty_db = Inr s0"
  shows "mset (map message_core (db_messages (ps_db (run_ops (pilot_step cd) ops s0)))) =
    mset (concat (map turn_messages (filter published (db_requests (ps_db (run_ops (pilot_step cd) ops s0))))))"
  using reached_ok [OF assms] by (simp add: db_ok_def messages_ok_def)

lemma unpublished_run:
  assumes "db_ok (ps_db s)" "ps_fenced s" "P_restart \<notin> set xs"
  shows "db_messages (ps_db (run_ops (pilot_step cd) xs s)) = db_messages (ps_db s)
    \<and> filter published (db_requests (ps_db (run_ops (pilot_step cd) xs s)))
      = filter published (db_requests (ps_db s))"
  using assms
proof (induction xs arbitrary: s)
  case (Cons x xs)
  have path: "any_steps False (ps_db s) (ps_db (pilot_step cd x s))"
    by (rule op_refines [OF Cons.prems(1)]) (simp add: Cons.prems(2))
  then show ?case
    using Cons.IH [of "pilot_step cd x s"] any_steps_ok [OF path Cons.prems(1)]
      unpublished_steps [OF path Cons.prems(1)] fence_kept [OF Cons.prems(2)] Cons.prems(3) by auto
qed simp

text \<open>C11: Once the publication gate is closed, nothing is published until the process restarts:
  no operation, \<open>commit_turn\<close> included, adds a message or completes a turn.\<close>

theorem fenced_store_publishes_nothing:
  assumes "mk_pilot_store path empty_db = Inr s0"
    and "ps_fenced (run_ops (pilot_step cd) ops s0)" and "P_restart \<notin> set later"
  shows "db_messages (ps_db (run_ops (pilot_step cd) (ops @ later) s0))
      = db_messages (ps_db (run_ops (pilot_step cd) ops s0))
    \<and> filter published (db_requests (ps_db (run_ops (pilot_step cd) (ops @ later) s0)))
      = filter published (db_requests (ps_db (run_ops (pilot_step cd) ops s0)))"
  unfolding run_ops_append by (rule unpublished_run [OF reached_ok [OF assms(1)] assms(2,3)])

section \<open>The life of a turn\<close>

lemma later_row:
  assumes "mk_pilot_store path empty_db = Inr s0"
    and "r \<in> set (db_requests (ps_db (run_ops (pilot_step cd) ops s0)))"
  obtains r' where "r' \<in> set (db_requests (ps_db (run_ops (pilot_step cd) (ops @ later) s0)))" "row_le r r'"
  using row_later [OF pilot_run(2) assms(2)] reached_ok [OF assms(1)] unfolding run_ops_append by blast

text \<open>A request that is settled is final: its row is in the database, unchanged in every
  column, after every later operation.\<close>

lemma settled_turns_are_final:
  assumes "mk_pilot_store path empty_db = Inr s0"
    and "r \<in> set (db_requests (ps_db (run_ops (pilot_step cd) ops s0)))" and "settled r"
  shows "r \<in> set (db_requests (ps_db (run_ops (pilot_step cd) (ops @ later) s0)))"
  using later_row [OF assms(1,2)] assms(3) by (metis row_le_def)

text \<open>A turn whose cancellation was recorded before it completed is never published
  afterwards.\<close>

lemma cancelled_turn_never_published:
  assumes "mk_pilot_store path empty_db = Inr s0"
    and "r \<in> set (db_requests (ps_db (run_ops (pilot_step cd) ops s0)))"
    and "rq_cancel_requested r" and "\<not> published r"
    and "r' \<in> set (db_requests (ps_db (run_ops (pilot_step cd) (ops @ later) s0)))"
    and "rq_sequence r' = rq_sequence r"
  shows "\<not> published r'"
proof -
  let ?db = "ps_db (run_ops (pilot_step cd) (ops @ later) s0)"
  obtain x where x: "x \<in> set (db_requests ?db)" "row_le r x"
    using later_row [OF assms(1,2)] .
  have "rq_sequence x = rq_sequence r'" using x(2) assms(6) by (simp add: row_le_def same_request_def)
  then have "x = r'" by (rule sequence_unique [OF reached_ok [OF assms(1)] x(1) assms(5)])
  then show ?thesis using x(2) assms(3,4) by (auto simp: row_le_def)
qed

text \<open>The rows of a reachable store are well formed: requests are numbered from 1 without
  gaps and unique per owner and request id, and a turn never counts more than 8 model attempts
  and 4 tool attempts.\<close>

lemma pilot_rows_wellformed:
  assumes "mk_pilot_store path empty_db = Inr s0"
    and "rows = db_requests (ps_db (run_ops (pilot_step cd) ops s0))"
  shows "map rq_sequence rows = map (\<lambda>i. int i + 1) [0..<length rows]
    \<and> distinct (map (\<lambda>r. (rq_owner_id r, rq_request_id r)) rows)
    \<and> (\<forall>r \<in> set rows. rq_operation r = ''turn'' \<longrightarrow>
        rq_model_attempts r \<in> {0..8} \<and> rq_tool_attempts r \<in> {0..4})"
proof -
  have ok: "db_ok (ps_db (run_ops (pilot_step cd) ops s0))" by (rule reached_ok [OF assms(1)])
  then have "keys_ok (ps_db (run_ops (pilot_step cd) ops s0))" by (simp add: db_ok_def)
  then have "map rq_sequence rows = map (\<lambda>i. int i + 1) [0..<length rows]"
    "distinct (map (\<lambda>r. (rq_owner_id r, rq_request_id r)) rows)"
    unfolding assms(2) keys_ok_def by blast+
  moreover have "\<forall>r \<in> set rows. rq_operation r = ''turn'' \<longrightarrow>
      rq_model_attempts r \<in> {0..8} \<and> rq_tool_attempts r \<in> {0..4}"
    using ok unfolding assms(2) by (simp add: db_ok_def turn_ok_def)
  ultimately show ?thesis by blast
qed

lemma run_work_Inr:
  "run_work io pub m s = (Inr x, s') \<longleftrightarrow>
     ps_ready s \<and> \<not> ps_closed s \<and> io_connects io \<and> m s = (Inr x, s') \<and> \<not> (pub \<and> ps_fenced s') \<and> io_commits io"
  by (auto simp: run_work_def transaction_def split: prod.splits sum.splits)

lemma run_work_refused:
  "m s = (Inl e, s) \<Longrightarrow> isl (fst (run_work io pub m s)) \<and> snd (run_work io pub m s) = s"
  by (simp add: run_work_def transaction_def)

lemma claim_Inr:
  assumes "claim io clk p rid task s = (Inr x, s')"
  obtains r where "request_row p rid (ps_db s) = Inr r" "unclaimed r"
    "ps_db s' = set_request (rq_sequence r) (\<lambda>x. x\<lparr>rq_phase := ''reserved'', rq_updated_at := clk 1\<rparr>) (ps_db s)"
  using assms by (auto simp: claim_def claim_work_def work_Inr run_work_Inr claimable_def unclaimed_def)

text \<open>C12: A turn is claimed at most once: after a claim that returned, no later claim of the
  same request returns, whatever operations and restarts come between.\<close>

theorem turn_claimed_once:
  assumes "mk_pilot_store path empty_db = Inr s0" and "s = run_ops (pilot_step cd) ops s0"
    and "claim io clk p rid task s = (Inr x, s')" and "pr_owner_id p' = pr_owner_id p"
  shows "isl (fst (claim io' clk' p' rid task' (run_ops (pilot_step cd) later s')))"
proof (rule ccontr)
  let ?t = "run_ops (pilot_step cd) later s'"
  assume "\<not> isl (fst (claim io' clk' p' rid task' ?t))"
  then obtain y where "fst (claim io' clk' p' rid task' ?t) = Inr y"
    by (cases "fst (claim io' clk' p' rid task' ?t)") simp_all
  then have again: "claim io' clk' p' rid task' ?t = (Inr y, snd (claim io' clk' p' rid task' ?t))"
    by (simp add: prod_eq_iff)
  obtain r where r: "request_row p rid (ps_db s) = Inr r"
      "ps_db s' = set_request (rq_sequence r) (\<lambda>x. x\<lparr>rq_phase := ''reserved'', rq_updated_at := clk 1\<rparr>) (ps_db s)"
    using claim_Inr [OF assms(3)] by metis
  obtain r2 where r2: "request_row p' rid (ps_db ?t) = Inr r2" "unclaimed r2"
    using claim_Inr [OF again] by metis
  let ?r1 = "r\<lparr>rq_phase := ''reserved'', rq_updated_at := clk 1\<rparr>"
  have ok: "db_ok (ps_db s)" using reached_ok [OF assms(1)] assms(2) by simp
  have s': "s' = pilot_step cd (P_claim io clk p rid task) s" using assms(3) by simp
  have ok': "db_ok (ps_db s')" unfolding s' by (rule pilot.keeps [OF TrueI ok])
  note row = request_row_Inr [OF r(1)] and row2 = request_row_Inr [OF r2(1)]
  have keys: "keys_ok (ps_db s)" using ok by (simp add: db_ok_def)
  obtain ys zs where "db_requests (set_request (rq_sequence r)
      (\<lambda>x. x\<lparr>rq_phase := ''reserved'', rq_updated_at := clk 1\<rparr>) (ps_db s)) = ys @ ?r1 # zs"
    using set_request_split [OF keys row(1) refl] .
  then have "db_requests (ps_db s') = ys @ ?r1 # zs" using r(2) by simp
  then have "?r1 \<in> set (db_requests (ps_db s'))" by simp
  then obtain x1 where x1: "x1 \<in> set (db_requests (ps_db ?t))" "row_le ?r1 x1"
    using row_later [OF pilot_run(2) [OF ok']] by metis
  moreover have "db_ok (ps_db ?t)" using pilot_run(1) ok' by blast
  ultimately have "x1 = r2"
    using request_unique row2 row(2,3) assms(4) by (simp add: row_le_def same_request_def)
  then show False using x1(2) r2(2) by (auto simp: row_le_def unclaimed_def)
qed

section \<open>Idempotent admission\<close>

lemma thread_later:
  assumes "db_le db db'" "db_ok db'" "thread_row p tid db = Inr t"
  obtains t' where "thread_row p tid db' = Inr t'"
proof -
  note row = thread_row_Inr [OF assms(3)]
  have "id_ok (th_id t)" using assms(3) row(1) by (simp add: thread_row_def split: if_splits)
  have "prefix (map thread_core (db_threads db)) (map thread_core (db_threads db'))"
    using assms(1) by (simp add: db_le_def)
  then have "thread_core t \<in> set (map thread_core (db_threads db'))"
    using set_mono_prefix row(2) by fastforce
  then obtain t' where t': "t' \<in> set (db_threads db')" "thread_core t' = thread_core t" by auto
  moreover have "set (db_subjects db) \<subseteq> set (db_subjects db')"
    using assms(1) unfolding db_le_def by (meson set_mono_prefix)
  ultimately have "owned_thread db' (pr_owner_id p) t'"
    using row(3) by (auto simp: owned_thread_def list_ex_iff thread_core_def)
  then have "find (\<lambda>x. th_id x = th_id t \<and> owned_thread db' (pr_owner_id p) x) (db_threads db') \<noteq> None"
    using t' by (auto simp: find_None_iff thread_core_def)
  then show ?thesis using that row(1) \<open>id_ok (th_id t)\<close> by (auto simp: thread_row_def fetch_def)
qed

lemma stored_request_found:
  assumes "db_ok db" "r \<in> set (db_requests db)"
  shows "stored_request (rq_owner_id r) (rq_request_id r) db = Some r"
proof -
  obtain x where x: "stored_request (rq_owner_id r) (rq_request_id r) db = Some x"
    using assms(2) stored_request_None [of "rq_owner_id r" "rq_request_id r" db] by auto
  then have "x = r"
    using request_unique [OF assms(1) _ assms(2)] by (auto simp: stored_request_def dest: find_SomeD)
  with x show ?thesis by simp
qed

lemma admit_Inr:
  assumes "admit cd io clk uid p rid op payload s = (Inr (r, b), s')"
  obtains thread msg digest t where "check_principal p = Inr ()" "check_id rid = Inr ()" "op = ''turn''"
    "turn_payload payload = Some (thread, msg)" "canonical_input cd (Turn_Input thread msg) = Inr digest"
    "thread_row p (Some thread) (ps_db s) = Inr t" "r \<in> set (db_requests (ps_db s'))"
    "rq_owner_id r = pr_owner_id p" "rq_request_id r = rid" "rq_operation r = ''turn''"
    "rq_input_digest r = digest" "rq_input r = Turn_Input thread msg"
proof -
  from assms obtain thread msg digest where a: "check_principal p = Inr ()" "check_id rid = Inr ()" "op = ''turn''"
      "turn_payload payload = Some (thread, msg)" "canonical_input cd (Turn_Input thread msg) = Inr digest"
      and w: "admit_work clk uid p rid thread msg digest s = (Inr (r, b), s')"
    by (auto simp: admit_def work_Inr run_work_Inr)
  from w obtain t where t: "thread_row p (Some thread) (ps_db s) = Inr t"
    by (auto simp: admit_work_def work_Inr)
  show ?thesis
  proof (cases "stored_request (pr_owner_id p) rid (ps_db s)")
    case None
    then have new: "\<forall>x \<in> set (db_requests (ps_db s)). \<not> (rq_owner_id x = pr_owner_id p \<and> rq_request_id x = rid)"
      by (simp add: stored_request_None)
    let ?x = "(blank_request (pr_owner_id p) rid ''turn'' digest (Turn_Input thread msg) ''ADMITTED'' ''admitted'' (clk 0))
           \<lparr>rq_task_id := Some (uid 0), rq_thread_id := Some thread, rq_resource_id := Some (uid 0),
            rq_user_message_id := Some (uid 1), rq_assistant_message_id := Some (uid 2),
            rq_sequence := db_request_seq (ps_db s) + 1\<rparr>"
    have row: "request_row p rid (ps_db s') = Inr r" "db_requests (ps_db s') = db_requests (ps_db s) @ [?x]"
      using w t None by (auto simp: admit_work_def work_Inr add_request_def)
    have x: "r = ?x" using request_row_Inr(1-3) [OF row(1)] row(2) new by auto
    show ?thesis by (rule that [OF a t]) (simp_all add: x row(2), simp_all add: blank_request_def)
  next
    case (Some old)
    then have "old \<in> set (db_requests (ps_db s))" "rq_owner_id old = pr_owner_id p" "rq_request_id old = rid"
      by (auto simp: stored_request_def dest: find_SomeD)
    then show ?thesis using w t Some that [OF a t] by (auto simp: admit_work_def work_Inr)
  qed
qed

text \<open>Admission is idempotent: once a request was admitted, the same request is answered, at
  any later time at which the store is open and SQLite works, with the row of the first
  admission, marked as a replay, and nothing changes; the same request id with another payload
  is refused, and nothing changes either.\<close>

lemma admission_idempotent:
  assumes "mk_pilot_store path empty_db = Inr s0" and "s = run_ops (pilot_step cd) ops s0"
    and "admit cd io clk uid p rid op payload s = (Inr (r, b), s')"
    and "t = run_ops (pilot_step cd) later s'" and "ps_ready t" and "\<not> ps_closed t"
    and "io_connects io'" and "io_commits io'"
  shows "(\<exists>r'. admit cd io' clk' uid' p rid op payload t = (Inr (r', True), t) \<and> same_request r r')
    \<and> (turn_payload payload' \<noteq> turn_payload payload \<longrightarrow>
         isl (fst (admit cd io' clk' uid' p rid op payload' t)) \<and> snd (admit cd io' clk' uid' p rid op payload' t) = t)"
proof -
  obtain thread msg digest th where a: "check_principal p = Inr ()" "check_id rid = Inr ()" "op = ''turn''"
    "turn_payload payload = Some (thread, msg)" "canonical_input cd (Turn_Input thread msg) = Inr digest"
    "thread_row p (Some thread) (ps_db s) = Inr th" "r \<in> set (db_requests (ps_db s'))"
    "rq_owner_id r = pr_owner_id p" "rq_request_id r = rid" "rq_operation r = ''turn''"
    "rq_input_digest r = digest" "rq_input r = Turn_Input thread msg"
    by (rule admit_Inr [OF assms(3)])
  have ok: "db_ok (ps_db s)" using reached_ok [OF assms(1)] assms(2) by simp
  have s': "s' = pilot_step cd (P_admit io clk uid p rid op payload) s" using assms(3) by simp
  have ok': "db_ok (ps_db s')" unfolding s' by (rule pilot.keeps [OF TrueI ok])
  have "db_le (ps_db s) (ps_db s')" unfolding s' by (rule pilot.advances [OF TrueI ok])
  then have le: "db_le (ps_db s) (ps_db t)"
    using pilot_run(2) [OF ok'] assms(4) db_le_trans by blast
  have okt: "db_ok (ps_db t)" using pilot_run(1) [OF ok'] assms(4) by simp
  obtain r' where r': "r' \<in> set (db_requests (ps_db t))" "row_le r r'"
    using row_later [OF pilot_run(2) [OF ok'] a(7)] assms(4) by metis
  have same: "same_request r r'" using r'(2) by (simp add: row_le_def)
  have found: "stored_request (pr_owner_id p) rid (ps_db t) = Some r'"
    using stored_request_found [OF okt r'(1)] same a(8,9) by (simp add: same_request_def)
  obtain th' where "thread_row p (Some thread) (ps_db t) = Inr th'"
    using thread_later [OF le okt a(6)] .
  then have "admit_work clk' uid' p rid thread msg digest t = (Inr (r', True), t)"
    using found same a(10-12)
    by (simp add: admit_work_def then_do_def query_def guard_def give_def same_request_def)
  then have "admit cd io' clk' uid' p rid op payload t = (Inr (r', True), t)"
    using a assms(5-8) by (simp add: admit_def then_do_def of_res_def guard_def give_def fetch_def
      run_work_def transaction_def)
  moreover have "isl (fst (admit cd io' clk' uid' p rid op payload' t))
      \<and> snd (admit cd io' clk' uid' p rid op payload' t) = t"
    if diff: "turn_payload payload' \<noteq> turn_payload payload"
  proof (cases "turn_payload payload'")
    case None
    then show ?thesis using a by (simp add: admit_def then_do_def of_res_def guard_def give_def fetch_def)
  next
    case (Some tm)
    obtain thread' msg' where tm: "tm = (thread', msg')" by (cases tm)
    have "\<exists>e. admit_work clk' uid' p rid thread' msg' d t = (Inl e, t)" for d
    proof (cases "thread_row p (Some thread') (ps_db t)")
      case (Inr x)
      have "rq_input r' \<noteq> Turn_Input thread' msg'"
        using diff Some tm a(4,12) same by (auto simp: same_request_def)
      then show ?thesis using Inr found
        by (simp add: admit_work_def then_do_def query_def guard_def throw_def)
    qed (simp add: admit_work_def then_do_def query_def)
    then have "isl (fst (run_work io' False (admit_work clk' uid' p rid thread' msg' d) t))
        \<and> snd (run_work io' False (admit_work clk' uid' p rid thread' msg' d) t) = t" for d
      using run_work_refused by metis
    then show ?thesis using a Some tm
      by (simp add: admit_def then_do_def of_res_def guard_def give_def fetch_def split: sum.splits)
  qed
  ultimately show ?thesis using same by blast
qed

section \<open>Recovery and isolation\<close>

text \<open>C13: Recovery returns and settles everything: on an open store whose event table has room,
  \<open>recover_interrupted\<close> returns, and no turn is admitted or running afterwards.\<close>

theorem recovery_settles_every_turn:
  assumes "mk_pilot_store path empty_db = Inr s0" and "s = run_ops (pilot_step cd) ops s0"
    and "ps_ready s" and "\<not> ps_closed s" and "io_connects io" and "io_commits io"
    and "db_event_seq (ps_db s) + int (length (open_turns (ps_db s))) \<le> max_rowid"
  shows "\<exists>rs s'. recover_interrupted io clk s = (Inr rs, s') \<and> open_turns (ps_db s') = []"
proof -
  have ok: "db_ok (ps_db s)" using reached_ok [OF assms(1)] assms(2) by simp
  note numbers = open_numbers_distinct [OF ok] equalityD1 [OF open_numbers_set]
  have "length (open_numbers (ps_db s)) = length (open_turns (ps_db s))" by (simp add: open_numbers_def)
  then obtain rs s' where run: "recover_rows clk 0 (open_numbers (ps_db s)) s = (Inr rs, s')"
    using recover_rows_runs [OF ok numbers, of clk 0] assms(7) by auto
  then have "open_turns (ps_db s') = []"
    using recover_rows_refine [OF run ok numbers] by (simp add: open_numbers_set)
  moreover have "recover_interrupted io clk s = (Inr rs, s')"
    using run assms(3-6) by (simp add: recover_interrupted_def run_work_Inr open_numbers_def)
  ultimately show ?thesis by blast
qed

text \<open>C14: Owners are isolated: an operation on behalf of one owner leaves the requests, threads,
  quota subject and messages of every other owner as they were.\<close>

theorem owners_are_isolated:
  assumes "mk_pilot_store path empty_db = Inr s0" and "s = run_ops (pilot_step cd) ops s0"
    and "op_owner x = Some owner" and "other \<noteq> owner"
  shows "owner_view other (ps_db (pilot_step cd x s)) = owner_view other (ps_db s)"
  using steps_view [OF owner_op_refines [OF assms(3)] _ assms(4)] reached_ok [OF assms(1)] assms(2) by simp

section \<open>Witnesses\<close>

text \<open>A small run: an owner creates a thread and is admitted for a turn, which is claimed,
  started, staged and committed.\<close>

definition demo_codec :: codec where
  "demo_codec = \<lparr>cd_sha = (\<lambda>x. replicate 64 (CHR ''0'')), cd_result = (\<lambda>_. ''r''), cd_raw = (\<lambda>_. Some ''r'')\<rparr>"

definition demo_io :: pilot_io where
  "demo_io = \<lparr>io_connects = True, io_commits = True\<rparr>"

definition ann :: principal where
  "ann = \<lparr>pr_owner_id = ''ann'', pr_transport = ''local'', pr_subject_id = ''u1''\<rparr>"

definition demo_store :: pilot_store where
  "demo_store = \<lparr>ps_ready = False, ps_closed = False, ps_fenced = False, ps_fresh = {}, ps_blocked = {},
     ps_db = empty_db\<rparr>"

definition demo_payload :: "(str \<times> json) list" where
  "demo_payload = [(''thread_id'', JStr ''t''), (''message'', JStr ''hi'')]"

definition demo_ids :: "nat \<Rightarrow> str" where
  "demo_ids i = (if i = 0 then ''k'' else if i = 1 then ''m1'' else ''m2'')"

definition demo_setup :: "pilot_op list" where
  "demo_setup = [P_initialize True,
     P_create_thread demo_io (\<lambda>_. 0) (\<lambda>i. if i = 0 then ''w'' else ''t'') ann ''r1'' ''Notes'' None]"

definition demo_admit :: pilot_op where
  "demo_admit = P_admit demo_io (\<lambda>_. 1) demo_ids ann ''r2'' ''turn'' demo_payload"

definition demo_turn :: "pilot_op list" where
  "demo_turn = [P_claim demo_io (\<lambda>_. 2) ann ''r2'' ''k'',
     P_transition demo_io (\<lambda>_. 3) 2 ''ADMITTED'' ''RUNNING'' ''running'' None,
     P_stage demo_io (\<lambda>_. 4) 2 (Raw_Result (JStr ''k'') (JStr ''ok'') Raw_None)]"

definition demo_commit :: pilot_op where
  "demo_commit = P_commit demo_io (\<lambda>_. 5) 2 ''ok'' None"

definition demo_published :: pilot_store where
  "demo_published = run_ops (pilot_step demo_codec) (demo_setup @ demo_admit # demo_turn @ [demo_commit]) demo_store"

lemma demo_store_made: "mk_pilot_store ''db'' empty_db = Inr demo_store"
  by (simp add: mk_pilot_store_def demo_store_def py_strip_Nil_iff py_space_def)

lemma demo_messages:
  "map message_core (db_messages (ps_db demo_published)) =
     [(Some ''m1'', ''t'', ''user'', ''hi''), (Some ''m2'', ''t'', ''assistant'', ''ok'')]"
  by code_simp

theorem messages_are_published_turns_witness:
  "mk_pilot_store ''db'' empty_db = Inr demo_store
   \<and> db_messages (ps_db demo_published) \<noteq> []
   \<and> mset (map message_core (db_messages (ps_db demo_published))) =
       mset (concat (map turn_messages (filter published (db_requests (ps_db demo_published)))))"
  using messages_are_published_turns [OF demo_store_made, of demo_codec
      "demo_setup @ demo_admit # demo_turn @ [demo_commit]"] demo_messages demo_store_made
  by (auto simp: demo_published_def)

lemma demo_fenced: "ps_fenced (run_ops (pilot_step demo_codec) (demo_setup @ demo_admit # demo_turn @ [P_fence]) demo_store)"
  by code_simp

theorem fenced_store_publishes_nothing_witness:
  "ps_fenced (run_ops (pilot_step demo_codec) (demo_setup @ demo_admit # demo_turn @ [P_fence]) demo_store)
   \<and> db_messages (ps_db (run_ops (pilot_step demo_codec)
        ((demo_setup @ demo_admit # demo_turn @ [P_fence]) @ [demo_commit]) demo_store))
     = db_messages (ps_db (run_ops (pilot_step demo_codec) (demo_setup @ demo_admit # demo_turn @ [P_fence]) demo_store))"
  using fenced_store_publishes_nothing [OF demo_store_made demo_fenced, of "[demo_commit]"] demo_fenced
  by (simp add: demo_commit_def)

definition demo_row :: pilot_request where
  "demo_row = db_requests (ps_db demo_published) ! 1"

lemma demo_row_there: "demo_row \<in> set (db_requests (ps_db demo_published)) \<and> settled demo_row \<and> published demo_row"
  by code_simp

lemma settled_turns_are_final_example:
  "demo_row \<in> set (db_requests (ps_db demo_published)) \<and> settled demo_row
   \<and> demo_row \<in> set (db_requests (ps_db (run_ops (pilot_step demo_codec)
        ((demo_setup @ demo_admit # demo_turn @ [demo_commit]) @ [P_cancel demo_io (\<lambda>_. 6) ann ''k'' ''r3''])
        demo_store)))"
  using settled_turns_are_final [OF demo_store_made, of demo_row demo_codec
      "demo_setup @ demo_admit # demo_turn @ [demo_commit]" "[P_cancel demo_io (\<lambda>_. 6) ann ''k'' ''r3'']"]
    demo_row_there by (simp only: demo_published_def)

definition demo_cancel :: "pilot_op list" where
  "demo_cancel = demo_setup @ demo_admit # demo_turn @ [P_cancel demo_io (\<lambda>_. 5) ann ''k'' ''r3'']"

definition demo_rows :: "pilot_op list \<Rightarrow> pilot_request list" where
  "demo_rows ops = db_requests (ps_db (run_ops (pilot_step demo_codec) ops demo_store))"

lemma demo_cancelled:
  "demo_rows demo_cancel ! 1 \<in> set (demo_rows demo_cancel)
   \<and> rq_cancel_requested (demo_rows demo_cancel ! 1) \<and> \<not> published (demo_rows demo_cancel ! 1)
   \<and> demo_rows (demo_cancel @ [demo_commit]) ! 1 \<in> set (demo_rows (demo_cancel @ [demo_commit]))
   \<and> rq_sequence (demo_rows (demo_cancel @ [demo_commit]) ! 1) = rq_sequence (demo_rows demo_cancel ! 1)"
  by code_simp

lemma cancelled_turn_never_published_example:
  "rq_cancel_requested (demo_rows demo_cancel ! 1) \<and> \<not> published (demo_rows demo_cancel ! 1)
   \<and> \<not> published (demo_rows (demo_cancel @ [demo_commit]) ! 1)"
  using cancelled_turn_never_published [OF demo_store_made, of "demo_rows demo_cancel ! 1" demo_codec demo_cancel
      "demo_rows (demo_cancel @ [demo_commit]) ! 1" "[demo_commit]"] demo_cancelled
  by (simp only: demo_rows_def) blast

lemma pilot_rows_wellformed_example:
  "map rq_sequence (demo_rows demo_cancel) = [1, 2, 3]
   \<and> rq_operation (demo_rows demo_cancel ! 1) = ''turn'' \<and> rq_model_attempts (demo_rows demo_cancel ! 1) \<le> 8"
proof -
  have "length (demo_rows demo_cancel) = 3 \<and> rq_operation (demo_rows demo_cancel ! 1) = ''turn''" by code_simp
  then show ?thesis
    using pilot_rows_wellformed [OF demo_store_made refl, of demo_codec demo_cancel] demo_cancelled
    unfolding demo_rows_def [symmetric] by (simp add: upt_rec)
qed

lemma returned: "\<not> isl (fst z) \<Longrightarrow> z = (Inr (projr (fst z)), snd z)"
  by (cases z) auto

definition demo_admitted :: pilot_store where
  "demo_admitted = run_ops (pilot_step demo_codec) (demo_setup @ [demo_admit]) demo_store"

lemma demo_claim: "\<not> isl (fst (claim demo_io (\<lambda>_. 2) ann ''r2'' ''k'' demo_admitted))"
  by code_simp

theorem turn_claimed_once_witness:
  "\<not> isl (fst (claim demo_io (\<lambda>_. 2) ann ''r2'' ''k'' demo_admitted))
   \<and> isl (fst (claim demo_io (\<lambda>_. 3) ann ''r2'' ''k'' (run_ops (pilot_step demo_codec) [P_restart, P_initialize True]
        (snd (claim demo_io (\<lambda>_. 2) ann ''r2'' ''k'' demo_admitted)))))"
  using turn_claimed_once [OF demo_store_made demo_admitted_def returned [OF demo_claim] refl] demo_claim by blast

definition demo_later :: pilot_store where
  "demo_later = run_ops (pilot_step demo_codec) demo_turn
     (snd (admit demo_codec demo_io (\<lambda>_. 1) demo_ids ann ''r2'' ''turn'' demo_payload
       (run_ops (pilot_step demo_codec) demo_setup demo_store)))"

lemma demo_readmit:
  "\<not> isl (fst (admit demo_codec demo_io (\<lambda>_. 1) demo_ids ann ''r2'' ''turn'' demo_payload
       (run_ops (pilot_step demo_codec) demo_setup demo_store)))"
  "ps_ready demo_later \<and> \<not> ps_closed demo_later" "io_connects demo_io \<and> io_commits demo_io"
  by code_simp+

lemma admission_idempotent_example:
  "\<exists>r'. admit demo_codec demo_io (\<lambda>_. 9) demo_ids ann ''r2'' ''turn'' demo_payload demo_later
     = (Inr (r', True), demo_later)"
proof -
  let ?run = "admit demo_codec demo_io (\<lambda>_. 1) demo_ids ann ''r2'' ''turn'' demo_payload
       (run_ops (pilot_step demo_codec) demo_setup demo_store)"
  have "?run = (Inr (fst (projr (fst ?run)), snd (projr (fst ?run))), snd ?run)"
    using returned [OF demo_readmit(1)] by simp
  from admission_idempotent [OF demo_store_made refl this demo_later_def] show ?thesis
    using demo_readmit(2,3) by blast
qed

lemma demo_recover:
  "ps_ready demo_admitted \<and> \<not> ps_closed demo_admitted \<and> open_turns (ps_db demo_admitted) \<noteq> []
   \<and> db_event_seq (ps_db demo_admitted) + int (length (open_turns (ps_db demo_admitted))) \<le> max_rowid"
  by code_simp

theorem recovery_settles_every_turn_witness:
  "open_turns (ps_db demo_admitted) \<noteq> []
   \<and> (\<exists>rs s'. recover_interrupted demo_io (\<lambda>_. 7) demo_admitted = (Inr rs, s') \<and> open_turns (ps_db s') = [])"
  using recovery_settles_every_turn [OF demo_store_made demo_admitted_def, of demo_io]
    demo_recover demo_readmit(3) by blast

theorem owners_are_isolated_witness:
  "op_owner demo_admit = Some ''ann'' \<and> ''bob'' \<noteq> ''ann''
   \<and> owner_view ''bob'' (ps_db (pilot_step demo_codec demo_admit (run_ops (pilot_step demo_codec) demo_setup demo_store)))
     = owner_view ''bob'' (ps_db (run_ops (pilot_step demo_codec) demo_setup demo_store))"
proof -
  have "op_owner demo_admit = Some ''ann''" by (simp add: demo_admit_def ann_def)
  from owners_are_isolated [OF demo_store_made refl this, of "''bob''"] this show ?thesis by simp
qed

end
