(* ===== verification/Workflow_Order.thy ===== *)
theory Workflow_Order
  imports Json_Text "HOL-Library.Multiset"
begin

text \<open>
  Workflow definitions: \<open>src/agency/workflows/registry.py\<close> up to \<open>_validate_dag\<close> and
  \<open>topological_order\<close> of \<open>src/agency/workflows/executor.py\<close>.

  The depth-first search keeps its finished nodes in the order in which they are finished; the
  nodes it is visiting are those of its stack. The queue of the topological sort is the list of
  the source; its dictionary of in-degrees is an association list.
\<close>

section \<open>Definitions\<close>

datatype wf_error =
    Blank | Too_Long | Bad_Pattern | Bad_Status | Bad_Schema
  | Too_Many_Steps | Duplicate_Step str | Self_Dependency str | Unknown_Dependency str
  | Dependency_Cycle "str list" | Cycle_Detected | Unknown_Node str
  | Duplicate_Version | Unknown_Workflow | Unknown_Run
  | Not_Serializable | Too_Large | Memory_Rejected | Lock_Held
  | Inputs_Changed | Actor_Changed | Definition_Changed | Versions_Changed | Not_Resumable str
  | Output_Not_Encodable str | Output_Too_Deep | Operation_Exits str

record wf_step =
  st_id :: str
  st_operation :: str
  st_depends_on :: "str list"
  st_permissions :: "str list"

record wf_definition =
  wd_id :: str
  wd_version :: str
  wd_steps :: "wf_step list"

text \<open>A pattern that ends in \<open>$\<close> also matches before a final newline.\<close>

definition before_newline :: "str \<Rightarrow> str" where
  "before_newline v = (if v \<noteq> [] \<and> last v = newline then butlast v else v)"

definition alnum :: "char \<Rightarrow> bool" where
  "alnum c = (let n = (of_char c :: nat) in
     65 \<le> n \<and> n \<le> 90 \<or> 97 \<le> n \<and> n \<le> 122 \<or> 48 \<le> n \<and> n \<le> 57)"

definition name_pattern :: "str \<Rightarrow> str \<Rightarrow> bool" where
  "name_pattern extra v = (let w = before_newline v in
     w \<noteq> [] \<and> alnum (hd w) \<and> list_all (\<lambda>c. alnum c \<or> c \<in> set extra) (tl w))"

definition check_name :: "str \<Rightarrow> str \<Rightarrow> (wf_error, unit) res" where
  "check_name extra v =
     (if v = [] \<or> py_strip v = [] then Inl Blank
      else if length v > 128 then Inl Too_Long
      else if \<not> name_pattern extra v then Inl Bad_Pattern
      else Inr ())"

definition check_wf_id :: "str \<Rightarrow> (wf_error, unit) res" where
  "check_wf_id v = check_name ''_.-'' v"

definition check_permission :: "str \<Rightarrow> (wf_error, unit) res" where
  "check_permission v = check_name ''_.-:/'' v"

fun split_dots :: "str \<Rightarrow> str list" where
  "split_dots [] = [[]]"
| "split_dots (c # cs) =
     (if c = CHR ''.'' then [] # split_dots cs
      else case split_dots cs of [] \<Rightarrow> [[c]] | w # ws \<Rightarrow> (c # w) # ws)"

definition digit :: "char \<Rightarrow> bool" where
  "digit c = (let n = (of_char c :: nat) in 48 \<le> n \<and> n \<le> 57)"

definition check_version :: "str \<Rightarrow> (wf_error, unit) res" where
  "check_version v = (let parts = split_dots (before_newline v) in
     if length parts = 3 \<and> list_all (\<lambda>w. w \<noteq> [] \<and> list_all digit w) parts then Inr () else Inl Bad_Pattern)"

fun first_error :: "('a \<Rightarrow> (wf_error, unit) res) \<Rightarrow> 'a list \<Rightarrow> (wf_error, unit) res" where
  "first_error f [] = Inr ()"
| "first_error f (x # xs) = (case f x of Inl e \<Rightarrow> Inl e | Inr _ \<Rightarrow> first_error f xs)"

definition check_step :: "wf_step \<Rightarrow> (wf_error, unit) res" where
  "check_step s = first_error id
     [check_wf_id (st_id s), check_wf_id (st_operation s),
      first_error check_wf_id (st_depends_on s), first_error check_permission (st_permissions s)]"

definition check_definition :: "wf_definition \<Rightarrow> (wf_error, unit) res" where
  "check_definition d = first_error id
     [first_error check_step (wd_steps d), check_wf_id (wd_id d), check_version (wd_version d)]"

section \<open>Validation\<close>

definition step_ids :: "wf_step list \<Rightarrow> str list" where
  "step_ids steps = map st_id steps"

definition adjacency :: "wf_step list \<Rightarrow> (str \<times> str list) list" where
  "adjacency steps = map (\<lambda>s. (st_id s, st_depends_on s)) steps"

fun duplicate_in :: "str list \<Rightarrow> str list \<Rightarrow> (wf_error, unit) res" where
  "duplicate_in seen [] = Inr ()"
| "duplicate_in seen (x # xs) =
     (if x \<in> set seen then Inl (Duplicate_Step x) else duplicate_in (seen @ [x]) xs)"

definition check_edges :: "str list \<Rightarrow> wf_step \<Rightarrow> (wf_error, unit) res" where
  "check_edges seen s = first_error (\<lambda>dep.
     if dep = st_id s then Inl (Self_Dependency dep)
     else if dep \<notin> set seen then Inl (Unknown_Dependency dep)
     else Inr ()) (st_depends_on s)"

definition unstacked :: "(str \<times> str list) list \<Rightarrow> str list \<Rightarrow> nat" where
  "unstacked adj stack = card (fst ` set adj - set stack)"

lemma unstacked_less:
  assumes "map_of adj node = Some ds" "node \<notin> set stack"
  shows "unstacked adj (stack @ [node]) < unstacked adj stack"
proof -
  have "node \<in> fst ` set adj" using assms(1) by (metis domI dom_map_of_conv_image_fst)
  then have "fst ` set adj - set (stack @ [node]) \<subset> fst ` set adj - set stack"
    using assms(2) by auto
  then show ?thesis unfolding unstacked_def by (intro psubset_card_mono) auto
qed

function visit :: "(str \<times> str list) list \<Rightarrow> str list \<Rightarrow> str list \<Rightarrow> str \<Rightarrow> (wf_error, str list) res"
  and visit_all :: "(str \<times> str list) list \<Rightarrow> str list \<Rightarrow> str list \<Rightarrow> str list \<Rightarrow> (wf_error, str list) res" where
  "visit adj stack visited node =
     (if node \<in> set visited then Inr visited
      else if node \<in> set stack then Inl (Dependency_Cycle (stack @ [node]))
      else case map_of adj node of
          None \<Rightarrow> Inl (Unknown_Node node)
        | Some ds \<Rightarrow>
            (case visit_all adj (stack @ [node]) visited ds of
               Inl e \<Rightarrow> Inl e
             | Inr done1 \<Rightarrow> Inr (done1 @ [node])))"
| "visit_all adj stack visited [] = Inr visited"
| "visit_all adj stack visited (d # ds) =
     (case visit adj stack visited d of
        Inl e \<Rightarrow> Inl e
      | Inr done1 \<Rightarrow> visit_all adj stack done1 ds)"
  by pat_completeness auto
termination
  by (relation "measures [\<lambda>x. case x of Inl (adj, stack, visited, node) \<Rightarrow> unstacked adj stack
        | Inr (adj, stack, visited, ds) \<Rightarrow> unstacked adj stack,
      \<lambda>x. case x of Inl _ \<Rightarrow> 0 | Inr (adj, stack, visited, ds) \<Rightarrow> length ds]")
    (auto simp: unstacked_less)

declare visit.simps [simp del] visit_all.simps [simp del]

definition validate_dag :: "wf_definition \<Rightarrow> (wf_error, unit) res" where
  "validate_dag d =
     (let steps = wd_steps d in
      if length steps > 64 then Inl Too_Many_Steps
      else case duplicate_in [] (step_ids steps) of
          Inl e \<Rightarrow> Inl e
        | Inr _ \<Rightarrow>
            (case first_error (check_edges (step_ids steps)) steps of
               Inl e \<Rightarrow> Inl e
             | Inr _ \<Rightarrow> map_sum id (\<lambda>_. ()) (visit_all (adjacency steps) [] [] (step_ids steps))))"

section \<open>Topological order\<close>

text \<open>\<open>index\<close> holds the last position of an id.\<close>

fun position :: "str \<Rightarrow> str list \<Rightarrow> nat" where
  "position x [] = 0"
| "position x (y # ys) = (if x = y \<and> x \<notin> set ys then 0 else Suc (position x ys))"

definition dependents :: "wf_step list \<Rightarrow> str \<Rightarrow> str list" where
  "dependents steps d =
     concat (map (\<lambda>s. map (\<lambda>_. st_id s) (filter (\<lambda>x. x = d) (st_depends_on s))) steps)"

definition zero_degrees :: "wf_step list \<Rightarrow> (str \<times> int) list" where
  "zero_degrees steps = fold (\<lambda>s deg. AList.update (st_id s) 0 deg) steps []"

definition bump :: "str \<Rightarrow> int \<Rightarrow> (str \<times> int) list \<Rightarrow> (str \<times> int) list" where
  "bump x n deg = AList.update x ((case map_of deg x of Some v \<Rightarrow> v | None \<Rightarrow> 0) + n) deg"

definition in_degrees :: "wf_step list \<Rightarrow> (str \<times> int) list" where
  "in_degrees steps = fold (\<lambda>s deg. fold (\<lambda>_. bump (st_id s) 1) (st_depends_on s) deg) steps (zero_degrees steps)"

fun relax :: "str list \<Rightarrow> (str \<times> int) list \<Rightarrow> str list \<Rightarrow> (str \<times> int) list \<times> str list" where
  "relax [] deg ready = (deg, ready)"
| "relax (c # cs) deg ready =
     (let deg' = bump c (- 1) deg in
      relax cs deg' (if map_of deg' c = Some 0 then ready @ [c] else ready))"

definition positive :: "(str \<times> int) list \<Rightarrow> nat" where
  "positive deg = length (filter (\<lambda>p. snd p > 0) deg)"

lemma bump_positive:
  "positive (bump c (- 1) deg) + (if map_of (bump c (- 1) deg) c = Some 0 then 1 else 0) \<le> positive deg"
proof (cases "map_of deg c")
  case None
  then show ?thesis by (simp add: bump_def update_fresh positive_def map_add_def)
next
  case (Some v)
  then have "positive (AList.update c (v - 1) deg) + (if v - 1 = 0 then 1 else 0) \<le> positive deg"
    unfolding positive_def by (induction deg) (auto split: if_splits)
  then show ?thesis using Some by (simp add: bump_def)
qed

lemma relax_measure:
  "length (snd (relax cs deg ready)) + positive (fst (relax cs deg ready)) \<le> length ready + positive deg"
proof (induction cs arbitrary: deg ready)
  case (Cons c cs)
  let ?deg = "bump c (- 1) deg"
  let ?ready = "if map_of ?deg c = Some 0 then ready @ [c] else ready"
  have "length (snd (relax cs ?deg ?ready)) + positive (fst (relax cs ?deg ?ready)) \<le> length ?ready + positive ?deg"
    by (rule Cons.IH)
  also have "\<dots> \<le> length ready + positive deg" using bump_positive [of c deg] by (auto split: if_splits)
  finally show ?case by (simp only: relax.simps Let_def)
qed simp

function kahn :: "(str \<Rightarrow> nat) \<Rightarrow> (str \<Rightarrow> str list) \<Rightarrow> str list \<Rightarrow> (str \<times> int) list \<Rightarrow> str list" where
  "kahn idx deps [] deg = []"
| "kahn idx deps (c # ready) deg =
     c # kahn idx deps (sort_key idx (snd (relax (sort_key idx (deps c)) deg ready)))
           (fst (relax (sort_key idx (deps c)) deg ready))"
  by pat_completeness auto
termination
proof (relation "measure (\<lambda>(idx, deps, ready, deg). length ready + positive deg)")
  fix idx :: "str \<Rightarrow> nat" and deps :: "str \<Rightarrow> str list" and c ready deg
  show "((idx, deps, sort_key idx (snd (relax (sort_key idx (deps c)) deg ready)),
      fst (relax (sort_key idx (deps c)) deg ready)), (idx, deps, c # ready, deg))
    \<in> measure (\<lambda>(idx, deps, ready, deg). length ready + positive deg)"
    using relax_measure [of "sort_key idx (deps c)" deg ready] by simp
qed simp

definition unknown_dependency :: "wf_step list \<Rightarrow> (wf_error, unit) res" where
  "unknown_dependency steps =
     first_error (\<lambda>s. first_error (\<lambda>dep. if dep \<in> set (step_ids steps) then Inr () else Inl (Unknown_Dependency dep))
       (st_depends_on s)) steps"

definition step_named :: "wf_step list \<Rightarrow> str \<Rightarrow> wf_step option" where
  "step_named steps i = find (\<lambda>s. st_id s = i) (rev steps)"

definition topological_order :: "wf_definition \<Rightarrow> (wf_error, wf_step list) res" where
  "topological_order d =
     (let steps = wd_steps d; idx = (\<lambda>i. position i (step_ids steps)) in
      case unknown_dependency steps of
        Inl e \<Rightarrow> Inl e
      | Inr _ \<Rightarrow>
          let deg = in_degrees steps;
              ready = sort_key idx (map fst (filter (\<lambda>p. snd p = 0) deg));
              ids = kahn idx (dependents steps) ready deg
          in if length ids \<noteq> length steps then Inl Cycle_Detected
             else Inr (List.map_filter (step_named steps) ids))"

section \<open>Orders that respect the dependencies\<close>

text \<open>\<open>closed deps xs\<close>: every element of \<open>xs\<close> stands behind the elements it depends on.\<close>

definition closed_list :: "(str \<Rightarrow> str list) \<Rightarrow> str list \<Rightarrow> bool" where
  "closed_list deps xs = (\<forall>i < length xs. set (deps (xs ! i)) \<subseteq> set (take i xs))"

lemma closed_Nil [simp]: "closed_list deps []"
  by (simp add: closed_list_def)

lemma closed_snoc: "closed_list deps (xs @ [x]) \<longleftrightarrow> closed_list deps xs \<and> set (deps x) \<subseteq> set xs"
proof -
  have "(\<forall>i < Suc (length xs). P i) \<longleftrightarrow> (\<forall>i < length xs. P i) \<and> P (length xs)" for P
    by (auto simp: less_Suc_eq)
  then show ?thesis by (auto simp: closed_list_def nth_append)
qed

lemma closed_prefix: "closed_list deps (xs @ ys) \<Longrightarrow> closed_list deps xs"
  by (induction ys rule: rev_induct) (auto simp: closed_snoc simp flip: append_assoc)

lemma closed_mem:
  assumes "closed_list deps xs" "x \<in> set xs"
  shows "set (deps x) \<subseteq> set xs"
  using assms by (auto simp: closed_list_def in_set_conv_nth) (meson in_set_takeD in_set_conv_nth subsetD)

definition depends :: "(str \<Rightarrow> str list) \<Rightarrow> str \<Rightarrow> str \<Rightarrow> bool" where
  "depends deps x y = (y \<in> set (deps x))"

text \<open>A closed list has no cycle.\<close>

lemma closed_acyclic:
  assumes "closed_list deps xs" "(depends deps)\<^sup>+\<^sup>+ x y" "x = xs ! i" "i < length xs"
  shows "\<exists>j < i. y = xs ! j"
  using assms(2-4)
proof (induction arbitrary: rule: tranclp_induct)
  case (base y)
  then have "y \<in> set (take i xs)" using assms(1) by (auto simp: closed_list_def depends_def)
  then show ?case using base(3) by (auto simp: in_set_conv_nth)
next
  case (step y z)
  then obtain j where j: "j < i" "y = xs ! j" by auto
  have "set (deps (xs ! j)) \<subseteq> set (take j xs)" using assms(1) j(1) step(5) by (simp add: closed_list_def)
  then have "z \<in> set (take j xs)" using step(2) j(2) by (auto simp: depends_def)
  then show ?case using j(1) step(5) by (auto simp: in_set_conv_nth intro: less_trans)
qed

lemma closed_no_cycle:
  assumes "closed_list deps xs" "distinct xs" "x \<in> set xs"
  shows "\<not> (depends deps)\<^sup>+\<^sup>+ x x"
proof
  assume cyc: "(depends deps)\<^sup>+\<^sup>+ x x"
  obtain i where i: "x = xs ! i" "i < length xs" using assms(3) by (auto simp: in_set_conv_nth)
  then obtain j where "j < i" "x = xs ! j" using closed_acyclic [OF assms(1) cyc] by blast
  then show False using i assms(2) by (auto simp: nth_eq_iff_index_eq)
qed

section \<open>The depth-first search\<close>

definition deps_in :: "(str \<times> str list) list \<Rightarrow> str \<Rightarrow> str list" where
  "deps_in adj x = (case map_of adj x of None \<Rightarrow> [] | Some ds \<Rightarrow> ds)"

definition finished_ok :: "(str \<times> str list) list \<Rightarrow> str list \<Rightarrow> bool" where
  "finished_ok adj xs = (closed_list (deps_in adj) xs \<and> distinct xs \<and> set xs \<subseteq> fst ` set adj)"

lemma visit_sound:
  "visit adj stack visited node = Inr out \<Longrightarrow> finished_ok adj visited \<Longrightarrow> set stack \<inter> set visited = {} \<Longrightarrow>
     finished_ok adj out \<and> set visited \<subseteq> set out \<and> node \<in> set out \<and> set stack \<inter> set out = {}"
  "visit_all adj stack visited nodes = Inr out \<Longrightarrow> finished_ok adj visited \<Longrightarrow> set stack \<inter> set visited = {} \<Longrightarrow>
     finished_ok adj out \<and> set visited \<subseteq> set out \<and> set nodes \<subseteq> set out \<and> set stack \<inter> set out = {}"
proof (induction adj stack visited node and adj stack visited nodes arbitrary: out and out
    rule: visit_visit_all.induct)
  case (1 adj stack visited node)
  show ?case
  proof (cases "node \<in> set visited")
    case True
    then show ?thesis using "1.prems" by (simp add: visit.simps)
  next
    case False
    then obtain ds v where v: "node \<notin> set stack" "map_of adj node = Some ds"
        "visit_all adj (stack @ [node]) visited ds = Inr v" "out = v @ [node]"
      using "1.prems"(1) by (auto simp: visit.simps split: if_splits option.splits sum.splits)
    then have "finished_ok adj v \<and> set visited \<subseteq> set v \<and> set ds \<subseteq> set v \<and> set (stack @ [node]) \<inter> set v = {}"
      using "1.IH" [OF False v(1,2), of v] "1.prems" False by auto
    moreover have "node \<in> fst ` set adj" using v(2) by (metis domI dom_map_of_conv_image_fst)
    ultimately show ?thesis
      using v by (auto simp: finished_ok_def closed_snoc deps_in_def)
  qed
next
  case (2 adj stack visited)
  then show ?case by (simp add: visit_all.simps)
next
  case (3 adj stack visited d ds)
  then obtain v where v: "visit adj stack visited d = Inr v" "visit_all adj stack v ds = Inr out"
    by (auto simp: visit_all.simps split: sum.splits)
  from "3.IH"(1) [OF v(1) "3.prems"(2,3)] have
    "finished_ok adj v \<and> set visited \<subseteq> set v \<and> d \<in> set v \<and> set stack \<inter> set v = {}" .
  with "3.IH"(2) [OF v(1) v(2)] show ?case by auto
qed

lemma visit_complete:
  "visit adj stack visited node = Inl e \<Longrightarrow> (\<forall>x \<in> set stack. (depends (deps_in adj))\<^sup>+\<^sup>+ x node) \<Longrightarrow>
     node \<in> fst ` set adj \<Longrightarrow> (\<forall>ds \<in> snd ` set adj. set ds \<subseteq> fst ` set adj) \<Longrightarrow>
     \<exists>x \<in> fst ` set adj. (depends (deps_in adj))\<^sup>+\<^sup>+ x x"
  "visit_all adj stack visited nodes = Inl e \<Longrightarrow>
     (\<forall>x \<in> set stack. \<forall>n \<in> set nodes. (depends (deps_in adj))\<^sup>+\<^sup>+ x n) \<Longrightarrow>
     set nodes \<subseteq> fst ` set adj \<Longrightarrow> (\<forall>ds \<in> snd ` set adj. set ds \<subseteq> fst ` set adj) \<Longrightarrow>
     \<exists>x \<in> fst ` set adj. (depends (deps_in adj))\<^sup>+\<^sup>+ x x"
proof (induction adj stack visited node and adj stack visited nodes rule: visit_visit_all.induct)
  case (1 adj stack visited node)
  have new: "node \<notin> set visited" using "1.prems"(1) by (auto simp: visit.simps split: if_splits)
  show ?case
  proof (cases "node \<in> set stack")
    case True
    then show ?thesis using "1.prems"(2,3) by blast
  next
    case False
    obtain ds where ds: "map_of adj node = Some ds"
      using "1.prems"(3) by (metis domD dom_map_of_conv_image_fst)
    then have run: "visit_all adj (stack @ [node]) visited ds = Inl e"
      using "1.prems"(1) new False by (auto simp: visit.simps split: sum.splits)
    have "depends (deps_in adj) node n" if "n \<in> set ds" for n
      using that ds by (simp add: depends_def deps_in_def)
    then have "\<forall>x \<in> set (stack @ [node]). \<forall>n \<in> set ds. (depends (deps_in adj))\<^sup>+\<^sup>+ x n"
      using "1.prems"(2) by (auto intro: tranclp.intros)
    moreover have "set ds \<subseteq> fst ` set adj"
      using "1.prems"(4) map_of_SomeD [OF ds] by force
    ultimately show ?thesis using "1.IH" [OF new False ds run] "1.prems"(4) by blast
  qed
next
  case (3 adj stack visited d ds)
  show ?case
  proof (cases "visit adj stack visited d")
    case (Inl e')
    then have "e' = e" using "3.prems"(1) by (simp add: visit_all.simps)
    then show ?thesis using "3.IH"(1) Inl "3.prems" by simp
  next
    case (Inr v)
    then show ?thesis using "3.IH"(2) [OF Inr] "3.prems" by (auto simp: visit_all.simps)
  qed
qed (simp add: visit_all.simps)

section \<open>The queue of ready steps\<close>

lemma count_sort_key: "count_list (sort_key f xs) x = count_list xs x"
  by (simp flip: count_mset)

lemma count_list_pos: "x \<in> set xs \<longleftrightarrow> 1 \<le> count_list xs x"
  by (induction xs) auto

lemma relax_spec:
  assumes "set cs \<subseteq> ids" "\<And>x. x \<in> ids \<Longrightarrow> map_of deg x = Some (v x)"
  shows "(\<forall>x \<in> ids. map_of (fst (relax cs deg ready)) x = Some (v x - int (count_list cs x)))
    \<and> (\<exists>new. snd (relax cs deg ready) = ready @ new \<and> distinct new
        \<and> set new = {x \<in> set cs. 1 \<le> v x \<and> v x \<le> int (count_list cs x)})"
  using assms
proof (induction cs arbitrary: deg ready v)
  case (Cons c cs)
  let ?deg = "bump c (- 1) deg" and ?v = "v(c := v c - 1)"
  let ?ready = "if map_of ?deg c = Some 0 then ready @ [c] else ready"
  have c: "map_of deg c = Some (v c)" using Cons.prems by simp
  have deg: "map_of ?deg x = Some (?v x)" if "x \<in> ids" for x
    using Cons.prems(2) [OF that] c by (simp add: bump_def)
  have cs: "set cs \<subseteq> ids" using Cons.prems(1) by simp
  from Cons.IH [OF cs, of ?deg ?v ?ready] deg obtain new where
    IH: "\<forall>x \<in> ids. map_of (fst (relax cs ?deg ?ready)) x = Some (?v x - int (count_list cs x))"
      "snd (relax cs ?deg ?ready) = ?ready @ new" "distinct new"
      "set new = {x \<in> set cs. 1 \<le> ?v x \<and> ?v x \<le> int (count_list cs x)}"
    by blast
  have fst_eq: "fst (relax (c # cs) deg ready) = fst (relax cs ?deg ?ready)"
    and snd_eq: "snd (relax (c # cs) deg ready) = ?ready @ new" using IH(2) by (simp_all add: Let_def)
  have zero: "map_of ?deg c = Some 0 \<longleftrightarrow> v c = 1" using c by (simp add: bump_def)
  have mem: "x \<in> set new \<longleftrightarrow> (if x = c then 2 \<le> v c \<and> v c \<le> int (count_list cs c) + 1
      else x \<in> set cs \<and> 1 \<le> v x \<and> v x \<le> int (count_list cs x))" for x
    using count_list_pos [of c cs] unfolding IH(4) by (cases "x = c") auto
  have "\<forall>x \<in> ids. map_of (fst (relax (c # cs) deg ready)) x = Some (v x - int (count_list (c # cs) x))"
    unfolding fst_eq using IH(1) by simp
  moreover have "\<exists>new. snd (relax (c # cs) deg ready) = ready @ new \<and> distinct new
      \<and> set new = {x \<in> set (c # cs). 1 \<le> v x \<and> v x \<le> int (count_list (c # cs) x)}"
  proof (cases "v c = 1")
    case True
    then have "snd (relax (c # cs) deg ready) = ready @ (c # new)" using snd_eq zero by simp
    moreover have "distinct (c # new)" using IH(3) mem [of c] True by simp
    moreover have "set (c # new) = {x \<in> set (c # cs). 1 \<le> v x \<and> v x \<le> int (count_list (c # cs) x)}"
    proof (rule set_eqI)
      fix x show "x \<in> set (c # new) \<longleftrightarrow> x \<in> {x \<in> set (c # cs). 1 \<le> v x \<and> v x \<le> int (count_list (c # cs) x)}"
        using True by (cases "x = c") (simp_all add: mem)
    qed
    ultimately show ?thesis by blast
  next
    case False
    then have "snd (relax (c # cs) deg ready) = ready @ new" using snd_eq zero by simp
    moreover have "set new = {x \<in> set (c # cs). 1 \<le> v x \<and> v x \<le> int (count_list (c # cs) x)}"
    proof (rule set_eqI)
      fix x show "x \<in> set new \<longleftrightarrow> x \<in> {x \<in> set (c # cs). 1 \<le> v x \<and> v x \<le> int (count_list (c # cs) x)}"
        using False by (cases "x = c") (auto simp: mem)
    qed
    ultimately show ?thesis using IH(3) by blast
  qed
  ultimately show ?case by blast
qed simp

definition missing :: "(str \<Rightarrow> str list) \<Rightarrow> str list \<Rightarrow> str \<Rightarrow> nat" where
  "missing deps P x = length (filter (\<lambda>d. d \<notin> set P) (deps x))"

lemma missing_0: "missing deps P x = 0 \<longleftrightarrow> set (deps x) \<subseteq> set P"
  by (auto simp: missing_def filter_empty_conv)

lemma missing_snoc:
  assumes "c \<notin> set P"
  shows "missing deps P x = missing deps (P @ [c]) x + count_list (deps x) c"
proof -
  have "length (filter (\<lambda>d. d \<notin> set P) xs) = length (filter (\<lambda>d. d \<notin> set (P @ [c])) xs) + count_list xs c" for xs
    using assms by (induction xs) auto
  then show ?thesis by (simp add: missing_def)
qed

definition kahn_inv :: "str set \<Rightarrow> (str \<Rightarrow> str list) \<Rightarrow> (str \<Rightarrow> nat) \<Rightarrow> str list \<Rightarrow> str list \<Rightarrow> (str \<times> int) list \<Rightarrow> bool" where
  "kahn_inv ids deps idx P ready deg =
     (distinct (P @ ready) \<and> set (P @ ready) \<subseteq> ids \<and> closed_list deps P \<and> sorted (map idx ready)
      \<and> (\<forall>x \<in> ids. map_of deg x = Some (int (missing deps P x)))
      \<and> (\<forall>x \<in> ids - set P. x \<in> set ready \<longleftrightarrow> missing deps P x = 0))"

lemma kahn_inv_step:
  assumes inv: "kahn_inv ids deps idx P (c # ready) deg"
    and cs: "set cs \<subseteq> ids" "\<And>x. x \<in> ids \<Longrightarrow> count_list cs x = count_list (deps x) c"
  shows "kahn_inv ids deps idx (P @ [c]) (sort_key idx (snd (relax (sort_key idx cs) deg ready)))
    (fst (relax (sort_key idx cs) deg ready))"
proof -
  let ?r = "relax (sort_key idx cs) deg ready"
  have c: "c \<notin> set P" "c \<in> ids" "missing deps P c = 0" using inv by (auto simp: kahn_inv_def)
  have drop: "missing deps P x = missing deps (P @ [c]) x + count_list cs x" if "x \<in> ids" for x
    using missing_snoc [OF c(1), of deps x] cs(2) [OF that] by simp
  obtain new where new: "snd ?r = ready @ new" "distinct new"
      "set new = {x \<in> set cs. 1 \<le> int (missing deps P x) \<and> int (missing deps P x) \<le> int (count_list cs x)}"
    and deg: "\<forall>x \<in> ids. map_of (fst ?r) x = Some (int (missing deps P x) - int (count_list cs x))"
    using relax_spec [of "sort_key idx cs" ids deg "\<lambda>x. int (missing deps P x)" ready] cs(1) inv
    by (auto simp: kahn_inv_def count_sort_key)
  have new_iff: "x \<in> set new \<longleftrightarrow> missing deps P x \<noteq> 0 \<and> missing deps (P @ [c]) x = 0" if "x \<in> ids" for x
    using drop [OF that] count_list_pos [of x cs] unfolding new(3) by auto
  have new_ids: "set new \<subseteq> ids" using cs(1) unfolding new(3) by auto
  have done_0: "missing deps P x = 0" if "x \<in> set P" for x
    using inv that closed_mem [of deps P x] by (auto simp: kahn_inv_def missing_0)
  have ready_0: "missing deps P x = 0" if "x \<in> set ready" for x
    using inv that by (auto simp: kahn_inv_def)
  have "distinct ((P @ [c]) @ sort_key idx (snd ?r))"
    using inv new(1,2) new_iff new_ids done_0 ready_0 c(3) by (auto simp: kahn_inv_def)
  moreover have "set ((P @ [c]) @ sort_key idx (snd ?r)) \<subseteq> ids"
    using inv new(1) new_ids by (auto simp: kahn_inv_def)
  moreover have "closed_list deps (P @ [c])"
    using inv c(3) by (simp add: kahn_inv_def closed_snoc missing_0)
  moreover have "\<forall>x \<in> ids. map_of (fst ?r) x = Some (int (missing deps (P @ [c]) x))"
    using deg drop by simp
  moreover have "\<forall>x \<in> ids - set (P @ [c]). x \<in> set (sort_key idx (snd ?r)) \<longleftrightarrow> missing deps (P @ [c]) x = 0"
  proof
    fix x assume x: "x \<in> ids - set (P @ [c])"
    then have "x \<in> set ready \<longleftrightarrow> missing deps P x = 0" using inv by (auto simp: kahn_inv_def)
    then show "x \<in> set (sort_key idx (snd ?r)) \<longleftrightarrow> missing deps (P @ [c]) x = 0"
      using new(1) new_iff x drop [of x] by auto
  qed
  ultimately show ?thesis by (simp add: kahn_inv_def)
qed

definition first_ready :: "str set \<Rightarrow> (str \<Rightarrow> str list) \<Rightarrow> (str \<Rightarrow> nat) \<Rightarrow> str list \<Rightarrow> str \<Rightarrow> bool" where
  "first_ready ids deps idx P c =
     (\<forall>x \<in> ids. x \<notin> set P \<and> set (deps x) \<subseteq> set P \<longrightarrow> idx c \<le> idx x)"

lemma kahn_result:
  assumes "kahn_inv ids deps idx P ready deg"
    and "\<And>c. c \<in> ids \<Longrightarrow> set (heirs c) \<subseteq> ids"
    and "\<And>c x. c \<in> ids \<Longrightarrow> x \<in> ids \<Longrightarrow> count_list (heirs c) x = count_list (deps x) c"
  shows "closed_list deps (P @ kahn idx heirs ready deg) \<and> distinct (P @ kahn idx heirs ready deg)
    \<and> set (kahn idx heirs ready deg) \<subseteq> ids
    \<and> (\<forall>x \<in> ids - set (P @ kahn idx heirs ready deg). missing deps (P @ kahn idx heirs ready deg) x \<noteq> 0)
    \<and> (\<forall>i < length (kahn idx heirs ready deg).
        first_ready ids deps idx (P @ take i (kahn idx heirs ready deg)) (kahn idx heirs ready deg ! i))"
  using assms
proof (induction idx heirs ready deg arbitrary: P rule: kahn.induct)
  case (1 idx heirs deg)
  then show ?case by (auto simp: kahn_inv_def)
next
  case (2 idx heirs c ready deg)
  have c: "c \<in> ids" using "2.prems"(1) by (simp add: kahn_inv_def)
  let ?rest = "kahn idx heirs (sort_key idx (snd (relax (sort_key idx (heirs c)) deg ready)))
      (fst (relax (sort_key idx (heirs c)) deg ready))"
  have inv: "kahn_inv ids deps idx (P @ [c]) (sort_key idx (snd (relax (sort_key idx (heirs c)) deg ready)))
      (fst (relax (sort_key idx (heirs c)) deg ready))"
    by (rule kahn_inv_step [OF "2.prems"(1) "2.prems"(2) [OF c] "2.prems"(3) [OF c]])
  note IH = "2.IH" [OF inv "2.prems"(2,3)]
  have first: "first_ready ids deps idx P c"
    using "2.prems"(1) by (auto simp: kahn_inv_def first_ready_def missing_0)
  have "first_ready ids deps idx (P @ take i (c # ?rest)) ((c # ?rest) ! i)" if "i < length (c # ?rest)" for i
    using IH first that by (cases i) auto
  then show ?case using IH c by (simp only: kahn.simps) auto
qed

section \<open>The two algorithms agree\<close>

definition deps_of :: "wf_step list \<Rightarrow> str \<Rightarrow> str list" where
  "deps_of steps = deps_in (adjacency steps)"

lemma deps_of_mem: "distinct (step_ids steps) \<Longrightarrow> s \<in> set steps \<Longrightarrow> deps_of steps (st_id s) = st_depends_on s"
proof -
  assume "distinct (step_ids steps)" "s \<in> set steps"
  then have "map_of (adjacency steps) (st_id s) = Some (st_depends_on s)"
    by (intro map_of_is_SomeI) (auto simp: adjacency_def step_ids_def comp_def)
  then show ?thesis by (simp add: deps_of_def deps_in_def)
qed

lemma keys_adjacency: "fst ` set (adjacency steps) = set (step_ids steps)"
  by (auto simp: adjacency_def step_ids_def image_image)

lemma bump_keys: "map_of deg x \<noteq> None \<Longrightarrow> map fst (bump x n deg) = map fst deg"
  by (simp add: bump_def update_keys_present)

lemma bump_fold:
  assumes "map_of deg x = Some v"
  shows "map_of (fold (\<lambda>_. bump x 1) ds deg) = (map_of deg)(x \<mapsto> v + int (length ds))
    \<and> map fst (fold (\<lambda>_. bump x 1) ds deg) = map fst deg"
  using assms
proof (induction ds arbitrary: deg v)
  case (Cons d ds)
  have "map_of (bump x 1 deg) x = Some (v + 1)" using Cons.prems by (simp add: bump_def)
  from Cons.IH [OF this] show ?case
    using Cons.prems bump_keys [of deg x 1] by (simp add: bump_def algebra_simps) (simp add: fun_eq_iff)
qed (auto simp: fun_eq_iff)

lemma zero_degrees_spec:
  "dict_ok (zero_degrees steps)
   \<and> map_of (zero_degrees steps) x = (if x \<in> set (step_ids steps) then Some 0 else None)"
  unfolding zero_degrees_def by (induction steps rule: rev_induct) (auto simp: step_ids_def)

lemma in_degrees_fold:
  assumes "\<And>s. s \<in> set ss \<Longrightarrow> map_of deg (st_id s) \<noteq> None"
  shows "map fst (fold (\<lambda>s deg. fold (\<lambda>_. bump (st_id s) 1) (st_depends_on s) deg) ss deg) = map fst deg
    \<and> (distinct (step_ids ss) \<longrightarrow>
        map_of (fold (\<lambda>s deg. fold (\<lambda>_. bump (st_id s) 1) (st_depends_on s) deg) ss deg) x =
        (if x \<in> set (step_ids ss) then map_option (\<lambda>v. v + int (length (deps_of ss x))) (map_of deg x) else map_of deg x))"
  using assms
proof (induction ss arbitrary: deg)
  case (Cons s ss)
  obtain v where v: "map_of deg (st_id s) = Some v" using Cons.prems by fastforce
  let ?deg = "fold (\<lambda>_. bump (st_id s) 1) (st_depends_on s) deg"
  note b = bump_fold [OF v, of "st_depends_on s"]
  have "map_of ?deg (st_id t) \<noteq> None" if "t \<in> set ss" for t
    using b Cons.prems that by auto
  note IH = Cons.IH [OF this]
  have "x \<noteq> st_id s \<Longrightarrow> deps_of (s # ss) x = deps_of ss x" "deps_of (s # ss) (st_id s) = st_depends_on s"
    by (auto simp: deps_of_def deps_in_def adjacency_def)
  then show ?case using IH b v by (auto simp: step_ids_def)
qed (simp add: step_ids_def)

lemma in_degrees_keys: "map fst (in_degrees steps) = map fst (zero_degrees steps)"
  unfolding in_degrees_def
  using in_degrees_fold [of steps "zero_degrees steps"] zero_degrees_spec [of steps]
  by (auto simp: step_ids_def)

lemma in_degrees_spec:
  assumes "distinct (step_ids steps)" "x \<in> set (step_ids steps)"
  shows "map_of (in_degrees steps) x = Some (int (length (deps_of steps x)))"
  using in_degrees_fold [of steps "zero_degrees steps" x] zero_degrees_spec [of steps] assms
  unfolding in_degrees_def by (auto simp: step_ids_def)

lemma in_degrees_dict: "dict_ok (in_degrees steps)" "fst ` set (in_degrees steps) = set (step_ids steps)"
proof -
  show "dict_ok (in_degrees steps)" using zero_degrees_spec by (simp add: dict_ok_def in_degrees_keys)
  have "fst ` set (in_degrees steps) = dom (map_of (zero_degrees steps))"
    using arg_cong [OF in_degrees_keys, of set] by (simp add: dom_map_of_conv_image_fst)
  also have "\<dots> = set (step_ids steps)" using zero_degrees_spec by (auto simp: dom_def)
  finally show "fst ` set (in_degrees steps) = set (step_ids steps)" .
qed

lemma dependents_count:
  assumes "distinct (step_ids steps)" "x \<in> set (step_ids steps)"
  shows "count_list (dependents steps c) x = count_list (deps_of steps x) c"
  using assms
proof (induction steps)
  case (Cons s ss)
  have rep: "count_list (map (\<lambda>_. i) (filter (\<lambda>y. y = c) xs)) z = (if i = z then count_list xs c else 0)" for i z xs
    by (induction xs) auto
  have none: "x \<notin> set (step_ids ss) \<Longrightarrow> count_list (dependents ss c) x = 0"
    unfolding count_list_0_iff by (auto simp: dependents_def step_ids_def)
  show ?case
  proof (cases "x = st_id s")
    case True
    then show ?thesis using Cons.prems none
      by (simp add: rep dependents_def step_ids_def deps_of_def deps_in_def adjacency_def count_list_append)
  next
    case False
    then have "count_list (dependents ss c) x = count_list (deps_of ss x) c"
      using Cons by (auto simp: step_ids_def)
    moreover have "deps_of (s # ss) x = deps_of ss x"
      using False by (simp add: deps_of_def deps_in_def adjacency_def)
    moreover have "dependents (s # ss) c = map (\<lambda>_. st_id s) (filter (\<lambda>y. y = c) (st_depends_on s)) @ dependents ss c"
      by (simp add: dependents_def)
    ultimately show ?thesis using rep [of "st_id s" "st_depends_on s" x] False
      by (simp only: count_list_append) simp
  qed
qed (simp add: step_ids_def)

lemma dependents_ids: "set (dependents steps c) \<subseteq> set (step_ids steps)"
  by (auto simp: dependents_def step_ids_def)

definition ready_at_start :: "wf_step list \<Rightarrow> str list" where
  "ready_at_start steps = sort_key (\<lambda>i. position i (step_ids steps))
     (map fst (filter (\<lambda>p. snd p = 0) (in_degrees steps)))"

lemma kahn_inv_start:
  assumes "distinct (step_ids steps)"
  shows "kahn_inv (set (step_ids steps)) (deps_of steps) (\<lambda>i. position i (step_ids steps)) []
    (ready_at_start steps) (in_degrees steps)"
proof -
  have dict: "dict_ok (in_degrees steps)" by (rule in_degrees_dict)
  have mem: "x \<in> set (ready_at_start steps) \<longleftrightarrow> map_of (in_degrees steps) x = Some 0" for x
    using dict_mem_iff [OF dict, of x 0] by (force simp: ready_at_start_def)
  have "distinct (ready_at_start steps)"
    using dict_ok_filter [OF dict] by (simp add: ready_at_start_def dict_ok_def)
  moreover have "set (ready_at_start steps) \<subseteq> set (step_ids steps)"
  proof
    fix x assume "x \<in> set (ready_at_start steps)"
    then have "(x, 0) \<in> set (in_degrees steps)" using mem map_of_SomeD by fastforce
    then show "x \<in> set (step_ids steps)" using in_degrees_dict(2) [of steps] by force
  qed
  moreover have "missing (deps_of steps) [] x = length (deps_of steps x)" for x
    by (simp add: missing_def)
  ultimately show ?thesis
    using in_degrees_spec [OF assms] mem by (auto simp: kahn_inv_def ready_at_start_def)
qed

lemma kahn_length: "length (kahn idx heirs ready deg) \<le> length ready + positive deg"
proof (induction idx heirs ready deg rule: kahn.induct)
  case (2 idx heirs c ready deg)
  then show ?case using relax_measure [of "sort_key idx (heirs c)" deg ready] by simp
qed simp

lemma duplicate_in_Inr: "duplicate_in seen xs = Inr () \<longleftrightarrow> distinct xs \<and> set seen \<inter> set xs = {}"
  by (induction xs arbitrary: seen) auto

lemma first_error_Inr: "first_error f xs = Inr () \<longleftrightarrow> (\<forall>x \<in> set xs. f x = Inr ())"
  by (induction xs) (auto split: sum.splits)

lemma check_edges_Inr:
  "check_edges seen s = Inr () \<longleftrightarrow> st_id s \<notin> set (st_depends_on s) \<and> set (st_depends_on s) \<subseteq> set seen"
  by (auto simp: check_edges_def first_error_Inr split: if_splits)

lemma unknown_dependency_Inr:
  "unknown_dependency steps = Inr () \<longleftrightarrow> (\<forall>s \<in> set steps. set (st_depends_on s) \<subseteq> set (step_ids steps))"
  by (auto simp: unknown_dependency_def first_error_Inr subset_iff split: if_splits)

lemma step_named_mem:
  assumes "distinct (step_ids steps)" "s \<in> set steps"
  shows "step_named steps (st_id s) = Some s"
proof -
  obtain t where t: "find (\<lambda>x. st_id x = st_id s) (rev steps) = Some t"
    using assms(2) by (cases "find (\<lambda>x. st_id x = st_id s) (rev steps)") (auto simp: find_None_iff)
  then have "t \<in> set steps" "st_id t = st_id s" using find_SomeD [OF t] by auto
  then have "t = s" using assms by (auto simp: step_ids_def distinct_map dest: inj_onD)
  then show ?thesis using t by (simp add: step_named_def)
qed

lemma named_steps:
  assumes "distinct (step_ids steps)" "set xs \<subseteq> set (step_ids steps)"
  shows "map st_id (List.map_filter (step_named steps) xs) = xs
    \<and> set (List.map_filter (step_named steps) xs) \<subseteq> set steps"
  using assms(2)
proof (induction xs)
  case (Cons x xs)
  then obtain s where "s \<in> set steps" "st_id s = x" by (auto simp: step_ids_def)
  then have "step_named steps x = Some s" using step_named_mem [OF assms(1)] by blast
  then show ?case using Cons \<open>s \<in> set steps\<close> \<open>st_id s = x\<close> by (simp add: List.map_filter_simps)
qed (simp add: List.map_filter_simps)

lemma kahn_spec:
  assumes "distinct (step_ids steps)"
  defines "ids \<equiv> kahn (\<lambda>i. position i (step_ids steps)) (dependents steps) (ready_at_start steps) (in_degrees steps)"
  shows "closed_list (deps_of steps) ids \<and> distinct ids \<and> set ids \<subseteq> set (step_ids steps)
    \<and> (\<forall>x \<in> set (step_ids steps) - set ids. \<not> set (deps_of steps x) \<subseteq> set ids)
    \<and> (\<forall>i < length ids. first_ready (set (step_ids steps)) (deps_of steps) (\<lambda>i. position i (step_ids steps))
        (take i ids) (ids ! i))"
  using kahn_result [OF kahn_inv_start [OF assms(1)] dependents_ids dependents_count [OF assms(1)]]
  unfolding ids_def by (auto simp: missing_0)

lemma topological_order_eq:
  "topological_order d = (case unknown_dependency (wd_steps d) of Inl e \<Rightarrow> Inl e | Inr _ \<Rightarrow>
     let ids = kahn (\<lambda>i. position i (step_ids (wd_steps d))) (dependents (wd_steps d))
       (ready_at_start (wd_steps d)) (in_degrees (wd_steps d))
     in if length ids \<noteq> length (wd_steps d) then Inl Cycle_Detected
        else Inr (List.map_filter (step_named (wd_steps d)) ids))"
  by (simp add: topological_order_def ready_at_start_def Let_def split: sum.splits)

text \<open>A closed list of all steps makes the queue run to the end.\<close>

lemma closed_list_completes:
  assumes "distinct (step_ids steps)" "closed_list (deps_of steps) L" "set L = set (step_ids steps)"
  defines "ids \<equiv> kahn (\<lambda>i. position i (step_ids steps)) (dependents steps) (ready_at_start steps) (in_degrees steps)"
  shows "set ids = set (step_ids steps) \<and> length ids = length steps"
proof -
  note K = kahn_spec [OF assms(1), folded ids_def]
  have "set (take n L) \<subseteq> set ids" for n
  proof (induction n)
    case (Suc n)
    show ?case
    proof (cases "n < length L")
      case True
      then have "set (deps_of steps (L ! n)) \<subseteq> set (take n L)" using assms(2) by (simp add: closed_list_def)
      then have "L ! n \<in> set ids" using Suc K True assms(3) nth_mem [OF True] by blast
      then show ?thesis using Suc True by (simp add: take_Suc_conv_app_nth)
    qed (use Suc in simp)
  qed simp
  from this [of "length L"] have "set ids = set (step_ids steps)" using K assms(3) by auto
  moreover have "length (step_ids steps) = length steps" by (simp add: step_ids_def)
  ultimately show ?thesis using K assms(1) by (metis distinct_card)
qed

lemma topological_order_distinct:
  assumes "topological_order d = Inr order"
  shows "distinct (step_ids (wd_steps d))"
proof -
  let ?steps = "wd_steps d"
  let ?ids = "kahn (\<lambda>i. position i (step_ids ?steps)) (dependents ?steps) (ready_at_start ?steps) (in_degrees ?steps)"
  have "length ?ids = length ?steps"
    using assms by (auto simp: topological_order_eq Let_def split: sum.splits if_splits)
  moreover have "length ?ids \<le> length (ready_at_start ?steps) + positive (in_degrees ?steps)"
    by (rule kahn_length)
  moreover have "length (filter (\<lambda>p. snd p = 0) deg) + positive deg \<le> length deg" for deg :: "(str \<times> int) list"
    unfolding positive_def by (induction deg) auto
  then have "length (ready_at_start ?steps) + positive (in_degrees ?steps) \<le> length (in_degrees ?steps)"
    by (simp add: ready_at_start_def)
  moreover have "length (in_degrees ?steps) = card (set (step_ids ?steps))"
    using in_degrees_dict [of ?steps] by (metis dict_ok_def distinct_card length_map list.set_map)
  ultimately have "length (step_ids ?steps) \<le> card (set (step_ids ?steps))" by (simp add: step_ids_def)
  then show ?thesis by (simp add: card_distinct card_length le_antisym)
qed

lemma validated_has_order:
  assumes ok: "validate_dag d = Inr ()"
  shows "length (wd_steps d) \<le> 64 \<and> (\<exists>order. topological_order d = Inr order)"
proof -
  let ?steps = "wd_steps d"
  from ok have len: "length ?steps \<le> 64" and dist: "distinct (step_ids ?steps)"
    and edges: "\<forall>s \<in> set ?steps. set (st_depends_on s) \<subseteq> set (step_ids ?steps)"
    by (auto simp: validate_dag_def Let_def duplicate_in_Inr first_error_Inr check_edges_Inr split: if_splits sum.splits)
  from ok obtain L where L: "visit_all (adjacency ?steps) [] [] (step_ids ?steps) = Inr L"
    by (auto simp: validate_dag_def Let_def map_sum_def split: if_splits sum.splits)
  have "finished_ok (adjacency ?steps) L \<and> set (step_ids ?steps) \<subseteq> set L"
    using visit_sound(2) [OF L] by (auto simp: finished_ok_def)
  then have "closed_list (deps_of ?steps) L" "set L = set (step_ids ?steps)"
    by (auto simp: finished_ok_def deps_of_def keys_adjacency)
  from closed_list_completes [OF dist this] edges show ?thesis
    using len unknown_dependency_Inr [of ?steps] by (simp add: topological_order_eq)
qed

lemma ordered_is_valid:
  assumes len: "length (wd_steps d) \<le> 64" and order: "topological_order d = Inr order"
  shows "validate_dag d = Inr ()"
proof -
  let ?steps = "wd_steps d"
  let ?ids = "kahn (\<lambda>i. position i (step_ids ?steps)) (dependents ?steps) (ready_at_start ?steps) (in_degrees ?steps)"
  have dist: "distinct (step_ids ?steps)" by (rule topological_order_distinct [OF order])
  have edges: "\<forall>s \<in> set ?steps. set (st_depends_on s) \<subseteq> set (step_ids ?steps)"
    using order unknown_dependency_Inr [of ?steps] by (auto simp: topological_order_eq split: sum.splits)
  have "length ?ids = length ?steps"
    using order by (auto simp: topological_order_eq Let_def split: sum.splits if_splits)
  note K = kahn_spec [OF dist]
  have "card (set ?ids) = card (set (step_ids ?steps))"
    using K \<open>length ?ids = length ?steps\<close> dist by (metis distinct_card length_map step_ids_def)
  then have all: "set ?ids = set (step_ids ?steps)" using K by (metis card_subset_eq finite_set)
  then have no_cycle: "\<not> (depends (deps_of ?steps))\<^sup>+\<^sup>+ x x" if "x \<in> set (step_ids ?steps)" for x
    using K closed_no_cycle that by blast
  have "st_id s \<notin> set (st_depends_on s)" if "s \<in> set ?steps" for s
    using no_cycle [of "st_id s"] deps_of_mem [OF dist that] that
    by (auto simp: depends_def step_ids_def)
  moreover have "\<exists>L. visit_all (adjacency ?steps) [] [] (step_ids ?steps) = Inr L"
  proof (cases "visit_all (adjacency ?steps) [] [] (step_ids ?steps)")
    case (Inl e)
    have "\<forall>ds \<in> snd ` set (adjacency ?steps). set ds \<subseteq> fst ` set (adjacency ?steps)"
      using edges by (auto simp: keys_adjacency) (auto simp: adjacency_def)
    then show ?thesis
      using visit_complete(2) [OF Inl] no_cycle by (auto simp: keys_adjacency deps_of_def)
  qed simp
  moreover have "duplicate_in [] (step_ids ?steps) = Inr ()" using dist by (simp add: duplicate_in_Inr)
  ultimately show ?thesis
    using len edges first_error_Inr [of "check_edges (step_ids ?steps)" ?steps]
    by (auto simp: validate_dag_def Let_def check_edges_Inr)
qed

text \<open>C30: The depth-first validation and the topological sort agree: a definition is accepted
  exactly when it has at most 64 steps and the sort finds an order; so the executor never finds
  a cycle in a registered definition, and no definition that could be ordered is turned away.\<close>

theorem validation_agrees_with_order:
  "validate_dag d = Inr () \<longleftrightarrow> length (wd_steps d) \<le> 64 \<and> (\<exists>order. topological_order d = Inr order)"
  using validated_has_order ordered_is_valid by blast

lemma topological_order_facts:
  assumes "topological_order d = Inr order"
  shows "mset order = mset (wd_steps d)
    \<and> (\<forall>i < length order. set (st_depends_on (order ! i)) \<subseteq> st_id ` set (take i order))
    \<and> (\<forall>i < length order. \<forall>s \<in> set (wd_steps d) - set (take i order).
         set (st_depends_on s) \<subseteq> st_id ` set (take i order) \<longrightarrow>
         position (st_id (order ! i)) (step_ids (wd_steps d)) \<le> position (st_id s) (step_ids (wd_steps d)))"
proof -
  let ?steps = "wd_steps d"
  let ?ids = "kahn (\<lambda>i. position i (step_ids ?steps)) (dependents ?steps) (ready_at_start ?steps) (in_degrees ?steps)"
  have dist: "distinct (step_ids ?steps)" by (rule topological_order_distinct [OF assms])
  have len: "length ?ids = length ?steps" and order: "order = List.map_filter (step_named ?steps) ?ids"
    using assms by (auto simp: topological_order_eq Let_def split: sum.splits if_splits)
  note K = kahn_spec [OF dist]
  have ids: "map st_id order = ?ids" and sub: "set order \<subseteq> set ?steps"
    using named_steps [OF dist] K unfolding order by auto
  have lens: "length order = length ?steps" using ids len by (metis length_map)
  have "distinct order" using K ids by (metis distinct_map)
  moreover have "distinct ?steps" using dist by (simp add: step_ids_def distinct_map)
  ultimately have "set order = set ?steps"
    using sub lens by (metis card_subset_eq distinct_card finite_set)
  with \<open>distinct order\<close> \<open>distinct ?steps\<close> have perm: "mset order = mset ?steps"
    by (simp add: set_eq_iff_mset_eq_distinct)
  have at: "?ids ! i = st_id (order ! i)" "set (take i ?ids) = st_id ` set (take i order)"
    if "i < length order" for i
    using that by (simp_all flip: ids add: take_map)
  have deps: "deps_of ?steps (st_id s) = st_depends_on s" if "s \<in> set ?steps" for s
    by (rule deps_of_mem [OF dist that])
  have "set (st_depends_on (order ! i)) \<subseteq> st_id ` set (take i order)" if "i < length order" for i
  proof -
    have "set (deps_of ?steps (?ids ! i)) \<subseteq> set (take i ?ids)"
      using K that lens len by (simp add: closed_list_def)
    moreover have "order ! i \<in> set ?steps" using sub that by auto
    ultimately show ?thesis using at [OF that] deps by simp
  qed
  moreover have "position (st_id (order ! i)) (step_ids ?steps) \<le> position (st_id s) (step_ids ?steps)"
    if i: "i < length order" and s: "s \<in> set ?steps - set (take i order)"
      and ready: "set (st_depends_on s) \<subseteq> st_id ` set (take i order)" for i s
  proof -
    have "first_ready (set (step_ids ?steps)) (deps_of ?steps) (\<lambda>i. position i (step_ids ?steps))
        (take i ?ids) (?ids ! i)"
      using K i lens len by simp
    moreover have "st_id s \<notin> st_id ` set (take i order)"
      using s sub dist by (auto simp: step_ids_def distinct_map inj_on_def dest: in_set_takeD)
    moreover have "st_id s \<in> set (step_ids ?steps)" using s by (simp add: step_ids_def)
    moreover have "set (deps_of ?steps (st_id s)) \<subseteq> set (take i ?ids)"
      using deps [of s] s ready at(2) [OF i] by simp
    ultimately show ?thesis unfolding first_ready_def at(1) [OF i] at(2) [OF i] by blast
  qed
  ultimately show ?thesis using perm by blast
qed

text \<open>C29: The order that \<open>topological_order\<close> returns is a permutation of the steps in which every
  dependency of a step comes before it, and at every place it takes, among the steps whose
  dependencies have been placed, the one declared first.\<close>

theorem topological_order_correct:
  assumes "topological_order d = Inr order"
  shows "mset order = mset (wd_steps d)
    \<and> (\<forall>i < length order. set (st_depends_on (order ! i)) \<subseteq> st_id ` set (take i order))
    \<and> (\<forall>i < length order. \<forall>s \<in> set (wd_steps d) - set (take i order).
         set (st_depends_on s) \<subseteq> st_id ` set (take i order) \<longrightarrow>
         position (st_id (order ! i)) (step_ids (wd_steps d)) \<le> position (st_id s) (step_ids (wd_steps d)))"
  by (rule topological_order_facts [OF assms])

text \<open>Witness: a diamond.\<close>

definition demo_step :: "str \<Rightarrow> str list \<Rightarrow> wf_step" where
  "demo_step i deps = \<lparr>st_id = i, st_operation = ''op'', st_depends_on = deps, st_permissions = []\<rparr>"

definition diamond :: wf_definition where
  "diamond = \<lparr>wd_id = ''w'', wd_version = ''1.0.0'',
     wd_steps = [demo_step ''d'' [''b'', ''c''], demo_step ''c'' [''a''], demo_step ''b'' [''a''], demo_step ''a'' []]\<rparr>"

lemma diamond_order:
  "topological_order diamond =
     Inr [demo_step ''a'' [], demo_step ''c'' [''a''], demo_step ''b'' [''a''], demo_step ''d'' [''b'', ''c'']]"
  by code_simp

theorem topological_order_correct_witness:
  "topological_order diamond =
     Inr [demo_step ''a'' [], demo_step ''c'' [''a''], demo_step ''b'' [''a''], demo_step ''d'' [''b'', ''c'']]
   \<and> mset [demo_step ''a'' [], demo_step ''c'' [''a''], demo_step ''b'' [''a''], demo_step ''d'' [''b'', ''c'']]
     = mset (wd_steps diamond)"
  using topological_order_correct [OF diamond_order] diamond_order by blast

end
