(* ===== verification/Workflow_Runs.thy ===== *)
theory Workflow_Runs
  imports Workflow_Order
begin

text \<open>
  The workflow store of \<open>src/agency/workflows/registry.py\<close> and the plain runs of
  \<open>src/agency/workflows/executor.py\<close>.

  A table is a list of rows in rowid order; \<open>INSERT OR REPLACE\<close> takes the old row out and puts
  the new one at the end. A JSON column is the value it denotes, its keys in the order they were
  written (\<open>sort_keys=True\<close>). The registered operations are an argument: what each returns or
  raises on its inputs and the outputs before it; the errors that no handler of the executor
  catches are among them. The executor's functions also return the steps whose operations they
  called, in order, which the code does not keep. Instants are numbers. SQLite accepts every write
  whose columns are within their bounds.
\<close>

section \<open>The registry\<close>

record step_result =
  sr_status :: str
  sr_output :: json
  sr_error :: "str option"

type_synonym results = "(str \<times> step_result) list"

record wf_run =
  wr_id :: str
  wr_workflow :: str
  wr_version :: str
  wr_actor :: str
  wr_status :: str
  wr_results :: results
  wr_created :: int
  wr_completed :: "int option"

record rec_run =
  rr_id :: str
  rr_workflow :: str
  rr_version :: str
  rr_actor :: str
  rr_status :: str
  rr_results :: results
  rr_input_digest :: str
  rr_definition_digest :: str
  rr_binding :: "(str \<times> str) list"
  rr_created :: int
  rr_updated :: "int option"
  rr_schema :: int

record wf_registry =
  rg_path :: str
  rg_definitions :: "wf_definition list"
  rg_runs :: "wf_run list"
  rg_recoverable :: "rec_run list"

definition max_json :: int where
  "max_json = 65536"

definition max_results :: int where
  "max_results = max_json * 65"

definition entry_json :: "step_result \<Rightarrow> json" where
  "entry_json e = JObj [(''status'', JStr (sr_status e)), (''output'', sr_output e),
     (''error'', case sr_error e of None \<Rightarrow> JNull | Some m \<Rightarrow> JStr m)]"

definition results_json :: "results \<Rightarrow> json" where
  "results_json rs = JObj (map (map_prod id entry_json) rs)"

definition binding_json :: "(str \<times> str) list \<Rightarrow> json" where
  "binding_json b = JObj (map (map_prod id JStr) b)"

definition definition_of :: "str \<Rightarrow> str \<Rightarrow> wf_registry \<Rightarrow> wf_definition option" where
  "definition_of wid ver g = find (\<lambda>d. wd_id d = wid \<and> wd_version d = ver) (rg_definitions g)"

definition register :: "wf_definition \<Rightarrow> wf_registry \<Rightarrow> (wf_registry, wf_error, wf_definition) outcome" where
  "register d g =
     (case first_error id [check_definition d, validate_dag d] of
        Inl e \<Rightarrow> (Inl e, g)
      | Inr _ \<Rightarrow>
          if definition_of (wd_id d) (wd_version d) g \<noteq> None then (Inl Duplicate_Version, g)
          else (Inr d, g\<lparr>rg_definitions := rg_definitions g @ [d]\<rparr>))"

definition get_definition :: "str \<Rightarrow> str \<Rightarrow> wf_registry \<Rightarrow> (wf_error, wf_definition) res" where
  "get_definition wid ver g =
     (case first_error id [check_wf_id wid, check_version ver] of
        Inl e \<Rightarrow> Inl e
      | Inr _ \<Rightarrow> (case definition_of wid ver g of None \<Rightarrow> Inl Unknown_Workflow | Some d \<Rightarrow> Inr d))"

definition list_versions :: "str \<Rightarrow> wf_registry \<Rightarrow> (wf_error, wf_definition list) res" where
  "list_versions wid g =
     (case check_wf_id wid of
        Inl e \<Rightarrow> Inl e
      | Inr _ \<Rightarrow> Inr (filter (\<lambda>d. wd_id d = wid) (rg_definitions g)))"

definition run_row :: "wf_run \<Rightarrow> wf_run" where
  "run_row r = r\<lparr>wr_results := sort_key fst (wr_results r)\<rparr>"

definition record_run :: "wf_run \<Rightarrow> wf_registry \<Rightarrow> (wf_registry, wf_error, wf_run) outcome" where
  "record_run r g =
     (if json_size (results_json (wr_results r)) > max_results then (Inl Too_Large, g)
      else (Inr r, g\<lparr>rg_runs := filter (\<lambda>x. wr_id x \<noteq> wr_id r) (rg_runs g) @ [run_row r]\<rparr>))"

definition get_run :: "str \<Rightarrow> wf_registry \<Rightarrow> (wf_error, wf_run) res" where
  "get_run rid g =
     (if py_strip rid = [] then Inl Blank
      else case find (\<lambda>r. wr_id r = rid) (rg_runs g) of None \<Rightarrow> Inl Unknown_Run | Some r \<Rightarrow> Inr r)"

definition rec_row :: "rec_run \<Rightarrow> rec_run" where
  "rec_row r = r\<lparr>rr_results := sort_key fst (rr_results r), rr_binding := sort_key fst (rr_binding r)\<rparr>"

definition record_recoverable :: "rec_run \<Rightarrow> wf_registry \<Rightarrow> (wf_registry, wf_error, rec_run) outcome" where
  "record_recoverable r g =
     (if rr_schema r \<noteq> 1 then (Inl Bad_Schema, g)
      else if json_size (results_json (rr_results r)) > max_results
        \<or> json_size (binding_json (rr_binding r)) > max_json then (Inl Too_Large, g)
      else (Inr r, g\<lparr>rg_recoverable := filter (\<lambda>x. rr_id x \<noteq> rr_id r) (rg_recoverable g) @ [rec_row r]\<rparr>))"

definition stored_recoverable :: "str \<Rightarrow> wf_registry \<Rightarrow> rec_run option" where
  "stored_recoverable rid g = find (\<lambda>r. rr_id r = rid) (rg_recoverable g)"

definition get_recoverable :: "str \<Rightarrow> wf_registry \<Rightarrow> (wf_error, rec_run) res" where
  "get_recoverable rid g =
     (if py_strip rid = [] then Inl Blank
      else case stored_recoverable rid g of None \<Rightarrow> Inl Unknown_Run | Some r \<Rightarrow> Inr r)"

definition list_recoverable :: "str option \<Rightarrow> wf_registry \<Rightarrow> rec_run list" where
  "list_recoverable st g =
     (case st of None \<Rightarrow> rg_recoverable g | Some x \<Rightarrow> filter (\<lambda>r. rr_status r = x) (rg_recoverable g))"

section \<open>The executor\<close>

text \<open>What an operation does: it raises an exception of the named class; it returns a value of the
  named type that \<open>json.dumps\<close> refuses, or one whose JSON text has a lone surrogate (with the
  message of the \<open>UnicodeEncodeError\<close>), or one nested too deep for \<open>json.dumps\<close>
  (\<open>RecursionError\<close>), or a JSON value; or it raises a \<open>BaseException\<close> that is not an
  \<open>Exception\<close>, as \<open>SystemExit\<close>.\<close>

datatype op_result = Op_Raises str | Op_Unserializable str | Op_Surrogate str | Op_Too_Deep | Op_Exits str
  | Op_Returns json

type_synonym outputs = "(str \<times> json) list"

record executor =
  ex_operations :: "str \<Rightarrow> ((str \<times> json) list \<Rightarrow> outputs \<Rightarrow> op_result) option"
  ex_authorizer :: "(str \<Rightarrow> str \<Rightarrow> bool) option"
  ex_replay_safe :: "str list"
  ex_versions :: "(str \<times> str) list"

definition executor_ok :: "executor \<Rightarrow> bool" where
  "executor_ok ex = list_all (\<lambda>op. ex_operations ex op \<noteq> None) (ex_replay_safe ex)"

definition is_allowed :: "executor \<Rightarrow> str \<Rightarrow> str \<Rightarrow> bool" where
  "is_allowed ex actor perm = (case ex_authorizer ex of None \<Rightarrow> False | Some f \<Rightarrow> f actor perm)"

definition check_actor :: "str \<Rightarrow> (wf_error, unit) res" where
  "check_actor actor = (if py_strip actor = [] then Inl Blank else if length actor > 256 then Inl Too_Long else Inr ())"

definition check_inputs :: "(str \<times> json) list \<Rightarrow> (wf_error, unit) res" where
  "check_inputs inputs = (if json_size (JObj inputs) > max_json then Inl Too_Large else Inr ())"

definition failed_entry :: "str \<Rightarrow> step_result" where
  "failed_entry msg = \<lparr>sr_status = ''failed'', sr_output = JNull, sr_error = Some msg\<rparr>"

definition ok_entry :: "json \<Rightarrow> step_result" where
  "ok_entry v = \<lparr>sr_status = ''ok'', sr_output = v, sr_error = None\<rparr>"

definition entry_ok :: "step_result \<Rightarrow> bool" where
  "entry_ok e = (sr_status e = ''ok'')"

text \<open>What a called operation leaves in \<open>run\<close>: the snapshot of its output, the error that is
  recorded, or an error that no handler catches. The encoding of the JSON text is outside the
  handlers there; in the recoverable executor the error of the encoding is a \<open>ValueError\<close> that
  is caught and recorded.\<close>

definition call_entry :: "op_result \<Rightarrow> (wf_error, step_result) res" where
  "call_entry r =
     (case r of
        Op_Raises name \<Rightarrow> Inr (failed_entry name)
      | Op_Unserializable name \<Rightarrow> Inr (failed_entry (''non-JSON-serializable output: '' @ name))
      | Op_Surrogate message \<Rightarrow> Inl (Output_Not_Encodable message)
      | Op_Too_Deep \<Rightarrow> Inl Output_Too_Deep
      | Op_Exits name \<Rightarrow> Inl (Operation_Exits name)
      | Op_Returns v \<Rightarrow>
          Inr (if json_size v > max_json then failed_entry ''step output exceeds 65536 bytes''
               else ok_entry (sorted_keys v)))"

definition recoverable_entry :: "op_result \<Rightarrow> (wf_error, step_result) res" where
  "recoverable_entry r =
     (case r of Op_Surrogate message \<Rightarrow> Inr (failed_entry message) | _ \<Rightarrow> call_entry r)"

definition denied_permission :: "executor \<Rightarrow> str \<Rightarrow> wf_step \<Rightarrow> str option" where
  "denied_permission ex actor s = find (\<lambda>perm. \<not> is_allowed ex actor perm) (st_permissions s)"

text \<open>One step of \<open>run\<close>: whether its operation is called, and its entry or the error that
  leaves the run.\<close>

definition run_step :: "executor \<Rightarrow> (str \<times> json) list \<Rightarrow> str \<Rightarrow> wf_step \<Rightarrow> outputs
    \<Rightarrow> bool \<times> (wf_error, step_result) res" where
  "run_step ex inputs actor s outs =
     (case ex_operations ex (st_operation s) of
        None \<Rightarrow> (False, Inr (failed_entry (''unknown operation: '' @ st_operation s)))
      | Some op \<Rightarrow>
          (case denied_permission ex actor s of
             Some perm \<Rightarrow> (False, Inr (failed_entry (''permission denied: '' @ perm)))
           | None \<Rightarrow> (True, call_entry (op inputs outs))))"

fun run_steps :: "executor \<Rightarrow> (str \<times> json) list \<Rightarrow> str \<Rightarrow> wf_step list \<Rightarrow> results \<Rightarrow> outputs
    \<Rightarrow> (wf_error, bool \<times> results) res \<times> str list" where
  "run_steps ex inputs actor [] rs outs = (Inr (False, rs), [])"
| "run_steps ex inputs actor (s # ss) rs outs =
     (let (called, w) = run_step ex inputs actor s outs;
          calls = (if called then [st_id s] else [])
      in case w of
           Inl err \<Rightarrow> (Inl err, calls)
         | Inr e \<Rightarrow>
             let rs' = AList.update (st_id s) e rs
             in if entry_ok e
                then let (fin, calls') = run_steps ex inputs actor ss rs' (AList.update (st_id s) (sr_output e) outs)
                     in (fin, calls @ calls')
                else (Inr (True, rs'), calls))"

text \<open>An error that leaves the loop leaves the row at RUNNING.\<close>

definition run :: "executor \<Rightarrow> str \<Rightarrow> int \<Rightarrow> int \<Rightarrow> str \<Rightarrow> str \<Rightarrow> (str \<times> json) list \<Rightarrow> str \<Rightarrow> wf_registry
    \<Rightarrow> (wf_registry, wf_error, wf_run) outcome \<times> str list" where
  "run ex rid now1 now2 wid ver inputs actor g =
     (case first_error id [check_actor actor, check_inputs inputs] of
        Inl e \<Rightarrow> ((Inl e, g), [])
      | Inr _ \<Rightarrow>
     (case get_definition wid ver g of
        Inl e \<Rightarrow> ((Inl e, g), [])
      | Inr d \<Rightarrow>
     (case topological_order d of
        Inl e \<Rightarrow> ((Inl e, g), [])
      | Inr order \<Rightarrow>
          if py_strip rid = [] then ((Inl Blank, g), []) else
          let pending = \<lparr>wr_id = rid, wr_workflow = wid, wr_version = ver, wr_actor = actor,
                wr_status = ''PENDING'', wr_results = [], wr_created = now1, wr_completed = None\<rparr> in
     (case record_run pending g of
        (Inl e, g1) \<Rightarrow> ((Inl e, g1), [])
      | (Inr _, g1) \<Rightarrow>
     (case record_run (pending\<lparr>wr_status := ''RUNNING''\<rparr>) g1 of
        (Inl e, g2) \<Rightarrow> ((Inl e, g2), [])
      | (Inr _, g2) \<Rightarrow>
     (case run_steps ex inputs actor order [] [] of
        (Inl e, calls) \<Rightarrow> ((Inl e, g2), calls)
      | (Inr (failed, rs), calls) \<Rightarrow>
          (record_run (pending\<lparr>wr_status := (if failed then ''FAILED'' else ''COMPLETED''),
             wr_results := rs, wr_completed := Some now2\<rparr>) g2, calls)))))))"

section \<open>Plain runs\<close>

lemma run_steps_spec:
  assumes "run_steps ex inputs actor ss rs outs = (Inr (failed, rs'), calls)" "distinct (map st_id ss)"
    "set (map st_id ss) \<inter> fst ` set rs = {}"
  shows "\<exists>new. rs' = rs @ new \<and> prefix (map fst new) (map st_id ss) \<and> prefix calls (map fst new)
    \<and> list_all entry_ok (map snd (butlast new))
    \<and> (failed \<longleftrightarrow> \<not> (map fst new = map st_id ss \<and> list_all entry_ok (map snd new)))
    \<and> (\<forall>s \<in> set ss. st_id s \<in> set calls \<longrightarrow> denied_permission ex actor s = None
        \<and> ex_operations ex (st_operation s) \<noteq> None)"
  using assms
proof (induction ss arbitrary: rs outs failed rs' calls)
  case Nil
  then show ?case by auto
next
  case (Cons s ss)
  obtain called e where e: "run_step ex inputs actor s outs = (called, Inr e)"
    using Cons.prems(1) by (cases "run_step ex inputs actor s outs") (auto simp: Let_def split: sum.splits)
  have upd: "AList.update (st_id s) e rs = rs @ [(st_id s, e)]"
    using Cons.prems(3) by (intro update_fresh) (auto simp: map_of_eq_None_iff)
  have called: "denied_permission ex actor s = None \<and> ex_operations ex (st_operation s) \<noteq> None" if called
    using e that by (auto simp: run_step_def split: option.splits)
  have e_called: "called" if "entry_ok e"
    using e that by (auto simp: run_step_def failed_entry_def entry_ok_def split: option.splits)
  show ?case
  proof (cases "entry_ok e")
    case True
    then obtain calls' where rest: "run_steps ex inputs actor ss (rs @ [(st_id s, e)])
        (AList.update (st_id s) (sr_output e) outs) = (Inr (failed, rs'), calls')" "calls = st_id s # calls'"
      using Cons.prems(1) e e_called upd by (auto simp: Let_def split: prod.splits)
    have "set (map st_id ss) \<inter> fst ` set (rs @ [(st_id s, e)]) = {}" using Cons.prems(2,3) by auto
    from Cons.IH [OF rest(1) _ this] Cons.prems(2) obtain new where new: "rs' = (rs @ [(st_id s, e)]) @ new"
        "prefix (map fst new) (map st_id ss)" "prefix calls' (map fst new)"
        "list_all entry_ok (map snd (butlast new))"
        "failed \<longleftrightarrow> \<not> (map fst new = map st_id ss \<and> list_all entry_ok (map snd new))"
        "\<forall>s \<in> set ss. st_id s \<in> set calls' \<longrightarrow> denied_permission ex actor s = None
          \<and> ex_operations ex (st_operation s) \<noteq> None" by auto
    moreover have fresh: "st_id t \<noteq> st_id s" if "t \<in> set ss" for t using Cons.prems(2) that by (metis distinct.simps(2) image_eqI list.map(2) list.set_map)
    moreover note e_called [OF True]
    ultimately show ?thesis using True called [OF e_called [OF True]] rest(2)
      by (intro exI [of _ "(st_id s, e) # new"] conjI) (auto simp: list_all_iff)
  next
    case False
    then have "rs' = rs @ [(st_id s, e)]" "failed" "calls = (if called then [st_id s] else [])"
      using Cons.prems(1) e upd by (auto simp: Let_def split: prod.splits)
    moreover have "st_id t \<noteq> st_id s" if "t \<in> set ss" for t using Cons.prems(2) that by (metis distinct.simps(2) image_eqI list.map(2) list.set_map)
    ultimately show ?thesis using False called
      by (intro exI [of _ "[(st_id s, e)]"]) (auto split: if_splits)
  qed
qed

lemma record_run_Inr: "record_run r g = (Inr r', g') \<Longrightarrow> r' = r"
  by (auto simp: record_run_def split: if_splits)

lemma run_Inr:
  assumes "run ex rid now1 now2 wid ver inputs actor g = ((Inr r, g'), calls)"
  shows "\<exists>d order failed. get_definition wid ver g = Inr d \<and> topological_order d = Inr order
    \<and> run_steps ex inputs actor order [] [] = (Inr (failed, wr_results r), calls)
    \<and> wr_status r = (if failed then ''FAILED'' else ''COMPLETED'')"
proof -
  from assms obtain d where d: "get_definition wid ver g = Inr d"
    by (cases "get_definition wid ver g") (auto simp: run_def split: sum.splits)
  from assms obtain order where order: "topological_order d = Inr order"
    by (cases "topological_order d") (auto simp: run_def d split: sum.splits)
  obtain w cs where steps: "run_steps ex inputs actor order [] [] = (w, cs)"
    by (cases "run_steps ex inputs actor order [] []")
  with assms obtain failed rs where w: "w = Inr (failed, rs)"
    by (cases w) (auto simp: run_def d order Let_def split: sum.splits prod.splits if_splits)
  have "wr_results r = rs \<and> cs = calls \<and> wr_status r = (if failed then ''FAILED'' else ''COMPLETED'')"
    using assms
    by (auto simp: run_def d order steps w Let_def split: sum.splits prod.splits if_splits dest!: record_run_Inr)
  then show ?thesis using d order steps w by blast
qed

lemma order_facts:
  assumes "topological_order d = Inr order"
  shows "distinct (map st_id order)" "set order = set (wd_steps d)" "length order = length (wd_steps d)"
proof -
  have perm: "mset order = mset (wd_steps d)" using topological_order_facts [OF assms] by blast
  then show "set order = set (wd_steps d)" "length order = length (wd_steps d)" by (metis set_mset_mset, metis size_mset)
  have "distinct (map st_id (wd_steps d))" using topological_order_distinct [OF assms] by (simp add: step_ids_def)
  moreover have "mset (map st_id order) = mset (map st_id (wd_steps d))" using perm by simp
  ultimately show "distinct (map st_id order)" by (metis mset_eq_imp_distinct_iff)
qed

lemma denied_None: "denied_permission ex actor s = None \<longleftrightarrow> (\<forall>perm \<in> set (st_permissions s). is_allowed ex actor perm)"
  by (auto simp: denied_permission_def find_None_iff)

text \<open>A run works through the topological order and stops at the first step that does not
  end well: the recorded steps are a prefix of the order, all but the last of them ok, and the
  run is completed exactly when every step is recorded as ok. An operation is called only when
  the actor has every permission of its step and every dependency of the step is recorded as
  ok.\<close>

lemma run_stops_at_first_failure:
  assumes "run ex rid now1 now2 wid ver inputs actor g = ((Inr r, g'), calls)"
  shows "\<exists>d order. get_definition wid ver g = Inr d \<and> topological_order d = Inr order
    \<and> prefix (map fst (wr_results r)) (map st_id order)
    \<and> list_all entry_ok (map snd (butlast (wr_results r)))
    \<and> (wr_status r = ''COMPLETED'' \<longleftrightarrow>
        map fst (wr_results r) = map st_id order \<and> list_all entry_ok (map snd (wr_results r)))
    \<and> (\<forall>s \<in> set order. st_id s \<in> set calls \<longrightarrow>
        (\<forall>perm \<in> set (st_permissions s). is_allowed ex actor perm)
        \<and> (\<forall>dep \<in> set (st_depends_on s). \<exists>e. map_of (wr_results r) dep = Some e \<and> entry_ok e))"
proof -
  from run_Inr [OF assms] obtain d order failed where d: "get_definition wid ver g = Inr d" "topological_order d = Inr order"
    and run: "run_steps ex inputs actor order [] [] = (Inr (failed, wr_results r), calls)"
    and st: "wr_status r = (if failed then ''FAILED'' else ''COMPLETED'')" by blast
  note T = topological_order_facts [OF d(2)]
  note dist = order_facts(1) [OF d(2)]
  from run_steps_spec [OF run dist] obtain new where new: "wr_results r = new"
      "prefix (map fst new) (map st_id order)" "prefix calls (map fst new)"
      "list_all entry_ok (map snd (butlast new))"
      "failed \<longleftrightarrow> \<not> (map fst new = map st_id order \<and> list_all entry_ok (map snd new))"
      "\<forall>s \<in> set order. st_id s \<in> set calls \<longrightarrow> denied_permission ex actor s = None
        \<and> ex_operations ex (st_operation s) \<noteq> None" by auto
  have "\<exists>e. map_of new dep = Some e \<and> entry_ok e"
    if s: "s \<in> set order" "st_id s \<in> set calls" "dep \<in> set (st_depends_on s)" for s dep
  proof -
    obtain i where i: "i < length order" "order ! i = s" using s(1) by (auto simp: in_set_conv_nth)
    have "st_id s \<in> set (map fst new)" using s(2) new(3) set_mono_prefix by blast
    then obtain k where k: "k < length new" "fst (new ! k) = st_id s" by (auto simp: in_set_conv_nth)
    obtain zs where zs: "map st_id order = map fst new @ zs" using new(2) by (auto simp: prefix_def)
    have len: "length new \<le> length order" using arg_cong [OF zs, of length] by simp
    have nth: "fst (new ! j) = st_id (order ! j)" if "j < length new" for j
      using arg_cong [OF zs, of "\<lambda>xs. xs ! j"] that len by (simp add: nth_append)
    have "map st_id order ! k = map st_id order ! i" using nth [OF k(1)] k i len by simp
    then have "k = i" using k(1) i(1) len nth_eq_iff_index_eq [OF dist, of k i] by simp
    moreover have "dep \<in> st_id ` set (take i order)" using T i s(3) by auto
    then obtain j where j: "j < i" "st_id (order ! j) = dep" using i(1) by (auto simp: in_set_conv_nth)
    ultimately have jn: "j < length (butlast new)" using k(1) by simp
    then have "new ! j \<in> set (butlast new)" by (metis nth_butlast nth_mem)
    then have "entry_ok (snd (new ! j))" "new ! j \<in> set new" using new(4) by (auto simp: list_all_iff dest: in_set_butlastD)
    moreover have "fst (new ! j) = dep" using nth [of j] j jn by simp
    moreover have "distinct (map fst new)" using dist new(2) by (metis distinct_append prefix_def)
    ultimately show ?thesis by (metis map_of_is_SomeI prod.collapse)
  qed
  then show ?thesis using d new st by (auto simp: denied_None)
qed

section \<open>The results of a run fit their column\<close>

definition entry_small :: "step_result \<Rightarrow> bool" where
  "entry_small e = (json_size (entry_json e) \<le> max_json + 100)"

definition results_small :: "results \<Rightarrow> bool" where
  "results_small rs = (length rs \<le> 64 \<and> list_all (\<lambda>(k, e). length k \<le> 128 \<and> entry_small e) rs)"

lemma results_fit:
  assumes "results_small rs"
  shows "json_size (results_json rs) \<le> max_results"
proof -
  have "json_size (results_json rs) \<le> 2 + (6 * 128 + (max_json + 100) + 6) * int (length (map (map_prod id entry_json) rs))"
    unfolding results_json_def
    by (rule json_size_bound) (use assms in \<open>auto simp: results_small_def list_all_iff entry_small_def\<close>)
  also have "\<dots> \<le> max_results" using assms by (simp add: max_json_def max_results_def results_small_def)
  finally show ?thesis .
qed

lemma json_size_str: "json_size (JStr s) = bytes (json_string s)"
  by (simp add: json_size_def dumps_def bytes_def)

lemma json_size_null: "json_size JNull = 4"
  by (simp add: json_size_def dumps_def utf8_char_length(2) flip: bytes_def add: bytes_Cons)

lemma field_names: "bytes (json_string ''status'') = 8" "bytes (json_string ''output'') = 8" "bytes (json_string ''error'') = 7"
  "bytes (json_string ''ok'') = 4" "bytes (json_string ''failed'') = 8"
  by code_simp+

lemma entry_size:
  "json_size (entry_json e) = 33 + json_size (JStr (sr_status e)) + json_size (sr_output e)
     + (case sr_error e of None \<Rightarrow> 4 | Some m \<Rightarrow> json_size (JStr m)) + 2"
  by (simp add: entry_json_def json_size_object field_names json_size_null split: option.split)

lemma failed_entry_small: "length m \<le> 10100 \<Longrightarrow> entry_small (failed_entry m)"
  using json_string_bytes [of m]
  by (simp add: entry_small_def entry_size failed_entry_def json_size_str field_names json_size_null max_json_def)

lemma ok_entry_small: "json_size v \<le> max_json \<Longrightarrow> entry_small (ok_entry (sorted_keys v))"
  by (simp add: entry_small_def entry_size ok_entry_def json_size_str field_names)

text \<open>The names of the exceptions and types that the operations bring.\<close>

fun result_short :: "op_result \<Rightarrow> bool" where
  "result_short (Op_Raises n) = (length n \<le> 10000)"
| "result_short (Op_Unserializable n) = (length n \<le> 10000)"
| "result_short (Op_Surrogate n) = (length n \<le> 10000)"
| "result_short _ = True"

definition names_short :: "executor \<Rightarrow> bool" where
  "names_short ex \<longleftrightarrow> (\<forall>op f inputs outs. ex_operations ex op = Some f \<longrightarrow> result_short (f inputs outs))"

lemma call_entry_small: "call_entry r = Inr e \<Longrightarrow> result_short r \<Longrightarrow> entry_small e"
  by (cases r) (auto simp: call_entry_def failed_entry_small ok_entry_small simp del: append_Cons split: if_splits)

lemma recoverable_entry_small: "recoverable_entry r = Inr e \<Longrightarrow> result_short r \<Longrightarrow> entry_small e"
  by (cases r) (auto simp: recoverable_entry_def failed_entry_small intro: call_entry_small)

definition step_short :: "wf_step \<Rightarrow> bool" where
  "step_short s = (length (st_id s) \<le> 128 \<and> length (st_operation s) \<le> 128 \<and> list_all (\<lambda>perm. length perm \<le> 128) (st_permissions s))"

lemma check_name_short: "check_name extra v = Inr () \<Longrightarrow> length v \<le> 128"
  by (auto simp: check_name_def split: if_splits)

lemma check_definition_short: "check_definition d = Inr () \<Longrightarrow> \<forall>s \<in> set (wd_steps d). step_short s"
  by (auto simp: check_definition_def check_step_def first_error_Inr step_short_def list_all_iff check_wf_id_def
    check_permission_def simp del: first_error.simps dest: check_name_short)

lemma run_step_small:
  assumes "names_short ex" "step_short s" "run_step ex inputs actor s outs = (called, Inr e)"
  shows "entry_small e"
proof (cases "ex_operations ex (st_operation s)")
  case None
  then show ?thesis using assms(2,3) by (auto simp: run_step_def step_short_def intro!: failed_entry_small)
next
  case (Some op)
  show ?thesis
  proof (cases "denied_permission ex actor s")
    case None
    then have "call_entry (op inputs outs) = Inr e" using assms(3) Some by (simp add: run_step_def)
    then show ?thesis using assms(1) Some by (auto simp: names_short_def intro: call_entry_small)
  next
    case denied: (Some perm)
    then have "length perm \<le> 128" using assms(2) by (auto simp: denied_permission_def step_short_def list_all_iff dest: find_SomeD)
    then show ?thesis using assms(3) Some denied by (auto simp: run_step_def intro!: failed_entry_small)
  qed
qed

lemma run_steps_small:
  assumes "run_steps ex inputs actor ss rs outs = (Inr (failed, rs'), calls)" "names_short ex" "\<forall>s \<in> set ss. step_short s"
    "list_all (\<lambda>(k, e). length k \<le> 128 \<and> entry_small e) rs"
  shows "list_all (\<lambda>(k, e). length k \<le> 128 \<and> entry_small e) rs'"
  using assms
proof (induction ss arbitrary: rs outs failed rs' calls)
  case (Cons s ss)
  obtain called e where e: "run_step ex inputs actor s outs = (called, Inr e)"
    using Cons.prems(1) by (cases "run_step ex inputs actor s outs") (auto simp: Let_def split: sum.splits)
  have "entry_small e" using run_step_small [OF Cons.prems(2) _ e] Cons.prems(3) by simp
  then have upd: "list_all (\<lambda>(k, e). length k \<le> 128 \<and> entry_small e) (AList.update (st_id s) e rs)"
    using Cons.prems(3,4) by (intro list_all_updated) (simp_all add: step_short_def)
  show ?case
  proof (cases "entry_ok e")
    case True
    then obtain calls' where "run_steps ex inputs actor ss (AList.update (st_id s) e rs)
        (AList.update (st_id s) (sr_output e) outs) = (Inr (failed, rs'), calls')"
      using Cons.prems(1) e by (auto simp: Let_def split: prod.splits)
    then show ?thesis using Cons.IH [OF _ Cons.prems(2) _ upd] Cons.prems(3) by simp
  next
    case False
    then show ?thesis using Cons.prems(1) e upd by (auto simp: Let_def)
  qed
qed simp

text \<open>Every definition of the registry has passed the checks.\<close>

definition defs_ok :: "wf_registry \<Rightarrow> bool" where
  "defs_ok g = list_all (\<lambda>d. check_definition d = Inr () \<and> validate_dag d = Inr ()) (rg_definitions g)"

lemma register_defs_ok: "defs_ok g \<Longrightarrow> defs_ok (snd (register d g))"
  by (auto simp: register_def defs_ok_def first_error_Inr simp del: first_error.simps split: sum.splits)

lemma get_definition_ok:
  "defs_ok g \<Longrightarrow> get_definition wid ver g = Inr d
   \<Longrightarrow> check_definition d = Inr () \<and> validate_dag d = Inr () \<and> wd_id d = wid \<and> wd_version d = ver"
  by (auto simp: get_definition_def definition_of_def defs_ok_def list_all_iff split: sum.splits option.splits
    simp del: first_error.simps dest: find_SomeD)

lemma record_run_small: "results_small (wr_results r) \<Longrightarrow>
    record_run r g = (Inr r, g\<lparr>rg_runs := filter (\<lambda>x. wr_id x \<noteq> wr_id r) (rg_runs g) @ [run_row r]\<rparr>)"
  using results_fit [of "wr_results r"] by (simp add: record_run_def)

text \<open>A run of an admitted definition: it ends settled and stored, unless the operation of its
  last called step raises or returns something that no handler catches; then its row stays at
  RUNNING.\<close>

definition escaping_call :: "executor \<Rightarrow> (str \<times> json) list \<Rightarrow> str \<Rightarrow> wf_step list \<Rightarrow> wf_error \<Rightarrow> str \<Rightarrow> bool" where
  "escaping_call ex inputs actor steps err i \<longleftrightarrow> (\<exists>s \<in> set steps. st_id s = i \<and> denied_permission ex actor s = None
     \<and> (\<exists>f outs. ex_operations ex (st_operation s) = Some f \<and> call_entry (f inputs outs) = Inl err))"

lemma run_steps_escape:
  "run_steps ex inputs actor ss rs outs = (Inl err, calls)
   \<Longrightarrow> calls \<noteq> [] \<and> escaping_call ex inputs actor ss err (last calls)"
proof (induction ss arbitrary: rs outs calls)
  case (Cons s ss)
  obtain called w where w: "run_step ex inputs actor s outs = (called, w)" by (cases "run_step ex inputs actor s outs")
  show ?case
  proof (cases w)
    case (Inl e)
    then show ?thesis using Cons.prems w
      by (auto simp: run_step_def escaping_call_def Let_def split: option.splits)
  next
    case (Inr e)
    then obtain calls' where "run_steps ex inputs actor ss (AList.update (st_id s) e rs)
        (AList.update (st_id s) (sr_output e) outs) = (Inl err, calls')"
        "calls = (if called then [st_id s] else []) @ calls'"
      using Cons.prems w by (auto simp: Let_def split: prod.splits if_splits)
    then show ?thesis using Cons.IH by (fastforce simp: escaping_call_def)
  qed
qed simp

lemma run_outcome:
  assumes "defs_ok g" "get_definition wid ver g = Inr d" "check_actor actor = Inr ()" "check_inputs inputs = Inr ()"
    "py_strip rid \<noteq> []" "names_short ex" "run ex rid now1 now2 wid ver inputs actor g = ((w, g'), calls)"
  shows "case w of
      Inr r \<Rightarrow> wr_status r \<in> {''COMPLETED'', ''FAILED''} \<and> get_run rid g' = Inr (run_row r)
    | Inl err \<Rightarrow> calls \<noteq> [] \<and> escaping_call ex inputs actor (wd_steps d) err (last calls)
        \<and> (\<exists>r. get_run rid g' = Inr r \<and> wr_status r = ''RUNNING'')"
proof -
  note D = get_definition_ok [OF assms(1,2)]
  then obtain order where len: "length (wd_steps d) \<le> 64" and order: "topological_order d = Inr order"
    using validated_has_order by blast
  note O = order_facts [OF order]
  have empty: "results_small []" by (simp add: results_small_def)
  note start = run_def assms(2-5) order record_run_small empty
  obtain v cs where steps: "run_steps ex inputs actor order [] [] = (v, cs)" by (metis surj_pair)
  show ?thesis
  proof (cases v)
    case (Inl err)
    then have "escaping_call ex inputs actor (wd_steps d) err (last cs)" "cs \<noteq> []"
      using run_steps_escape [OF steps [unfolded Inl]] O(2) by (simp_all add: escaping_call_def)
    then show ?thesis using assms(7)
      by (auto simp: start steps Inl get_run_def run_row_def find_append find_replaced)
  next
    case (Inr p)
    obtain failed rs where p: "p = (failed, rs)" by (cases p)
    note steps = steps [unfolded Inr p]
    have "\<exists>new. rs = [] @ new \<and> prefix (map fst new) (map st_id order)"
      using run_steps_spec [OF steps O(1)] by auto
    then have "length rs \<le> 64" using len O(3) by (auto dest: prefix_length_le)
    moreover have "list_all (\<lambda>(k, e). length k \<le> 128 \<and> entry_small e) rs"
      using run_steps_small [OF steps assms(6)] check_definition_short [of d] D O(2) by simp
    ultimately have "results_small rs" by (simp add: results_small_def)
    then show ?thesis using assms(7)
      by (auto simp: start steps get_run_def run_row_def find_append find_replaced)
  qed
qed



text \<open>Witnesses: the diamond with an operation that raises on its third call.\<close>

definition demo_ex :: executor where
  "demo_ex = \<lparr>ex_operations = (\<lambda>op. if op = ''op'' then Some (\<lambda>_ outs.
       if length outs = 2 then Op_Raises ''ValueError'' else Op_Returns (JInt 1)) else None),
     ex_authorizer = Some (\<lambda>_ _. True), ex_replay_safe = [''op''], ex_versions = []\<rparr>"

definition demo_registry :: wf_registry where
  "demo_registry = \<lparr>rg_path = ''w.db'', rg_definitions = [diamond], rg_runs = [], rg_recoverable = []\<rparr>"

definition demo_run :: "(wf_registry, wf_error, wf_run) outcome \<times> str list" where
  "demo_run = run demo_ex ''r1'' 1 2 ''w'' ''1.0.0'' [] ''ann'' demo_registry"

lemma demo_run_calls: "snd demo_run = [''a'', ''c'', ''b''] \<and> \<not> isl (fst (fst demo_run))"
  by code_simp

lemma demo_definition: "get_definition ''w'' ''1.0.0'' demo_registry = Inr diamond"
  by code_simp

lemma run_stops_at_first_failure_example:
  "\<exists>r g'. run demo_ex ''r1'' 1 2 ''w'' ''1.0.0'' [] ''ann'' demo_registry = ((Inr r, g'), [''a'', ''c'', ''b''])
     \<and> prefix (map fst (wr_results r)) [''a'', ''c'', ''b'', ''d''] \<and> list_all entry_ok (map snd (butlast (wr_results r)))"
proof -
  obtain r g' where r: "run demo_ex ''r1'' 1 2 ''w'' ''1.0.0'' [] ''ann'' demo_registry = ((Inr r, g'), [''a'', ''c'', ''b''])"
    using demo_run_calls by (cases demo_run) (auto simp: isl_def demo_run_def split: sum.splits intro: sum.exhaust)
  show ?thesis using run_stops_at_first_failure [OF r] r demo_definition diamond_order by (auto simp: demo_step_def)
qed


text \<open>An operation that returns a lone surrogate leaves its run at RUNNING for good: the error is
  raised to the caller, and nothing reconciles the plain runs.\<close>

definition surrogate_ex :: executor where
  "surrogate_ex = demo_ex\<lparr>ex_operations := (\<lambda>op. if op = ''op'' then Some (\<lambda>_ _. Op_Surrogate ''surrogates not allowed'') else None)\<rparr>"

lemma surrogate_output_strands_the_run:
  "\<exists>g'. run surrogate_ex ''r1'' 1 2 ''w'' ''1.0.0'' [] ''ann'' demo_registry
      = ((Inl (Output_Not_Encodable ''surrogates not allowed''), g'), [''a''])
    \<and> (\<exists>r. get_run ''r1'' g' = Inr r \<and> wr_status r = ''RUNNING'')"
proof -
  obtain w g' calls where run: "run surrogate_ex ''r1'' 1 2 ''w'' ''1.0.0'' [] ''ann'' demo_registry = ((w, g'), calls)"
    by (metis surj_pair)
  have "fst (fst (run surrogate_ex ''r1'' 1 2 ''w'' ''1.0.0'' [] ''ann'' demo_registry)) =
      Inl (Output_Not_Encodable ''surrogates not allowed'')"
    "snd (run surrogate_ex ''r1'' 1 2 ''w'' ''1.0.0'' [] ''ann'' demo_registry) = [''a'']" by code_simp+
  then have w: "w = Inl (Output_Not_Encodable ''surrogates not allowed'')" "calls = [''a'']" using run by simp_all
  have pre: "defs_ok demo_registry" "check_actor ''ann'' = Inr ()" "check_inputs [] = Inr ()" "py_strip ''r1'' \<noteq> []"
    by code_simp+
  have "names_short surrogate_ex" by (simp add: names_short_def surrogate_ex_def)
  from run_outcome [OF pre(1) demo_definition pre(2-4) this run] show ?thesis using run w by simp
qed

end
