(* ===== verification/Workflow_Recovery.thy ===== *)
theory Workflow_Recovery
  imports Workflow_Runs
begin

text \<open>
  Recoverable runs: \<open>_execute_remaining\<close>, \<open>run_recoverable\<close>, \<open>resume\<close>, \<open>reconcile\<close> and
  \<open>inspect_recoverable\<close> of \<open>src/agency/workflows/executor.py\<close> with the digests of
  \<open>src/agency/workflows/recovery.py\<close>.

  A process may be killed: \<open>life\<close> is the number of durable writes it survives. The lock file is
  free or held by another process. The hexadecimal SHA-256 digest is the argument \<open>sha\<close>;
  \<open>clk\<close> gives the instant of each write.
\<close>

section \<open>Recoverable runs\<close>

definition input_digest :: "(str \<Rightarrow> str) \<Rightarrow> (str \<times> json) list \<Rightarrow> str" where
  "input_digest sha inputs = sha (utf8 (dumps (JObj inputs)))"

definition step_json :: "wf_step \<Rightarrow> json" where
  "step_json s = JObj [(''step_id'', JStr (st_id s)), (''operation'', JStr (st_operation s)),
     (''depends_on'', JArr (map JStr (st_depends_on s))), (''permissions'', JArr (map JStr (st_permissions s)))]"

definition definition_json :: "wf_definition \<Rightarrow> json" where
  "definition_json d = JObj [(''workflow_id'', JStr (wd_id d)), (''version'', JStr (wd_version d)),
     (''steps'', JArr (map step_json (wd_steps d)))]"

definition definition_digest :: "(str \<Rightarrow> str) \<Rightarrow> wf_definition \<Rightarrow> str" where
  "definition_digest sha d = sha (utf8 (dumps (definition_json d)))"

definition ops_binding :: "executor \<Rightarrow> wf_definition \<Rightarrow> (str \<times> str) list" where
  "ops_binding ex d = fold (\<lambda>s b. AList.update (st_operation s)
     (case map_of (ex_versions ex) (st_operation s) of Some v \<Rightarrow> v | None \<Rightarrow> []) b) (wd_steps d) []"

definition same_dict :: "(str \<times> str) list \<Rightarrow> (str \<times> str) list \<Rightarrow> bool" where
  "same_dict a b = (list_all (\<lambda>(k, v). map_of b k = Some v) a \<and> list_all (\<lambda>(k, v). map_of a k = Some v) b)"

definition persist :: "rec_run \<Rightarrow> str \<Rightarrow> results \<Rightarrow> int \<Rightarrow> wf_registry \<Rightarrow> (wf_registry, wf_error, rec_run) outcome" where
  "persist base st rs now g =
     record_recoverable (base\<lparr>rr_status := st, rr_results := rs, rr_updated := Some now, rr_schema := 1\<rparr>) g"

datatype finish = Returned rec_run | Raised wf_error | Killed

definition finishing :: "(wf_registry, wf_error, rec_run) outcome \<Rightarrow> finish \<times> wf_registry" where
  "finishing w = (case w of (Inl e, g) \<Rightarrow> (Raised e, g) | (Inr r, g) \<Rightarrow> (Returned r, g))"

definition last_write :: "nat \<Rightarrow> rec_run \<Rightarrow> str \<Rightarrow> results \<Rightarrow> int \<Rightarrow> wf_registry \<Rightarrow> finish \<times> wf_registry" where
  "last_write life base st rs now g =
     (if life = 0 then (Killed, g) else finishing (persist base st rs now g))"

definition refused_entry :: step_result where
  "refused_entry = \<lparr>sr_status = ''refused'', sr_output = JNull, sr_error = Some ''replay refused: not replay-safe''\<rparr>"

definition running_entry :: step_result where
  "running_entry = \<lparr>sr_status = ''running'', sr_output = JNull, sr_error = None\<rparr>"

definition is_done :: "results \<Rightarrow> wf_step \<Rightarrow> bool" where
  "is_done rs s = (case map_of rs (st_id s) of None \<Rightarrow> False | Some e \<Rightarrow> entry_ok e)"

fun execute_remaining :: "executor \<Rightarrow> (nat \<Rightarrow> int) \<Rightarrow> (str \<times> json) list \<Rightarrow> str \<Rightarrow> nat \<Rightarrow> wf_step list
    \<Rightarrow> results \<Rightarrow> outputs \<Rightarrow> rec_run \<Rightarrow> wf_registry \<Rightarrow> (finish \<times> wf_registry) \<times> str list" where
  "execute_remaining ex clk inputs actor life [] rs outs cur g =
     (if life = 0 then ((Killed, g), [])
      else case persist cur ''COMPLETED'' rs (clk life) g of
          (Inr r, g') \<Rightarrow> ((Returned r, g'), [])
        | (Inl e, g') \<Rightarrow>
            ((Raised e, if life = 1 then g' else snd (persist cur ''FAILED'' rs (clk (life - 1)) g')), []))"
| "execute_remaining ex clk inputs actor life (s # ss) rs outs cur g =
     (if is_done rs s then execute_remaining ex clk inputs actor life ss rs outs cur g
      else if ex_operations ex (st_operation s) = None \<or> st_operation s \<notin> set (ex_replay_safe ex)
      then (last_write life cur ''INDETERMINATE'' (AList.update (st_id s) refused_entry rs) (clk life) g, [])
      else case denied_permission ex actor s of
          Some perm \<Rightarrow>
            (last_write life cur ''FAILED''
               (AList.update (st_id s) (failed_entry (''permission denied: '' @ perm)) rs) (clk life) g, [])
        | None \<Rightarrow>
            if life = 0 then ((Killed, g), [])
            else (case persist cur ''RUNNING'' (AList.update (st_id s) running_entry rs) (clk life) g of
                (Inl e, g') \<Rightarrow> ((Raised e, g'), [])
              | (Inr cur', g') \<Rightarrow>
                  (case recoverable_entry (case ex_operations ex (st_operation s) of
                        None \<Rightarrow> Op_Raises [] | Some op \<Rightarrow> op inputs outs) of
                     Inl err \<Rightarrow> ((Raised err, g'), [st_id s])
                   | Inr e \<Rightarrow>
                       let rs' = AList.update (st_id s) e rs
                       in if \<not> entry_ok e
                          then (last_write (life - 1) cur' ''FAILED'' rs' (clk (life - 1)) g', [st_id s])
                          else if life - 1 = 0 then ((Killed, g'), [st_id s])
                          else (case persist cur' ''RUNNING'' rs' (clk (life - 1)) g' of
                              (Inl err, g'') \<Rightarrow> ((Raised err, g''), [st_id s])
                            | (Inr cur'', g'') \<Rightarrow>
                                (case execute_remaining ex clk inputs actor (life - 2) ss rs'
                                    (AList.update (st_id s) (sr_output e) outs) cur'' g'' of
                                   (fin, calls) \<Rightarrow> (fin, st_id s # calls))))))"

definition done_outputs :: "results \<Rightarrow> outputs" where
  "done_outputs rs = map (\<lambda>(i, e). (i, sr_output e)) (filter (\<lambda>(i, e). entry_ok e) rs)"

definition started_run :: "(str \<Rightarrow> str) \<Rightarrow> executor \<Rightarrow> str \<Rightarrow> str \<Rightarrow> str \<Rightarrow> str \<Rightarrow> (str \<times> json) list
    \<Rightarrow> wf_definition \<Rightarrow> int \<Rightarrow> rec_run" where
  "started_run sha ex rid wid ver actor inputs d now =
     \<lparr>rr_id = rid, rr_workflow = wid, rr_version = ver, rr_actor = actor, rr_status = ''RUNNING'',
      rr_results = [], rr_input_digest = input_digest sha inputs,
      rr_definition_digest = definition_digest sha d, rr_binding = ops_binding ex d,
      rr_created = now, rr_updated = None, rr_schema = 1\<rparr>"

definition run_recoverable :: "(str \<Rightarrow> str) \<Rightarrow> executor \<Rightarrow> bool \<Rightarrow> str \<Rightarrow> (nat \<Rightarrow> int) \<Rightarrow> nat \<Rightarrow> str \<Rightarrow> str
    \<Rightarrow> (str \<times> json) list \<Rightarrow> str \<Rightarrow> wf_registry \<Rightarrow> (finish \<times> wf_registry) \<times> str list" where
  "run_recoverable sha ex lock_free rid clk life wid ver inputs actor g =
     (if rg_path g = '':memory:'' then ((Raised Memory_Rejected, g), [])
      else case first_error id [check_actor actor, check_inputs inputs] of
        Inl e \<Rightarrow> ((Raised e, g), [])
      | Inr _ \<Rightarrow>
     (case get_definition wid ver g of
        Inl e \<Rightarrow> ((Raised e, g), [])
      | Inr d \<Rightarrow>
     (case topological_order d of
        Inl e \<Rightarrow> ((Raised e, g), [])
      | Inr order \<Rightarrow>
          if \<not> lock_free then ((Raised Lock_Held, g), [])
          else if py_strip rid = [] then ((Raised Blank, g), [])
          else if life = 0 then ((Killed, g), [])
          else (case record_recoverable (started_run sha ex rid wid ver actor inputs d (clk (Suc life))) g of
                (Inl e, g') \<Rightarrow> ((Raised e, g'), [])
              | (Inr cur, g') \<Rightarrow> execute_remaining ex clk inputs actor (life - 1) order [] [] cur g'))))"

definition resume :: "(str \<Rightarrow> str) \<Rightarrow> executor \<Rightarrow> bool \<Rightarrow> (nat \<Rightarrow> int) \<Rightarrow> nat \<Rightarrow> str
    \<Rightarrow> (str \<times> json) list \<Rightarrow> str \<Rightarrow> wf_registry \<Rightarrow> (finish \<times> wf_registry) \<times> str list" where
  "resume sha ex lock_free clk life rid inputs actor g =
     (if rg_path g = '':memory:'' then ((Raised Memory_Rejected, g), [])
      else if py_strip rid = [] then ((Raised Blank, g), [])
      else case first_error id [check_actor actor, check_inputs inputs] of
        Inl e \<Rightarrow> ((Raised e, g), [])
      | Inr _ \<Rightarrow>
          if \<not> lock_free then ((Raised Lock_Held, g), [])
          else
     (case get_recoverable rid g of
        Inl e \<Rightarrow> ((Raised e, g), [])
      | Inr stored \<Rightarrow>
          if rr_input_digest stored \<noteq> input_digest sha inputs then ((Raised Inputs_Changed, g), [])
          else if rr_actor stored \<noteq> actor then ((Raised Actor_Changed, g), [])
          else
     (case get_definition (rr_workflow stored) (rr_version stored) g of
        Inl e \<Rightarrow> ((Raised e, g), [])
      | Inr d \<Rightarrow>
          if definition_digest sha d \<noteq> rr_definition_digest stored then ((Raised Definition_Changed, g), [])
          else if \<not> same_dict (ops_binding ex d) (rr_binding stored) then ((Raised Versions_Changed, g), [])
          else if rr_status stored = ''COMPLETED'' then ((Returned stored, g), [])
          else if rr_status stored \<noteq> ''INDETERMINATE'' then ((Raised (Not_Resumable (rr_status stored)), g), [])
          else
     (case topological_order d of
        Inl e \<Rightarrow> ((Raised e, g), [])
      | Inr order \<Rightarrow>
          if life = 0 then ((Killed, g), [])
          else (case persist stored ''RUNNING'' (rr_results stored) (clk (Suc life)) g of
              (Inl e, g') \<Rightarrow> ((Raised e, g'), [])
            | (Inr cur, g') \<Rightarrow> execute_remaining ex clk inputs actor (life - 1) order (rr_results stored)
                (done_outputs (rr_results stored)) cur g')))))"

text \<open>The marks of a reconciliation are as many durable writes; \<open>None\<close> is the kill of its process.\<close>

fun mark_all :: "(nat \<Rightarrow> int) \<Rightarrow> nat \<Rightarrow> rec_run list \<Rightarrow> wf_registry
    \<Rightarrow> (wf_error, rec_run list) res option \<times> wf_registry" where
  "mark_all clk life [] g = (Some (Inr []), g)"
| "mark_all clk life (r # rs) g =
     (if life = 0 then (None, g)
      else case persist r ''INDETERMINATE'' (rr_results r) (clk life) g of
        (Inl e, g') \<Rightarrow> (Some (Inl e), g')
      | (Inr r', g') \<Rightarrow>
          (case mark_all clk (life - 1) rs g' of
             (Some (Inr out), g'') \<Rightarrow> (Some (Inr (r' # out)), g'')
           | w \<Rightarrow> w))"

definition reconcile :: "bool \<Rightarrow> (nat \<Rightarrow> int) \<Rightarrow> nat \<Rightarrow> wf_registry
    \<Rightarrow> (wf_error, rec_run list) res option \<times> wf_registry" where
  "reconcile lock_free clk life g =
     (if rg_path g = '':memory:'' then (Some (Inl Memory_Rejected), g)
      else if \<not> lock_free then (Some (Inl Lock_Held), g)
      else mark_all clk life (list_recoverable (Some ''RUNNING'') g) g)"

definition inspect_recoverable :: "str \<Rightarrow> wf_registry \<Rightarrow> (wf_error, rec_run) res" where
  "inspect_recoverable rid g =
     (if py_strip rid = [] then Inl Blank
      else if rg_path g = '':memory:'' then Inl Memory_Rejected else get_recoverable rid g)"

section \<open>What a durable write keeps\<close>

definition ok_of :: "results \<Rightarrow> str \<Rightarrow> step_result option" where
  "ok_of rs i = (case map_of rs i of None \<Rightarrow> None | Some e \<Rightarrow> if entry_ok e then Some e else None)"

definition ok_stored :: "str \<Rightarrow> str \<Rightarrow> wf_registry \<Rightarrow> step_result option" where
  "ok_stored rid i g = (case stored_recoverable rid g of None \<Rightarrow> None | Some r \<Rightarrow> ok_of (rr_results r) i)"

lemma ok_of_sort [simp]: "ok_of (sort_key fst rs) i = ok_of rs i"
  by (simp add: ok_of_def)

lemma ok_of_update:
  "ok_of (AList.update k e rs) i = (if i = k then (if entry_ok e then Some e else None) else ok_of rs i)"
  by (simp add: ok_of_def)

lemma is_done_ok: "is_done rs s \<longleftrightarrow> ok_of rs (st_id s) \<noteq> None"
  by (auto simp: is_done_def ok_of_def split: option.splits)

text \<open>The primary key of the table.\<close>

definition run_ids_ok :: "wf_registry \<Rightarrow> bool" where
  "run_ids_ok g = distinct (map rr_id (rg_recoverable g))"

lemma stored_iff: "run_ids_ok g \<Longrightarrow> r \<in> set (rg_recoverable g) \<Longrightarrow> stored_recoverable (rr_id r) g = Some r"
  unfolding run_ids_ok_def stored_recoverable_def
proof (induction "rg_recoverable g" arbitrary: g)
  case (Cons x xs)
  from Cons.hyps(1) [of "g\<lparr>rg_recoverable := xs\<rparr>"] Cons.prems Cons.hyps(2) [symmetric] show ?case
    by (auto simp: image_iff)
qed simp

lemma record_recoverable_ids: "record_recoverable r g = (w, g') \<Longrightarrow> run_ids_ok g \<Longrightarrow> run_ids_ok g'"
  by (auto simp: record_recoverable_def run_ids_ok_def rec_row_def distinct_map_filter split: if_splits)

lemma record_recoverable_Inr:
  assumes "record_recoverable r g = (Inr r', g')"
  shows "r' = r" "stored_recoverable rid g' = (if rid = rr_id r then Some (rec_row r) else stored_recoverable rid g)"
    "rg_definitions g' = rg_definitions g" "rg_path g' = rg_path g"
  using assms by (auto simp: record_recoverable_def stored_recoverable_def find_append find_replaced rec_row_def
    split: if_splits option.splits)

lemma record_recoverable_Inl: "record_recoverable r g = (Inl e, g') \<Longrightarrow> g' = g"
  by (auto simp: record_recoverable_def split: if_splits)

text \<open>A write of the run \<open>k\<close> that leaves its ok entries as they are in \<open>rs\<close>.\<close>

definition kept :: "str \<Rightarrow> results \<Rightarrow> wf_registry \<Rightarrow> wf_registry \<Rightarrow> bool" where
  "kept k rs g g' \<longleftrightarrow> (\<forall>i e. ok_of rs i = Some e \<longrightarrow> ok_stored k i g' = Some e)
     \<and> (\<forall>rid. rid \<noteq> k \<longrightarrow> stored_recoverable rid g' = stored_recoverable rid g)
     \<and> rg_definitions g' = rg_definitions g \<and> rg_path g' = rg_path g \<and> (run_ids_ok g \<longrightarrow> run_ids_ok g')"

lemma kept_refl: "(\<And>i. ok_stored k i g = ok_of rs i) \<Longrightarrow> kept k rs g g"
  by (simp add: kept_def)

lemma kept_trans: "kept k rs g g' \<Longrightarrow> kept k rs' g' g'' \<Longrightarrow> (\<And>i e. ok_of rs i = Some e \<Longrightarrow> ok_of rs' i = Some e) \<Longrightarrow> kept k rs g g''"
  by (simp add: kept_def)

lemma persist_Inr:
  assumes "persist base st rs now g = (Inr r, g')"
  shows "rr_id r = rr_id base" "rr_status r = st" "rr_results r = rs" "kept (rr_id base) rs g g'"
    "ok_stored (rr_id base) i g' = ok_of rs i"
  using assms record_recoverable_Inr [of _ g r g'] record_recoverable_ids [of _ g "Inr r" g'] unfolding persist_def
  by (fastforce simp: kept_def ok_stored_def rec_row_def)+

lemma persist_Inl: "persist base st rs now g = (Inl e, g') \<Longrightarrow> g' = g"
  unfolding persist_def by (rule record_recoverable_Inl)

lemma last_write_kept:
  assumes "last_write life base st rs now g = (fin, g')" "\<And>i. ok_stored (rr_id base) i g = ok_of rs i"
  shows "kept (rr_id base) rs g g'"
proof (cases "life = 0")
  case True
  then show ?thesis using assms kept_refl by (auto simp: last_write_def)
next
  case False
  obtain w g1 where w: "persist base st rs now g = (w, g1)" by (cases "persist base st rs now g")
  then have "g1 = g'" using assms(1) False by (auto simp: last_write_def finishing_def split: sum.splits)
  with w show ?thesis using persist_Inl persist_Inr(4) kept_refl [OF assms(2)] by (cases w) blast+
qed

lemma kept_same_ok: "kept k rs' g g' \<Longrightarrow> (\<And>i. ok_of rs' i = ok_of rs i) \<Longrightarrow> kept k rs g g'"
  by (simp add: kept_def)

lemma kept_grow: "kept k rs' g g' \<Longrightarrow> (\<And>i e. ok_of rs i = Some e \<Longrightarrow> ok_of rs' i = Some e) \<Longrightarrow> kept k rs g g'"
  by (simp add: kept_def)

section \<open>The loop over the remaining steps\<close>

text \<open>What the loop promises from results \<open>rs\<close> over the steps \<open>ss\<close>.\<close>

definition callable :: "executor \<Rightarrow> str \<Rightarrow> wf_step \<Rightarrow> bool" where
  "callable ex actor s \<longleftrightarrow> ex_operations ex (st_operation s) \<noteq> None
     \<and> st_operation s \<in> set (ex_replay_safe ex) \<and> denied_permission ex actor s = None"

definition calls_ok :: "executor \<Rightarrow> str \<Rightarrow> wf_step list \<Rightarrow> results \<Rightarrow> str list \<Rightarrow> bool" where
  "calls_ok ex actor ss rs calls \<longleftrightarrow> distinct calls
     \<and> (\<forall>i \<in> set calls. ok_of rs i = None \<and> (\<exists>s \<in> set ss. st_id s = i \<and> callable ex actor s))"

definition finish_ok :: "wf_step list \<Rightarrow> finish \<Rightarrow> bool" where
  "finish_ok ss fin \<longleftrightarrow> (\<forall>r. fin = Returned r \<longrightarrow> rr_status r = ''COMPLETED'' \<longrightarrow> (\<forall>s \<in> set ss. is_done (rr_results r) s))"

lemma calls_ok_Nil [simp]: "calls_ok ex actor ss rs []"
  by (simp add: calls_ok_def)

lemma calls_ok_Cons:
  assumes "calls_ok ex actor ss (AList.update (st_id s) e rs) calls" "entry_ok e" "ok_of rs (st_id s) = None"
    "callable ex actor s"
  shows "calls_ok ex actor (s # ss) rs (st_id s # calls)"
proof -
  have "ok_of rs i = None \<and> i \<noteq> st_id s" if "i \<in> set calls" for i
    using assms(1,2) that by (auto simp: calls_ok_def ok_of_update split: if_splits)
  then show ?thesis using assms by (auto simp: calls_ok_def)
qed

lemma last_write_Returned: "last_write life base st rs now g = (Returned r, g') \<Longrightarrow> persist base st rs now g = (Inr r, g')"
  by (auto simp: last_write_def finishing_def split: if_splits sum.splits prod.splits)

lemma last_write_finish: "last_write life base st rs now g = (fin, g') \<Longrightarrow> st \<noteq> ''COMPLETED'' \<Longrightarrow> finish_ok ss fin"
  by (auto simp: finish_ok_def dest!: last_write_Returned persist_Inr(2))

lemma last_write_result:
  "last_write life base st rs now g = (fin, g') \<Longrightarrow> fin = Returned r \<Longrightarrow> rr_id r = rr_id base \<and> rr_results r = rs"
  by (blast dest: last_write_Returned persist_Inr(1,3))

text \<open>The loop on a step that is done, one that is refused or denied, and one that is called.\<close>

lemma exec_done:
  "is_done rs s \<Longrightarrow> execute_remaining ex clk inputs actor life (s # ss) rs outs cur g =
     execute_remaining ex clk inputs actor life ss rs outs cur g"
  by simp

lemma exec_refused:
  assumes "\<not> is_done rs s" "\<not> callable ex actor s"
  shows "\<exists>e st. \<not> entry_ok e \<and> st \<noteq> ''COMPLETED'' \<and> (step_short s \<longrightarrow> entry_small e)
    \<and> execute_remaining ex clk inputs actor life (s # ss) rs outs cur g =
        (last_write life cur st (AList.update (st_id s) e rs) (clk life) g, [])"
proof (cases "ex_operations ex (st_operation s) = None \<or> st_operation s \<notin> set (ex_replay_safe ex)")
  case True
  have "entry_small refused_entry" by code_simp
  then show ?thesis using assms(1) True
    by (intro exI [of _ refused_entry] exI [of _ "''INDETERMINATE''"]) (auto simp: refused_entry_def entry_ok_def)
next
  case False
  then obtain perm where perm: "denied_permission ex actor s = Some perm" using assms(2) by (auto simp: callable_def)
  then have "length perm \<le> 128" if "step_short s"
    using that by (auto simp: denied_permission_def step_short_def list_all_iff dest: find_SomeD)
  then have "step_short s \<longrightarrow> entry_small (failed_entry (''permission denied: '' @ perm))"
    by (auto intro!: failed_entry_small)
  then show ?thesis using assms(1) False perm
    by (intro exI [of _ "failed_entry (''permission denied: '' @ perm)"] exI [of _ "''FAILED''"])
       (auto simp: failed_entry_def entry_ok_def)
qed

definition called_entry :: "executor \<Rightarrow> (str \<times> json) list \<Rightarrow> outputs \<Rightarrow> wf_step
    \<Rightarrow> (wf_error, step_result) res" where
  "called_entry ex inputs outs s = recoverable_entry (case ex_operations ex (st_operation s) of
     None \<Rightarrow> Op_Raises [] | Some op \<Rightarrow> op inputs outs)"

lemma exec_call:
  assumes "\<not> is_done rs s" "callable ex actor s"
  shows "execute_remaining ex clk inputs actor life (s # ss) rs outs cur g =
    (if life = 0 then ((Killed, g), [])
     else (case persist cur ''RUNNING'' (AList.update (st_id s) running_entry rs) (clk life) g of
         (Inl e, g') \<Rightarrow> ((Raised e, g'), [])
       | (Inr cur', g') \<Rightarrow>
           (case called_entry ex inputs outs s of
              Inl err \<Rightarrow> ((Raised err, g'), [st_id s])
            | Inr e \<Rightarrow>
                let rs' = AList.update (st_id s) e rs
                in if \<not> entry_ok e then (last_write (life - 1) cur' ''FAILED'' rs' (clk (life - 1)) g', [st_id s])
                   else if life - 1 = 0 then ((Killed, g'), [st_id s])
                   else (case persist cur' ''RUNNING'' rs' (clk (life - 1)) g' of
                       (Inl err, g'') \<Rightarrow> ((Raised err, g''), [st_id s])
                     | (Inr cur'', g'') \<Rightarrow>
                         (case execute_remaining ex clk inputs actor (life - 2) ss rs'
                             (AList.update (st_id s) (sr_output e) outs) cur'' g'' of
                            (fin, calls) \<Rightarrow> (fin, st_id s # calls))))))"
  using assms unfolding callable_def called_entry_def by (auto simp: Let_def)

declare execute_remaining.simps(2) [simp del]

definition loop_ok :: "executor \<Rightarrow> str \<Rightarrow> wf_step list \<Rightarrow> results \<Rightarrow> rec_run \<Rightarrow> wf_registry \<Rightarrow> finish \<Rightarrow> wf_registry
    \<Rightarrow> str list \<Rightarrow> bool" where
  "loop_ok ex actor ss rs cur g fin g' calls \<longleftrightarrow> kept (rr_id cur) rs g g' \<and> calls_ok ex actor ss rs calls
     \<and> (\<forall>r. fin = Returned r \<longrightarrow> rr_id r = rr_id cur \<and> (\<forall>i e. ok_of rs i = Some e \<longrightarrow> ok_of (rr_results r) i = Some e))
     \<and> finish_ok ss fin"

lemma loop_okI:
  "kept (rr_id cur) rs g g' \<Longrightarrow> calls_ok ex actor ss rs calls
   \<Longrightarrow> (\<And>r i e. fin = Returned r \<Longrightarrow> ok_of rs i = Some e \<Longrightarrow> ok_of (rr_results r) i = Some e)
   \<Longrightarrow> (\<And>r. fin = Returned r \<Longrightarrow> rr_id r = rr_id cur) \<Longrightarrow> finish_ok ss fin
   \<Longrightarrow> loop_ok ex actor ss rs cur g fin g' calls"
  unfolding loop_ok_def by blast

lemma loop_okD:
  assumes "loop_ok ex actor ss rs cur g fin g' calls"
  shows "kept (rr_id cur) rs g g'" "calls_ok ex actor ss rs calls"
    "fin = Returned r \<Longrightarrow> rr_id r = rr_id cur"
    "fin = Returned r \<Longrightarrow> ok_of rs i = Some e \<Longrightarrow> ok_of (rr_results r) i = Some e" "finish_ok ss fin"
  using assms by (simp_all add: loop_ok_def)

lemma loop_stopped:
  "kept (rr_id cur) rs g g' \<Longrightarrow> calls_ok ex actor ss rs calls \<Longrightarrow> \<nexists>r. fin = Returned r
   \<Longrightarrow> loop_ok ex actor ss rs cur g fin g' calls"
  by (simp add: loop_ok_def finish_ok_def)

lemma loop_ended:
  assumes "execute_remaining ex clk inputs actor life [] rs outs cur g = ((fin, g'), calls)"
    "\<And>i. ok_stored (rr_id cur) i g = ok_of rs i"
  shows "loop_ok ex actor [] rs cur g fin g' calls"
proof -
  have idle: "kept (rr_id cur) rs g g" by (rule kept_refl [OF assms(2)])
  obtain w g1 where w: "persist cur ''COMPLETED'' rs (clk life) g = (w, g1)" by (cases "persist cur ''COMPLETED'' rs (clk life) g")
  obtain w2 g2 where w2: "persist cur ''FAILED'' rs (clk (life - 1)) g = (w2, g2)" by (cases "persist cur ''FAILED'' rs (clk (life - 1)) g")
  have after: "kept (rr_id cur) rs g g2" using w2 persist_Inl persist_Inr(4) idle by (cases w2) blast+
  have calls: "calls = []" using assms(1) w by (auto split: if_splits sum.splits)
  show ?thesis
  proof (cases "\<exists>r. fin = Returned r")
    case True
    then obtain r where r: "fin = Returned r" by blast
    then have "w = Inr r" "g1 = g'" using assms(1) w by (auto split: if_splits sum.splits)
    from persist_Inr [OF w [unfolded this]] show ?thesis
      using r calls by (auto intro!: loop_okI simp: finish_ok_def)
  next
    case False
    then have "g' = g \<or> isl w \<and> (g' = g1 \<or> g' = snd (persist cur ''FAILED'' rs (clk (life - 1)) g1))"
      using assms(1) w by (cases w) (auto split: if_splits)
    moreover have "g1 = g" if "isl w" using w that persist_Inl by (cases w) auto
    ultimately have "g' = g \<or> g' = g2" using w2 by auto
    then show ?thesis using loop_stopped idle after False calls by auto
  qed
qed

lemma loop_skipped:
  assumes "loop_ok ex actor ss rs cur g fin g' calls" "is_done rs s"
  shows "loop_ok ex actor (s # ss) rs cur g fin g' calls"
proof -
  note L = loop_okD [OF assms(1)]
  have "is_done (rr_results r) s" if "fin = Returned r" for r
    using assms(2) L(4) [OF that] by (auto simp: is_done_ok)
  then have "finish_ok (s # ss) fin" using L(5) by (simp add: finish_ok_def)
  moreover have "calls_ok ex actor (s # ss) rs calls" using L(2) unfolding calls_ok_def by simp
  ultimately show ?thesis using L(1,3,4) by (intro loop_okI)
qed

lemma ok_of_update_bad: "\<not> entry_ok e \<Longrightarrow> ok_of rs k = None \<Longrightarrow> ok_of (AList.update k e rs) i = ok_of rs i"
  by (simp add: ok_of_update)

text \<open>The loop ends with a write that leaves the ok entries as they are.\<close>

lemma loop_bad_write:
  assumes "last_write life base st (AList.update k e rs) now g1 = (fin, g')"
    "\<not> entry_ok e" "ok_of rs k = None" "st \<noteq> ''COMPLETED''" "calls_ok ex actor ss rs calls" "rr_id base = rr_id cur"
    "kept (rr_id cur) rs g g1" "\<And>i. ok_stored (rr_id base) i g1 = ok_of rs i"
  shows "loop_ok ex actor ss rs cur g fin g' calls"
proof -
  note bad = ok_of_update_bad [OF assms(2,3)]
  have "ok_stored (rr_id base) i g1 = ok_of (AList.update k e rs) i" for i using assms(8) bad by simp
  note last_write_kept [OF assms(1) this]
  from kept_trans [OF assms(7) this [unfolded assms(6)]] have "kept (rr_id cur) rs g g'" using bad by simp
  moreover have "rr_id r = rr_id cur" if "fin = Returned r" for r
    using last_write_result [OF assms(1) that] assms(6) by simp
  moreover have "ok_of (rr_results r) i = Some x" if "fin = Returned r" "ok_of rs i = Some x" for r i x
    using last_write_result [OF assms(1) that(1)] bad that(2) by simp
  moreover have "finish_ok ss fin" by (rule last_write_finish [OF assms(1,4)])
  ultimately show ?thesis using assms(5) by (intro loop_okI)
qed

lemma loop_refused:
  assumes "execute_remaining ex clk inputs actor life (s # ss) rs outs cur g = ((fin, g'), calls)"
    "\<And>i. ok_stored (rr_id cur) i g = ok_of rs i" "\<not> is_done rs s" "\<not> callable ex actor s"
  shows "loop_ok ex actor (s # ss) rs cur g fin g' calls"
proof -
  obtain e st where e: "\<not> entry_ok e" "st \<noteq> ''COMPLETED''"
    "last_write life cur st (AList.update (st_id s) e rs) (clk life) g = (fin, g')" "calls = []"
    using assms(1) exec_refused [OF assms(3,4), of clk inputs life ss outs cur g] by fastforce
  have "ok_of rs (st_id s) = None" using assms(3) by (simp add: is_done_ok)
  from loop_bad_write [OF e(3,1) this e(2) calls_ok_Nil refl kept_refl [OF assms(2)] assms(2)]
  show ?thesis unfolding e(4) .
qed

text \<open>The second write of a step whose operation ended well, and the loop after it.\<close>

lemma loop_second_write:
  assumes "(if life - 1 = 0 then ((Killed, g1), [st_id s])
      else (case persist cur1 ''RUNNING'' (AList.update (st_id s) e rs) (clk (life - 1)) g1 of
          (Inl err, g'') \<Rightarrow> ((Raised err, g''), [st_id s])
        | (Inr cur'', g'') \<Rightarrow>
            (case execute_remaining ex clk inputs actor (life - 2) ss (AList.update (st_id s) e rs)
                (AList.update (st_id s) (sr_output e) outs) cur'' g'' of
               (fin, calls) \<Rightarrow> (fin, st_id s # calls)))) = ((fin, g'), calls)"
    and "kept (rr_id cur) rs g g1" "rr_id cur1 = rr_id cur" "entry_ok e"
    "ok_of rs (st_id s) = None" "callable ex actor s" "calls_ok ex actor (s # ss) rs [st_id s]"
    and rest: "\<And>life rs outs cur g fin g' calls.
      execute_remaining ex clk inputs actor life ss rs outs cur g = ((fin, g'), calls)
      \<Longrightarrow> (\<And>i. ok_stored (rr_id cur) i g = ok_of rs i) \<Longrightarrow> loop_ok ex actor ss rs cur g fin g' calls"
  shows "loop_ok ex actor (s # ss) rs cur g fin g' calls"
proof -
  let ?r2 = "AList.update (st_id s) e rs"
  have grow: "ok_of ?r2 i = Some x" if "ok_of rs i = Some x" for i x using that assms(5) by (auto simp: ok_of_update)
  obtain w g2 where w: "persist cur1 ''RUNNING'' ?r2 (clk (life - 1)) g1 = (w, g2)"
    by (cases "persist cur1 ''RUNNING'' ?r2 (clk (life - 1)) g1")
  show ?thesis
  proof (cases "life - 1 = 0 \<or> isl w")
    case True
    then have "g' = g1 \<or> g' = g2 \<and> isl w" "\<nexists>r. fin = Returned r" "calls = [st_id s]"
      using assms(1) w by (cases w; auto split: if_splits)+
    moreover have "g2 = g1" if "isl w" using w that persist_Inl by (cases w) auto
    ultimately show ?thesis using assms(2,7) by (auto intro: loop_stopped)
  next
    case False
    then obtain cur2 where "w = Inr cur2" by (cases w) auto
    note w = w [unfolded this]
    note p = persist_Inr [OF w]
    obtain calls' where run: "execute_remaining ex clk inputs actor (life - 2) ss ?r2
        (AList.update (st_id s) (sr_output e) outs) cur2 g2 = ((fin, g'), calls')" "calls = st_id s # calls'"
      using assms(1) w False by (auto split: prod.splits)
    have "ok_stored (rr_id cur2) i g2 = ok_of ?r2 i" for i using p(1,5) by simp
    note L = loop_okD [OF rest [OF run(1) this], unfolded p(1) assms(3)]
    have "kept (rr_id cur) rs g g2" using kept_trans [OF assms(2) kept_grow [OF p(4) grow, unfolded assms(3)]] by blast
    then have "kept (rr_id cur) rs g g'" using kept_trans [OF _ L(1)] grow by blast
    moreover have "calls_ok ex actor (s # ss) rs calls"
      unfolding run(2) by (rule calls_ok_Cons [OF L(2) assms(4-6)])
    moreover have "is_done (rr_results r) s" if "fin = Returned r" for r
      using L(4) [OF that, of "st_id s" e] assms(4) by (simp add: is_done_ok ok_of_update)
    then have "finish_ok (s # ss) fin" using L(5) by (simp add: finish_ok_def)
    moreover have "ok_of (rr_results r) i = Some x" if "fin = Returned r" "ok_of rs i = Some x" for r i x
      by (rule L(4) [OF that(1) grow [OF that(2)]])
    ultimately show ?thesis using L(3) by (intro loop_okI)
  qed
qed

lemma loop_called:
  assumes "execute_remaining ex clk inputs actor life (s # ss) rs outs cur g = ((fin, g'), calls)"
    "\<And>i. ok_stored (rr_id cur) i g = ok_of rs i" "\<not> is_done rs s" "callable ex actor s"
    and rest: "\<And>life rs outs cur g fin g' calls.
      execute_remaining ex clk inputs actor life ss rs outs cur g = ((fin, g'), calls)
      \<Longrightarrow> (\<And>i. ok_stored (rr_id cur) i g = ok_of rs i) \<Longrightarrow> loop_ok ex actor ss rs cur g fin g' calls"
  shows "loop_ok ex actor (s # ss) rs cur g fin g' calls"
proof -
  note eq = exec_call [OF assms(3,4)]
  have fresh: "ok_of rs (st_id s) = None" using assms(3) by (simp add: is_done_ok)
  have call: "calls_ok ex actor (s # ss) rs [st_id s]" using fresh assms(4) by (simp add: calls_ok_def)
  have idle: "kept (rr_id cur) rs g g" by (rule kept_refl [OF assms(2)])
  let ?r1 = "AList.update (st_id s) running_entry rs"
  obtain w0 g1 where w0: "persist cur ''RUNNING'' ?r1 (clk life) g = (w0, g1)" by (cases "persist cur ''RUNNING'' ?r1 (clk life) g")
  show ?thesis
  proof (cases "life = 0 \<or> isl w0")
    case True
    then have "g' = g \<or> g' = g1 \<and> isl w0" "\<nexists>r. fin = Returned r" "calls = []"
      using assms(1) w0 unfolding eq by (cases w0; auto split: if_splits)+
    moreover have "g1 = g" if "isl w0" using w0 that persist_Inl by (cases w0) auto
    ultimately show ?thesis using idle by (auto intro: loop_stopped)
  next
    case False
    then obtain cur1 where "w0 = Inr cur1" by (cases w0) auto
    note w1 = w0 [unfolded this]
    note p1 = persist_Inr [OF w1]
    have bad: "ok_of ?r1 i = ok_of rs i" for i
      by (rule ok_of_update_bad [OF _ fresh]) (simp add: running_entry_def entry_ok_def)
    have k1: "kept (rr_id cur) rs g g1" by (rule kept_same_ok [OF p1(4) bad])
    have ok1: "ok_stored (rr_id cur1) i g1 = ok_of rs i" for i using p1(1,5) bad by simp
    show ?thesis
    proof (cases "called_entry ex inputs outs s")
      case (Inl err)
      then have "g' = g1" "calls = [st_id s]" "\<nexists>r. fin = Returned r"
        using assms(1) w1 \<open>\<not> (life = 0 \<or> isl w0)\<close> unfolding eq by auto
      then show ?thesis using k1 call by (auto intro: loop_stopped)
    next
      case e: (Inr e)
      let ?r2 = "AList.update (st_id s) e rs"
      show ?thesis
      proof (cases "entry_ok e")
        case False
        then have lw: "last_write (life - 1) cur1 ''FAILED'' ?r2 (clk (life - 1)) g1 = (fin, g')" "calls = [st_id s]"
          using assms(1) w1 e \<open>\<not> (life = 0 \<or> isl w0)\<close> unfolding eq by (auto simp: Let_def)
        show ?thesis unfolding lw(2) by (rule loop_bad_write [OF lw(1) False fresh _ call p1(1) k1 ok1]) simp
      next
        case True
        then have "(if life - 1 = 0 then ((Killed, g1), [st_id s])
            else (case persist cur1 ''RUNNING'' ?r2 (clk (life - 1)) g1 of
                (Inl err, g'') \<Rightarrow> ((Raised err, g''), [st_id s])
              | (Inr cur'', g'') \<Rightarrow>
                  (case execute_remaining ex clk inputs actor (life - 2) ss ?r2
                      (AList.update (st_id s) (sr_output e) outs) cur'' g'' of
                     (fin, calls) \<Rightarrow> (fin, st_id s # calls)))) = ((fin, g'), calls)"
          using assms(1) w1 e \<open>\<not> (life = 0 \<or> isl w0)\<close> unfolding eq by (simp add: Let_def)
        then show ?thesis by (rule loop_second_write [OF _ k1 p1(1) True fresh assms(4) call rest])
      qed
    qed
  qed
qed

lemma execute_remaining_keeps:
  "execute_remaining ex clk inputs actor life ss rs outs cur g = ((fin, g'), calls)
   \<Longrightarrow> (\<And>i. ok_stored (rr_id cur) i g = ok_of rs i) \<Longrightarrow> loop_ok ex actor ss rs cur g fin g' calls"
proof (induction ss arbitrary: life rs outs cur g fin g' calls)
  case Nil
  then show ?case by (rule loop_ended)
next
  case (Cons s ss)
  show ?case
  proof (cases "is_done rs s")
    case True
    then have "execute_remaining ex clk inputs actor life ss rs outs cur g = ((fin, g'), calls)"
      using Cons.prems(1) exec_done by metis
    from loop_skipped [OF Cons.IH [OF this Cons.prems(2)] True] show ?thesis .
  next
    case False
    show ?thesis
    proof (cases "callable ex actor s")
      case True
      show ?thesis by (rule loop_called [OF Cons.prems False True Cons.IH])
    next
      case no: False
      show ?thesis by (rule loop_refused [OF Cons.prems False no])
    qed
  qed
qed

section \<open>Sequences of operations, with kills\<close>

text \<open>The operations on one registry, by any processes; the log keeps the steps of recoverable
  runs whose operations were called.\<close>

datatype wf_op =
    Wf_Register wf_definition
  | Wf_Run executor str int int str str "(str \<times> json) list" str
  | Wf_Start executor bool str "nat \<Rightarrow> int" nat str str "(str \<times> json) list" str
  | Wf_Resume executor bool "nat \<Rightarrow> int" nat str "(str \<times> json) list" str
  | Wf_Reconcile bool "nat \<Rightarrow> int" nat

fun wf_step :: "(str \<Rightarrow> str) \<Rightarrow> wf_op \<Rightarrow> wf_registry \<times> (str \<times> str) list \<Rightarrow> wf_registry \<times> (str \<times> str) list" where
  "wf_step sha (Wf_Register d) (g, log) = (snd (register d g), log)"
| "wf_step sha (Wf_Run ex rid now1 now2 wid ver inputs actor) (g, log) =
     (snd (fst (run ex rid now1 now2 wid ver inputs actor g)), log)"
| "wf_step sha (Wf_Start ex free rid clk life wid ver inputs actor) (g, log) =
     (case run_recoverable sha ex free rid clk life wid ver inputs actor g of
        ((fin, g'), calls) \<Rightarrow> (g', log @ map (Pair rid) calls))"
| "wf_step sha (Wf_Resume ex free clk life rid inputs actor) (g, log) =
     (case resume sha ex free clk life rid inputs actor g of
        ((fin, g'), calls) \<Rightarrow> (g', log @ map (Pair rid) calls))"
| "wf_step sha (Wf_Reconcile free clk life) (g, log) = (snd (reconcile free clk life g), log)"

fun starts_run :: "wf_op \<Rightarrow> str option" where
  "starts_run (Wf_Start ex free rid clk life wid ver inputs actor) = Some rid"
| "starts_run _ = None"

lemma register_recoverable: "rg_recoverable (snd (register d g)) = rg_recoverable g"
  by (auto simp: register_def split: sum.splits)

lemma record_run_recoverable: "record_run r g = (w, g') \<Longrightarrow> rg_recoverable g' = rg_recoverable g"
  by (auto simp: record_run_def split: if_splits)

lemma record_run_rows [simp]: "rg_recoverable (snd (record_run r g)) = rg_recoverable g"
  by (cases "record_run r g") (auto dest: record_run_recoverable)

lemma run_recoverable_rows: "rg_recoverable (snd (fst (run ex rid now1 now2 wid ver inputs actor g))) = rg_recoverable g"
  unfolding run_def Let_def
  by (auto split: sum.split prod.split simp del: first_error.simps dest!: record_run_recoverable)

lemma ok_stored_rows: "rg_recoverable g' = rg_recoverable g \<Longrightarrow> ok_stored rid i g' = ok_stored rid i g"
  by (simp add: ok_stored_def stored_recoverable_def)

lemma ok_stored_other: "kept k rs g g' \<Longrightarrow> rid \<noteq> k \<Longrightarrow> ok_stored rid i g' = ok_stored rid i g"
  by (simp add: kept_def ok_stored_def)

text \<open>A recoverable execution and a resumption either stop before the loop, with nothing written,
  or run the loop from their first durable write.\<close>

lemma run_recoverable_cases:
  obtains (stopped) fin where "run_recoverable sha ex free k clk life wid ver inputs actor g = ((fin, g), [])"
      "\<nexists>r. fin = Returned r"
  | (entered) d order cur g1 where "get_definition wid ver g = Inr d" "topological_order d = Inr order"
      "record_recoverable (started_run sha ex k wid ver actor inputs d (clk (Suc life))) g = (Inr cur, g1)"
      "run_recoverable sha ex free k clk life wid ver inputs actor g =
         execute_remaining ex clk inputs actor (life - 1) order [] [] cur g1"
proof (cases "rg_path g = '':memory:''")
  case True
  then show ?thesis by (intro stopped [of "Raised Memory_Rejected"]) (simp_all add: run_recoverable_def)
next
  case durable: False
  show ?thesis
  proof (cases "first_error id [check_actor actor, check_inputs inputs]")
    case (Inl e)
    show ?thesis by (rule stopped [of "Raised e"]) (simp_all add: run_recoverable_def durable Inl del: first_error.simps)
  next
    case checked: (Inr u)
    show ?thesis
    proof (cases "get_definition wid ver g")
      case (Inl e)
      show ?thesis by (rule stopped [of "Raised e"]) (simp_all add: run_recoverable_def durable checked Inl del: first_error.simps)
    next
      case d: (Inr d)
      show ?thesis
      proof (cases "topological_order d")
        case (Inl e)
        show ?thesis by (rule stopped [of "Raised e"]) (simp_all add: run_recoverable_def durable checked d Inl del: first_error.simps)
      next
        case order: (Inr order)
        obtain w g1 where w: "record_recoverable (started_run sha ex k wid ver actor inputs d (clk (Suc life))) g = (w, g1)"
          by (cases "record_recoverable (started_run sha ex k wid ver actor inputs d (clk (Suc life))) g")
        note eq = run_recoverable_def durable checked d order w
        consider "\<not> free" | "free" "py_strip k = []" | "free" "py_strip k \<noteq> []" "life = 0"
          | e where "free" "py_strip k \<noteq> []" "life \<noteq> 0" "w = Inl e"
          | cur where "free" "py_strip k \<noteq> []" "life \<noteq> 0" "w = Inr cur" by (cases w) blast+
        then show ?thesis
        proof cases
          case 1
          then show ?thesis by (intro stopped [of "Raised Lock_Held"]) (simp_all add: eq del: first_error.simps)
        next
          case 2
          then show ?thesis by (intro stopped [of "Raised Blank"]) (simp_all add: eq del: first_error.simps)
        next
          case 3
          then show ?thesis by (intro stopped [of Killed]) (simp_all add: eq del: first_error.simps)
        next
          case 4
          then have "g1 = g" using w record_recoverable_Inl by blast
          then show ?thesis using 4
            by (intro stopped [of "Raised e"]) (simp_all add: eq del: first_error.simps)
        next
          case 5
          then show ?thesis using w by (intro entered [OF d order]) (simp_all add: eq del: first_error.simps)
        qed
      qed
    qed
  qed
qed

text \<open>What a run is bound to.\<close>

definition bound_to :: "(str \<Rightarrow> str) \<Rightarrow> executor \<Rightarrow> (str \<times> json) list \<Rightarrow> str \<Rightarrow> wf_definition \<Rightarrow> rec_run \<Rightarrow> bool" where
  "bound_to sha ex inputs actor d r \<longleftrightarrow> rr_input_digest r = input_digest sha inputs \<and> rr_actor r = actor
     \<and> rr_definition_digest r = definition_digest sha d \<and> same_dict (ops_binding ex d) (rr_binding r)"

text \<open>The refusal of a resumption whose binding does not match.\<close>

definition binding_refusal :: "(str \<Rightarrow> str) \<Rightarrow> (str \<times> json) list \<Rightarrow> str \<Rightarrow> wf_definition \<Rightarrow> rec_run \<Rightarrow> wf_error" where
  "binding_refusal sha inputs actor d r =
     (if rr_input_digest r \<noteq> input_digest sha inputs then Inputs_Changed
      else if rr_actor r \<noteq> actor then Actor_Changed
      else if definition_digest sha d \<noteq> rr_definition_digest r then Definition_Changed else Versions_Changed)"

lemma resume_eq:
  assumes "rg_path g \<noteq> '':memory:''" "py_strip k \<noteq> []" "first_error id [check_actor actor, check_inputs inputs] = Inr u"
    "free" "stored_recoverable k g = Some r" "get_definition (rr_workflow r) (rr_version r) g = Inr d"
  shows "resume sha ex free clk life k inputs actor g =
    (if \<not> bound_to sha ex inputs actor d r then ((Raised (binding_refusal sha inputs actor d r), g), [])
     else if rr_status r = ''COMPLETED'' then ((Returned r, g), [])
     else if rr_status r \<noteq> ''INDETERMINATE'' then ((Raised (Not_Resumable (rr_status r)), g), [])
     else case topological_order d of
         Inl e \<Rightarrow> ((Raised e, g), [])
       | Inr order \<Rightarrow>
           if life = 0 then ((Killed, g), [])
           else (case persist r ''RUNNING'' (rr_results r) (clk (Suc life)) g of
               (Inl e, g') \<Rightarrow> ((Raised e, g'), [])
             | (Inr cur, g') \<Rightarrow> execute_remaining ex clk inputs actor (life - 1) order (rr_results r)
                 (done_outputs (rr_results r)) cur g'))"
  using assms by (simp add: resume_def get_recoverable_def bound_to_def binding_refusal_def del: first_error.simps)

lemma resume_bound_cases:
  assumes "rg_path g \<noteq> '':memory:''" "py_strip k \<noteq> []" "first_error id [check_actor actor, check_inputs inputs] = Inr u"
    "free" "stored_recoverable k g = Some r" "get_definition (rr_workflow r) (rr_version r) g = Inr d"
  obtains (stopped) fin where "resume sha ex free clk life k inputs actor g = ((fin, g), [])"
      "\<And>r. fin = Returned r \<Longrightarrow> stored_recoverable k g = Some r \<and> rr_status r = ''COMPLETED''"
  | (entered) order cur g1 where "topological_order d = Inr order"
      "bound_to sha ex inputs actor d r" "rr_status r = ''INDETERMINATE''"
      "persist r ''RUNNING'' (rr_results r) (clk (Suc life)) g = (Inr cur, g1)"
      "resume sha ex free clk life k inputs actor g =
         execute_remaining ex clk inputs actor (life - 1) order (rr_results r) (done_outputs (rr_results r)) cur g1"
proof -
  note eq = resume_eq [OF assms]
  obtain w g1 where w: "persist r ''RUNNING'' (rr_results r) (clk (Suc life)) g = (w, g1)"
    by (cases "persist r ''RUNNING'' (rr_results r) (clk (Suc life)) g")
  consider "\<not> bound_to sha ex inputs actor d r"
    | "bound_to sha ex inputs actor d r" "rr_status r = ''COMPLETED''"
    | "bound_to sha ex inputs actor d r" "rr_status r \<noteq> ''COMPLETED''" "rr_status r \<noteq> ''INDETERMINATE''"
    | e where "bound_to sha ex inputs actor d r" "rr_status r = ''INDETERMINATE''" "topological_order d = Inl e"
    | order where "bound_to sha ex inputs actor d r" "rr_status r = ''INDETERMINATE''" "topological_order d = Inr order"
    by (cases "topological_order d") blast+
  then show ?thesis
  proof cases
    case 1
    then show ?thesis by (intro stopped [of "Raised (binding_refusal sha inputs actor d r)"]) (simp_all add: eq)
  next
    case 2
    then show ?thesis using assms(5) by (intro stopped [of "Returned r"]) (simp_all add: eq)
  next
    case 3
    then show ?thesis by (intro stopped [of "Raised (Not_Resumable (rr_status r))"]) (simp_all add: eq)
  next
    case 4
    then show ?thesis by (intro stopped [of "Raised e"]) (simp_all add: eq)
  next
    case 5
    show ?thesis
    proof (cases "life = 0 \<or> isl w")
      case True
      have "g1 = g" if "isl w" using w that persist_Inl by (cases w) auto
      then show ?thesis using 5 w True
        by (intro stopped [of "if life = 0 then Killed else Raised (projl w)"]) (auto simp: eq split: sum.splits if_splits)
    next
      case False
      then obtain cur where "w = Inr cur" by (cases w) auto
      then show ?thesis using 5 w False by (intro entered [of order cur g1]) (simp_all add: eq)
    qed
  qed
qed

lemma resume_cases:
  obtains (stopped) fin where "resume sha ex free clk life k inputs actor g = ((fin, g), [])"
      "\<And>r. fin = Returned r \<Longrightarrow> stored_recoverable k g = Some r \<and> rr_status r = ''COMPLETED''"
  | (entered) stored d order cur g1 where "stored_recoverable k g = Some stored"
      "get_definition (rr_workflow stored) (rr_version stored) g = Inr d" "topological_order d = Inr order"
      "bound_to sha ex inputs actor d stored" "rr_status stored = ''INDETERMINATE''" "free"
      "persist stored ''RUNNING'' (rr_results stored) (clk (Suc life)) g = (Inr cur, g1)"
      "resume sha ex free clk life k inputs actor g =
         execute_remaining ex clk inputs actor (life - 1) order (rr_results stored) (done_outputs (rr_results stored)) cur g1"
proof (cases "rg_path g = '':memory:'' \<or> py_strip k = []")
  case True
  then show ?thesis by (intro stopped [of "Raised (if rg_path g = '':memory:'' then Memory_Rejected else Blank)"]) (auto simp: resume_def)
next
  case durable: False
  show ?thesis
  proof (cases "first_error id [check_actor actor, check_inputs inputs]")
    case (Inl e)
    show ?thesis by (rule stopped [of "Raised e"]) (use durable in \<open>simp_all add: resume_def Inl del: first_error.simps\<close>)
  next
    case checked: (Inr u)
    show ?thesis
    proof (cases "free \<and> stored_recoverable k g \<noteq> None")
      case False
      then show ?thesis
        by (intro stopped [of "Raised (if free then Unknown_Run else Lock_Held)"])
          (use durable in \<open>auto simp: resume_def checked get_recoverable_def simp del: first_error.simps\<close>)
    next
      case True
      then obtain r where r: "stored_recoverable k g = Some r" by auto
      note base = resume_def checked get_recoverable_def r
      show ?thesis
      proof (cases "get_definition (rr_workflow r) (rr_version r) g")
        case (Inl e)
        show ?thesis
          by (rule stopped [of "Raised (if rr_input_digest r \<noteq> input_digest sha inputs then Inputs_Changed
                else if rr_actor r \<noteq> actor then Actor_Changed else e)"])
             (use durable True in \<open>auto simp: base Inl simp del: first_error.simps\<close>)
      next
        case d: (Inr d)
        have pre: "rg_path g \<noteq> '':memory:''" "py_strip k \<noteq> []" "free" using durable True by auto
        show ?thesis
        proof (cases rule: resume_bound_cases [OF pre(1,2) checked pre(3) r d, of sha ex clk life, case_names stopped entered])
          case (stopped fin)
          then show ?thesis by (rule that(1))
        next
          case (entered order cur g1)
          then show ?thesis using that(2) [OF r d] pre(3) by blast
        qed
      qed
    qed
  qed
qed

lemma start_keeps:
  assumes "run_recoverable sha ex free k clk life wid ver inputs actor g = ((fin, g'), calls)"
  shows "rid \<noteq> k \<Longrightarrow> ok_stored rid i g' = ok_stored rid i g" "run_ids_ok g \<Longrightarrow> run_ids_ok g'"
proof -
  have "(rid \<noteq> k \<longrightarrow> ok_stored rid i g' = ok_stored rid i g) \<and> (run_ids_ok g \<longrightarrow> run_ids_ok g')"
  proof (cases rule: run_recoverable_cases [of sha ex free k clk life wid ver inputs actor g])
    case (stopped fin')
    then show ?thesis using assms by simp
  next
    case (entered d order cur g1)
    note R = record_recoverable_Inr [OF entered(3)]
    have "ok_stored (rr_id cur) i g1 = ok_of [] i" for i
      using R(1,2) by (simp add: ok_stored_def rec_row_def started_run_def)
    note K = loop_okD(1) [OF execute_remaining_keeps [OF entered(4) [symmetric, unfolded assms] this]]
    have "rr_id cur = k" using R(1) by (simp add: started_run_def)
    then show ?thesis using K R(1,2) record_recoverable_ids [OF entered(3)]
      by (simp add: kept_def ok_stored_def)
  qed
  then show "rid \<noteq> k \<Longrightarrow> ok_stored rid i g' = ok_stored rid i g" "run_ids_ok g \<Longrightarrow> run_ids_ok g'" by simp_all
qed

lemma stored_id: "stored_recoverable k g = Some r \<Longrightarrow> rr_id r = k"
  by (auto simp: stored_recoverable_def dest: find_SomeD)

lemma resume_keeps:
  assumes "resume sha ex free clk life k inputs actor g = ((fin, g'), calls)"
  shows "ok_stored rid i g = Some e \<Longrightarrow> ok_stored rid i g' = Some e \<and> (rid = k \<longrightarrow> i \<notin> set calls)"
    "run_ids_ok g \<Longrightarrow> run_ids_ok g'"
proof -
  have "(ok_stored rid i g = Some e \<longrightarrow> ok_stored rid i g' = Some e \<and> (rid = k \<longrightarrow> i \<notin> set calls))
    \<and> (run_ids_ok g \<longrightarrow> run_ids_ok g')"
  proof (cases rule: resume_cases [of sha ex free clk life k inputs actor g])
    case (stopped fin')
    then show ?thesis using assms by simp
  next
    case (entered stored d order cur g1)
    note P = persist_Inr [OF entered(7)]
    have id: "rr_id stored = k" by (rule stored_id [OF entered(1)])
    have "ok_stored (rr_id cur) i g1 = ok_of (rr_results stored) i" for i using P(1,5) by simp
    note L = loop_okD(1,2) [OF execute_remaining_keeps [OF entered(8) [symmetric, unfolded assms] this]]
    have "kept k (rr_results stored) g1 g'" using L(1) P(1) id by simp
    with P(4) id have K: "kept k (rr_results stored) g g'" using kept_trans by blast
    have own: "ok_stored k j g = ok_of (rr_results stored) j" for j using entered(1) by (simp add: ok_stored_def)
    show ?thesis
    proof (cases "rid = k")
      case True
      then show ?thesis using K L(2) own by (auto simp: kept_def calls_ok_def)
    next
      case False
      then show ?thesis using K ok_stored_other [OF K False] by (simp add: kept_def)
    qed
  qed
  then show "ok_stored rid i g = Some e \<Longrightarrow> ok_stored rid i g' = Some e \<and> (rid = k \<longrightarrow> i \<notin> set calls)"
    "run_ids_ok g \<Longrightarrow> run_ids_ok g'" by simp_all
qed

lemma mark_all_keeps:
  assumes "mark_all clk life rs g = (w, g')" "run_ids_ok g" "distinct (map rr_id rs)"
    "\<forall>r \<in> set rs. stored_recoverable (rr_id r) g = Some r"
  shows "ok_stored rid i g' = ok_stored rid i g \<and> run_ids_ok g'"
  using assms
proof (induction rs arbitrary: g w life)
  case (Cons r rs)
  obtain w1 g1 where w1: "persist r ''INDETERMINATE'' (rr_results r) (clk life) g = (w1, g1)"
    by (cases "persist r ''INDETERMINATE'' (rr_results r) (clk life) g")
  show ?case
  proof (cases "life = 0 \<or> isl w1")
    case True
    have "g1 = g" if "isl w1" using w1 that persist_Inl by (cases w1) auto
    then have "g' = g" using Cons.prems(1) w1 True by (auto simp: isl_def split: if_splits)
    then show ?thesis using Cons.prems(2) by simp
  next
    case False
    then obtain r' where Inr: "w1 = Inr r'" by (cases w1) auto
    note P = persist_Inr [OF w1 [unfolded Inr]]
    obtain w2 where w2: "mark_all clk (life - 1) rs g1 = (w2, g')"
      using Cons.prems(1) w1 Inr False by (auto split: prod.splits sum.splits option.splits)
    have "rr_id x \<noteq> rr_id r" if "x \<in> set rs" for x
      using Cons.prems(3) that by (metis distinct.simps(2) image_eqI list.set_map list.simps(9))
    then have "\<forall>x \<in> set rs. stored_recoverable (rr_id x) g1 = Some x"
      using Cons.prems(4) P(4) unfolding kept_def by simp
    with Cons.IH [OF w2] Cons.prems P(4) have "ok_stored rid i g' = ok_stored rid i g1 \<and> run_ids_ok g'" by (simp add: kept_def)
    moreover have "ok_stored rid i g1 = ok_stored rid i g"
    proof (cases "rid = rr_id r")
      case True
      then show ?thesis using P(5) Cons.prems(4) by (simp add: ok_stored_def)
    next
      case False
      show ?thesis by (rule ok_stored_other [OF P(4) False])
    qed
    ultimately show ?thesis by simp
  qed
qed simp

lemma running_runs:
  assumes "run_ids_ok g"
  shows "distinct (map rr_id (list_recoverable (Some st) g))"
    "\<forall>r \<in> set (list_recoverable (Some st) g). stored_recoverable (rr_id r) g = Some r"
  using assms stored_iff by (auto simp: list_recoverable_def run_ids_ok_def distinct_map_filter)

lemma reconcile_keeps:
  assumes "run_ids_ok g"
  shows "ok_stored rid i (snd (reconcile free clk life g)) = ok_stored rid i g \<and> run_ids_ok (snd (reconcile free clk life g))"
proof (cases "mark_all clk life (list_recoverable (Some ''RUNNING'') g) g")
  case (Pair w g')
  show ?thesis using mark_all_keeps [OF Pair assms running_runs [OF assms]] assms Pair by (simp add: reconcile_def)
qed

interpretation recorded_step: op_machine "wf_step sha"
  "\<lambda>(g, log). run_ids_ok g \<and> ok_stored rid i g = Some e \<and> (rid, i) \<notin> set log" "\<lambda>x. starts_run x \<noteq> Some rid"
  for sha rid i e
proof
  fix x :: wf_op and s :: "wf_registry \<times> (str \<times> str) list"
  obtain g log where s: "s = (g, log)" by (cases s)
  assume "starts_run x \<noteq> Some rid" "case s of (g, log) \<Rightarrow> run_ids_ok g \<and> ok_stored rid i g = Some e \<and> (rid, i) \<notin> set log"
  then have g: "run_ids_ok g" "ok_stored rid i g = Some e" "(rid, i) \<notin> set log" and x: "starts_run x \<noteq> Some rid"
    by (simp_all add: s)
  show "case wf_step sha x s of (g, log) \<Rightarrow> run_ids_ok g \<and> ok_stored rid i g = Some e \<and> (rid, i) \<notin> set log"
  proof (cases x)
    case (Wf_Register d)
    then show ?thesis using g by (simp add: s run_ids_ok_def register_recoverable ok_stored_rows [OF register_recoverable])
  next
    case (Wf_Run ex k now1 now2 wid ver inputs actor)
    then show ?thesis using g by (simp add: s run_ids_ok_def run_recoverable_rows ok_stored_rows [OF run_recoverable_rows])
  next
    case (Wf_Start ex free k clk life wid ver inputs actor)
    obtain fin g' calls where r: "run_recoverable sha ex free k clk life wid ver inputs actor g = ((fin, g'), calls)"
      by (metis surj_pair)
    have "rid \<noteq> k" using x Wf_Start by simp
    then have "ok_stored rid i g' = Some e" "(rid, i) \<notin> set (log @ map (Pair k) calls)"
      using start_keeps(1) [OF r] g by auto
    then show ?thesis using Wf_Start start_keeps(2) [OF r g(1)] by (simp add: s r)
  next
    case (Wf_Resume ex free clk life k inputs actor)
    obtain fin g' calls where r: "resume sha ex free clk life k inputs actor g = ((fin, g'), calls)"
      by (metis surj_pair)
    have "(rid, i) \<notin> set (log @ map (Pair k) calls)" using g(3) resume_keeps(1) [OF r g(2)] by auto
    then show ?thesis using Wf_Resume resume_keeps(1) [OF r g(2)] resume_keeps(2) [OF r g(1)] by (simp add: s r)
  next
    case (Wf_Reconcile free clk life)
    then show ?thesis using g reconcile_keeps [OF g(1)] by (simp add: s)
  qed
qed

section \<open>Resumptions that complete\<close>

definition row_fits :: "rec_run \<Rightarrow> bool" where
  "row_fits r = (json_size (results_json (rr_results r)) \<le> max_results \<and> json_size (binding_json (rr_binding r)) \<le> max_json)"

lemma json_size_object_sort: "json_size (JObj (map (map_prod id f) (sort_key fst xs))) = json_size (JObj (map (map_prod id f) xs))"
  by (simp add: json_size_object comp_def sorted_sum)

lemma row_fits_row [simp]: "row_fits (rec_row r) = row_fits r"
  by (simp add: row_fits_def rec_row_def results_json_def binding_json_def json_size_object_sort)

lemma record_recoverable_fits:
  "record_recoverable r g = (Inr r', g') \<Longrightarrow> row_fits r"
  by (auto simp: record_recoverable_def row_fits_def split: if_splits)

lemma persist_fits:
  assumes "json_size (results_json rs) \<le> max_results" "json_size (binding_json (rr_binding base)) \<le> max_json"
  shows "\<exists>g'. persist base st rs now g = (Inr (base\<lparr>rr_status := st, rr_results := rs, rr_updated := Some now, rr_schema := 1\<rparr>), g')"
  using assms by (simp add: persist_def record_recoverable_def)

lemma persist_stored:
  assumes "persist base st rs now g = (Inr r, g')"
  shows "stored_recoverable (rr_id base) g' = Some (rec_row r)
    \<and> r = base\<lparr>rr_status := st, rr_results := rs, rr_updated := Some now, rr_schema := 1\<rparr>"
  using record_recoverable_Inr(1,2) [OF assms [unfolded persist_def]] by simp

text \<open>The results of a run over the steps of its definition.\<close>

definition results_of :: "wf_step list \<Rightarrow> results \<Rightarrow> bool" where
  "results_of steps rs = (dict_ok rs \<and> fst ` set rs \<subseteq> st_id ` set steps
     \<and> list_all (\<lambda>(k, e). length k \<le> 128 \<and> entry_small e) rs)"

lemma results_of_small:
  assumes "results_of steps rs" "length steps \<le> 64"
  shows "results_small rs"
proof -
  have "length rs = card (set (map fst rs))"
    using assms(1) distinct_card [of "map fst rs"] by (simp add: results_of_def dict_ok_def)
  also have "\<dots> \<le> card (set (map st_id steps))" using assms(1) by (intro card_mono) (simp_all add: results_of_def)
  also have "\<dots> \<le> length (map st_id steps)" by (rule card_length)
  finally show ?thesis using assms by (simp add: results_of_def results_small_def)
qed

lemma results_of_update:
  assumes "results_of steps rs" "s \<in> set steps" "step_short s" "entry_small e"
  shows "results_of steps (AList.update (st_id s) e rs)"
  using assms by (auto simp: results_of_def step_short_def dom_update intro: list_all_updated)

lemma running_small: "entry_small running_entry"
  by (simp add: entry_small_def entry_size running_entry_def json_size_str json_size_null max_json_def)
     (code_simp)

text \<open>An operation that always ends well on these inputs.\<close>

definition ends_well :: "executor \<Rightarrow> (str \<times> json) list \<Rightarrow> wf_step \<Rightarrow> bool" where
  "ends_well ex inputs s \<longleftrightarrow> (\<exists>f. ex_operations ex (st_operation s) = Some f
     \<and> (\<forall>outs. \<exists>v. f inputs outs = Op_Returns v \<and> json_size v \<le> max_json))"

lemma ends_well_entry:
  assumes "ends_well ex inputs s"
  obtains e where "called_entry ex inputs outs s = Inr e" "entry_ok e" "entry_small e"
proof -
  obtain f v where "ex_operations ex (st_operation s) = Some f" "f inputs outs = Op_Returns v" "json_size v \<le> max_json"
    using assms unfolding ends_well_def by blast
  then have "called_entry ex inputs outs s = Inr (ok_entry (sorted_keys v))" "entry_small (ok_entry (sorted_keys v))"
    by (simp_all add: called_entry_def recoverable_entry_def call_entry_def ok_entry_small)
  then show ?thesis by (intro that) (simp_all add: entry_ok_def ok_entry_def)
qed

lemma execute_remaining_completes:
  assumes "set ss \<subseteq> set steps" "length steps \<le> 64"
    "\<forall>s \<in> set ss. callable ex actor s \<and> ends_well ex inputs s \<and> step_short s"
    "results_of steps rs" "json_size (binding_json (rr_binding cur)) \<le> max_json" "2 * length ss < life"
  shows "\<exists>r g' calls. execute_remaining ex clk inputs actor life ss rs outs cur g = ((Returned r, g'), calls)
    \<and> rr_status r = ''COMPLETED'' \<and> rr_id r = rr_id cur \<and> stored_recoverable (rr_id cur) g' = Some (rec_row r)"
  using assms
proof (induction ss arbitrary: life rs outs cur g)
  case Nil
  obtain g' where P: "persist cur ''COMPLETED'' rs (clk life) g =
      (Inr (cur\<lparr>rr_status := ''COMPLETED'', rr_results := rs, rr_updated := Some (clk life), rr_schema := 1\<rparr>), g')"
    using persist_fits [OF results_fit [OF results_of_small [OF Nil.prems(4,2)]] Nil.prems(5)] by blast
  show ?case using Nil.prems(6) P persist_stored [OF P] by (simp del: One_nat_def)
next
  case (Cons s ss)
  have s: "callable ex actor s" "ends_well ex inputs s" "step_short s" "s \<in> set steps" using Cons.prems(1,3) by auto
  show ?case
  proof (cases "is_done rs s")
    case True
    show ?thesis unfolding exec_done [OF True] by (rule Cons.IH) (use Cons.prems in auto)
  next
    case False
    obtain e where e: "called_entry ex inputs outs s = Inr e" "entry_ok e" "entry_small e"
      by (rule ends_well_entry [OF s(2)])
    have r1: "results_of steps (AList.update (st_id s) running_entry rs)"
      by (rule results_of_update [OF Cons.prems(4) s(4,3) running_small])
    have r2: "results_of steps (AList.update (st_id s) e rs)"
      by (rule results_of_update [OF Cons.prems(4) s(4,3) e(3)])
    note fit = results_fit [OF results_of_small [OF _ Cons.prems(2)]]
    obtain g1 where p1: "persist cur ''RUNNING'' (AList.update (st_id s) running_entry rs) (clk life) g =
        (Inr (cur\<lparr>rr_status := ''RUNNING'', rr_results := AList.update (st_id s) running_entry rs,
           rr_updated := Some (clk life), rr_schema := 1\<rparr>), g1)" (is "_ = (Inr ?cur1, _)")
      using persist_fits [OF fit [OF r1] Cons.prems(5)] by blast
    have "json_size (binding_json (rr_binding ?cur1)) \<le> max_json" using Cons.prems(5) by simp
    then obtain g2 where p2: "persist ?cur1 ''RUNNING'' (AList.update (st_id s) e rs) (clk (life - 1)) g1 =
        (Inr (?cur1\<lparr>rr_status := ''RUNNING'', rr_results := AList.update (st_id s) e rs,
           rr_updated := Some (clk (life - 1)), rr_schema := 1\<rparr>), g2)" (is "_ = (Inr ?cur2, _)")
      using persist_fits [OF fit [OF r2]] by blast
    have "\<exists>r g' calls. execute_remaining ex clk inputs actor (life - 2) ss (AList.update (st_id s) e rs)
        (AList.update (st_id s) (sr_output e) outs) ?cur2 g2 = ((Returned r, g'), calls)
      \<and> rr_status r = ''COMPLETED'' \<and> rr_id r = rr_id ?cur2 \<and> stored_recoverable (rr_id ?cur2) g' = Some (rec_row r)"
      by (rule Cons.IH [OF _ Cons.prems(2) _ r2]) (use Cons.prems in auto)
    then obtain r g' calls where rest: "execute_remaining ex clk inputs actor (life - 2) ss (AList.update (st_id s) e rs)
        (AList.update (st_id s) (sr_output e) outs) ?cur2 g2 = ((Returned r, g'), calls)"
      "rr_status r = ''COMPLETED''" "rr_id r = rr_id cur" "stored_recoverable (rr_id cur) g' = Some (rec_row r)" by auto
    have life: "life \<noteq> 0" "life - 1 \<noteq> 0" using Cons.prems(6) by auto
    have "execute_remaining ex clk inputs actor life (s # ss) rs outs cur g = ((Returned r, g'), st_id s # calls)"
      unfolding exec_call [OF False s(1)] p1 Let_def
      using p2 rest(1) life e(1,2) by (simp del: One_nat_def)
    then show ?thesis using rest by blast
  qed
qed

lemma mark_all_fits:
  assumes "\<forall>r \<in> set rs. row_fits r" "distinct (map rr_id rs)" "length rs \<le> life"
  shows "\<exists>out g'. mark_all clk life rs g = (Some (Inr out), g')
    \<and> (\<forall>r \<in> set rs. \<exists>t. stored_recoverable (rr_id r) g' =
         Some (rec_row (r\<lparr>rr_status := ''INDETERMINATE'', rr_updated := Some t, rr_schema := 1\<rparr>)))
    \<and> (\<forall>rid. rid \<notin> rr_id ` set rs \<longrightarrow> stored_recoverable rid g' = stored_recoverable rid g)
    \<and> rg_definitions g' = rg_definitions g \<and> rg_path g' = rg_path g"
  using assms
proof (induction rs arbitrary: g life)
  case (Cons r rs)
  have fits: "json_size (results_json (rr_results r)) \<le> max_results" "json_size (binding_json (rr_binding r)) \<le> max_json"
    using Cons.prems(1) by (simp_all add: row_fits_def)
  obtain g1 where P: "persist r ''INDETERMINATE'' (rr_results r) (clk life) g =
      (Inr (r\<lparr>rr_status := ''INDETERMINATE'', rr_results := rr_results r, rr_updated := Some (clk life), rr_schema := 1\<rparr>), g1)"
    using persist_fits [OF fits] by blast
  have K: "kept (rr_id r) (rr_results r) g g1" by (rule persist_Inr(4) [OF P])
  have "length rs \<le> life - 1" using Cons.prems(3) by simp
  from Cons.IH [OF _ _ this, of g1] Cons.prems(1,2) obtain out g' where IH: "mark_all clk (life - 1) rs g1 = (Some (Inr out), g')"
    "\<forall>x \<in> set rs. \<exists>t. stored_recoverable (rr_id x) g' =
       Some (rec_row (x\<lparr>rr_status := ''INDETERMINATE'', rr_updated := Some t, rr_schema := 1\<rparr>))"
    "\<forall>rid. rid \<notin> rr_id ` set rs \<longrightarrow> stored_recoverable rid g' = stored_recoverable rid g1"
    "rg_definitions g' = rg_definitions g1" "rg_path g' = rg_path g1" by auto
  have "rr_id r \<notin> rr_id ` set rs" using Cons.prems(2) by simp
  with IH(3) have "stored_recoverable (rr_id r) g' =
      Some (rec_row (r\<lparr>rr_status := ''INDETERMINATE'', rr_updated := Some (clk life), rr_schema := 1\<rparr>))"
    using persist_stored [OF P] by (simp del: One_nat_def)
  moreover have "mark_all clk life (r # rs) g = (Some (Inr (r\<lparr>rr_status := ''INDETERMINATE'', rr_results := rr_results r,
      rr_updated := Some (clk life), rr_schema := 1\<rparr> # out)), g')"
    using P IH(1) Cons.prems(3) by (simp del: One_nat_def)
  moreover have "stored_recoverable rid g' = stored_recoverable rid g" if "rid \<notin> rr_id ` set (r # rs)" for rid
    using IH(3) K that by (simp add: kept_def)
  moreover have "rg_definitions g' = rg_definitions g" "rg_path g' = rg_path g" using IH(4,5) K by (simp_all add: kept_def)
  ultimately show ?case using IH(2)
    by (intro exI [of _ "_ # out"] exI [of _ g'] conjI ballI) (auto simp del: One_nat_def mark_all.simps)
qed simp

definition all_rows_fit :: "wf_registry \<Rightarrow> bool" where
  "all_rows_fit g = list_all (\<lambda>r. row_fits r \<and> rec_row r = r) (rg_recoverable g)"

lemma rec_row_idem [simp]: "rec_row (rec_row r) = rec_row r"
  by (simp add: rec_row_def sort_key_id_if_sorted)

lemma record_recoverable_keeps_fit: "record_recoverable r g = (w, g') \<Longrightarrow> all_rows_fit g \<Longrightarrow> all_rows_fit g'"
  by (auto simp: record_recoverable_def all_rows_fit_def list_all_iff row_fits_def [of r] split: if_splits)

text \<open>After a reconciliation, a run that was left running, or was indeterminate, is indeterminate
  with the same results.\<close>

lemma reconcile_marks:
  assumes "run_ids_ok g" "all_rows_fit g" "rg_path g \<noteq> '':memory:''"
    "stored_recoverable k g = Some r" "rr_status r \<in> {''RUNNING'', ''INDETERMINATE''}" "length (rg_recoverable g) \<le> life"
  shows "\<exists>out g'. reconcile True clk life g = (Some (Inr out), g')
    \<and> (\<exists>t v. stored_recoverable k g' = Some (rec_row (r\<lparr>rr_status := ''INDETERMINATE'', rr_updated := t, rr_schema := v\<rparr>)))
    \<and> rg_definitions g' = rg_definitions g \<and> rg_path g' = rg_path g"
proof -
  let ?rs = "list_recoverable (Some ''RUNNING'') g"
  note R = running_runs [OF assms(1), of "''RUNNING''"]
  have fits: "\<forall>r \<in> set ?rs. row_fits r" using assms(2) by (auto simp: list_recoverable_def all_rows_fit_def list_all_iff)
  have "length ?rs \<le> life" by (simp add: list_recoverable_def order_trans [OF length_filter_le assms(6)])
  from mark_all_fits [OF fits R(1) this, of clk g] obtain out g' where M: "mark_all clk life ?rs g = (Some (Inr out), g')"
    "\<forall>r \<in> set ?rs. \<exists>t. stored_recoverable (rr_id r) g' =
       Some (rec_row (r\<lparr>rr_status := ''INDETERMINATE'', rr_updated := Some t, rr_schema := 1\<rparr>))"
    "\<forall>rid. rid \<notin> rr_id ` set ?rs \<longrightarrow> stored_recoverable rid g' = stored_recoverable rid g"
    "rg_definitions g' = rg_definitions g \<and> rg_path g' = rg_path g" by blast
  have id: "rr_id r = k" and row: "r \<in> set (rg_recoverable g)"
    using assms(4) by (auto simp: stored_recoverable_def dest: find_SomeD)
  have "\<exists>t v. stored_recoverable k g' = Some (rec_row (r\<lparr>rr_status := ''INDETERMINATE'', rr_updated := t, rr_schema := v\<rparr>))"
  proof (cases "rr_status r = ''RUNNING''")
    case True
    then have "r \<in> set ?rs" using row by (simp add: list_recoverable_def)
    then show ?thesis using M(2) id by blast
  next
    case False
    then have "k \<notin> rr_id ` set ?rs" using R(2) assms(4) by (auto simp: list_recoverable_def)
    then have "stored_recoverable k g' = Some r" using M(3) assms(4) by simp
    moreover have "r\<lparr>rr_status := ''INDETERMINATE'', rr_updated := rr_updated r, rr_schema := rr_schema r\<rparr> = r"
      using False assms(5) by (cases r) simp
    moreover have "rec_row r = r" using assms(2) row by (simp add: all_rows_fit_def list_all_iff)
    ultimately show ?thesis by metis
  qed
  then show ?thesis using M(1,4) assms(3) by (simp add: reconcile_def)
qed

lemma get_definition_same: "rg_definitions g1 = rg_definitions g \<Longrightarrow> get_definition wid ver g1 = get_definition wid ver g"
  by (simp only: get_definition_def definition_of_def)

lemma rec_row_fields [simp]: "rr_status (rec_row r) = rr_status r" "rr_workflow (rec_row r) = rr_workflow r"
    "rr_version (rec_row r) = rr_version r" "rr_results (rec_row r) = sort_key fst (rr_results r)"
  by (simp_all add: rec_row_def)

lemma bound_to_row [simp]: "bound_to sha ex inputs actor d (rec_row r) = bound_to sha ex inputs actor d r"
  by (simp add: bound_to_def rec_row_def same_dict_def list_all_iff)

lemma bound_to_marked [simp]:
  "bound_to sha ex inputs actor d (r\<lparr>rr_status := st, rr_updated := t, rr_schema := v\<rparr>) = bound_to sha ex inputs actor d r"
  by (simp add: bound_to_def)

lemma results_of_sort [simp]: "results_of steps (sort_key fst rs) = results_of steps rs"
proof -
  have "distinct (map fst (sort_key fst rs)) = distinct (map fst rs)"
    by (metis mset_eq_imp_distinct_iff mset_map mset_sort)
  then show ?thesis by (simp add: results_of_def dict_ok_def list_all_iff)
qed

lemma resume_completes:
  assumes "rg_path g \<noteq> '':memory:''" "py_strip k \<noteq> []" "check_actor actor = Inr ()" "check_inputs inputs = Inr ()" "defs_ok g"
    "stored_recoverable k g = Some r" "rr_status r = ''INDETERMINATE''" "row_fits r"
    "get_definition (rr_workflow r) (rr_version r) g = Inr d" "bound_to sha ex inputs actor d r"
    "results_of (wd_steps d) (rr_results r)"
    "\<forall>s \<in> set (wd_steps d). callable ex actor s \<and> ends_well ex inputs s"
    "2 * length (wd_steps d) + 1 < life"
  shows "\<exists>r' g' calls. resume sha ex True clk life k inputs actor g = ((Returned r', g'), calls)
    \<and> rr_status r' = ''COMPLETED'' \<and> (\<forall>s \<in> set (wd_steps d). is_done (rr_results r') s)
    \<and> stored_recoverable k g' = Some (rec_row r')"
proof -
  note D = get_definition_ok [OF assms(5,9)]
  then obtain order where len: "length (wd_steps d) \<le> 64" and order: "topological_order d = Inr order"
    using validated_has_order by blast
  note O = order_facts [OF order]
  have fits: "json_size (results_json (rr_results r)) \<le> max_results" "json_size (binding_json (rr_binding r)) \<le> max_json"
    using assms(8) by (simp_all add: row_fits_def)
  obtain g1 where P: "persist r ''RUNNING'' (rr_results r) (clk (Suc life)) g =
      (Inr (r\<lparr>rr_status := ''RUNNING'', rr_results := rr_results r, rr_updated := Some (clk (Suc life)), rr_schema := 1\<rparr>), g1)"
      (is "_ = (Inr ?cur, _)")
    using persist_fits [OF fits] by blast
  have "\<forall>s \<in> set order. callable ex actor s \<and> ends_well ex inputs s \<and> step_short s"
    using O(2) assms(12) check_definition_short [of d] D by simp
  moreover have "2 * length order < life - 1" using O(3) assms(13) by linarith
  moreover have "json_size (binding_json (rr_binding ?cur)) \<le> max_json" using fits(2) by simp
  ultimately have "\<exists>r' g' calls. execute_remaining ex clk inputs actor (life - 1) order (rr_results r)
      (done_outputs (rr_results r)) ?cur g1 = ((Returned r', g'), calls)
    \<and> rr_status r' = ''COMPLETED'' \<and> rr_id r' = rr_id ?cur \<and> stored_recoverable (rr_id ?cur) g' = Some (rec_row r')"
    using execute_remaining_completes [OF _ len _ assms(11)] O(2) by blast
  then obtain r' g' calls where E: "execute_remaining ex clk inputs actor (life - 1) order (rr_results r)
      (done_outputs (rr_results r)) ?cur g1 = ((Returned r', g'), calls)" "rr_status r' = ''COMPLETED''"
      "stored_recoverable (rr_id r) g' = Some (rec_row r')"
    by (auto simp del: One_nat_def)
  have "ok_stored (rr_id ?cur) i g1 = ok_of (rr_results r) i" for i using persist_Inr(1,5) [OF P] by simp
  from loop_okD(5) [OF execute_remaining_keeps [OF E(1) this]] E(2) O(2)
  have "\<forall>s \<in> set (wd_steps d). is_done (rr_results r') s" by (simp add: finish_ok_def)
  moreover have "resume sha ex True clk life k inputs actor g = ((Returned r', g'), calls)"
    using resume_eq [OF assms(1,2) _ TrueI assms(6,9), of actor inputs _ sha ex clk life] assms(3,4,7,10,13) order P E(1)
    by (simp del: One_nat_def)
  ultimately show ?thesis using E(2,3) stored_id [OF assms(6)] by blast
qed

text \<open>A run whose row is running or indeterminate is completed by a reconciliation and a resumption
  that is bound to it, if the steps of its definition can be called and end well.\<close>

lemma interrupted_row_recovers:
  assumes "run_ids_ok g" "all_rows_fit g" "defs_ok g" "rg_path g \<noteq> '':memory:''" "py_strip rid \<noteq> []"
    "check_actor actor = Inr ()" "check_inputs inputs = Inr ()"
    "stored_recoverable rid g = Some r" "rr_status r \<in> {''RUNNING'', ''INDETERMINATE''}"
    "get_definition (rr_workflow r) (rr_version r) g = Inr d" "bound_to sha ex inputs actor d r"
    "results_of (wd_steps d) (rr_results r)"
    "\<forall>s \<in> set (wd_steps d). callable ex actor s \<and> ends_well ex inputs s"
    "2 * length (wd_steps d) + 1 < life" "length (rg_recoverable g) \<le> marks"
  shows "\<exists>out g1 r' g2 calls. reconcile True clk marks g = (Some (Inr out), g1)
    \<and> resume sha ex True clk' life rid inputs actor g1 = ((Returned r', g2), calls)
    \<and> rr_status r' = ''COMPLETED'' \<and> (\<forall>s \<in> set (wd_steps d). is_done (rr_results r') s)
    \<and> stored_recoverable rid g2 = Some (rec_row r')"
proof -
  from reconcile_marks [OF assms(1,2,4,8,9,15)] obtain out g1 t v where R: "reconcile True clk marks g = (Some (Inr out), g1)"
    "stored_recoverable rid g1 = Some (rec_row (r\<lparr>rr_status := ''INDETERMINATE'', rr_updated := t, rr_schema := v\<rparr>))"
    "rg_definitions g1 = rg_definitions g" "rg_path g1 = rg_path g" by blast
  have row: "row_fits r" using assms(2,8) by (auto simp: all_rows_fit_def list_all_iff stored_recoverable_def dest: find_SomeD)
  have "row_fits (r\<lparr>rr_status := ''INDETERMINATE'', rr_updated := t, rr_schema := v\<rparr>)" using row by (simp add: row_fits_def)
  moreover have "get_definition (rr_workflow r) (rr_version r) g1 = Inr d"
    using assms(10) get_definition_same [OF R(3)] by simp
  moreover have "defs_ok g1" using assms(3) R(3) by (simp add: defs_ok_def)
  ultimately show ?thesis
    using resume_completes [OF _ assms(5-7) _ R(2), of d sha ex life clk'] R(1,4) assms(4,11-14)
    by auto
qed

section \<open>What every registry keeps\<close>

text \<open>Every row of the recoverable runs holds results of the steps of its registered definition,
  within the bounds of its columns.\<close>

definition row_sound :: "wf_registry \<Rightarrow> rec_run \<Rightarrow> bool" where
  "row_sound g r \<longleftrightarrow> (\<exists>d. definition_of (rr_workflow r) (rr_version r) g = Some d \<and> results_of (wd_steps d) (rr_results r))"

definition registry_sound :: "wf_registry \<Rightarrow> bool" where
  "registry_sound g \<longleftrightarrow> run_ids_ok g \<and> all_rows_fit g \<and> defs_ok g \<and> (\<forall>r \<in> set (rg_recoverable g). row_sound g r)"

definition same_home :: "wf_registry \<Rightarrow> wf_registry \<Rightarrow> bool" where
  "same_home g g' \<longleftrightarrow> rg_definitions g' = rg_definitions g \<and> rg_path g' = rg_path g"

lemma same_home_refl [simp]: "same_home g g" by (simp add: same_home_def)

lemma same_home_trans: "same_home g g' \<Longrightarrow> same_home g' g'' \<Longrightarrow> same_home g g''" by (simp add: same_home_def)

lemma same_home_definition: "same_home g g' \<Longrightarrow> definition_of wid ver g' = definition_of wid ver g"
  by (simp add: same_home_def definition_of_def)

lemma record_recoverable_sound:
  assumes "record_recoverable r g = (w, g')" "registry_sound g" "row_sound g r"
  shows "registry_sound g' \<and> same_home g g'"
proof -
  have home: "same_home g g'" using assms(1) by (auto simp: record_recoverable_def same_home_def split: if_splits)
  have "row_sound g' x" if "x \<in> set (rg_recoverable g')" for x
    using assms that same_home_definition [OF home]
    by (auto simp: record_recoverable_def registry_sound_def row_sound_def rec_row_def split: if_splits)
  then show ?thesis
    using assms(1,2) home record_recoverable_ids [OF assms(1)] record_recoverable_keeps_fit [OF assms(1)]
    by (simp add: registry_sound_def defs_ok_def same_home_def)
qed

text \<open>Writing results of the steps of the definition of \<open>base\<close>.\<close>

definition writes_for :: "wf_definition \<Rightarrow> rec_run \<Rightarrow> wf_registry \<Rightarrow> bool" where
  "writes_for d base g \<longleftrightarrow> registry_sound g \<and> definition_of (rr_workflow base) (rr_version base) g = Some d"

lemma persist_sound:
  assumes "persist base st rs now g = (w, g')" "writes_for d base g" "results_of (wd_steps d) rs"
  shows "registry_sound g' \<and> same_home g g' \<and> (\<forall>r. w = Inr r \<longrightarrow> writes_for d r g')"
proof -
  have "row_sound g (base\<lparr>rr_status := st, rr_results := rs, rr_updated := Some now, rr_schema := 1\<rparr>)"
    using assms(2,3) by (simp add: row_sound_def writes_for_def)
  from record_recoverable_sound [OF assms(1) [unfolded persist_def] _ this] assms(2)
  have S: "registry_sound g'" "same_home g g'" by (simp_all add: writes_for_def)
  moreover have "writes_for d r g'" if "w = Inr r" for r
    using persist_stored assms(1,2) S same_home_definition [OF S(2)] that by (fastforce simp: writes_for_def)
  ultimately show ?thesis by blast
qed

lemma last_write_sound:
  assumes "last_write life base st rs now g = (fin, g')" "writes_for d base g" "results_of (wd_steps d) rs"
  shows "registry_sound g' \<and> same_home g g'"
proof -
  obtain w g1 where "persist base st rs now g = (w, g1)" by (cases "persist base st rs now g")
  with persist_sound [OF this assms(2,3)] show ?thesis
    using assms(1,2) by (auto simp: last_write_def finishing_def writes_for_def split: if_splits sum.splits)
qed

lemma called_entry_small:
  assumes "called_entry ex inputs outs s = Inr e" "names_short ex" "callable ex actor s"
  shows "entry_small e"
  using assms by (auto simp: called_entry_def callable_def names_short_def intro: recoverable_entry_small)

lemma execute_remaining_sound:
  "execute_remaining ex clk inputs actor life ss rs outs cur g = ((fin, g'), calls)
   \<Longrightarrow> names_short ex \<Longrightarrow> set ss \<subseteq> set (wd_steps d) \<Longrightarrow> \<forall>s \<in> set ss. step_short s
   \<Longrightarrow> writes_for d cur g \<Longrightarrow> results_of (wd_steps d) rs \<Longrightarrow> registry_sound g' \<and> same_home g g'"
proof (induction ss arbitrary: life rs outs cur g fin g' calls)
  case Nil
  obtain w g1 where w: "persist cur ''COMPLETED'' rs (clk life) g = (w, g1)" by (cases "persist cur ''COMPLETED'' rs (clk life) g")
  obtain w2 g2 where w2: "persist cur ''FAILED'' rs (clk (life - 1)) g1 = (w2, g2)" by (cases "persist cur ''FAILED'' rs (clk (life - 1)) g1")
  note S = persist_sound [OF w Nil.prems(5,6)]
  then have "writes_for d cur g1" using Nil.prems(5) same_home_definition by (auto simp: writes_for_def)
  note S2 = persist_sound [OF w2 this Nil.prems(6)]
  have "registry_sound g" using Nil.prems(5) by (simp add: writes_for_def)
  moreover have "g' = g \<or> g' = g1 \<or> g' = g2" using Nil.prems(1) w w2 by (auto split: if_splits sum.splits)
  ultimately show ?case using S S2 same_home_trans same_home_refl by blast
next
  case (Cons s ss)
  have s: "s \<in> set (wd_steps d)" "step_short s" using Cons.prems(3,4) by auto
  have sound: "registry_sound g" using Cons.prems(5) by (simp add: writes_for_def)
  note upd = results_of_update [OF Cons.prems(6) s]
  show ?case
  proof (cases "is_done rs s \<or> \<not> callable ex actor s")
    case True
    show ?thesis
    proof (cases "is_done rs s")
      case True
      then show ?thesis using Cons.IH Cons.prems exec_done by (metis insert_subset list.set(2) set_subset_Cons subset_code(1))
    next
      case False
      then obtain e st where "entry_small e" "last_write life cur st (AList.update (st_id s) e rs) (clk life) g = (fin, g')"
        using exec_refused [OF False, of ex actor clk inputs life ss outs cur g] True s(2) Cons.prems(1) by auto
      then show ?thesis using last_write_sound [OF _ Cons.prems(5) upd] by blast
    qed
  next
    case False
    note eq = exec_call [of rs s ex actor clk inputs life ss outs cur g]
    obtain w g1 where w: "persist cur ''RUNNING'' (AList.update (st_id s) running_entry rs) (clk life) g = (w, g1)"
      by (cases "persist cur ''RUNNING'' (AList.update (st_id s) running_entry rs) (clk life) g")
    note S = persist_sound [OF w Cons.prems(5) upd [OF running_small]]
    show ?thesis
    proof (cases "life = 0 \<or> isl w \<or> isl (called_entry ex inputs outs s)")
      case True
      then have "g' = g \<or> g' = g1"
        using Cons.prems(1) False w eq by (auto simp: isl_def split: if_splits sum.splits)
      then show ?thesis using S sound by auto
    next
      case alive: False
      then obtain cur1 e where c: "w = Inr cur1" and e: "called_entry ex inputs outs s = Inr e"
        by (cases w; cases "called_entry ex inputs outs s") auto
      have S1: "writes_for d cur1 g1" "same_home g g1" using S c by auto
      have small: "entry_small e" using called_entry_small [OF e Cons.prems(2)] False by blast
      obtain w2 g2 where w2: "persist cur1 ''RUNNING'' (AList.update (st_id s) e rs) (clk (life - 1)) g1 = (w2, g2)"
        by (cases "persist cur1 ''RUNNING'' (AList.update (st_id s) e rs) (clk (life - 1)) g1")
      note S2 = persist_sound [OF w2 S1(1) upd [OF small]]
      consider "last_write (life - 1) cur1 ''FAILED'' (AList.update (st_id s) e rs) (clk (life - 1)) g1 = (fin, g')"
        | "g' = g1" | "g' = g2"
        | cur2 calls' where "w2 = Inr cur2" "execute_remaining ex clk inputs actor (life - 2) ss (AList.update (st_id s) e rs)
             (AList.update (st_id s) (sr_output e) outs) cur2 g2 = ((fin, g'), calls')"
        using Cons.prems(1) False alive w c e w2 eq
        by (cases w2) (auto simp: Let_def split: if_splits prod.splits)
      then show ?thesis
      proof cases
        case 1
        then show ?thesis using last_write_sound [OF 1 S1(1) upd [OF small]] S1(2) same_home_trans by blast
      next
        case 4
        then show ?thesis
          using Cons.IH [OF 4(2) Cons.prems(2)] Cons.prems(3,4) S2 upd [OF small] S1(2) same_home_trans by (metis insert_subset list.set(2) insert_iff)
      qed (use S S2 S1 same_home_trans in \<open>auto simp: writes_for_def\<close>)
    qed
  qed
qed

lemma get_definition_found: "get_definition wid ver g = Inr d \<Longrightarrow> definition_of wid ver g = Some d"
  by (auto simp: get_definition_def split: sum.splits option.splits simp del: first_error.simps)

lemma stored_sound: "registry_sound g \<Longrightarrow> stored_recoverable k g = Some r \<Longrightarrow> row_sound g r \<and> row_fits r"
  by (auto simp: registry_sound_def stored_recoverable_def all_rows_fit_def list_all_iff dest: find_SomeD)

lemma loop_steps:
  assumes "registry_sound g" "get_definition wid ver g = Inr d" "topological_order d = Inr order"
  shows "set order \<subseteq> set (wd_steps d)" "\<forall>s \<in> set order. step_short s"
  using order_facts(2) [OF assms(3)] check_definition_short get_definition_ok [OF _ assms(2)] assms(1)
  by (auto simp: registry_sound_def)

lemma results_of_Nil [simp]: "results_of steps []"
  by (simp add: results_of_def dict_ok_def)

lemma run_recoverable_sound:
  assumes "run_recoverable sha ex free k clk life wid ver inputs actor g = ((fin, g'), calls)" "registry_sound g" "names_short ex"
  shows "registry_sound g' \<and> same_home g g'"
proof (cases rule: run_recoverable_cases [of sha ex free k clk life wid ver inputs actor g])
  case (stopped fin')
  then show ?thesis using assms by simp
next
  case (entered d order cur g1)
  note found = get_definition_found [OF entered(1)]
  have "row_sound g (started_run sha ex k wid ver actor inputs d (clk (Suc life)))"
    using found by (simp add: row_sound_def started_run_def)
  note S = record_recoverable_sound [OF entered(3) assms(2) this]
  have "writes_for d cur g1"
    using found S record_recoverable_Inr(1) [OF entered(3)] same_home_definition
    by (auto simp: writes_for_def started_run_def)
  from execute_remaining_sound [OF entered(4) [symmetric, unfolded assms(1)] assms(3) loop_steps [OF assms(2) entered(1,2)] this]
  show ?thesis using S same_home_trans by auto
qed

lemma resume_sound:
  assumes "resume sha ex free clk life k inputs actor g = ((fin, g'), calls)" "registry_sound g" "names_short ex"
  shows "registry_sound g' \<and> same_home g g'"
proof (cases rule: resume_cases [of sha ex free clk life k inputs actor g])
  case (stopped fin')
  then show ?thesis using assms by simp
next
  case (entered stored d order cur g1)
  note found = get_definition_found [OF entered(2)]
  then have results: "results_of (wd_steps d) (rr_results stored)"
    using stored_sound [OF assms(2) entered(1)] by (auto simp: row_sound_def)
  have "writes_for d stored g" using found assms(2) by (simp add: writes_for_def)
  note S = persist_sound [OF entered(7) this results]
  have "writes_for d cur g1" using S by simp
  from execute_remaining_sound [OF entered(8) [symmetric, unfolded assms(1)] assms(3) loop_steps [OF assms(2) entered(2,3)] this results]
  show ?thesis using S same_home_trans by blast
qed

lemma mark_all_sound:
  "mark_all clk life rs g = (w, g') \<Longrightarrow> registry_sound g \<Longrightarrow> \<forall>r \<in> set rs. row_sound g r \<Longrightarrow> registry_sound g' \<and> same_home g g'"
proof (induction rs arbitrary: g g' w life)
  case (Cons r rs)
  obtain v g1 where v: "persist r ''INDETERMINATE'' (rr_results r) (clk life) g = (v, g1)"
    by (cases "persist r ''INDETERMINATE'' (rr_results r) (clk life) g")
  obtain d where d: "writes_for d r g" "results_of (wd_steps d) (rr_results r)"
    using Cons.prems(2,3) by (auto simp: row_sound_def writes_for_def)
  note S = persist_sound [OF v d]
  have rest: "\<forall>x \<in> set rs. row_sound g1 x" using Cons.prems(3) S same_home_definition by (auto simp: row_sound_def)
  obtain v2 g2 where v2: "mark_all clk (life - 1) rs g1 = (v2, g2)" by (cases "mark_all clk (life - 1) rs g1")
  have "g' = g \<or> g' = g1 \<or> g' = g2"
    using Cons.prems(1) v v2 by (auto split: if_splits sum.splits option.splits)
  then show ?case using Cons.IH [OF v2] S rest Cons.prems(2) same_home_trans same_home_refl by blast
qed simp

lemma reconcile_sound:
  assumes "registry_sound g"
  shows "registry_sound (snd (reconcile free clk life g)) \<and> same_home g (snd (reconcile free clk life g))"
proof (cases "mark_all clk life (list_recoverable (Some ''RUNNING'') g) g")
  case (Pair w g')
  have "\<forall>r \<in> set (list_recoverable (Some ''RUNNING'') g). row_sound g r"
    using assms by (simp add: registry_sound_def list_recoverable_def)
  then show ?thesis using mark_all_sound [OF Pair assms] assms Pair by (simp add: reconcile_def)
qed

lemma record_run_sound: "record_run r g = (w, g') \<Longrightarrow> registry_sound g' = registry_sound g \<and> same_home g g'"
  by (auto simp: record_run_def registry_sound_def run_ids_ok_def all_rows_fit_def defs_ok_def row_sound_def definition_of_def
    same_home_def split: if_splits)

lemma record_run_home: "registry_sound (snd (record_run r g)) = registry_sound g" "same_home g0 (snd (record_run r g)) = same_home g0 g"
  using record_run_sound by (cases "record_run r g"; auto simp: same_home_def)+

lemma run_sound:
  "registry_sound g \<Longrightarrow> registry_sound (snd (fst (run ex rid now1 now2 wid ver inputs actor g)))
     \<and> same_home g (snd (fst (run ex rid now1 now2 wid ver inputs actor g)))"
  unfolding run_def Let_def
  by (auto split: sum.split prod.split simp: record_run_home simp del: first_error.simps dest!: record_run_sound intro: same_home_trans)

lemma register_sound: "registry_sound g \<Longrightarrow> registry_sound (snd (register d g)) \<and> rg_path (snd (register d g)) = rg_path g"
  using register_defs_ok [of g d]
  by (auto simp: registry_sound_def register_def run_ids_ok_def all_rows_fit_def row_sound_def definition_of_def find_append
    simp del: first_error.simps split: sum.splits option.splits)

fun op_short :: "wf_op \<Rightarrow> bool" where
  "op_short (Wf_Start ex free rid clk life wid ver inputs actor) = names_short ex"
| "op_short (Wf_Resume ex free clk life rid inputs actor) = names_short ex"
| "op_short _ = True"

interpretation sound_registry: op_machine "wf_step sha" "\<lambda>(g, log). registry_sound g \<and> rg_path g = path" op_short
  for sha path
proof
  fix x :: wf_op and s :: "wf_registry \<times> (str \<times> str) list"
  obtain g log where s: "s = (g, log)" by (cases s)
  assume "op_short x" "case s of (g, log) \<Rightarrow> registry_sound g \<and> rg_path g = path"
  then have x: "op_short x" and g: "registry_sound g" "rg_path g = path" by (simp_all add: s)
  show "case wf_step sha x s of (g, log) \<Rightarrow> registry_sound g \<and> rg_path g = path"
  proof (cases x)
    case (Wf_Register d)
    then show ?thesis using register_sound [OF g(1)] g(2) by (simp add: s)
  next
    case (Wf_Run ex k now1 now2 wid ver inputs actor)
    then show ?thesis using run_sound [OF g(1)] g(2) by (simp add: s same_home_def)
  next
    case (Wf_Start ex free k clk life wid ver inputs actor)
    then show ?thesis using run_recoverable_sound [OF _ g(1)] x g(2)
      by (auto simp: s same_home_def split: prod.splits)
  next
    case (Wf_Resume ex free clk life k inputs actor)
    then show ?thesis using resume_sound [OF _ g(1)] x g(2)
      by (auto simp: s same_home_def split: prod.splits)
  next
    case (Wf_Reconcile free clk life)
    then show ?thesis using reconcile_sound [OF g(1)] g(2) by (simp add: s same_home_def)
  qed
qed

section \<open>A killed run is recovered\<close>

text \<open>The row a kill leaves: running, and bound as it was started.\<close>

definition left_by :: "rec_run \<Rightarrow> wf_registry \<Rightarrow> bool" where
  "left_by cur g \<longleftrightarrow> (\<exists>rs t v. stored_recoverable (rr_id cur) g =
     Some (rec_row (cur\<lparr>rr_status := ''RUNNING'', rr_results := rs, rr_updated := t, rr_schema := v\<rparr>)))"

lemma persist_left:
  assumes "persist cur ''RUNNING'' rs now g = (Inr r, g')"
  shows "left_by cur g'" "left_by r g'' = left_by cur g''"
proof -
  note P = persist_stored [OF assms]
  show "left_by cur g'" using P unfolding left_by_def by blast
  show "left_by r g'' = left_by cur g''" using P by (simp add: left_by_def)
qed

lemma last_write_killed: "last_write life base st rs now g = (Killed, g') \<Longrightarrow> g' = g"
  by (auto simp: last_write_def finishing_def split: if_splits sum.splits prod.splits)

lemma execute_remaining_killed:
  "execute_remaining ex clk inputs actor life ss rs outs cur g = ((Killed, g'), calls) \<Longrightarrow> left_by cur g \<Longrightarrow> left_by cur g'"
proof (induction ss arbitrary: life rs outs cur g g' calls)
  case Nil
  then show ?case by (auto split: if_splits sum.splits prod.splits)
next
  case (Cons s ss)
  show ?case
  proof (cases "is_done rs s \<or> \<not> callable ex actor s")
    case True
    show ?thesis
    proof (cases "is_done rs s")
      case True
      then show ?thesis using Cons exec_done by metis
    next
      case False
      then show ?thesis
        using exec_refused [OF False, of ex actor clk inputs life ss outs cur g] True Cons.prems last_write_killed by fastforce
    qed
  next
    case False
    note eq = exec_call [of rs s ex actor clk inputs life ss outs cur g]
    obtain w g1 where w: "persist cur ''RUNNING'' (AList.update (st_id s) running_entry rs) (clk life) g = (w, g1)"
      by (cases "persist cur ''RUNNING'' (AList.update (st_id s) running_entry rs) (clk life) g")
    show ?thesis
    proof (cases "life = 0 \<or> isl w \<or> isl (called_entry ex inputs outs s)")
      case True
      then have "g' = g" using Cons.prems(1) False w eq by (auto simp: isl_def split: if_splits sum.splits)
      then show ?thesis using Cons.prems(2) by simp
    next
      case alive: False
      then obtain cur1 e where c: "w = Inr cur1" and e: "called_entry ex inputs outs s = Inr e"
        by (cases w; cases "called_entry ex inputs outs s") auto
      note L1 = persist_left [OF w [unfolded c]]
      obtain w2 g2 where w2: "persist cur1 ''RUNNING'' (AList.update (st_id s) e rs) (clk (life - 1)) g1 = (w2, g2)"
        by (cases "persist cur1 ''RUNNING'' (AList.update (st_id s) e rs) (clk (life - 1)) g1")
      consider "last_write (life - 1) cur1 ''FAILED'' (AList.update (st_id s) e rs) (clk (life - 1)) g1 = (Killed, g')"
        | "g' = g1"
        | cur2 calls' where "w2 = Inr cur2" "execute_remaining ex clk inputs actor (life - 2) ss (AList.update (st_id s) e rs)
             (AList.update (st_id s) (sr_output e) outs) cur2 g2 = ((Killed, g'), calls')"
        using Cons.prems(1) False alive w c e w2 eq
        by (cases w2) (auto simp: Let_def split: if_splits prod.splits)
      then show ?thesis
      proof cases
        case 1
        then show ?thesis using last_write_killed L1(1) by blast
      next
        case 3
        note L2 = persist_left [OF w2 [unfolded 3(1)]]
        show ?thesis using Cons.IH [OF 3(2)] L2 L1(2) by simp
      qed (use L1 in auto)
    qed
  qed
qed

lemma run_recoverable_killed:
  assumes "run_recoverable sha ex free k clk life wid ver inputs actor g = ((Killed, g'), calls)" "0 < life"
    "get_definition wid ver g = Inr d"
  shows "left_by (started_run sha ex k wid ver actor inputs d (clk (Suc life))) g'"
    "check_actor actor = Inr ()" "check_inputs inputs = Inr ()" "py_strip k \<noteq> []" "rg_path g \<noteq> '':memory:''" "free"
proof -
  have checks: "first_error id [check_actor actor, check_inputs inputs] = Inr ()" "py_strip k \<noteq> []" "rg_path g \<noteq> '':memory:''" "free"
    using assms(1) by (auto simp: run_recoverable_def simp del: first_error.simps split: if_splits sum.splits)
  then show "check_actor actor = Inr ()" "check_inputs inputs = Inr ()" "py_strip k \<noteq> []" "rg_path g \<noteq> '':memory:''" "free"
    by (simp_all add: first_error_Inr del: first_error.simps)
  show "left_by (started_run sha ex k wid ver actor inputs d (clk (Suc life))) g'"
  proof (cases "topological_order d")
    case (Inl e)
    then show ?thesis using assms(1,3) checks by (simp add: run_recoverable_def del: first_error.simps)
  next
    case (Inr order)
    let ?r = "started_run sha ex k wid ver actor inputs d (clk (Suc life))"
    obtain w g1 where w: "record_recoverable ?r g = (w, g1)" by (cases "record_recoverable ?r g")
    then obtain cur where c: "w = Inr cur"
      and run: "execute_remaining ex clk inputs actor (life - 1) order [] [] cur g1 = ((Killed, g'), calls)"
      using assms checks Inr by (cases w) (auto simp: run_recoverable_def simp del: first_error.simps)
    note R = record_recoverable_Inr(1,2) [OF w [unfolded c]]
    have "left_by cur g1" using R by (auto simp: left_by_def started_run_def intro: exI [of _ "[]"] exI [of _ None] exI [of _ 1])
    from execute_remaining_killed [OF run this] show ?thesis using R(1) by simp
  qed
qed

lemma same_dict_refl: "distinct (map fst b) \<Longrightarrow> same_dict b b"
  by (auto simp: same_dict_def list_all_iff)

lemma ops_binding_dict: "distinct (map fst (ops_binding ex d))"
proof -
  have "distinct (map fst (fold (\<lambda>s b. AList.update (st_operation s) (f s) b) ss b))" if "distinct (map fst b)"
    for f :: "wf_step \<Rightarrow> str" and ss and b :: "(str \<times> str) list"
    using that by (induction ss arbitrary: b) (simp_all add: distinct_update)
  then show ?thesis by (simp add: ops_binding_def)
qed

definition new_registry :: "str \<Rightarrow> wf_registry" where
  "new_registry path = \<lparr>rg_path = path, rg_definitions = [], rg_runs = [], rg_recoverable = []\<rparr>"

lemma new_registry_sound: "registry_sound (new_registry path)"
  by (simp add: registry_sound_def new_registry_def run_ids_ok_def all_rows_fit_def defs_ok_def)

lemma reachable_sound:
  assumes "run_ops (wf_step sha) ops (new_registry path, []) = (g, log)" "list_all op_short ops"
  shows "registry_sound g \<and> rg_path g = path"
proof -
  have "case (new_registry path, []) of (g, log) \<Rightarrow> registry_sound g \<and> rg_path g = path"
    by (simp add: new_registry_sound) (simp add: new_registry_def)
  from sound_registry.run_keeps [OF assms(2) this, of sha] show ?thesis by (simp add: assms(1))
qed

text \<open>C26: A process killed at any point of a recoverable run after its first durable write loses
  nothing but time. Whatever sequence of registrations, runs, recoverable executions, resumptions
  and reconciliations made the registry, with or without kills, and wherever the run was killed:
  once the lock is free, a reconciliation that may mark every row marks the run, and a resumption
  with the same inputs, the same actor and an executor with the same operation versions completes
  it and stores it with every step of its definition ok. In that executor every step of the
  definition can be called (its operation is registered and replay-safe, its permissions are
  granted) and every operation ends well on these inputs; the resumption makes at most two durable
  writes for each step, and two more. The names of exceptions and types are short.\<close>

theorem killed_run_recovers:
  assumes "run_ops (wf_step sha) ops (new_registry path, []) = (g, log)" "list_all op_short ops" "names_short ex"
    "run_recoverable sha ex free rid clk life wid ver inputs actor g = ((Killed, g'), calls)" "0 < life"
    "get_definition wid ver g = Inr d" "ops_binding ex' d = ops_binding ex d"
    "\<forall>s \<in> set (wd_steps d). callable ex' actor s \<and> ends_well ex' inputs s"
    "length (rg_recoverable g') \<le> marks" "2 * length (wd_steps d) + 1 < life'"
  shows "\<exists>out g1 r g2 calls'. reconcile True clk1 marks g' = (Some (Inr out), g1)
    \<and> resume sha ex' True clk2 life' rid inputs actor g1 = ((Returned r, g2), calls')
    \<and> rr_status r = ''COMPLETED'' \<and> (\<forall>s \<in> set (wd_steps d). is_done (rr_results r) s)
    \<and> stored_recoverable rid g2 = Some (rec_row r)"
proof -
  note sound = reachable_sound [OF assms(1,2)]
  have S: "registry_sound g'" "same_home g g'"
    using run_recoverable_sound [OF assms(4) _ assms(3)] sound by simp_all
  note K = run_recoverable_killed [OF assms(4-6)]
  let ?s = "started_run sha ex rid wid ver actor inputs d (clk (Suc life))"
  obtain rs t v where r: "stored_recoverable rid g' =
      Some (rec_row (?s\<lparr>rr_status := ''RUNNING'', rr_results := rs, rr_updated := t, rr_schema := v\<rparr>))" (is "_ = Some ?r")
    using K(1) by (auto simp: left_by_def started_run_def)
  have d: "get_definition wid ver g' = Inr d" using get_definition_same [of g' g wid ver] assms(6) S(2) by (simp add: same_home_def)
  have row: "rr_workflow ?r = wid" "rr_version ?r = ver" "rr_status ?r = ''RUNNING''" by (simp_all add: started_run_def)
  then have results: "results_of (wd_steps d) (rr_results ?r)"
    using stored_sound [OF S(1) r] get_definition_found [OF d] by (simp add: row_sound_def)
  have "same_dict (ops_binding ex' d) (ops_binding ex d)"
    unfolding assms(7) by (rule same_dict_refl [OF ops_binding_dict])
  then have "bound_to sha ex' inputs actor d ?s" by (simp add: bound_to_def started_run_def)
  then have bound: "bound_to sha ex' inputs actor d ?r" by (simp only: bound_to_row) (simp add: bound_to_def)
  show ?thesis
    by (rule interrupted_row_recovers [OF _ _ _ _ K(4,2,3) r _ _ bound results assms(8,10,9)])
       (use S K(5) d row in \<open>simp_all add: registry_sound_def same_home_def\<close>)
qed

text \<open>C25: Whatever sequence of registrations, runs, recoverable executions, resumptions and
  reconciliations follows, by processes that may be killed between any two durable writes: a
  step that is stored as ok in a recoverable run keeps its entry, and its operation is never
  called again for that run. Other runs have other ids.\<close>

theorem ok_steps_never_repeat:
  assumes "run_ids_ok g" "stored_recoverable rid g = Some r" "map_of (rr_results r) i = Some e" "entry_ok e"
    "list_all (\<lambda>x. starts_run x \<noteq> Some rid) ops" "run_ops (wf_step sha) ops (g, []) = (g', log)"
  shows "(rid, i) \<notin> set log \<and> (\<exists>r'. stored_recoverable rid g' = Some r' \<and> map_of (rr_results r') i = Some e)"
proof -
  have "ok_stored rid i g = Some e" using assms(2-4) by (simp add: ok_stored_def ok_of_def)
  then have "ok_stored rid i g' = Some e \<and> (rid, i) \<notin> set log"
    using recorded_step.run_keeps [where sha = sha and i = i and e = e and s = "(g, [])", OF assms(5)] assms(1,6) by simp
  then show ?thesis by (auto simp: ok_stored_def ok_of_def split: option.splits if_splits)
qed

text \<open>C27: A resumption calls an operation or changes the registry only for an indeterminate run
  whose inputs, actor, definition and operation versions are those it was started with, and
  while it holds the lock; in every other case it raises, or returns the stored run when that is
  completed. Every operation it calls is replay-safe and permitted to the actor, belongs to a
  step not yet ok, and is called once.\<close>

theorem resume_is_bound:
  assumes "resume sha ex free clk life rid inputs actor g = ((fin, g'), calls)"
  shows "(\<exists>stored d. stored_recoverable rid g = Some stored \<and> rr_status stored = ''INDETERMINATE'' \<and> free
      \<and> get_definition (rr_workflow stored) (rr_version stored) g = Inr d \<and> bound_to sha ex inputs actor d stored
      \<and> distinct calls \<and> (\<forall>i \<in> set calls. \<exists>s \<in> set (wd_steps d). st_id s = i \<and> callable ex actor s
          \<and> \<not> is_done (rr_results stored) s))
    \<or> g' = g \<and> calls = [] \<and> (\<forall>r. fin = Returned r \<longrightarrow> stored_recoverable rid g = Some r \<and> rr_status r = ''COMPLETED'')"
proof (cases rule: resume_cases [of sha ex free clk life rid inputs actor g])
  case (stopped fin')
  then show ?thesis using assms by simp
next
  case (entered stored d order cur g1)
  have "ok_stored (rr_id cur) i g1 = ok_of (rr_results stored) i" for i using persist_Inr(1,5) [OF entered(7)] by simp
  from loop_okD(2) [OF execute_remaining_keeps [OF entered(8) [symmetric, unfolded assms] this]]
  have "distinct calls \<and> (\<forall>i \<in> set calls. \<exists>s \<in> set (wd_steps d). st_id s = i \<and> callable ex actor s
      \<and> \<not> is_done (rr_results stored) s)"
    unfolding calls_ok_def order_facts(2) [OF entered(3)] by (auto simp: is_done_ok)
  then show ?thesis using entered(1,2,4,5,6) by blast
qed

text \<open>Witnesses: a recoverable run of the diamond, killed after its fourth durable write.\<close>

definition steady_ex :: executor where
  "steady_ex = \<lparr>ex_operations = (\<lambda>op. if op = ''op'' then Some (\<lambda>_ _. Op_Returns (JInt 1)) else None),
     ex_authorizer = Some (\<lambda>_ _. True), ex_replay_safe = [''op''], ex_versions = []\<rparr>"

definition demo_row :: rec_run where
  "demo_row = \<lparr>rr_id = ''r1'', rr_workflow = ''w'', rr_version = ''1.0.0'', rr_actor = ''ann'', rr_status = ''RUNNING'',
     rr_results = [(''a'', ok_entry (JInt 1)), (''c'', running_entry)], rr_input_digest = ''h'',
     rr_definition_digest = ''h'', rr_binding = [(''op'', [])], rr_created = 0, rr_updated = Some 0, rr_schema = 1\<rparr>"

definition demo_killed :: wf_registry where
  "demo_killed = demo_registry\<lparr>rg_recoverable := [demo_row]\<rparr>"

lemma demo_killed_run:
  "run_recoverable (\<lambda>_. ''h'') steady_ex True ''r1'' (\<lambda>_. 0) 4 ''w'' ''1.0.0'' [] ''ann'' demo_registry
     = ((Killed, demo_killed), [''a'', ''c''])"
  by code_simp

lemma demo_killed_ids: "run_ids_ok demo_killed"
  by code_simp

lemma demo_stored: "stored_recoverable ''r1'' demo_killed = Some demo_row"
  by (simp add: stored_recoverable_def demo_killed_def demo_row_def)

lemma one_is_small: "json_size (JInt 1) \<le> max_json" by code_simp

lemma demo_registered: "run_ops (wf_step (\<lambda>_. ''h'')) [Wf_Register diamond] (new_registry ''w.db'', []) = (demo_registry, [])"
  by code_simp

theorem killed_run_recovers_witness:
  "\<exists>out g1 r g2 calls. reconcile True (\<lambda>_. 1) 1 demo_killed = (Some (Inr out), g1)
    \<and> resume (\<lambda>_. ''h'') steady_ex True (\<lambda>_. 2) 10 ''r1'' [] ''ann'' g1 = ((Returned r, g2), calls)
    \<and> rr_status r = ''COMPLETED''"
proof -
  have "\<forall>s \<in> set (wd_steps diamond). callable steady_ex ''ann'' s \<and> ends_well steady_ex [] s"
    using one_is_small by (simp add: diamond_def demo_step_def callable_def ends_well_def steady_ex_def denied_permission_def)
  moreover have "length (rg_recoverable demo_killed) \<le> 1" "2 * length (wd_steps diamond) + 1 < (10 :: nat)"
    by (simp_all add: demo_killed_def diamond_def)
  moreover have "names_short steady_ex" by (simp add: names_short_def steady_ex_def)
  ultimately show ?thesis
    using killed_run_recovers [OF demo_registered _ _ demo_killed_run _ demo_definition refl] by fastforce
qed

theorem ok_steps_never_repeat_witness:
  "\<exists>g' log. run_ops (wf_step (\<lambda>_. ''h'')) [Wf_Reconcile True (\<lambda>_. 1) 1, Wf_Resume steady_ex True (\<lambda>_. 2) 10 ''r1'' [] ''ann''] (demo_killed, [])
     = (g', log) \<and> (''r1'', ''a'') \<notin> set log"
proof -
  obtain g' log where run: "run_ops (wf_step (\<lambda>_. ''h'')) [Wf_Reconcile True (\<lambda>_. 1) 1, Wf_Resume steady_ex True (\<lambda>_. 2) 10 ''r1'' [] ''ann'']
    (demo_killed, []) = (g', log)" by (metis surj_pair)
  have "entry_ok (ok_entry (JInt 1))" by (simp add: entry_ok_def ok_entry_def)
  moreover have "map_of (rr_results demo_row) ''a'' = Some (ok_entry (JInt 1))" by (simp add: demo_row_def)
  ultimately show ?thesis
    using ok_steps_never_repeat [OF demo_killed_ids demo_stored _ _ _ run, of "''a''" "ok_entry (JInt 1)"] run by simp
qed

theorem resume_is_bound_witness:
  "\<exists>fin. resume (\<lambda>_. ''h'') steady_ex True (\<lambda>_. 2) 10 ''r1'' [] ''bob'' demo_killed = ((fin, demo_killed), [])
     \<and> fin = Raised Actor_Changed"
proof -
  obtain fin g' calls where r: "resume (\<lambda>_. ''h'') steady_ex True (\<lambda>_. 2) 10 ''r1'' [] ''bob'' demo_killed = ((fin, g'), calls)"
    by (metis surj_pair)
  have "rr_status demo_row \<noteq> ''INDETERMINATE''" by (simp add: demo_row_def)
  with resume_is_bound [OF r] demo_stored have "g' = demo_killed" "calls = []" by auto
  moreover have "fst (fst (resume (\<lambda>_. ''h'') steady_ex True (\<lambda>_. 2) 10 ''r1'' [] ''bob'' demo_killed)) = Raised Actor_Changed" by code_simp
  ultimately show ?thesis using r by simp
qed

end
