(* ===== verification/Butler_Threads.thy ===== *)
theory Butler_Threads
  imports Agency_Prelude "HOL-Library.List_Lexorder" "HOL-Library.Char_ord"
begin

text \<open>
  The thread store of the butler, \<open>src/agency/butler/threads.py\<close>.

  The database is five tables, each a list of rows in rowid order; messages carry their rowid,
  which SQLite draws as one more than the largest. A method returns its result and the database
  it leaves; \<open>with conn\<close> rolls back when an insertion meets a taken key. The random ids of
  \<open>uuid4\<close> and the readings of the clock are arguments; an instant is a number, whose order is
  that of the ISO texts. A store that has been closed answers every statement with an error.
\<close>

section \<open>Tables\<close>

record bt_workspace =
  bw_id :: str
  bw_owner :: str
  bw_title :: str
  bw_created :: int

record bt_thread =
  bt_id :: str
  bt_workspace :: str
  bt_owner :: str
  bt_title :: str
  bt_parent :: "str option"
  bt_state :: str
  bt_created :: int
  bt_updated :: int

record bt_message =
  bm_rowid :: int
  bm_id :: str
  bm_thread :: str
  bm_role :: str
  bm_content :: str
  bm_created :: int

record bt_summary =
  sm_id :: str
  sm_thread :: str
  sm_owner :: str
  sm_content :: str
  sm_up_to :: int
  sm_created :: int

record bt_db =
  db_workspaces :: "bt_workspace list"
  db_threads :: "bt_thread list"
  db_messages :: "bt_message list"
  db_summaries :: "bt_summary list"
  db_active :: "(str \<times> str \<times> int) list"
  db_open :: bool

datatype bt_error =
    Blank_Field | Bad_Role | Key_Error str | Other_Workspace | Bad_Rowid | Taken_Key | Store_Closed
  | No_Messages | Within_Window | Covers_Nothing | Command_Error str

definition empty_bt :: bt_db where
  "empty_bt = \<lparr>db_workspaces = [], db_threads = [], db_messages = [], db_summaries = [], db_active = [], db_open = True\<rparr>"

section \<open>Checks\<close>

definition bind_res :: "('e, 'a) res \<Rightarrow> ('a \<Rightarrow> ('e, 'b) res) \<Rightarrow> ('e, 'b) res" where
  "bind_res r f = (case r of Inl e \<Rightarrow> Inl e | Inr a \<Rightarrow> f a)"

lemma bind_res_Inr [simp]: "bind_res (Inr a) f = f a"
  by (simp add: bind_res_def)

lemma bind_res_Inl [simp]: "bind_res (Inl e) f = Inl e"
  by (simp add: bind_res_def)

lemma bind_res_eq_Inr: "bind_res r f = Inr b \<longleftrightarrow> (\<exists>a. r = Inr a \<and> f a = Inr b)"
  by (cases r) simp_all

definition require_nonblank :: "str \<Rightarrow> (bt_error, str) res" where
  "require_nonblank v = (if py_strip v = [] then Inl Blank_Field else Inr (py_strip v))"

definition require_content :: "str \<Rightarrow> (bt_error, str) res" where
  "require_content v = (if py_strip v = [] then Inl Blank_Field else Inr v)"

definition require_role :: "str \<Rightarrow> (bt_error, str) res" where
  "require_role r = (if r \<in> {''user'', ''assistant'', ''system''} then Inr r else Inl Bad_Role)"

definition connection :: "bt_db \<Rightarrow> (bt_error, unit) res" where
  "connection s = (if db_open s then Inr () else Inl Store_Closed)"

definition close_threads :: "bt_db \<Rightarrow> bt_db" where
  "close_threads s = s\<lparr>db_open := False\<rparr>"

definition workspace_or_raise :: "str \<Rightarrow> str \<Rightarrow> bt_db \<Rightarrow> (bt_error, unit) res" where
  "workspace_or_raise owner wid s = bind_res (connection s) (\<lambda>_.
     if list_ex (\<lambda>w. bw_id w = wid \<and> bw_owner w = owner) (db_workspaces s) then Inr () else Inl (Key_Error wid))"

definition thread_or_raise :: "str \<Rightarrow> str \<Rightarrow> bt_db \<Rightarrow> (bt_error, bt_thread) res" where
  "thread_or_raise owner tid s = bind_res (connection s) (\<lambda>_.
     case find (\<lambda>t. bt_id t = tid \<and> bt_owner t = owner) (db_threads s) of
       None \<Rightarrow> Inl (Key_Error tid) | Some t \<Rightarrow> Inr t)"

text \<open>The owner and the id of a method on a thread, checked in this order.\<close>

definition owned :: "str \<Rightarrow> str \<Rightarrow> (bt_error, str) res" where
  "owned owner i = bind_res (require_nonblank owner) (\<lambda>o1. bind_res (require_content i) (\<lambda>_. Inr o1))"

section \<open>Workspaces and threads\<close>

definition create_workspace :: "str \<Rightarrow> str \<Rightarrow> str \<Rightarrow> int \<Rightarrow> bt_db \<Rightarrow> (bt_db, bt_error, bt_workspace) outcome" where
  "create_workspace owner title uid now s =
     (case bind_res (require_nonblank owner) (\<lambda>o1. bind_res (require_nonblank title) (\<lambda>t1.
         bind_res (connection s) (\<lambda>_. Inr (o1, t1)))) of
        Inl e \<Rightarrow> (Inl e, s)
      | Inr (o1, t1) \<Rightarrow>
          if list_ex (\<lambda>w. bw_id w = uid) (db_workspaces s) then (Inl Taken_Key, s)
          else let w = \<lparr>bw_id = uid, bw_owner = o1, bw_title = t1, bw_created = now\<rparr>
               in (Inr w, s\<lparr>db_workspaces := db_workspaces s @ [w]\<rparr>))"

text \<open>\<open>ORDER BY created_at ASC, id ASC\<close>.\<close>

definition oldest_first :: "('a \<Rightarrow> int) \<Rightarrow> ('a \<Rightarrow> str) \<Rightarrow> 'a list \<Rightarrow> 'a list" where
  "oldest_first created ident xs = sort_key created (sort_key ident xs)"

definition list_workspaces :: "str \<Rightarrow> bt_db \<Rightarrow> (bt_error, bt_workspace list) res" where
  "list_workspaces owner s = bind_res (require_nonblank owner) (\<lambda>o1. bind_res (connection s) (\<lambda>_.
     Inr (oldest_first bw_created bw_id (filter (\<lambda>w. bw_owner w = o1) (db_workspaces s)))))"

definition check_parent :: "str \<Rightarrow> str \<Rightarrow> str option \<Rightarrow> bt_db \<Rightarrow> (bt_error, unit) res" where
  "check_parent owner wid parent s =
     (case parent of
        None \<Rightarrow> Inr ()
      | Some p \<Rightarrow> bind_res (require_content p) (\<lambda>_. bind_res (thread_or_raise owner p s) (\<lambda>t.
          if bt_workspace t \<noteq> wid then Inl Other_Workspace else Inr ())))"

definition create_thread :: "str \<Rightarrow> str \<Rightarrow> str \<Rightarrow> str option \<Rightarrow> str \<Rightarrow> int \<Rightarrow> bt_db
    \<Rightarrow> (bt_db, bt_error, bt_thread) outcome" where
  "create_thread owner wid title parent uid now s =
     (case bind_res (require_nonblank owner) (\<lambda>o1. bind_res (require_nonblank title) (\<lambda>t1.
         bind_res (require_content wid) (\<lambda>_. bind_res (workspace_or_raise o1 wid s) (\<lambda>_.
         bind_res (check_parent o1 wid parent s) (\<lambda>_. Inr (o1, t1)))))) of
        Inl e \<Rightarrow> (Inl e, s)
      | Inr (o1, t1) \<Rightarrow>
          if list_ex (\<lambda>t. bt_id t = uid) (db_threads s) then (Inl Taken_Key, s)
          else let t = \<lparr>bt_id = uid, bt_workspace = wid, bt_owner = o1, bt_title = t1, bt_parent = parent,
                 bt_state = ''active'', bt_created = now, bt_updated = now\<rparr>
               in (Inr t, s\<lparr>db_threads := db_threads s @ [t]\<rparr>))"

definition get_thread :: "str \<Rightarrow> str \<Rightarrow> bt_db \<Rightarrow> (bt_error, bt_thread) res" where
  "get_thread owner tid s = bind_res (owned owner tid) (\<lambda>o1. thread_or_raise o1 tid s)"

definition list_threads :: "str \<Rightarrow> str \<Rightarrow> bt_db \<Rightarrow> (bt_error, bt_thread list) res" where
  "list_threads owner wid s = bind_res (owned owner wid) (\<lambda>o1. bind_res (workspace_or_raise o1 wid s) (\<lambda>_.
     Inr (oldest_first bt_created bt_id (filter (\<lambda>t. bt_workspace t = wid \<and> bt_owner t = o1) (db_threads s)))))"

section \<open>Messages and summaries\<close>

definition next_rowid :: "bt_message list \<Rightarrow> int" where
  "next_rowid ms = fold max (map bm_rowid ms) 0 + 1"

definition append_message :: "str \<Rightarrow> str \<Rightarrow> str \<Rightarrow> str \<Rightarrow> str \<Rightarrow> int \<Rightarrow> bt_db
    \<Rightarrow> (bt_db, bt_error, bt_message) outcome" where
  "append_message owner tid role content uid now s =
     (case bind_res (owned owner tid) (\<lambda>o1. bind_res (require_role role) (\<lambda>_.
         bind_res (require_content content) (\<lambda>_. bind_res (thread_or_raise o1 tid s) (\<lambda>_. Inr o1)))) of
        Inl e \<Rightarrow> (Inl e, s)
      | Inr o1 \<Rightarrow>
          if list_ex (\<lambda>m. bm_id m = uid) (db_messages s) then (Inl Taken_Key, s)
          else let m = \<lparr>bm_rowid = next_rowid (db_messages s), bm_id = uid, bm_thread = tid, bm_role = role,
                 bm_content = content, bm_created = now\<rparr>
               in (Inr m, s\<lparr>db_messages := db_messages s @ [m],
                    db_threads := map (\<lambda>t. if bt_id t = tid \<and> bt_owner t = o1 then t\<lparr>bt_updated := now\<rparr> else t)
                      (db_threads s)\<rparr>))"

definition thread_messages :: "str \<Rightarrow> bt_db \<Rightarrow> bt_message list" where
  "thread_messages tid s = sort_key bm_rowid (filter (\<lambda>m. bm_thread m = tid) (db_messages s))"

definition list_message_rows :: "str \<Rightarrow> str \<Rightarrow> bt_db \<Rightarrow> (bt_error, bt_message list) res" where
  "list_message_rows owner tid s =
     bind_res (owned owner tid) (\<lambda>o1. bind_res (thread_or_raise o1 tid s) (\<lambda>_. Inr (thread_messages tid s)))"

definition count_messages :: "str \<Rightarrow> str \<Rightarrow> bt_db \<Rightarrow> (bt_error, nat) res" where
  "count_messages owner tid s =
     bind_res (owned owner tid) (\<lambda>o1. bind_res (thread_or_raise o1 tid s) (\<lambda>_.
       Inr (length (filter (\<lambda>m. bm_thread m = tid) (db_messages s)))))"

definition set_summary :: "str \<Rightarrow> str \<Rightarrow> str \<Rightarrow> int \<Rightarrow> str \<Rightarrow> int \<Rightarrow> bt_db
    \<Rightarrow> (bt_db, bt_error, bt_summary) outcome" where
  "set_summary owner tid content up_to uid now s =
     (case bind_res (owned owner tid) (\<lambda>o1. bind_res (require_content content) (\<lambda>_.
         if up_to < 1 then Inl Bad_Rowid
         else bind_res (thread_or_raise o1 tid s) (\<lambda>_.
           if list_ex (\<lambda>m. bm_thread m = tid \<and> bm_rowid m = up_to) (db_messages s) then Inr o1 else Inl Bad_Rowid))) of
        Inl e \<Rightarrow> (Inl e, s)
      | Inr o1 \<Rightarrow>
          let kept = filter (\<lambda>x. \<not> (sm_thread x = tid \<and> sm_owner x = o1)) (db_summaries s);
              x = \<lparr>sm_id = uid, sm_thread = tid, sm_owner = o1, sm_content = content, sm_up_to = up_to, sm_created = now\<rparr>
          in if list_ex (\<lambda>y. sm_id y = uid) kept then (Inl Taken_Key, s)
             else (Inr x, s\<lparr>db_summaries := kept @ [x]\<rparr>))"

definition summary_of :: "str \<Rightarrow> str \<Rightarrow> bt_db \<Rightarrow> bt_summary option" where
  "summary_of owner tid s = find (\<lambda>x. sm_thread x = tid \<and> sm_owner x = owner) (db_summaries s)"

definition get_summary :: "str \<Rightarrow> str \<Rightarrow> bt_db \<Rightarrow> (bt_error, bt_summary option) res" where
  "get_summary owner tid s =
     bind_res (owned owner tid) (\<lambda>o1. bind_res (thread_or_raise o1 tid s) (\<lambda>_. Inr (summary_of o1 tid s)))"

section \<open>The active thread\<close>

definition set_active_thread :: "str \<Rightarrow> str \<Rightarrow> int \<Rightarrow> bt_db \<Rightarrow> (bt_db, bt_error, bt_thread) outcome" where
  "set_active_thread owner tid now s =
     (case get_thread owner tid s of
        Inl e \<Rightarrow> (Inl e, s)
      | Inr t \<Rightarrow> (Inr t, s\<lparr>db_active := AList.update owner (bt_id t, now) (db_active s)\<rparr>))"

definition get_active_thread :: "str \<Rightarrow> bt_db \<Rightarrow> (bt_error, bt_thread option) res" where
  "get_active_thread owner s = bind_res (require_nonblank owner) (\<lambda>o1. bind_res (connection s) (\<lambda>_.
     Inr (case map_of (db_active s) o1 of
            None \<Rightarrow> None
          | Some (tid, _) \<Rightarrow> find (\<lambda>t. bt_id t = tid \<and> bt_owner t = o1) (db_threads s))))"

definition clear_active_thread :: "str \<Rightarrow> bt_db \<Rightarrow> (bt_db, bt_error, bool) outcome" where
  "clear_active_thread owner s =
     (case bind_res (require_nonblank owner) (\<lambda>o1. bind_res (connection s) (\<lambda>_. Inr o1)) of
        Inl e \<Rightarrow> (Inl e, s)
      | Inr o1 \<Rightarrow> (Inr (map_of (db_active s) o1 \<noteq> None), s\<lparr>db_active := AList.delete o1 (db_active s)\<rparr>))"

section \<open>The invariant of the tables\<close>

text \<open>Unique keys; messages in rowid order, each in a thread there is; a summary covers up to a
  message of its thread, which belongs to its owner.\<close>

definition bt_ok :: "bt_db \<Rightarrow> bool" where
  "bt_ok s \<longleftrightarrow> distinct (map bw_id (db_workspaces s)) \<and> distinct (map bt_id (db_threads s))
     \<and> distinct (map bm_id (db_messages s)) \<and> sorted_wrt (<) (map bm_rowid (db_messages s))
     \<and> (\<forall>m \<in> set (db_messages s). 0 < bm_rowid m \<and> bm_thread m \<in> bt_id ` set (db_threads s))
     \<and> distinct (map (\<lambda>x. (sm_thread x, sm_owner x)) (db_summaries s))
     \<and> (\<forall>x \<in> set (db_summaries s). (\<exists>m \<in> set (db_messages s). bm_thread m = sm_thread x \<and> bm_rowid m = sm_up_to x)
          \<and> (\<exists>t \<in> set (db_threads s). bt_id t = sm_thread x \<and> bt_owner t = sm_owner x))"

lemma empty_bt_ok: "bt_ok empty_bt"
  by (simp add: bt_ok_def empty_bt_def)

lemma next_rowid_fresh: "m \<in> set ms \<Longrightarrow> bm_rowid m < next_rowid ms" "0 < next_rowid ms"
  by (auto simp: next_rowid_def zless_add1_eq [symmetric] fold_max_ge zle_add1_eq_le)

lemma list_ex_key: "list_ex (\<lambda>x. f x = k) xs \<longleftrightarrow> k \<in> f ` set xs"
  by (auto simp: list_ex_iff)

text \<open>What a successful check has found.\<close>

lemma require_Inr: "require_nonblank v = Inr w \<Longrightarrow> w = py_strip v \<and> w \<noteq> []" "require_content v = Inr w \<Longrightarrow> w = v"
  by (auto simp: require_nonblank_def require_content_def split: if_splits)

lemma owned_Inr: "owned owner i = Inr o1 \<Longrightarrow> o1 = py_strip owner"
  by (auto simp: owned_def bind_res_eq_Inr dest: require_Inr)

lemma thread_or_raise_Inr:
  "thread_or_raise owner tid s = Inr t \<Longrightarrow> t \<in> set (db_threads s) \<and> bt_id t = tid \<and> bt_owner t = owner"
  by (auto simp: thread_or_raise_def bind_res_eq_Inr split: option.splits dest: find_SomeD)

lemma create_workspace_cases:
  assumes "create_workspace owner title uid now s = (w, s')"
  shows "isl w \<and> s' = s \<or> (\<exists>x. w = Inr x \<and> bw_owner x = py_strip owner \<and> bw_id x = uid
    \<and> uid \<notin> bw_id ` set (db_workspaces s) \<and> s' = s\<lparr>db_workspaces := db_workspaces s @ [x]\<rparr>)"
  using assms unfolding create_workspace_def Let_def
  by (auto simp: bind_res_eq_Inr list_ex_key dest!: require_Inr split: sum.splits if_splits intro!: exI)

lemma create_thread_cases:
  assumes "create_thread owner wid title parent uid now s = (w, s')"
  shows "isl w \<and> s' = s \<or> (\<exists>x. w = Inr x \<and> bt_owner x = py_strip owner \<and> bt_id x = uid \<and> bt_workspace x = wid
    \<and> uid \<notin> bt_id ` set (db_threads s) \<and> s' = s\<lparr>db_threads := db_threads s @ [x]\<rparr>)"
  using assms unfolding create_thread_def Let_def
  by (auto simp: bind_res_eq_Inr list_ex_key dest!: require_Inr split: sum.splits if_splits intro!: exI)

definition touched :: "str \<Rightarrow> str \<Rightarrow> int \<Rightarrow> bt_thread list \<Rightarrow> bt_thread list" where
  "touched owner tid now ts = map (\<lambda>t. if bt_id t = tid \<and> bt_owner t = owner then t\<lparr>bt_updated := now\<rparr> else t) ts"

lemma append_message_cases:
  assumes "append_message owner tid role content uid now s = (w, s')"
  shows "isl w \<and> s' = s \<or> (\<exists>m t. w = Inr m \<and> t \<in> set (db_threads s) \<and> bt_id t = tid \<and> bt_owner t = py_strip owner
    \<and> bm_thread m = tid \<and> bm_rowid m = next_rowid (db_messages s) \<and> bm_id m = uid
    \<and> uid \<notin> bm_id ` set (db_messages s)
    \<and> s' = s\<lparr>db_messages := db_messages s @ [m], db_threads := touched (py_strip owner) tid now (db_threads s)\<rparr>)"
  using assms by (auto simp: append_message_def Let_def bind_res_eq_Inr list_ex_key touched_def
      dest!: owned_Inr thread_or_raise_Inr split: sum.splits if_splits)

lemma set_summary_cases:
  assumes "set_summary owner tid content up_to uid now s = (w, s')"
  shows "isl w \<and> s' = s \<or> (\<exists>x t. w = Inr x \<and> t \<in> set (db_threads s) \<and> bt_id t = tid \<and> bt_owner t = py_strip owner
    \<and> sm_thread x = tid \<and> sm_owner x = py_strip owner \<and> sm_content x = content \<and> sm_up_to x = up_to
    \<and> (\<exists>m \<in> set (db_messages s). bm_thread m = tid \<and> bm_rowid m = up_to)
    \<and> s' = s\<lparr>db_summaries := filter (\<lambda>y. \<not> (sm_thread y = tid \<and> sm_owner y = py_strip owner)) (db_summaries s) @ [x]\<rparr>)"
  using assms by (auto simp: set_summary_def Let_def bind_res_eq_Inr list_ex_iff
      dest!: owned_Inr thread_or_raise_Inr split: sum.splits if_splits)

lemma touched_fields [simp]: "map bt_id (touched o1 tid now ts) = map bt_id ts" "map bt_owner (touched o1 tid now ts) = map bt_owner ts"
    "bt_id ` set (touched o1 tid now ts) = bt_id ` set ts"
proof -
  show ids: "map bt_id (touched o1 tid now ts) = map bt_id ts" "map bt_owner (touched o1 tid now ts) = map bt_owner ts"
    by (simp_all add: touched_def)
  show "bt_id ` set (touched o1 tid now ts) = bt_id ` set ts" by (metis ids(1) list.set_map)
qed

lemma touched_mem:
  "(\<exists>t \<in> set (touched o1 tid now ts). bt_id t = i \<and> bt_owner t = u) \<longleftrightarrow> (\<exists>t \<in> set ts. bt_id t = i \<and> bt_owner t = u)"
  unfolding touched_def by (induction ts) auto

lemma create_workspace_ok:
  assumes "create_workspace owner title uid now s = (w, s')" "bt_ok s"
  shows "bt_ok s'"
  using create_workspace_cases [OF assms(1)] assms(2) by (auto simp: bt_ok_def)

lemma create_thread_ok:
  assumes "create_thread owner wid title parent uid now s = (w, s')" "bt_ok s"
  shows "bt_ok s'"
  using create_thread_cases [OF assms(1)] assms(2) by (fastforce simp: bt_ok_def)

lemma append_message_ok:
  assumes "append_message owner tid role content uid now s = (w, s')" "bt_ok s"
  shows "bt_ok s'"
  using append_message_cases [OF assms(1)]
proof
  assume "\<exists>m t. w = Inr m \<and> t \<in> set (db_threads s) \<and> bt_id t = tid \<and> bt_owner t = py_strip owner
    \<and> bm_thread m = tid \<and> bm_rowid m = next_rowid (db_messages s) \<and> bm_id m = uid
    \<and> uid \<notin> bm_id ` set (db_messages s)
    \<and> s' = s\<lparr>db_messages := db_messages s @ [m], db_threads := touched (py_strip owner) tid now (db_threads s)\<rparr>"
  then obtain m t where m: "t \<in> set (db_threads s)" "bt_id t = tid" "bm_thread m = tid"
    "bm_rowid m = next_rowid (db_messages s)" "bm_id m = uid" "uid \<notin> bm_id ` set (db_messages s)"
    "s' = s\<lparr>db_messages := db_messages s @ [m], db_threads := touched (py_strip owner) tid now (db_threads s)\<rparr>" by blast
  have "sorted_wrt (<) (map bm_rowid (db_messages s @ [m]))"
    using assms(2) m(4) next_rowid_fresh(1) by (auto simp: bt_ok_def sorted_wrt_append)
  moreover have "bm_thread m \<in> bt_id ` set (db_threads s)" using m(1-3) by blast
  ultimately show ?thesis
    using assms(2) m(4-7) next_rowid_fresh(2) [of "db_messages s"] unfolding bt_ok_def by (auto simp: touched_mem)
qed (use assms(2) in simp)

lemma set_summary_ok:
  assumes "set_summary owner tid content up_to uid now s = (w, s')" "bt_ok s"
  shows "bt_ok s'"
  using set_summary_cases [OF assms(1)]
proof
  assume "\<exists>x t. w = Inr x \<and> t \<in> set (db_threads s) \<and> bt_id t = tid \<and> bt_owner t = py_strip owner
    \<and> sm_thread x = tid \<and> sm_owner x = py_strip owner \<and> sm_content x = content \<and> sm_up_to x = up_to
    \<and> (\<exists>m \<in> set (db_messages s). bm_thread m = tid \<and> bm_rowid m = up_to)
    \<and> s' = s\<lparr>db_summaries := filter (\<lambda>y. \<not> (sm_thread y = tid \<and> sm_owner y = py_strip owner)) (db_summaries s) @ [x]\<rparr>"
  then obtain x t where x: "t \<in> set (db_threads s)" "bt_id t = tid" "bt_owner t = py_strip owner"
    "sm_thread x = tid" "sm_owner x = py_strip owner" "sm_up_to x = up_to"
    "\<exists>m \<in> set (db_messages s). bm_thread m = tid \<and> bm_rowid m = up_to"
    "s' = s\<lparr>db_summaries := filter (\<lambda>y. \<not> (sm_thread y = tid \<and> sm_owner y = py_strip owner)) (db_summaries s) @ [x]\<rparr>" by blast
  have "distinct (map (\<lambda>x. (sm_thread x, sm_owner x)) (db_summaries s'))"
    using assms(2) x(4,5,8) by (auto simp: bt_ok_def distinct_map_filter)
  then show ?thesis using assms(2) x unfolding bt_ok_def by auto
qed (use assms(2) in simp)

lemma set_active_cases:
  assumes "set_active_thread owner tid now s = (w, s')"
  shows "isl w \<and> s' = s \<or> (\<exists>t. w = Inr t \<and> get_thread owner tid s = Inr t
    \<and> s' = s\<lparr>db_active := AList.update owner (bt_id t, now) (db_active s)\<rparr>)"
proof (cases "get_thread owner tid s")
  case (Inl e)
  then have "w = Inl e \<and> s' = s" using assms by (simp add: set_active_thread_def)
  then show ?thesis by simp
next
  case (Inr t)
  then have "w = Inr t \<and> s' = s\<lparr>db_active := AList.update owner (bt_id t, now) (db_active s)\<rparr>"
    using assms by (simp add: set_active_thread_def)
  then show ?thesis using Inr by blast
qed

lemma set_active_ok: "set_active_thread owner tid now s = (w, s') \<Longrightarrow> bt_ok s \<Longrightarrow> bt_ok s'"
  by (auto simp: bt_ok_def dest!: set_active_cases)

lemma clear_active_cases:
  assumes "clear_active_thread owner s = (w, s')"
  shows "s' = s \<or> s' = s\<lparr>db_active := AList.delete (py_strip owner) (db_active s)\<rparr>"
  using assms by (auto simp: clear_active_thread_def bind_res_eq_Inr dest!: require_Inr split: sum.splits)

lemma clear_active_ok: "clear_active_thread owner s = (w, s') \<Longrightarrow> bt_ok s \<Longrightarrow> bt_ok s'"
  by (auto simp: bt_ok_def dest!: clear_active_cases)

section \<open>Owners\<close>

text \<open>What one owner's methods can see.\<close>

record owner_view =
  ov_workspaces :: "bt_workspace list"
  ov_threads :: "bt_thread list"
  ov_messages :: "bt_message list"
  ov_summaries :: "bt_summary list"
  ov_active :: "(str \<times> int) option"
  ov_open :: bool

definition view_of :: "str \<Rightarrow> bt_db \<Rightarrow> owner_view" where
  "view_of u s = \<lparr>ov_workspaces = filter (\<lambda>w. bw_owner w = u) (db_workspaces s),
     ov_threads = filter (\<lambda>t. bt_owner t = u) (db_threads s),
     ov_messages = filter (\<lambda>m. \<exists>t \<in> set (db_threads s). bt_id t = bm_thread m \<and> bt_owner t = u) (db_messages s),
     ov_summaries = filter (\<lambda>x. sm_owner x = u) (db_summaries s),
     ov_active = map_of (db_active s) u, ov_open = db_open s\<rparr>"

text \<open>The methods of another owner leave the view as it is.\<close>

lemma create_workspace_view:
  "create_workspace owner title uid now s = (w, s') \<Longrightarrow> py_strip owner \<noteq> u \<Longrightarrow> view_of u s' = view_of u s"
  by (auto simp: view_of_def dest!: create_workspace_cases)

lemma create_thread_view:
  assumes "create_thread owner wid title parent uid now s = (w, s')" "py_strip owner \<noteq> u"
  shows "view_of u s' = view_of u s"
  using create_thread_cases [OF assms(1)] assms(2) by (auto simp: view_of_def)

lemma append_message_view:
  assumes "append_message owner tid role content uid now s = (w, s')" "py_strip owner \<noteq> u" "bt_ok s"
  shows "view_of u s' = view_of u s"
  using append_message_cases [OF assms(1)]
proof
  assume "\<exists>m t. w = Inr m \<and> t \<in> set (db_threads s) \<and> bt_id t = tid \<and> bt_owner t = py_strip owner
    \<and> bm_thread m = tid \<and> bm_rowid m = next_rowid (db_messages s) \<and> bm_id m = uid
    \<and> uid \<notin> bm_id ` set (db_messages s)
    \<and> s' = s\<lparr>db_messages := db_messages s @ [m], db_threads := touched (py_strip owner) tid now (db_threads s)\<rparr>"
  then obtain m t where m: "t \<in> set (db_threads s)" "bt_id t = tid" "bt_owner t = py_strip owner" "bm_thread m = tid"
    "s' = s\<lparr>db_messages := db_messages s @ [m], db_threads := touched (py_strip owner) tid now (db_threads s)\<rparr>" by blast
  have "\<not> (\<exists>t' \<in> set (db_threads s). bt_id t' = tid \<and> bt_owner t' = u)"
    using m(1-3) assms(2,3) by (auto simp: bt_ok_def distinct_map inj_on_def)
  moreover have "filter (\<lambda>t. bt_owner t = u) (touched (py_strip owner) tid now ts) = filter (\<lambda>t. bt_owner t = u) ts" for ts
    using assms(2) unfolding touched_def by (induction ts) auto
  ultimately show ?thesis using m(4,5) by (simp add: view_of_def touched_mem)
qed simp

lemma set_summary_view:
  assumes "set_summary owner tid content up_to uid now s = (w, s')" "py_strip owner \<noteq> u"
  shows "view_of u s' = view_of u s"
proof -
  have "filter (\<lambda>x. sm_owner x = u) (filter (\<lambda>y. \<not> (sm_thread y = tid \<and> sm_owner y = py_strip owner)) xs)
      = filter (\<lambda>x. sm_owner x = u) xs" for xs
    using assms(2) by (induction xs) auto
  then show ?thesis using set_summary_cases [OF assms(1)] assms(2) by (auto simp: view_of_def)
qed

lemma set_active_view:
  assumes "set_active_thread owner tid now s = (w, s')" "py_strip owner \<noteq> u" "py_strip u = u"
  shows "view_of u s' = view_of u s"
  using set_active_cases [OF assms(1)] assms(2,3) by (auto simp: view_of_def)

lemma clear_active_view:
  "clear_active_thread owner s = (w, s') \<Longrightarrow> py_strip owner \<noteq> u \<Longrightarrow> view_of u s' = view_of u s"
  by (auto simp: view_of_def dest!: clear_active_cases)

text \<open>The answers to an owner are those of the view.\<close>

lemma find_filter: "find P (filter Q xs) = find (\<lambda>x. Q x \<and> P x) xs"
  by (induction xs) auto

lemma thread_or_raise_view:
  "thread_or_raise u tid s = (if ov_open (view_of u s) then
     (case find (\<lambda>t. bt_id t = tid) (ov_threads (view_of u s)) of None \<Rightarrow> Inl (Key_Error tid) | Some t \<Rightarrow> Inr t)
     else Inl Store_Closed)"
  by (simp add: thread_or_raise_def connection_def view_of_def find_filter conj_commute)

lemma workspace_or_raise_view:
  "workspace_or_raise u wid s = (if ov_open (view_of u s) then
     (if list_ex (\<lambda>w. bw_id w = wid) (ov_workspaces (view_of u s)) then Inr () else Inl (Key_Error wid)) else Inl Store_Closed)"
  by (auto simp: workspace_or_raise_def connection_def view_of_def list_ex_iff)

lemma messages_view:
  assumes "thread_or_raise u tid s = Inr t"
  shows "filter (\<lambda>m. bm_thread m = tid) (db_messages s) = filter (\<lambda>m. bm_thread m = tid) (ov_messages (view_of u s))"
  using thread_or_raise_Inr [OF assms] by (auto simp: view_of_def intro!: filter_cong)

lemma same_threads:
  assumes "view_of u s = view_of u s'"
  shows "thread_or_raise u tid s = thread_or_raise u tid s'" "workspace_or_raise u wid s = workspace_or_raise u wid s'"
    "connection s = connection s'"
  using assms by (simp_all add: thread_or_raise_view workspace_or_raise_view) (simp add: view_of_def connection_def)

text \<open>A method that checks owner and id, finds the thread and answers from it.\<close>

lemma same_answer:
  assumes "view_of (py_strip owner) s = view_of (py_strip owner) s'"
    "\<And>t. thread_or_raise (py_strip owner) i s = Inr t \<Longrightarrow> thread_or_raise (py_strip owner) i s' = Inr t
      \<Longrightarrow> f (py_strip owner) s t = f (py_strip owner) s' t"
  shows "bind_res (owned owner i) (\<lambda>o1. bind_res (thread_or_raise o1 i s) (f o1 s))
    = bind_res (owned owner i) (\<lambda>o1. bind_res (thread_or_raise o1 i s') (f o1 s'))"
proof (cases "owned owner i")
  case (Inr o1)
  then show ?thesis
    using same_threads(1) [OF assms(1), of i] assms(2) owned_Inr [OF Inr] by (cases "thread_or_raise o1 i s") auto
qed simp

lemma sort_filter_view:
  "thread_or_raise u tid s = Inr t \<Longrightarrow> thread_messages tid s = sort_key bm_rowid (filter (\<lambda>m. bm_thread m = tid) (ov_messages (view_of u s)))"
  by (simp add: thread_messages_def messages_view)

text \<open>An owner's answers depend on the owner's own rows only: two stores that agree on what
  belongs to the owner (workspaces, threads, messages in these, summaries, active thread) give the
  same answers, error or not, to every reading method. A foreign id and an unknown id cannot be
  told apart.\<close>

lemma answers_depend_on_own_rows:
  assumes "view_of (py_strip owner) s = view_of (py_strip owner) s'"
  shows "list_workspaces owner s = list_workspaces owner s' \<and> list_threads owner i s = list_threads owner i s'
    \<and> get_thread owner i s = get_thread owner i s' \<and> list_message_rows owner i s = list_message_rows owner i s'
    \<and> count_messages owner i s = count_messages owner i s' \<and> get_summary owner i s = get_summary owner i s'
    \<and> get_active_thread owner s = get_active_thread owner s'"
proof (intro conjI)
  let ?u = "py_strip owner"
  note same = same_threads [OF assms]
  have fields: "filter (\<lambda>w. bw_owner w = ?u) (db_workspaces s) = filter (\<lambda>w. bw_owner w = ?u) (db_workspaces s')"
    "filter (\<lambda>t. bt_owner t = ?u) (db_threads s) = filter (\<lambda>t. bt_owner t = ?u) (db_threads s')"
    "filter (\<lambda>x. sm_owner x = ?u) (db_summaries s) = filter (\<lambda>x. sm_owner x = ?u) (db_summaries s')"
    "map_of (db_active s) ?u = map_of (db_active s') ?u"
    using assms by (simp_all add: view_of_def)
  have threads: "find (\<lambda>t. P t \<and> bt_owner t = ?u) (db_threads s) = find (\<lambda>t. P t \<and> bt_owner t = ?u) (db_threads s')"
      "filter (\<lambda>t. P t \<and> bt_owner t = ?u) (db_threads s) = filter (\<lambda>t. P t \<and> bt_owner t = ?u) (db_threads s')" for P
    using arg_cong [OF fields(2), of "find P"] arg_cong [OF fields(2), of "filter P"]
    by (simp_all add: find_filter conj_commute)
  have summaries: "summary_of ?u i s = summary_of ?u i s'"
    using arg_cong [OF fields(3), of "find (\<lambda>x. sm_thread x = i)"] by (simp add: summary_of_def find_filter conj_commute)
  show "list_workspaces owner s = list_workspaces owner s'"
    by (cases "require_nonblank owner") (auto simp: list_workspaces_def same fields dest: require_Inr)
  show "list_threads owner i s = list_threads owner i s'"
    by (cases "owned owner i") (auto simp: list_threads_def same threads dest!: owned_Inr)
  show "get_thread owner i s = get_thread owner i s'"
    by (cases "owned owner i") (auto simp: get_thread_def same dest!: owned_Inr)
  show "list_message_rows owner i s = list_message_rows owner i s'"
    unfolding list_message_rows_def by (rule same_answer [OF assms]) (simp add: sort_filter_view assms)
  show "count_messages owner i s = count_messages owner i s'"
    unfolding count_messages_def by (rule same_answer [OF assms]) (simp add: messages_view assms)
  show "get_summary owner i s = get_summary owner i s'"
    unfolding get_summary_def by (rule same_answer [OF assms]) (simp add: summaries)
  show "get_active_thread owner s = get_active_thread owner s'"
    by (cases "require_nonblank owner")
      (auto simp: get_active_thread_def same fields threads split: option.splits dest: require_Inr)
qed

end
