(* ===== verification/Butler_Context.thy ===== *)
theory Butler_Context
  imports Butler_Threads Json_Text
begin

text \<open>
  The butler's conversational context, \<open>src/agency/butler/context.py\<close>: the rolling summary, the
  verbatim window and the topical recall of one thread.

  \<open>ell\<close> is the ellipsis character, which lies outside the code points of the model. \<open>recall\<close> is
  the search in the shared memory: for an agent id, a query and a limit it gives the contents it
  finds, or nothing when it raises. The window and the recall limit are natural numbers.
\<close>

section \<open>Text\<close>

definition clip :: "char \<Rightarrow> str \<Rightarrow> nat \<Rightarrow> str" where
  "clip ell text limit = (let t = py_strip text in
     if length t \<le> limit then t else py_rstrip (take (limit - 1) t) @ [ell])"

definition summary_line :: "char \<Rightarrow> bt_message \<Rightarrow> str" where
  "summary_line ell m =
     ''- ['' @ (if bm_role m = ''user'' then ''user'' else ''agent'') @ ''] '' @ clip ell (bm_content m) 300"

definition summarize_lines :: "char \<Rightarrow> bt_message list \<Rightarrow> str" where
  "summarize_lines ell ms = (let text = joined [newline] (map (summary_line ell) ms) in
     if length text > 2000 then ell # last_n 2000 text else text)"

definition render_window :: "char \<Rightarrow> bt_message list \<Rightarrow> str" where
  "render_window ell ms =
     joined [newline] (map (\<lambda>m. ''['' @ bm_role m @ ''] '' @ clip ell (bm_content m) 300) ms)"

record thread_context =
  tc_thread :: str
  tc_owner :: str
  tc_summary :: str
  tc_window :: str
  tc_topical :: str

definition context_empty :: "thread_context \<Rightarrow> bool" where
  "context_empty c = (tc_summary c = [] \<and> tc_window c = [] \<and> tc_topical c = [])"

definition render_context :: "thread_context \<Rightarrow> str" where
  "render_context c = joined [newline, newline]
     ((if tc_summary c = [] then [] else [''Thread summary (older conversation):'' @ [newline] @ tc_summary c])
      @ (if tc_window c = [] then [] else [''Recent conversation:'' @ [newline] @ tc_window c])
      @ (if tc_topical c = [] then [] else [''Earlier in this thread (topically relevant):'' @ [newline] @ tc_topical c]))"

section \<open>The engine\<close>

definition summarize_prefix :: "char \<Rightarrow> nat \<Rightarrow> str \<Rightarrow> str \<Rightarrow> int option \<Rightarrow> str \<Rightarrow> int \<Rightarrow> bt_db
    \<Rightarrow> (bt_db, bt_error, bt_summary) outcome" where
  "summarize_prefix ell window owner tid up_to uid now s =
     (case list_message_rows owner tid s of
        Inl e \<Rightarrow> (Inl e, s)
      | Inr rows \<Rightarrow>
          if rows = [] then (Inl No_Messages, s)
          else if up_to = None \<and> length rows \<le> window then (Inl Within_Window, s)
          else let bound = (case up_to of Some b \<Rightarrow> b | None \<Rightarrow> bm_rowid (rows ! (length rows - (window + 1))));
                   covered = filter (\<lambda>m. bm_rowid m \<le> bound) rows
               in if covered = [] then (Inl Covers_Nothing, s)
                  else set_summary owner tid (summarize_lines ell covered) bound uid now s)"

definition topical_recall :: "(str \<Rightarrow> str \<Rightarrow> nat \<Rightarrow> str list option) \<Rightarrow> nat \<Rightarrow> str \<Rightarrow> str \<Rightarrow> str" where
  "topical_recall recall limit tid message =
     (case recall (''thread-'' @ tid) message limit of
        None \<Rightarrow> []
      | Some items \<Rightarrow> joined [newline] (map (\<lambda>c. ''- '' @ take 300 c) items))"

text \<open>\<open>window_rows[-self._window:]\<close>: from zero the whole list.\<close>

definition last_rows :: "nat \<Rightarrow> 'a list \<Rightarrow> 'a list" where
  "last_rows n xs = (if n = 0 then xs else last_n n xs)"

text \<open>The part of \<open>assemble\<close> before the rendering: the summary's text and the rowid it covers,
  extended to everything behind the window when it lags.\<close>

definition extend_summary :: "char \<Rightarrow> nat \<Rightarrow> str \<Rightarrow> str \<Rightarrow> bt_message list \<Rightarrow> bt_summary option \<Rightarrow> str \<Rightarrow> int
    \<Rightarrow> bt_db \<Rightarrow> (bt_db, bt_error, str \<times> int) outcome" where
  "extend_summary ell window owner tid rows x uid now s =
     (let (text0, covered0) = (case x of None \<Rightarrow> ([], 0) | Some y \<Rightarrow> (sm_content y, sm_up_to y));
          start = length rows - min window (length rows);
          boundary = bm_rowid (rows ! (start - 1))
      in if start > 0 \<and> covered0 < boundary
         then (case summarize_prefix ell window owner tid (Some boundary) uid now s of
             (Inl e, s1) \<Rightarrow> (Inl e, s1)
           | (Inr y, s1) \<Rightarrow> (Inr (sm_content y, sm_up_to y), s1))
         else (Inr (text0, covered0), s))"

definition assemble :: "char \<Rightarrow> (str \<Rightarrow> str \<Rightarrow> nat \<Rightarrow> str list option) \<Rightarrow> nat \<Rightarrow> nat \<Rightarrow> str \<Rightarrow> str \<Rightarrow> str \<Rightarrow> bool
    \<Rightarrow> str \<Rightarrow> int \<Rightarrow> bt_db \<Rightarrow> (bt_db, bt_error, thread_context) outcome" where
  "assemble ell recall window limit owner tid message local_only uid now s =
     (case bind_res (list_message_rows owner tid s) (\<lambda>rows. bind_res (get_summary owner tid s) (\<lambda>x. Inr (rows, x))) of
        Inl e \<Rightarrow> (Inl e, s)
      | Inr (rows, x) \<Rightarrow>
          (case extend_summary ell window owner tid rows x uid now s of
             (Inl e, s1) \<Rightarrow> (Inl e, s1)
           | (Inr (text, covered), s1) \<Rightarrow>
               (Inr \<lparr>tc_thread = tid, tc_owner = owner, tc_summary = text,
                  tc_window = render_window ell (last_rows window (filter (\<lambda>m. bm_rowid m > covered) rows)),
                  tc_topical = (if local_only then [] else topical_recall recall limit tid message)\<rparr>, s1)))"

text \<open>What \<open>record_turn\<close> hands to the shared memory, once the thread is known to be the owner's.\<close>

record memory_item =
  mi_agent :: str
  mi_content :: str
  mi_tags :: "str list"

definition record_turn :: "str \<Rightarrow> str \<Rightarrow> str \<Rightarrow> str \<Rightarrow> bt_db \<Rightarrow> (bt_error, memory_item) res" where
  "record_turn owner tid user_message reply s = bind_res (get_thread owner tid s) (\<lambda>_.
     Inr \<lparr>mi_agent = ''thread-'' @ tid,
       mi_content = ''[user] '' @ user_message @ [newline] @ ''[agent] '' @ reply,
       mi_tags = [''butler-thread'', tid, owner]\<rparr>)"

section \<open>Summaries stand for the messages they cover\<close>

lemma split_sorted:
  fixes c :: int
  assumes "sorted_wrt (\<lambda>a b. f a < f b) xs"
  shows "filter (\<lambda>x. f x \<le> c) xs = take (length (filter (\<lambda>x. f x \<le> c) xs)) xs
    \<and> filter (\<lambda>x. f x > c) xs = drop (length (filter (\<lambda>x. f x \<le> c) xs)) xs"
  using assms
proof (induction xs)
  case (Cons x xs)
  show ?case
  proof (cases "f x \<le> c")
    case True
    then show ?thesis using Cons by auto
  next
    case False
    then have "filter (\<lambda>x. f x \<le> c) xs = []" "filter (\<lambda>x. f x > c) xs = xs"
      using Cons.prems by (auto simp: filter_empty_conv filter_id_conv)
    then show ?thesis using False by simp
  qed
qed simp

lemma thread_messages_eq: "bt_ok s \<Longrightarrow> thread_messages tid s = filter (\<lambda>m. bm_thread m = tid) (db_messages s)"
  unfolding thread_messages_def bt_ok_def
  by (intro sort_key_id_if_sorted) (auto simp: sorted_wrt_map intro!: sorted_wrt_filter elim!: sorted_wrt_mono_rel [rotated])

lemma thread_messages_sorted: "bt_ok s \<Longrightarrow> sorted_wrt (\<lambda>a b. bm_rowid a < bm_rowid b) (thread_messages tid s)"
  by (simp add: thread_messages_eq) (simp add: bt_ok_def sorted_wrt_map sorted_wrt_filter)

definition summaries_ok :: "char \<Rightarrow> bt_db \<Rightarrow> bool" where
  "summaries_ok ell s \<longleftrightarrow> (\<forall>x \<in> set (db_summaries s).
     sm_content x = summarize_lines ell (filter (\<lambda>m. bm_rowid m \<le> sm_up_to x) (thread_messages (sm_thread x) s)))"

definition engine_ok :: "char \<Rightarrow> bt_db \<Rightarrow> bool" where
  "engine_ok ell s = (bt_ok s \<and> summaries_ok ell s)"

lemma summaries_ok_cong:
  "db_messages s' = db_messages s \<Longrightarrow> db_summaries s' = db_summaries s \<Longrightarrow> summaries_ok ell s' = summaries_ok ell s"
  by (simp add: summaries_ok_def thread_messages_def)

lemma create_workspace_engine: "create_workspace owner title uid now s = (w, s') \<Longrightarrow> engine_ok ell s \<Longrightarrow> engine_ok ell s'"
  using create_workspace_ok create_workspace_cases by (fastforce simp: engine_ok_def summaries_ok_def thread_messages_def)

lemma create_thread_engine: "create_thread owner wid title parent uid now s = (w, s') \<Longrightarrow> engine_ok ell s \<Longrightarrow> engine_ok ell s'"
  using create_thread_ok create_thread_cases by (fastforce simp: engine_ok_def summaries_ok_def thread_messages_def)

lemma set_active_engine: "set_active_thread owner tid now s = (w, s') \<Longrightarrow> engine_ok ell s \<Longrightarrow> engine_ok ell s'"
  using set_active_ok set_active_cases by (fastforce simp: engine_ok_def summaries_ok_def thread_messages_def)

lemma clear_active_engine: "clear_active_thread owner s = (w, s') \<Longrightarrow> engine_ok ell s \<Longrightarrow> engine_ok ell s'"
  using clear_active_ok clear_active_cases by (fastforce simp: engine_ok_def summaries_ok_def thread_messages_def)

lemma append_message_engine:
  assumes "append_message owner tid role content uid now s = (w, s')" "engine_ok ell s"
  shows "engine_ok ell s'"
proof -
  have ok: "bt_ok s" "summaries_ok ell s" using assms(2) by (simp_all add: engine_ok_def)
  have ok': "bt_ok s'" by (rule append_message_ok [OF assms(1) ok(1)])
  have "summaries_ok ell s'"
  proof (cases "s' = s")
    case False
    then obtain m where m: "bm_rowid m = next_rowid (db_messages s)" "db_messages s' = db_messages s @ [m]"
        "db_summaries s' = db_summaries s"
      using append_message_cases [OF assms(1)] by auto
    have "filter (\<lambda>m. bm_rowid m \<le> sm_up_to x) (thread_messages (sm_thread x) s')
        = filter (\<lambda>m. bm_rowid m \<le> sm_up_to x) (thread_messages (sm_thread x) s)" if x: "x \<in> set (db_summaries s)" for x
    proof -
      obtain m0 where "m0 \<in> set (db_messages s)" "bm_rowid m0 = sm_up_to x" using ok(1) x unfolding bt_ok_def by blast
      then have "sm_up_to x < bm_rowid m" using next_rowid_fresh(1) m(1) by metis
      then show ?thesis using thread_messages_eq [OF ok(1)] thread_messages_eq [OF ok'] m(2) by simp
    qed
    then show ?thesis using ok(2) m(3) by (simp add: summaries_ok_def)
  qed (use ok in simp)
  with ok' show ?thesis by (simp add: engine_ok_def)
qed

lemma list_message_rows_Inr:
  "list_message_rows owner tid s = Inr rows \<Longrightarrow> rows = thread_messages tid s"
  by (auto simp: list_message_rows_def bind_res_eq_Inr)

lemma summarize_prefix_cases:
  assumes "summarize_prefix ell window owner tid up_to uid now s = (w, s')"
  shows "isl w \<and> s' = s \<or> (\<exists>bound. (\<forall>b. up_to = Some b \<longrightarrow> bound = b)
    \<and> set_summary owner tid (summarize_lines ell (filter (\<lambda>m. bm_rowid m \<le> bound) (thread_messages tid s))) bound uid now s = (w, s'))"
proof (cases "isl w \<and> s' = s")
  case False
  let ?b = "case up_to of Some b \<Rightarrow> b
    | None \<Rightarrow> bm_rowid (thread_messages tid s ! (length (thread_messages tid s) - (window + 1)))"
  have "set_summary owner tid (summarize_lines ell (filter (\<lambda>m. bm_rowid m \<le> ?b) (thread_messages tid s))) ?b uid now s = (w, s')"
    using assms False unfolding summarize_prefix_def Let_def
    by (auto dest!: list_message_rows_Inr split: sum.splits if_splits)
  then show ?thesis by (intro disjI2 exI [of _ ?b] conjI) auto
qed simp

lemma summarize_prefix_engine:
  assumes "summarize_prefix ell window owner tid up_to uid now s = (w, s')" "engine_ok ell s"
  shows "engine_ok ell s'"
  using summarize_prefix_cases [OF assms(1)]
proof
  assume "\<exists>bound. (\<forall>b. up_to = Some b \<longrightarrow> bound = b)
    \<and> set_summary owner tid (summarize_lines ell (filter (\<lambda>m. bm_rowid m \<le> bound) (thread_messages tid s))) bound uid now s = (w, s')"
  then obtain bound where S: "set_summary owner tid (summarize_lines ell
    (filter (\<lambda>m. bm_rowid m \<le> bound) (thread_messages tid s))) bound uid now s = (w, s')" by blast
  have "bt_ok s'" by (rule set_summary_ok [OF S]) (use assms(2) in \<open>simp add: engine_ok_def\<close>)
  then show ?thesis
    using set_summary_cases [OF S] assms(2) by (auto simp: engine_ok_def summaries_ok_def thread_messages_def)
qed (use assms(2) in simp)

lemma sorted_prefix_le:
  fixes c :: int
  assumes "sorted_wrt (\<lambda>a b. f a < f b) xs" "j < length xs" "f (xs ! j) \<le> c"
  shows "j < length (filter (\<lambda>x. f x \<le> c) xs)"
proof (rule ccontr)
  let ?n = "length (filter (\<lambda>x. f x \<le> c) xs)"
  assume "\<not> j < ?n"
  then have "drop ?n xs ! (j - ?n) = xs ! j" "j - ?n < length (drop ?n xs)" using assms(2) by simp_all
  then have "xs ! j \<in> set (drop ?n xs)" using nth_mem by metis
  moreover have "set (drop ?n xs) = set (filter (\<lambda>x. f x > c) xs)" using split_sorted [OF assms(1), of c] by simp
  ultimately show False using assms(3) by auto
qed

lemma extend_summary_state:
  assumes "extend_summary ell window owner tid rows x uid now s = (w, s')"
  shows "s' = s \<or> (\<exists>v b. summarize_prefix ell window owner tid (Some b) uid now s = (v, s'))"
  using assms unfolding extend_summary_def Let_def by (auto split: if_splits sum.splits prod.splits option.splits)

lemma assemble_state:
  assumes "assemble ell recall window limit owner tid message local_only uid now s = (w, s')"
  shows "s' = s \<or> (\<exists>v b. summarize_prefix ell window owner tid (Some b) uid now s = (v, s'))"
  using assms unfolding assemble_def
  by (auto dest!: extend_summary_state split: sum.splits prod.splits)

lemma assemble_engine:
  "assemble ell recall window limit owner tid message local_only uid now s = (w, s') \<Longrightarrow> engine_ok ell s \<Longrightarrow> engine_ok ell s'"
  using assemble_state summarize_prefix_engine by metis

lemma get_summary_Inr:
  "get_summary owner tid s = Inr x \<Longrightarrow> x = summary_of (py_strip owner) tid s"
  by (auto simp: get_summary_def bind_res_eq_Inr dest!: owned_Inr)

lemma stored_summary:
  assumes "engine_ok ell s" "summary_of owner tid s = Some y"
  shows "sm_content y = summarize_lines ell (filter (\<lambda>m. bm_rowid m \<le> sm_up_to y) (thread_messages tid s))
    \<and> filter (\<lambda>m. bm_rowid m \<le> sm_up_to y) (thread_messages tid s) \<noteq> []"
proof -
  have y: "y \<in> set (db_summaries s)" "sm_thread y = tid"
    using find_SomeD [OF assms(2) [unfolded summary_of_def]] by simp_all
  have "bt_ok s" using assms(1) by (simp add: engine_ok_def)
  moreover from this y obtain m where "m \<in> set (db_messages s)" "bm_thread m = tid" "bm_rowid m = sm_up_to y"
    unfolding bt_ok_def by blast
  ultimately have "m \<in> set (filter (\<lambda>m. bm_rowid m \<le> sm_up_to y) (thread_messages tid s))"
    by (simp add: thread_messages_eq)
  then have "filter (\<lambda>m. bm_rowid m \<le> sm_up_to y) (thread_messages tid s) \<noteq> []" by (metis empty_iff list.set(1))
  then show ?thesis using assms(1) y by (simp add: engine_ok_def summaries_ok_def)
qed

text \<open>After the extension the summary stands for a prefix of the thread that reaches the window.\<close>

lemma extend_summary_covers:
  fixes ell tid s window
  defines "rows \<equiv> thread_messages tid s"
  assumes E: "extend_summary ell window owner tid rows (summary_of (py_strip owner) tid s) uid now s = (Inr (text, c), s')"
    and ok: "engine_ok ell s"
  shows "length rows - min window (length rows) \<le> length (filter (\<lambda>m. bm_rowid m \<le> c) rows)
    \<and> text = (if filter (\<lambda>m. bm_rowid m \<le> c) rows = [] then [] else summarize_lines ell (filter (\<lambda>m. bm_rowid m \<le> c) rows))"
proof -
  let ?start = "length rows - min window (length rows)" and ?x = "summary_of (py_strip owner) tid s"
  let ?b = "bm_rowid (rows ! (?start - 1))" and ?c0 = "case ?x of None \<Rightarrow> 0 | Some y \<Rightarrow> sm_up_to y"
  have bt: "bt_ok s" using ok by (simp add: engine_ok_def)
  have sorted: "sorted_wrt (\<lambda>a b. bm_rowid a < bm_rowid b) rows"
    unfolding rows_def by (rule thread_messages_sorted [OF bt])
  have pos: "\<forall>m \<in> set rows. 0 < bm_rowid m"
    using bt unfolding rows_def by (auto simp: thread_messages_eq [OF bt] bt_ok_def)
  have reach: "?start \<le> length (filter (\<lambda>m. bm_rowid m \<le> c) rows)" if "0 < ?start" "?b \<le> c"
  proof -
    have "?start - 1 < length rows" using that(1) by simp
    from sorted_prefix_le [OF sorted this that(2)] show ?thesis by linarith
  qed
  show ?thesis
  proof (cases "0 < ?start \<and> ?c0 < ?b")
    case True
    then obtain y where S: "summarize_prefix ell window owner tid (Some ?b) uid now s = (Inr y, s')"
        and y: "text = sm_content y" "c = sm_up_to y"
      using E by (auto simp: extend_summary_def Let_def split: option.splits sum.splits prod.splits)
    have "set_summary owner tid (summarize_lines ell (filter (\<lambda>m. bm_rowid m \<le> ?b) rows)) ?b uid now s = (Inr y, s')"
      using summarize_prefix_cases [OF S] by (auto simp: rows_def)
    then have "sm_content y = summarize_lines ell (filter (\<lambda>m. bm_rowid m \<le> ?b) rows)" "sm_up_to y = ?b"
      by (auto dest!: set_summary_cases)
    then show ?thesis using y reach True by auto
  next
    case False
    then have tc: "text = (case ?x of None \<Rightarrow> [] | Some y \<Rightarrow> sm_content y)" "c = ?c0"
      using E by (auto simp: extend_summary_def Let_def min_def split: option.splits if_splits)
    have "?start \<le> length (filter (\<lambda>m. bm_rowid m \<le> c) rows)" using reach False tc(2) by (cases "0 < ?start") auto
    moreover have "text = (if filter (\<lambda>m. bm_rowid m \<le> c) rows = [] then [] else summarize_lines ell (filter (\<lambda>m. bm_rowid m \<le> c) rows))"
    proof (cases ?x)
      case None
      then show ?thesis using tc pos by (auto simp: filter_empty_conv)
    next
      case (Some y)
      show ?thesis using stored_summary [OF ok Some] tc Some by (simp add: rows_def)
    qed
    ultimately show ?thesis by blast
  qed
qed

lemma assembled_facts:
  assumes "assemble ell recall window limit owner tid message local_only uid now s = (Inr c, s')" "engine_ok ell s"
  shows "\<exists>k rows. list_message_rows owner tid s = Inr rows \<and> length (drop k rows) \<le> window
    \<and> tc_summary c = (if take k rows = [] then [] else summarize_lines ell (take k rows))
    \<and> tc_window c = render_window ell (drop k rows)"
proof -
  obtain rows x where R: "list_message_rows owner tid s = Inr rows" "get_summary owner tid s = Inr x"
    using assms(1) by (auto simp: assemble_def bind_res_eq_Inr split: sum.splits)
  note rows = list_message_rows_Inr [OF R(1)] and x = get_summary_Inr [OF R(2)]
  obtain t0 b where E: "extend_summary ell window owner tid rows x uid now s = (Inr (t0, b), s')"
      and c: "tc_summary c = t0" "tc_window c = render_window ell (last_rows window (filter (\<lambda>m. bm_rowid m > b) rows))"
    using assms(1) by (auto simp: assemble_def R split: sum.splits prod.splits)
  let ?k = "length (filter (\<lambda>m. bm_rowid m \<le> b) rows)"
  have "bt_ok s" using assms(2) by (simp add: engine_ok_def)
  from split_sorted [OF thread_messages_sorted [OF this, of tid], of b]
  have split: "filter (\<lambda>m. bm_rowid m \<le> b) rows = take ?k rows" "filter (\<lambda>m. bm_rowid m > b) rows = drop ?k rows"
    by (simp_all add: rows)
  note covers = extend_summary_covers [OF E [unfolded rows x] assms(2), folded rows]
  have few: "length (drop ?k rows) \<le> window" using covers by (simp; linarith)
  then have "last_rows window (drop ?k rows) = drop ?k rows" by (simp add: last_rows_def last_n_def)
  then have "tc_window c = render_window ell (drop ?k rows)" using c(2) split(2) by simp
  moreover have "tc_summary c = (if take ?k rows = [] then [] else summarize_lines ell (take ?k rows))"
    using covers c(1) split(1) by metis
  ultimately show ?thesis using R(1) few by blast
qed

text \<open>An assembly for a thread of its owner's returns.\<close>

lemma joined_hd: "x \<noteq> [] \<Longrightarrow> \<exists>r. joined sep (x # xs) = hd x # r"
  by (cases xs; cases x) auto

lemma summarize_lines_nonblank:
  assumes "ms \<noteq> []" "\<not> py_space ell"
  shows "py_strip (summarize_lines ell ms) \<noteq> []"
proof -
  obtain m ms' where ms: "ms = m # ms'" using assms(1) by (cases ms) auto
  obtain r where r: "joined [newline] (map (summary_line ell) ms) = CHR ''-'' # r"
    using joined_hd [of "summary_line ell m" "[newline]" "map (summary_line ell) ms'"]
    by (auto simp: ms summary_line_def)
  have "\<not> py_space CHR ''-''" by code_simp
  then show ?thesis using assms(2) r by (auto simp: summarize_lines_def Let_def py_strip_Nil_iff)
qed

lemma set_summary_returns:
  assumes "get_thread owner tid s = Inr t" "py_strip content \<noteq> []" "0 < up_to"
    "m \<in> set (db_messages s)" "bm_thread m = tid" "bm_rowid m = up_to" "uid \<notin> sm_id ` set (db_summaries s)"
  shows "\<not> isl (fst (set_summary owner tid content up_to uid now s))"
  using assms by (auto simp: get_thread_def set_summary_def bind_res_eq_Inr require_content_def list_ex_iff Let_def split: sum.splits if_splits)

lemma get_thread_rows:
  assumes "get_thread owner tid s = Inr t"
  shows "list_message_rows owner tid s = Inr (thread_messages tid s)
    \<and> get_summary owner tid s = Inr (summary_of (py_strip owner) tid s)"
  using assms owned_Inr by (fastforce simp: get_thread_def list_message_rows_def get_summary_def bind_res_eq_Inr)

lemma summarize_prefix_returns:
  assumes "get_thread owner tid s = Inr t" "engine_ok ell s" "uid \<notin> sm_id ` set (db_summaries s)" "\<not> py_space ell"
    "m \<in> set (thread_messages tid s)"
  shows "\<not> isl (fst (summarize_prefix ell window owner tid (Some (bm_rowid m)) uid now s))"
proof -
  have bt: "bt_ok s" using assms(2) by (simp add: engine_ok_def)
  let ?ms = "filter (\<lambda>x. bm_rowid x \<le> bm_rowid m) (thread_messages tid s)"
  have m: "m \<in> set (db_messages s)" "bm_thread m = tid" "0 < bm_rowid m"
    using assms(5) bt by (auto simp: thread_messages_eq [OF bt] bt_ok_def)
  have ne: "?ms \<noteq> []" "thread_messages tid s \<noteq> []" using assms(5) by (auto simp: filter_empty_conv)
  have "\<not> isl (fst (set_summary owner tid (summarize_lines ell ?ms) (bm_rowid m) uid now s))"
    by (rule set_summary_returns [OF assms(1) summarize_lines_nonblank [OF ne(1) assms(4)] m(3,1,2) refl assms(3)])
  then show ?thesis using ne get_thread_rows [OF assms(1)] by (simp add: summarize_prefix_def Let_def)
qed

lemma assemble_returns:
  assumes "get_thread owner tid s = Inr t" "engine_ok ell s" "uid \<notin> sm_id ` set (db_summaries s)" "\<not> py_space ell"
  shows "\<not> isl (fst (assemble ell recall window limit owner tid message local_only uid now s))"
proof -
  let ?rows = "thread_messages tid s"
  let ?b = "?rows ! (length ?rows - min window (length ?rows) - 1)"
  have "\<not> isl (fst (summarize_prefix ell window owner tid (Some (bm_rowid ?b)) uid now s))"
    if "0 < length ?rows - min window (length ?rows)"
    using that by (intro summarize_prefix_returns [OF assms]) simp
  then have "\<not> isl (fst (extend_summary ell window owner tid ?rows (summary_of (py_strip owner) tid s) uid now s))"
    unfolding extend_summary_def Let_def by (auto simp: min_def split: prod.splits sum.splits option.splits if_splits)
  then show ?thesis unfolding assemble_def using get_thread_rows [OF assms(1)] by (auto split: prod.splits sum.splits)
qed

text \<open>C31: For a thread of its owner's the assembly of a turn's context returns, and leaves no message
  out: it splits the thread's messages at some point, the summary is the one the engine builds of the
  messages before it (none when there are none), the window shows all the messages after it, and these
  are at most the window's size; the store it leaves keeps its invariant.\<close>

theorem assemble_no_gap:
  assumes "get_thread owner tid s = Inr t" "engine_ok ell s" "uid \<notin> sm_id ` set (db_summaries s)" "\<not> py_space ell"
  shows "\<exists>c s' rows k. assemble ell recall window limit owner tid message local_only uid now s = (Inr c, s')
    \<and> engine_ok ell s' \<and> list_message_rows owner tid s = Inr rows \<and> length (drop k rows) \<le> window
    \<and> tc_summary c = (if take k rows = [] then [] else summarize_lines ell (take k rows))
    \<and> tc_window c = render_window ell (drop k rows)"
proof -
  obtain c s' where A: "assemble ell recall window limit owner tid message local_only uid now s = (Inr c, s')"
    using assemble_returns [OF assms, of recall window limit message local_only now]
    by (metis fst_conv isl_def old.sum.exhaust surj_pair)
  then show ?thesis using assembled_facts [OF A assms(2)] assemble_engine [OF A assms(2)] by blast
qed

definition ann_thread :: bt_thread where
  "ann_thread = \<lparr>bt_id = ''t1'', bt_workspace = ''w1'', bt_owner = ''ann'', bt_title = ''notes'', bt_parent = None,
     bt_state = ''active'', bt_created = 1, bt_updated = 5\<rparr>"

definition ann_store :: bt_db where
  "ann_store = \<lparr>db_workspaces = [\<lparr>bw_id = ''w1'', bw_owner = ''ann'', bw_title = ''Workspace'', bw_created = 0\<rparr>],
     db_threads = [ann_thread],
     db_messages = [\<lparr>bm_rowid = 1, bm_id = ''m1'', bm_thread = ''t1'', bm_role = ''user'', bm_content = ''hello'', bm_created = 2\<rparr>,
       \<lparr>bm_rowid = 2, bm_id = ''m2'', bm_thread = ''t1'', bm_role = ''assistant'', bm_content = ''hi'', bm_created = 3\<rparr>,
       \<lparr>bm_rowid = 3, bm_id = ''m3'', bm_thread = ''t1'', bm_role = ''user'', bm_content = ''again'', bm_created = 4\<rparr>],
     db_summaries = [], db_active = [(''ann'', ''t1'', 5)], db_open = True\<rparr>"

theorem assemble_no_gap_witness:
  "\<exists>c s' rows k. assemble (CHR ''~'') (\<lambda>_ _ _. None) 2 5 ''ann'' ''t1'' ''more'' False ''s1'' 6 ann_store = (Inr c, s')
    \<and> engine_ok (CHR ''~'') s' \<and> list_message_rows ''ann'' ''t1'' ann_store = Inr rows \<and> length (drop k rows) \<le> 2
    \<and> tc_summary c = (if take k rows = [] then [] else summarize_lines (CHR ''~'') (take k rows))
    \<and> tc_window c = render_window (CHR ''~'') (drop k rows)"
proof (rule assemble_no_gap)
  show "get_thread ''ann'' ''t1'' ann_store = Inr ann_thread" by code_simp
  show "engine_ok (CHR ''~'') ann_store" by code_simp
  show "''s1'' \<notin> sm_id ` set (db_summaries ann_store)" by code_simp
  show "\<not> py_space (CHR ''~'')" by code_simp
qed

end
