(* ===== verification/Butler_Commands.thy ===== *)
theory Butler_Commands
  imports Butler_Context
begin

text \<open>
  The butler's thread commands, \<open>src/agency/butler/commands.py\<close>, and the runs of the thread store
  under its methods, the context engine and the commands.

  A refused command is a constructor of \<open>cmd_error\<close> that carries what the message lists; the
  errors of the store pass through as \<open>From_Store\<close>. A command that makes several calls keeps what the
  earlier ones committed. The new ids and the clock's readings are arguments, one per call.
\<close>

section \<open>Commands\<close>

datatype cmd_error =
    From_Store bt_error | Usage_New | Usage_Switch | Ambiguous str "bt_thread list" | No_Titled str
  | Unknown_Command str

record cmd_result =
  cr_text :: str
  cr_thread :: "str option"
  cr_switched :: bool

definition parse_command :: "str \<Rightarrow> (str \<times> str) option" where
  "parse_command message = (let t = py_strip message in
     if t = [] \<or> hd t \<noteq> CHR ''/'' then None
     else if take 2 t = ''//'' then None
     else let rest = py_lstrip (tl t) in
       if rest = [] then None
       else Some (dropWhile (\<lambda>c. c = CHR ''/'') (py_lower (takeWhile (\<lambda>c. \<not> py_space c) rest)),
                  py_strip (dropWhile (\<lambda>c. \<not> py_space c) rest)))"

definition quoted :: "str \<Rightarrow> str" where
  "quoted v = [CHR 0x27] @ v @ [CHR 0x27]"

definition run_store :: "(bt_db, bt_error, 'a) outcome \<Rightarrow> ('a \<Rightarrow> bt_db \<Rightarrow> (bt_db, cmd_error, 'b) outcome)
    \<Rightarrow> (bt_db, cmd_error, 'b) outcome" where
  "run_store r f = (case r of (Inl e, s) \<Rightarrow> (Inl (From_Store e), s) | (Inr a, s) \<Rightarrow> f a s)"

primrec map_res :: "('a \<Rightarrow> ('e, 'b) res) \<Rightarrow> 'a list \<Rightarrow> ('e, 'b list) res" where
  "map_res f [] = Inr []"
| "map_res f (x # xs) = bind_res (f x) (\<lambda>y. bind_res (map_res f xs) (\<lambda>ys. Inr (y # ys)))"

definition default_workspace :: "str \<Rightarrow> str \<Rightarrow> int \<Rightarrow> bt_db \<Rightarrow> (bt_db, bt_error, bt_workspace) outcome" where
  "default_workspace owner uid now s =
     (case list_workspaces owner s of
        Inl e \<Rightarrow> (Inl e, s)
      | Inr (w # _) \<Rightarrow> (Inr w, s)
      | Inr [] \<Rightarrow> create_workspace owner ''Workspace'' uid now s)"

definition cmd_new :: "str \<Rightarrow> str \<Rightarrow> str \<times> str \<Rightarrow> int \<times> int \<times> int \<Rightarrow> bt_db \<Rightarrow> (bt_db, cmd_error, cmd_result) outcome" where
  "cmd_new owner title = (\<lambda>(uid_w, uid_t) (now_w, now_t, now_a) s.
     let clean = py_strip title in
     if clean = [] then (Inl Usage_New, s)
     else run_store (default_workspace owner uid_w now_w s) (\<lambda>w s1.
       run_store (create_thread owner (bw_id w) clean None uid_t now_t s1) (\<lambda>t s2.
       run_store (set_active_thread owner (bt_id t) now_a s2) (\<lambda>_ s3.
         (Inr \<lparr>cr_text = ''Created thread '' @ quoted (bt_title t) @ '' and switched to it. Thread id: '' @ bt_id t,
            cr_thread = Some (bt_id t), cr_switched = True\<rparr>, s3)))))"

definition thread_line :: "str \<Rightarrow> bt_thread option \<Rightarrow> bt_db \<Rightarrow> bt_thread \<Rightarrow> (bt_error, str) res" where
  "thread_line owner active s t = bind_res (count_messages owner (bt_id t) s) (\<lambda>n.
     Inr (''  - '' @ bt_title t @ '' ('' @ nat_text n @ '' messages)''
       @ (if active \<noteq> None \<and> bt_id t = bt_id (the active) then '' *active*'' else [])))"

definition workspace_lines :: "str \<Rightarrow> bt_thread option \<Rightarrow> bt_db \<Rightarrow> bt_workspace \<Rightarrow> (bt_error, str list) res" where
  "workspace_lines owner active s w = bind_res (list_threads owner (bw_id w) s) (\<lambda>ts.
     if ts = [] then Inr []
     else bind_res (map_res (thread_line owner active s) ts) (\<lambda>ls.
       Inr ((''Workspace '' @ quoted (bw_title w) @ '':'') # ls)))"

definition cmd_threads :: "str \<Rightarrow> bt_db \<Rightarrow> (bt_error, cmd_result) res" where
  "cmd_threads owner s = bind_res (get_active_thread owner s) (\<lambda>active. bind_res (list_workspaces owner s) (\<lambda>ws.
     bind_res (map_res (workspace_lines owner active s) ws) (\<lambda>lss.
       Inr \<lparr>cr_text = (if concat lss = [] then ''You have no threads yet. Create one with /new <title>.''
              else ''Your threads:'' @ [newline] @ joined [newline] (concat lss)),
            cr_thread = None, cr_switched = False\<rparr>)))"

definition owned_threads :: "str \<Rightarrow> bt_db \<Rightarrow> (bt_error, bt_thread list) res" where
  "owned_threads owner s = bind_res (list_workspaces owner s) (\<lambda>ws.
     bind_res (map_res (\<lambda>w. list_threads owner (bw_id w) s) ws) (\<lambda>tss. Inr (concat tss)))"

definition switch_to :: "str \<Rightarrow> bt_thread \<Rightarrow> int \<Rightarrow> bt_db \<Rightarrow> (bt_db, cmd_error, cmd_result) outcome" where
  "switch_to owner t now s = run_store (set_active_thread owner (bt_id t) now s) (\<lambda>_ s1.
     (Inr \<lparr>cr_text = ''Switched to '' @ quoted (bt_title t) @ ''. Your messages now continue this thread.'',
        cr_thread = Some (bt_id t), cr_switched = True\<rparr>, s1))"

definition cmd_switch :: "str \<Rightarrow> str \<Rightarrow> int \<Rightarrow> bt_db \<Rightarrow> (bt_db, cmd_error, cmd_result) outcome" where
  "cmd_switch owner ref now s = (let clean = py_strip ref in
     if clean = [] then (Inl Usage_Switch, s)
     else case owned_threads owner s of
         Inl e \<Rightarrow> (Inl (From_Store e), s)
       | Inr ts \<Rightarrow>
           (case find (\<lambda>t. bt_id t = clean) ts of
              Some t \<Rightarrow> switch_to owner t now s
            | None \<Rightarrow>
                (case filter (\<lambda>t. py_lower (py_strip (bt_title t)) = py_lower clean) ts of
                   [t] \<Rightarrow> switch_to owner t now s
                 | [] \<Rightarrow> (Inl (No_Titled clean), s)
                 | t # t' # rest \<Rightarrow> (Inl (Ambiguous clean (t # t' # rest)), s))))"

definition cmd_current :: "bool \<Rightarrow> str \<Rightarrow> bt_db \<Rightarrow> (bt_error, cmd_result) res" where
  "cmd_current engine owner s = bind_res (get_active_thread owner s) (\<lambda>active.
     case active of
       None \<Rightarrow> Inr \<lparr>cr_text = ''No active thread. Every message is a standalone turn. ''
           @ ''Use /new <title> or /switch <title> to work in a thread.'', cr_thread = None, cr_switched = False\<rparr>
     | Some t \<Rightarrow> bind_res (count_messages owner (bt_id t) s) (\<lambda>n.
         bind_res (if engine then bind_res (get_summary owner (bt_id t) s) (\<lambda>x. Inr
             [if x \<noteq> None then ''Older conversation is summarized in context.''
              else ''No summary yet; recent turns are carried verbatim.'']) else Inr []) (\<lambda>more.
         Inr \<lparr>cr_text = joined [newline] ([''Active thread: '' @ quoted (bt_title t) @ '' (id '' @ bt_id t @ '')'',
                ''Messages: '' @ nat_text n] @ more),
              cr_thread = Some (bt_id t), cr_switched = False\<rparr>)))"

definition execute_command :: "bool \<Rightarrow> str \<Rightarrow> str \<Rightarrow> str \<Rightarrow> str \<times> str \<Rightarrow> int \<times> int \<times> int \<Rightarrow> bt_db
    \<Rightarrow> (bt_db, cmd_error, cmd_result) outcome" where
  "execute_command engine owner command args uids nows s =
     (if command = ''new'' then cmd_new owner args uids nows s
      else if command = ''threads'' then (map_sum From_Store id (cmd_threads owner s), s)
      else if command = ''switch'' then cmd_switch owner args (snd (snd nows)) s
      else if command = ''current'' then (map_sum From_Store id (cmd_current engine owner s), s)
      else (Inl (Unknown_Command command), s))"

section \<open>Switching\<close>

lemma run_store_cases:
  assumes "run_store r f = (w, s')"
  shows "(\<exists>e. r = (Inl e, s') \<and> w = Inl (From_Store e)) \<or> (\<exists>a s1. r = (Inr a, s1) \<and> f a s1 = (w, s'))"
  using assms by (auto simp: run_store_def split: prod.splits sum.splits)

lemma map_res_Inr: "map_res f xs = Inr ys \<Longrightarrow> list_all2 (\<lambda>x y. f x = Inr y) xs ys"
  by (induction xs arbitrary: ys) (auto simp: bind_res_eq_Inr)

lemma list_threads_Inr:
  assumes "list_threads owner wid s = Inr ts"
  shows "set ts = {t \<in> set (db_threads s). bt_workspace t = wid \<and> bt_owner t = py_strip owner}"
  using assms by (auto simp: list_threads_def bind_res_eq_Inr oldest_first_def dest: owned_Inr)

lemma owned_threads_Inr:
  assumes "owned_threads owner s = Inr ts" "t \<in> set ts"
  shows "t \<in> set (db_threads s) \<and> bt_owner t = py_strip owner"
proof -
  obtain ws :: "bt_workspace list" and tss where T: "map_res (\<lambda>w. list_threads owner (bw_id w) s) ws = Inr tss" "concat tss = ts"
    using assms(1) unfolding owned_threads_def bind_res_eq_Inr sum.inject by blast
  then obtain xs where "xs \<in> set tss" "t \<in> set xs" using assms(2) by auto
  then obtain w :: bt_workspace where "list_threads owner (bw_id w) s = Inr xs"
    using map_res_Inr [OF T(1)] by (auto simp: list_all2_conv_all_nth in_set_conv_nth)
  then show ?thesis using list_threads_Inr \<open>t \<in> set xs\<close> by fastforce
qed

text \<open>Looking a thread up by its id finds that thread: ids are unique.\<close>

lemma find_thread:
  assumes "bt_ok s" "t \<in> set (db_threads s)" "bt_owner t = u"
  shows "find (\<lambda>x. bt_id x = bt_id t \<and> bt_owner x = u) (db_threads s) = Some t"
proof -
  have "distinct (map bt_id (db_threads s))" using assms(1) by (simp add: bt_ok_def)
  then have only: "x = t" if "x \<in> set (db_threads s)" "bt_id x = bt_id t" for x
    using that assms(2) by (simp add: distinct_map inj_on_def)
  obtain x where "find (\<lambda>x. bt_id x = bt_id t \<and> bt_owner x = u) (db_threads s) = Some x"
    using assms(2,3) by (cases "find (\<lambda>x. bt_id x = bt_id t \<and> bt_owner x = u) (db_threads s)") (auto simp: find_None_iff)
  then show ?thesis using only by (auto dest: find_SomeD)
qed

lemma active_after_set:
  assumes "set_active_thread owner tid now s = (Inr t, s')" "bt_ok s" "py_strip owner = owner"
  shows "get_active_thread owner s' = Inr (Some t) \<and> bt_id t = tid \<and> bt_owner t = owner \<and> t \<in> set (db_threads s)"
proof -
  have G: "get_thread owner tid s = Inr t" and s': "s' = s\<lparr>db_active := AList.update owner (bt_id t, now) (db_active s)\<rparr>"
    using set_active_cases [OF assms(1)] by auto
  have O: "owned owner tid = Inr owner" and T: "thread_or_raise owner tid s = Inr t"
    using G assms(3) by (auto simp: get_thread_def bind_res_eq_Inr dest: owned_Inr)
  note t = thread_or_raise_Inr [OF T]
  have "require_nonblank owner = Inr owner" using O assms(3) by (auto simp: owned_def bind_res_eq_Inr dest: require_Inr)
  moreover have "connection s' = Inr ()" using T s' by (auto simp: thread_or_raise_def bind_res_eq_Inr connection_def split: if_splits)
  ultimately show ?thesis using t s' find_thread [OF assms(2), of t owner]
    by (simp add: get_active_thread_def update_conv')
qed

text \<open>A thread the store lists for the owner and that a reference names.\<close>

definition names_thread :: "str \<Rightarrow> bt_thread list \<Rightarrow> bt_thread \<Rightarrow> bool" where
  "names_thread ref ts t \<longleftrightarrow> t \<in> set ts \<and> (bt_id t = py_strip ref
     \<or> (\<forall>x \<in> set ts. bt_id x \<noteq> py_strip ref) \<and> filter (\<lambda>x. py_lower (py_strip (bt_title x)) = py_lower (py_strip ref)) ts = [t])"

lemma cmd_switch_cases:
  assumes "cmd_switch owner ref now s = (w, s')"
  shows "isl w \<and> s' = s \<or> (\<exists>ts t. owned_threads owner s = Inr ts \<and> names_thread ref ts t \<and> switch_to owner t now s = (w, s'))"
proof -
  have single: "t \<in> set ts" if "filter P ts = [t]" for P and t :: bt_thread and ts
    using arg_cong [OF that, of set] by auto
  show ?thesis
    using assms unfolding cmd_switch_def Let_def names_thread_def
    by (auto simp: find_None_iff dest: find_SomeD single split: if_splits sum.splits option.splits list.splits)
qed

lemma switch_to_cases:
  assumes "switch_to owner t now s = (w, s')"
  shows "isl w \<and> s' = s \<or> (\<exists>r t'. w = Inr r \<and> cr_thread r = Some (bt_id t)
    \<and> set_active_thread owner (bt_id t) now s = (Inr t', s'))"
  using run_store_cases [OF assms [unfolded switch_to_def]] set_active_cases by fastforce

text \<open>C33: \<open>/switch\<close> fails closed. In a well-formed store, for an owner id without surrounding white
  space: a refused command leaves the store as it was; an ambiguous title is
  refused. A command that succeeds has found, among the owner's listed threads, the one with the
  reference as its id or, when no id matches, the only one with that title up to case, and it makes
  that thread the owner's active one.\<close>

theorem switch_fails_closed:
  assumes "cmd_switch owner ref now s = (w, s')" "bt_ok s" "py_strip owner = owner"
  shows "case w of Inl _ \<Rightarrow> s' = s
    | Inr r \<Rightarrow> \<exists>ts t. owned_threads owner s = Inr ts \<and> names_thread ref ts t \<and> bt_owner t = owner
        \<and> cr_thread r = Some (bt_id t) \<and> get_active_thread owner s' = Inr (Some t)"
proof (cases w)
  case (Inr r)
  then obtain ts t where T: "owned_threads owner s = Inr ts" "names_thread ref ts t" "switch_to owner t now s = (w, s')"
    using cmd_switch_cases [OF assms(1)] by auto
  then obtain t' where S: "set_active_thread owner (bt_id t) now s = (Inr t', s')" and r: "cr_thread r = Some (bt_id t)"
    using switch_to_cases [OF T(3)] Inr by auto
  have t: "t \<in> set (db_threads s)" "bt_owner t = owner"
    using owned_threads_Inr [OF T(1)] T(2) assms(3) by (auto simp: names_thread_def)
  note a = active_after_set [OF S assms(2,3)]
  have "t' = t" using find_thread [OF assms(2) t(1) t(2)] find_thread [OF assms(2), of t' owner] a by simp
  then show ?thesis using Inr T r t a by auto
qed (use cmd_switch_cases [OF assms(1)] switch_to_cases in fastforce)

lemma create_thread_Inr:
  assumes "create_thread owner wid title parent uid now s = (Inr t, s')"
  shows "bt_id t = uid \<and> bt_owner t = py_strip owner \<and> bt_title t = py_strip title \<and> bt_parent t = parent
    \<and> bt_workspace t = wid \<and> uid \<notin> bt_id ` set (db_threads s) \<and> t \<in> set (db_threads s')"
  using assms by (auto simp: create_thread_def Let_def bind_res_eq_Inr list_ex_key dest!: require_Inr
      split: sum.splits if_splits)

lemma default_workspace_Inr:
  assumes "default_workspace owner uid now s = (Inr w, s')" "bt_ok s"
  shows "bt_ok s' \<and> db_threads s' = db_threads s \<and> bw_owner w = py_strip owner
    \<and> ((\<exists>rest. list_workspaces owner s = Inr (w # rest)) \<or> list_workspaces owner s = Inr [] \<and> bw_title w = ''Workspace'')"
proof (cases "list_workspaces owner s")
  case (Inr ws)
  show ?thesis
  proof (cases ws)
    case Nil
    then have C: "create_workspace owner ''Workspace'' uid now s = (Inr w, s')"
      using assms(1) Inr by (simp add: default_workspace_def)
    have "py_strip ''Workspace'' = ''Workspace''" by code_simp
    then have "bw_title w = ''Workspace''"
      using C by (auto simp: create_workspace_def Let_def bind_res_eq_Inr dest!: require_Inr split: sum.splits if_splits)
    then show ?thesis using create_workspace_ok [OF C assms(2)] create_workspace_cases [OF C] Inr Nil by auto
  next
    case (Cons w' rest)
    then have "w = w'" "s' = s" using assms(1) Inr by (simp_all add: default_workspace_def)
    moreover have "w' \<in> set ws" using Cons by simp
    then have "bw_owner w' = py_strip owner"
      using Inr by (auto simp: list_workspaces_def bind_res_eq_Inr oldest_first_def dest: require_Inr)
    ultimately show ?thesis using assms(2) Inr Cons by simp
  qed
qed (use assms(1) in \<open>simp add: default_workspace_def\<close>)

text \<open>\<open>/new\<close> creates the thread and continues in it. When it succeeds the thread it names is the
  owner's, has the title given without surrounding blanks and no parent, is new, lies in the owner's
  oldest workspace (one titled \<open>Workspace\<close> when there was none), and is the owner's active thread.\<close>

lemma new_thread_is_active:
  assumes "cmd_new owner title (uid_w, uid_t) (now_w, now_t, now_a) s = (Inr r, s')" "bt_ok s" "py_strip owner = owner"
  shows "\<exists>t w rest. cr_thread r = Some uid_t \<and> bt_id t = uid_t \<and> bt_owner t = owner \<and> bt_title t = py_strip title
    \<and> bt_parent t = None \<and> uid_t \<notin> bt_id ` set (db_threads s) \<and> bt_workspace t = bw_id w \<and> bw_owner w = owner
    \<and> (list_workspaces owner s = Inr (w # rest) \<or> list_workspaces owner s = Inr [] \<and> bw_title w = ''Workspace'')
    \<and> get_active_thread owner s' = Inr (Some t)"
proof -
  obtain w s1 t s2 t' where W: "default_workspace owner uid_w now_w s = (Inr w, s1)"
      and T: "create_thread owner (bw_id w) (py_strip title) None uid_t now_t s1 = (Inr t, s2)"
      and A: "set_active_thread owner (bt_id t) now_a s2 = (Inr t', s')" and r: "cr_thread r = Some (bt_id t)"
    using assms(1) by (auto simp: cmd_new_def Let_def run_store_def split: if_splits prod.splits sum.splits)
  have w: "bt_ok s1" "db_threads s1 = db_threads s" "bw_owner w = owner"
    "(\<exists>rest. list_workspaces owner s = Inr (w # rest)) \<or> list_workspaces owner s = Inr [] \<and> bw_title w = ''Workspace''"
    using default_workspace_Inr [OF W assms(2)] assms(3) by auto
  have t: "bt_id t = uid_t" "bt_owner t = owner" "bt_title t = py_strip title" "bt_parent t = None"
    "uid_t \<notin> bt_id ` set (db_threads s)" "bt_workspace t = bw_id w"
    using create_thread_Inr [OF T] w(2) assms(3) by auto
  have a: "get_active_thread owner s' = Inr (Some t')" "bt_id t' = bt_id t" "bt_owner t' = owner" "t' \<in> set (db_threads s2)"
    using active_after_set [OF A _ assms(3)] create_thread_ok [OF T w(1)] by simp_all
  have "t' = t"
    using find_thread [OF create_thread_ok [OF T w(1)], of t owner] find_thread [OF create_thread_ok [OF T w(1)] a(4,3)]
      create_thread_Inr [OF T] t a(2) by simp
  then show ?thesis using a(1) t w r by blast
qed

definition ben_thread :: bt_thread where
  "ben_thread = \<lparr>bt_id = ''t2'', bt_workspace = ''w1'', bt_owner = ''ann'', bt_title = ''Plans'', bt_parent = None,
     bt_state = ''active'', bt_created = 6, bt_updated = 6\<rparr>"

definition two_threads :: bt_db where
  "two_threads = ann_store\<lparr>db_threads := [ann_thread, ben_thread]\<rparr>"

theorem switch_fails_closed_witness:
  "\<exists>w s'. cmd_switch ''ann'' ''PLANS'' 7 two_threads = (w, s') \<and> (case w of Inl _ \<Rightarrow> s' = two_threads
    | Inr r \<Rightarrow> \<exists>ts t. owned_threads ''ann'' two_threads = Inr ts \<and> names_thread ''PLANS'' ts t \<and> bt_owner t = ''ann''
        \<and> cr_thread r = Some (bt_id t) \<and> get_active_thread ''ann'' s' = Inr (Some t))"
proof -
  obtain w s' where C: "cmd_switch ''ann'' ''PLANS'' 7 two_threads = (w, s')" by fastforce
  have "bt_ok two_threads" "py_strip ''ann'' = ''ann''" by code_simp+
  from switch_fails_closed [OF C this] show ?thesis using C by blast
qed

definition new_store :: bt_db where
  "new_store = ann_store\<lparr>db_threads := [ann_thread, \<lparr>bt_id = ''t9'', bt_workspace = ''w1'', bt_owner = ''ann'', bt_title = ''Plans'',
     bt_parent = None, bt_state = ''active'', bt_created = 7, bt_updated = 7\<rparr>], db_active := [(''ann'', ''t9'', 7)]\<rparr>"

lemma new_thread_is_active_example:
  "\<exists>t w rest. Some ''t9'' = Some ''t9'' \<and> bt_id t = ''t9'' \<and> bt_owner t = ''ann'' \<and> bt_title t = py_strip '' Plans ''
    \<and> bt_parent t = None \<and> ''t9'' \<notin> bt_id ` set (db_threads ann_store) \<and> bt_workspace t = bw_id w \<and> bw_owner w = ''ann''
    \<and> (list_workspaces ''ann'' ann_store = Inr (w # rest) \<or> list_workspaces ''ann'' ann_store = Inr [] \<and> bw_title w = ''Workspace'')
    \<and> get_active_thread ''ann'' new_store = Inr (Some t)"
proof -
  have "cmd_new ''ann'' '' Plans '' (''w9'', ''t9'') (7, 7, 7) ann_store =
      (Inr \<lparr>cr_text = ''Created thread '' @ quoted ''Plans'' @ '' and switched to it. Thread id: t9'', cr_thread = Some ''t9'', cr_switched = True\<rparr>, new_store)"
    by code_simp
  moreover have "bt_ok ann_store" "py_strip ''ann'' = ''ann''" by code_simp+
  ultimately show ?thesis using new_thread_is_active by fastforce
qed

section \<open>Runs\<close>

datatype bt_op =
    Op_Workspace str str str int
  | Op_Thread str str str "str option" str int
  | Op_Append str str str str str int
  | Op_Summarize str str "int option" str int
  | Op_Assemble str str str bool str int
  | Op_Activate str str int
  | Op_Clear str
  | Op_Command str str str "str \<times> str" "int \<times> int \<times> int"
  | Op_Close

fun butler_step :: "char \<Rightarrow> (str \<Rightarrow> str \<Rightarrow> nat \<Rightarrow> str list option) \<Rightarrow> nat \<Rightarrow> nat \<Rightarrow> bt_op \<Rightarrow> bt_db \<Rightarrow> bt_db" where
  "butler_step ell recall window limit (Op_Workspace u title i now) s = snd (create_workspace u title i now s)"
| "butler_step ell recall window limit (Op_Thread u wid title parent i now) s = snd (create_thread u wid title parent i now s)"
| "butler_step ell recall window limit (Op_Append u tid role content i now) s = snd (append_message u tid role content i now s)"
| "butler_step ell recall window limit (Op_Summarize u tid up_to i now) s = snd (summarize_prefix ell window u tid up_to i now s)"
| "butler_step ell recall window limit (Op_Assemble u tid message local i now) s =
     snd (assemble ell recall window limit u tid message local i now s)"
| "butler_step ell recall window limit (Op_Activate u tid now) s = snd (set_active_thread u tid now s)"
| "butler_step ell recall window limit (Op_Clear u) s = snd (clear_active_thread u s)"
| "butler_step ell recall window limit (Op_Command u command args uids nows) s =
     snd (execute_command True u command args uids nows s)"
| "butler_step ell recall window limit Op_Close s = close_threads s"

primrec op_caller :: "bt_op \<Rightarrow> str option" where
  "op_caller (Op_Workspace u _ _ _) = Some u"
| "op_caller (Op_Thread u _ _ _ _ _) = Some u"
| "op_caller (Op_Append u _ _ _ _ _) = Some u"
| "op_caller (Op_Summarize u _ _ _ _) = Some u"
| "op_caller (Op_Assemble u _ _ _ _ _) = Some u"
| "op_caller (Op_Activate u _ _) = Some u"
| "op_caller (Op_Clear u) = Some u"
| "op_caller (Op_Command u _ _ _ _) = Some u"
| "op_caller Op_Close = None"

text \<open>An operation another owner calls.\<close>

definition by_other :: "str \<Rightarrow> bt_op \<Rightarrow> bool" where
  "by_other u x = (case op_caller x of None \<Rightarrow> False | Some v \<Rightarrow> py_strip v \<noteq> py_strip u)"

text \<open>What the methods a command calls keep, the command keeps.\<close>

locale store_law =
  fixes owner :: str
    and R :: "bt_db \<Rightarrow> bt_db \<Rightarrow> bool"
  assumes refl: "R s s"
    and trans: "R s t \<Longrightarrow> R t u \<Longrightarrow> R s u"
    and workspace_law: "R s (snd (create_workspace owner title i now s))"
    and thread_law: "R s (snd (create_thread owner wid title parent i now s))"
    and active_law: "R s (snd (set_active_thread owner tid now s))"
begin

lemma bind_law: "R s (snd r) \<Longrightarrow> (\<And>a s'. R s' (snd (f a s'))) \<Longrightarrow> R s (snd (run_store r f))"
  using trans by (cases r) (auto simp: run_store_def split: sum.splits)

lemma default_workspace_law: "R s (snd (default_workspace owner i now s))"
  using refl workspace_law by (auto simp: default_workspace_def split: sum.splits list.splits)

lemma new_law: "R s (snd (cmd_new owner title (a, b) (n1, n2, n3) s))"
  unfolding cmd_new_def Let_def using refl by (auto intro!: bind_law default_workspace_law thread_law active_law)

lemma switch_law: "R s (snd (cmd_switch owner ref now s))"
proof -
  have "R s (snd (switch_to owner t now s))" for t
    unfolding switch_to_def using refl by (auto intro!: bind_law active_law)
  then show ?thesis
    unfolding cmd_switch_def Let_def using refl by (auto split: sum.splits option.splits list.splits)
qed

lemma command_law: "R s (snd (execute_command engine owner command args uids nows s))"
  using new_law switch_law refl by (cases uids; cases nows) (auto simp: execute_command_def)

end

lemma close_threads_engine: "engine_ok ell s \<Longrightarrow> engine_ok ell (close_threads s)"
  by (simp add: close_threads_def engine_ok_def bt_ok_def summaries_ok_def thread_messages_def)

lemma summarize_prefix_view:
  assumes "summarize_prefix ell window owner tid up_to uid now s = (w, s')" "py_strip owner \<noteq> u"
  shows "view_of u s' = view_of u s"
  using summarize_prefix_cases [OF assms(1)] set_summary_view [OF _ assms(2)] by metis

lemma assemble_view:
  assumes "assemble ell recall window limit owner tid message local_only uid now s = (w, s')" "py_strip owner \<noteq> u"
  shows "view_of u s' = view_of u s"
  using assemble_state [OF assms(1)] summarize_prefix_view [OF _ assms(2)] by metis

lemmas engine_steps =
  create_workspace_engine [OF surjective_pairing] create_thread_engine [OF surjective_pairing]
  append_message_engine [OF surjective_pairing] summarize_prefix_engine [OF surjective_pairing]
  assemble_engine [OF surjective_pairing] set_active_engine [OF surjective_pairing]
  clear_active_engine [OF surjective_pairing] close_threads_engine

lemmas view_steps =
  create_workspace_view [OF surjective_pairing] create_thread_view [OF surjective_pairing]
  append_message_view [OF surjective_pairing] summarize_prefix_view [OF surjective_pairing]
  assemble_view [OF surjective_pairing] set_active_view [OF surjective_pairing]
  clear_active_view [OF surjective_pairing]

lemmas ok_steps =
  create_workspace_ok [OF surjective_pairing] create_thread_ok [OF surjective_pairing]
  set_active_ok [OF surjective_pairing]

interpretation engine_law: store_law owner "\<lambda>s t. engine_ok ell s \<longrightarrow> engine_ok ell t" for owner ell
  by unfold_locales (simp_all add: engine_steps)

interpretation view_law: store_law owner
    "\<lambda>s t. py_strip owner \<noteq> py_strip u \<longrightarrow> bt_ok s \<longrightarrow> bt_ok t \<and> view_of (py_strip u) t = view_of (py_strip u) s" for owner u
  by unfold_locales (simp_all add: view_steps ok_steps)

interpretation butler_runs: op_machine "butler_step ell recall window limit" "engine_ok ell" "\<lambda>_. True"
  for ell recall window limit
proof unfold_locales
  fix x s
  assume "engine_ok ell s"
  then show "engine_ok ell (butler_step ell recall window limit x s)"
    by (cases x) (simp_all add: engine_steps engine_law.command_law [rule_format])
qed

lemma other_owner_step:
  assumes "by_other u x" "engine_ok ell s"
  shows "view_of (py_strip u) (butler_step ell recall window limit x s) = view_of (py_strip u) s"
proof -
  have "bt_ok s" using assms(2) by (simp add: engine_ok_def)
  then show ?thesis
    using assms(1) by (cases x) (simp_all add: by_other_def view_steps view_law.command_law [rule_format])
qed

interpretation owner_runs: op_progress "butler_step ell recall window limit" "engine_ok ell" "by_other u"
    "\<lambda>s t. view_of (py_strip u) t = view_of (py_strip u) s" for ell recall window limit u
  by unfold_locales (simp_all add: butler_runs.keeps other_owner_step)

text \<open>C32: Owners are isolated. Whatever other owners do with the thread store, in any number and
  order, through its methods, the context engine (which also writes summaries) or the commands,
  every reading method answers an owner as before, and so do \<open>/current\<close> and \<open>/threads\<close>.\<close>

theorem thread_owners_isolated:
  assumes "engine_ok ell s" "list_all (by_other owner) xs"
  shows "let s' = run_ops (butler_step ell recall window limit) xs s in
    list_workspaces owner s' = list_workspaces owner s \<and> list_threads owner wid s' = list_threads owner wid s
    \<and> get_thread owner i s' = get_thread owner i s \<and> list_message_rows owner i s' = list_message_rows owner i s
    \<and> count_messages owner i s' = count_messages owner i s \<and> get_summary owner i s' = get_summary owner i s
    \<and> get_active_thread owner s' = get_active_thread owner s \<and> cmd_current engine owner s' = cmd_current engine owner s
    \<and> cmd_threads owner s' = cmd_threads owner s"
proof -
  let ?s' = "run_ops (butler_step ell recall window limit) xs s"
  have view: "view_of (py_strip owner) ?s' = view_of (py_strip owner) s" by (rule owner_runs.run_advances [OF assms(2,1)])
  note same = answers_depend_on_own_rows [OF view]
  have "thread_line owner active ?s' = thread_line owner active s" for active
    by (intro ext) (simp only: thread_line_def same)
  then have "workspace_lines owner active ?s' = workspace_lines owner active s" for active
    by (intro ext) (simp only: workspace_lines_def same)
  then have "cmd_threads owner ?s' = cmd_threads owner s" by (simp only: cmd_threads_def same)
  moreover have "cmd_current engine owner ?s' = cmd_current engine owner s" by (simp only: cmd_current_def same)
  ultimately show ?thesis unfolding Let_def using same [of wid] same [of i] by blast
qed

theorem thread_owners_isolated_witness:
  "let s' = run_ops (butler_step (CHR ''~'') (\<lambda>_ _ _. None) 2 5)
      [Op_Append ''bob'' ''t1'' ''user'' ''x'' ''m9'' 8, Op_Command ''bob'' ''new'' ''t'' (''w2'', ''t2'') (9, 9, 9)] ann_store in
    list_workspaces ''ann'' s' = list_workspaces ''ann'' ann_store \<and> list_threads ''ann'' ''w1'' s' = list_threads ''ann'' ''w1'' ann_store
    \<and> get_thread ''ann'' ''t1'' s' = get_thread ''ann'' ''t1'' ann_store
    \<and> list_message_rows ''ann'' ''t1'' s' = list_message_rows ''ann'' ''t1'' ann_store
    \<and> count_messages ''ann'' ''t1'' s' = count_messages ''ann'' ''t1'' ann_store
    \<and> get_summary ''ann'' ''t1'' s' = get_summary ''ann'' ''t1'' ann_store
    \<and> get_active_thread ''ann'' s' = get_active_thread ''ann'' ann_store
    \<and> cmd_current True ''ann'' s' = cmd_current True ''ann'' ann_store \<and> cmd_threads ''ann'' s' = cmd_threads ''ann'' ann_store"
proof (rule thread_owners_isolated)
  show "engine_ok (CHR ''~'') ann_store" by code_simp
  show "list_all (by_other ''ann'') [Op_Append ''bob'' ''t1'' ''user'' ''x'' ''m9'' 8, Op_Command ''bob'' ''new'' ''t'' (''w2'', ''t2'') (9, 9, 9)]"
    by code_simp
qed

text \<open>An owner given with blanks around it loses its pointer: \<open>set_active_thread\<close> stores it under the
  text as given, \<open>get_active_thread\<close> looks it up under the stripped one.\<close>

lemma padded_owner_pointer_lost:
  assumes "set_active_thread owner tid now s = (Inr t, s')" "py_strip owner \<noteq> owner"
    "map_of (db_active s) (py_strip owner) = None"
  shows "get_active_thread owner s' = Inr None"
proof -
  have G: "get_thread owner tid s = Inr t" and s': "s' = s\<lparr>db_active := AList.update owner (bt_id t, now) (db_active s)\<rparr>"
    using set_active_cases [OF assms(1)] by auto
  have "require_nonblank owner = Inr (py_strip owner)" "connection s' = Inr ()"
    using G s' by (auto simp: get_thread_def owned_def thread_or_raise_def connection_def bind_res_eq_Inr
        dest: require_Inr split: if_splits)
  then show ?thesis using s' assms(2,3) by (simp add: get_active_thread_def update_conv')
qed

end
