(* ===== verification/Admission_Lease.thy ===== *)
theory Admission_Lease
  imports Admission_Pilot Budget_Store
begin

text \<open>
  The owner pilot's budget adapter, \<open>src/agency/admission/budget.py\<close>, with the leases and grants of
  \<open>src/agency/admission/models.py\<close> and the tool policy of \<open>src/agency/admission/policy.py\<close>.

  The adapter stands over two stores, the owner store of \<open>Admission_Store\<close> and the quota ledger of
  \<open>Budget_Store\<close>, which share no transaction. Its gate orders its operations; at every \<open>await\<close> of an
  operation other code may use the owner store, revoke a lease or begin to close the adapter. What
  happens then is a list of such actions, given for every moment by \<open>surroundings\<close>, together with the
  clock's readings, random tokens, failures of SQLite and the moments at which the task is cancelled.
  A world counts its moments, so that each is used once.

  A lease carries the number of its object, so that two leases with equal fields are told apart,
  and a lease whose fields were changed differs from the one the adapter remembers.
\<close>

section \<open>Leases\<close>

record request_lease =
  ls_object :: nat
  ls_principal :: principal
  ls_request_id :: str
  ls_task_id :: str
  ls_sequence :: int
  ls_quota :: int
  ls_capability :: str
  ls_deadline :: rat

definition lease_ok :: "request_lease \<Rightarrow> bool" where
  "lease_ok l = (check_principal (ls_principal l) = Inr () \<and> id_ok (ls_request_id l) \<and> identifier_ok (ls_task_id l)
     \<and> 1 \<le> ls_sequence l \<and> ls_sequence l \<le> max_rowid \<and> 1 \<le> ls_quota l \<and> ls_quota l \<le> max_rowid
     \<and> 32 \<le> length (ls_capability l) \<and> length (ls_capability l) \<le> 128 \<and> 0 < ls_deadline l)"

datatype lease_state = Lease_Reserved | Lease_Running

record owned_lease =
  od_lease :: request_lease
  od_backend :: str
  od_state :: lease_state

record owner_world =
  ow_store :: pilot_store
  ow_backend :: budget_store
  ow_namespace :: str
  ow_owned :: "(int \<times> owned_lease) list"
  ow_closed :: bool
  ow_moment :: nat

definition mk_adapter :: "budget_store \<Rightarrow> pilot_store \<Rightarrow> str \<Rightarrow> (pilot_error, owner_world) res" where
  "mk_adapter backend store namespace =
     (if py_strip namespace = [] \<or> length namespace > 128 then Inl (PilotError ''invalid_request'' 503 False)
      else Inr \<lparr>ow_store = store, ow_backend = backend, ow_namespace = namespace, ow_owned = [], ow_closed = False,
        ow_moment = 0\<rparr>)"

text \<open>\<open>owns\<close>, at a reading of the clock.\<close>

definition owns_lease :: "rat \<Rightarrow> request_lease \<Rightarrow> owner_world \<Rightarrow> bool" where
  "owns_lease now l w =
     (\<not> ow_closed w \<and> ps_ready (ow_store w) \<and> \<not> ps_closed (ow_store w) \<and> lease_ok l
      \<and> ls_sequence l \<notin> ps_blocked (ow_store w)
      \<and> (case map_of (ow_owned w) (ls_sequence l) of None \<Rightarrow> False | Some od \<Rightarrow> od_lease od = l)
      \<and> now < ls_deadline l)"

text \<open>\<open>revoke\<close>: the first entry with this object.\<close>

definition revoke_lease :: "request_lease \<Rightarrow> owner_world \<Rightarrow> owner_world" where
  "revoke_lease l w =
     (case find (\<lambda>p. ls_object (od_lease (snd p)) = ls_object l) (ow_owned w) of
        None \<Rightarrow> w | Some p \<Rightarrow> w\<lparr>ow_owned := AList.delete (fst p) (ow_owned w)\<rparr>)"

definition begin_close :: "owner_world \<Rightarrow> owner_world" where
  "begin_close w = w\<lparr>ow_closed := True, ow_owned := []\<rparr>"

section \<open>What happens meanwhile\<close>

datatype other_action = On_Store pilot_op | Revoke request_lease | Begin_Close

fun act_other :: "codec \<Rightarrow> other_action \<Rightarrow> owner_world \<Rightarrow> owner_world" where
  "act_other cd (On_Store x) w = w\<lparr>ow_store := pilot_step cd x (ow_store w)\<rparr>"
| "act_other cd (Revoke l) w = revoke_lease l w"
| "act_other cd Begin_Close w = begin_close w"

record surroundings =
  sr_others :: "nat \<Rightarrow> other_action list"
  sr_io :: "nat \<Rightarrow> pilot_io"
  sr_clk :: "nat \<Rightarrow> nat \<Rightarrow> rat"
  sr_env :: "nat \<Rightarrow> budget_env"
  sr_token :: "nat \<Rightarrow> str"
  sr_cancel :: "nat \<Rightarrow> bool"
  sr_now :: "nat \<Rightarrow> rat"

definition pause :: "codec \<Rightarrow> surroundings \<Rightarrow> owner_world \<Rightarrow> owner_world" where
  "pause cd e w = (run_ops (act_other cd) (sr_others e (ow_moment w)) w)\<lparr>ow_moment := ow_moment w + 1\<rparr>"

datatype lease_error = Refused pilot_error | Task_Cancelled | Backend_Raised budget_error

type_synonym 'a act = "owner_world \<Rightarrow> (lease_error, 'a) res \<times> owner_world"

definition done_with :: "'a \<Rightarrow> 'a act" where
  "done_with x w = (Inr x, w)"

definition refuse :: "pilot_error \<Rightarrow> 'a act" where
  "refuse p w = (Inl (Refused p), w)"

definition next_act :: "'a act \<Rightarrow> ('a \<Rightarrow> 'b act) \<Rightarrow> 'b act" where
  "next_act m f w = (case m w of (Inl e, w') \<Rightarrow> (Inl e, w') | (Inr x, w') \<Rightarrow> f x w')"

text \<open>\<open>except BaseException: self.revoke(lease); raise\<close>, and \<open>finally: self.revoke(lease)\<close>.\<close>

definition or_revoke :: "request_lease \<Rightarrow> 'a act \<Rightarrow> 'a act" where
  "or_revoke l m w = (case m w of (Inl e, w') \<Rightarrow> (Inl e, revoke_lease l w') | (Inr x, w') \<Rightarrow> (Inr x, w'))"

definition then_revoke :: "request_lease \<Rightarrow> 'a act \<Rightarrow> 'a act" where
  "then_revoke l m w = (case m w of (r, w') \<Rightarrow> (r, revoke_lease l w'))"

definition pilot :: "str \<Rightarrow> pilot_error" where
  "pilot code = PilotError code 503 False"

definition uncertain_store :: pilot_error where
  "uncertain_store = PilotError ''store'' 503 True"

text \<open>\<open>_wait\<close>: a cancellation is raised after the operation has ended; other exceptions than
  \<open>PilotError\<close> become an uncertain error of the store, if it names them.\<close>

definition awaited :: "surroundings \<Rightarrow> (lease_error, 'a) res \<Rightarrow> 'a act" where
  "awaited e r w = (if sr_cancel e (ow_moment w) then (Inl Task_Cancelled, w) else (r, w))"

fun store_raised :: "raised \<Rightarrow> lease_error" where
  "store_raised (Pilot p) = Refused p"
| "store_raised _ = Refused uncertain_store"

definition wait_store :: "codec \<Rightarrow> surroundings \<Rightarrow> (pilot_io \<Rightarrow> (nat \<Rightarrow> rat) \<Rightarrow> 'a work) \<Rightarrow> 'a act" where
  "wait_store cd e m w =
     (let w1 = pause cd e w in
      case m (sr_io e (ow_moment w1)) (sr_clk e (ow_moment w1)) (ow_store w1) of
        (r, s) \<Rightarrow> awaited e (map_sum store_raised id r) (pause cd e (w1\<lparr>ow_store := s\<rparr>)))"

text \<open>\<open>KeyError\<close> and \<open>OverflowError\<close> are not among the exceptions \<open>_wait\<close> names.\<close>

definition backend_raised :: "budget_error \<Rightarrow> lease_error" where
  "backend_raised x = (if x \<in> {UnknownReservation, IntegerTooLarge} then Backend_Raised x else Refused uncertain_store)"

definition wait_backend :: "codec \<Rightarrow> surroundings \<Rightarrow> api_call \<Rightarrow> answer act" where
  "wait_backend cd e call w =
     (let w1 = pause cd e w in
      case before_await call (ow_backend w1) of
        Some r \<Rightarrow> awaited e (map_sum backend_raised id r) (pause cd e w1)
      | None \<Rightarrow>
          (let w2 = pause cd e w1 in
           case worker (sr_env e (ow_moment w2)) call (ow_backend w2) of
             (r, db) \<Rightarrow>
               (let w3 = pause cd e (w2\<lparr>ow_backend := (ow_backend w2)\<lparr>bs_db := db\<rparr>\<rparr>) in
                case after_await (sr_token e (ow_moment w3)) call r (ow_backend w3) of
                  (r', b) \<Rightarrow> awaited e (map_sum backend_raised id r') (pause cd e (w3\<lparr>ow_backend := b\<rparr>)))))"

section \<open>Operations of the adapter\<close>

definition alive :: "surroundings \<Rightarrow> request_lease \<Rightarrow> bool act" where
  "alive e l w = (Inr (owns_lease (sr_now e (ow_moment w)) l w), w\<lparr>ow_moment := ow_moment w + 1\<rparr>)"

definition require_lease :: "surroundings \<Rightarrow> request_lease \<Rightarrow> owned_lease act" where
  "require_lease e l = next_act (alive e l) (\<lambda>yes w.
     case map_of (ow_owned w) (ls_sequence l) of
       Some od \<Rightarrow> if yes then done_with od w else refuse (pilot ''forbidden'') w
     | None \<Rightarrow> refuse (pilot ''forbidden'') w)"

definition lease_matches :: "request_lease \<Rightarrow> str \<Rightarrow> pilot_request \<Rightarrow> bool" where
  "lease_matches l st r = (rq_sequence r = ls_sequence l \<and> rq_request_id r = ls_request_id l
     \<and> rq_owner_id r = pr_owner_id (ls_principal l) \<and> pilot_request.rq_created_at r + 120 = ls_deadline l
     \<and> pilot_request.rq_state r = st \<and> \<not> rq_cancel_requested r)"

definition current :: "codec \<Rightarrow> surroundings \<Rightarrow> request_lease \<Rightarrow> str \<Rightarrow> pilot_request act" where
  "current cd e l st =
     next_act (require_lease e l)
       (\<lambda>_. next_act (wait_store cd e (\<lambda>io clk. get_turn io (ls_principal l) (ls_task_id l)))
         (\<lambda>(r, _). next_act (require_lease e l)
           (\<lambda>_ w. if lease_matches l st r then done_with r w else refuse (pilot ''conflict'') (revoke_lease l w))))"

definition lease_running :: "request_lease \<Rightarrow> owner_world \<Rightarrow> bool" where
  "lease_running l w = (case map_of (ow_owned w) (ls_sequence l) of None \<Rightarrow> False | Some od \<Rightarrow> od_state od = Lease_Running)"

definition active_lease :: "codec \<Rightarrow> surroundings \<Rightarrow> request_lease \<Rightarrow> bool act" where
  "active_lease cd e l = next_act (alive e l) (\<lambda>yes w.
     if \<not> yes \<or> \<not> lease_running l w then done_with False w
     else (case current cd e l ''RUNNING'' w of
         (Inl (Refused p), w') \<Rightarrow>
           if pe_code p \<in> {''forbidden'', ''conflict''} then done_with False w' else refuse p w'
       | (Inl x, w') \<Rightarrow> (Inl x, w')
       | (Inr _, w') \<Rightarrow> alive e l w'))"

definition new_lease :: "surroundings \<Rightarrow> principal \<Rightarrow> str \<Rightarrow> str \<Rightarrow> pilot_request \<Rightarrow> int \<Rightarrow> owner_world \<Rightarrow> request_lease" where
  "new_lease e p rid task r quota w =
     \<lparr>ls_object = ow_moment w, ls_principal = p, ls_request_id = rid, ls_task_id = task, ls_sequence = rq_sequence r,
      ls_quota = quota, ls_capability = sr_token e (ow_moment w), ls_deadline = pilot_request.rq_created_at r + 120\<rparr>"

definition take_lease :: "codec \<Rightarrow> surroundings \<Rightarrow> request_lease \<Rightarrow> str \<Rightarrow> request_lease act" where
  "take_lease cd e l cap w =
     (if \<not> lease_ok l then refuse (pilot ''invalid_request'') w
      else or_revoke l (next_act (current cd e l ''ADMITTED'') (\<lambda>_. done_with l))
        (w\<lparr>ow_owned := AList.update (ls_sequence l) \<lparr>od_lease = l, od_backend = cap, od_state = Lease_Reserved\<rparr> (ow_owned w),
           ow_moment := ow_moment w + 1\<rparr>))"

text \<open>What follows the answer of the quota ledger.\<close>

fun take_answer :: "codec \<Rightarrow> surroundings \<Rightarrow> principal \<Rightarrow> str \<Rightarrow> str \<Rightarrow> pilot_request \<Rightarrow> int \<Rightarrow> answer \<Rightarrow> request_lease act" where
  "take_answer cd e p rid task r quota (AReservation rv) w =
     (if rv_duplicate rv then refuse (pilot ''conflict'') w
      else if \<not> rv_allowed rv then refuse (pilot ''quota'') w
      else if rv_state rv \<noteq> InState RESERVED \<or> rv_capability rv \<in> {None, Some []} then refuse uncertain_store w
      else take_lease cd e (new_lease e p rid task r quota w) (the (rv_capability rv)) w)"
| "take_answer cd e p rid task r quota _ w = refuse uncertain_store w"

definition lease_reserve_request :: "codec \<Rightarrow> surroundings \<Rightarrow> principal \<Rightarrow> str \<Rightarrow> str \<Rightarrow> request_lease act" where
  "lease_reserve_request cd e p rid task w =
     (if ow_closed w then refuse (pilot ''disabled'') w
      else next_act (wait_store cd e (\<lambda>io clk. claim io clk p rid task))
        (\<lambda>((r, _), quota). next_act (wait_backend cd e (CallReserve (ow_namespace w) (rq_sequence r) quota))
          (take_answer cd e p rid task r quota)) w)"

definition set_running :: "request_lease \<Rightarrow> unit act" where
  "set_running l w = (Inr (), w\<lparr>ow_owned := map (\<lambda>(k, od). if od_lease od = l then (k, od\<lparr>od_state := Lease_Running\<rparr>) else (k, od))
     (ow_owned w)\<rparr>)"

definition lease_mark_running :: "codec \<Rightarrow> surroundings \<Rightarrow> request_lease \<Rightarrow> unit act" where
  "lease_mark_running cd e l = next_act (require_lease e l) (\<lambda>od.
     if od_state od \<noteq> Lease_Reserved then refuse (pilot ''conflict'')
     else or_revoke l (next_act (current cd e l ''ADMITTED'')
       (\<lambda>_ w. next_act (wait_backend cd e (CallMark (ow_namespace w) (ls_sequence l) (ls_quota l) (Some (od_backend od))))
         (\<lambda>_. next_act (require_lease e l)
           (\<lambda>_. next_act (wait_store cd e (\<lambda>io clk. transition io clk (ls_sequence l) ''ADMITTED'' ''RUNNING'' ''running'' None))
             (\<lambda>_. next_act (current cd e l ''RUNNING'') (\<lambda>_. set_running l)))) w)))"

definition ledger_model_call :: "codec \<Rightarrow> surroundings \<Rightarrow> request_lease \<Rightarrow> owned_lease \<Rightarrow> bool act" where
  "ledger_model_call cd e l od w =
     next_act (wait_backend cd e (CallModel (ow_namespace w) (ls_sequence l) (ls_quota l) (Some (od_backend od))))
       (\<lambda>a. case a of ABool reserved \<Rightarrow> done_with reserved | _ \<Rightarrow> refuse uncertain_store) w"

definition lease_model_call :: "codec \<Rightarrow> surroundings \<Rightarrow> request_lease \<Rightarrow> int \<Rightarrow> bool act" where
  "lease_model_call cd e l limit = or_revoke l (next_act (active_lease cd e l)
     (\<lambda>yes. if \<not> yes then done_with False
       else next_act (require_lease e l)
         (\<lambda>od. next_act (wait_store cd e (\<lambda>io clk. reserve_attempt io clk (ls_sequence l) Model_Attempt limit))
           (\<lambda>counted. if \<not> counted then done_with False
             else next_act (alive e l)
               (\<lambda>still. if \<not> still then done_with False
                 else next_act (ledger_model_call cd e l od)
                   (\<lambda>reserved. if \<not> reserved then done_with False else active_lease cd e l))))))"

definition owner_tools :: "str set" where
  "owner_tools = {''calculator'', ''utc_time'', ''web_search''}"

definition lease_tool_call :: "codec \<Rightarrow> surroundings \<Rightarrow> request_lease \<Rightarrow> str \<Rightarrow> int \<Rightarrow> bool act" where
  "lease_tool_call cd e l tool limit =
     (if tool \<notin> owner_tools then done_with False
      else or_revoke l (next_act (active_lease cd e l)
        (\<lambda>yes. if \<not> yes then done_with False
          else next_act (wait_store cd e (\<lambda>io clk. reserve_attempt io clk (ls_sequence l) Tool_Attempt limit))
            (\<lambda>counted. if \<not> counted then done_with False else active_lease cd e l))))"

definition lease_finish :: "codec \<Rightarrow> surroundings \<Rightarrow> request_lease \<Rightarrow> bool \<Rightarrow> unit act" where
  "lease_finish cd e l success = next_act (require_lease e l) (\<lambda>od.
     if od_state od \<noteq> Lease_Running then refuse (pilot ''conflict'')
     else then_revoke l (next_act (current cd e l ''RUNNING'')
       (\<lambda>_ w. next_act (wait_backend cd e (CallFinish (ow_namespace w) (ls_sequence l) (ls_quota l) success (Some (od_backend od))))
         (\<lambda>_. done_with ()) w)))"

definition lease_initialize :: "codec \<Rightarrow> surroundings \<Rightarrow> unit act" where
  "lease_initialize cd e w = (if ow_closed w then refuse (pilot ''disabled'') w
     else next_act (wait_backend cd e Initialize) (\<lambda>_. done_with ()) w)"

definition lease_close :: "codec \<Rightarrow> surroundings \<Rightarrow> unit act" where
  "lease_close cd e w = (let w1 = pause cd e (begin_close w) in
     awaited e (Inr ()) (pause cd e (w1\<lparr>ow_backend := close (ow_backend w1)\<rparr>)))"

section \<open>Laws of the operations\<close>

lemma next_act_Inr: "next_act m f w = (Inr y, w') \<longleftrightarrow> (\<exists>x w1. m w = (Inr x, w1) \<and> f x w1 = (Inr y, w'))"
  by (auto simp: next_act_def split: prod.splits sum.splits)

lemma or_revoke_Inr: "or_revoke l m w = (Inr y, w') \<longleftrightarrow> m w = (Inr y, w')"
  by (auto simp: or_revoke_def split: prod.splits sum.splits)

lemma or_revoke_Inl: "or_revoke l m w = (Inl e, w') \<Longrightarrow> \<exists>w1. w' = revoke_lease l w1 \<and> m w = (Inl e, w1)"
  by (auto simp: or_revoke_def split: prod.splits sum.splits)

lemma moment_revoke [simp]: "ow_moment (revoke_lease l w) = ow_moment w"
  by (simp add: revoke_lease_def split: option.splits)

lemma moment_other [simp]: "ow_moment (act_other cd x w) = ow_moment w"
  by (cases x) (simp_all add: begin_close_def)

lemma moment_others [simp]: "ow_moment (run_ops (act_other cd) xs w) = ow_moment w"
  by (induction xs arbitrary: w) simp_all

text \<open>Reading leaves the owner store as it is.\<close>

definition reads :: "'a work \<Rightarrow> bool" where
  "reads m = (\<forall>s. snd (m s) = s)"

lemma reads_then: "reads m \<Longrightarrow> (\<And>x. reads (f x)) \<Longrightarrow> reads (then_do m f)"
  by (simp add: reads_def then_do_def split: prod.splits sum.splits) (metis snd_conv)

lemma reads_run: "reads m \<Longrightarrow> reads (run_work io pub m)"
  unfolding reads_def
proof
  fix s
  assume "\<forall>s. snd (m s) = s"
  then obtain q where "m s = (q, s)" by (metis prod.collapse)
  then show "snd (run_work io pub m s) = s" by (cases q) (auto simp: run_work_def Admission_Store.transaction_def)
qed

lemma reads_basic: "reads (give x)" "reads (query q)" "reads (of_res r)"
  by (simp_all add: reads_def give_def query_def of_res_def)

lemma get_turn_same [simp]: "snd (get_turn io p task s) = s"
proof -
  have "reads (get_turn io p task)"
    unfolding get_turn_def get_work_def by (intro reads_then reads_run reads_basic)
  then show ?thesis by (simp add: reads_def)
qed

text \<open>A relation between worlds that every move of the adapter and of the others keeps is kept by the
  operations.\<close>

locale act_law =
  fixes cd :: codec
    and R :: "owner_world \<Rightarrow> owner_world \<Rightarrow> bool"
  assumes refl: "R w w"
    and trans: "R w t \<Longrightarrow> R t u \<Longrightarrow> R w u"
    and other_law: "R w (act_other cd x w)"
    and moment_law: "ow_moment w \<le> n \<Longrightarrow> R w (w\<lparr>ow_moment := n\<rparr>)"
    and backend_law: "R w (w\<lparr>ow_backend := b\<rparr>)"
    and take_law: "od_lease od = l \<Longrightarrow> ls_object l = ow_moment w
      \<Longrightarrow> R w (w\<lparr>ow_owned := AList.update (ls_sequence l) od (ow_owned w), ow_moment := ow_moment w + 1\<rparr>)"
    and running_law: "R w (snd (set_running l w))"
begin

definition lawful :: "'a act \<Rightarrow> bool" where
  "lawful m = (\<forall>w. R w (snd (m w)))"

lemma lawful_next: "lawful m \<Longrightarrow> (\<And>x. lawful (f x)) \<Longrightarrow> lawful (next_act m f)"
  using trans by (simp add: lawful_def next_act_def split: prod.splits sum.splits) (metis snd_conv)

lemma lawful_world: "(\<And>w. lawful (f w)) \<Longrightarrow> lawful (\<lambda>w. f w w)"
  by (simp add: lawful_def)

lemma lawful_basic: "lawful (done_with x)" "lawful (refuse p)"
  by (simp_all add: lawful_def done_with_def refuse_def refl)

lemma revoke_law: "R w (revoke_lease l w)"
  using other_law [of w "Revoke l"] by simp

lemma lawful_or_revoke: "lawful m \<Longrightarrow> lawful (or_revoke l m)"
  using trans revoke_law by (simp add: lawful_def or_revoke_def split: prod.splits sum.splits) (metis snd_conv)

lemma lawful_then_revoke: "lawful m \<Longrightarrow> lawful (then_revoke l m)"
  using trans revoke_law by (simp add: lawful_def then_revoke_def split: prod.splits) (metis snd_conv)

lemma others_law: "R w (run_ops (act_other cd) xs w)"
  by (induction xs arbitrary: w) (auto intro: refl trans other_law)

lemma pause_law: "R w (pause cd e w)"
proof -
  let ?w = "run_ops (act_other cd) (sr_others e (ow_moment w)) w"
  have "R ?w (?w\<lparr>ow_moment := ow_moment w + 1\<rparr>)" by (rule moment_law) simp
  then show ?thesis using others_law trans unfolding pause_def by blast
qed

lemma awaited_law: "R w (snd (awaited e r w))"
  by (simp add: awaited_def refl)

lemma lawful_wait_store:
  assumes "\<And>io clk w. R w (w\<lparr>ow_store := snd (m io clk (ow_store w))\<rparr>)"
  shows "lawful (wait_store cd e m)"
proof -
  have "R w (snd (wait_store cd e m w))" for w
  proof -
    let ?w1 = "pause cd e w"
    obtain r s where m: "m (sr_io e (ow_moment ?w1)) (sr_clk e (ow_moment ?w1)) (ow_store ?w1) = (r, s)" by fastforce
    then have "R ?w1 (?w1\<lparr>ow_store := s\<rparr>)" using assms [of ?w1] by (metis snd_conv)
    then have "R w (pause cd e (?w1\<lparr>ow_store := s\<rparr>))" using pause_law trans by blast
    then show ?thesis using awaited_law trans by (simp add: wait_store_def Let_def m) blast
  qed
  then show ?thesis by (simp add: lawful_def)
qed

lemma lawful_wait_backend: "lawful (wait_backend cd e call)"
proof -
  have step: "R w (pause cd e (t\<lparr>ow_backend := b\<rparr>))" if "R w t" for w t b
    using that backend_law pause_law trans by blast
  have "R w (snd (wait_backend cd e call w))" for w
  proof (cases "before_await call (ow_backend (pause cd e w))")
    case None
    let ?w2 = "pause cd e (pause cd e w)"
    obtain r db where r: "worker (sr_env e (ow_moment ?w2)) call (ow_backend ?w2) = (r, db)" by fastforce
    let ?w3 = "pause cd e (?w2\<lparr>ow_backend := (ow_backend ?w2)\<lparr>bs_db := db\<rparr>\<rparr>)"
    obtain r' b where b: "after_await (sr_token e (ow_moment ?w3)) call r (ow_backend ?w3) = (r', b)" by fastforce
    have "R w ?w2" by (rule trans [OF pause_law pause_law])
    then have A: "R w (pause cd e (?w3\<lparr>ow_backend := b\<rparr>))" by (intro step)
    have B: "wait_backend cd e call w
        = awaited e (map_sum backend_raised id r') (pause cd e (?w3\<lparr>ow_backend := b\<rparr>))"
      using None r b by (simp add: wait_backend_def Let_def)
    show ?thesis unfolding B by (rule trans [OF A awaited_law])
  next
    case (Some r)
    have A: "R w (pause cd e (pause cd e w))" by (rule trans [OF pause_law pause_law])
    have B: "wait_backend cd e call w
        = awaited e (map_sum backend_raised id r) (pause cd e (pause cd e w))"
      using Some by (simp add: wait_backend_def Let_def)
    show ?thesis unfolding B by (rule trans [OF A awaited_law])
  qed
  then show ?thesis by (simp add: lawful_def)
qed

lemma lawful_alive: "lawful (alive e l)"
  unfolding lawful_def alive_def by (simp add: moment_law)

lemma lawful_require: "lawful (require_lease e l)"
  unfolding require_lease_def
  by (intro lawful_next lawful_alive) (simp add: lawful_def done_with_def refuse_def refl split: option.splits)

lemma lawful_if: "lawful A \<Longrightarrow> lawful B \<Longrightarrow> lawful (if c then A else B)"
  by simp

lemma lawful_branch: "lawful A \<Longrightarrow> lawful B \<Longrightarrow> lawful (\<lambda>w. if P w then A w else B w)"
  by (simp add: lawful_def)

lemma lawful_next_here:
  "(\<And>v. lawful (m v)) \<Longrightarrow> (\<And>v x. lawful (f v x)) \<Longrightarrow> lawful (\<lambda>w. next_act (m w) (f w) w)"
  using lawful_next unfolding lawful_def by blast

lemma lawful_drop: "lawful (\<lambda>w. refuse p (revoke_lease l w))"
  by (simp add: lawful_def refuse_def revoke_law)

lemma lawful_get: "lawful (wait_store cd e (\<lambda>io clk. get_turn io p task))"
  by (rule lawful_wait_store) (simp add: refl)

lemma lawful_claim: "lawful (wait_store cd e (\<lambda>io clk. claim io clk p rid task))"
  by (rule lawful_wait_store) (metis other_law act_other.simps(1) pilot_step.simps(8))

lemma lawful_transition: "lawful (wait_store cd e (\<lambda>io clk. transition io clk k expected st phase err))"
  by (rule lawful_wait_store) (metis other_law act_other.simps(1) pilot_step.simps(9))

lemma lawful_attempt: "lawful (wait_store cd e (\<lambda>io clk. reserve_attempt io clk k kind limit))"
  by (rule lawful_wait_store) (metis other_law act_other.simps(1) pilot_step.simps(14))

lemmas lawful_rules = lawful_next lawful_basic lawful_or_revoke lawful_then_revoke lawful_wait_backend lawful_alive
  lawful_require lawful_if lawful_branch lawful_next_here lawful_drop lawful_get lawful_claim lawful_transition lawful_attempt

lemma lawful_current: "lawful (current cd e l st)"
  unfolding current_def by (intro lawful_rules) (auto intro!: lawful_rules split: prod.splits)

lemma lawful_active: "lawful (active_lease cd e l)"
proof -
  have "R w (snd (case current cd e l ''RUNNING'' w of
         (Inl (Refused p), w') \<Rightarrow>
           if pe_code p \<in> {''forbidden'', ''conflict''} then done_with False w' else refuse p w'
       | (Inl x, w') \<Rightarrow> (Inl x, w')
       | (Inr _, w') \<Rightarrow> alive e l w'))" for w
  proof -
    obtain r w1 where r: "current cd e l ''RUNNING'' w = (r, w1)" by fastforce
    have le: "R w w1" using lawful_current r unfolding lawful_def by (metis snd_conv)
    have "R w (snd (alive e l w1))" using lawful_alive trans [OF le] by (simp add: lawful_def)
    then show ?thesis using r le by (auto simp: done_with_def refuse_def split: sum.splits lease_error.splits)
  qed
  then have "lawful (\<lambda>w. case current cd e l ''RUNNING'' w of
         (Inl (Refused p), w') \<Rightarrow>
           if pe_code p \<in> {''forbidden'', ''conflict''} then done_with False w' else refuse p w'
       | (Inl x, w') \<Rightarrow> (Inl x, w')
       | (Inr _, w') \<Rightarrow> alive e l w')" by (simp add: lawful_def)
  then show ?thesis unfolding active_lease_def by (intro lawful_rules)
qed

lemma lawful_ledger: "lawful (ledger_model_call cd e l od)"
  unfolding ledger_model_call_def by (intro lawful_rules) (auto intro!: lawful_rules split: answer.splits)

lemma lawful_model_call: "lawful (lease_model_call cd e l limit)"
  unfolding lease_model_call_def by (intro lawful_rules lawful_active lawful_ledger)

lemma lawful_tool_call: "lawful (lease_tool_call cd e l tool limit)"
  unfolding lease_tool_call_def by (intro lawful_rules lawful_active)

lemma lawful_finish: "lawful (lease_finish cd e l success)"
  unfolding lease_finish_def by (intro lawful_rules lawful_current)

lemma lawful_mark: "lawful (lease_mark_running cd e l)"
proof -
  have "lawful (set_running l)" by (simp add: lawful_def running_law)
  then show ?thesis unfolding lease_mark_running_def by (intro lawful_rules lawful_current)
qed

lemma lawful_take:
  assumes "ls_object l = ow_moment w"
  shows "R w (snd (take_lease cd e l cap w))"
proof (cases "lease_ok l")
  case True
  let ?w1 = "w\<lparr>ow_owned := AList.update (ls_sequence l) \<lparr>od_lease = l, od_backend = cap, od_state = Lease_Reserved\<rparr> (ow_owned w),
    ow_moment := ow_moment w + 1\<rparr>"
  have "R w ?w1" by (rule take_law) (simp_all add: assms)
  moreover have "lawful (or_revoke l (next_act (current cd e l ''ADMITTED'') (\<lambda>_. done_with l)))"
    by (intro lawful_rules lawful_current)
  ultimately show ?thesis using True by (simp add: take_lease_def lawful_def trans [of w ?w1])
qed (simp add: take_lease_def refuse_def refl)

lemma lawful_answer: "lawful (take_answer cd e p rid task r quota a)"
  unfolding lawful_def
  by (cases a) (simp_all add: refuse_def refl lawful_take new_lease_def)

lemma lawful_reserve: "lawful (lease_reserve_request cd e p rid task)"
  unfolding lease_reserve_request_def
  by (intro lawful_rules) (auto intro!: lawful_rules lawful_answer split: prod.splits)

lemma lawful_initialize: "lawful (lease_initialize cd e)"
  unfolding lease_initialize_def by (intro lawful_rules)

lemma lawful_close: "R w (snd (lease_close cd e w))"
proof -
  have "R w (begin_close w)" using other_law [of w Begin_Close] by simp
  then have "R w (pause cd e (begin_close w))" using pause_law trans by blast
  then have "R w ((pause cd e (begin_close w))\<lparr>ow_backend := close (ow_backend (pause cd e (begin_close w)))\<rparr>)"
    using backend_law trans by blast
  then show ?thesis using pause_law awaited_law trans unfolding lease_close_def Let_def by blast
qed

end

section \<open>Runs of the adapter\<close>

datatype lease_op =
    Do_Initialize
  | Do_Reserve principal str str
  | Do_Mark request_lease
  | Do_Model request_lease int
  | Do_Tool request_lease str int
  | Do_Finish request_lease bool
  | Do_Close
  | Do_Other other_action

text \<open>One operation; the flag says whether a call was granted.\<close>

fun lease_step :: "codec \<Rightarrow> surroundings \<Rightarrow> lease_op \<Rightarrow> owner_world \<Rightarrow> bool \<times> owner_world" where
  "lease_step cd e Do_Initialize w = (False, snd (lease_initialize cd e w))"
| "lease_step cd e (Do_Reserve p rid task) w = (False, snd (lease_reserve_request cd e p rid task w))"
| "lease_step cd e (Do_Mark l) w = (False, snd (lease_mark_running cd e l w))"
| "lease_step cd e (Do_Model l limit) w = (case lease_model_call cd e l limit w of (r, w') \<Rightarrow> (r = Inr True, w'))"
| "lease_step cd e (Do_Tool l tool limit) w = (case lease_tool_call cd e l tool limit w of (r, w') \<Rightarrow> (r = Inr True, w'))"
| "lease_step cd e (Do_Finish l success) w = (False, snd (lease_finish cd e l success w))"
| "lease_step cd e Do_Close w = (False, snd (lease_close cd e w))"
| "lease_step cd e (Do_Other x) w = (False, act_other cd x w)"

definition lease_next :: "codec \<Rightarrow> surroundings \<Rightarrow> lease_op \<Rightarrow> owner_world \<Rightarrow> owner_world" where
  "lease_next cd e x w = snd (lease_step cd e x w)"

fun calls_of :: "int \<Rightarrow> attempt_kind \<Rightarrow> lease_op \<Rightarrow> bool" where
  "calls_of k kind (Do_Model l _) = (kind = Model_Attempt \<and> ls_sequence l = k)"
| "calls_of k kind (Do_Tool l _ _) = (kind = Tool_Attempt \<and> ls_sequence l = k)"
| "calls_of k kind _ = False"

text \<open>The calls of a kind that were granted for a turn during a run.\<close>

fun granted_calls :: "codec \<Rightarrow> surroundings \<Rightarrow> int \<Rightarrow> attempt_kind \<Rightarrow> lease_op list \<Rightarrow> owner_world \<Rightarrow> int" where
  "granted_calls cd e k kind [] w = 0"
| "granted_calls cd e k kind (x # xs) w =
     (if calls_of k kind x \<and> fst (lease_step cd e x w) then 1 else 0) + granted_calls cd e k kind xs (lease_next cd e x w)"

context act_law
begin

lemma step_law: "R w (lease_next cd e x w)"
  using lawful_initialize lawful_reserve lawful_mark lawful_model_call lawful_tool_call lawful_finish lawful_close other_law
  by (cases x) (simp_all add: lease_next_def lawful_def case_prod_beta)

end

section \<open>Attempts\<close>

definition world_le :: "owner_world \<Rightarrow> owner_world \<Rightarrow> bool" where
  "world_le w w' = ((db_ok (ps_db (ow_store w)) \<longrightarrow> db_ok (ps_db (ow_store w')) \<and> db_le (ps_db (ow_store w)) (ps_db (ow_store w')))
     \<and> (ow_closed w \<longrightarrow> ow_closed w'))"

lemma world_le_same: "ow_store w' = ow_store w \<Longrightarrow> ow_closed w' = ow_closed w \<Longrightarrow> world_le w w'"
  by (simp add: world_le_def db_le_refl)

lemma revoke_fields [simp]: "ow_store (revoke_lease l w) = ow_store w" "ow_closed (revoke_lease l w) = ow_closed w"
    "ow_backend (revoke_lease l w) = ow_backend w" "ow_namespace (revoke_lease l w) = ow_namespace w"
  by (simp_all add: revoke_lease_def split: option.splits)

lemma world_le_other: "world_le w (act_other cd x w)"
  using pilot.keeps [OF TrueI] pilot.advances [OF TrueI]
  by (cases x) (auto simp: world_le_def begin_close_def db_le_refl)

interpretation growth: act_law cd world_le for cd
proof
  show "world_le w t \<Longrightarrow> world_le t u \<Longrightarrow> world_le w u" for w t u
    using db_le_trans by (auto simp: world_le_def)
qed (auto simp: world_le_same set_running_def world_le_other)

definition attempts_of :: "attempt_kind \<Rightarrow> int \<Rightarrow> pilot_db \<Rightarrow> int" where
  "attempts_of kind k db = (case find (\<lambda>r. rq_sequence r = k \<and> rq_operation r = ''turn'') (db_requests db) of
     None \<Rightarrow> 0 | Some r \<Rightarrow> attempts kind r)"

lemma attempts_of_row:
  assumes "db_ok db" "r \<in> set (db_requests db)" "rq_sequence r = k" "rq_operation r = ''turn''"
  shows "attempts_of kind k db = attempts kind r"
proof -
  obtain x where x: "find (\<lambda>r. rq_sequence r = k \<and> rq_operation r = ''turn'') (db_requests db) = Some x"
    using assms(2-4) by (cases "find (\<lambda>r. rq_sequence r = k \<and> rq_operation r = ''turn'') (db_requests db)")
      (auto simp: find_None_iff)
  then have "x = r" using find_SomeD [OF x] sequence_unique [OF assms(1)] assms(2,3) by simp
  then show ?thesis using x by (simp add: attempts_of_def)
qed

lemma attempts_of_bounds:
  assumes "db_ok db" "kind \<in> {Model_Attempt, Tool_Attempt}"
  shows "0 \<le> attempts_of kind k db \<and> attempts_of kind k db \<le> attempt_ceiling kind"
proof (cases "find (\<lambda>r. rq_sequence r = k \<and> rq_operation r = ''turn'') (db_requests db)")
  case (Some r)
  then have "turn_ok db r" "rq_operation r = ''turn''" using find_SomeD [OF Some] assms(1) by (auto simp: db_ok_def)
  then show ?thesis using Some assms(2) by (auto simp: attempts_of_def turn_ok_def attempts_def attempt_ceiling_def)
qed (use assms(2) in \<open>auto simp: attempts_of_def attempt_ceiling_def\<close>)

lemma attempts_of_grow:
  assumes "db_ok db" "db_ok db'" "db_le db db'" "kind \<in> {Model_Attempt, Tool_Attempt}"
  shows "attempts_of kind k db \<le> attempts_of kind k db'"
proof (cases "find (\<lambda>r. rq_sequence r = k \<and> rq_operation r = ''turn'') (db_requests db)")
  case (Some r)
  note r = find_SomeD [OF Some]
  then have "r \<in> set (db_requests db)" by simp
  then obtain r' where r': "r' \<in> set (db_requests db')" "row_le r r'" using row_later [OF assms(3)] by metis
  then have "attempts_of kind k db' = attempts kind r'" using r
    by (intro attempts_of_row [OF assms(2)]) (auto simp: row_le_def same_request_def)
  moreover have "attempts kind r \<le> attempts kind r'" using r' by (simp add: row_le_def attempts_def)
  ultimately show ?thesis using Some by (simp add: attempts_of_def)
next
  case None
  then have "attempts_of kind k db = 0" by (simp add: attempts_of_def)
  then show ?thesis using attempts_of_bounds [OF assms(2,4)] by simp
qed

lemma attempt_counted:
  assumes "reserve_attempt io clk k kind limit s = (Inr True, s')" "db_ok (ps_db s)"
  shows "attempts_of kind k (ps_db s') = attempts_of kind k (ps_db s) + 1 \<and> kind \<in> {Model_Attempt, Tool_Attempt}"
proof -
  have kind: "kind \<in> {Model_Attempt, Tool_Attempt}" using assms(1) by (auto simp: reserve_attempt_def work_Inr)
  let ?f = "if kind = Model_Attempt
    then (\<lambda>x. x\<lparr>rq_model_attempts := rq_model_attempts x + 1, rq_updated_at := clk 1\<rparr>)
    else (\<lambda>x. x\<lparr>rq_tool_attempts := rq_tool_attempts x + 1, rq_updated_at := clk 1\<rparr>)"
  obtain r where r: "turn_row k (ps_db s) = Inr r" "db_requests (ps_db s') = db_requests (set_request k ?f (ps_db s))"
    using assms(1) by (auto simp: reserve_attempt_def reserve_work_def work_Inr run_work_Inr split: if_splits)
  note row = turn_row_Inr [OF r(1)]
  have "s' = pilot_step cd (P_attempt io clk k kind limit) s" for cd using assms(1) by simp
  then have ok: "db_ok (ps_db s')" using pilot.keeps [OF TrueI assms(2)] by metis
  have "?f r \<in> set (db_requests (ps_db s'))" using row r(2) by (force simp: set_request_def)
  then have "attempts_of kind k (ps_db s') = attempts kind (?f r)" using row
    by (intro attempts_of_row [OF ok]) auto
  moreover have "attempts_of kind k (ps_db s) = attempts kind r" by (rule attempts_of_row [OF assms(2) row(1-3)])
  ultimately show ?thesis using kind by (auto simp: attempts_def)
qed

text \<open>A granted call has been counted.\<close>

lemma lawful_attempts:
  assumes "world_le w w'" "db_ok (ps_db (ow_store w))" "kind \<in> {Model_Attempt, Tool_Attempt}"
  shows "db_ok (ps_db (ow_store w')) \<and> attempts_of kind k (ps_db (ow_store w)) \<le> attempts_of kind k (ps_db (ow_store w'))"
  using assms attempts_of_grow by (auto simp: world_le_def)

lemma waited_attempt:
  assumes "wait_store cd e (\<lambda>io clk. reserve_attempt io clk k kind limit) w = (Inr True, w')" "db_ok (ps_db (ow_store w))"
  shows "db_ok (ps_db (ow_store w')) \<and> attempts_of kind k (ps_db (ow_store w)) + 1 \<le> attempts_of kind k (ps_db (ow_store w'))
    \<and> kind \<in> {Model_Attempt, Tool_Attempt}"
proof -
  let ?w1 = "pause cd e w"
  obtain r s where m: "reserve_attempt (sr_io e (ow_moment ?w1)) (sr_clk e (ow_moment ?w1)) k kind limit (ow_store ?w1) = (r, s)"
    by fastforce
  then have r: "r = Inr True" and w': "w' = pause cd e (?w1\<lparr>ow_store := s\<rparr>)"
    using assms(1) by (cases r; auto simp: wait_store_def Let_def awaited_def split: if_splits)+
  note p1 = growth.pause_law [of w cd e] and p2 = growth.pause_law [of "?w1\<lparr>ow_store := s\<rparr>" cd e]
  have ok1: "db_ok (ps_db (ow_store ?w1))" using p1 assms(2) by (simp add: world_le_def)
  note c = attempt_counted [OF m [unfolded r] ok1]
  have "s = pilot_step cd (P_attempt (sr_io e (ow_moment ?w1)) (sr_clk e (ow_moment ?w1)) k kind limit) (ow_store ?w1)"
    using m by simp
  then have "db_ok (ps_db s)" using pilot.keeps [OF TrueI ok1] by metis
  then have "db_ok (ps_db (ow_store w'))
      \<and> attempts_of kind k (ps_db s) \<le> attempts_of kind k (ps_db (ow_store w'))"
    using lawful_attempts [OF p2, of kind k] c w' by simp
  moreover have "attempts_of kind k (ps_db (ow_store w)) \<le> attempts_of kind k (ps_db (ow_store ?w1))"
    using lawful_attempts [OF p1 assms(2), of kind k] c by simp
  ultimately show ?thesis using c by linarith
qed

lemma grows: "growth.lawful m \<Longrightarrow> m w = (r, w') \<Longrightarrow> world_le w w'"
  by (metis growth.lawful_def snd_conv)

lemma counted_between:
  assumes "world_le w w1" "wait_store cd e (\<lambda>io clk. reserve_attempt io clk k kind limit) w1 = (Inr True, w2)" "world_le w2 w'"
    "db_ok (ps_db (ow_store w))"
  shows "attempts_of kind k (ps_db (ow_store w)) + 1 \<le> attempts_of kind k (ps_db (ow_store w'))"
proof -
  have "db_ok (ps_db (ow_store w1))" using assms(1,4) by (simp add: world_le_def)
  from waited_attempt [OF assms(2) this] show ?thesis
    using lawful_attempts [OF assms(1,4), of kind k] lawful_attempts [OF assms(3), of kind k] by linarith
qed

lemma gate_Inr:
  "next_act m (\<lambda>yes. if \<not> yes then done_with False else f) w = (Inr True, w')
    \<longleftrightarrow> (\<exists>w1. m w = (Inr True, w1) \<and> f w1 = (Inr True, w'))"
  by (auto simp: next_act_Inr done_with_def split: if_splits)

lemma model_call_Inr:
  "lease_model_call cd e l limit w = (Inr True, w') \<longleftrightarrow> (\<exists>w1 od w2 w3 w4 w5. active_lease cd e l w = (Inr True, w1)
    \<and> require_lease e l w1 = (Inr od, w2)
    \<and> wait_store cd e (\<lambda>io clk. reserve_attempt io clk (ls_sequence l) Model_Attempt limit) w2 = (Inr True, w3)
    \<and> alive e l w3 = (Inr True, w4) \<and> ledger_model_call cd e l od w4 = (Inr True, w5)
    \<and> active_lease cd e l w5 = (Inr True, w'))"
  unfolding lease_model_call_def or_revoke_Inr gate_Inr next_act_Inr [of "require_lease e l"] by blast

lemma tool_call_Inr:
  "lease_tool_call cd e l tool limit w = (Inr True, w') \<longleftrightarrow> tool \<in> owner_tools \<and> (\<exists>w1 w2. active_lease cd e l w = (Inr True, w1)
    \<and> wait_store cd e (\<lambda>io clk. reserve_attempt io clk (ls_sequence l) Tool_Attempt limit) w1 = (Inr True, w2)
    \<and> active_lease cd e l w2 = (Inr True, w'))"
  unfolding lease_tool_call_def by (auto simp: or_revoke_Inr gate_Inr done_with_def)

lemma granted_counted:
  assumes "fst (lease_step cd e x w)" "calls_of k kind x" "db_ok (ps_db (ow_store w))"
  shows "attempts_of kind k (ps_db (ow_store w)) + 1 \<le> attempts_of kind k (ps_db (ow_store (lease_next cd e x w)))"
proof -
  note laws = grows [OF growth.lawful_active] grows [OF growth.lawful_require] grows [OF growth.lawful_alive]
    grows [OF growth.lawful_ledger]
  consider (model) l limit where "x = Do_Model l limit" | (tool) l tool limit where "x = Do_Tool l tool limit"
    using assms(2) by (cases x) auto
  then show ?thesis
  proof cases
    case model
    then obtain w' where W: "lease_model_call cd e l limit w = (Inr True, w')" "lease_next cd e x w = w'"
      using assms(1) by (auto simp: lease_next_def split: prod.splits)
    then obtain w1 od w2 w3 w4 w5 where run: "active_lease cd e l w = (Inr True, w1)" "require_lease e l w1 = (Inr od, w2)"
        "wait_store cd e (\<lambda>io clk. reserve_attempt io clk (ls_sequence l) Model_Attempt limit) w2 = (Inr True, w3)"
        "alive e l w3 = (Inr True, w4)" "ledger_model_call cd e l od w4 = (Inr True, w5)" "active_lease cd e l w5 = (Inr True, w')"
      unfolding model_call_Inr by blast
    have "world_le w w2" using laws(1) [OF run(1)] laws(2) [OF run(2)] growth.trans by blast
    moreover have "world_le w3 w'" using laws(3) [OF run(4)] laws(4) [OF run(5)] laws(1) [OF run(6)] growth.trans by blast
    ultimately show ?thesis using counted_between [OF _ run(3) _ assms(3)] model W(2) assms(2) by auto
  next
    case tool
    then obtain w' where W: "lease_tool_call cd e l tool limit w = (Inr True, w')" "lease_next cd e x w = w'"
      using assms(1) by (auto simp: lease_next_def split: prod.splits)
    then obtain w1 w2 where run: "active_lease cd e l w = (Inr True, w1)"
        "wait_store cd e (\<lambda>io clk. reserve_attempt io clk (ls_sequence l) Tool_Attempt limit) w1 = (Inr True, w2)"
        "active_lease cd e l w2 = (Inr True, w')"
      unfolding tool_call_Inr by blast
    show ?thesis using counted_between [OF laws(1) [OF run(1)] run(2) laws(1) [OF run(3)] assms(3)] tool W(2) assms(2) by auto
  qed
qed

lemma granted_calls_counted:
  assumes "db_ok (ps_db (ow_store w))" "kind \<in> {Model_Attempt, Tool_Attempt}"
  shows "granted_calls cd e k kind xs w \<le> attempt_ceiling kind - attempts_of kind k (ps_db (ow_store w))"
  using assms(1)
proof (induction xs arbitrary: w)
  case Nil
  then show ?case using attempts_of_bounds [OF Nil assms(2), of k] by simp
next
  case (Cons x xs)
  have le: "world_le w (lease_next cd e x w)" by (rule growth.step_law)
  then have ok: "db_ok (ps_db (ow_store (lease_next cd e x w)))" using Cons.prems by (simp add: world_le_def)
  show ?case using Cons.IH [OF ok] granted_counted [of cd e x w k kind] lawful_attempts [OF le Cons.prems assms(2), of k] Cons.prems
    by fastforce
qed

text \<open>C15: Over every run of the budget adapter, whatever the owner store is used for meanwhile, whatever
  is cancelled, revoked or fails, and however many leases are asked for, at most 8 model calls and at
  most 4 tool calls are granted for one turn of the owner.\<close>

theorem granted_calls_bounded:
  assumes "mk_pilot_store path empty_db = Inr s0" "ow_store w = run_ops (pilot_step cd) ops s0"
  shows "granted_calls cd e k Model_Attempt xs w \<le> 8 \<and> granted_calls cd e k Tool_Attempt xs w \<le> 4"
proof -
  have ok: "db_ok (ps_db (ow_store w))" using reached_ok [OF assms(1)] assms(2) by simp
  show ?thesis
    using granted_calls_counted [OF ok, of Model_Attempt cd e k xs] granted_calls_counted [OF ok, of Tool_Attempt cd e k xs]
      attempts_of_bounds [OF ok, of Model_Attempt k] attempts_of_bounds [OF ok, of Tool_Attempt k]
    by (simp add: attempt_ceiling_def)
qed

section \<open>Granted calls are live\<close>

lemma owns_moment [simp]: "owns_lease now l (w\<lparr>ow_moment := n\<rparr>) = owns_lease now l w"
  by (simp add: owns_lease_def)

lemma alive_Inr: "alive e l w = (Inr yes, w') \<Longrightarrow> owns_lease (sr_now e (ow_moment w)) l w' = yes"
  by (auto simp: alive_def)

lemma active_live:
  assumes "active_lease cd e l w = (Inr True, w')"
  shows "\<exists>now. owns_lease now l w'"
proof -
  obtain w1 w2 where "alive e l w2 = (Inr True, w')"
    using assms by (auto simp: active_lease_def next_act_Inr done_with_def refuse_def
        split: if_splits prod.splits sum.splits lease_error.splits)
  from alive_Inr [OF this] show ?thesis by auto
qed

lemma current_live:
  assumes "current cd e l st w = (Inr r, w')"
  shows "(\<exists>now. owns_lease now l w') \<and> lease_matches l st r"
proof -
  obtain w1 od where R: "require_lease e l w1 = (Inr od, w')" and "lease_matches l st r"
    using assms by (auto simp: current_def next_act_Inr done_with_def refuse_def split: if_splits prod.splits)
  obtain yes where A: "alive e l w1 = (Inr yes, w')" and yes
    using R by (auto simp: require_lease_def next_act_Inr done_with_def refuse_def split: option.splits if_splits)
  then show ?thesis using alive_Inr [OF A] \<open>lease_matches l st r\<close> by auto
qed

lemma take_lease_Inr:
  assumes "take_lease cd e l cap w = (Inr l', w')"
  shows "l' = l \<and> (\<exists>now. owns_lease now l w')"
proof -
  let ?w1 = "w\<lparr>ow_owned := AList.update (ls_sequence l) \<lparr>od_lease = l, od_backend = cap, od_state = Lease_Reserved\<rparr> (ow_owned w),
    ow_moment := ow_moment w + 1\<rparr>"
  have "next_act (current cd e l ''ADMITTED'') (\<lambda>_. done_with l) ?w1 = (Inr l', w')"
    using assms unfolding take_lease_def or_revoke_Inr refuse_def by (simp add: or_revoke_Inr split: if_splits)
  then show ?thesis using current_live unfolding next_act_Inr done_with_def by blast
qed

lemma reserve_live:
  assumes "lease_reserve_request cd e p rid task w = (Inr l, w')"
  shows "\<exists>now. owns_lease now l w'"
proof -
  obtain r quota a w1 where "take_answer cd e p rid task r quota a w1 = (Inr l, w')"
    using assms by (auto simp: lease_reserve_request_def next_act_Inr refuse_def split: if_splits prod.splits)
  then show ?thesis by (cases a) (auto simp: refuse_def split: if_splits dest: take_lease_Inr)
qed

text \<open>The lease to which an operation grants something: the one it hands out, or the one whose model
  or tool call it allows.\<close>

fun granted_to :: "codec \<Rightarrow> surroundings \<Rightarrow> lease_op \<Rightarrow> owner_world \<Rightarrow> request_lease option" where
  "granted_to cd e (Do_Reserve p rid task) w = (case fst (lease_reserve_request cd e p rid task w) of Inr l \<Rightarrow> Some l | Inl _ \<Rightarrow> None)"
| "granted_to cd e (Do_Model l limit) w = (if fst (lease_model_call cd e l limit w) = Inr True then Some l else None)"
| "granted_to cd e (Do_Tool l tool limit) w = (if fst (lease_tool_call cd e l tool limit w) = Inr True then Some l else None)"
| "granted_to cd e x w = None"

text \<open>Nothing is granted to a lease that is not live when the grant returns. A lease handed out, a
  model call and a tool call granted imply that at that moment the adapter and the owner store are open,
  the turn is not blocked, the adapter still owns exactly this lease, unchanged, and its deadline has not
  passed, whatever happened while the operation waited.\<close>

lemma grants_are_live:
  assumes "granted_to cd e x w = Some l"
  shows "\<exists>now. owns_lease now l (lease_next cd e x w)"
proof (cases x)
  case (Do_Reserve p rid task)
  then obtain w' where "lease_reserve_request cd e p rid task w = (Inr l, w')"
    using assms by (cases "lease_reserve_request cd e p rid task w") (auto split: sum.splits)
  then show ?thesis using reserve_live Do_Reserve by (simp add: lease_next_def)
next
  case (Do_Model l' limit)
  then obtain w' where W: "lease_model_call cd e l limit w = (Inr True, w')"
    using assms by (cases "lease_model_call cd e l' limit w") (auto split: if_splits)
  then have "\<exists>now. owns_lease now l w'" unfolding model_call_Inr by (blast dest: active_live)
  then show ?thesis using W Do_Model assms by (auto simp: lease_next_def split: if_splits)
next
  case (Do_Tool l' tool limit)
  then obtain w' where W: "lease_tool_call cd e l tool limit w = (Inr True, w')"
    using assms by (cases "lease_tool_call cd e l' tool limit w") (auto split: if_splits)
  then have "\<exists>now. owns_lease now l w'" unfolding tool_call_Inr by (blast dest: active_live)
  then show ?thesis using W Do_Tool assms by (auto simp: lease_next_def split: if_splits)
qed (use assms in simp_all)

section \<open>A failed call ends the lease\<close>

definition objects :: "(int \<times> owned_lease) list \<Rightarrow> nat list" where
  "objects ods = map (\<lambda>p. ls_object (od_lease (snd p))) ods"

definition adapter_ok :: "owner_world \<Rightarrow> bool" where
  "adapter_ok w = (distinct (map fst (ow_owned w)) \<and> distinct (objects (ow_owned w))
     \<and> (\<forall>x \<in> set (objects (ow_owned w)). x < ow_moment w))"

definition fades :: "owner_world \<Rightarrow> owner_world \<Rightarrow> bool" where
  "fades w w' = (adapter_ok w \<longrightarrow> adapter_ok w' \<and> ow_moment w \<le> ow_moment w'
     \<and> (\<forall>x < ow_moment w. x \<notin> set (objects (ow_owned w)) \<longrightarrow> x \<notin> set (objects (ow_owned w'))))"

lemma fades_owned:
  "map fst (ow_owned w') = map fst (ow_owned w) \<Longrightarrow> objects (ow_owned w') = objects (ow_owned w) \<Longrightarrow> ow_moment w \<le> ow_moment w'
    \<Longrightarrow> fades w w'"
  by (fastforce simp: fades_def adapter_ok_def)

lemma fades_revoke: "fades w (revoke_lease l w)"
proof -
  have "adapter_ok w \<Longrightarrow> adapter_ok (w\<lparr>ow_owned := AList.delete k (ow_owned w)\<rparr>)"
    "set (objects (AList.delete k (ow_owned w))) \<subseteq> set (objects (ow_owned w))" for k
    by (auto simp: adapter_ok_def objects_def AList.delete_eq distinct_map_filter)
  then show ?thesis by (auto simp: fades_def revoke_lease_def split: option.splits)
qed

lemma revoke_removes:
  assumes "adapter_ok w"
  shows "ls_object l \<notin> set (objects (ow_owned (revoke_lease l w)))"
proof (cases "find (\<lambda>p. ls_object (od_lease (snd p)) = ls_object l) (ow_owned w)")
  case None
  then have "ls_object l \<notin> set (objects (ow_owned w))" by (fastforce simp: objects_def find_None_iff)
  then show ?thesis by (simp add: revoke_lease_def None)
next
  case (Some p)
  note p = find_SomeD [OF Some]
  have inj: "inj_on (\<lambda>p. ls_object (od_lease (snd p))) (set (ow_owned w))"
    using assms by (simp add: adapter_ok_def objects_def distinct_map)
  have only: "q = p" if "q \<in> set (ow_owned w)" "ls_object (od_lease (snd q)) = ls_object l" for q
    using that p inj_onD [OF inj, of q p] by simp
  have "ow_owned (revoke_lease l w) = AList.delete (fst p) (ow_owned w)" by (simp add: revoke_lease_def Some)
  then show ?thesis using only by (force simp: objects_def AList.delete_eq)
qed

lemma update_objects:
  "set (objects (AList.update k od xs)) \<subseteq> insert (ls_object (od_lease od)) (set (objects xs))"
  "distinct (objects xs) \<Longrightarrow> ls_object (od_lease od) \<notin> set (objects xs) \<Longrightarrow> distinct (objects (AList.update k od xs))"
  by (induction xs) (auto simp: objects_def)

interpretation fading: act_law cd fades for cd
proof
  fix w t u :: owner_world
  show "fades w w" by (simp add: fades_def)
  show "fades w t \<Longrightarrow> fades t u \<Longrightarrow> fades w u" by (auto simp: fades_def)
  show "fades w (act_other cd x w)" for x
    by (cases x) (auto simp: fades_revoke fades_owned, simp add: fades_def adapter_ok_def objects_def begin_close_def)
  show "fades w (w\<lparr>ow_moment := n\<rparr>)" if "ow_moment w \<le> n" for n using that by (simp add: fades_owned)
  show "fades w (w\<lparr>ow_backend := b\<rparr>)" for b by (simp add: fades_owned)
  show "fades w (w\<lparr>ow_owned := AList.update (ls_sequence l) od (ow_owned w), ow_moment := ow_moment w + 1\<rparr>)"
    if l: "od_lease od = l" "ls_object l = ow_moment w" for l od
  proof -
    have "adapter_ok (w\<lparr>ow_owned := AList.update (ls_sequence l) od (ow_owned w), ow_moment := ow_moment w + 1\<rparr>)" if "adapter_ok w"
      using that l update_objects(1) [of "ls_sequence l" od "ow_owned w"] update_objects(2) [of "ow_owned w" od "ls_sequence l"]
      by (auto simp: adapter_ok_def distinct_update less_Suc_eq)
    then show ?thesis using l update_objects(1) [of "ls_sequence l" od "ow_owned w"] by (auto simp: fades_def)
  qed
  show "fades w (snd (set_running l w))" for l
  proof -
    let ?f = "\<lambda>(k, od). if od_lease od = l then (k, od\<lparr>od_state := Lease_Running\<rparr>) else (k, od)"
    have "map fst (map ?f xs) = map fst xs \<and> objects (map ?f xs) = objects xs" for xs
      by (induction xs) (auto simp: objects_def)
    then show ?thesis by (intro fades_owned) (simp_all add: set_running_def)
  qed
qed

lemma lease_run_ok:
  assumes "adapter_ok w"
  shows "adapter_ok (run_ops (lease_next cd e) xs w)
    \<and> ow_moment w \<le> ow_moment (run_ops (lease_next cd e) xs w)
    \<and> (\<forall>x < ow_moment w. x \<notin> set (objects (ow_owned w)) \<longrightarrow> x \<notin> set (objects (ow_owned (run_ops (lease_next cd e) xs w))))"
proof -
  have "fades w (run_ops (lease_next cd e) xs w)" for w
    by (induction xs arbitrary: w) (auto intro: fading.refl fading.trans fading.step_law)
  then show ?thesis using assms by (simp add: fades_def)
qed

lemma or_revoke_failed:
  assumes "or_revoke l m w = (Inl err, w')" "fading.lawful m" "adapter_ok w"
  shows "adapter_ok w' \<and> ow_moment w \<le> ow_moment w' \<and> ls_object l \<notin> set (objects (ow_owned w'))"
proof -
  obtain w1 where w1: "w' = revoke_lease l w1" "m w = (Inl err, w1)" using or_revoke_Inl [OF assms(1)] by blast
  then have "fades w w1" using assms(2) unfolding fading.lawful_def by (metis snd_conv)
  then have ok: "adapter_ok w1" "ow_moment w \<le> ow_moment w1" using assms(3) by (simp_all add: fades_def)
  then show ?thesis using revoke_removes [OF ok(1)] fades_revoke [of w1 l] w1(1) by (simp add: fades_def)
qed

lemma failed_call_revoked:
  assumes "lease_model_call cd e l limit w = (Inl err, w') \<or> lease_tool_call cd e l tool limit w = (Inl err, w')" "adapter_ok w"
  shows "adapter_ok w' \<and> ow_moment w \<le> ow_moment w' \<and> ls_object l \<notin> set (objects (ow_owned w'))"
  using assms(1)
proof
  assume "lease_model_call cd e l limit w = (Inl err, w')"
  then show ?thesis unfolding lease_model_call_def
    by (rule or_revoke_failed) (intro fading.lawful_rules fading.lawful_active fading.lawful_ledger assms(2))+
next
  assume T: "lease_tool_call cd e l tool limit w = (Inl err, w')"
  then have "tool \<in> owner_tools" by (auto simp: lease_tool_call_def done_with_def split: if_splits)
  from T this show ?thesis unfolding lease_tool_call_def
    by simp (erule or_revoke_failed; intro fading.lawful_rules fading.lawful_active assms(2))
qed

lemma not_owned: "ls_object l \<notin> set (objects (ow_owned w)) \<Longrightarrow> \<not> owns_lease now l w"
  by (auto simp: owns_lease_def objects_def split: option.splits dest!: map_of_SomeD)
    (metis image_eqI snd_conv)

lemma mk_adapter_ok: "mk_adapter backend store namespace = Inr w \<Longrightarrow> adapter_ok w \<and> ow_store w = store"
  by (auto simp: mk_adapter_def adapter_ok_def objects_def split: if_splits)

text \<open>A call that fails ends the lease for good. When a model call or a tool call raises, for whatever
  reason (a store's error, a cancelled task, a conflict found on the way), the adapter no longer owns the
  lease, and no later run of the adapter, in any surroundings, makes that lease live again.\<close>

lemma failed_call_is_final:
  assumes "mk_adapter backend store namespace = Inr w0" "w = run_ops (lease_next cd e) xs w0" "ls_object l < ow_moment w"
    "lease_model_call cd e l limit w = (Inl err, w') \<or> lease_tool_call cd e l tool limit w = (Inl err, w')"
  shows "\<not> owns_lease now l (run_ops (lease_next cd e') ys w')"
proof -
  have "adapter_ok w" using lease_run_ok mk_adapter_ok [OF assms(1)] assms(2) by metis
  note failed_call_revoked [OF assms(4) this]
  then have "ls_object l \<notin> set (objects (ow_owned (run_ops (lease_next cd e') ys w')))"
    using lease_run_ok [of w' cd e' ys] assms(3) by simp
  then show ?thesis by (rule not_owned)
qed

section \<open>Instances\<close>

definition quiet :: surroundings where
  "quiet = \<lparr>sr_others = \<lambda>_. [], sr_io = \<lambda>_. demo_io, sr_clk = \<lambda>_ _. 2, sr_env = \<lambda>_. env_at 5,
     sr_token = \<lambda>_. replicate 32 CHR ''x'', sr_cancel = \<lambda>_. False, sr_now = \<lambda>_. 3\<rparr>"

definition demo_world :: owner_world where
  "demo_world = \<lparr>ow_store = demo_admitted, ow_backend = Budget_Store.demo_store, ow_namespace = ''owner-pilot:v1'',
     ow_owned = [], ow_closed = False, ow_moment = 0\<rparr>"

definition demo_lease :: request_lease where
  "demo_lease = \<lparr>ls_object = 6, ls_principal = ann, ls_request_id = ''r2'', ls_task_id = ''k'', ls_sequence = 2,
     ls_quota = 1, ls_capability = replicate 32 CHR ''x'', ls_deadline = 121\<rparr>"

definition demo_run :: "lease_op list" where
  "demo_run = [Do_Reserve ann ''r2'' ''k'', Do_Mark demo_lease]"

definition demo_marked :: owner_world where
  "demo_marked = run_ops (lease_next demo_codec quiet) demo_run demo_world"

lemma demo_world_store: "ow_store demo_world = run_ops (pilot_step demo_codec) (demo_setup @ [demo_admit]) Admission_Pilot.demo_store"
  by (simp add: demo_world_def demo_admitted_def)

theorem granted_calls_bounded_witness:
  "granted_calls demo_codec quiet 2 Model_Attempt (demo_run @ [Do_Model demo_lease 8, Do_Tool demo_lease ''calculator'' 4]) demo_world \<le> 8
   \<and> granted_calls demo_codec quiet 2 Tool_Attempt (demo_run @ [Do_Model demo_lease 8, Do_Tool demo_lease ''calculator'' 4]) demo_world \<le> 4"
  by (rule granted_calls_bounded [OF demo_store_made demo_world_store])

lemma grants_are_live_example:
  "granted_to demo_codec quiet (Do_Model demo_lease 8) demo_marked = Some demo_lease
   \<and> (\<exists>now. owns_lease now demo_lease (lease_next demo_codec quiet (Do_Model demo_lease 8) demo_marked))"
proof -
  have "granted_to demo_codec quiet (Do_Model demo_lease 8) demo_marked = Some demo_lease" by code_simp
  from grants_are_live [OF this] this show ?thesis by blast
qed

text \<open>A model call of the running lease during which the task is cancelled.\<close>

definition broken :: surroundings where
  "broken = quiet\<lparr>sr_cancel := \<lambda>n. n > 27\<rparr>"

definition broken_marked :: owner_world where
  "broken_marked = run_ops (lease_next demo_codec broken) demo_run demo_world"

lemma broken_call:
  "fst (lease_model_call demo_codec broken demo_lease 8 broken_marked) = Inl Task_Cancelled
   \<and> owns_lease 3 demo_lease broken_marked \<and> ow_moment broken_marked = 27"
  by code_simp

lemma failed_call_is_final_example:
  "owns_lease 3 demo_lease broken_marked
   \<and> \<not> owns_lease 3 demo_lease (run_ops (lease_next demo_codec quiet) [Do_Mark demo_lease, Do_Reserve ann ''r2'' ''k'']
        (snd (lease_model_call demo_codec broken demo_lease 8 broken_marked)))"
proof -
  have made: "mk_adapter Budget_Store.demo_store demo_admitted ''owner-pilot:v1'' = Inr demo_world" by code_simp
  have "ls_object demo_lease < ow_moment broken_marked" using broken_call by (simp add: demo_lease_def)
  moreover have "lease_model_call demo_codec broken demo_lease 8 broken_marked
      = (Inl Task_Cancelled, snd (lease_model_call demo_codec broken demo_lease 8 broken_marked))"
    using broken_call by (simp add: prod_eq_iff)
  ultimately show ?thesis using failed_call_is_final [OF made broken_marked_def] broken_call by blast
qed

end
