(* ===== verification/Tool_Policy.thy ===== *)
theory Tool_Policy
  imports Admission_Lease
begin

text \<open>
  What a tool call must pass before it runs: the validation of its arguments
  (\<open>_validate_value\<close> of \<open>src/agency/tools/registry.py\<close>), the beta allowlist
  (\<open>src/agency/tools/base.py\<close>) and the owner's policy (\<open>src/agency/admission/policy.py\<close>).

  A schema is the part of JSON Schema the validator reads; a property whose subschema is not an
  object is \<open>None\<close>. Arguments are JSON objects without floats. A violation is a constructor that
  carries the path the message shows. The reasons of a denial are kept as text, without the
  Python representation of a name they quote.
\<close>

section \<open>Schemas\<close>

datatype schema_type = One_Type str | Some_Types "str list"

datatype schema = Schema "schema_type option" "(str \<times> schema option) list" "str list" bool "schema option"

datatype violation = Wrong_Type str | Missing_Property str str | Unknown_Property str str

definition type_names :: "str list" where
  "type_names = [''string'', ''integer'', ''number'', ''boolean'', ''array'', ''object'']"

definition type_matches :: "json \<Rightarrow> str \<Rightarrow> bool" where
  "type_matches v t =
     (if t = ''string'' then (case v of JStr _ \<Rightarrow> True | _ \<Rightarrow> False)
      else if t = ''integer'' \<or> t = ''number'' then (case v of JInt _ \<Rightarrow> True | _ \<Rightarrow> False)
      else if t = ''boolean'' then (case v of JBool _ \<Rightarrow> True | _ \<Rightarrow> False)
      else if t = ''array'' then (case v of JArr _ \<Rightarrow> True | _ \<Rightarrow> False)
      else if t = ''object'' then (case v of JObj _ \<Rightarrow> True | _ \<Rightarrow> False)
      else True)"

definition type_ok :: "schema_type option \<Rightarrow> json \<Rightarrow> bool" where
  "type_ok ty v =
     (case ty of
        None \<Rightarrow> True
      | Some (Some_Types ts) \<Rightarrow> list_ex (type_matches v) ts
      | Some (One_Type t) \<Rightarrow> t \<notin> set type_names \<or> type_matches v t)"

fun first_some :: "('a \<Rightarrow> 'b option) \<Rightarrow> 'a list \<Rightarrow> 'b option" where
  "first_some f [] = None"
| "first_some f (x # xs) = (case f x of Some y \<Rightarrow> Some y | None \<Rightarrow> first_some f xs)"

lemma first_some_cong [fundef_cong]:
  "xs = ys \<Longrightarrow> (\<And>x. x \<in> set ys \<Longrightarrow> f x = g x) \<Longrightarrow> first_some f xs = first_some g ys"
  by (induction ys arbitrary: xs) (auto split: option.splits)

lemma first_some_None: "first_some f xs = None \<longleftrightarrow> (\<forall>x \<in> set xs. f x = None)"
  by (induction xs) (auto split: option.splits)

definition sub_path :: "str \<Rightarrow> str \<Rightarrow> str" where
  "sub_path path k = path @ ''.'' @ k"

definition item_path :: "str \<Rightarrow> nat \<Rightarrow> str" where
  "item_path path i = path @ ''['' @ nat_text i @ '']''"

definition orelse :: "'a option \<Rightarrow> 'a option \<Rightarrow> 'a option" where
  "orelse a b = (case a of None \<Rightarrow> b | Some x \<Rightarrow> Some x)"

lemma orelse_None [simp]: "orelse a b = None \<longleftrightarrow> a = None \<and> b = None"
  by (simp add: orelse_def split: option.splits)

fun validate_value :: "schema \<Rightarrow> json \<Rightarrow> str \<Rightarrow> violation option" where
  "validate_value (Schema ty props req only_known items) v path =
     (if \<not> type_ok ty v then Some (Wrong_Type path)
      else (case v of
          JObj kvs \<Rightarrow>
            orelse (first_some (\<lambda>k. if map_of kvs k = None then Some (Missing_Property path k) else None) req)
              (orelse (first_some (\<lambda>(k, sub). case sub of
                    None \<Rightarrow> None
                  | Some sc \<Rightarrow> (case map_of kvs k of None \<Rightarrow> None | Some x \<Rightarrow> validate_value sc x (sub_path path k))) props)
                (if only_known then first_some (\<lambda>(k, _). if k \<in> fst ` set props then None else Some (Unknown_Property path k)) kvs
                 else None))
        | JArr xs \<Rightarrow>
            (case items of
               None \<Rightarrow> None
             | Some sc \<Rightarrow> first_some (\<lambda>(i, x). validate_value sc x (item_path path i)) (enumerate 0 xs))
        | _ \<Rightarrow> None))"

text \<open>
  What a schema says, without the validator. A type name stands for kinds of JSON values: a boolean
  is a kind of its own and neither an integer nor a number, and a name outside the six of JSON
  Schema that the validator knows restricts nothing. Subschemas are applied at positions of the
  value, and the faults of a position are read off the one schema and the one value that meet there.
\<close>

datatype json_kind = K_Null | K_Boolean | K_Integer | K_String | K_Array | K_Object

fun kind_of :: "json \<Rightarrow> json_kind" where
  "kind_of JNull = K_Null"
| "kind_of (JBool b) = K_Boolean"
| "kind_of (JInt i) = K_Integer"
| "kind_of (JStr s) = K_String"
| "kind_of (JArr xs) = K_Array"
| "kind_of (JObj kvs) = K_Object"

definition named_kinds :: "(str \<times> json_kind set) list" where
  "named_kinds =
     [(''boolean'', {K_Boolean}), (''integer'', {K_Integer}), (''number'', {K_Integer}),
      (''string'', {K_String}), (''array'', {K_Array}), (''object'', {K_Object})]"

definition kinds_of_name :: "str \<Rightarrow> json_kind set" where
  "kinds_of_name t = (case map_of named_kinds t of Some ks \<Rightarrow> ks | None \<Rightarrow> UNIV)"

fun admitted_kinds :: "schema_type option \<Rightarrow> json_kind set" where
  "admitted_kinds None = UNIV"
| "admitted_kinds (Some (One_Type t)) = kinds_of_name t"
| "admitted_kinds (Some (Some_Types ts)) = \<Union> (kinds_of_name ` set ts)"

inductive reaches :: "schema \<Rightarrow> json \<Rightarrow> str \<Rightarrow> schema \<Rightarrow> json \<Rightarrow> str \<Rightarrow> bool" where
  here: "reaches sc v path sc v path"
| property: "(k, Some sub) \<in> set props \<Longrightarrow> map_of kvs k = Some x \<Longrightarrow>
    reaches sub x (sub_path path k) sc v q \<Longrightarrow>
    reaches (Schema ty props req only_known items) (JObj kvs) path sc v q"
| item: "i < length xs \<Longrightarrow> reaches sub (xs ! i) (item_path path i) sc v q \<Longrightarrow>
    reaches (Schema ty props req only_known (Some sub)) (JArr xs) path sc v q"

fun local_faults :: "schema \<Rightarrow> json \<Rightarrow> str \<Rightarrow> violation set" where
  "local_faults (Schema ty props req only_known items) v path =
     {e. e = Wrong_Type path \<and> kind_of v \<notin> admitted_kinds ty}
     \<union> {e. \<exists>kvs k. e = Missing_Property path k \<and> v = JObj kvs \<and> k \<in> set req \<and> k \<notin> fst ` set kvs}
     \<union> {e. \<exists>kvs k. e = Unknown_Property path k \<and> v = JObj kvs \<and> only_known \<and> k \<in> fst ` set kvs \<and> k \<notin> fst ` set props}"

definition faults :: "schema \<Rightarrow> json \<Rightarrow> str \<Rightarrow> violation set" where
  "faults sc v path = {e. \<exists>sub x q. reaches sc v path sub x q \<and> e \<in> local_faults sub x q}"

lemma local_faults_in: "e \<in> local_faults sc v path \<Longrightarrow> e \<in> faults sc v path"
  unfolding faults_def by (blast intro: here)

lemma property_faults_in:
  assumes "e \<in> faults sub x (sub_path path k)" "(k, Some sub) \<in> set props" "map_of kvs k = Some x"
  shows "e \<in> faults (Schema ty props req only_known items) (JObj kvs) path"
  using assms unfolding faults_def by (blast intro: property)

lemma item_faults_in:
  assumes "e \<in> faults sub (xs ! i) (item_path path i)" "i < length xs"
  shows "e \<in> faults (Schema ty props req only_known (Some sub)) (JArr xs) path"
  using assms unfolding faults_def by (blast intro: item)

text \<open>Conversely a fault is local, or one of a property's or an item's value.\<close>

lemma faults_cases:
  assumes "e \<in> faults (Schema ty props req only_known items) v path"
  obtains "e \<in> local_faults (Schema ty props req only_known items) v path"
  | kvs k sub x where "v = JObj kvs" "(k, Some sub) \<in> set props" "map_of kvs k = Some x"
      "e \<in> faults sub x (sub_path path k)"
  | xs i sub where "v = JArr xs" "items = Some sub" "i < length xs" "e \<in> faults sub (xs ! i) (item_path path i)"
proof -
  obtain sub x q where w: "reaches (Schema ty props req only_known items) v path sub x q" "e \<in> local_faults sub x q"
    using assms unfolding faults_def by blast
  from w(1) show thesis
    by (cases rule: reaches.cases) (use w(2) that in \<open>(simp; fail) | (unfold faults_def, blast)\<close>)+
qed

text \<open>The type test of the validator against the kinds.\<close>

lemma type_matches_kind: "type_matches v t \<longleftrightarrow> kind_of v \<in> kinds_of_name t"
proof (cases "map_of named_kinds t")
  case None
  then have "t \<notin> {''boolean'', ''integer'', ''number'', ''string'', ''array'', ''object''}"
    by (auto simp: named_kinds_def split: if_splits)
  with None show ?thesis by (simp add: type_matches_def kinds_of_name_def)
next
  case (Some ks)
  then have "t = ''boolean'' \<or> t = ''integer'' \<or> t = ''number'' \<or> t = ''string'' \<or> t = ''array'' \<or> t = ''object''"
    by (auto simp: named_kinds_def split: if_splits)
  then show ?thesis
    by (elim disjE) (cases v; simp add: type_matches_def kinds_of_name_def named_kinds_def)+
qed

lemma unknown_type_name: "t \<notin> set type_names \<Longrightarrow> kinds_of_name t = UNIV"
  by (simp add: type_names_def kinds_of_name_def named_kinds_def)

lemma type_ok_kind: "type_ok ty v \<longleftrightarrow> kind_of v \<in> admitted_kinds ty"
  by (cases ty rule: admitted_kinds.cases)
    (auto simp: type_ok_def type_matches_kind unknown_type_name list_ex_iff)

text \<open>The three scans of an object, one scan of an array.\<close>

lemma first_some_Some: "first_some f xs = Some y \<Longrightarrow> \<exists>x \<in> set xs. f x = Some y"
  by (induction xs) (auto split: option.splits)

lemma orelse_Some: "orelse a b = Some x \<longleftrightarrow> a = Some x \<or> (a = None \<and> b = Some x)"
  by (simp add: orelse_def split: option.splits)

definition missing_scan :: "str \<Rightarrow> (str \<times> json) list \<Rightarrow> str list \<Rightarrow> violation option" where
  "missing_scan path kvs req =
     first_some (\<lambda>k. if map_of kvs k = None then Some (Missing_Property path k) else None) req"

definition property_scan :: "str \<Rightarrow> (str \<times> json) list \<Rightarrow> (str \<times> schema option) list \<Rightarrow> violation option" where
  "property_scan path kvs props = first_some (\<lambda>(k, sub). case sub of None \<Rightarrow> None
     | Some sc \<Rightarrow> (case map_of kvs k of None \<Rightarrow> None | Some x \<Rightarrow> validate_value sc x (sub_path path k))) props"

definition unknown_scan :: "str \<Rightarrow> (str \<times> json) list \<Rightarrow> (str \<times> schema option) list \<Rightarrow> violation option" where
  "unknown_scan path kvs props =
     first_some (\<lambda>(k, _). if k \<in> fst ` set props then None else Some (Unknown_Property path k)) kvs"

definition item_scan :: "str \<Rightarrow> json list \<Rightarrow> schema \<Rightarrow> violation option" where
  "item_scan path xs sc = first_some (\<lambda>(i, x). validate_value sc x (item_path path i)) (enumerate 0 xs)"

lemma validate_object:
  "validate_value (Schema ty props req only_known items) (JObj kvs) path =
     (if K_Object \<notin> admitted_kinds ty then Some (Wrong_Type path)
      else orelse (missing_scan path kvs req) (orelse (property_scan path kvs props)
        (if only_known then unknown_scan path kvs props else None)))"
  by (simp add: type_ok_kind missing_scan_def property_scan_def unknown_scan_def)

lemma validate_array:
  "validate_value (Schema ty props req only_known items) (JArr xs) path =
     (if K_Array \<notin> admitted_kinds ty then Some (Wrong_Type path)
      else case items of None \<Rightarrow> None | Some sc \<Rightarrow> item_scan path xs sc)"
  by (simp add: type_ok_kind item_scan_def split: option.split)

lemma missing_scan_None: "missing_scan path kvs req = None \<longleftrightarrow> set req \<subseteq> fst ` set kvs"
  by (auto simp: missing_scan_def first_some_None map_of_eq_None_iff split: if_splits)

lemma missing_scan_Some: "missing_scan path kvs req = Some e \<Longrightarrow>
    \<exists>k \<in> set req. k \<notin> fst ` set kvs \<and> e = Missing_Property path k"
  by (auto simp: missing_scan_def map_of_eq_None_iff dest!: first_some_Some split: if_splits)

lemma unknown_scan_None: "unknown_scan path kvs props = None \<longleftrightarrow> fst ` set kvs \<subseteq> fst ` set props"
  unfolding unknown_scan_def first_some_None image_subset_iff by (simp add: case_prod_beta)

lemma unknown_scan_Some: "unknown_scan path kvs props = Some e \<Longrightarrow>
    \<exists>k \<in> fst ` set kvs. k \<notin> fst ` set props \<and> e = Unknown_Property path k"
  unfolding unknown_scan_def by (drule first_some_Some) (force split: if_splits)

lemma property_scan_None: "property_scan path kvs props = None \<longleftrightarrow>
    (\<forall>k sub x. (k, Some sub) \<in> set props \<longrightarrow> map_of kvs k = Some x \<longrightarrow> validate_value sub x (sub_path path k) = None)"
  by (auto simp: property_scan_def first_some_None split: option.splits)

lemma property_scan_Some: "property_scan path kvs props = Some e \<Longrightarrow>
    \<exists>k sub x. (k, Some sub) \<in> set props \<and> map_of kvs k = Some x \<and> validate_value sub x (sub_path path k) = Some e"
  by (fastforce simp: property_scan_def dest!: first_some_Some split: option.splits)

lemma item_scan_None: "item_scan path xs sc = None \<longleftrightarrow>
    (\<forall>i < length xs. validate_value sc (xs ! i) (item_path path i) = None)"
  unfolding item_scan_def first_some_None Ball_def split_paired_All by (simp add: in_set_enumerate_eq)

lemma item_scan_Some: "item_scan path xs sc = Some e \<Longrightarrow>
    \<exists>i < length xs. validate_value sc (xs ! i) (item_path path i) = Some e"
  by (auto simp: item_scan_def in_set_enumerate_eq dest!: first_some_Some)

lemma no_local_fault:
  "kind_of v \<in> admitted_kinds ty \<Longrightarrow>
     (\<And>kvs. v = JObj kvs \<Longrightarrow> set req \<subseteq> fst ` set kvs \<and> (only_known \<longrightarrow> fst ` set kvs \<subseteq> fst ` set props)) \<Longrightarrow>
     e \<notin> local_faults (Schema ty props req only_known items) v path"
  unfolding local_faults.simps by blast

text \<open>What is reported is a fault; what is accepted has none.\<close>

lemma reported_is_fault: "validate_value sc v path = Some e \<Longrightarrow> e \<in> faults sc v path"
proof (induction sc v path rule: validate_value.induct)
  case (1 ty props req only_known items v path)
  note prems = "1.prems"
  show ?case
  proof (cases "kind_of v \<in> admitted_kinds ty")
    case False
    then have "e = Wrong_Type path" using prems by (simp add: type_ok_kind)
    with False show ?thesis by (intro local_faults_in) simp
  next
    case True
    show ?thesis
    proof (cases v)
      case (JObj kvs)
      from prems True consider (missing) "missing_scan path kvs req = Some e"
        | (property) "property_scan path kvs props = Some e" | (unknown) only_known "unknown_scan path kvs props = Some e"
        by (auto simp: JObj validate_object orelse_Some simp del: validate_value.simps split: if_splits)
      then show ?thesis
      proof cases
        case missing
        then show ?thesis using missing_scan_Some [OF missing] by (intro local_faults_in) (auto simp: JObj)
      next
        case property
        from property_scan_Some [OF this] obtain k sub x
          where p: "(k, Some sub) \<in> set props" "map_of kvs k = Some x" "validate_value sub x (sub_path path k) = Some e"
          by blast
        then have "e \<in> faults sub x (sub_path path k)"
          using "1.IH"(2) [OF _ JObj p(1) refl refl p(2)] True by (simp add: type_ok_kind)
        with p show ?thesis unfolding JObj by (intro property_faults_in)
      next
        case unknown
        then show ?thesis using unknown_scan_Some [OF unknown(2)] by (intro local_faults_in) (auto simp: JObj)
      qed
    next
      case (JArr xs)
      from prems True obtain sub where sub: "items = Some sub" "item_scan path xs sub = Some e"
        by (auto simp: JArr validate_array simp del: validate_value.simps split: option.splits)
      from item_scan_Some [OF sub(2)] obtain i
        where i: "i < length xs" "validate_value sub (xs ! i) (item_path path i) = Some e" by blast
      then have "(i, xs ! i) \<in> set (enumerate 0 xs)" by (simp add: in_set_enumerate_eq)
      then have "e \<in> faults sub (xs ! i) (item_path path i)"
        using "1.IH"(1) [OF _ JArr sub(1), of "(i, xs ! i)" i "xs ! i"] True i by (simp add: type_ok_kind)
      with i show ?thesis unfolding JArr sub(1) by (intro item_faults_in)
    qed (use prems True in \<open>simp_all add: type_ok_kind\<close>)
  qed
qed

lemma accepted_has_no_fault: "validate_value sc v path = None \<Longrightarrow> e \<notin> faults sc v path"
proof (induction sc v path rule: validate_value.induct)
  case (1 ty props req only_known items v path)
  note prems = "1.prems"
  have True: "kind_of v \<in> admitted_kinds ty" using prems by (auto simp: type_ok_kind split: if_splits)
  show ?case
  proof
    assume "e \<in> faults (Schema ty props req only_known items) v path"
    then show False
    proof (cases rule: faults_cases)
      case 1
      have "set req \<subseteq> fst ` set kvs \<and> (only_known \<longrightarrow> fst ` set kvs \<subseteq> fst ` set props)" if "v = JObj kvs" for kvs
        using prems True that unfolding that validate_object
        by (simp add: missing_scan_None unknown_scan_None split: if_split_asm)
      from no_local_fault [OF True this, of e items path] 1 show False by blast
    next
      case (2 kvs k sub x)
      then have "validate_value sub x (sub_path path k) = None"
        using prems True by (auto simp: validate_object property_scan_None simp del: validate_value.simps)
      with 2 show False
        using "1.IH"(2) [OF _ 2(1) 2(2) refl refl 2(3)] True by (simp add: type_ok_kind)
    next
      case (3 xs i sub)
      then have "validate_value sub (xs ! i) (item_path path i) = None"
        using prems True by (auto simp: validate_array item_scan_None simp del: validate_value.simps)
      moreover have "(i, xs ! i) \<in> set (enumerate 0 xs)" using 3 by (simp add: in_set_enumerate_eq)
      ultimately show False
        using "1.IH"(1) [OF _ 3(1) 3(2), of "(i, xs ! i)" i "xs ! i"] True 3 by (simp add: type_ok_kind)
    qed
  qed
qed

text \<open>C18: The validator against what schemas mean. It accepts an argument exactly when no position
  that a subschema reaches has a fault there: a value of a kind its type names do not stand for (a
  boolean is no integer), a required property that is missing, a property the schema does not know
  where it admits no others. What it reports otherwise is such a fault, with the path of its position.\<close>

theorem validation_correct:
  "case validate_value sc v path of None \<Rightarrow> faults sc v path = {} | Some e \<Rightarrow> e \<in> faults sc v path"
  using reported_is_fault accepted_has_no_fault by (auto split: option.split)

section \<open>Policies\<close>

datatype tool_risk = Read_Only | Mutates_State | Executes_Code

record tool_spec =
  tl_name :: str
  tl_schema :: "schema option"
  tl_risk :: tool_risk

text \<open>\<open>^[a-z][a-z0-9_]*$\<close>, where the dollar also matches before a final newline.\<close>

definition tool_name_ok :: "str \<Rightarrow> bool" where
  "tool_name_ok v = (let w = (if v \<noteq> [] \<and> last v = newline then butlast v else v);
       low = (\<lambda>c. CHR ''a'' \<le> c \<and> c \<le> CHR ''z'') in
     w \<noteq> [] \<and> low (hd w) \<and> list_all (\<lambda>c. low c \<or> CHR ''0'' \<le> c \<and> c \<le> CHR ''9'' \<or> c = CHR ''_'') (tl w))"

definition validate_args :: "tool_spec \<Rightarrow> (str \<times> json) list \<Rightarrow> violation option" where
  "validate_args spec args = (case tl_schema spec of None \<Rightarrow> None | Some sc \<Rightarrow> validate_value sc (JObj args) ''args'')"

record beta_principal =
  bp_user :: int
  bp_private :: bool

definition beta_principal_ok :: "beta_principal \<Rightarrow> bool" where
  "beta_principal_ok p = (0 < bp_user p)"

record owner_grant =
  og_lease :: request_lease
  og_tools :: "str list"
  og_tool_calls :: int
  og_model_calls :: int

text \<open>\<open>OwnerExecutionGrant.__post_init__\<close>, at a reading of the clock.\<close>

definition grant_ok :: "rat \<Rightarrow> owner_grant \<Rightarrow> owner_world \<Rightarrow> bool" where
  "grant_ok now g w = (owns_lease now (og_lease g) w \<and> set (og_tools g) \<subseteq> owner_tools
     \<and> 1 \<le> og_tool_calls g \<and> og_tool_calls g \<le> 4 \<and> 1 \<le> og_model_calls g \<and> og_model_calls g \<le> 8)"

text \<open>The context of a call: whether it carries a handle on memory, sandboxes or the lattice, and
  which identity it acts for.\<close>

record tool_context =
  cx_task :: str
  cx_handles :: bool
  cx_beta :: "beta_principal option"
  cx_grant :: "owner_grant option"

type_synonym policy_verdict = "bool \<times> str"

record beta_policy =
  by_allowed :: "str list"
  by_query_chars :: nat
  by_results :: int

definition default_beta_policy :: beta_policy where
  "default_beta_policy = \<lparr>by_allowed = [''web_search''], by_query_chars = 200, by_results = 5\<rparr>"

definition results_within :: "int \<Rightarrow> (str \<times> json) list \<Rightarrow> bool" where
  "results_within n args = (case map_of args ''max_results'' of
     None \<Rightarrow> 5 \<le> n | Some (JInt i) \<Rightarrow> 1 \<le> i \<and> i \<le> n | Some _ \<Rightarrow> False)"

definition beta_tool_policy :: "beta_policy \<Rightarrow> tool_spec \<Rightarrow> (str \<times> json) list \<Rightarrow> tool_context \<Rightarrow> policy_verdict" where
  "beta_tool_policy bp spec args cx =
     (case cx_beta cx of
        None \<Rightarrow> (False, ''beta: missing trusted identity'')
      | Some p \<Rightarrow>
          if bp_user p \<le> 0 then (False, ''beta: missing trusted identity'')
          else if \<not> bp_private p then (False, ''beta: group/channel scope denied'')
          else if tl_name spec \<in> {''memory_query'', ''memory_write''}
          then (False, ''beta: memory tools disabled in beta: '' @ tl_name spec)
          else if tl_name spec = ''web_fetch'' then (False, ''beta: web_fetch disabled until B-05 closed'')
          else if tl_risk spec \<noteq> Read_Only then (False, ''beta: risk denied in beta: '' @ tl_name spec)
          else if tl_name spec \<notin> set (by_allowed bp) then (False, ''beta: tool not allowlisted in beta'')
          else if tl_name spec = ''web_search''
          then (case map_of args ''query'' of
              Some (JStr q) \<Rightarrow>
                if py_strip q = [] then (False, ''beta: web_search query required'')
                else if length (py_strip q) > by_query_chars bp then (False, ''beta: web_search query too long'')
                else if \<not> results_within (by_results bp) args then (False, ''beta: web_search max_results out of bounds'')
                else (True, ''beta: allowed '' @ tl_name spec)
            | _ \<Rightarrow> (False, ''beta: web_search query required''))
          else (True, ''beta: allowed '' @ tl_name spec))"

definition owner_args_error :: "str \<Rightarrow> (str \<times> json) list \<Rightarrow> str option" where
  "owner_args_error name args =
     (if name = ''calculator''
      then if fst ` set args \<noteq> {''expression''} then Some ''owner: calculator args invalid''
        else (case map_of args ''expression'' of
            Some (JStr e) \<Rightarrow> if py_strip e = [] \<or> 120 < length e then Some ''owner: calculator expression invalid'' else None
          | _ \<Rightarrow> Some ''owner: calculator expression invalid'')
      else if name = ''utc_time'' then if args = [] then None else Some ''owner: utc_time takes no args''
      else if \<not> fst ` set args \<subseteq> {''query'', ''max_results''} \<or> map_of args ''query'' = None
      then Some ''owner: web_search args invalid''
      else (case map_of args ''query'' of
          Some (JStr q) \<Rightarrow>
            if py_strip q = [] \<or> 200 < length (py_strip q) then Some ''owner: web_search query invalid''
            else if results_within 5 args then None else Some ''owner: web_search max_results invalid''
        | _ \<Rightarrow> Some ''owner: web_search query invalid''))"

definition owner_tool_policy :: "rat \<times> rat \<Rightarrow> tool_spec \<Rightarrow> (str \<times> json) list \<Rightarrow> tool_context \<Rightarrow> owner_world \<Rightarrow> policy_verdict" where
  "owner_tool_policy nows spec args cx w =
     (case cx_grant cx of
        None \<Rightarrow> (False, ''owner: missing live execution grant'')
      | Some g \<Rightarrow>
          if cx_beta cx \<noteq> None then (False, ''owner: mixed beta identity denied'')
          else if cx_handles cx then (False, ''owner: privileged handles denied'')
          else if \<not> grant_ok (fst nows) g w then (False, ''owner: invalid execution grant'')
          else if \<not> owns_lease (snd nows) (og_lease g) w then (False, ''owner: grant is not live'')
          else if cx_task cx \<noteq> ls_task_id (og_lease g) then (False, ''owner: task binding mismatch'')
          else if tl_name spec \<notin> owner_tools \<or> tl_name spec \<notin> set (og_tools g) then (False, ''owner: tool denied'')
          else if tl_risk spec \<noteq> Read_Only then (False, ''owner: risk denied'')
          else (case owner_args_error (tl_name spec) args of
              Some why \<Rightarrow> (False, why)
            | None \<Rightarrow> (True, ''owner: allowed '' @ tl_name spec)))"

end
