(* ===== verification/Tool_Registry.thy ===== *)
theory Tool_Registry
  imports Tool_Policy Kernel_Audit
begin

text \<open>
  The tool registry, \<open>src/agency/tools/registry.py\<close>: its table of tools and \<open>call\<close>, in the three
  modes legacy, beta and owner.

  In the strict modes a call passes validation and policy, commits an intent to the beta audit log
  of \<open>Kernel_Audit\<close>, runs the tool and commits an outcome; in the owner mode it moreover reserves a
  tool call from the budget adapter of \<open>Admission_Lease\<close> and checks the live grant again after every
  wait. \<open>call_env\<close> holds what a call meets: the tool's behaviour, connections, entry ids, the appends
  of other writers while it waits, and the waits at which its task is cancelled, with whether the
  append that was cancelled had been committed. \<open>tw_ran\<close> lists the calls whose tool was started.
  A result bears the name of the tool called. The best-effort audit of the legacy mode, logging and
  durations are left out.
\<close>

section \<open>State\<close>

datatype registry_mode = Legacy | Beta beta_policy | Owner

datatype audit_ref = No_Audit | Beta_Log | Other_Log

record tool_world =
  tw_mode :: registry_mode
  tw_tools :: "(str \<times> tool_spec) list"
  tw_timeouts :: "(str \<times> rat) list"
  tw_audit_ref :: audit_ref
  tw_suspended :: bool
  tw_log :: audit_log
  tw_owner :: owner_world
  tw_ran :: "str list"

datatype tool_error = Duplicate_Tool str | Unknown_Tool str | Bad_Timeout

definition strict_mode :: "tool_world \<Rightarrow> bool" where
  "strict_mode w = (tw_mode w \<noteq> Legacy)"

definition register_tool :: "tool_spec \<Rightarrow> tool_world \<Rightarrow> (tool_world, tool_error, unit) outcome" where
  "register_tool spec w =
     (if map_of (tw_tools w) (tl_name spec) \<noteq> None then (Inl (Duplicate_Tool (tl_name spec)), w)
      else (Inr (), w\<lparr>tw_tools := AList.update (tl_name spec) spec (tw_tools w)\<rparr>))"

definition get_tool :: "str \<Rightarrow> tool_world \<Rightarrow> (tool_error, tool_spec) res" where
  "get_tool name w = (case map_of (tw_tools w) name of None \<Rightarrow> Inl (Unknown_Tool name) | Some t \<Rightarrow> Inr t)"

definition list_specs :: "tool_world \<Rightarrow> tool_spec list" where
  "list_specs w = map snd (sort_key fst (tw_tools w))"

definition set_timeout :: "str \<Rightarrow> rat \<Rightarrow> tool_world \<Rightarrow> (tool_world, tool_error, unit) outcome" where
  "set_timeout name seconds w =
     (if map_of (tw_tools w) name = None then (Inl (Unknown_Tool name), w)
      else if seconds \<le> 0 then (Inl Bad_Timeout, w)
      else (Inr (), w\<lparr>tw_timeouts := AList.update name seconds (tw_timeouts w)\<rparr>))"

section \<open>Calls\<close>

text \<open>How the body of a tool ends; an early end comes before the tool is started.\<close>

datatype tool_run = Ran bool | Ran_Timeout | Ran_Error | Ran_Pilot pilot_error | Ran_Cancelled | Early_Timeout | Early_Cancelled

datatype result_status = Indeterminate | Failed

datatype result_error = Unknown_Name | Invalid_Args "violation option" | Policy_Denied str | Audit_Unavailable | Tool_Failed

record tool_result =
  re_tool :: str
  re_ok :: bool
  re_error :: "result_error option"
  re_status :: "result_status option"

datatype call_error = Pilot_Raised pilot_error | Call_Cancelled | Backend_Error budget_error

record call_env =
  ce_render :: "json \<Rightarrow> str"
  ce_call_id :: str
  ce_denial_id :: str
  ce_entry :: "nat \<Rightarrow> str \<times> stamp"
  ce_own :: "nat \<Rightarrow> beta_connection"
  ce_fresh :: beta_connection
  ce_cancel :: "nat \<Rightarrow> bool"
  ce_committed :: "nat \<Rightarrow> bool"
  ce_others :: "nat \<Rightarrow> audit_op list"
  ce_run :: tool_run
  ce_nows :: "nat \<Rightarrow> rat \<times> rat"
  ce_codec :: codec
  ce_lease :: surroundings
  ce_ctx_log :: bool

type_synonym 'a call = "tool_world \<Rightarrow> (call_error, 'a) res \<times> tool_world"

definition pure_call :: "'a \<Rightarrow> 'a call" where
  "pure_call x w = (Inr x, w)"

definition raise_pilot :: "str \<Rightarrow> bool \<Rightarrow> 'a call" where
  "raise_pilot code uncertain w = (Inl (Pilot_Raised (PilotError code 503 uncertain)), w)"

definition seq_call :: "'a call \<Rightarrow> ('a \<Rightarrow> 'b call) \<Rightarrow> 'b call" where
  "seq_call m f w = (case m w of (Inl e, w') \<Rightarrow> (Inl e, w') | (Inr x, w') \<Rightarrow> f x w')"

definition suspend :: "unit call" where
  "suspend w = (Inr (), w\<lparr>tw_suspended := True\<rparr>)"

definition plain_result :: "str \<Rightarrow> bool \<Rightarrow> result_error option \<Rightarrow> result_status option \<Rightarrow> tool_result" where
  "plain_result name ok err st = \<lparr>re_tool = name, re_ok = ok, re_error = err, re_status = st\<rparr>"

subsection \<open>The audit log\<close>

definition call_evidence :: "str \<Rightarrow> str \<Rightarrow> str \<Rightarrow> (str \<times> json) list \<Rightarrow> (str \<times> json) list" where
  "call_evidence call name phase extra = [(''call_id'', JStr call), (''tool'', JStr name), (''phase'', JStr phase)] @ extra"

definition call_entry :: "bool \<Rightarrow> str \<times> stamp \<Rightarrow> str \<Rightarrow> str \<Rightarrow> str \<Rightarrow> (str \<times> json) list \<Rightarrow> audit_entry" where
  "call_entry owner ids name action result ev =
     \<lparr>ae_entry_id = fst ids, ae_timestamp = snd ids, ae_agent = (if owner then Some ''owner-tools'' else None),
      ae_task = (if owner then Some ''owner-pilot'' else None), ae_target = Some name, ae_authorization = None,
      ae_capability = None, ae_action = Some (ActionText action), ae_result = result, ae_evidence = Some ev,
      ae_model = None, ae_model_version = None, ae_tool_version = None, ae_environment = None\<rparr>"

definition others_write :: "call_env \<Rightarrow> nat \<Rightarrow> tool_world \<Rightarrow> tool_world" where
  "others_write ce k w = w\<lparr>tw_log := run_ops (audit_step (ce_render ce)) (ce_others ce k) (tw_log w)\<rparr>"

text \<open>A cancelled append latches the registry; in the owner mode it raises an uncertain audit error.\<close>

definition cancelled_append :: "call_env \<Rightarrow> nat \<Rightarrow> audit_log \<Rightarrow> 'a call" where
  "cancelled_append ce k written w =
     (let w' = w\<lparr>tw_suspended := True, tw_log := (if ce_committed ce k then written else tw_log w)\<rparr> in
      if tw_mode w = Owner then raise_pilot ''audit'' True w' else (Inl Call_Cancelled, w'))"

definition beta_claim :: "call_env \<Rightarrow> str \<Rightarrow> bool option call" where
  "beta_claim ce name w0 =
     (let w = others_write ce 0 w0;
          e = call_entry (tw_mode w = Owner) (ce_entry ce 0) name ''tool.call'' ''pending''
            (call_evidence (ce_call_id ce) name ''intent'' []) in
      case claim_intent (ce_render ce) (ce_own ce 0) (ce_fresh ce) e (tw_log w) of
        (r, log') \<Rightarrow>
          if ce_cancel ce 0 then cancelled_append ce 0 log' w
          else (Inr (case r of Inl _ \<Rightarrow> None | Inr b \<Rightarrow> Some b), w\<lparr>tw_log := log'\<rparr>))"

definition beta_persist :: "call_env \<Rightarrow> nat \<Rightarrow> str \<Rightarrow> str \<Rightarrow> str \<Rightarrow> str \<Rightarrow> str \<Rightarrow> (str \<times> json) list \<Rightarrow> bool call" where
  "beta_persist ce k name action result phase call extra w0 =
     (if tw_audit_ref w0 \<noteq> Beta_Log then (Inr False, w0)
      else let w = others_write ce k w0;
          e = call_entry (tw_mode w = Owner) (ce_entry ce k) name action result (call_evidence call name phase extra) in
      case append_beta (ce_own ce k) e (tw_log w) of
        (r, log') \<Rightarrow>
          if ce_cancel ce k then cancelled_append ce k log' w
          else (Inr (r = Inr (fst (ce_entry ce k))), w\<lparr>tw_log := log'\<rparr>))"

text \<open>A result without a start of the tool: the strict modes note the denial, if they can.\<close>

definition denied :: "call_env \<Rightarrow> str \<Rightarrow> result_error \<Rightarrow> tool_result call" where
  "denied ce name err w =
     (if strict_mode w
      then seq_call (beta_persist ce 1 name ''tool.error'' ''denied'' ''denial'' (ce_denial_id ce) [])
        (\<lambda>_. pure_call (plain_result name False (Some err) None)) w
      else (Inr (plain_result name False (Some err) None), w))"

subsection \<open>The owner's grant\<close>

definition validate_owner :: "call_env \<Rightarrow> tool_world \<Rightarrow> tool_context \<Rightarrow> owner_grant \<Rightarrow> unit act" where
  "validate_owner ce w cx g ow =
     (let ow' = ow\<lparr>ow_moment := ow_moment ow + 1\<rparr> in
      if tw_mode w = Owner \<and> tw_audit_ref w = Beta_Log \<and> ce_ctx_log ce \<and> cx_beta cx = None \<and> \<not> cx_handles cx
        \<and> grant_ok (sr_now (ce_lease ce) (ow_moment ow)) g ow \<and> cx_task cx = ls_task_id (og_lease g)
      then done_with () ow' else refuse (pilot ''forbidden'') ow')"

definition check_owner :: "call_env \<Rightarrow> tool_context \<Rightarrow> bool \<Rightarrow> unit call" where
  "check_owner ce cx uncertain w =
     (case cx_grant cx of
        None \<Rightarrow> (Inr (), w)
      | Some g \<Rightarrow>
          (case next_act (validate_owner ce w cx g) (\<lambda>_. next_act (active_lease (ce_codec ce) (ce_lease ce) (og_lease g))
              (\<lambda>yes. next_act (validate_owner ce w cx g) (\<lambda>_. if yes then done_with () else refuse (pilot ''forbidden''))))
              (tw_owner w) of
             (Inl _, ow) \<Rightarrow> raise_pilot (if uncertain then ''uncertainty'' else ''forbidden'') uncertain (w\<lparr>tw_owner := ow\<rparr>)
           | (Inr _, ow) \<Rightarrow> (Inr (), w\<lparr>tw_owner := ow\<rparr>)))"

definition when_owner :: "unit call \<Rightarrow> unit call" where
  "when_owner m w = (if tw_mode w = Owner then m w else (Inr (), w))"

definition reserve_tool :: "call_env \<Rightarrow> str \<Rightarrow> tool_context \<Rightarrow> bool call" where
  "reserve_tool ce name cx w =
     (case cx_grant cx of
        None \<Rightarrow> (Inr False, w)
      | Some g \<Rightarrow>
          (case lease_tool_call (ce_codec ce) (ce_lease ce) (og_lease g) name (og_tool_calls g) (tw_owner w) of
             (Inl (Refused p), ow) \<Rightarrow> (Inl (Pilot_Raised p), w\<lparr>tw_owner := ow\<rparr>)
           | (Inl Task_Cancelled, ow) \<Rightarrow> (Inl Call_Cancelled, w\<lparr>tw_owner := ow\<rparr>)
           | (Inl (Backend_Raised x), ow) \<Rightarrow> (Inl (Backend_Error x), w\<lparr>tw_owner := ow\<rparr>)
           | (Inr yes, ow) \<Rightarrow> (Inr yes, w\<lparr>tw_owner := ow\<rparr>)))"

definition policy_verdict :: "call_env \<Rightarrow> nat \<Rightarrow> tool_spec \<Rightarrow> (str \<times> json) list \<Rightarrow> tool_context \<Rightarrow> tool_world \<Rightarrow> policy_verdict" where
  "policy_verdict ce k spec args cx w =
     (case tw_mode w of
        Legacy \<Rightarrow> (True, [])
      | Beta bp \<Rightarrow> beta_tool_policy bp spec args cx
      | Owner \<Rightarrow> owner_tool_policy (ce_nows ce k) spec args cx (tw_owner w))"

subsection \<open>The call\<close>

definition start_tool :: "call_env \<Rightarrow> tool_spec \<Rightarrow> (str \<times> json) list \<Rightarrow> tool_context \<Rightarrow> tool_run call" where
  "start_tool ce spec args cx =
     (if ce_run ce \<in> {Early_Timeout, Early_Cancelled} then pure_call (ce_run ce)
      else seq_call (when_owner (check_owner ce cx False))
        (\<lambda>_ w. if tw_mode w = Owner \<and> \<not> fst (policy_verdict ce 1 spec args cx w) then raise_pilot ''forbidden'' False w
          else (Inr (ce_run ce), others_write ce 2 (w\<lparr>tw_ran := tw_ran w @ [ce_call_id ce]\<rparr>))))"

text \<open>The handlers around the body: what becomes of its end.\<close>

definition settle_run :: "str \<Rightarrow> tool_run \<Rightarrow> tool_result call" where
  "settle_run name r w =
     (let bad = plain_result name False (Some Tool_Failed) None in
      case r of
        Ran ok \<Rightarrow> (Inr (plain_result name ok (if ok then None else Some Tool_Failed) None), w)
      | Ran_Pilot p \<Rightarrow> if tw_mode w = Owner then (Inl (Pilot_Raised p), w) else (Inr bad, w)
      | Ran_Error \<Rightarrow> if tw_mode w = Owner then seq_call suspend (\<lambda>_. raise_pilot ''uncertainty'' True) w else (Inr bad, w)
      | _ \<Rightarrow>
          if tw_mode w = Owner then seq_call suspend (\<lambda>_. raise_pilot ''uncertainty'' True) w
          else if r \<in> {Ran_Timeout, Early_Timeout} then (Inr bad, w)
          else if strict_mode w then (Inl Call_Cancelled, w\<lparr>tw_suspended := True\<rparr>)
          else (Inl Call_Cancelled, w))"

definition record_outcome :: "call_env \<Rightarrow> str \<Rightarrow> tool_context \<Rightarrow> tool_result \<Rightarrow> tool_result call" where
  "record_outcome ce name cx res =
     seq_call (beta_persist ce 3 name (if re_ok res then ''tool.call'' else ''tool.error'') (if re_ok res then ''ok'' else ''error'')
         ''outcome'' (ce_call_id ce) [(''ok'', JBool (re_ok res))])
       (\<lambda>persisted. seq_call (when_owner (check_owner ce cx True))
         (\<lambda>_. if persisted then pure_call res
           else seq_call suspend (\<lambda>_ w. if tw_mode w = Owner then raise_pilot ''audit'' True w
             else (Inr (plain_result name False (Some Audit_Unavailable) (Some Indeterminate)), w))))"

definition run_tool :: "call_env \<Rightarrow> tool_spec \<Rightarrow> (str \<times> json) list \<Rightarrow> tool_context \<Rightarrow> tool_result call" where
  "run_tool ce spec args cx =
     seq_call (start_tool ce spec args cx)
       (\<lambda>r. seq_call (settle_run (tl_name spec) r)
         (\<lambda>res. seq_call (when_owner (check_owner ce cx True))
           (\<lambda>_ w. if strict_mode w then record_outcome ce (tl_name spec) cx res w else (Inr res, w))))"

text \<open>The strict modes between policy and start: the reservation of the owner and the intent.\<close>

definition after_claim :: "call_env \<Rightarrow> tool_spec \<Rightarrow> (str \<times> json) list \<Rightarrow> tool_context \<Rightarrow> bool option \<Rightarrow> tool_result call" where
  "after_claim ce spec args cx granted w =
     (if tw_mode w = Owner \<and> granted \<noteq> Some True then seq_call suspend (\<lambda>_. raise_pilot ''audit'' True) w
      else (case granted of
          Some True \<Rightarrow> run_tool ce spec args cx w
        | Some False \<Rightarrow> (Inr (plain_result (tl_name spec) False (Some Audit_Unavailable) (Some Indeterminate)), w)
        | None \<Rightarrow> seq_call suspend (\<lambda>_. pure_call (plain_result (tl_name spec) False (Some Audit_Unavailable) (Some Failed))) w))"

definition owner_quota :: "call_env \<Rightarrow> str \<Rightarrow> tool_context \<Rightarrow> unit call" where
  "owner_quota ce name cx = when_owner (seq_call (reserve_tool ce name cx)
     (\<lambda>reserved. seq_call (check_owner ce cx False) (\<lambda>_. if reserved then pure_call () else raise_pilot ''quota'' False)))"

definition strict_call :: "call_env \<Rightarrow> tool_spec \<Rightarrow> (str \<times> json) list \<Rightarrow> tool_context \<Rightarrow> tool_result call" where
  "strict_call ce spec args cx w =
     (if tw_suspended w
      then if tw_mode w = Owner then raise_pilot ''audit'' True w
        else (Inr (plain_result (tl_name spec) False (Some Audit_Unavailable) (Some Indeterminate)), w)
      else (case policy_verdict ce 0 spec args cx w of (allowed, reason) \<Rightarrow>
        if \<not> allowed then denied ce (tl_name spec) (Policy_Denied (if tw_mode w = Owner then ''not allowed'' else reason)) w
        else if tw_audit_ref w \<noteq> Beta_Log
        then (Inr (plain_result (tl_name spec) False (Some Audit_Unavailable) (Some Indeterminate)), w\<lparr>tw_suspended := True\<rparr>)
        else seq_call (owner_quota ce (tl_name spec) cx)
          (\<lambda>_. seq_call (beta_claim ce (tl_name spec))
            (\<lambda>claim. seq_call (when_owner (check_owner ce cx False)) (\<lambda>_. after_claim ce spec args cx claim))) w))"

definition checked_call :: "call_env \<Rightarrow> str \<Rightarrow> (str \<times> json) list \<Rightarrow> tool_context \<Rightarrow> tool_result call" where
  "checked_call ce name args cx w =
     (case map_of (tw_tools w) name of
        None \<Rightarrow> denied ce (if strict_mode w then ''unknown'' else name) Unknown_Name w
      | Some spec \<Rightarrow>
          (case validate_args spec args of
             Some v \<Rightarrow> denied ce name (Invalid_Args (if strict_mode w then None else Some v)) w
           | None \<Rightarrow> if strict_mode w then strict_call ce spec args cx w else run_tool ce spec args cx w))"

definition call_tool :: "call_env \<Rightarrow> str \<Rightarrow> (str \<times> json) list \<Rightarrow> tool_context \<Rightarrow> tool_result call" where
  "call_tool ce name args cx w =
     (if (tw_mode w = Owner) \<noteq> (cx_grant cx \<noteq> None) then raise_pilot ''forbidden'' False w
      else seq_call (when_owner (check_owner ce cx False)) (\<lambda>_. checked_call ce name args cx) w)"

section \<open>Laws of a call\<close>

lemma seq_call_Inr: "seq_call m f w = (Inr y, w') \<longleftrightarrow> (\<exists>x w1. m w = (Inr x, w1) \<and> f x w1 = (Inr y, w'))"
  by (auto simp: seq_call_def split: prod.splits sum.splits)

text \<open>The moves of a call that start no tool: rows are only added to the log.\<close>

definition logs :: "tool_world \<Rightarrow> audit_row list" where
  "logs w = al_rows (tw_log w)"

definition idle :: "tool_world \<Rightarrow> tool_world \<Rightarrow> bool" where
  "idle w w' = (prefix (logs w) (logs w') \<and> tw_ran w' = tw_ran w \<and> tw_mode w' = tw_mode w \<and> tw_tools w' = tw_tools w
     \<and> tw_audit_ref w' = tw_audit_ref w)"

definition quiet_call :: "'a call \<Rightarrow> bool" where
  "quiet_call m = (\<forall>w. idle w (snd (m w)))"

lemma idle_refl [simp]: "idle w w"
  by (simp add: idle_def)

lemma idle_trans: "idle w t \<Longrightarrow> idle t u \<Longrightarrow> idle w u"
  by (auto simp: idle_def intro: prefix_order.trans)

lemma idle_fields [simp]:
  "idle w (w\<lparr>tw_suspended := b\<rparr>)" "idle w (w\<lparr>tw_owner := ow\<rparr>)"
  by (simp_all add: idle_def logs_def)

lemma quiet_seq: "quiet_call m \<Longrightarrow> (\<And>x. quiet_call (f x)) \<Longrightarrow> quiet_call (seq_call m f)"
  using idle_trans by (simp add: quiet_call_def seq_call_def split: prod.splits sum.splits) (metis snd_conv)

lemma quiet_basic: "quiet_call (pure_call x)" "quiet_call (raise_pilot code unc)" "quiet_call suspend"
  by (simp_all add: quiet_call_def pure_call_def raise_pilot_def suspend_def)

lemma quiet_if: "quiet_call A \<Longrightarrow> quiet_call B \<Longrightarrow> quiet_call (if c then A else B)"
  by simp

lemma quiet_branch: "quiet_call A \<Longrightarrow> quiet_call B \<Longrightarrow> quiet_call (\<lambda>w. if P w then A w else B w)"
  by (simp add: quiet_call_def)

lemma quiet_answer: "quiet_call (\<lambda>w. (Inr (f w), w))" "quiet_call (\<lambda>w. (Inl (g w), w))" "quiet_call (\<lambda>w. (Inl (g w), w\<lparr>tw_suspended := b\<rparr>))"
    "quiet_call (\<lambda>w. (Inr (f w), w\<lparr>tw_suspended := b\<rparr>))"
  by (simp_all add: quiet_call_def)

lemma log_grows: "prefix (al_rows s) (al_rows (run_ops (audit_step render) xs s))"
proof (induction xs arbitrary: s)
  case (Cons x xs)
  have "prefix (al_rows s) (al_rows (audit_step render x s))"
    using audit_step_adds [of s render x] by (auto simp: adds_def)
  then show ?case using Cons.IH [of "audit_step render x s"] by (auto intro: prefix_order.trans)
qed simp

lemma idle_others: "idle w (others_write ce k w)"
  by (simp add: idle_def logs_def others_write_def log_grows)

lemma idle_log: "prefix (al_rows (tw_log w)) (al_rows l) \<Longrightarrow> idle w (w\<lparr>tw_log := l\<rparr>)"
  by (simp add: idle_def logs_def)

lemma idle_cancelled: "prefix (al_rows (tw_log w)) (al_rows l) \<Longrightarrow> idle w (snd (cancelled_append ce k l w))"
  by (simp add: cancelled_append_def raise_pilot_def Let_def idle_def logs_def)

lemma quiet_claim: "quiet_call (beta_claim ce name)"
  unfolding quiet_call_def
proof
  fix w0
  let ?w = "others_write ce 0 w0"
  let ?e = "call_entry (tw_mode ?w = Owner) (ce_entry ce 0) name ''tool.call'' ''pending'' (call_evidence (ce_call_id ce) name ''intent'' [])"
  obtain r l where c: "claim_intent (ce_render ce) (ce_own ce 0) (ce_fresh ce) ?e (tw_log ?w) = (r, l)" by fastforce
  then have l: "prefix (al_rows (tw_log ?w)) (al_rows l)"
    using claim_intent_adds(1) [of ?e "tw_log ?w" "ce_render ce" "ce_own ce 0" "ce_fresh ce"] by (auto simp: adds_def)
  have "idle ?w (snd (beta_claim ce name w0))"
    using c by (simp add: beta_claim_def Let_def idle_cancelled [OF l] idle_log [OF l])
  then show "idle w0 (snd (beta_claim ce name w0))" by (rule idle_trans [OF idle_others])
qed

lemma quiet_persist: "quiet_call (beta_persist ce k name action result phase call extra)"
  unfolding quiet_call_def
proof
  fix w0
  let ?w = "others_write ce k w0"
  let ?e = "call_entry (tw_mode ?w = Owner) (ce_entry ce k) name action result (call_evidence call name phase extra)"
  obtain r l where c: "append_beta (ce_own ce k) ?e (tw_log ?w) = (r, l)" by fastforce
  then have l: "prefix (al_rows (tw_log ?w)) (al_rows l)"
    using append_beta_adds [of ?e "tw_log ?w" "ce_own ce k"] by (auto simp: adds_def)
  have "idle ?w (snd (beta_persist ce k name action result phase call extra w0))" if "tw_audit_ref w0 = Beta_Log"
    using that c by (simp add: beta_persist_def Let_def idle_cancelled [OF l] idle_log [OF l])
  then show "idle w0 (snd (beta_persist ce k name action result phase call extra w0))"
    using idle_trans [OF idle_others] by (cases "tw_audit_ref w0 = Beta_Log") (auto simp: beta_persist_def)
qed

lemma quiet_check: "quiet_call (check_owner ce cx unc)"
proof -
  have "idle w (w\<lparr>tw_owner := ow\<rparr>)" for w ow by simp
  then show ?thesis by (simp add: quiet_call_def check_owner_def raise_pilot_def split: option.splits prod.splits sum.splits)
qed

lemma quiet_when_owner: "quiet_call m \<Longrightarrow> quiet_call (when_owner m)"
  by (simp add: quiet_call_def when_owner_def)

lemma quiet_reserve: "quiet_call (reserve_tool ce name cx)"
  by (auto simp: quiet_call_def reserve_tool_def split: option.splits prod.splits sum.splits lease_error.splits)

lemmas quiet_rules = quiet_seq quiet_basic quiet_if quiet_branch quiet_answer quiet_claim quiet_persist quiet_check
  quiet_when_owner quiet_reserve

lemma quiet_denied: "quiet_call (denied ce name err)"
  unfolding denied_def by (intro quiet_rules)

lemma quiet_settle: "quiet_call (settle_run name r)"
  unfolding settle_run_def Let_def by (cases r) (auto intro!: quiet_rules)

lemma quiet_outcome: "quiet_call (record_outcome ce name cx res)"
  unfolding record_outcome_def by (intro quiet_rules)

lemma quiet_quota: "quiet_call (owner_quota ce name cx)"
  unfolding owner_quota_def by (intro quiet_rules)

section \<open>Intents and outcomes\<close>

definition intent_of :: "(json \<Rightarrow> str) \<Rightarrow> str \<Rightarrow> audit_row list \<Rightarrow> bool" where
  "intent_of render c rows = list_ex (\<lambda>i. intent_row render i \<and> json_extract render (ar_evidence i) ''call_id'' = SText c) rows"

definition outcome_of :: "(json \<Rightarrow> str) \<Rightarrow> str \<Rightarrow> audit_row list \<Rightarrow> bool" where
  "outcome_of render c rows = list_ex (\<lambda>r. json_extract render (ar_evidence r) ''phase'' = SText ''outcome''
     \<and> json_extract render (ar_evidence r) ''call_id'' = SText c) rows"

lemma rows_of_grow:
  "prefix rows rows' \<Longrightarrow> intent_of render c rows \<Longrightarrow> intent_of render c rows'"
  "prefix rows rows' \<Longrightarrow> outcome_of render c rows \<Longrightarrow> outcome_of render c rows'"
  by (auto simp: intent_of_def outcome_of_def prefix_def)

lemma no_pending: "pending_rows render rows = [] \<Longrightarrow> intent_of render c rows \<Longrightarrow> outcome_of render c rows"
  by (fastforce simp: pending_rows_def intent_of_def outcome_of_def list_ex_iff filter_empty_conv outcome_for_def sql_eq_def)

lemma call_evidence_extract:
  assumes "extra = [] \<or> (\<exists>b. extra = [(''ok'', JBool b)])"
  shows "json_extract render (ar_evidence (entry_row (call_entry owner ids name action result (call_evidence c name phase extra)))) ''phase'' = SText phase"
    "json_extract render (ar_evidence (entry_row (call_entry owner ids name action result (call_evidence c name phase extra)))) ''call_id'' = SText c"
proof -
  let ?ev = "call_evidence c name phase extra"
  have dict: "dict_ok ?ev" using assms by (auto simp: dict_ok_def call_evidence_def)
  obtain col where col: "json_column (Some ?ev) = Some col" by (simp add: json_column_def)
  have "map_of ?ev ''phase'' = Some (JStr phase)" "map_of ?ev ''call_id'' = Some (JStr c)" by (simp_all add: call_evidence_def)
  then have "map_of col ''phase'' = Some (JStr phase)" "map_of col ''call_id'' = Some (JStr c)"
    using json_column_lookup [OF dict, of "''phase''"] json_column_lookup [OF dict, of "''call_id''"] col by simp_all
  then show "json_extract render (ar_evidence (entry_row (call_entry owner ids name action result ?ev))) ''phase'' = SText phase"
    "json_extract render (ar_evidence (entry_row (call_entry owner ids name action result ?ev))) ''call_id'' = SText c"
    using col by (simp_all add: entry_row_def call_entry_def json_extract_def)
qed

text \<open>A granted claim finds every earlier intent settled and leaves its own.\<close>

lemma beta_claim_granted:
  assumes "beta_claim ce name w = (Inr (Some True), w')" "ce_render ce = render"
  shows "intent_of render (ce_call_id ce) (logs w') \<and> (\<forall>c. intent_of render c (logs w) \<longrightarrow> outcome_of render c (logs w'))"
proof -
  let ?w = "others_write ce 0 w"
  let ?e = "call_entry (tw_mode ?w = Owner) (ce_entry ce 0) name ''tool.call'' ''pending'' (call_evidence (ce_call_id ce) name ''intent'' [])"
  obtain l where C: "claim_intent render (ce_own ce 0) (ce_fresh ce) ?e (tw_log ?w) = (Inr True, l)" and w': "w' = ?w\<lparr>tw_log := l\<rparr>"
    using assms by (auto simp: beta_claim_def Let_def cancelled_append_def raise_pilot_def split: prod.splits sum.splits if_splits)
  then have free: "pending_rows render (logs ?w) = []" and l: "al_rows l = logs ?w @ [entry_row ?e]"
    by (auto simp: claim_intent_def insert_row_def logs_def split: if_splits sum.splits)
  have "intent_row render (entry_row ?e)"
    using call_evidence_extract [of "[]"] by (simp add: intent_row_def sql_eq_def) (simp add: entry_row_def call_entry_def)
  then have "intent_of render (ce_call_id ce) (logs w')"
    using call_evidence_extract(2) [of "[]"] w' l by (simp add: intent_of_def logs_def)
  moreover have "outcome_of render c (logs w')" if "intent_of render c (logs w)" for c
  proof -
    have "prefix (logs w) (logs ?w)" using idle_others [of w ce 0] by (simp add: idle_def)
    then have "outcome_of render c (logs ?w)" using no_pending [OF free] rows_of_grow(1) that by blast
    then show ?thesis using w' l by (simp add: outcome_of_def logs_def)
  qed
  ultimately show ?thesis by blast
qed

lemma beta_persist_stored:
  assumes "beta_persist ce k name action result ''outcome'' c [(''ok'', JBool b)] w = (Inr True, w')"
  shows "outcome_of render c (logs w')"
proof -
  let ?w = "others_write ce k w"
  let ?e = "call_entry (tw_mode ?w = Owner) (ce_entry ce k) name action result (call_evidence c name ''outcome'' [(''ok'', JBool b)])"
  obtain l where A: "append_beta (ce_own ce k) ?e (tw_log ?w) = (Inr (fst (ce_entry ce k)), l)" and w': "w' = ?w\<lparr>tw_log := l\<rparr>"
    using assms by (auto simp: beta_persist_def Let_def cancelled_append_def raise_pilot_def split: prod.splits if_splits)
  then have "al_rows l = logs ?w @ [entry_row ?e]"
    by (auto simp: append_beta_def append_entry_def insert_row_def logs_def split: if_splits sum.splits prod.splits)
  then show ?thesis using call_evidence_extract [of "[(''ok'', JBool b)]"] w' by (simp add: outcome_of_def logs_def)
qed

section \<open>Starts\<close>

text \<open>A call either starts no tool, or starts it once, after its claim was granted.\<close>

definition starts :: "str \<Rightarrow> tool_world \<Rightarrow> tool_world \<Rightarrow> bool" where
  "starts c w w' = (\<exists>w1. idle w w1 \<and> idle (w1\<lparr>tw_ran := tw_ran w1 @ [c]\<rparr>) w')"

lemma idle_then_starts: "idle w w1 \<Longrightarrow> starts c w1 w' \<Longrightarrow> starts c w w'"
  unfolding starts_def using idle_trans by blast

lemma starts_then_idle: "starts c w w1 \<Longrightarrow> idle w1 w' \<Longrightarrow> starts c w w'"
  unfolding starts_def using idle_trans by blast

lemma quietD: "quiet_call m \<Longrightarrow> m w = (r, w') \<Longrightarrow> idle w w'"
  by (metis quiet_call_def snd_conv)

lemma start_tool_starts: "idle w (snd (start_tool ce spec args cx w)) \<or> starts (ce_call_id ce) w (snd (start_tool ce spec args cx w))"
proof (cases "ce_run ce \<in> {Early_Timeout, Early_Cancelled}")
  case False
  obtain r w1 where c: "when_owner (check_owner ce cx False) w = (r, w1)" by fastforce
  have i: "idle w w1" by (rule quietD [OF quiet_when_owner [OF quiet_check] c])
  show ?thesis
  proof (cases r)
    case (Inl e)
    then show ?thesis using False c i by (simp add: start_tool_def seq_call_def)
  next
    case (Inr u)
    then show ?thesis using False c i idle_others [of "w1\<lparr>tw_ran := tw_ran w1 @ [ce_call_id ce]\<rparr>" ce 2]
      by (auto simp: start_tool_def seq_call_def raise_pilot_def starts_def)
  qed
qed (auto simp: start_tool_def pure_call_def)

lemma started_then_quiet:
  assumes "idle w (snd (m w)) \<or> starts c w (snd (m w))" "\<And>x. quiet_call (f x)"
  shows "idle w (snd (seq_call m f w)) \<or> starts c w (snd (seq_call m f w))"
proof (cases "m w")
  case (Pair r w1)
  have f: "idle w1 (snd (f x w1))" for x using assms(2) by (simp add: quiet_call_def)
  have "idle w w1 \<or> starts c w w1" using assms(1) Pair by simp
  then have "idle w (snd (f x w1)) \<or> starts c w (snd (f x w1))" for x
    using idle_trans [OF _ f] starts_then_idle [OF _ f] by blast
  then show ?thesis using assms(1) Pair by (cases r) (simp_all add: seq_call_def)
qed

lemma run_tool_starts: "idle w (snd (run_tool ce spec args cx w)) \<or> starts (ce_call_id ce) w (snd (run_tool ce spec args cx w))"
proof -
  have "quiet_call (\<lambda>w. if strict_mode w then record_outcome ce (tl_name spec) cx res w else (Inr res, w))" for res
    by (intro quiet_branch quiet_outcome quiet_answer)
  then show ?thesis unfolding run_tool_def
    by (intro started_then_quiet start_tool_starts quiet_seq quiet_settle quiet_when_owner quiet_check)
qed

definition accounted :: "(json \<Rightarrow> str) \<Rightarrow> tool_world \<Rightarrow> bool" where
  "accounted render w = (list_all (\<lambda>c. outcome_of render c (logs w)) (butlast (tw_ran w))
     \<and> list_all (\<lambda>c. intent_of render c (logs w)) (tw_ran w))"

lemma accounted_idle: "idle w w' \<Longrightarrow> accounted render w \<Longrightarrow> accounted render w'"
  using rows_of_grow by (fastforce simp: accounted_def idle_def list_all_iff)

lemma accounted_starts:
  assumes "starts c w w'" "\<forall>x \<in> set (tw_ran w). intent_of render x (logs w) \<and> outcome_of render x (logs w)"
    "intent_of render c (logs w)"
  shows "accounted render w'"
proof -
  obtain w1 where w1: "idle w w1" "idle (w1\<lparr>tw_ran := tw_ran w1 @ [c]\<rparr>) w'" using assms(1) by (auto simp: starts_def)
  have "accounted render (w1\<lparr>tw_ran := tw_ran w1 @ [c]\<rparr>)"
    using assms(2,3) w1(1) rows_of_grow by (fastforce simp: accounted_def idle_def list_all_iff logs_def)
  then show ?thesis by (rule accounted_idle [OF w1(2)])
qed

lemma accounted_seq:
  assumes "quiet_call m" "accounted render w"
    "\<And>x w1. m w = (Inr x, w1) \<Longrightarrow> accounted render w1 \<Longrightarrow> accounted render (snd (f x w1))"
  shows "accounted render (snd (seq_call m f w))"
proof (cases "m w")
  case (Pair r w1)
  have "accounted render w1" by (rule accounted_idle [OF quietD [OF assms(1) Pair] assms(2)])
  then show ?thesis using Pair assms(3) by (cases r) (auto simp: seq_call_def)
qed

lemma quiet_accounted: "quiet_call m \<Longrightarrow> accounted render w \<Longrightarrow> accounted render (snd (m w))"
  by (rule accounted_idle [of w]) (simp_all add: quiet_call_def)

lemma refused_claim_quiet: "granted \<noteq> Some True \<Longrightarrow> quiet_call (after_claim ce spec args cx granted)"
  unfolding after_claim_def by (cases granted) (auto intro!: quiet_rules)

lemma after_claim_accounted:
  assumes "beta_claim ce name w = (Inr granted, w1)" "accounted render w" "ce_render ce = render"
  shows "accounted render (snd (seq_call (when_owner (check_owner ce cx False)) (\<lambda>_. after_claim ce spec args cx granted) w1))"
proof (cases "granted = Some True")
  case False
  have "accounted render w1" by (rule accounted_idle [OF quietD [OF quiet_claim assms(1)] assms(2)])
  then show ?thesis
    by (intro quiet_accounted quiet_seq quiet_when_owner quiet_check refused_claim_quiet False)
next
  case True
  note claimed = beta_claim_granted [OF assms(1) [unfolded True] assms(3)]
  have i: "idle w w1" by (rule quietD [OF quiet_claim assms(1)])
  have all: "\<forall>x \<in> set (tw_ran w1). intent_of render x (logs w1) \<and> outcome_of render x (logs w1)"
    using assms(2) claimed i rows_of_grow(1) by (auto simp: accounted_def idle_def list_all_iff)
  have w1: "accounted render w1" by (rule accounted_idle [OF i assms(2)])
  obtain r w2 where c: "when_owner (check_owner ce cx False) w1 = (r, w2)" by fastforce
  have i2: "idle w1 w2" by (rule quietD [OF quiet_when_owner [OF quiet_check] c])
  show ?thesis
  proof (cases r)
    case (Inl e)
    then show ?thesis using c accounted_idle [OF i2 w1] by (simp add: seq_call_def)
  next
    case (Inr u)
    let ?w3 = "snd (run_tool ce spec args cx w2)"
    have "accounted render ?w3"
      using run_tool_starts [of w2 ce spec args cx]
    proof
      assume "idle w2 ?w3"
      then show ?thesis using accounted_idle [OF idle_trans [OF i2] w1] by blast
    next
      assume "starts (ce_call_id ce) w2 ?w3"
      then have "starts (ce_call_id ce) w1 ?w3" by (rule idle_then_starts [OF i2])
      then show ?thesis using accounted_starts all claimed by blast
    qed
    then show ?thesis using c Inr True by (simp add: seq_call_def after_claim_def)
  qed
qed

lemma strict_call_accounted:
  assumes "accounted render w" "ce_render ce = render"
  shows "accounted render (snd (strict_call ce spec args cx w))"
proof -
  have "accounted render (snd (seq_call (owner_quota ce (tl_name spec) cx)
          (\<lambda>_. seq_call (beta_claim ce (tl_name spec))
            (\<lambda>claim. seq_call (when_owner (check_owner ce cx False)) (\<lambda>_. after_claim ce spec args cx claim))) w))"
    by (intro accounted_seq quiet_quota quiet_claim assms(1) after_claim_accounted [OF _ _ assms(2)])
  moreover have "accounted render (snd (denied ce n err w))" for n err by (rule quiet_accounted [OF quiet_denied assms(1)])
  moreover have "accounted render (w\<lparr>tw_suspended := True\<rparr>)" by (rule accounted_idle [OF _ assms(1)]) simp
  ultimately show ?thesis using assms(1) by (simp add: strict_call_def raise_pilot_def split: prod.splits)
qed

lemma call_tool_accounted:
  assumes "accounted render w" "ce_render ce = render" "strict_mode w"
  shows "accounted render (snd (call_tool ce name args cx w))"
proof -
  have "accounted render (snd (checked_call ce name args cx w1))" if "idle w w1" "accounted render w1" for w1
  proof -
    have "strict_mode w1" using that(1) assms(3) by (simp add: idle_def strict_mode_def)
    moreover have "accounted render (snd (denied ce n err w1))" for n err by (rule quiet_accounted [OF quiet_denied that(2)])
    ultimately show ?thesis using strict_call_accounted [OF that(2) assms(2)] by (auto simp: checked_call_def split: option.splits)
  qed
  then have "accounted render (snd (seq_call (when_owner (check_owner ce cx False)) (\<lambda>_. checked_call ce name args cx) w))"
    using quietD [OF quiet_when_owner [OF quiet_check]]
    by (intro accounted_seq quiet_when_owner quiet_check assms(1)) blast
  then show ?thesis using assms(1) by (simp add: call_tool_def raise_pilot_def)
qed

section \<open>Runs of the registry\<close>

datatype tool_op =
    T_Register tool_spec
  | T_Timeout str rat
  | T_Call call_env str "(str \<times> json) list" tool_context
  | T_Audit audit_op
  | T_Restart

fun tool_step :: "(json \<Rightarrow> str) \<Rightarrow> tool_op \<Rightarrow> tool_world \<Rightarrow> tool_world" where
  "tool_step render (T_Register spec) w = snd (register_tool spec w)"
| "tool_step render (T_Timeout name seconds) w = snd (set_timeout name seconds w)"
| "tool_step render (T_Call ce name args cx) w = snd (call_tool (ce\<lparr>ce_render := render\<rparr>) name args cx w)"
| "tool_step render (T_Audit x) w = w\<lparr>tw_log := audit_step render x (tw_log w)\<rparr>"
| "tool_step render T_Restart w = w\<lparr>tw_suspended := False\<rparr>"

lemma accounted_same:
  "tw_ran w' = tw_ran w \<Longrightarrow> prefix (logs w) (logs w') \<Longrightarrow> accounted render w \<Longrightarrow> accounted render w'"
  using rows_of_grow by (fastforce simp: accounted_def list_all_iff)

lemma quiet_then_started:
  assumes "quiet_call m" "\<And>x w1. m w = (Inr x, w1) \<Longrightarrow> idle w1 (snd (f x w1)) \<or> starts c w1 (snd (f x w1))"
  shows "idle w (snd (seq_call m f w)) \<or> starts c w (snd (seq_call m f w))"
proof (cases "m w")
  case (Pair r w1)
  have i: "idle w w1" by (rule quietD [OF assms(1) Pair])
  show ?thesis
  proof (cases r)
    case (Inl e)
    then show ?thesis using Pair i by (simp add: seq_call_def)
  next
    case (Inr x)
    then have "idle w (snd (f x w1)) \<or> starts c w (snd (f x w1))"
      using assms(2) Pair idle_trans [OF i] idle_then_starts [OF i] by blast
    then show ?thesis using Pair Inr by (simp add: seq_call_def)
  qed
qed

lemma quiet_or: "quiet_call m \<Longrightarrow> idle w (snd (m w)) \<or> starts c w (snd (m w))"
  by (simp add: quiet_call_def)

lemma after_claim_starts: "idle w (snd (after_claim ce spec args cx granted w)) \<or> starts (ce_call_id ce) w (snd (after_claim ce spec args cx granted w))"
proof (cases "granted = Some True")
  case True
  then show ?thesis using run_tool_starts [of w ce spec args cx] by (simp add: after_claim_def)
qed (intro quiet_or refused_claim_quiet)

lemma strict_call_starts: "idle w (snd (strict_call ce spec args cx w)) \<or> starts (ce_call_id ce) w (snd (strict_call ce spec args cx w))"
proof -
  have "idle w (snd (seq_call (owner_quota ce (tl_name spec) cx) (\<lambda>_. seq_call (beta_claim ce (tl_name spec))
        (\<lambda>claim. seq_call (when_owner (check_owner ce cx False)) (\<lambda>_. after_claim ce spec args cx claim))) w))
      \<or> starts (ce_call_id ce) w (snd (seq_call (owner_quota ce (tl_name spec) cx) (\<lambda>_. seq_call (beta_claim ce (tl_name spec))
        (\<lambda>claim. seq_call (when_owner (check_owner ce cx False)) (\<lambda>_. after_claim ce spec args cx claim))) w))"
    by (intro quiet_then_started quiet_quota quiet_claim quiet_when_owner quiet_check after_claim_starts)
  moreover have "idle w (snd (denied ce n err w))" for n err using quiet_denied by (simp add: quiet_call_def)
  ultimately show ?thesis by (simp add: strict_call_def raise_pilot_def split: prod.splits)
qed

lemma call_tool_starts: "idle w (snd (call_tool ce name args cx w)) \<or> starts (ce_call_id ce) w (snd (call_tool ce name args cx w))"
proof -
  have denied: "idle w (snd (denied ce n err w))" for n err w using quiet_denied by (simp add: quiet_call_def)
  have "idle w (snd (checked_call ce name args cx w)) \<or> starts (ce_call_id ce) w (snd (checked_call ce name args cx w))" for w
    using denied strict_call_starts run_tool_starts by (auto simp: checked_call_def split: option.splits)
  then have "idle w (snd (seq_call (when_owner (check_owner ce cx False)) (\<lambda>_. checked_call ce name args cx) w))
      \<or> starts (ce_call_id ce) w (snd (seq_call (when_owner (check_owner ce cx False)) (\<lambda>_. checked_call ce name args cx) w))"
    by (intro quiet_then_started quiet_when_owner quiet_check)
  then show ?thesis by (simp add: call_tool_def raise_pilot_def)
qed

lemma steady: "idle w w' \<or> starts c w w' \<Longrightarrow> strict_mode w' = strict_mode w \<and> prefix (logs w) (logs w')"
  by (auto simp: idle_def starts_def strict_mode_def logs_def intro: prefix_order.trans)

interpretation tool_runs: op_machine "tool_step render" "\<lambda>w. strict_mode w \<and> accounted render w" "\<lambda>_. True" for render
proof
  fix x w
  assume w: "strict_mode w \<and> accounted render w"
  show "strict_mode (tool_step render x w) \<and> accounted render (tool_step render x w)"
  proof (cases x)
    case (T_Call ce name args cx)
    note steady [OF call_tool_starts [of w "ce\<lparr>ce_render := render\<rparr>" name args cx]]
    then show ?thesis
      using w call_tool_accounted [of render w "ce\<lparr>ce_render := render\<rparr>" name args cx] T_Call by simp
  next
    case (T_Audit a)
    have "prefix (logs w) (logs (w\<lparr>tw_log := audit_step render a (tw_log w)\<rparr>))"
      using log_grows [of "tw_log w" render "[a]"] by (simp add: logs_def)
    then show ?thesis using w T_Audit accounted_same by (auto simp: strict_mode_def)
  qed (use w in \<open>auto simp: register_tool_def set_timeout_def strict_mode_def accounted_def logs_def\<close>)
qed

text \<open>C16: In the strict modes every effect of a tool is accounted for. Over every run of a registry on
  its audit log, with calls cancelled or timed out at any wait, audit writes that fail or whose fate is
  unknown, other writers on the log and restarts, every tool that was started had its intent in the log,
  and all of them but possibly the latest have a committed outcome: after an effect whose outcome was
  lost no tool is started again until that outcome is reconciled.\<close>

theorem tool_effects_accounted:
  assumes "strict_mode w" "tw_ran w = []"
  shows "list_all (\<lambda>c. intent_of render c (logs (run_ops (tool_step render) xs w))) (tw_ran (run_ops (tool_step render) xs w))
    \<and> list_all (\<lambda>c. outcome_of render c (logs (run_ops (tool_step render) xs w))) (butlast (tw_ran (run_ops (tool_step render) xs w)))"
proof -
  have "strict_mode w \<and> accounted render w" using assms by (simp add: accounted_def)
  from tool_runs.run_keeps [OF _ this, of xs] show ?thesis by (simp add: accounted_def list_all_iff)
qed

section \<open>Results\<close>

lemma plain_not_ok [simp]: "re_ok (plain_result name ok err st) = ok"
  by (simp add: plain_result_def)

lemma denied_not_ok: "denied ce name err w = (Inr res, w') \<Longrightarrow> \<not> re_ok res"
  by (auto simp: denied_def seq_call_Inr pure_call_def split: if_splits)

lemma settle_run_ok: "settle_run name r w = (Inr res, w') \<Longrightarrow> re_ok res \<Longrightarrow> r = Ran True \<and> w' = w"
  by (cases r) (auto simp: settle_run_def Let_def seq_call_def suspend_def raise_pilot_def split: if_splits)

lemma record_outcome_ok:
  assumes "record_outcome ce name cx res0 w = (Inr res, w')" "re_ok res"
  shows "outcome_of render (ce_call_id ce) (logs w')"
proof -
  obtain persisted w1 w2 where P: "beta_persist ce 3 name (if re_ok res0 then ''tool.call'' else ''tool.error'')
        (if re_ok res0 then ''ok'' else ''error'') ''outcome'' (ce_call_id ce) [(''ok'', JBool (re_ok res0))] w = (Inr persisted, w1)"
      and C: "when_owner (check_owner ce cx True) w1 = (Inr (), w2)"
      and R: "(if persisted then pure_call res0
           else seq_call suspend (\<lambda>_ w. if tw_mode w = Owner then raise_pilot ''audit'' True w
             else (Inr (plain_result name False (Some Audit_Unavailable) (Some Indeterminate)), w))) w2 = (Inr res, w')"
    using assms(1) by (auto simp: record_outcome_def seq_call_Inr)
  have "persisted" using R assms(2) by (cases persisted) (auto simp: seq_call_Inr suspend_def raise_pilot_def split: if_splits)
  then have "outcome_of render (ce_call_id ce) (logs w1)" using P by (auto intro: beta_persist_stored)
  moreover have "idle w1 w2" by (rule quietD [OF quiet_when_owner [OF quiet_check] C])
  moreover have "w' = w2" using R \<open>persisted\<close> by (simp add: pure_call_def)
  ultimately show ?thesis using rows_of_grow(2) by (auto simp: idle_def)
qed

lemma start_tool_ran:
  assumes "start_tool ce spec args cx w = (Inr (Ran ok), w')"
  shows "starts (ce_call_id ce) w w'"
proof -
  have "ce_run ce \<notin> {Early_Timeout, Early_Cancelled}" using assms by (auto simp: start_tool_def pure_call_def)
  then obtain u w1 where c: "when_owner (check_owner ce cx False) w = (Inr u, w1)"
      and w': "w' = others_write ce 2 (w1\<lparr>tw_ran := tw_ran w1 @ [ce_call_id ce]\<rparr>)"
    using assms by (auto simp: start_tool_def seq_call_Inr raise_pilot_def split: if_splits)
  have "idle w w1" by (rule quietD [OF quiet_when_owner [OF quiet_check] c])
  then show ?thesis unfolding starts_def w' using idle_others by blast
qed

lemma run_tool_ok:
  assumes "run_tool ce spec args cx w = (Inr res, w')" "re_ok res" "strict_mode w"
  shows "starts (ce_call_id ce) w w' \<and> outcome_of render (ce_call_id ce) (logs w')"
proof -
  obtain r w1 res0 w2 w3 where S: "start_tool ce spec args cx w = (Inr r, w1)" "settle_run (tl_name spec) r w1 = (Inr res0, w2)"
      and C: "when_owner (check_owner ce cx True) w2 = (Inr (), w3)"
      and R: "(if strict_mode w3 then record_outcome ce (tl_name spec) cx res0 w3 else (Inr res0, w3)) = (Inr res, w')"
    using assms(1) by (auto simp: run_tool_def seq_call_Inr)
  have "idle w w1 \<or> starts (ce_call_id ce) w w1" using start_tool_starts [of w ce spec args cx] S(1) by simp
  then have "strict_mode w1" using assms(3) steady by blast
  moreover have i2: "idle w1 w2" by (rule quietD [OF quiet_settle S(2)])
  moreover have i3: "idle w2 w3" by (rule quietD [OF quiet_when_owner [OF quiet_check] C])
  ultimately have "strict_mode w3" by (simp add: idle_def strict_mode_def)
  then have O: "record_outcome ce (tl_name spec) cx res0 w3 = (Inr res, w')" using R by simp
  have i4: "idle w3 w'" by (rule quietD [OF quiet_outcome O])
  have "re_ok res0"
    using O assms(2) by (auto simp: record_outcome_def seq_call_Inr pure_call_def suspend_def raise_pilot_def split: if_splits)
  then have "r = Ran True" using settle_run_ok [OF S(2)] by simp
  then have "starts (ce_call_id ce) w w'"
    using start_tool_ran S(1) starts_then_idle idle_trans [OF i2 idle_trans [OF i3 i4]] by blast
  then show ?thesis using record_outcome_ok [OF O assms(2)] by blast
qed

lemma after_claim_ok:
  assumes "after_claim ce spec args cx granted w = (Inr res, w')" "re_ok res" "strict_mode w"
  shows "starts (ce_call_id ce) w w' \<and> outcome_of render (ce_call_id ce) (logs w')"
proof -
  have "run_tool ce spec args cx w = (Inr res, w')"
    using assms(1,2) by (auto simp: after_claim_def seq_call_Inr pure_call_def raise_pilot_def plain_result_def
        split: if_splits option.splits bool.splits)
  then show ?thesis by (rule run_tool_ok [OF _ assms(2,3)])
qed

lemma strict_call_ok:
  assumes "strict_call ce spec args cx w = (Inr res, w')" "re_ok res" "strict_mode w"
  shows "starts (ce_call_id ce) w w' \<and> outcome_of render (ce_call_id ce) (logs w')"
proof -
  obtain w1 granted w2 w3 where run: "owner_quota ce (tl_name spec) cx w = (Inr (), w1)" "beta_claim ce (tl_name spec) w1 = (Inr granted, w2)"
      "when_owner (check_owner ce cx False) w2 = (Inr (), w3)" "after_claim ce spec args cx granted w3 = (Inr res, w')"
    using assms(1,2) by (auto simp: strict_call_def seq_call_Inr raise_pilot_def dest: denied_not_ok split: if_splits prod.splits)
  have i: "idle w w3" using quietD [OF quiet_quota run(1)] quietD [OF quiet_claim run(2)]
    quietD [OF quiet_when_owner [OF quiet_check] run(3)] idle_trans by blast
  then have "strict_mode w3" using assms(3) by (simp add: idle_def strict_mode_def)
  from after_claim_ok [OF run(4) assms(2) this] show ?thesis using idle_then_starts [OF i] by blast
qed

text \<open>C17: In the strict modes a result is reported as a success only when it happened and is on record:
  the tool was started under the call's id, once, and the log holds the committed outcome of that call.
  Denials, failures of the log and uncertain ends never look like a success.\<close>

theorem success_is_recorded:
  assumes "call_tool ce name args cx w = (Inr res, w')" "re_ok res" "strict_mode w"
  shows "tw_ran w' = tw_ran w @ [ce_call_id ce] \<and> outcome_of render (ce_call_id ce) (logs w')"
proof -
  obtain w1 where C: "when_owner (check_owner ce cx False) w = (Inr (), w1)" and B: "checked_call ce name args cx w1 = (Inr res, w')"
    using assms(1) by (auto simp: call_tool_def seq_call_Inr raise_pilot_def split: if_splits)
  have i: "idle w w1" by (rule quietD [OF quiet_when_owner [OF quiet_check] C])
  then have st: "strict_mode w1" using assms(3) by (simp add: idle_def strict_mode_def)
  obtain spec where "strict_call ce spec args cx w1 = (Inr res, w')"
    using B assms(2) st by (auto simp: checked_call_def dest: denied_not_ok split: option.splits)
  from strict_call_ok [OF this assms(2) st]
  have "starts (ce_call_id ce) w w'" "outcome_of render (ce_call_id ce) (logs w')"
    using idle_then_starts [OF i] by blast+
  then show ?thesis by (auto simp: starts_def idle_def)
qed

section \<open>Instances\<close>

definition demo_tool :: tool_spec where
  "demo_tool = \<lparr>tl_name = ''web_search'', tl_schema = Some (Schema (Some (One_Type ''object''))
     [(''query'', Some (Schema (Some (One_Type ''string'')) [] [] False None))] [''query''] True None), tl_risk = Read_Only\<rparr>"

definition demo_tools :: tool_world where
  "demo_tools = \<lparr>tw_mode = Beta default_beta_policy, tw_tools = [(''web_search'', demo_tool)], tw_timeouts = [],
     tw_audit_ref = Beta_Log, tw_suspended = False, tw_log = \<lparr>al_open = True, al_rows = []\<rparr>, tw_owner = demo_world, tw_ran = []\<rparr>"

definition demo_call :: "str \<Rightarrow> tool_run \<Rightarrow> call_env" where
  "demo_call c r = \<lparr>ce_render = \<lambda>_. [], ce_call_id = c, ce_denial_id = ''d'', ce_entry = \<lambda>k. (c @ nat_text k, demo_stamp),
     ce_own = \<lambda>_. good_connection, ce_fresh = good_connection, ce_cancel = \<lambda>_. False, ce_committed = \<lambda>_. False,
     ce_others = \<lambda>_. [], ce_run = r, ce_nows = \<lambda>_. (0, 0), ce_codec = demo_codec, ce_lease = quiet, ce_ctx_log = True\<rparr>"

definition demo_context :: tool_context where
  "demo_context = \<lparr>cx_task = ''k'', cx_handles = False, cx_beta = Some \<lparr>bp_user = 7, bp_private = True\<rparr>, cx_grant = None\<rparr>"

text \<open>A call that succeeds; and a run in which the second outcome is lost to a cancellation, so that
  the third call is refused, after a restart too.\<close>

definition demo_ok :: "(call_error, tool_result) res \<times> tool_world" where
  "demo_ok = call_tool (demo_call ''c1'' (Ran True)) ''web_search'' [(''query'', JStr ''hi'')] demo_context demo_tools"

definition demo_run :: "tool_op list" where
  "demo_run = (let call = \<lambda>ce. T_Call ce ''web_search'' [(''query'', JStr ''hi'')] demo_context in
     [call (demo_call ''c1'' (Ran True)), call ((demo_call ''c2'' (Ran True))\<lparr>ce_cancel := \<lambda>k. k = 3\<rparr>), T_Restart,
      call (demo_call ''c3'' (Ran True))])"

lemma demo_strict: "strict_mode demo_tools \<and> tw_ran demo_tools = []"
  by code_simp

lemma demo_ok_result: "fst demo_ok = Inr (plain_result ''web_search'' True None None)"
  by code_simp

lemma tool_effects_accounted_witness:
  "tw_ran (run_ops (tool_step (\<lambda>_. [])) demo_run demo_tools) = [''c1'', ''c2'']
   \<and> list_all (\<lambda>c. intent_of (\<lambda>_. []) c (logs (run_ops (tool_step (\<lambda>_. [])) demo_run demo_tools))) [''c1'', ''c2'']
   \<and> list_all (\<lambda>c. outcome_of (\<lambda>_. []) c (logs (run_ops (tool_step (\<lambda>_. [])) demo_run demo_tools))) [''c1'']"
proof -
  have ran: "tw_ran (run_ops (tool_step (\<lambda>_. [])) demo_run demo_tools) = [''c1'', ''c2'']" by code_simp
  show ?thesis using tool_effects_accounted [of demo_tools "\<lambda>_. []" demo_run] demo_strict unfolding ran by simp
qed

lemma success_is_recorded_witness:
  "tw_ran (snd demo_ok) = [''c1''] \<and> outcome_of (\<lambda>_. []) ''c1'' (logs (snd demo_ok))"
proof -
  have "call_tool (demo_call ''c1'' (Ran True)) ''web_search'' [(''query'', JStr ''hi'')] demo_context demo_tools
      = (Inr (plain_result ''web_search'' True None None), snd demo_ok)"
    using demo_ok_result by (metis demo_ok_def prod.collapse)
  from success_is_recorded [OF this] demo_strict show ?thesis by (simp add: demo_call_def)
qed

end
