(* ===== verification/Memory_Store.thy ===== *)
theory Memory_Store
  imports Complex_Main Json_Text "HOL-Library.Product_Lexorder"
begin

text \<open>
  The memory of the agents: its items (\<open>src/agency/memory/sms/models.py\<close>), the SQLite store with
  its full-text index (\<open>store.py\<close>) and the tiers items age through (\<open>lifecycle.py\<close>).

  The table is a list of rows in rowid order, the index a list of its rows. Instants are counted in
  microseconds: the store writes every timestamp in UTC, where the order of the texts is the order of
  the instants (\<open>isoformat_order\<close> of \<open>Iso_Time\<close>). An importance is an exact rational. Parameters are
  \<open>trim\<close>, with which pydantic strips a string; \<open>shuf\<close>, the order in which SQLite meets the rows that
  an \<open>ORDER BY\<close> leaves tied; and \<open>bm25\<close>, which gives the rank of an index row that matches. The task
  that runs the aging pass periodically, and logging, are left out.
\<close>

section \<open>Items\<close>

datatype memory_tier = Cold | Cool | Normal | Warm | Hot

definition tier_order :: "memory_tier list" where
  "tier_order = [Cold, Cool, Normal, Warm, Hot]"

fun tier_rank :: "memory_tier \<Rightarrow> nat" where
  "tier_rank Cold = 0"
| "tier_rank Cool = 1"
| "tier_rank Normal = 2"
| "tier_rank Warm = 3"
| "tier_rank Hot = 4"

definition warmer :: "memory_tier \<Rightarrow> memory_tier option" where
  "warmer t = (if tier_rank t + 1 \<ge> length tier_order then None else Some (tier_order ! (tier_rank t + 1)))"

definition colder :: "memory_tier \<Rightarrow> memory_tier option" where
  "colder t = (if tier_rank t = 0 then None else Some (tier_order ! (tier_rank t - 1)))"

record sms_item =
  si_id :: str
  si_agent :: str
  si_content :: str
  si_tier :: memory_tier
  si_created :: int
  si_accessed :: int
  si_importance :: rat
  si_tags :: "str list"

datatype memory_error = Invalid_Item | Invalid_Query

text \<open>The keys of a dict that is filled with \<open>setdefault\<close>: the first occurrences.\<close>

definition note_tag :: "str list \<Rightarrow> str \<Rightarrow> str list" where
  "note_tag seen tag = (let c = py_lower (py_strip tag) in if c = [] \<or> c \<in> set seen then seen else seen @ [c])"

definition normalize_tags :: "str list \<Rightarrow> str list" where
  "normalize_tags tags = foldl note_tag [] tags"

definition mk_item :: "(str \<Rightarrow> str) \<Rightarrow> sms_item \<Rightarrow> (memory_error, sms_item) res" where
  "mk_item trim i =
     (if trim (si_agent i) = [] \<or> trim (si_content i) = [] \<or> si_importance i < 0 \<or> 1 < si_importance i then Inl Invalid_Item
      else Inr (i\<lparr>si_id := trim (si_id i), si_agent := trim (si_agent i), si_content := trim (si_content i),
        si_tags := normalize_tags (map trim (si_tags i))\<rparr>))"

record sms_query =
  sq_agent :: "str option"
  sq_tags :: "str list"
  sq_tier :: "memory_tier option"
  sq_limit :: int

definition mk_query :: "sms_query \<Rightarrow> (memory_error, sms_query) res" where
  "mk_query q = (if sq_limit q < 1 \<or> 1000 < sq_limit q then Inl Invalid_Query
     else Inr (q\<lparr>sq_tags := normalize_tags (sq_tags q)\<rparr>))"

definition item_ok :: "(str \<Rightarrow> str) \<Rightarrow> sms_item \<Rightarrow> bool" where
  "item_ok trim i = (mk_item trim i = Inr i)"

section \<open>The store\<close>

type_synonym index_row = "str \<times> str \<times> str"

record sms_db =
  sd_memory :: bool
  sd_items :: "sms_item list"
  sd_index :: "index_row list"

text \<open>\<open>initialize\<close> opens the connection; a database in memory is new.\<close>

definition new_store :: "bool \<Rightarrow> sms_db" where
  "new_store in_memory = \<lparr>sd_memory = in_memory, sd_items = [], sd_index = []\<rparr>"

definition close_memory :: "sms_db \<Rightarrow> sms_db" where
  "close_memory s = (if sd_memory s then new_store True else s)"

definition by_id :: "str \<Rightarrow> sms_item \<Rightarrow> bool" where
  "by_id k i = (si_id i = k)"

definition update_rows :: "(sms_item \<Rightarrow> bool) \<Rightarrow> (sms_item \<Rightarrow> sms_item) \<Rightarrow> sms_db \<Rightarrow> nat \<times> sms_db" where
  "update_rows P f s = (length (filter P (sd_items s)), s\<lparr>sd_items := map (\<lambda>i. if P i then f i else i) (sd_items s)\<rparr>)"

text \<open>The three statements of \<open>store\<close>.\<close>

definition index_row_of :: "sms_item \<Rightarrow> index_row" where
  "index_row_of i = (si_id i, si_content i, joined '' '' (si_tags i))"

definition upsert_item :: "sms_item \<Rightarrow> sms_db \<Rightarrow> sms_db" where
  "upsert_item i s = (if list_ex (by_id (si_id i)) (sd_items s)
     then snd (update_rows (by_id (si_id i)) (\<lambda>_. i) s) else s\<lparr>sd_items := sd_items s @ [i]\<rparr>)"

definition unindex :: "str \<Rightarrow> sms_db \<Rightarrow> sms_db" where
  "unindex k s = s\<lparr>sd_index := filter (\<lambda>r. fst r \<noteq> k) (sd_index s)\<rparr>"

definition index_item :: "sms_item \<Rightarrow> sms_db \<Rightarrow> sms_db" where
  "index_item i s = s\<lparr>sd_index := sd_index s @ [index_row_of i]\<rparr>"

definition store_item :: "sms_item \<Rightarrow> sms_db \<Rightarrow> sms_db" where
  "store_item i s = index_item i (unindex (si_id i) (upsert_item i s))"

fun read_rows :: "(str \<Rightarrow> str) \<Rightarrow> sms_item list \<Rightarrow> (memory_error, sms_item list) res" where
  "read_rows trim [] = Inr []"
| "read_rows trim (r # rs) =
     (case mk_item trim r of Inl e \<Rightarrow> Inl e
      | Inr i \<Rightarrow> (case read_rows trim rs of Inl e \<Rightarrow> Inl e | Inr is \<Rightarrow> Inr (i # is)))"

definition get_item :: "(str \<Rightarrow> str) \<Rightarrow> str \<Rightarrow> sms_db \<Rightarrow> (memory_error, sms_item option) res" where
  "get_item trim k s =
     (case find (by_id k) (sd_items s) of
        None \<Rightarrow> Inr None
      | Some r \<Rightarrow> (case mk_item trim r of Inl e \<Rightarrow> Inl e | Inr i \<Rightarrow> Inr (Some i)))"

definition query_matches :: "sms_query \<Rightarrow> sms_item \<Rightarrow> bool" where
  "query_matches q i \<longleftrightarrow> (case sq_agent q of None \<Rightarrow> True | Some a \<Rightarrow> si_agent i = a)
     \<and> (case sq_tier q of None \<Rightarrow> True | Some t \<Rightarrow> si_tier i = t)
     \<and> (sq_tags q = [] \<or> list_ex (\<lambda>t. t \<in> set (sq_tags q)) (si_tags i))"

definition ordered :: "(sms_item list \<Rightarrow> sms_item list) \<Rightarrow> (sms_item \<Rightarrow> 'k::linorder) \<Rightarrow> sms_item list \<Rightarrow> sms_item list" where
  "ordered shuf key rows = sort_key key (shuf rows)"

definition search_items :: "(sms_item list \<Rightarrow> sms_item list) \<Rightarrow> (str \<Rightarrow> str) \<Rightarrow> sms_query \<Rightarrow> sms_db \<Rightarrow> (memory_error, sms_item list) res" where
  "search_items shuf trim q s =
     read_rows trim (take (nat (sq_limit q)) (ordered shuf (\<lambda>i. (- si_importance i, - si_accessed i)) (filter (query_matches q) (sd_items s))))"

definition update_tier :: "(str \<Rightarrow> str) \<Rightarrow> str \<Rightarrow> memory_tier \<Rightarrow> sms_db \<Rightarrow> (sms_db, memory_error, sms_item option) outcome" where
  "update_tier trim k t s =
     (case update_rows (by_id k) (\<lambda>i. i\<lparr>si_tier := t\<rparr>) s of
        (n, s') \<Rightarrow> if n = 0 then (Inr None, s') else (get_item trim k s', s'))"

definition delete_item :: "str \<Rightarrow> sms_db \<Rightarrow> bool \<times> sms_db" where
  "delete_item k s = (list_ex (by_id k) (sd_items s), unindex k (s\<lparr>sd_items := filter (\<lambda>i. \<not> by_id k i) (sd_items s)\<rparr>))"

definition list_by_agent :: "(sms_item list \<Rightarrow> sms_item list) \<Rightarrow> (str \<Rightarrow> str) \<Rightarrow> str \<Rightarrow> nat \<Rightarrow> sms_db \<Rightarrow> (memory_error, sms_item list) res" where
  "list_by_agent shuf trim a limit s =
     read_rows trim (take limit (ordered shuf (\<lambda>i. - si_accessed i) (filter (\<lambda>i. si_agent i = a) (sd_items s))))"

definition list_by_tier :: "(sms_item list \<Rightarrow> sms_item list) \<Rightarrow> (str \<Rightarrow> str) \<Rightarrow> memory_tier \<Rightarrow> nat \<Rightarrow> sms_db \<Rightarrow> (memory_error, sms_item list) res" where
  "list_by_tier shuf trim t limit s =
     read_rows trim (take limit (ordered shuf (\<lambda>i. - si_accessed i) (filter (\<lambda>i. si_tier i = t) (sd_items s))))"

definition list_all_items :: "(sms_item list \<Rightarrow> sms_item list) \<Rightarrow> (str \<Rightarrow> str) \<Rightarrow> nat \<Rightarrow> sms_db \<Rightarrow> (memory_error, sms_item list) res" where
  "list_all_items shuf trim limit s = read_rows trim (take limit (ordered shuf si_accessed (sd_items s)))"

definition touch_many :: "str list \<Rightarrow> int \<Rightarrow> sms_db \<Rightarrow> nat \<times> sms_db" where
  "touch_many ks now s = (if ks = [] then (0, s) else update_rows (\<lambda>i. si_id i \<in> set ks) (\<lambda>i. i\<lparr>si_accessed := now\<rparr>) s)"

definition touch :: "str \<Rightarrow> int \<Rightarrow> sms_db \<Rightarrow> bool \<times> sms_db" where
  "touch k now s = (case touch_many [k] now s of (n, s') \<Rightarrow> (n > 0, s'))"

definition count_items :: "sms_db \<Rightarrow> nat" where
  "count_items s = length (sd_items s)"

text \<open>The join of the matching index rows with their items, best first.\<close>

definition fts_hits :: "(str \<Rightarrow> index_row list \<Rightarrow> index_row \<Rightarrow> rat option) \<Rightarrow> str \<Rightarrow> str option \<Rightarrow> sms_db \<Rightarrow> (rat \<times> sms_item) list" where
  "fts_hits bm25 expr agent s =
     concat (map (\<lambda>r. case bm25 expr (sd_index s) r of
         None \<Rightarrow> []
       | Some score \<Rightarrow> map (Pair score) (filter (\<lambda>i. by_id (fst r) i \<and> (case agent of None \<Rightarrow> True | Some a \<Rightarrow> si_agent i = a)) (sd_items s)))
       (sd_index s))"

definition search_fts :: "(str \<Rightarrow> index_row list \<Rightarrow> index_row \<Rightarrow> rat option) \<Rightarrow> ((rat \<times> sms_item) list \<Rightarrow> (rat \<times> sms_item) list) \<Rightarrow> (str \<Rightarrow> str)
    \<Rightarrow> str \<Rightarrow> str option \<Rightarrow> nat \<Rightarrow> sms_db \<Rightarrow> (memory_error, sms_item list) res" where
  "search_fts bm25 shuf trim expr agent limit s =
     read_rows trim (map snd (take limit (sort_key (\<lambda>(score, i). (score, - si_importance i)) (shuf (fts_hits bm25 expr agent s)))))"

fun demoted :: "memory_tier \<Rightarrow> memory_tier" where
  "demoted Hot = Warm"
| "demoted Warm = Normal"
| "demoted Normal = Cool"
| "demoted Cool = Cold"
| "demoted Cold = Cold"

definition store_auto_age :: "int \<Rightarrow> int \<Rightarrow> sms_db \<Rightarrow> nat \<times> sms_db" where
  "store_auto_age threshold now s = update_rows (\<lambda>i. si_accessed i < now - threshold \<and> si_tier i \<noteq> Cold)
     (\<lambda>i. i\<lparr>si_tier := demoted (si_tier i), si_accessed := now\<rparr>) s"

datatype store_op =
    SStore sms_item
  | SUpdateTier str memory_tier
  | SDelete str
  | STouch "str list" int
  | SAge int int
  | SClose

fun store_step :: "store_op \<Rightarrow> sms_db \<Rightarrow> sms_db" where
  "store_step (SStore i) s = store_item i s"
| "store_step (SUpdateTier k t) s = snd (update_tier id k t s)"
| "store_step (SDelete k) s = snd (delete_item k s)"
| "store_step (STouch ks now) s = snd (touch_many ks now s)"
| "store_step (SAge threshold now) s = snd (store_auto_age threshold now s)"
| "store_step SClose s = close_memory s"

subsection \<open>The statements one by one\<close>

text \<open>
  Every statement is awaited on the one connection of the store, so the statements of concurrent calls may
  interleave. A state keeps the calls under way, each as the statements it has still to run; an event
  starts a call, runs the next statement of one, or closes the store. \<open>store_step\<close> is a call that is not
  interrupted.
\<close>

datatype sms_stmt =
    Q_Upsert sms_item
  | Q_Unindex str
  | Q_Index sms_item
  | Q_Delete str
  | Q_Tier str memory_tier
  | Q_Touch "str list" int
  | Q_Age int int

fun exec :: "sms_stmt \<Rightarrow> sms_db \<Rightarrow> sms_db" where
  "exec (Q_Upsert i) s = upsert_item i s"
| "exec (Q_Unindex k) s = unindex k s"
| "exec (Q_Index i) s = index_item i s"
| "exec (Q_Delete k) s = s\<lparr>sd_items := filter (\<lambda>i. \<not> by_id k i) (sd_items s)\<rparr>"
| "exec (Q_Tier k t) s = snd (update_rows (by_id k) (\<lambda>i. i\<lparr>si_tier := t\<rparr>) s)"
| "exec (Q_Touch ks now) s = snd (touch_many ks now s)"
| "exec (Q_Age threshold now) s = snd (store_auto_age threshold now s)"

fun stmts_of :: "store_op \<Rightarrow> sms_stmt list" where
  "stmts_of (SStore i) = [Q_Upsert i, Q_Unindex (si_id i), Q_Index i]"
| "stmts_of (SUpdateTier k t) = [Q_Tier k t]"
| "stmts_of (SDelete k) = [Q_Delete k, Q_Unindex k]"
| "stmts_of (STouch ks now) = [Q_Touch ks now]"
| "stmts_of (SAge threshold now) = [Q_Age threshold now]"
| "stmts_of SClose = []"

record memory_run =
  mr_db :: sms_db
  mr_calls :: "sms_stmt list list"

datatype memory_event = M_Start store_op | M_Next nat | M_Close

fun memory_step :: "memory_event \<Rightarrow> memory_run \<Rightarrow> memory_run" where
  "memory_step (M_Start x) r = r\<lparr>mr_calls := mr_calls r @ [stmts_of x]\<rparr>"
| "memory_step (M_Next n) r =
     (if n < length (mr_calls r)
      then case mr_calls r ! n of
          [] \<Rightarrow> r
        | q # qs \<Rightarrow> r\<lparr>mr_db := exec q (mr_db r), mr_calls := (mr_calls r)[n := qs]\<rparr>
      else r)"
| "memory_step M_Close r = r\<lparr>mr_db := close_memory (mr_db r)\<rparr>"

definition new_run :: "bool \<Rightarrow> memory_run" where
  "new_run in_memory = \<lparr>mr_db = new_store in_memory, mr_calls = []\<rparr>"

section \<open>The lifecycle\<close>

definition day :: int where
  "day = 86400 * 1000000"

definition tier_for_age :: "int \<Rightarrow> memory_tier" where
  "tier_for_age age =
     (if age \<le> day then Hot else if age \<le> 3 * day then Warm else if age \<le> 7 * day then Normal
      else if age \<le> 30 * day then Cool else Cold)"

text \<open>\<open>promote\<close> and \<open>demote\<close> read the item and then write its new tier; in between other coroutines
  may use the store, which \<open>others\<close> lists for each wait.\<close>

definition move_tier :: "(memory_tier \<Rightarrow> memory_tier option) \<Rightarrow> (str \<Rightarrow> str) \<Rightarrow> (nat \<Rightarrow> store_op list) \<Rightarrow> str \<Rightarrow> sms_db
    \<Rightarrow> (sms_db, memory_error, sms_item option) outcome" where
  "move_tier next_tier trim others k s0 =
     (let s = run_ops store_step (others 0) s0 in
      case get_item trim k s of
        Inl e \<Rightarrow> (Inl e, s)
      | Inr None \<Rightarrow> (Inr None, s)
      | Inr (Some i) \<Rightarrow>
          (case next_tier (si_tier i) of
             None \<Rightarrow> (Inr (Some i), s)
           | Some t \<Rightarrow> update_tier trim k t (run_ops store_step (others 1) s)))"

definition promote :: "(str \<Rightarrow> str) \<Rightarrow> (nat \<Rightarrow> store_op list) \<Rightarrow> str \<Rightarrow> sms_db \<Rightarrow> (sms_db, memory_error, sms_item option) outcome" where
  "promote = move_tier warmer"

definition demote :: "(str \<Rightarrow> str) \<Rightarrow> (nat \<Rightarrow> store_op list) \<Rightarrow> str \<Rightarrow> sms_db \<Rightarrow> (sms_db, memory_error, sms_item option) outcome" where
  "demote = move_tier colder"

definition target_tier :: "int \<Rightarrow> sms_item \<Rightarrow> memory_tier" where
  "target_tier now i = tier_for_age (max (now - si_accessed i) 0)"

fun age_items :: "(str \<Rightarrow> str) \<Rightarrow> int \<Rightarrow> (nat \<Rightarrow> store_op list) \<Rightarrow> nat \<Rightarrow> sms_item list \<Rightarrow> nat \<Rightarrow> sms_db \<Rightarrow> (sms_db, memory_error, nat) outcome" where
  "age_items trim now others k [] moved s = (Inr moved, s)"
| "age_items trim now others k (i # is) moved s =
     (if tier_rank (target_tier now i) < tier_rank (si_tier i)
      then (case update_tier trim (si_id i) (target_tier now i) (run_ops store_step (others k) s) of
          (Inl e, s') \<Rightarrow> (Inl e, s')
        | (Inr _, s') \<Rightarrow> age_items trim now others (k + 1) is (moved + 1) s')
      else age_items trim now others k is moved s)"

definition engine_auto_age :: "(sms_item list \<Rightarrow> sms_item list) \<Rightarrow> (str \<Rightarrow> str) \<Rightarrow> (nat \<Rightarrow> store_op list) \<Rightarrow> int \<Rightarrow> sms_db
    \<Rightarrow> (sms_db, memory_error, nat) outcome" where
  "engine_auto_age shuf trim others now s0 =
     (let s = run_ops store_step (others 0) s0 in
      case list_all_items shuf trim 10000 s of
        Inl e \<Rightarrow> (Inl e, s)
      | Inr is \<Rightarrow> age_items trim now others 1 is 0 s)"

section \<open>Validation\<close>

text \<open>What the model asks of pydantic's stripping: twice is once, and a string that Python's
  \<open>strip\<close> leaves alone it leaves alone too.\<close>

definition trim_ok :: "(str \<Rightarrow> str) \<Rightarrow> bool" where
  "trim_ok trim \<longleftrightarrow> (\<forall>s. trim (trim s) = trim s) \<and> (\<forall>s. py_strip s = s \<longrightarrow> trim s = s)"

definition clean_tags :: "str list \<Rightarrow> bool" where
  "clean_tags ts \<longleftrightarrow> distinct ts \<and> (\<forall>t \<in> set ts. t \<noteq> [] \<and> py_strip t = t \<and> py_lower t = t)"

lemma trim_ok_strip: "trim_ok py_strip"
  by (simp add: trim_ok_def)

lemma note_tag_clean: "clean_tags seen \<Longrightarrow> clean_tags (note_tag seen t)"
  by (auto simp: note_tag_def clean_tags_def Let_def py_strip_lower)

lemma normalized_clean: "clean_tags (normalize_tags ts)"
proof -
  have "clean_tags (foldl note_tag seen ts)" if "clean_tags seen" for seen
    using that by (induction ts arbitrary: seen) (simp_all add: note_tag_clean)
  moreover have "clean_tags []" by (simp add: clean_tags_def)
  ultimately show ?thesis unfolding normalize_tags_def by blast
qed

lemma clean_normalized: "clean_tags ts \<Longrightarrow> normalize_tags ts = ts"
proof -
  have "foldl note_tag seen ts = seen @ ts" if "clean_tags (seen @ ts)" for seen
    using that by (induction ts arbitrary: seen) (auto simp: note_tag_def clean_tags_def)
  then show "clean_tags ts \<Longrightarrow> normalize_tags ts = ts" by (simp add: normalize_tags_def)
qed

lemma mk_item_Inr: "mk_item trim raw = Inr i \<longleftrightarrow> trim (si_agent raw) \<noteq> [] \<and> trim (si_content raw) \<noteq> [] \<and> 0 \<le> si_importance raw
    \<and> si_importance raw \<le> 1 \<and> i = raw\<lparr>si_id := trim (si_id raw), si_agent := trim (si_agent raw), si_content := trim (si_content raw),
        si_tags := normalize_tags (map trim (si_tags raw))\<rparr>"
  by (auto simp: mk_item_def)

lemma item_ok_iff:
  assumes "trim_ok trim"
  shows "item_ok trim i \<longleftrightarrow> trim (si_id i) = si_id i \<and> trim (si_agent i) = si_agent i \<and> trim (si_content i) = si_content i
    \<and> si_agent i \<noteq> [] \<and> si_content i \<noteq> [] \<and> 0 \<le> si_importance i \<and> si_importance i \<le> 1 \<and> clean_tags (si_tags i)"
    (is "_ \<longleftrightarrow> ?r")
proof
  assume "item_ok trim i"
  then have v: "trim (si_agent i) \<noteq> []" "trim (si_content i) \<noteq> []" "0 \<le> si_importance i" "si_importance i \<le> 1"
    and e: "i = i\<lparr>si_id := trim (si_id i), si_agent := trim (si_agent i), si_content := trim (si_content i),
        si_tags := normalize_tags (map trim (si_tags i))\<rparr>"
    unfolding item_ok_def mk_item_Inr by blast+
  have "clean_tags (si_tags i)"
    using arg_cong [OF e, of si_tags] normalized_clean [of "map trim (si_tags i)"] by simp
  then show ?r using arg_cong [OF e, of si_id] arg_cong [OF e, of si_agent] arg_cong [OF e, of si_content] v by simp
next
  assume r: ?r
  have "map trim (si_tags i) = si_tags i"
    using r assms by (intro map_idI) (auto simp: trim_ok_def clean_tags_def)
  with r show "item_ok trim i" by (simp add: item_ok_def mk_item_Inr clean_normalized)
qed

lemma mk_item_ok:
  assumes "trim_ok trim" "mk_item trim raw = Inr i"
  shows "item_ok trim i"
  using assms normalized_clean unfolding item_ok_iff [OF assms(1)]
  by (auto simp: mk_item_def trim_ok_def split: if_splits)

lemma item_ok_update [simp]:
  assumes "trim_ok trim"
  shows "item_ok trim (i\<lparr>si_tier := t\<rparr>) = item_ok trim i" "item_ok trim (i\<lparr>si_accessed := a\<rparr>) = item_ok trim i"
  by (simp_all add: item_ok_iff [OF assms])

lemma read_rows_ok: "list_all (item_ok trim) rs \<Longrightarrow> read_rows trim rs = Inr rs"
  by (induction rs) (simp_all add: item_ok_def)

section \<open>Table and index\<close>

definition in_sync :: "sms_db \<Rightarrow> bool" where
  "in_sync s \<longleftrightarrow> distinct (map si_id (sd_items s)) \<and> distinct (map fst (sd_index s))
     \<and> set (sd_index s) = index_row_of ` set (sd_items s)"

definition memory_ok :: "(str \<Rightarrow> str) \<Rightarrow> sms_db \<Rightarrow> bool" where
  "memory_ok trim s \<longleftrightarrow> in_sync s \<and> list_all (item_ok trim) (sd_items s)"

lemma index_row_of_fields [simp]: "fst (index_row_of i) = si_id i"
    "index_row_of (i\<lparr>si_tier := t\<rparr>) = index_row_of i" "index_row_of (i\<lparr>si_accessed := a\<rparr>) = index_row_of i"
  by (simp_all add: index_row_of_def)

text \<open>Statements that rewrite rows without touching what the index shows.\<close>

lemma update_rows_ok:
  assumes "memory_ok trim s" "\<And>i. index_row_of (f i) = index_row_of i" "\<And>i. item_ok trim i \<Longrightarrow> item_ok trim (f i)"
  shows "memory_ok trim (snd (update_rows P f s))"
proof -
  define g where "g = (\<lambda>i. if P i then f i else i)"
  have g: "index_row_of (g i) = index_row_of i" "item_ok trim i \<Longrightarrow> item_ok trim (g i)" for i using assms(2,3) by (simp_all add: g_def)
  then have ids: "si_id (g i) = si_id i" for i by (metis index_row_of_fields(1))
  have "sd_items (snd (update_rows P f s)) = map g (sd_items s)" "sd_index (snd (update_rows P f s)) = sd_index s"
    by (simp_all add: update_rows_def g_def)
  moreover have "index_row_of ` set (map g (sd_items s)) = index_row_of ` set (sd_items s)" by (simp add: image_image g)
  ultimately show ?thesis using assms(1) g(2) by (simp add: memory_ok_def in_sync_def ids comp_def list_all_iff)
qed

lemma memory_ok_new: "memory_ok trim (new_store b)"
  by (simp add: memory_ok_def in_sync_def new_store_def)

lemma upsert_ids: "distinct (map si_id (sd_items s)) \<Longrightarrow> distinct (map si_id (sd_items (upsert_item i s)))"
  by (auto simp: upsert_item_def update_rows_def comp_def by_id_def if_distrib [of si_id] list_ex_iff cong: if_cong)

lemma upsert_set: "set (sd_items (upsert_item i s)) = insert i {j \<in> set (sd_items s). si_id j \<noteq> si_id i}"
  by (auto simp: upsert_item_def update_rows_def by_id_def list_ex_iff)

lemma store_item_ok:
  assumes "memory_ok trim s" "item_ok trim i"
  shows "memory_ok trim (store_item i s)"
proof -
  have "sd_items (store_item i s) = sd_items (upsert_item i s)" "sd_index (store_item i s) = filter (\<lambda>r. fst r \<noteq> si_id i) (sd_index s) @ [index_row_of i]"
    by (simp_all add: store_item_def index_item_def unindex_def upsert_item_def update_rows_def)
  then show ?thesis using assms
    by (auto simp: memory_ok_def in_sync_def upsert_ids upsert_set list_all_iff distinct_map_filter)
qed

lemma delete_item_ok: "memory_ok trim s \<Longrightarrow> memory_ok trim (snd (delete_item k s))"
  by (auto simp: memory_ok_def in_sync_def delete_item_def unindex_def by_id_def list_all_iff distinct_map_filter)

definition legal_store_op :: "(str \<Rightarrow> str) \<Rightarrow> store_op \<Rightarrow> bool" where
  "legal_store_op trim x = (case x of SStore i \<Rightarrow> item_ok trim i | _ \<Rightarrow> True)"

lemma snd_update_tier: "snd (update_tier trim k t s) = snd (update_rows (by_id k) (\<lambda>i. i\<lparr>si_tier := t\<rparr>) s)"
  by (simp add: update_tier_def split: prod.splits)

lemma memory_step_ok:
  assumes "trim_ok trim" "legal_store_op trim x" "memory_ok trim s"
  shows "memory_ok trim (store_step x s)"
proof (cases x)
  case (SStore i)
  then show ?thesis using assms by (simp add: store_item_ok legal_store_op_def)
next
  case (STouch ks now)
  then show ?thesis using assms by (simp add: touch_many_def update_rows_ok)
next
  case (SAge threshold now)
  then show ?thesis using assms by (simp add: store_auto_age_def update_rows_ok)
qed (use assms in \<open>simp_all add: snd_update_tier update_rows_ok delete_item_ok close_memory_def memory_ok_new\<close>)

interpretation memory: op_machine store_step "\<lambda>s. trim_ok trim \<and> memory_ok trim s" "legal_store_op trim" for trim
  by unfold_locales (simp add: memory_step_ok)

lemma in_sync_mset: "in_sync s \<Longrightarrow> mset (sd_index s) = image_mset index_row_of (mset (sd_items s))"
proof -
  assume s: "in_sync s"
  then have "distinct (map fst (map index_row_of (sd_items s)))" by (simp add: in_sync_def comp_def)
  then have "distinct (map index_row_of (sd_items s))" by (rule distinct_map [THEN iffD1, THEN conjunct1])
  moreover have "distinct (sd_index s)" using s distinct_map unfolding in_sync_def by blast
  moreover have "set (sd_index s) = set (map index_row_of (sd_items s))" using s by (simp add: in_sync_def)
  ultimately show ?thesis using set_eq_iff_mset_eq_distinct mset_map by metis
qed

subsection \<open>Statements that interleave\<close>

text \<open>A call that is not interrupted is the step of its operation.\<close>

lemma uninterrupted_call: "x \<noteq> SClose \<Longrightarrow> fold exec (stmts_of x) s = store_step x s"
  by (cases x) (simp_all add: store_item_def delete_item_def snd_update_tier)

text \<open>What the table and the index show for one id.\<close>

definition shown_rows :: "str \<Rightarrow> sms_db \<Rightarrow> index_row list" where
  "shown_rows k s = map index_row_of (filter (by_id k) (sd_items s))"

definition index_rows :: "str \<Rightarrow> sms_db \<Rightarrow> index_row list" where
  "index_rows k s = filter (\<lambda>r. fst r = k) (sd_index s)"

fun stmt_id :: "sms_stmt \<Rightarrow> str option" where
  "stmt_id (Q_Upsert i) = Some (si_id i)"
| "stmt_id (Q_Unindex k) = Some k"
| "stmt_id (Q_Index i) = Some (si_id i)"
| "stmt_id (Q_Delete k) = Some k"
| "stmt_id q = None"

definition concerns :: "str \<Rightarrow> sms_stmt list \<Rightarrow> bool" where
  "concerns k qs = list_ex (\<lambda>q. stmt_id q = Some k) qs"

definition under_way :: "str \<Rightarrow> memory_run \<Rightarrow> bool" where
  "under_way k r = list_ex (concerns k) (mr_calls r)"

text \<open>The assumption on the callers: no store or deletion of an item starts while one of the same id is
  under way, and the store is closed only when nothing is.\<close>

fun starts_alone :: "memory_event \<Rightarrow> memory_run \<Rightarrow> bool" where
  "starts_alone (M_Start (SStore i)) r = (\<not> under_way (si_id i) r)"
| "starts_alone (M_Start (SDelete k)) r = (\<not> under_way k r)"
| "starts_alone (M_Start x) r = True"
| "starts_alone (M_Next n) r = True"
| "starts_alone M_Close r = list_all (\<lambda>qs. qs = []) (mr_calls r)"

fun all_alone :: "memory_event list \<Rightarrow> memory_run \<Rightarrow> bool" where
  "all_alone [] r = True"
| "all_alone (e # es) r = (starts_alone e r \<and> all_alone es (memory_step e r))"

text \<open>How far a call has come decides how table and index stand for its id.\<close>

fun call_phase :: "sms_stmt list \<Rightarrow> sms_db \<Rightarrow> bool" where
  "call_phase [Q_Upsert i, Q_Unindex k, Q_Index j] s = (j = i \<and> k = si_id i \<and> index_rows k s = shown_rows k s)"
| "call_phase [Q_Unindex k, Q_Index i] s = (k = si_id i \<and> shown_rows k s = [index_row_of i])"
| "call_phase [Q_Index i] s = (shown_rows (si_id i) s = [index_row_of i] \<and> index_rows (si_id i) s = [])"
| "call_phase [Q_Delete k, Q_Unindex j] s = (j = k \<and> index_rows k s = shown_rows k s)"
| "call_phase [Q_Unindex k] s = (shown_rows k s = [])"
| "call_phase qs s = list_all (\<lambda>q. stmt_id q = None) qs"

definition run_sync :: "memory_run \<Rightarrow> bool" where
  "run_sync r \<longleftrightarrow> distinct (map si_id (sd_items (mr_db r)))
     \<and> (\<forall>qs \<in> set (mr_calls r). call_phase qs (mr_db r))
     \<and> (\<forall>n m k. n < length (mr_calls r) \<longrightarrow> m < length (mr_calls r) \<longrightarrow> concerns k (mr_calls r ! n)
          \<longrightarrow> concerns k (mr_calls r ! m) \<longrightarrow> n = m)
     \<and> (\<forall>k. \<not> under_way k r \<longrightarrow> index_rows k (mr_db r) = shown_rows k (mr_db r))"

text \<open>What each statement changes.\<close>

lemma shown_update:
  assumes "\<And>i. index_row_of (f i) = index_row_of i"
  shows "shown_rows k (snd (update_rows P f s)) = shown_rows k s"
proof -
  have "si_id (f i) = si_id i" for i using assms by (metis index_row_of_fields(1))
  then have "map index_row_of (filter (by_id k) (map (\<lambda>i. if P i then f i else i) xs)) = map index_row_of (filter (by_id k) xs)" for xs
    by (induction xs) (auto simp: by_id_def assms)
  then show ?thesis by (simp add: shown_rows_def update_rows_def)
qed

lemma index_update [simp]: "index_rows k (snd (update_rows P f s)) = index_rows k s"
  by (simp add: index_rows_def update_rows_def)

lemma index_upsert [simp]: "index_rows k (upsert_item i s) = index_rows k s"
  by (simp add: index_rows_def upsert_item_def update_rows_def)

lemma shown_upsert:
  assumes "distinct (map si_id (sd_items s))"
  shows "shown_rows k (upsert_item i s) = (if k = si_id i then [index_row_of i] else shown_rows k s)"
proof -
  have one: "filter (by_id (si_id i)) (map (\<lambda>x. if by_id (si_id i) x then i else x) xs) = [i]"
    if "list_ex (by_id (si_id i)) xs" "distinct (map si_id xs)" for xs
    using that
  proof (induction xs)
    case (Cons x xs)
    show ?case
    proof (cases "by_id (si_id i) x")
      case True
      then have "\<not> list_ex (by_id (si_id i)) xs" using Cons.prems(2) by (force simp: by_id_def list_ex_iff image_iff)
      then have "filter (by_id (si_id i)) (map (\<lambda>x. if by_id (si_id i) x then i else x) xs) = []"
        by (auto simp: filter_empty_conv list_ex_iff)
      with True show ?thesis by (simp add: by_id_def [of "si_id i" i])
    qed (use Cons in simp)
  qed simp
  have other: "filter (by_id k) (map (\<lambda>x. if by_id (si_id i) x then i else x) xs) = filter (by_id k) xs" if "k \<noteq> si_id i" for xs
    using that by (induction xs) (auto simp: by_id_def)
  have none: "filter (by_id (si_id i)) xs = []" if "\<not> list_ex (by_id (si_id i)) xs" for xs
    using that by (auto simp: filter_empty_conv list_ex_iff)
  show ?thesis
    using assms by (auto simp: shown_rows_def upsert_item_def update_rows_def one other none) (auto simp: by_id_def)
qed

lemma exec_other:
  assumes "distinct (map si_id (sd_items s))" "stmt_id q \<noteq> Some k"
  shows "shown_rows k (exec q s) = shown_rows k s \<and> index_rows k (exec q s) = index_rows k s"
proof (cases q)
  case (Q_Upsert i)
  with assms show ?thesis by (simp add: shown_upsert)
next
  case (Q_Unindex j)
  then have "filter (\<lambda>r. fst r = k \<and> fst r \<noteq> j) xs = filter (\<lambda>r. fst r = k) xs" for xs :: "index_row list"
    using assms(2) by (intro filter_cong) auto
  then show ?thesis by (simp add: Q_Unindex shown_rows_def index_rows_def unindex_def conj_commute)
next
  case (Q_Index i)
  with assms show ?thesis by (simp add: shown_rows_def index_rows_def index_item_def)
next
  case (Q_Delete j)
  then have "filter (\<lambda>i. by_id k i \<and> \<not> by_id j i) xs = filter (by_id k) xs" for xs
    using assms(2) by (intro filter_cong) (auto simp: by_id_def)
  then show ?thesis by (simp add: Q_Delete shown_rows_def index_rows_def conj_commute)
qed (simp_all add: shown_update touch_many_def store_auto_age_def)

lemma exec_distinct: "distinct (map si_id (sd_items s)) \<Longrightarrow> distinct (map si_id (sd_items (exec q s)))"
proof -
  have upd: "map si_id (sd_items (snd (update_rows P f s))) = map si_id (sd_items s)" if "\<And>i. si_id (f i) = si_id i" for P f
    using that by (simp add: update_rows_def)
  show "distinct (map si_id (sd_items s)) \<Longrightarrow> distinct (map si_id (sd_items (exec q s)))"
    by (cases q) (simp_all add: upsert_ids upd unindex_def index_item_def distinct_map_filter touch_many_def store_auto_age_def)
qed

lemma call_phase_none: "list_all (\<lambda>q. stmt_id q = None) qs \<Longrightarrow> call_phase qs s"
  by (cases "(qs, s)" rule: call_phase.cases) simp_all

text \<open>A phase depends on the ids its call concerns only.\<close>

lemma call_phase_same:
  assumes "call_phase qs s" "\<And>k. concerns k qs \<Longrightarrow> shown_rows k s' = shown_rows k s \<and> index_rows k s' = index_rows k s"
  shows "call_phase qs s'"
  using assms by (cases "(qs, s)" rule: call_phase.cases) (auto simp: concerns_def)

text \<open>The statement a call runs takes it to its next phase, and after the last one its id is in sync.\<close>

lemma call_phase_next:
  assumes "call_phase (q # qs) s" "distinct (map si_id (sd_items s))"
  shows "call_phase qs (exec q s)"
    and "stmt_id q = Some k \<Longrightarrow> qs = [] \<Longrightarrow> index_rows k (exec q s) = shown_rows k (exec q s)"
    and "stmt_id q = Some k \<Longrightarrow> qs \<noteq> [] \<Longrightarrow> concerns k qs"
    and "concerns k qs \<Longrightarrow> stmt_id q = Some k"
proof -
  have unindexed: "index_rows k (unindex k s) = []" "shown_rows j (unindex k s) = shown_rows j s" for k j
    by (simp_all add: index_rows_def shown_rows_def unindex_def)
  have indexed: "index_rows (si_id i) (index_item i s) = index_rows (si_id i) s @ [index_row_of i]"
      "shown_rows j (index_item i s) = shown_rows j s" for i j
    by (simp_all add: index_rows_def shown_rows_def index_item_def)
  have deleted: "shown_rows k (s\<lparr>sd_items := filter (\<lambda>i. \<not> by_id k i) (sd_items s)\<rparr>) = []" for k
    by (simp add: shown_rows_def)
  note facts = unindexed indexed deleted shown_upsert [OF assms(2)] concerns_def
  show "call_phase qs (exec q s)"
    using assms(1) by (cases "(q # qs, s)" rule: call_phase.cases) (auto simp: facts intro: call_phase_none)
  show "stmt_id q = Some k \<Longrightarrow> qs = [] \<Longrightarrow> index_rows k (exec q s) = shown_rows k (exec q s)"
    using assms(1) by (cases "(q # qs, s)" rule: call_phase.cases) (auto simp: facts)
  show "stmt_id q = Some k \<Longrightarrow> qs \<noteq> [] \<Longrightarrow> concerns k qs"
    using assms(1) by (cases "(q # qs, s)" rule: call_phase.cases) (auto simp: facts)
  show "concerns k qs \<Longrightarrow> stmt_id q = Some k"
    using assms(1) by (cases "(q # qs, s)" rule: call_phase.cases) (auto simp: facts list_ex_iff list_all_iff)
qed

lemma phase_alone:
  assumes "\<not> under_way k r" "run_sync r" "x = SStore i \<and> k = si_id i \<or> x = SDelete k"
  shows "call_phase (stmts_of x) (mr_db r)"
  using assms by (auto simp: run_sync_def)

lemma concerns_stmts: "concerns k (stmts_of x) \<longleftrightarrow> (\<exists>i. x = SStore i \<and> k = si_id i) \<or> x = SDelete k"
  by (cases x) (auto simp: concerns_def)

lemma run_sync_start:
  assumes ok: "run_sync r" and alone: "starts_alone (M_Start x) r"
  shows "run_sync (memory_step (M_Start x) r)"
proof -
  have new: "\<not> under_way k r" if "concerns k (stmts_of x)" for k
    using alone that by (auto simp: concerns_stmts)
  have phase: "call_phase (stmts_of x) (mr_db r)"
  proof (cases "\<exists>k. concerns k (stmts_of x)")
    case True
    with new ok show ?thesis by (auto simp: concerns_stmts intro: phase_alone)
  next
    case False
    then have "list_all (\<lambda>q. stmt_id q = None) (stmts_of x)" by (cases x) (auto simp: concerns_def)
    then show ?thesis by (rule call_phase_none)
  qed
  have old: "\<not> concerns k (mr_calls r ! n)" if "concerns k (stmts_of x)" "n < length (mr_calls r)" for k n
    using new [OF that(1)] that(2) by (auto simp: under_way_def list_ex_iff)
  show ?thesis unfolding run_sync_def
  proof (intro conjI allI impI)
    fix n m k
    assume "n < length (mr_calls (memory_step (M_Start x) r))" "m < length (mr_calls (memory_step (M_Start x) r))"
      "concerns k (mr_calls (memory_step (M_Start x) r) ! n)" "concerns k (mr_calls (memory_step (M_Start x) r) ! m)"
    then show "n = m"
      using ok old unfolding run_sync_def by (auto simp: nth_append less_Suc_eq split: if_splits)
  qed (use ok phase in \<open>auto simp: run_sync_def under_way_def\<close>)
qed

lemma run_sync_next:
  assumes ok: "run_sync r" and n: "n < length (mr_calls r)" "mr_calls r ! n = q # qs"
  shows "run_sync (r\<lparr>mr_db := exec q (mr_db r), mr_calls := (mr_calls r)[n := qs]\<rparr>)"
proof -
  let ?s = "mr_db r" and ?cs = "(mr_calls r)[n := qs]"
  have d: "distinct (map si_id (sd_items ?s))" using ok by (simp add: run_sync_def)
  have mine: "call_phase (q # qs) ?s" using ok n unfolding run_sync_def by (metis nth_mem)
  note next_phase = call_phase_next [OF mine d]
  have excl: "m = n" if "m < length (mr_calls r)" "concerns k (mr_calls r ! m)" "concerns k (q # qs)" for m k
    using ok n that unfolding run_sync_def by metis
  have q: "concerns k (q # qs)" if "stmt_id q = Some k" for k using that by (simp add: concerns_def)
  have tail: "concerns k (q # qs)" if "concerns k qs" for k using that by (simp add: concerns_def)
  have phases: "call_phase (?cs ! m) (exec q ?s)" if m: "m < length ?cs" for m
  proof (cases "m = n")
    case True
    with n next_phase(1) show ?thesis by simp
  next
    case False
    then have "call_phase (?cs ! m) ?s" using ok m unfolding run_sync_def by simp
    then show ?thesis
    proof (rule call_phase_same)
      fix k assume "concerns k (?cs ! m)"
      with False m excl q have "stmt_id q \<noteq> Some k" by auto
      then show "shown_rows k (exec q ?s) = shown_rows k ?s \<and> index_rows k (exec q ?s) = index_rows k ?s"
        by (rule exec_other [OF d])
    qed
  qed
  have only: "m = m'" if m: "m < length ?cs" "m' < length ?cs" "concerns k (?cs ! m)" "concerns k (?cs ! m')" for m m' k
  proof -
    have "concerns k (mr_calls r ! j)" if "j < length ?cs" "concerns k (?cs ! j)" for j
      using that n tail by (cases "j = n") simp_all
    with m ok show ?thesis unfolding run_sync_def by (metis length_list_update)
  qed
  have sync: "index_rows k (exec q ?s) = shown_rows k (exec q ?s)" if free: "\<not> list_ex (concerns k) ?cs" for k
  proof (cases "stmt_id q = Some k")
    case True
    have "\<not> concerns k qs" using free n(1) by (metis list_ex_iff set_update_memI)
    with True next_phase(2,3) show ?thesis by metis
  next
    case False
    have "\<not> concerns k (mr_calls r ! m)" if "m < length (mr_calls r)" for m
    proof (cases "m = n")
      case True
      with False n free show ?thesis by (auto simp: concerns_def list_ex_iff dest: set_update_memI)
    next
      case other: False
      with free that show ?thesis by (metis length_list_update list_ex_iff nth_list_update_neq nth_mem)
    qed
    then have "\<not> under_way k r" by (auto simp: under_way_def list_ex_iff in_set_conv_nth)
    then have "index_rows k ?s = shown_rows k ?s" using ok by (simp add: run_sync_def)
    with exec_other [OF d False] show ?thesis by simp
  qed
  have "\<forall>c \<in> set ?cs. call_phase c (exec q ?s)" using phases by (metis in_set_conv_nth)
  with exec_distinct [OF d] only sync show ?thesis by (simp add: run_sync_def under_way_def)
qed

lemma run_sync_close:
  assumes ok: "run_sync r" and idle: "list_all (\<lambda>qs. qs = []) (mr_calls r)"
  shows "run_sync (memory_step M_Close r)"
proof -
  have none: "\<not> concerns k qs" if "qs \<in> set (mr_calls r)" for k qs
    using idle that by (auto simp: list_all_iff concerns_def)
  have "index_rows k (close_memory (mr_db r)) = shown_rows k (close_memory (mr_db r))" for k
    using ok none by (auto simp: close_memory_def new_store_def index_rows_def shown_rows_def run_sync_def under_way_def list_ex_iff)
  moreover have "distinct (map si_id (sd_items (close_memory (mr_db r))))"
    using ok by (simp add: close_memory_def new_store_def run_sync_def)
  moreover have "call_phase qs s" if "qs \<in> set (mr_calls r)" for qs s
    using idle that by (intro call_phase_none) (auto simp: list_all_iff)
  ultimately show ?thesis using ok by (auto simp: run_sync_def)
qed

lemma run_sync_step:
  assumes "run_sync r" "starts_alone e r"
  shows "run_sync (memory_step e r)"
proof (cases e)
  case (M_Start x)
  with assms show ?thesis using run_sync_start by blast
next
  case (M_Next n)
  then show ?thesis using assms run_sync_next by (auto split: list.split)
next
  case M_Close
  with assms run_sync_close show ?thesis by simp
qed

lemma run_sync_run: "run_sync r \<Longrightarrow> all_alone es r \<Longrightarrow> run_sync (run_ops memory_step es r)"
  by (induction es arbitrary: r) (simp_all add: run_sync_step)

lemma rows_mset:
  assumes "\<And>k. index_rows k s = shown_rows k s"
  shows "mset (sd_index s) = mset (map index_row_of (sd_items s))"
proof (rule multiset_eqI)
  fix row :: index_row
  have "filter (\<lambda>r. fst r = fst row) (map index_row_of xs) = map index_row_of (filter (by_id (fst row)) xs)" for xs
    by (induction xs) (simp_all add: by_id_def)
  then have "filter (\<lambda>r. fst r = fst row) (sd_index s) = filter (\<lambda>r. fst r = fst row) (map index_row_of (sd_items s))"
    using assms [of "fst row"] by (simp add: index_rows_def shown_rows_def)
  moreover have "count (mset xs) row = count (mset (filter (\<lambda>r. fst r = fst row) xs)) row" for xs :: "index_row list"
    by simp
  ultimately show "count (mset (sd_index s)) row = count (mset (map index_row_of (sd_items s))) row" by metis
qed

text \<open>C20: The full-text index mirrors the table while calls interleave. The statements of concurrent
  calls run in any order on the one connection; provided no store or deletion of an item starts while
  one of the same id is under way, and the store is closed only when no call is, after every such run the
  ids of the items are distinct, and an id that no call under way concerns has in the index exactly the
  row of its item with its current content and tags, and none without an item. When no call is under
  way the index holds exactly one row for every item.\<close>

theorem memory_index_in_sync:
  assumes "all_alone es (new_run b)"
  shows "let r = run_ops memory_step es (new_run b) in
    distinct (map si_id (sd_items (mr_db r)))
    \<and> (\<forall>k. \<not> under_way k r \<longrightarrow> index_rows k (mr_db r) = shown_rows k (mr_db r))
    \<and> (list_all (\<lambda>qs. qs = []) (mr_calls r) \<longrightarrow> mset (sd_index (mr_db r)) = mset (map index_row_of (sd_items (mr_db r))))"
proof -
  define r where "r = run_ops memory_step es (new_run b)"
  have "run_sync (new_run b)"
    by (simp add: run_sync_def new_run_def new_store_def index_rows_def shown_rows_def)
  from run_sync_run [OF this assms] have ok: "run_sync r" by (simp add: r_def)
  moreover have "mset (sd_index (mr_db r)) = mset (map index_row_of (sd_items (mr_db r)))"
    if "list_all (\<lambda>qs. qs = []) (mr_calls r)"
  proof (rule rows_mset)
    fix k
    have "\<not> under_way k r" using that by (auto simp: under_way_def concerns_def list_ex_iff list_all_iff)
    with ok show "index_rows k (mr_db r) = shown_rows k (mr_db r)" by (simp add: run_sync_def)
  qed
  ultimately show ?thesis unfolding Let_def r_def [symmetric] by (simp add: run_sync_def)
qed

section \<open>Reading back\<close>

lemma find_updated:
  assumes "\<And>i. P i \<Longrightarrow> Q (f i) = Q i"
  shows "find Q (map (\<lambda>i. if P i then f i else i) xs) = map_option (\<lambda>i. if P i then f i else i) (find Q xs)"
  using assms by (induction xs) auto

lemma find_upsert:
  "find (by_id k) (sd_items (upsert_item i s)) = (if k = si_id i then Some i else find (by_id k) (sd_items s))"
proof -
  have found: "find (by_id k) (map (\<lambda>x. if by_id (si_id i) x then i else x) xs)
      = (if k = si_id i then (if list_ex (by_id k) xs then Some i else None) else find (by_id k) xs)" for k xs
    unfolding by_id_def by (induction xs) auto
  have none: "find (by_id k) xs = None" if "\<not> list_ex (by_id k) xs" for k xs using that by (induction xs) auto
  show ?thesis
    by (auto simp: upsert_item_def update_rows_def found find_append by_id_def [of _ i] none split: option.splits)
qed

text \<open>What was stored is read back. After \<open>store\<close> of a validated item, \<open>get\<close> of its id gives that
  item, tags normalised, and every other id is answered as before.\<close>

lemma stored_item_read_back:
  assumes "trim_ok trim" "mk_item trim raw = Inr i"
  shows "get_item trim k (store_item i s) = (if k = si_id i then Inr (Some i) else get_item trim k s)"
proof -
  have "sd_items (store_item i s) = sd_items (upsert_item i s)" by (simp add: store_item_def index_item_def unindex_def)
  moreover have "mk_item trim i = Inr i" using mk_item_ok [OF assms] by (simp add: item_ok_def)
  ultimately show ?thesis by (simp add: get_item_def find_upsert)
qed

section \<open>The aging pass\<close>

text \<open>The tier a pass at \<open>now\<close> leaves an item in.\<close>

definition cooled :: "int \<Rightarrow> sms_item \<Rightarrow> sms_item" where
  "cooled now i = (if tier_rank (target_tier now i) < tier_rank (si_tier i) then i\<lparr>si_tier := target_tier now i\<rparr> else i)"

lemma cooled_id [simp]: "si_id (cooled now i) = si_id i"
  by (simp add: cooled_def)

lemma cooled_changes: "cooled now i \<noteq> i \<longleftrightarrow> tier_rank (target_tier now i) < tier_rank (si_tier i)"
proof (cases "tier_rank (target_tier now i) < tier_rank (si_tier i)")
  case True
  then have "si_tier (cooled now i) \<noteq> si_tier i" by (auto simp: cooled_def)
  with True show ?thesis by auto
qed (simp add: cooled_def)

lemma find_by_id:
  "distinct (map si_id xs) \<Longrightarrow> i \<in> set xs \<Longrightarrow> find (by_id (si_id i)) xs = Some i"
  unfolding by_id_def by (induction xs) auto

lemma update_tier_found:
  assumes "memory_ok trim s" "trim_ok trim" "i \<in> set (sd_items s)"
  shows "update_tier trim (si_id i) t s
    = (Inr (Some (i\<lparr>si_tier := t\<rparr>)), s\<lparr>sd_items := map (\<lambda>j. if si_id j = si_id i then j\<lparr>si_tier := t\<rparr> else j) (sd_items s)\<rparr>)"
proof -
  have d: "distinct (map si_id (sd_items s))" and ok: "item_ok trim i" using assms by (auto simp: memory_ok_def in_sync_def list_all_iff)
  have "filter (by_id (si_id i)) (sd_items s) \<noteq> []" using assms(3) by (auto simp: filter_empty_conv by_id_def)
  moreover have "find (by_id (si_id i)) (map (\<lambda>j. if by_id (si_id i) j then j\<lparr>si_tier := t\<rparr> else j) (sd_items s)) = Some (i\<lparr>si_tier := t\<rparr>)"
    using find_by_id [OF d assms(3)] by (subst find_updated) (auto simp: by_id_def)
  moreover have "mk_item trim (i\<lparr>si_tier := t\<rparr>) = Inr (i\<lparr>si_tier := t\<rparr>)"
    using item_ok_update(1) [OF assms(2)] ok by (simp add: item_ok_def)
  ultimately show ?thesis by (simp add: update_tier_def update_rows_def get_item_def by_id_def)
qed

lemma age_items_result:
  assumes "trim_ok trim" "memory_ok trim s" "set is \<subseteq> set (sd_items s)" "distinct (map si_id is)"
  shows "age_items trim now (\<lambda>_. []) k is moved s
    = (Inr (moved + length (filter (\<lambda>i. cooled now i \<noteq> i) is)),
       s\<lparr>sd_items := map (\<lambda>j. if si_id j \<in> si_id ` set is then cooled now j else j) (sd_items s)\<rparr>)"
  using assms(2-4)
proof (induction "is" arbitrary: k moved s)
  case (Cons i "is")
  have d: "distinct (map si_id (sd_items s))" using Cons.prems(1) by (simp add: memory_ok_def in_sync_def)
  have i: "i \<in> set (sd_items s)" using Cons.prems(2) by simp
  have same: "j = i" if "j \<in> set (sd_items s)" "si_id j = si_id i" for j using d i that by (meson distinct_map inj_onD)
  show ?case
  proof (cases "tier_rank (target_tier now i) < tier_rank (si_tier i)")
    case True
    let ?s = "s\<lparr>sd_items := map (\<lambda>j. if si_id j = si_id i then j\<lparr>si_tier := target_tier now i\<rparr> else j) (sd_items s)\<rparr>"
    have step: "update_tier trim (si_id i) (target_tier now i) s = (Inr (Some (i\<lparr>si_tier := target_tier now i\<rparr>)), ?s)"
      by (rule update_tier_found [OF Cons.prems(1) assms(1) i])
    have ok: "memory_ok trim ?s"
      using update_rows_ok [OF Cons.prems(1), of "\<lambda>j. j\<lparr>si_tier := target_tier now i\<rparr>" "by_id (si_id i)"] assms(1)
      by (simp add: update_rows_def by_id_def)
    have sub: "set is \<subseteq> set (sd_items ?s)" using Cons.prems(2,3) by (force simp: image_iff)
    have eq: "map (\<lambda>j. if si_id j \<in> si_id ` set is then cooled now j else j) (sd_items ?s)
        = map (\<lambda>j. if si_id j \<in> si_id ` set (i # is) then cooled now j else j) (sd_items s)"
      using same Cons.prems(3) True by (auto simp: cooled_def)
    from True Cons.IH [OF ok sub, of "k + 1" "moved + 1"] Cons.prems(3) eq show ?thesis
      by (simp add: step cooled_changes)
  next
    case False
    have eq: "map (\<lambda>j. if si_id j \<in> si_id ` set is then cooled now j else j) (sd_items s)
        = map (\<lambda>j. if si_id j \<in> si_id ` set (i # is) then cooled now j else j) (sd_items s)"
      using same False by (auto simp: cooled_def)
    have "cooled now i = i" using False by (simp add: cooled_def)
    with False Cons.IH [OF Cons.prems(1), of k moved] Cons.prems(2,3) eq show ?thesis by simp
  qed
qed simp

lemma cooled_tier [simp]: "cooled now (i\<lparr>si_tier := t\<rparr>)
    = (if tier_rank (target_tier now i) < tier_rank t then i\<lparr>si_tier := target_tier now i\<rparr> else i\<lparr>si_tier := t\<rparr>)"
  by (simp add: cooled_def target_tier_def)

lemma pass_result:
  assumes "trim_ok trim" "memory_ok trim s" "\<And>xs. mset (shuf xs) = mset xs" "length (sd_items s) \<le> 10000"
  shows "engine_auto_age shuf trim (\<lambda>_. []) now s
    = (Inr (length (filter (\<lambda>i. cooled now i \<noteq> i) (sd_items s))), s\<lparr>sd_items := map (cooled now) (sd_items s)\<rparr>)"
proof -
  let ?is = "take 10000 (ordered shuf si_accessed (sd_items s))"
  have len: "length (ordered shuf si_accessed (sd_items s)) = length (sd_items s)"
    using arg_cong [OF assms(3) [of "sd_items s"], of size] by (simp add: ordered_def)
  have all: "?is = ordered shuf si_accessed (sd_items s)" using assms(4) by (simp add: len)
  have m: "mset ?is = mset (sd_items s)" unfolding all by (simp add: ordered_def assms(3))
  have d: "distinct (map si_id ?is)" using assms(2) mset_eq_imp_distinct_iff [of "map si_id ?is" "map si_id (sd_items s)"] m
    by (simp add: memory_ok_def in_sync_def)
  have set_is: "set ?is = set (sd_items s)" using m by (metis set_mset_mset)
  have "list_all (item_ok trim) ?is" using assms(2) set_is unfolding memory_ok_def list_all_iff by simp
  then have read: "list_all_items shuf trim 10000 s = Inr ?is" by (simp add: list_all_items_def read_rows_ok)
  have "length (filter P ?is) = length (filter P (sd_items s))" for P using m by (metis mset_filter size_mset)
  moreover have "map (\<lambda>j. if si_id j \<in> si_id ` set ?is then cooled now j else j) (sd_items s) = map (cooled now) (sd_items s)"
    by (rule map_cong) (simp_all only: set_is image_eqI if_True)
  moreover have "age_items trim now (\<lambda>_. []) 1 ?is 0 s = (Inr (0 + length (filter (\<lambda>i. cooled now i \<noteq> i) ?is)),
       s\<lparr>sd_items := map (\<lambda>j. if si_id j \<in> si_id ` set ?is then cooled now j else j) (sd_items s)\<rparr>)"
    by (rule age_items_result [OF assms(1,2) equalityD1 [OF set_is] d])
  ultimately show ?thesis by (simp only: engine_auto_age_def run_ops_Nil Let_def read sum.case add_0)
qed

text \<open>The life of items nobody promotes or demotes by hand: they are stored, deleted, touched and aged.\<close>

datatype life_op =
    L_Store sms_item
  | L_Delete str
  | L_Touch "str list" int
  | L_Age int int
  | L_Close
  | L_Pass int

fun life_step :: "(sms_item list \<Rightarrow> sms_item list) \<Rightarrow> (str \<Rightarrow> str) \<Rightarrow> life_op \<Rightarrow> sms_db \<Rightarrow> sms_db" where
  "life_step shuf trim (L_Store i) s = store_step (SStore i) s"
| "life_step shuf trim (L_Delete k) s = store_step (SDelete k) s"
| "life_step shuf trim (L_Touch ks now) s = store_step (STouch ks now) s"
| "life_step shuf trim (L_Age threshold now) s = store_step (SAge threshold now) s"
| "life_step shuf trim L_Close s = store_step SClose s"
| "life_step shuf trim (L_Pass now) s = snd (engine_auto_age shuf trim (\<lambda>_. []) now s)"

definition valid_life_op :: "(str \<Rightarrow> str) \<Rightarrow> life_op \<Rightarrow> bool" where
  "valid_life_op trim x = (case x of L_Store i \<Rightarrow> item_ok trim i | _ \<Rightarrow> True)"

text \<open>What a tier promises: how long an item in it may have been idle. A pass leaves an item in the
  warmest tier, not warmer than the one it is in, that admits its idle time.\<close>

fun idle_limit :: "memory_tier \<Rightarrow> int option" where
  "idle_limit Hot = Some 1"
| "idle_limit Warm = Some 3"
| "idle_limit Normal = Some 7"
| "idle_limit Cool = Some 30"
| "idle_limit Cold = None"

definition admits :: "memory_tier \<Rightarrow> int \<Rightarrow> bool" where
  "admits t idle = (case idle_limit t of None \<Rightarrow> True | Some days \<Rightarrow> idle \<le> days * 86400000000)"

definition settles_in :: "int \<Rightarrow> sms_item \<Rightarrow> memory_tier \<Rightarrow> bool" where
  "settles_in now i t \<longleftrightarrow> admits t (now - si_accessed i) \<and> tier_rank t \<le> tier_rank (si_tier i)
     \<and> (\<forall>t'. admits t' (now - si_accessed i) \<and> tier_rank t' \<le> tier_rank (si_tier i) \<longrightarrow> tier_rank t' \<le> tier_rank t)"

lemma target_is_warmest:
  "admits t (now - si_accessed i) \<longleftrightarrow> tier_rank t \<le> tier_rank (target_tier now i)"
  by (cases t) (auto simp: admits_def target_tier_def tier_for_age_def day_def max_def)

lemma cooled_settles: "settles_in now i (si_tier (cooled now i))"
  by (auto simp: settles_in_def target_is_warmest cooled_def)

lemma cooled_only_tier: "cooled now i = i\<lparr>si_tier := si_tier (cooled now i)\<rparr>"
  by (simp add: cooled_def)

lemma cooled_moves: "cooled now i \<noteq> i \<longleftrightarrow> \<not> admits (si_tier i) (now - si_accessed i)"
  by (simp add: cooled_changes target_is_warmest not_le)

lemma age_items_ok:
  "trim_ok trim \<Longrightarrow> memory_ok trim s \<Longrightarrow> memory_ok trim (snd (age_items trim now (\<lambda>_. []) k is moved s))"
proof (induction "is" arbitrary: k moved s)
  case (Cons i "is")
  have "memory_ok trim (snd (update_tier trim (si_id i) t s))" for t
    using Cons.prems by (simp add: snd_update_tier update_rows_ok)
  with Cons show ?case by (auto split: prod.splits sum.splits) (metis snd_conv)+
qed simp

interpretation life: op_machine "life_step shuf trim" "\<lambda>s. trim_ok trim \<and> memory_ok trim s" "valid_life_op trim" for shuf trim
proof unfold_locales
  fix x s
  assume x: "valid_life_op trim x" and s: "trim_ok trim \<and> memory_ok trim s"
  have step: "memory_ok trim (store_step y s)" if "legal_store_op trim y" for y
    using s that by (intro memory_step_ok) simp_all
  have "memory_ok trim (snd (engine_auto_age shuf trim (\<lambda>_. []) now s))" for now
    using s by (auto simp: engine_auto_age_def age_items_ok split: sum.split)
  with x s show "trim_ok trim \<and> memory_ok trim (life_step shuf trim x s)"
    by (cases x) (simp_all add: valid_life_op_def legal_store_op_def step del: store_step.simps)
qed

text \<open>C22: The aging pass settles every item. On a store of at most 10000 items, reached by any run of
  stores, deletions, touches, agings, closings and passes in which no tier was set by hand, a pass that
  nobody disturbs returns and changes nothing but tiers: it leaves each item in the warmest tier, not
  warmer than its own, whose limit (1, 3, 7, 30 days, none) admits the time since its last access, and
  it returns the number of items whose tier did not admit theirs.\<close>

theorem age_pass_settles:
  assumes "trim_ok trim" "\<And>xs. mset (shuf xs) = mset xs" "list_all (valid_life_op trim) xs"
    and s: "s = run_ops (life_step shuf trim) xs (new_store b)" "length (sd_items s) \<le> 10000"
  shows "\<exists>items. engine_auto_age shuf trim (\<lambda>_. []) now s
        = (Inr (length (filter (\<lambda>i. \<not> admits (si_tier i) (now - si_accessed i)) (sd_items s))), s\<lparr>sd_items := items\<rparr>)
    \<and> list_all2 (\<lambda>i i'. i' = i\<lparr>si_tier := si_tier i'\<rparr> \<and> settles_in now i (si_tier i')) (sd_items s) items"
proof -
  have "trim_ok trim \<and> memory_ok trim (new_store b)" using assms(1) by (simp add: memory_ok_new)
  from life.run_keeps [OF assms(3) this] have "memory_ok trim s" by (simp add: s)
  from pass_result [OF assms(1) this assms(2) s(2), of now]
  have "engine_auto_age shuf trim (\<lambda>_. []) now s
      = (Inr (length (filter (\<lambda>i. \<not> admits (si_tier i) (now - si_accessed i)) (sd_items s))), s\<lparr>sd_items := map (cooled now) (sd_items s)\<rparr>)"
    by (simp add: cooled_moves)
  moreover have "list_all2 (\<lambda>i i'. i' = i\<lparr>si_tier := si_tier i'\<rparr> \<and> settles_in now i (si_tier i')) (sd_items s) (map (cooled now) (sd_items s))"
    using cooled_settles cooled_only_tier by (auto simp: list_all2_conv_all_nth)
  ultimately show ?thesis by blast
qed

text \<open>A promotion that the idle time does not warrant is undone by the next pass.\<close>

lemma tier_rank_inj: "tier_rank a = tier_rank b \<longleftrightarrow> a = b"
  by (cases a; cases b) simp_all

lemma warmer_rank: "warmer t = Some t' \<Longrightarrow> tier_rank t' = tier_rank t + 1"
  by (cases t) (auto simp: warmer_def tier_order_def)

lemma promotion_is_undone:
  assumes "trim_ok trim" "memory_ok trim s" "\<And>xs. mset (shuf xs) = mset xs" "length (sd_items s) \<le> 10000"
    "i \<in> set (sd_items s)" "tier_rank (target_tier now i) \<le> tier_rank (si_tier i)"
  shows "sd_items (snd (engine_auto_age shuf trim (\<lambda>_. []) now (snd (promote trim (\<lambda>_. []) (si_id i) s))))
    = sd_items (snd (engine_auto_age shuf trim (\<lambda>_. []) now s))"
proof (cases "warmer (si_tier i)")
  have d: "distinct (map si_id (sd_items s))" and ok: "item_ok trim i" using assms(2,5) by (auto simp: memory_ok_def in_sync_def list_all_iff)
  have get: "get_item trim (si_id i) s = Inr (Some i)" using ok by (simp add: get_item_def find_by_id [OF d assms(5)] item_ok_def)
  {
    case None
    then show ?thesis by (simp add: promote_def move_tier_def get Let_def)
  next
    case (Some t)
    let ?s = "s\<lparr>sd_items := map (\<lambda>j. if si_id j = si_id i then j\<lparr>si_tier := t\<rparr> else j) (sd_items s)\<rparr>"
    have p: "snd (promote trim (\<lambda>_. []) (si_id i) s) = ?s"
      using Some update_tier_found [OF assms(2,1,5)] by (simp add: promote_def move_tier_def get Let_def)
    have ok': "memory_ok trim ?s"
      using update_rows_ok [OF assms(2), of "\<lambda>j. j\<lparr>si_tier := t\<rparr>" "by_id (si_id i)"] assms(1) by (simp add: update_rows_def by_id_def)
    have same: "j = i" if "j \<in> set (sd_items s)" "si_id j = si_id i" for j using d assms(5) that by (meson distinct_map inj_onD)
    have h: "cooled now (i\<lparr>si_tier := t\<rparr>) = cooled now i"
      using warmer_rank [OF Some] assms(6) tier_rank_inj [of "target_tier now i" "si_tier i"] by (auto simp: cooled_def target_tier_def)
    have "cooled now (if si_id j = si_id i then j\<lparr>si_tier := t\<rparr> else j) = cooled now j" if "j \<in> set (sd_items s)" for j
      using same [OF that] h by (auto simp del: cooled_tier)
    then have "map (cooled now) (sd_items ?s) = map (cooled now) (sd_items s)" by simp
    moreover have "length (sd_items ?s) \<le> 10000" using assms(4) by simp
    ultimately show ?thesis unfolding p pass_result [OF assms(1-4)] pass_result [OF assms(1) ok' assms(3) \<open>length (sd_items ?s) \<le> 10000\<close>] by simp
  }
qed

text \<open>The pass looks at the 10000 items with the oldest access: when they are all cold already, no
  other item ever ages.\<close>

lemma cold_items_hide_the_rest:
  assumes "memory_ok trim s" "\<And>xs. mset (shuf xs) = mset xs"
    "list_all (\<lambda>i. si_tier i = Cold) (take 10000 (ordered shuf si_accessed (sd_items s)))"
  shows "engine_auto_age shuf trim (\<lambda>_. []) now s = (Inr 0, s)"
proof -
  let ?is = "take 10000 (ordered shuf si_accessed (sd_items s))"
  have "set ?is \<subseteq> set (sd_items s)"
    using set_take_subset [of 10000] arg_cong [OF assms(2) [of "sd_items s"], of set_mset] by (fastforce simp: ordered_def)
  then have "list_all (item_ok trim) ?is" using assms(1) by (auto simp: memory_ok_def list_all_iff)
  then have "list_all_items shuf trim 10000 s = Inr ?is" by (simp add: list_all_items_def read_rows_ok)
  moreover have "age_items trim now (\<lambda>_. []) k is m s = (Inr m, s)" if "list_all (\<lambda>i. si_tier i = Cold) is" for k "is" m
    using that by (induction "is") simp_all
  ultimately show ?thesis using assms(3) by (simp add: engine_auto_age_def)
qed

text \<open>Two stores of one id that meet between their statements leave two rows in the index.\<close>

lemma interleaved_stores_double_the_index:
  assumes "si_id a = si_id b"
  shows "let r = run_ops memory_step [M_Start (SStore a), M_Start (SStore b), M_Next 0, M_Next 1, M_Next 0, M_Next 1, M_Next 0, M_Next 1] (new_run m) in
    mr_calls r = [[], []] \<and> sd_index (mr_db r) = [index_row_of a, index_row_of b] \<and> length (sd_items (mr_db r)) = 1"
  using assms by (simp add: new_run_def new_store_def index_item_def unindex_def upsert_item_def update_rows_def by_id_def)

section \<open>Instances\<close>

definition demo_item :: "str \<Rightarrow> memory_tier \<Rightarrow> int \<Rightarrow> sms_item" where
  "demo_item k t days = \<lparr>si_id = k, si_agent = ''ann'', si_content = ''note '' @ k, si_tier = t, si_created = 0,
     si_accessed = days * day, si_importance = 1, si_tags = [''plan'']\<rparr>"

definition demo_memory :: sms_db where
  "demo_memory = \<lparr>sd_memory = False, sd_items = [demo_item ''a'' Cool 0, demo_item ''b'' Hot 6],
     sd_index = map index_row_of [demo_item ''a'' Cool 0, demo_item ''b'' Hot 6]\<rparr>"

lemma demo_items_ok: "item_ok py_strip (demo_item ''a'' Cool 0) \<and> item_ok py_strip (demo_item ''b'' Hot 6) \<and> item_ok py_strip (demo_item ''b'' Cold 1)"
  by code_simp

lemma demo_memory_ok: "memory_ok py_strip demo_memory"
  using demo_items_ok by (auto simp: memory_ok_def in_sync_def demo_memory_def demo_item_def index_row_of_def)

definition demo_schedule :: "memory_event list" where
  "demo_schedule = [M_Start (SStore (demo_item ''b'' Hot 6)), M_Start (SStore (demo_item ''a'' Cool 0)), M_Next 0, M_Next 1,
     M_Next 1, M_Next 0, M_Next 1, M_Next 0, M_Start (SDelete ''a''), M_Start (SStore (demo_item ''b'' Cold 1)), M_Next 2, M_Next 3,
     M_Next 3, M_Next 2, M_Next 3]"

lemma memory_index_in_sync_witness:
  "mset (sd_index (mr_db (run_ops memory_step demo_schedule (new_run False)))) = {# index_row_of (demo_item ''b'' Cold 1) #}"
proof -
  have alone: "all_alone demo_schedule (new_run False)" by code_simp
  have "sd_items (mr_db (run_ops memory_step demo_schedule (new_run False))) = [demo_item ''b'' Cold 1]"
    "list_all (\<lambda>qs. qs = []) (mr_calls (run_ops memory_step demo_schedule (new_run False)))" by code_simp+
  then show ?thesis using memory_index_in_sync [OF alone] unfolding Let_def by simp
qed

lemma stored_item_read_back_example:
  "get_item py_strip ''b'' (store_item (demo_item ''b'' Cold 1) demo_memory) = Inr (Some (demo_item ''b'' Cold 1))
   \<and> get_item py_strip ''a'' (store_item (demo_item ''b'' Cold 1) demo_memory) = Inr (Some (demo_item ''a'' Cool 0))"
proof -
  have "mk_item py_strip (demo_item ''b'' Cold 1) = Inr (demo_item ''b'' Cold 1)" using demo_items_ok by (simp add: item_ok_def)
  note r = stored_item_read_back [OF trim_ok_strip this]
  have "get_item py_strip ''a'' demo_memory = Inr (Some (demo_item ''a'' Cool 0))" by code_simp
  then show ?thesis using r [of "''b''" demo_memory] r [of "''a''" demo_memory] by (simp add: demo_item_def)
qed

lemma age_pass_settles_witness:
  "\<exists>items. engine_auto_age (\<lambda>xs. xs) py_strip (\<lambda>_. []) (8 * day)
        (run_ops (life_step (\<lambda>xs. xs) py_strip) [L_Store (demo_item ''a'' Cool 0), L_Store (demo_item ''b'' Hot 6)] (new_store False))
      = (Inr 1, demo_memory\<lparr>sd_items := items\<rparr>)
    \<and> list_all2 (\<lambda>i i'. i' = i\<lparr>si_tier := si_tier i'\<rparr> \<and> settles_in (8 * day) i (si_tier i')) (sd_items demo_memory) items"
proof -
  let ?xs = "[L_Store (demo_item ''a'' Cool 0), L_Store (demo_item ''b'' Hot 6)]"
  have s: "run_ops (life_step (\<lambda>xs. xs) py_strip) ?xs (new_store False) = demo_memory" by code_simp
  have ok: "list_all (valid_life_op py_strip) ?xs" using demo_items_ok by (simp add: valid_life_op_def)
  have "length (filter (\<lambda>i. \<not> admits (si_tier i) (8 * day - si_accessed i)) (sd_items demo_memory)) = 1"
    "length (sd_items demo_memory) \<le> 10000" by code_simp+
  then show ?thesis
    using age_pass_settles [OF trim_ok_strip, of "\<lambda>xs. xs", OF refl ok s [symmetric], of "8 * day"] unfolding s by simp
qed

lemma promotion_is_undone_example:
  "map si_tier (sd_items (snd (promote py_strip (\<lambda>_. []) ''a'' demo_memory))) = [Normal, Hot]
   \<and> map si_tier (sd_items (snd (engine_auto_age (\<lambda>xs. xs) py_strip (\<lambda>_. []) (8 * day) (snd (promote py_strip (\<lambda>_. []) ''a'' demo_memory))))) = [Cool, Warm]"
proof -
  have p: "map si_tier (sd_items (snd (promote py_strip (\<lambda>_. []) ''a'' demo_memory))) = [Normal, Hot]" by code_simp
  have e: "map si_tier (sd_items (snd (engine_auto_age (\<lambda>xs. xs) py_strip (\<lambda>_. []) (8 * day) demo_memory))) = [Cool, Warm]" by code_simp
  have "length (sd_items demo_memory) \<le> 10000" "demo_item ''a'' Cool 0 \<in> set (sd_items demo_memory)"
    "tier_rank (target_tier (8 * day) (demo_item ''a'' Cool 0)) \<le> tier_rank (si_tier (demo_item ''a'' Cool 0))"
    "si_id (demo_item ''a'' Cool 0) = ''a''"
    by (simp_all add: demo_memory_def demo_item_def target_tier_def tier_for_age_def day_def)
  then show ?thesis using promotion_is_undone [OF trim_ok_strip demo_memory_ok, of "\<lambda>xs. xs" "demo_item ''a'' Cool 0" "8 * day"] p e by simp
qed

end
