(* ===== verification/Memory_Retrieval.thy ===== *)
theory Memory_Retrieval
  imports Memory_Store
begin

text \<open>
  Search in the memory, \<open>src/agency/memory/sms/retrieval.py\<close>: the tokens of a text and the match
  expression made of them, full-text search with its fallback, the walk over shared tags, and both
  together.

  \<open>sms_env\<close> holds the parameters of \<open>Memory_Store\<close>. A search runs without other coroutines in between;
  its readings of the clock are arguments.
\<close>

section \<open>Tokens\<close>

definition upper_letter :: "char \<Rightarrow> bool" where
  "upper_letter c = (let n = (of_char c :: nat) in 65 \<le> n \<and> n \<le> 90)"

definition lower_letter :: "char \<Rightarrow> bool" where
  "lower_letter c = (let n = (of_char c :: nat) in 97 \<le> n \<and> n \<le> 122)"

definition digit_char :: "char \<Rightarrow> bool" where
  "digit_char c = (let n = (of_char c :: nat) in 48 \<le> n \<and> n \<le> 57)"

definition term_char :: "char \<Rightarrow> bool" where
  "term_char c = (upper_letter c \<or> lower_letter c \<or> digit_char c \<or> c = CHR ''_'')"

text \<open>\<open>findall\<close> of a repeated character class: the maximal runs.\<close>

function runs :: "(char \<Rightarrow> bool) \<Rightarrow> str \<Rightarrow> str list" where
  "runs P [] = []"
| "runs P (c # s) = (if P c then (c # takeWhile P s) # runs P (dropWhile P s) else runs P s)"
  by pat_completeness auto
termination by (relation "measure (\<lambda>(P, s). length s)") (auto simp: le_imp_less_Suc length_dropWhile_le)

text \<open>One match of \<open>[A-Z]?[a-z]+|[A-Z]+(?=[A-Z]|$)|\d+\<close> at the start of a term: a run of capitals
  that something else follows gives back its last letter, and does not match when it is the only one.\<close>

definition camel_match :: "str \<Rightarrow> str" where
  "camel_match s =
     (case s of
        [] \<Rightarrow> []
      | c # r \<Rightarrow>
          if lower_letter c then takeWhile lower_letter s
          else if upper_letter c
          then if r \<noteq> [] \<and> lower_letter (hd r) then c # takeWhile lower_letter r
            else if dropWhile upper_letter s = [] then s else butlast (takeWhile upper_letter s)
          else if digit_char c then takeWhile digit_char s
          else [])"

function split_camel :: "str \<Rightarrow> str list" where
  "split_camel [] = []"
| "split_camel (c # s) = (let m = camel_match (c # s) in
     if m = [] then split_camel s else m # split_camel (drop (length m) (c # s)))"
  by pat_completeness auto
termination
  by (relation "measure length") (auto simp: Suc_diff_le Suc_le_eq)

definition stopwords :: "str list" where
  "stopwords = [''a'', ''an'', ''and'', ''are'', ''as'', ''at'', ''be'', ''by'', ''for'', ''from'', ''has'', ''in'', ''is'', ''it'',
     ''of'', ''on'', ''or'', ''that'', ''the'', ''to'', ''was'', ''were'', ''will'', ''with'']"

definition term_parts :: "str \<Rightarrow> str list" where
  "term_parts t = (if split_camel t = [] then [t] else split_camel t)"

definition token_ok :: "str \<Rightarrow> bool" where
  "token_ok low = (low \<noteq> [] \<and> low \<notin> set stopwords \<and> 2 \<le> length low)"

fun dedup :: "'a list \<Rightarrow> 'a list \<Rightarrow> 'a list" where
  "dedup seen [] = []"
| "dedup seen (t # ts) = (if t \<in> set seen then dedup seen ts else t # dedup (seen @ [t]) ts)"

definition tokenize :: "str \<Rightarrow> str list" where
  "tokenize text = dedup [] (filter token_ok (map py_lower (concat (map term_parts (runs term_char text)))))"

definition quoted_token :: "str \<Rightarrow> str" where
  "quoted_token t = [CHR 0x22] @ t @ [CHR 0x22, CHR ''*'']"

definition match_tokens :: "str \<Rightarrow> str list" where
  "match_tokens query = (if tokenize query = [] then map py_lower (runs term_char query) else tokenize query)"

definition build_fts_match :: "str \<Rightarrow> str" where
  "build_fts_match query = joined '' OR '' (map quoted_token (match_tokens query))"

section \<open>The engine\<close>

record sms_env =
  se_trim :: "str \<Rightarrow> str"
  se_bm25 :: "str \<Rightarrow> index_row list \<Rightarrow> index_row \<Rightarrow> rat option"
  se_hits :: "(rat \<times> sms_item) list \<Rightarrow> (rat \<times> sms_item) list"
  se_rows :: "sms_item list \<Rightarrow> sms_item list"

definition occurs :: "str \<Rightarrow> str \<Rightarrow> bool" where
  "occurs t text = sublist t text"

definition candidates :: "sms_env \<Rightarrow> str option \<Rightarrow> sms_db \<Rightarrow> (memory_error, sms_item list) res" where
  "candidates e agent s =
     (case agent of
        Some a \<Rightarrow> list_by_agent (se_rows e) (se_trim e) a 1000 s
      | None \<Rightarrow> list_all_items (se_rows e) (se_trim e) 1000 s)"

definition token_score :: "str list \<Rightarrow> sms_item \<Rightarrow> nat" where
  "token_score tokens i =
     length (filter (\<lambda>t. occurs t (py_lower (si_content i) @ '' '' @ py_lower (joined '' '' (si_tags i)))) tokens)"

definition by_score :: "str list \<Rightarrow> nat \<Rightarrow> sms_item list \<Rightarrow> sms_item list" where
  "by_score tokens limit is = map snd (take limit (sort_key (\<lambda>(score, i). (- int score, - si_importance i))
     (filter (\<lambda>(score, _). 0 < score) (map (\<lambda>i. (token_score tokens i, i)) is))))"

definition substring_fallback :: "sms_env \<Rightarrow> str \<Rightarrow> str option \<Rightarrow> nat \<Rightarrow> sms_db \<Rightarrow> (memory_error, sms_item list) res" where
  "substring_fallback e query agent limit s =
     (if tokenize query = [] \<and> py_strip query = [] then Inr []
      else case candidates e agent s of Inl err \<Rightarrow> Inl err | Inr is \<Rightarrow> Inr (by_score (tokenize query) limit is))"

definition semantic_hits :: "sms_env \<Rightarrow> str \<Rightarrow> str option \<Rightarrow> nat \<Rightarrow> sms_db \<Rightarrow> (memory_error, sms_item list) res" where
  "semantic_hits e query agent limit s =
     (let expr = build_fts_match query in
      case (if expr = [] then Inr [] else search_fts (se_bm25 e) (se_hits e) (se_trim e) expr agent limit s) of
        Inl err \<Rightarrow> Inl err
      | Inr is \<Rightarrow> if is = [] then substring_fallback e query agent limit s else Inr is)"

definition phrase_first :: "str \<Rightarrow> sms_item list \<Rightarrow> sms_item list" where
  "phrase_first query is = (let q = py_lower (py_strip query); hit = \<lambda>i. occurs q (py_lower (si_content i)) in
     if q \<noteq> [] \<and> length is > 1 then filter hit is @ filter (\<lambda>i. \<not> hit i) is else is)"

definition semantic_search :: "sms_env \<Rightarrow> str \<Rightarrow> str option \<Rightarrow> nat \<Rightarrow> int \<Rightarrow> sms_db \<Rightarrow> (sms_db, memory_error, sms_item list) outcome" where
  "semantic_search e query agent limit now s =
     (case semantic_hits e query agent limit s of
        Inl err \<Rightarrow> (Inl err, s)
      | Inr is \<Rightarrow>
          let rs = phrase_first query is in
          if rs = [] then (Inr [], s)
          else (Inr (take limit (map (\<lambda>i. i\<lparr>si_accessed := now\<rparr>) rs)), snd (touch_many (map si_id rs) now s)))"

definition mentions :: "str \<Rightarrow> sms_item \<Rightarrow> bool" where
  "mentions x i = (occurs x (py_lower (si_content i)) \<or> list_ex (\<lambda>t. occurs x (py_lower t)) (si_tags i))"

definition lower_tags :: "sms_item \<Rightarrow> str set" where
  "lower_tags i = set (map py_lower (si_tags i))"

fun related_items :: "str \<Rightarrow> str set \<Rightarrow> str set \<Rightarrow> sms_item list \<Rightarrow> sms_item list" where
  "related_items x tags seen [] = []"
| "related_items x tags seen (i # is) =
     (if si_id i \<in> seen then related_items x tags seen is
      else if tags \<noteq> {} \<and> lower_tags i \<inter> tags \<noteq> {} \<or> occurs x (py_lower (si_content i))
      then i # related_items x tags (insert (si_id i) seen) is
      else related_items x tags seen is)"

definition graph_order :: "sms_item list \<Rightarrow> sms_item list" where
  "graph_order is = sorted_rev_by si_importance (sort_key (\<lambda>i. (- si_importance i, si_accessed i)) is)"

definition graph_search :: "sms_env \<Rightarrow> str \<Rightarrow> nat \<Rightarrow> str option \<Rightarrow> sms_db \<Rightarrow> (memory_error, sms_item list) res" where
  "graph_search e entity limit agent s =
     (if py_strip entity = [] then Inr []
      else case candidates e agent s of
          Inl err \<Rightarrow> Inl err
        | Inr is \<Rightarrow>
            let x = py_lower (py_strip entity);
                seeds = filter (mentions x) is;
                seed_tags = \<Union> (lower_tags ` set seeds)
            in Inr (take limit (graph_order (related_items x seed_tags (si_id ` set seeds) is))))"

fun merge_items :: "str list \<Rightarrow> sms_item list \<Rightarrow> sms_item list" where
  "merge_items seen [] = []"
| "merge_items seen (i # is) = (if si_id i \<in> set seen then merge_items seen is else i # merge_items (si_id i # seen) is)"

definition merged_order :: "sms_item list \<Rightarrow> sms_item list \<Rightarrow> sms_item list" where
  "merged_order sem is = sort_key (\<lambda>i. (if si_id i \<in> si_id ` set sem then 0 else 1 :: nat, - si_importance i)) is"

definition hybrid_search :: "sms_env \<Rightarrow> str \<Rightarrow> str option \<Rightarrow> nat \<Rightarrow> int \<Rightarrow> int \<Rightarrow> sms_db \<Rightarrow> (sms_db, memory_error, sms_item list) outcome" where
  "hybrid_search e query agent limit now later s =
     (case semantic_search e query agent limit now s of
        (Inl err, s1) \<Rightarrow> (Inl err, s1)
      | (Inr sem, s1) \<Rightarrow>
          (case graph_search e query limit agent s1 of
             Inl err \<Rightarrow> (Inl err, s1)
           | Inr graph \<Rightarrow>
               let merged = take limit (merged_order sem (merge_items [] (sem @ graph)));
                   graph_only = filter (\<lambda>i. si_id i \<notin> si_id ` set sem) merged
               in (Inr merged, snd (touch_many (map si_id graph_only) later s1))))"

section \<open>What a search may find\<close>

definition env_ok :: "sms_env \<Rightarrow> bool" where
  "env_ok e \<longleftrightarrow> trim_ok (se_trim e) \<and> (\<forall>xs. mset (se_hits e xs) = mset xs) \<and> (\<forall>xs. mset (se_rows e xs) = mset xs)"

definition found :: "str option \<Rightarrow> sms_db \<Rightarrow> sms_item list \<Rightarrow> bool" where
  "found agent s is \<longleftrightarrow> set is \<subseteq> set (sd_items s) \<and> distinct (map si_id is) \<and> (\<forall>a. agent = Some a \<longrightarrow> (\<forall>i \<in> set is. si_agent i = a))"

lemma found_perm: "mset is' = mset is \<Longrightarrow> found agent s is' = found agent s is"
  unfolding found_def by (metis mset_eq_imp_distinct_iff mset_map set_mset_mset)

lemma found_take: "found agent s is \<Longrightarrow> found agent s (take n is)"
  by (auto simp: found_def take_map [symmetric] dest: in_set_takeD)

lemma found_filter: "found agent s is \<Longrightarrow> found agent s (filter P is)"
  by (auto simp: found_def distinct_map_filter)

lemma found_Nil [simp]: "found agent s []"
  by (simp add: found_def)

lemma found_read:
  assumes "memory_ok trim s" "found agent s is"
  shows "read_rows trim is = Inr is"
proof -
  have "list_all (item_ok trim) is" using assms by (auto simp: memory_ok_def found_def list_all_iff)
  then show ?thesis by (rule read_rows_ok)
qed

text \<open>The rows of a full-text search: the index names every id at most once.\<close>

lemma distinct_concat_keys:
  assumes "distinct (map key rs)" "\<And>r. distinct (map f (g r))" "\<And>r x. x \<in> set (g r) \<Longrightarrow> f x = key r"
  shows "distinct (map f (concat (map g rs)))"
  using assms(1)
proof (induction rs)
  case (Cons r rs)
  have "f ` set (g r) \<inter> f ` (\<Union>x \<in> set rs. set (g x)) = {}"
    using Cons.prems assms(3) by (force simp: image_iff)
  with Cons assms(2) show ?case by simp
qed simp

lemma hits_found:
  assumes "in_sync s"
  shows "found agent s (map snd (fts_hits bm25 expr agent s))"
proof -
  define g where "g = (\<lambda>r. case bm25 expr (sd_index s) r of
         None \<Rightarrow> []
       | Some score \<Rightarrow> map (Pair score) (filter (\<lambda>i. by_id (fst r) i \<and> (case agent of None \<Rightarrow> True | Some a \<Rightarrow> si_agent i = a)) (sd_items s)))"
  have g: "fts_hits bm25 expr agent s = concat (map g (sd_index s))" by (simp add: fts_hits_def g_def)
  have d: "distinct (map (si_id \<circ> snd) (g r))" for r
    using assms by (cases "bm25 expr (sd_index s) r") (simp_all add: g_def in_sync_def comp_def distinct_map_filter)
  have k: "(si_id \<circ> snd) x = fst r" if "x \<in> set (g r)" for x r
    using that by (cases "bm25 expr (sd_index s) r") (auto simp: g_def by_id_def)
  have "distinct (map si_id (map snd (fts_hits bm25 expr agent s)))"
    using distinct_concat_keys [of fst "sd_index s" "si_id \<circ> snd" g, OF _ d k] assms unfolding g in_sync_def map_map by blast
  moreover have h: "snd x \<in> set (sd_items s) \<and> (\<forall>a. agent = Some a \<longrightarrow> si_agent (snd x) = a)" if "x \<in> set (g r)" for x r
    using that by (cases "bm25 expr (sd_index s) r"; cases agent) (auto simp: g_def)
  have "set (map snd (fts_hits bm25 expr agent s)) \<subseteq> {i \<in> set (sd_items s). \<forall>a. agent = Some a \<longrightarrow> si_agent i = a}"
    unfolding g using h by fastforce
  ultimately show ?thesis unfolding found_def by blast
qed

lemma search_fts_found:
  assumes "env_ok e" "memory_ok (se_trim e) s"
  shows "\<exists>is. search_fts (se_bm25 e) (se_hits e) (se_trim e) expr agent limit s = Inr is \<and> found agent s is \<and> length is \<le> limit"
proof -
  let ?all = "sort_key (\<lambda>(score, i). (score, - si_importance i)) (se_hits e (fts_hits (se_bm25 e) expr agent s))"
  have "mset (map snd ?all) = mset (map snd (fts_hits (se_bm25 e) expr agent s))" using assms(1) by (simp add: env_ok_def)
  then have "found agent s (map snd ?all)" using hits_found assms(2) found_perm unfolding memory_ok_def by blast
  then have f: "found agent s (map snd (take limit ?all))" by (metis found_take take_map)
  then show ?thesis using found_read [OF assms(2) f] by (simp add: search_fts_def)
qed

lemma candidates_found:
  assumes "env_ok e" "memory_ok (se_trim e) s"
  shows "\<exists>is. candidates e agent s = Inr is \<and> found agent s is"
proof -
  have all: "found None s (sd_items s)" using assms(2) by (simp add: found_def memory_ok_def in_sync_def)
  have mine: "found (Some a) s (filter (\<lambda>i. si_agent i = a) (sd_items s))" for a
    using found_filter [OF all] by (simp add: found_def)
  have perm: "mset (ordered (se_rows e) key xs) = mset xs" for key :: "sms_item \<Rightarrow> int" and xs
    using assms(1) by (simp add: ordered_def env_ok_def)
  show ?thesis
  proof (cases agent)
    case None
    let ?is = "take 1000 (ordered (se_rows e) si_accessed (sd_items s))"
    have f: "found None s ?is" using all found_perm [OF perm] found_take by blast
    then show ?thesis using None found_read [OF assms(2) f] by (simp add: candidates_def list_all_items_def)
  next
    case (Some a)
    let ?is = "take 1000 (ordered (se_rows e) (\<lambda>i. - si_accessed i) (filter (\<lambda>i. si_agent i = a) (sd_items s)))"
    have f: "found (Some a) s ?is" using mine found_perm [OF perm] found_take by blast
    then show ?thesis using Some found_read [OF assms(2) f] by (simp add: candidates_def list_by_agent_def)
  qed
qed

lemma by_score_found:
  assumes "found agent s is"
  shows "found agent s (by_score tokens limit is) \<and> length (by_score tokens limit is) \<le> limit"
proof -
  have f: "map snd (filter (\<lambda>(score, _). 0 < score) (map (\<lambda>i. (token_score tokens i, i)) is)) = filter (\<lambda>i. 0 < token_score tokens i) is"
    by (induction "is") auto
  have "mset (map snd (sort_key (\<lambda>(score, i). (- int score, - si_importance i)) (filter (\<lambda>(score, _). 0 < score) (map (\<lambda>i. (token_score tokens i, i)) is))))
      = mset (filter (\<lambda>i. 0 < token_score tokens i) is)" (is "mset (map snd ?xs) = _")
    by (simp only: f [symmetric] mset_map mset_sort)
  then have "found agent s (map snd ?xs)" using found_perm found_filter [OF assms] by blast
  moreover have "by_score tokens limit is = take limit (map snd ?xs)" by (simp only: by_score_def take_map)
  ultimately show ?thesis by (simp only: found_take length_take) simp
qed

lemma semantic_hits_found:
  assumes "env_ok e" "memory_ok (se_trim e) s"
  shows "\<exists>is. semantic_hits e query agent limit s = Inr is \<and> found agent s is \<and> length is \<le> limit"
proof -
  obtain cs where c: "candidates e agent s = Inr cs" "found agent s cs" using candidates_found [OF assms] by blast
  then have fall: "\<exists>is. substring_fallback e query agent limit s = Inr is \<and> found agent s is \<and> length is \<le> limit"
    using by_score_found by (simp add: substring_fallback_def)
  obtain hs where "search_fts (se_bm25 e) (se_hits e) (se_trim e) (build_fts_match query) agent limit s = Inr hs \<and> found agent s hs \<and> length hs \<le> limit"
    using search_fts_found [OF assms] by blast
  with fall show ?thesis by (simp add: semantic_hits_def Let_def)
qed

lemma phrase_first_perm: "mset (phrase_first query is) = mset is"
  using multiset_partition [of "mset is"] by (simp add: phrase_first_def Let_def)

section \<open>What a search changes\<close>

definition forget :: "sms_item \<Rightarrow> sms_item" where
  "forget i = i\<lparr>si_accessed := 0\<rparr>"

lemma forget_simps [simp]: "forget (i\<lparr>si_accessed := t\<rparr>) = forget i" "si_id (forget i) = si_id i" "si_agent (forget i) = si_agent i"
  by (simp_all add: forget_def)

lemma forget_eqD: "forget i = forget j \<Longrightarrow> si_id i = si_id j \<and> si_agent i = si_agent j"
  by (metis forget_simps(2,3))

lemma touched_items:
  "sd_items (snd (touch_many ks now s)) = map (\<lambda>i. if si_id i \<in> set ks then i\<lparr>si_accessed := now\<rparr> else i) (sd_items s)"
  "sd_index (snd (touch_many ks now s)) = sd_index s"
  by (simp_all add: touch_many_def update_rows_def)

lemma touched_ok: "trim_ok trim \<Longrightarrow> memory_ok trim s \<Longrightarrow> memory_ok trim (snd (touch_many ks now s))"
  by (simp add: touch_many_def update_rows_ok)

lemma semantic_result:
  assumes "env_ok e" "memory_ok (se_trim e) s"
  shows "\<exists>is. semantic_search e query agent limit now s = (Inr (map (\<lambda>i. i\<lparr>si_accessed := now\<rparr>) is), snd (touch_many (map si_id is) now s))
    \<and> found agent s is \<and> length is \<le> limit"
proof -
  obtain hs where h: "semantic_hits e query agent limit s = Inr hs" "found agent s hs" "length hs \<le> limit"
    using semantic_hits_found [OF assms] by blast
  let ?is = "phrase_first query hs"
  have "found agent s ?is" using h(2) found_perm [OF phrase_first_perm] by blast
  moreover have "length ?is \<le> limit" using h(3) arg_cong [OF phrase_first_perm [of query hs], of size] by simp
  ultimately show ?thesis
    by (intro exI [of _ ?is]) (simp add: semantic_search_def h(1) Let_def touch_many_def)
qed

lemma related_sub: "set (related_items x tags seen is) \<subseteq> set is"
  by (induction "is" arbitrary: seen) auto

lemma related_distinct: "distinct (map si_id is) \<Longrightarrow> distinct (map si_id (related_items x tags seen is))"
proof (induction "is" arbitrary: seen)
  case (Cons i "is")
  have "si_id i \<notin> si_id ` set (related_items x tags seen' is)" for seen'
    using Cons.prems related_sub [of x tags seen' "is"] by auto
  with Cons show ?case by simp
qed simp

lemma related_found: "found agent s is \<Longrightarrow> found agent s (related_items x tags seen is)"
  unfolding found_def using related_sub [of x tags seen "is"] related_distinct [of "is" x tags seen] by fast

lemma graph_order_perm: "mset (graph_order is) = mset is"
  by (simp add: graph_order_def sorted_rev_by_def)

lemma graph_found:
  assumes "env_ok e" "memory_ok (se_trim e) s"
  shows "\<exists>is. graph_search e query limit agent s = Inr is \<and> found agent s is"
proof -
  obtain cs where c: "candidates e agent s = Inr cs" "found agent s cs" using candidates_found [OF assms] by blast
  have "found agent s (related_items x tags seen cs)" for x tags seen
    by (rule related_found [OF c(2)])
  then have "found agent s (take limit (graph_order (related_items x tags seen cs)))" for x tags seen
    using found_perm [OF graph_order_perm] found_take by blast
  then show ?thesis by (simp add: graph_search_def c(1) Let_def)
qed

lemma merge_ids:
  "distinct (map si_id (merge_items seen is)) \<and> si_id ` set (merge_items seen is) \<inter> set seen = {} \<and> set (merge_items seen is) \<subseteq> set is"
  by (induction seen "is" rule: merge_items.induct) auto

lemma merge_first:
  "distinct (map si_id xs) \<Longrightarrow> si_id ` set xs \<inter> set seen = {} \<Longrightarrow>
    merge_items seen (xs @ ys) = xs @ merge_items (rev (map si_id xs) @ seen) ys"
  by (induction xs arbitrary: seen) auto

lemma sorted_split:
  "sorted_wrt (\<lambda>a b. P b \<longrightarrow> P a) ys \<Longrightarrow> ys = filter P ys @ filter (\<lambda>y. \<not> P y) ys"
proof (induction ys)
  case (Cons y ys)
  then show ?case
  proof (cases "P y")
    case False
    then have "\<forall>b \<in> set ys. \<not> P b" using Cons.prems by auto
    then show ?thesis using False by (simp add: filter_False filter_True)
  qed simp
qed simp

text \<open>The semantic hits come first in the merged list, so the cut at the limit keeps them.\<close>

lemma merged_keeps:
  assumes "distinct (map si_id sem)" "length sem \<le> limit" "set sem \<subseteq> set is" "distinct (map si_id is)"
  shows "set sem \<subseteq> set (take limit (merged_order sem is))"
proof -
  let ?P = "\<lambda>i. si_id i \<in> si_id ` set sem" and ?ys = "merged_order sem is"
  have "sorted (map (\<lambda>i. (if ?P i then 0 else 1 :: nat, - si_importance i)) ?ys)" by (simp add: merged_order_def)
  then have "sorted_wrt (\<lambda>a b. ?P b \<longrightarrow> ?P a) ?ys"
    unfolding sorted_map by (rule sorted_wrt_mono_rel [rotated]) (auto split: if_splits)
  from sorted_split [OF this] have split: "?ys = filter ?P ?ys @ filter (\<lambda>y. \<not> ?P y) ?ys" .
  have d: "distinct (map si_id ?ys)" "set ?ys = set is"
    using assms(4) mset_eq_imp_distinct_iff [of "map si_id ?ys" "map si_id is"] by (simp_all add: merged_order_def)
  have "si_id ` set (filter ?P ?ys) \<subseteq> si_id ` set sem" by auto
  then have "card (si_id ` set (filter ?P ?ys)) \<le> card (si_id ` set sem)" by (intro card_mono) auto
  moreover have "card (si_id ` set (filter ?P ?ys)) = length (filter ?P ?ys)"
    using distinct_card [of "map si_id (filter ?P ?ys)"] d(1) by (simp add: distinct_map_filter)
  moreover have "card (si_id ` set sem) \<le> length sem" by (metis card_length length_map set_map)
  ultimately have "length (filter ?P ?ys) \<le> limit" using assms(2) by linarith
  then have "set (filter ?P ?ys) \<subseteq> set (take limit ?ys)" by (subst split) simp
  moreover have "set sem \<subseteq> set (filter ?P ?ys)" using assms(3) d(2) by auto
  ultimately show ?thesis by blast
qed

text \<open>C21: A hybrid search never fails and returns at most \<open>limit\<close> items, each once, all of the agent it was
  asked for, as they stand in the table. It refreshes the access times of exactly the items it returns and
  changes nothing else, whatever ranks the full-text search gives.\<close>

theorem hybrid_search_correct:
  assumes "env_ok e" "memory_ok (se_trim e) s" "hybrid_search e query agent limit now later s = (r, s')"
  shows "\<exists>is. r = Inr is \<and> length is \<le> limit \<and> distinct (map si_id is)
    \<and> (\<forall>a. agent = Some a \<longrightarrow> (\<forall>i \<in> set is. si_agent i = a))
    \<and> (\<forall>i \<in> set is. forget i \<in> forget ` set (sd_items s))
    \<and> (\<exists>time. (\<forall>k. time k = now \<or> time k = later) \<and> sd_items s' = map (\<lambda>j. if si_id j \<in> si_id ` set is then j\<lparr>si_accessed := time (si_id j)\<rparr> else j) (sd_items s))
    \<and> sd_index s' = sd_index s"
proof -
  obtain hs where sem: "semantic_search e query agent limit now s = (Inr (map (\<lambda>i. i\<lparr>si_accessed := now\<rparr>) hs), snd (touch_many (map si_id hs) now s))"
    and hs: "found agent s hs" "length hs \<le> limit"
    using semantic_result [OF assms(1,2)] by blast
  define s1 where "s1 = snd (touch_many (map si_id hs) now s)"
  have ok1: "memory_ok (se_trim e) s1" using touched_ok assms(1,2) by (simp add: s1_def env_ok_def)
  obtain gs where graph: "graph_search e query limit agent s1 = Inr gs" and gs: "found agent s1 gs"
    using graph_found [OF assms(1) ok1] by blast
  define sem where "sem = map (\<lambda>i. i\<lparr>si_accessed := now\<rparr>) hs"
  define all where "all = merge_items [] (sem @ gs)"
  define out where "out = take limit (merged_order sem all)"
  define rest where "rest = filter (\<lambda>i. si_id i \<notin> si_id ` set sem) out"
  have ids: "si_id ` set sem = si_id ` set hs" "map si_id sem = map si_id hs" by (simp_all add: sem_def image_image)
  have run: "r = Inr out" "s' = snd (touch_many (map si_id rest) later s1)"
    using assms(3) sem graph by (simp_all add: hybrid_search_def s1_def sem_def all_def out_def rest_def Let_def)
  have d: "distinct (map si_id all)" "set all \<subseteq> set sem \<union> set gs" using merge_ids [of "[]" "sem @ gs"] by (auto simp: all_def)
  have "distinct (map si_id sem)" using hs(1) by (simp add: ids found_def)
  from merge_first [OF this, of "[]" gs] have "set sem \<subseteq> set all" by (auto simp: all_def)
  from merged_keeps [OF \<open>distinct (map si_id sem)\<close> _ this d(1), of limit] have kept: "set sem \<subseteq> set out"
    using hs(2) by (simp add: out_def sem_def)
  have sub: "set out \<subseteq> set sem \<union> set gs" using d(2) set_take_subset [of limit "merged_order sem all"] by (auto simp: out_def merged_order_def)
  have dist: "distinct (map si_id out)"
    using d(1) mset_eq_imp_distinct_iff [of "map si_id (merged_order sem all)" "map si_id all"]
    by (simp add: out_def merged_order_def take_map [symmetric])
  have rows: "forget i \<in> forget ` set (sd_items s)" if "i \<in> set out" for i
  proof -
    have "map forget (sd_items s1) = map forget (sd_items s)" by (simp add: s1_def touched_items)
    then have "forget ` set (sd_items s1) = forget ` set (sd_items s)" by (metis set_map)
    moreover have "forget ` set sem = forget ` set hs" by (simp add: sem_def image_image)
    ultimately show ?thesis using that sub hs(1) gs unfolding found_def by (metis UnE image_eqI image_mono subsetD)
  qed
  have agents: "si_agent i = a" if "agent = Some a" "i \<in> set out" for a i
    using that sub hs(1) gs by (auto simp: found_def sem_def)
  have ret: "si_id ` set out = si_id ` set hs \<union> si_id ` set rest" using kept by (auto simp: rest_def ids(1) [symmetric])
  define time where "time = (\<lambda>k. if k \<in> si_id ` set rest then later else now)"
  have "sd_items s' = map (\<lambda>j. if si_id j \<in> si_id ` set out then j\<lparr>si_accessed := time (si_id j)\<rparr> else j) (sd_items s)"
    unfolding run(2) touched_items s1_def map_map by (rule map_cong) (auto simp: ret time_def)
  moreover have "sd_index s' = sd_index s" by (simp add: run(2) s1_def touched_items)
  moreover have "\<forall>k. time k = now \<or> time k = later" by (simp add: time_def)
  ultimately show ?thesis using run(1) dist rows agents by (intro exI [of _ out]) (auto simp: out_def)
qed

section \<open>The walk over tags\<close>

text \<open>The second sort is stable and repeats the first: among equally important items the ones accessed
  longest ago come first.\<close>

lemma graph_order_eq: "graph_order is = sort_key (\<lambda>i. (- si_importance i, si_accessed i)) is"
proof -
  let ?ys = "sort_key (\<lambda>i. (- si_importance i, si_accessed i)) is"
  have "sorted_wrt (\<lambda>a b. (- si_importance a, si_accessed a) \<le> (- si_importance b, si_accessed b)) ?ys"
    using sorted_sort_key [of "\<lambda>i. (- si_importance i, si_accessed i)" "is"] by (simp only: sorted_map)
  then have "sorted_wrt (\<lambda>a b. si_importance b \<le> si_importance a) ?ys"
    by (rule sorted_wrt_mono_rel [rotated]) auto
  then have "sorted (map si_importance (rev ?ys))" by (simp add: sorted_map sorted_wrt_rev)
  then have "sort_key si_importance (rev ?ys) = rev ?ys" by (rule sort_key_id_if_sorted)
  then show ?thesis by (simp add: graph_order_def sorted_rev_by_def)
qed

lemma related_reason:
  "i \<in> set (related_items x tags seen is) \<Longrightarrow>
    i \<in> set is \<and> si_id i \<notin> seen \<and> (lower_tags i \<inter> tags \<noteq> {} \<or> occurs x (py_lower (si_content i)))"
  by (induction "is" arbitrary: seen) (auto split: if_splits)

lemma graph_search_reason:
  assumes "env_ok e" "memory_ok (se_trim e) s" "graph_search e entity limit agent s = Inr is" "i \<in> set is"
  shows "\<not> mentions (py_lower (py_strip entity)) i
    \<and> (\<exists>j \<in> set (sd_items s). mentions (py_lower (py_strip entity)) j \<and> lower_tags i \<inter> lower_tags j \<noteq> {})"
proof -
  let ?x = "py_lower (py_strip entity)"
  obtain cs where c: "candidates e agent s = Inr cs" "found agent s cs" using candidates_found [OF assms(1,2)] by blast
  let ?seeds = "filter (mentions ?x) cs"
  have "i \<in> set (related_items ?x (\<Union> (lower_tags ` set ?seeds)) (si_id ` set ?seeds) cs)"
    using assms(3,4) c(1) by (auto simp: graph_search_def Let_def graph_order_eq split: if_splits dest!: in_set_takeD)
  from related_reason [OF this] have i: "i \<in> set cs" "si_id i \<notin> si_id ` set ?seeds"
    "lower_tags i \<inter> \<Union> (lower_tags ` set ?seeds) \<noteq> {} \<or> occurs ?x (py_lower (si_content i))" by auto
  then have no: "\<not> mentions ?x i" by auto
  with i(3) have "\<exists>j \<in> set ?seeds. lower_tags i \<inter> lower_tags j \<noteq> {}" by (auto simp: mentions_def)
  with no c(2) show ?thesis by (auto simp: found_def)
qed

section \<open>Tokens are safe\<close>

lemma runs_chars: "t \<in> set (runs P s) \<Longrightarrow> t \<noteq> [] \<and> (\<forall>c \<in> set t. P c)"
proof (induction P s rule: runs.induct)
  case (2 P c s)
  show ?case
  proof (cases "P c")
    case True
    then have "t = c # takeWhile P s \<or> t \<in> set (runs P (dropWhile P s))" using "2.prems" by simp
    then show ?thesis
    proof
      assume t: "t = c # takeWhile P s"
      have "\<forall>x \<in> set (takeWhile P s). P x" using set_takeWhileD by fast
      then show ?thesis unfolding t using True by simp
    next
      assume "t \<in> set (runs P (dropWhile P s))"
      then show ?thesis by (rule "2.IH"(1) [OF True])
    qed
  next
    case False
    then show ?thesis using "2.IH"(2) [OF False] "2.prems" by simp
  qed
qed simp

lemma runs_none: "runs P s = [] \<longleftrightarrow> (\<forall>c \<in> set s. \<not> P c)"
  by (induction P s rule: runs.induct) auto

lemma camel_match_prefix: "set (camel_match s) \<subseteq> set s"
proof -
  have t: "set (takeWhile P xs) \<subseteq> set xs" for P and xs :: str using set_takeWhileD by fast
  have "set (butlast (takeWhile P xs)) \<subseteq> set xs" for P and xs :: str using t in_set_butlastD by fast
  with t [of lower_letter s] t [of lower_letter "tl s"] t [of digit_char s] show ?thesis
    by (cases s) (simp_all add: camel_match_def subset_insertI2)
qed

lemma split_camel_chars: "t \<in> set (split_camel s) \<Longrightarrow> t \<noteq> [] \<and> set t \<subseteq> set s"
proof (induction s rule: split_camel.induct)
  case (2 c s)
  let ?m = "camel_match (c # s)"
  show ?case
  proof (cases "?m = []")
    case True
    then show ?thesis using 2 by (auto simp: Let_def)
  next
    case False
    then have "t = ?m \<or> t \<in> set (split_camel (drop (length ?m) (c # s)))" using "2.prems" by (simp add: Let_def)
    then show ?thesis using "2.IH"(2) [OF refl False] False camel_match_prefix set_drop_subset by fast
  qed
qed simp

lemma dedup_set: "set (dedup seen ts) = set ts - set seen"
  by (induction ts arbitrary: seen) auto

lemma lower_term: "term_char c \<Longrightarrow> term_char (py_lower_char c) \<and> py_lower_char (py_lower_char c) = py_lower_char c"
  by (auto simp: term_char_def upper_letter_def lower_letter_def digit_char_def py_lower_char_def Let_def)

definition safe_token :: "str \<Rightarrow> bool" where
  "safe_token t \<longleftrightarrow> t \<noteq> [] \<and> (\<forall>c \<in> set t. term_char c \<and> py_lower_char c = c)"

lemma lower_run_safe: "t \<noteq> [] \<Longrightarrow> \<forall>c \<in> set t. term_char c \<Longrightarrow> safe_token (py_lower t)"
  using lower_term by (auto simp: safe_token_def py_lower_def)

lemma token_safe: "t \<in> set (tokenize text) \<Longrightarrow> safe_token t"
proof -
  assume "t \<in> set (tokenize text)"
  then obtain r p where r: "r \<in> set (runs term_char text)" "p \<in> set (term_parts r)" "t = py_lower p"
    by (auto simp: tokenize_def dedup_set)
  then have "p \<noteq> [] \<and> (\<forall>c \<in> set p. term_char c)"
    using runs_chars [OF r(1)] split_camel_chars [of p r] by (auto simp: term_parts_def split: if_splits)
  then show ?thesis using r(3) lower_run_safe by blast
qed

text \<open>C24: The match expression is safe for the full-text search: it is a disjunction of quoted prefixes, each
  of them a lower-case word of letters, digits and underscores, so no character of the query can end a
  quotation; and it is empty exactly when the query has no such character.\<close>

theorem match_expression_safe:
  "build_fts_match query = joined '' OR '' (map quoted_token (match_tokens query))
   \<and> list_all safe_token (match_tokens query)
   \<and> (build_fts_match query = [] \<longleftrightarrow> list_all (\<lambda>c. \<not> term_char c) query)"
proof -
  have safe: "list_all safe_token (match_tokens query)"
    using token_safe runs_chars [of _ term_char query] lower_run_safe by (auto simp: match_tokens_def list_all_iff)
  have "joined sep (map quoted_token ts) = [] \<longleftrightarrow> ts = []" for sep ts
    by (cases "(sep, map quoted_token ts)" rule: joined.cases) (auto simp: quoted_token_def)
  moreover have "match_tokens query = [] \<longleftrightarrow> runs term_char query = []"
    by (auto simp: match_tokens_def tokenize_def)
  ultimately show ?thesis using safe by (simp add: build_fts_match_def runs_none list_all_iff)
qed

text \<open>A run of capitals before a digit or an underscore loses its last letter.\<close>

lemma capitals_lose_a_letter: "tokenize ''GPT4 API_KEY'' = [''gp'', ''ap'', ''key'']"
  by code_simp

section \<open>An instance\<close>

definition demo_env :: sms_env where
  "demo_env = \<lparr>se_trim = py_strip, se_bm25 = \<lambda>_ _ _. Some 0, se_hits = \<lambda>xs. xs, se_rows = \<lambda>xs. xs\<rparr>"

lemma hybrid_search_correct_witness:
  "\<exists>is. fst (hybrid_search demo_env ''note'' (Some ''ann'') 1 100 200 demo_memory) = Inr is \<and> length is \<le> 1 \<and> (\<forall>i \<in> set is. si_agent i = ''ann'')"
proof -
  have e: "env_ok demo_env" by (simp add: env_ok_def demo_env_def trim_ok_strip)
  have m: "memory_ok (se_trim demo_env) demo_memory" by (simp add: demo_env_def demo_memory_ok)
  from hybrid_search_correct [OF e m surjective_pairing, of "''note''" "Some ''ann''" 1 100 200] show ?thesis
    by (elim exE conjE) (rule exI, intro conjI, assumption+, simp)
qed

end
