(* ===== verification/Memory_Compress.thy ===== *)
theory Memory_Compress
  imports Memory_Retrieval
begin

text \<open>
  The compression of a context, \<open>src/agency/memory/sms/cpr.py\<close>: sentences are scored by the frequency
  of their words, the best ones within a budget of tokens are kept, and what is still too long is cut.

  A score divides by the square root of the number of words; the model keeps its square, a rational,
  which orders the sentences in the same way. \<open>ell\<close> is the ellipsis character.
\<close>

section \<open>Text\<close>

definition estimate_tokens :: "str \<Rightarrow> nat" where
  "estimate_tokens text = (if text = [] then 0 else max 1 ((length text + 3) div 4))"

definition sentence_end :: "char \<Rightarrow> bool" where
  "sentence_end c = (c = CHR ''.'' \<or> c = CHR ''!'' \<or> c = CHR ''?'')"

text \<open>\<open>re.split\<close> at \<open>(?<=[.!?])\s+|\n+\<close>: whether the character before ends a sentence, the fragment so
  far and the rest.\<close>

function split_text :: "bool \<Rightarrow> str \<Rightarrow> str \<Rightarrow> str list" where
  "split_text after cur [] = [cur]"
| "split_text after cur (c # s) =
     (if after \<and> py_space c then cur # split_text False [] (dropWhile py_space s)
      else if c = newline then cur # split_text False [] (dropWhile (\<lambda>d. d = newline) s)
      else split_text (sentence_end c) (cur @ [c]) s)"
  by pat_completeness auto
termination
  by (relation "measure (\<lambda>(a, cur, s). length s)") (auto simp: le_imp_less_Suc length_dropWhile_le)

definition split_sentences :: "str \<Rightarrow> str list" where
  "split_sentences text = filter (\<lambda>f. f \<noteq> []) (map py_strip (split_text False [] (py_strip text)))"

definition compress_stopwords :: "str list" where
  "compress_stopwords = [''a'', ''an'', ''and'', ''are'', ''as'', ''at'', ''be'', ''been'', ''but'', ''by'', ''can'', ''could'', ''did'',
     ''do'', ''does'', ''for'', ''from'', ''had'', ''has'', ''have'', ''he'', ''her'', ''here'', ''him'', ''his'', ''how'', ''i'', ''if'',
     ''in'', ''into'', ''is'', ''it'', ''its'', ''may'', ''me'', ''might'', ''more'', ''most'', ''must'', ''my'', ''no'', ''not'', ''of'',
     ''on'', ''or'', ''our'', ''out'', ''over'', ''she'', ''should'', ''so'', ''some'', ''than'', ''that'', ''the'', ''their'', ''them'',
     ''then'', ''there'', ''these'', ''they'', ''this'', ''those'', ''to'', ''up'', ''us'', ''was'', ''we'', ''were'', ''what'', ''when'',
     ''where'', ''which'', ''while'', ''who'', ''why'', ''will'', ''with'', ''would'', ''you'', ''your'']"

definition word_char :: "char \<Rightarrow> bool" where
  "word_char c = (upper_letter c \<or> lower_letter c \<or> digit_char c \<or> c = CHR 0x27)"

definition content_words :: "str \<Rightarrow> str list" where
  "content_words text = filter (\<lambda>w. w \<notin> set compress_stopwords) (map py_lower (runs word_char text))"

section \<open>The compressor\<close>

type_synonym ranked = "nat \<times> str \<times> rat"

definition sentence_score :: "str list \<Rightarrow> str \<Rightarrow> rat" where
  "sentence_score all sentence =
     (let words = content_words sentence; peak = fold max (map (count_list all) all) 0 in
      if words = [] then 0
      else of_nat (sum_list (map (count_list all) words)) ^ 2 / (of_nat (length words) * of_nat peak ^ 2))"

definition rank_sentences :: "str \<Rightarrow> ranked list" where
  "rank_sentences text =
     (let sentences = split_sentences text; all = content_words text in
      if length sentences \<le> 1 then map (\<lambda>s. (0, s, 1)) sentences
      else if all = [] then map (\<lambda>(i, s). (i, s, 0)) (enumerate 0 sentences)
      else map (\<lambda>(i, s). (i, s, sentence_score all s)) (enumerate 0 sentences))"

definition best_first :: "ranked list \<Rightarrow> ranked list" where
  "best_first rs = sorted_rev_by (\<lambda>e. snd (snd e)) rs"

definition extract_key_points :: "str \<Rightarrow> int \<Rightarrow> str list" where
  "extract_key_points text max_points =
     (if max_points < 1 then []
      else map (\<lambda>e. fst (snd e)) (sort_key fst (take (nat max_points) (best_first (rank_sentences text)))))"

definition rfind_space :: "str \<Rightarrow> nat" where
  "rfind_space s = length s - length (takeWhile (\<lambda>c. c \<noteq> CHR '' '') (rev s))"

text \<open>\<open>_truncate\<close>; \<open>rfind_space\<close> is one more than \<open>rfind\<close>, and zero without a space.\<close>

definition truncate_text :: "char \<Rightarrow> str \<Rightarrow> nat \<Rightarrow> str" where
  "truncate_text ell text max_tokens =
     (if length text \<le> max_tokens * 4 then text
      else let clipped = take (max_tokens * 4) text;
          cut = (if rfind_space clipped > 1 then take (rfind_space clipped - 1) clipped else clipped)
        in py_rstrip cut @ [CHR '' '', ell])"

fun select_sentences :: "nat \<Rightarrow> nat \<Rightarrow> (nat \<times> str) list \<Rightarrow> ranked list \<Rightarrow> (nat \<times> str) list" where
  "select_sentences target used sel [] = sel"
| "select_sentences target used sel ((i, s, score) # rs) =
     (if sel \<noteq> [] \<and> used + estimate_tokens s > target then select_sentences target used sel rs
      else if used + estimate_tokens s \<ge> target then sel @ [(i, s)]
      else select_sentences target (used + estimate_tokens s) (sel @ [(i, s)]) rs)"

datatype compress_error = Bad_Target | Bad_Budget

definition summarize :: "char \<Rightarrow> str \<Rightarrow> int \<Rightarrow> (compress_error, str) res" where
  "summarize ell text target =
     (if target < 1 then Inl Bad_Target
      else let t = py_strip text; n = nat target in
        if t = [] \<or> estimate_tokens t \<le> n then Inr t
        else let sel = select_sentences n 0 [] (best_first (rank_sentences t)) in
          if sel = [] then Inr (truncate_text ell t n)
          else let summary = joined '' '' (map snd (sort_key fst sel)) in
            Inr (if estimate_tokens summary > n then truncate_text ell summary n else summary))"

definition mk_compressor :: "int \<Rightarrow> (compress_error, int) res" where
  "mk_compressor max_tokens = (if max_tokens < 1 then Inl Bad_Budget else Inr max_tokens)"

datatype compress_input = One_Text str | Parts "str list"

definition combined :: "compress_input \<Rightarrow> str" where
  "combined cx = (case cx of One_Text t \<Rightarrow> py_strip t
     | Parts ps \<Rightarrow> joined [newline] (map py_strip (filter (\<lambda>p. py_strip p \<noteq> []) ps)))"

definition compress :: "char \<Rightarrow> int \<Rightarrow> compress_input \<Rightarrow> int option \<Rightarrow> (compress_error, str) res" where
  "compress ell own cx max_tokens =
     (let budget = (case max_tokens of None \<Rightarrow> own | Some b \<Rightarrow> b) in
      if budget < 1 then Inl Bad_Budget
      else let t = combined cx in
        if int (estimate_tokens t) \<le> budget then Inr t else summarize ell t budget)"

section \<open>Key points\<close>

lemma rank_sentences_facts:
  "map (\<lambda>e. fst (snd e)) (rank_sentences text) = split_sentences text"
  "map fst (rank_sentences text) = [0..<length (split_sentences text)]"
proof -
  have en: "map snd (enumerate 0 xs) = xs" "map fst (enumerate 0 xs) = [0..<length xs]" for xs :: "str list" by simp_all
  show "map (\<lambda>e. fst (snd e)) (rank_sentences text) = split_sentences text"
    using en(1) [of "split_sentences text"] by (simp add: rank_sentences_def Let_def comp_def case_prod_beta)
  have "length (split_sentences text) \<le> 1 \<Longrightarrow> map (\<lambda>_. 0) (split_sentences text) = [0..<length (split_sentences text)]"
    by (cases "split_sentences text") auto
  then show "map fst (rank_sentences text) = [0..<length (split_sentences text)]"
    using en(2) [of "split_sentences text"] by (simp add: rank_sentences_def Let_def comp_def case_prod_beta)
qed

lemma best_first_perm: "mset (best_first rs) = mset rs"
  by (simp add: best_first_def sorted_rev_by_def)

text \<open>Taking the best and putting them back in order leaves a part of the list.\<close>

lemma best_in_order:
  fixes rs :: "ranked list"
  assumes "sorted (map fst rs)" "distinct (map fst rs)"
  shows "sort_key fst (take n (best_first rs)) = filter (\<lambda>e. e \<in> set (take n (best_first rs))) rs"
proof -
  let ?best = "take n (best_first rs)"
  have d: "distinct (map fst (best_first rs))" using assms(2) mset_eq_imp_distinct_iff [of "map fst (best_first rs)" "map fst rs"] best_first_perm
    by (metis mset_map)
  have sub: "set ?best \<subseteq> set rs" using set_take_subset [of n "best_first rs"] by (metis best_first_perm set_mset_mset)
  have "inj_on fst (set rs)" using assms(2) by (simp add: distinct_map)
  moreover have "set (sort_key fst ?best) \<union> set (filter (\<lambda>e. e \<in> set ?best) rs) \<subseteq> set rs" using sub by auto
  ultimately have inj: "inj_on fst (set (sort_key fst ?best) \<union> set (filter (\<lambda>e. e \<in> set ?best) rs))" by (rule inj_on_subset)
  have dt: "distinct (map fst ?best)" using d by (simp add: take_map [symmetric])
  have "distinct (map fst (sort_key fst ?best))"
    using dt mset_eq_imp_distinct_iff [of "map fst (sort_key fst ?best)" "map fst ?best"] by simp
  moreover have "sorted (map fst (filter (\<lambda>e. e \<in> set ?best) rs))" using assms(1) by (rule sorted_filter)
  moreover have "distinct (map fst (filter (\<lambda>e. e \<in> set ?best) rs))" using assms(2) by (rule distinct_map_filter)
  moreover have "set (sort_key fst ?best) = set (filter (\<lambda>e. e \<in> set ?best) rs)" using sub by auto
  ultimately show ?thesis using map_sorted_distinct_set_unique [OF inj] by simp
qed

lemma best_beats_rest:
  assumes "a \<in> set (take n (best_first rs))" "b \<in> set rs" "b \<notin> set (take n (best_first rs))"
  shows "snd (snd b) \<le> snd (snd a)"
proof -
  have "b \<in> set (drop n (best_first rs))"
    using assms(2,3) best_first_perm by (metis UnE append_take_drop_id set_append set_mset_mset)
  moreover have "sorted_wrt (\<lambda>a b. snd (snd b) \<le> snd (snd a)) (take n (best_first rs) @ drop n (best_first rs))"
    using sorted_rev_by_desc [of "\<lambda>e. snd (snd e)" rs] by (simp add: best_first_def)
  ultimately show ?thesis using assms(1) unfolding sorted_wrt_append by blast
qed

text \<open>C23: The key points are the best sentences, in the order of the document. The ranking scores every
  sentence of the text, in order; and there is a choice of exactly \<open>max_points\<close> of them (none when it is
  not positive), or of all when there are fewer, such that the result lists the chosen ones as
  they follow each other in the text, and no sentence left out scores higher than a chosen one.\<close>

theorem key_points_correct:
  "map (\<lambda>e. fst (snd e)) (rank_sentences text) = split_sentences text
    \<and> (\<exists>keep. extract_key_points text max_points = map (\<lambda>e. fst (snd e)) (filter keep (rank_sentences text))
    \<and> length (filter keep (rank_sentences text)) = min (nat max_points) (length (split_sentences text))
    \<and> (\<forall>a \<in> set (rank_sentences text). \<forall>b \<in> set (rank_sentences text). keep a \<and> \<not> keep b \<longrightarrow> snd (snd b) \<le> snd (snd a)))"
proof -
  let ?rs = "rank_sentences text" and ?best = "take (nat max_points) (best_first (rank_sentences text))"
  have order: "sorted (map fst ?rs)" "distinct (map fst ?rs)" by (simp_all add: rank_sentences_facts)
  have eq: "sort_key fst ?best = filter (\<lambda>e. e \<in> set ?best) ?rs" by (rule best_in_order [OF order])
  have "length (best_first ?rs) = length (split_sentences text)"
    using arg_cong [OF rank_sentences_facts(1) [of "text"], of length] by (simp add: best_first_def)
  then have "length (filter (\<lambda>e. e \<in> set ?best) ?rs) = min (nat max_points) (length (split_sentences text))"
    using arg_cong [OF eq, of length] by (simp add: min.commute)
  moreover have "\<forall>a \<in> set ?rs. \<forall>b \<in> set ?rs. a \<in> set ?best \<and> b \<notin> set ?best \<longrightarrow> snd (snd b) \<le> snd (snd a)"
    using best_beats_rest by blast
  moreover have "extract_key_points text max_points = map (\<lambda>e. fst (snd e)) (filter (\<lambda>e. e \<in> set ?best) ?rs)"
    using eq by (simp add: extract_key_points_def)
  ultimately show ?thesis by (intro conjI rank_sentences_facts exI [of _ "\<lambda>e. e \<in> set ?best"]) simp_all
qed

section \<open>Budgets\<close>

lemma truncate_bound: "estimate_tokens (truncate_text ell text n) \<le> n + 1"
proof -
  have "length (py_rstrip x) \<le> length x" for x using prefix_length_le [OF py_rstrip_prefix] .
  moreover have "length (let clipped = take (n * 4) text in if rfind_space clipped > 1 then take (rfind_space clipped - 1) clipped else clipped) \<le> n * 4"
    by (simp add: Let_def min_le_iff_disj)
  ultimately have "length (py_rstrip (let clipped = take (n * 4) text in if rfind_space clipped > 1 then take (rfind_space clipped - 1) clipped else clipped)) \<le> n * 4"
    using le_trans by blast
  then show ?thesis by (auto simp: truncate_text_def estimate_tokens_def Let_def)
qed

lemma summarize_bound:
  assumes "1 \<le> target"
  shows "\<exists>out. summarize ell text target = Inr out \<and> estimate_tokens out \<le> nat target + 1
    \<and> (estimate_tokens (py_strip text) \<le> nat target \<longrightarrow> out = py_strip text)"
  using assms truncate_bound [of ell _ "nat target"] by (auto simp: summarize_def Let_def estimate_tokens_def [of "[]"])

text \<open>A compression with a positive budget returns; a context that fits comes back stripped and joined;
  and the result has at most one token above the budget.\<close>

lemma compress_near_budget:
  assumes "1 \<le> (case max_tokens of None \<Rightarrow> own | Some b \<Rightarrow> b)"
  shows "\<exists>out. compress ell own cx max_tokens = Inr out
    \<and> int (estimate_tokens out) \<le> (case max_tokens of None \<Rightarrow> own | Some b \<Rightarrow> b) + 1
    \<and> (int (estimate_tokens (combined cx)) \<le> (case max_tokens of None \<Rightarrow> own | Some b \<Rightarrow> b) \<longrightarrow> out = combined cx)"
  using assms summarize_bound [of "case max_tokens of None \<Rightarrow> own | Some b \<Rightarrow> b" ell "combined cx"]
  by (auto simp: compress_def Let_def)

text \<open>The one token is needed: the ellipsis is appended after the cut.\<close>

lemma truncation_overshoots: "estimate_tokens (truncate_text ell (replicate (4 * n + 1) CHR ''x'') n) = n + 1"
proof -
  have "py_rstrip (replicate k CHR ''x'') = replicate k CHR ''x''" for k
    by (rule py_rstrip_fix) (cases k; simp add: last_replicate py_space_def Let_def)
  moreover have "rfind_space (replicate k CHR ''x'') = 0" for k
    by (simp add: rfind_space_def takeWhile_eq_all_conv [THEN iffD2])
  moreover have "take (n * 4) (replicate (4 * n + 1) CHR ''x'') = replicate (4 * n) CHR ''x''" by (simp only: take_replicate) simp
  ultimately show ?thesis by (simp only: truncate_text_def Let_def) (simp add: estimate_tokens_def)
qed

section \<open>Instances\<close>

definition demo_text :: str where
  "demo_text = ''Memory tiers age. The weather is fine. Memory tiers keep memory small.''"

lemma key_points_correct_witness:
  "extract_key_points demo_text 1 = [''Memory tiers keep memory small.'']
   \<and> (\<exists>keep. extract_key_points demo_text 1 = map (\<lambda>e. fst (snd e)) (filter keep (rank_sentences demo_text)))"
proof -
  have "extract_key_points demo_text 1 = [''Memory tiers keep memory small.'']" by code_simp
  moreover obtain keep where "extract_key_points demo_text 1 = map (\<lambda>e. fst (snd e)) (filter keep (rank_sentences demo_text))"
    using key_points_correct [of demo_text 1] by auto
  ultimately show ?thesis by blast
qed

lemma compress_near_budget_example:
  "\<exists>out. compress CHR ''~'' 1024 (One_Text demo_text) (Some 5) = Inr out \<and> estimate_tokens out \<le> 6"
  using compress_near_budget [of 1024 "Some 5" "CHR ''~''" "One_Text demo_text"] by auto

end
