(* ===== verification/Memory_Secrets.thy ===== *)
theory Memory_Secrets
  imports Agency_Prelude "HOL-Library.List_Lexorder" "HOL-Library.Char_ord"
begin

text \<open>
  The secrets of the agents, \<open>src/agency/memory/sms/secrets.py\<close>: values encrypted at rest, read by their
  owner or by an agent on the secret's list.

  Fernet is a parameter: encryption under a key with a random number, decryption, and which keys it
  accepts. A JSON column is the list its text denotes. An object lives until the process restarts; the
  database in memory is gone when it is closed. Random ids and readings of the clock are arguments.
\<close>

section \<open>Model\<close>

record fernet =
  fe_encrypt :: "str \<Rightarrow> nat \<Rightarrow> str \<Rightarrow> str"
  fe_decrypt :: "str \<Rightarrow> str \<Rightarrow> str option"
  fe_key_ok :: "str \<Rightarrow> bool"

record vault_config =
  vc_memory :: bool
  vc_explicit :: "str option"
  vc_env :: "str option"
  vc_path :: bool

definition mk_vault_config :: "bool \<Rightarrow> str option \<Rightarrow> str option \<Rightarrow> bool \<Rightarrow> vault_config" where
  "mk_vault_config in_memory explicit env path_given =
     \<lparr>vc_memory = in_memory, vc_explicit = explicit, vc_env = env, vc_path = (path_given \<or> \<not> in_memory)\<rparr>"

record secret_row =
  sw_id :: str
  sw_agent :: str
  sw_key :: str
  sw_cipher :: str
  sw_acl :: "str list"
  sw_created :: int
  sw_rotated :: "int option"
  sw_revoked :: bool

record vault =
  va_rows :: "secret_row list"
  va_fernet :: "str option"
  va_file :: "str option"

datatype secret_error = Bad_Key | No_Secret

definition new_vault :: "str option \<Rightarrow> vault" where
  "new_vault key_file = \<lparr>va_rows = [], va_fernet = None, va_file = key_file\<rparr>"

definition close_vault :: "vault_config \<Rightarrow> vault \<Rightarrow> vault" where
  "close_vault cf v = (if vc_memory cf then v\<lparr>va_rows := []\<rparr> else v)"

definition restart_vault :: "vault_config \<Rightarrow> vault \<Rightarrow> vault" where
  "restart_vault cf v = (close_vault cf v)\<lparr>va_fernet := None\<rparr>"

text \<open>\<open>bytes.strip\<close>.\<close>

definition bytes_space :: "char \<Rightarrow> bool" where
  "bytes_space c = (let n = (of_char c :: nat) in 9 \<le> n \<and> n \<le> 13 \<or> n = 32)"

definition bytes_strip :: "str \<Rightarrow> str" where
  "bytes_strip s = rev (dropWhile bytes_space (rev (dropWhile bytes_space s)))"

definition configured_key :: "vault_config \<Rightarrow> vault \<Rightarrow> str option" where
  "configured_key cf v =
     (case vc_explicit cf of
        Some k \<Rightarrow> Some k
      | None \<Rightarrow> (case vc_env cf of
            Some k \<Rightarrow> Some k
          | None \<Rightarrow> if vc_path cf then map_option bytes_strip (va_file v) else None))"

definition vault_cipher :: "fernet \<Rightarrow> vault_config \<Rightarrow> str \<Rightarrow> vault \<Rightarrow> (vault, secret_error, str) outcome" where
  "vault_cipher fe cf fresh v =
     (case va_fernet v of
        Some k \<Rightarrow> (Inr k, v)
      | None \<Rightarrow>
          let k = (case configured_key cf v of Some k \<Rightarrow> k | None \<Rightarrow> fresh);
              v' = (if configured_key cf v = None \<and> vc_path cf then v\<lparr>va_file := Some fresh\<rparr> else v)
          in if fe_key_ok fe k then (Inr k, v'\<lparr>va_fernet := Some k\<rparr>) else (Inl Bad_Key, v'))"

definition is_authorized :: "str \<Rightarrow> str list \<Rightarrow> str \<Rightarrow> bool" where
  "is_authorized owner acl requester = (requester = owner \<or> requester \<in> set acl)"

definition secret_at :: "str \<Rightarrow> str \<Rightarrow> secret_row \<Rightarrow> bool" where
  "secret_at agent key r = (sw_agent r = agent \<and> sw_key r = key)"

definition change_secret :: "str \<Rightarrow> str \<Rightarrow> (secret_row \<Rightarrow> secret_row) \<Rightarrow> vault \<Rightarrow> vault" where
  "change_secret agent key f v = v\<lparr>va_rows := map (\<lambda>r. if secret_at agent key r then f r else r) (va_rows v)\<rparr>"

definition upsert_secret :: "secret_row \<Rightarrow> vault \<Rightarrow> vault" where
  "upsert_secret r v =
     (if list_ex (secret_at (sw_agent r) (sw_key r)) (va_rows v)
      then change_secret (sw_agent r) (sw_key r)
        (\<lambda>x. x\<lparr>sw_cipher := sw_cipher r, sw_acl := sw_acl r, sw_rotated := None, sw_revoked := False\<rparr>) v
      else v\<lparr>va_rows := va_rows v @ [r]\<rparr>)"

definition store_secret :: "fernet \<Rightarrow> vault_config \<Rightarrow> str \<Rightarrow> nat \<Rightarrow> str \<Rightarrow> int \<Rightarrow> str \<Rightarrow> str \<Rightarrow> str \<Rightarrow> str list option
    \<Rightarrow> vault \<Rightarrow> (vault, secret_error, str) outcome" where
  "store_secret fe cf fresh rnd uid now agent key value acl v =
     (case vault_cipher fe cf fresh v of
        (Inl e, v1) \<Rightarrow> (Inl e, v1)
      | (Inr k, v1) \<Rightarrow>
          (Inr uid, upsert_secret \<lparr>sw_id = uid, sw_agent = agent, sw_key = key, sw_cipher = fe_encrypt fe k rnd value,
             sw_acl = sort (remdups (case acl of None \<Rightarrow> [] | Some xs \<Rightarrow> xs)), sw_created = now, sw_rotated = None,
             sw_revoked = False\<rparr> v1))"

text \<open>\<open>requester or agent_id\<close>: an absent or empty requester acts as the owner.\<close>

definition acting :: "str \<Rightarrow> str option \<Rightarrow> str" where
  "acting agent requester = (case requester of None \<Rightarrow> agent | Some q \<Rightarrow> if q = [] then agent else q)"

definition get_secret :: "fernet \<Rightarrow> vault_config \<Rightarrow> str \<Rightarrow> str \<Rightarrow> str \<Rightarrow> str option \<Rightarrow> vault \<Rightarrow> (vault, secret_error, str option) outcome" where
  "get_secret fe cf fresh agent key requester v =
     (case find (secret_at agent key) (va_rows v) of
        None \<Rightarrow> (Inr None, v)
      | Some r \<Rightarrow>
          if sw_revoked r \<or> \<not> is_authorized agent (sw_acl r) (acting agent requester) then (Inr None, v)
          else (case vault_cipher fe cf fresh v of
              (Inl e, v1) \<Rightarrow> (Inl e, v1)
            | (Inr k, v1) \<Rightarrow> (Inr (fe_decrypt fe k (sw_cipher r)), v1)))"

definition rotate_secret :: "fernet \<Rightarrow> vault_config \<Rightarrow> str \<Rightarrow> nat \<Rightarrow> str \<Rightarrow> int \<Rightarrow> str \<Rightarrow> str \<Rightarrow> str option
    \<Rightarrow> vault \<Rightarrow> (vault, secret_error, str) outcome" where
  "rotate_secret fe cf fresh rnd token now agent key new_value v =
     (case find (secret_at agent key) (va_rows v) of
        None \<Rightarrow> (Inl No_Secret, v)
      | Some r \<Rightarrow>
          if sw_revoked r then (Inl No_Secret, v)
          else let value = (case new_value of None \<Rightarrow> token | Some x \<Rightarrow> x) in
            (case vault_cipher fe cf fresh v of
               (Inl e, v1) \<Rightarrow> (Inl e, v1)
             | (Inr k, v1) \<Rightarrow>
                 (Inr value, change_secret agent key (\<lambda>x. x\<lparr>sw_cipher := fe_encrypt fe k rnd value, sw_rotated := Some now\<rparr>) v1)))"

definition revoke_secret :: "str \<Rightarrow> str \<Rightarrow> vault \<Rightarrow> bool \<times> vault" where
  "revoke_secret agent key v =
     (list_ex (secret_at agent key) (va_rows v), change_secret agent key (\<lambda>x. x\<lparr>sw_revoked := True\<rparr>) v)"

definition list_secrets :: "str \<Rightarrow> vault \<Rightarrow> str list" where
  "list_secrets agent v = sort (map sw_key (filter (\<lambda>r. sw_agent r = agent \<and> \<not> sw_revoked r) (va_rows v)))"

definition row_metadata :: "str \<Rightarrow> str \<Rightarrow> vault \<Rightarrow> (str \<times> str list \<times> int \<times> int option \<times> bool) option" where
  "row_metadata agent key v =
     map_option (\<lambda>r. (sw_id r, sw_acl r, sw_created r, sw_rotated r, sw_revoked r)) (find (secret_at agent key) (va_rows v))"

datatype vault_op =
    V_Store nat str int str str str "str list option"
  | V_Rotate nat str int str str "str option"
  | V_Revoke str str
  | V_Get str str "str option"
  | V_Close
  | V_Restart

text \<open>Every step brings the key that would be generated if none is found.\<close>

fun vault_step :: "fernet \<Rightarrow> vault_config \<Rightarrow> str \<times> vault_op \<Rightarrow> vault \<Rightarrow> vault" where
  "vault_step fe cf (fresh, V_Store rnd uid now agent key value acl) v = snd (store_secret fe cf fresh rnd uid now agent key value acl v)"
| "vault_step fe cf (fresh, V_Rotate rnd token now agent key new_value) v = snd (rotate_secret fe cf fresh rnd token now agent key new_value v)"
| "vault_step fe cf (fresh, V_Revoke agent key) v = snd (revoke_secret agent key v)"
| "vault_step fe cf (fresh, V_Get agent key requester) v = snd (get_secret fe cf fresh agent key requester v)"
| "vault_step fe cf (fresh, V_Close) v = close_vault cf v"
| "vault_step fe cf (fresh, V_Restart) v = restart_vault cf v"

section \<open>What the store promises\<close>

text \<open>The abstract vault: for an owner and a key the value, the readers, and whether it is revoked.\<close>

type_synonym safe = "str \<times> str \<Rightarrow> (str \<times> str set \<times> bool) option"

fun safe_step :: "vault_config \<Rightarrow> vault_op \<Rightarrow> safe \<Rightarrow> safe" where
  "safe_step cf (V_Store rnd uid now agent key value acl) m =
     m((agent, key) \<mapsto> (value, set (case acl of None \<Rightarrow> [] | Some xs \<Rightarrow> xs), False))"
| "safe_step cf (V_Rotate rnd token now agent key new_value) m =
     (case m (agent, key) of
        Some (_, readers, False) \<Rightarrow> m((agent, key) \<mapsto> (case new_value of None \<Rightarrow> token | Some x \<Rightarrow> x, readers, False))
      | _ \<Rightarrow> m)"
| "safe_step cf (V_Revoke agent key) m =
     (case m (agent, key) of Some (value, readers, _) \<Rightarrow> m((agent, key) \<mapsto> (value, readers, True)) | None \<Rightarrow> m)"
| "safe_step cf (V_Get agent key requester) m = m"
| "safe_step cf V_Close m = (if vc_memory cf then Map.empty else m)"
| "safe_step cf V_Restart m = (if vc_memory cf then Map.empty else m)"

definition safe_read :: "safe \<Rightarrow> str \<Rightarrow> str \<Rightarrow> str \<Rightarrow> str option" where
  "safe_read m agent key reader =
     (case m (agent, key) of
        Some (value, readers, False) \<Rightarrow> if reader = agent \<or> reader \<in> readers then Some value else None
      | _ \<Rightarrow> None)"

section \<open>The store keeps its promise\<close>

definition fernet_law :: "fernet \<Rightarrow> bool" where
  "fernet_law fe \<longleftrightarrow> (\<forall>k rnd p. fe_key_ok fe k \<longrightarrow> fe_decrypt fe k (fe_encrypt fe k rnd p) = Some p)"

definition fresh_key :: "fernet \<Rightarrow> str \<Rightarrow> bool" where
  "fresh_key fe k \<longleftrightarrow> fe_key_ok fe k \<and> bytes_strip k = k"

definition current_key :: "vault_config \<Rightarrow> vault \<Rightarrow> str option" where
  "current_key cf v = (case va_fernet v of Some k \<Rightarrow> Some k | None \<Rightarrow> configured_key cf v)"

definition keys_ok :: "fernet \<Rightarrow> vault_config \<Rightarrow> vault \<Rightarrow> bool" where
  "keys_ok fe cf v \<longleftrightarrow> (\<forall>k. configured_key cf v = Some k \<longrightarrow> fe_key_ok fe k)
     \<and> (\<forall>k. va_fernet v = Some k \<longrightarrow> fe_key_ok fe k \<and> (configured_key cf v = Some k \<or> configured_key cf v = None \<and> \<not> vc_path cf))"

definition shown :: "fernet \<Rightarrow> str \<Rightarrow> secret_row \<Rightarrow> str option \<times> str set \<times> bool" where
  "shown fe k r = (fe_decrypt fe k (sw_cipher r), set (sw_acl r), sw_revoked r)"

definition rows_show :: "fernet \<Rightarrow> str \<Rightarrow> secret_row list \<Rightarrow> safe \<Rightarrow> bool" where
  "rows_show fe k rows m \<longleftrightarrow>
     (\<forall>agent key. map_option (shown fe k) (find (secret_at agent key) rows) = map_option (\<lambda>(p, a, b). (Some p, a, b)) (m (agent, key)))"

text \<open>The simulation: under the current key the rows show what the abstract vault holds.\<close>

definition simulates :: "fernet \<Rightarrow> vault_config \<Rightarrow> vault \<Rightarrow> safe \<Rightarrow> bool" where
  "simulates fe cf v m \<longleftrightarrow> keys_ok fe cf v
     \<and> (case current_key cf v of None \<Rightarrow> va_rows v = [] \<and> m = Map.empty | Some k \<Rightarrow> rows_show fe k (va_rows v) m)"

lemma rows_show_Nil [simp]: "rows_show fe k [] m \<longleftrightarrow> m = Map.empty"
  by (auto simp: rows_show_def)

lemma configured_fields [simp]:
  "configured_key cf (v\<lparr>va_rows := rs\<rparr>) = configured_key cf v" "configured_key cf (v\<lparr>va_fernet := f\<rparr>) = configured_key cf v"
  by (simp_all add: configured_key_def split: option.splits)

lemma key_fields [simp]:
  "current_key cf (v\<lparr>va_rows := rs\<rparr>) = current_key cf v" "keys_ok fe cf (v\<lparr>va_rows := rs\<rparr>) = keys_ok fe cf v"
  by (simp_all add: current_key_def keys_ok_def split: option.splits)

lemma simulates_new:
  assumes "\<forall>k. configured_key cf (new_vault key_file) = Some k \<longrightarrow> fe_key_ok fe k"
  shows "simulates fe cf (new_vault key_file) Map.empty"
  using assms by (auto simp: simulates_def keys_ok_def new_vault_def split: option.splits)

lemma cipher_ready:
  assumes "simulates fe cf v m" "fresh_key fe fresh"
  shows "\<exists>k v1. vault_cipher fe cf fresh v = (Inr k, v1) \<and> current_key cf v1 = Some k \<and> fe_key_ok fe k
    \<and> va_rows v1 = va_rows v \<and> keys_ok fe cf v1 \<and> rows_show fe k (va_rows v) m"
proof (cases "va_fernet v")
  case (Some k)
  then show ?thesis using assms(1) by (auto simp: vault_cipher_def simulates_def current_key_def keys_ok_def)
next
  case None
  show ?thesis
  proof (cases "configured_key cf v")
    case (Some k)
    have "configured_key cf (v\<lparr>va_fernet := Some k\<rparr>) = Some k" using Some by simp
    then show ?thesis using assms(1) None Some by (auto simp: vault_cipher_def simulates_def current_key_def keys_ok_def)
  next
    case none: None
    let ?v = "if vc_path cf then v\<lparr>va_file := Some fresh\<rparr> else v"
    have "configured_key cf (?v\<lparr>va_fernet := Some fresh\<rparr>) = (if vc_path cf then Some fresh else None)"
      using none assms(2) by (auto simp: configured_key_def fresh_key_def split: option.splits if_splits)
    then show ?thesis using assms None none
      by (auto simp: vault_cipher_def simulates_def current_key_def keys_ok_def fresh_key_def split: if_splits)
  qed
qed

lemma secret_at_fields [simp]: "secret_at a k (r\<lparr>sw_cipher := c\<rparr>) = secret_at a k r" "secret_at a k (r\<lparr>sw_acl := l\<rparr>) = secret_at a k r"
    "secret_at a k (r\<lparr>sw_rotated := t\<rparr>) = secret_at a k r" "secret_at a k (r\<lparr>sw_revoked := b\<rparr>) = secret_at a k r"
  by (simp_all add: secret_at_def)

lemma secret_at_other: "secret_at agent key r \<Longrightarrow> secret_at a k r \<longleftrightarrow> a = agent \<and> k = key"
  by (auto simp: secret_at_def)

lemma find_changed:
  assumes "\<And>r. secret_at agent key r \<Longrightarrow> secret_at agent key (f r)"
  shows "find (secret_at a k) (map (\<lambda>r. if secret_at agent key r then f r else r) rows)
    = (if a = agent \<and> k = key then map_option f (find (secret_at a k) rows) else find (secret_at a k) rows)"
proof (induction rows)
  case (Cons r rows)
  show ?case
  proof (cases "secret_at agent key r")
    case True
    then show ?thesis using Cons assms [OF True] secret_at_other [OF True] secret_at_other [OF assms [OF True]] by auto
  next
    case False
    then show ?thesis using Cons by auto
  qed
qed simp

lemma find_upserted:
  "find (secret_at a k) (va_rows (upsert_secret r v))
    = (if a = sw_agent r \<and> k = sw_key r
       then Some (case find (secret_at a k) (va_rows v) of None \<Rightarrow> r
         | Some x \<Rightarrow> x\<lparr>sw_cipher := sw_cipher r, sw_acl := sw_acl r, sw_rotated := None, sw_revoked := False\<rparr>)
       else find (secret_at a k) (va_rows v))"
proof (cases "list_ex (secret_at (sw_agent r) (sw_key r)) (va_rows v)")
  case True
  then have "find (secret_at (sw_agent r) (sw_key r)) (va_rows v) \<noteq> None" by (auto simp: find_None_iff list_ex_iff)
  moreover have "find (secret_at a k) (va_rows (upsert_secret r v)) = (if a = sw_agent r \<and> k = sw_key r
      then map_option (\<lambda>x. x\<lparr>sw_cipher := sw_cipher r, sw_acl := sw_acl r, sw_rotated := None, sw_revoked := False\<rparr>)
        (find (secret_at a k) (va_rows v)) else find (secret_at a k) (va_rows v))"
    using True by (simp add: upsert_secret_def change_secret_def find_changed)
  ultimately show ?thesis by (auto split: option.splits)
next
  case False
  then have "find (secret_at (sw_agent r) (sw_key r)) (va_rows v) = None" by (auto simp: find_None_iff list_ex_iff)
  with False show ?thesis by (auto simp: upsert_secret_def find_append secret_at_def [of _ _ r] split: option.splits)
qed

lemma upsert_keys [simp]: "configured_key cf (upsert_secret r v) = configured_key cf v" "current_key cf (upsert_secret r v) = current_key cf v"
    "keys_ok fe cf (upsert_secret r v) = keys_ok fe cf v"
  by (simp_all add: upsert_secret_def change_secret_def)

text \<open>A lookup in the rows and in the abstract vault agree.\<close>

lemma shown_cases:
  assumes "rows_show fe k rows m"
  shows "case find (secret_at agent key) rows of None \<Rightarrow> m (agent, key) = None
    | Some r \<Rightarrow> \<exists>p. m (agent, key) = Some (p, set (sw_acl r), sw_revoked r) \<and> fe_decrypt fe k (sw_cipher r) = Some p"
  using assms [unfolded rows_show_def, rule_format, of agent key]
  by (cases "find (secret_at agent key) rows"; cases "m (agent, key)") (auto simp: shown_def)

lemma rows_show_upsert:
  assumes "rows_show fe k (va_rows v) m" "fe_decrypt fe k (sw_cipher r) = Some p" "\<not> sw_revoked r"
  shows "rows_show fe k (va_rows (upsert_secret r v)) (m((sw_agent r, sw_key r) \<mapsto> (p, set (sw_acl r), False)))"
  using assms by (auto simp: rows_show_def find_upserted shown_def split: option.splits)

lemma rows_show_change:
  assumes "rows_show fe k (va_rows v) m" "find (secret_at agent key) (va_rows v) = Some r"
    "\<And>x. secret_at agent key x \<Longrightarrow> secret_at agent key (f x)" "shown fe k (f r) = (Some p, readers, b)"
  shows "rows_show fe k (va_rows (change_secret agent key f v)) (m((agent, key) \<mapsto> (p, readers, b)))"
  using assms by (auto simp: rows_show_def change_secret_def find_changed)

lemma simulatesI: "keys_ok fe cf v \<Longrightarrow> current_key cf v = Some k \<Longrightarrow> rows_show fe k (va_rows v) m \<Longrightarrow> simulates fe cf v m"
  by (simp add: simulates_def)

lemma changed_keys [simp]: "keys_ok fe cf (change_secret agent key f v) = keys_ok fe cf v" "current_key cf (change_secret agent key f v) = current_key cf v"
  by (simp_all add: change_secret_def)

lemma store_simulates:
  assumes "fernet_law fe" "fresh_key fe fresh" "simulates fe cf v m"
  shows "simulates fe cf (snd (store_secret fe cf fresh rnd uid now agent key value acl v))
    (m((agent, key) \<mapsto> (value, set (case acl of None \<Rightarrow> [] | Some xs \<Rightarrow> xs), False)))"
proof -
  obtain k v1 where c: "vault_cipher fe cf fresh v = (Inr k, v1)" "current_key cf v1 = Some k" "fe_key_ok fe k"
      "va_rows v1 = va_rows v" "keys_ok fe cf v1" "rows_show fe k (va_rows v) m"
    using cipher_ready [OF assms(3,2)] by blast
  define r where "r = \<lparr>sw_id = uid, sw_agent = agent, sw_key = key, sw_cipher = fe_encrypt fe k rnd value,
     sw_acl = sort (remdups (case acl of None \<Rightarrow> [] | Some xs \<Rightarrow> xs)), sw_created = now, sw_rotated = None, sw_revoked = False\<rparr>"
  have "rows_show fe k (va_rows (upsert_secret r v1)) (m((sw_agent r, sw_key r) \<mapsto> (value, set (sw_acl r), False)))"
    by (rule rows_show_upsert) (use assms(1) c(3,4,6) in \<open>simp_all add: r_def fernet_law_def\<close>)
  moreover have "snd (store_secret fe cf fresh rnd uid now agent key value acl v) = upsert_secret r v1"
    by (simp add: store_secret_def c(1) r_def)
  moreover have "sw_agent r = agent" "sw_key r = key" "set (sw_acl r) = set (case acl of None \<Rightarrow> [] | Some xs \<Rightarrow> xs)"
    by (simp_all add: r_def)
  ultimately show ?thesis using c(2,5) simulatesI [of fe cf "upsert_secret r v1" k] by simp
qed

lemma rotate_simulates:
  assumes "fernet_law fe" "fresh_key fe fresh" "simulates fe cf v m"
  shows "simulates fe cf (snd (rotate_secret fe cf fresh rnd token now agent key new_value v)) (safe_step cf (V_Rotate rnd token now agent key new_value) m)"
proof -
  obtain k v1 where c: "vault_cipher fe cf fresh v = (Inr k, v1)" "current_key cf v1 = Some k" "fe_key_ok fe k"
      "va_rows v1 = va_rows v" "keys_ok fe cf v1" "rows_show fe k (va_rows v) m"
    using cipher_ready [OF assms(3,2)] by blast
  note look = shown_cases [OF c(6), of agent key]
  show ?thesis
  proof (cases "find (secret_at agent key) (va_rows v)")
    case None
    then show ?thesis using look assms(3) by (simp add: rotate_secret_def)
  next
    case (Some r)
    then obtain p where m: "m (agent, key) = Some (p, set (sw_acl r), sw_revoked r)" using look by auto
    let ?x = "case new_value of None \<Rightarrow> token | Some x \<Rightarrow> x"
    let ?f = "\<lambda>x. x\<lparr>sw_cipher := fe_encrypt fe k rnd ?x, sw_rotated := Some now\<rparr>"
    show ?thesis
    proof (cases "sw_revoked r")
      case False
      have "shown fe k (?f r) = (Some ?x, set (sw_acl r), False)" using assms(1) c(3) False by (simp add: shown_def fernet_law_def)
      from rows_show_change [where f = ?f and v = v1 and m = m and agent = agent and key = key, OF _ _ _ this] c(4,6) Some
      have "rows_show fe k (va_rows (change_secret agent key ?f v1)) (m((agent, key) \<mapsto> (?x, set (sw_acl r), False)))" by simp
      then show ?thesis using c(1,2,5) Some m False simulatesI [of fe cf "change_secret agent key ?f v1" k] by (simp add: rotate_secret_def Let_def)
    qed (use Some m assms(3) in \<open>simp add: rotate_secret_def\<close>)
  qed
qed

lemma revoke_simulates:
  assumes "simulates fe cf v m"
  shows "simulates fe cf (snd (revoke_secret agent key v)) (safe_step cf (V_Revoke agent key) m)"
proof (cases "current_key cf v")
  case None
  then show ?thesis using assms by (simp add: simulates_def revoke_secret_def change_secret_def)
next
  case (Some k)
  then have rows: "rows_show fe k (va_rows v) m" and ok: "keys_ok fe cf v" using assms by (simp_all add: simulates_def)
  show ?thesis
  proof (cases "find (secret_at agent key) (va_rows v)")
    case None
    then have "va_rows (change_secret agent key f v) = va_rows v" for f
      by (simp add: change_secret_def find_None_iff map_idI)
    then show ?thesis using shown_cases [OF rows, of agent key] None rows ok Some by (simp add: simulates_def revoke_secret_def)
  next
    case found: (Some r)
    then obtain p where m: "m (agent, key) = Some (p, set (sw_acl r), sw_revoked r)" "fe_decrypt fe k (sw_cipher r) = Some p"
      using shown_cases [OF rows, of agent key] by auto
    have "shown fe k (r\<lparr>sw_revoked := True\<rparr>) = (Some p, set (sw_acl r), True)" using m(2) by (simp add: shown_def)
    from rows_show_change [where f = "\<lambda>x. x\<lparr>sw_revoked := True\<rparr>", OF rows found _ this]
    show ?thesis using m(1) ok Some by (simp add: simulates_def revoke_secret_def)
  qed
qed

lemma get_secret_reads:
  assumes "fresh_key fe fresh" "simulates fe cf v m"
  shows "fst (get_secret fe cf fresh agent key requester v) = Inr (safe_read m agent key (acting agent requester))
    \<and> simulates fe cf (snd (get_secret fe cf fresh agent key requester v)) m"
proof -
  obtain k v1 where c: "vault_cipher fe cf fresh v = (Inr k, v1)" "current_key cf v1 = Some k"
      "va_rows v1 = va_rows v" "keys_ok fe cf v1" "rows_show fe k (va_rows v) m"
    using cipher_ready [OF assms(2,1)] by blast
  have "simulates fe cf v1 m" by (rule simulatesI [OF c(4,2)]) (simp add: c(3,5))
  then show ?thesis using shown_cases [OF c(5), of agent key] c(1) assms(2)
    by (auto simp: get_secret_def safe_read_def is_authorized_def split: option.splits bool.splits)
qed

lemma close_simulates:
  assumes "simulates fe cf v m"
  shows "simulates fe cf (close_vault cf v) (if vc_memory cf then Map.empty else m)"
  using assms by (simp add: simulates_def close_vault_def split: option.splits)

lemma restart_simulates:
  assumes "simulates fe cf v m" "vc_memory cf \<or> vc_path cf"
  shows "simulates fe cf (restart_vault cf v) (if vc_memory cf then Map.empty else m)"
proof -
  have c: "simulates fe cf (close_vault cf v) (if vc_memory cf then Map.empty else m)" by (rule close_simulates [OF assms(1)])
  show ?thesis
  proof (cases "va_fernet v")
    case None
    then have "restart_vault cf v = close_vault cf v" by (cases v) (simp add: restart_vault_def close_vault_def)
    then show ?thesis using c by simp
  next
    case (Some k)
    then have "keys_ok fe cf (restart_vault cf v)" "vc_path cf \<Longrightarrow> configured_key cf v = Some k"
      using assms(1) by (auto simp: simulates_def keys_ok_def restart_vault_def close_vault_def)
    moreover have "va_rows (restart_vault cf v) = (if vc_memory cf then [] else va_rows v)"
      "current_key cf (restart_vault cf v) = configured_key cf v"
      by (simp_all add: restart_vault_def close_vault_def current_key_def)
    ultimately show ?thesis using Some assms by (auto simp: simulates_def current_key_def split: option.splits)
  qed
qed

lemma step_simulates:
  assumes "fernet_law fe" "vc_memory cf \<or> vc_path cf" "fresh_key fe fresh" "simulates fe cf v m"
  shows "simulates fe cf (vault_step fe cf (fresh, x) v) (safe_step cf x m)"
proof (cases x)
  case (V_Store x1 x2 x3 x4 x5 x6 x7)
  then show ?thesis using store_simulates [OF assms(1,3,4)] by simp
next
  case (V_Rotate rnd token now agent key new_value)
  then show ?thesis using rotate_simulates [OF assms(1,3,4)] by simp
next
  case (V_Revoke agent key)
  then show ?thesis using revoke_simulates [OF assms(4)] by simp
next
  case (V_Get agent key requester)
  then show ?thesis using get_secret_reads [OF assms(3,4)] by simp
next
  case V_Close
  then show ?thesis using close_simulates [OF assms(4)] by simp
next
  case V_Restart
  then show ?thesis using restart_simulates [OF assms(4,2)] by simp
qed

text \<open>The concrete and the abstract vault side by side.\<close>

interpretation vault_pair: op_machine
  "\<lambda>x (v, m). (vault_step fe (mk_vault_config mem explicit env given) x v, safe_step (mk_vault_config mem explicit env given) (snd x) m)"
  "\<lambda>(v, m). fernet_law fe \<and> simulates fe (mk_vault_config mem explicit env given) v m"
  "\<lambda>x. fresh_key fe (fst x)" for fe mem explicit env given
proof unfold_locales
  fix x :: "str \<times> vault_op" and s :: "vault \<times> safe"
  assume "fresh_key fe (fst x)" "case s of (v, m) \<Rightarrow> fernet_law fe \<and> simulates fe (mk_vault_config mem explicit env given) v m"
  then show "case (case s of (v, m) \<Rightarrow> (vault_step fe (mk_vault_config mem explicit env given) x v, safe_step (mk_vault_config mem explicit env given) (snd x) m))
    of (v, m) \<Rightarrow> fernet_law fe \<and> simulates fe (mk_vault_config mem explicit env given) v m"
    using step_simulates [of fe "mk_vault_config mem explicit env given" "fst x" "fst s" "snd s" "snd x"]
    by (cases x; cases s) (auto simp: mk_vault_config_def)
qed

lemma run_pair:
  "run_ops (\<lambda>x (v, m). (f x v, g (snd x) m)) xs (v, m) = (run_ops f xs v, run_ops g (map snd xs) m)"
  by (induction xs arbitrary: v m) simp_all

text \<open>C19: The secrets store refines an abstract vault. Over every run of stores, rotations, revocations,
  reads, closings and restarts, when the keys that are configured or generated are ones Fernet accepts, a
  read by a named requester, or by the owner when no requester is named, answers the value of the latest
  store or rotation if the secret has not been revoked since and the reader is its owner or on the list of
  the latest store, and nothing otherwise; in particular the key that encrypted a value is found again
  after a restart. The requester is not the empty string: the code takes that for the owner.\<close>

theorem vault_refines_safe:
  assumes "fernet_law fe" "list_all (\<lambda>x. fresh_key fe (fst x)) xs" "fresh_key fe fresh"
    "\<forall>k. configured_key (mk_vault_config mem explicit env given) (new_vault key_file) = Some k \<longrightarrow> fe_key_ok fe k"
    and named: "requester \<noteq> Some []"
  shows "fst (get_secret fe (mk_vault_config mem explicit env given) fresh agent key requester
      (run_ops (vault_step fe (mk_vault_config mem explicit env given)) xs (new_vault key_file)))
    = Inr (safe_read (run_ops (safe_step (mk_vault_config mem explicit env given)) (map snd xs) Map.empty) agent key
        (case requester of None \<Rightarrow> agent | Some q \<Rightarrow> q))"
proof -
  have "acting agent requester = (case requester of None \<Rightarrow> agent | Some q \<Rightarrow> q)"
    using named by (auto simp: acting_def split: option.splits)
  then show ?thesis
    using vault_pair.run_keeps [of fe xs mem explicit env given "(new_vault key_file, Map.empty)"]
      simulates_new [OF assms(4)] assms(1-3)
    by (simp add: run_pair get_secret_reads)
qed

section \<open>An instance\<close>

definition demo_fernet :: fernet where
  "demo_fernet = \<lparr>fe_encrypt = \<lambda>k rnd p. k @ p, fe_decrypt = \<lambda>k c. if take (length k) c = k then Some (drop (length k) c) else None,
     fe_key_ok = \<lambda>k. k \<noteq> []\<rparr>"

definition demo_vault_run :: "(str \<times> vault_op) list" where
  "demo_vault_run = [(''k1'', V_Store 0 ''i'' 0 ''ann'' ''token'' ''s3cret'' (Some [''bob''])), (''k2'', V_Restart),
     (''k3'', V_Rotate 1 ''t'' 2 ''ann'' ''token'' None)]"

lemma vault_refines_safe_witness:
  "fst (get_secret demo_fernet (mk_vault_config False None None False) ''k'' ''ann'' ''token'' (Some ''bob'')
      (run_ops (vault_step demo_fernet (mk_vault_config False None None False)) demo_vault_run (new_vault None))) = Inr (Some ''t'')"
proof -
  have "fernet_law demo_fernet" "list_all (\<lambda>x. fresh_key demo_fernet (fst x)) demo_vault_run" "fresh_key demo_fernet ''k''"
    by (simp_all add: fernet_law_def demo_fernet_def demo_vault_run_def fresh_key_def bytes_strip_def bytes_space_def Let_def)
  moreover have "\<forall>k. configured_key (mk_vault_config False None None False) (new_vault None) = Some k \<longrightarrow> fe_key_ok demo_fernet k"
    by (simp add: configured_key_def mk_vault_config_def new_vault_def)
  ultimately show ?thesis using vault_refines_safe [where fe = demo_fernet and xs = demo_vault_run and fresh = "''k''" and mem = False
      and explicit = None and env = None and given = False and key_file = None and agent = "''ann''" and key = "''token''"
      and requester = "Some ''bob''"]
    by (simp add: demo_vault_run_def safe_read_def mk_vault_config_def)
qed

text \<open>An empty requester reads as the owner, and storing over an existing secret answers with an id that
  is not in the table.\<close>

lemma empty_requester_is_owner: "get_secret fe cf fresh agent key (Some []) v = get_secret fe cf fresh agent key None v"
proof -
  have "acting agent (Some []) = acting agent None" by (simp add: acting_def)
  then show ?thesis unfolding get_secret_def by (simp split: option.split)
qed

lemma overwrite_returns_unknown_id:
  assumes "store_secret fe cf fresh rnd uid now agent key value acl v = (Inr i, v')"
    "list_ex (secret_at agent key) (va_rows v)" "uid \<notin> sw_id ` set (va_rows v)"
  shows "i = uid \<and> uid \<notin> sw_id ` set (va_rows v')"
proof -
  obtain k v1 where c: "vault_cipher fe cf fresh v = (Inr k, v1)" using assms(1) by (auto simp: store_secret_def split: prod.splits sum.splits)
  then have "va_rows v1 = va_rows v" by (auto simp: vault_cipher_def Let_def split: option.splits if_splits)
  then show ?thesis using assms c by (auto simp: store_secret_def upsert_secret_def change_secret_def)
qed

end
