(* ===== verification/Canonical_Json.thy ===== *)
theory Canonical_Json
  imports Iso_Time Json_Text
begin

text \<open>
  The canonical JSON of \<open>src/agency/peer_envelope.py\<close>: normalised strings, keys in the order of their
  bytes, integers only, no spaces; and \<open>json.loads\<close> as \<open>decode_envelope\<close> uses it, which refuses
  duplicate keys and numbers that are not integers.

  \<open>nfc\<close> is Unicode normalisation. Bytes are characters too: a wire is a string of them. Strings whose
  code points reach 256 are outside the model, so \<open>utf8_decode\<close> refuses their bytes. A message is kept
  as the error. Python refuses to print or read an integer of more than 4300 digits.
\<close>

section \<open>Text\<close>

definition digit_limit :: int where
  "digit_limit = 4300"

primrec compact_text :: "json \<Rightarrow> str" where
  "compact_text JNull = ''null''"
| "compact_text (JBool b) = (if b then ''true'' else ''false'')"
| "compact_text (JInt i) = int_text i"
| "compact_text (JStr s) = json_string s"
| "compact_text (JArr xs) = ''['' @ joined '','' (map compact_text xs) @ '']''"
| "compact_text (JObj kvs) =
     ''{'' @ joined '','' (map (\<lambda>p. json_string (fst p) @ '':'' @ snd p) (map (map_prod id compact_text) kvs)) @ ''}''"

primrec ints_ok :: "json \<Rightarrow> bool" where
  "ints_ok JNull = True"
| "ints_ok (JBool b) = True"
| "ints_ok (JInt i) = (int (length (nat_text (nat \<bar>i\<bar>))) \<le> digit_limit)"
| "ints_ok (JStr s) = True"
| "ints_ok (JArr xs) = list_all id (map ints_ok xs)"
| "ints_ok (JObj kvs) = list_all snd (map (map_prod id ints_ok) kvs)"

section \<open>Canonical values\<close>

fun canon :: "(str \<Rightarrow> str) \<Rightarrow> nat \<Rightarrow> nat \<Rightarrow> json \<Rightarrow> (str, json) res"
  and canon_items :: "(str \<Rightarrow> str) \<Rightarrow> nat \<Rightarrow> nat \<Rightarrow> json list \<Rightarrow> (str, json list) res"
  and canon_pairs :: "(str \<Rightarrow> str) \<Rightarrow> nat \<Rightarrow> nat \<Rightarrow> (str \<times> json) list \<Rightarrow> (str \<times> json) list \<Rightarrow> (str, (str \<times> json) list) res" where
  "canon nfc d m v =
     (if d > m then Inl ''JSON nesting limit exceeded''
      else case v of
          JStr s \<Rightarrow> Inr (JStr (nfc s))
        | JArr xs \<Rightarrow> (case canon_items nfc (d + 1) m xs of Inl e \<Rightarrow> Inl e | Inr ys \<Rightarrow> Inr (JArr ys))
        | JObj kvs \<Rightarrow> (case canon_pairs nfc (d + 1) m [] kvs of Inl e \<Rightarrow> Inl e
            | Inr r \<Rightarrow> Inr (JObj (sort_key (\<lambda>p. utf8 (fst p)) r)))
        | _ \<Rightarrow> Inr v)"
| "canon_items nfc d m [] = Inr []"
| "canon_items nfc d m (x # xs) =
     (case canon nfc d m x of Inl e \<Rightarrow> Inl e
      | Inr y \<Rightarrow> (case canon_items nfc d m xs of Inl e \<Rightarrow> Inl e | Inr ys \<Rightarrow> Inr (y # ys)))"
| "canon_pairs nfc d m acc [] = Inr acc"
| "canon_pairs nfc d m acc ((k, x) # r) =
     (if d > m then Inl ''JSON nesting limit exceeded''
      else if map_of acc (nfc k) \<noteq> None then Inl ''duplicate normalized JSON key''
      else (case canon nfc d m x of Inl e \<Rightarrow> Inl e | Inr y \<Rightarrow> canon_pairs nfc d m (acc @ [(nfc k, y)]) r))"

declare canon.simps(1) [simp del]

definition max_json_depth :: nat where
  "max_json_depth = 32"

definition canonical_json :: "(str \<Rightarrow> str) \<Rightarrow> nat \<Rightarrow> json \<Rightarrow> (str, str) res" where
  "canonical_json nfc max_depth v =
     (if max_depth > max_json_depth then Inl ''invalid nesting limit''
      else case canon nfc 0 max_depth v of
          Inl e \<Rightarrow> Inl e
        | Inr r \<Rightarrow> if ints_ok r then Inr (utf8 (compact_text r)) else Inl ''JSON encoding failed'')"

section \<open>Reading\<close>

fun utf8_decode :: "str \<Rightarrow> str option" where
  "utf8_decode [] = Some []"
| "utf8_decode (c # s) =
     (if (of_char c :: nat) < 128 then map_option ((#) c) (utf8_decode s)
      else case s of
          [] \<Rightarrow> None
        | d # r \<Rightarrow>
            if (of_char c = (194 :: nat) \<or> of_char c = (195 :: nat)) \<and> 128 \<le> (of_char d :: nat) \<and> (of_char d :: nat) < 192
            then map_option ((#) (char_of (64 * ((of_char c :: nat) - 192) + (of_char d - 128)))) (utf8_decode r)
            else None)"

definition json_space :: "char \<Rightarrow> bool" where
  "json_space c = (c = CHR '' '' \<or> c = CHR 0x09 \<or> c = CHR 0x0A \<or> c = CHR 0x0D)"

definition skip_ws :: "str \<Rightarrow> str" where
  "skip_ws s = dropWhile json_space s"

definition ascii_digit :: "char \<Rightarrow> bool" where
  "ascii_digit c = (48 \<le> (of_char c :: nat) \<and> (of_char c :: nat) \<le> 57)"

definition hex_value :: "char \<Rightarrow> nat option" where
  "hex_value c = (let n = (of_char c :: nat) in
     if 48 \<le> n \<and> n \<le> 57 then Some (n - 48) else if 97 \<le> n \<and> n \<le> 102 then Some (n - 87)
     else if 65 \<le> n \<and> n \<le> 70 then Some (n - 55) else None)"

text \<open>What follows a backslash; a \<open>\u\<close> escape beyond the code points of the model is refused.\<close>

definition read_escape :: "str \<Rightarrow> (char \<times> str) option" where
  "read_escape s =
     (case s of
        [] \<Rightarrow> None
      | e # r \<Rightarrow>
          if e = CHR 0x22 \<or> e = CHR 0x5C \<or> e = CHR ''/'' then Some (e, r)
          else if e = CHR ''b'' then Some (CHR 0x08, r)
          else if e = CHR ''f'' then Some (CHR 0x0C, r)
          else if e = CHR ''n'' then Some (CHR 0x0A, r)
          else if e = CHR ''r'' then Some (CHR 0x0D, r)
          else if e = CHR ''t'' then Some (CHR 0x09, r)
          else if e = CHR ''u'' \<and> take 2 r = ''00''
          then (case drop 2 r of
              a # b # r' \<Rightarrow>
                (case (hex_value a, hex_value b) of (Some x, Some y) \<Rightarrow> Some (char_of (16 * x + y), r') | _ \<Rightarrow> None)
            | _ \<Rightarrow> None)
          else None)"

lemma read_escape_shorter: "read_escape s = Some (c, r) \<Longrightarrow> length r < length s"
proof (cases s)
  case (Cons e t)
  assume "read_escape s = Some (c, r)"
  moreover have "length r' < length t" if "drop 2 t = a # b # r'" for a b r'
    using arg_cong [OF that, of length] by simp
  ultimately show ?thesis using Cons by (fastforce simp: read_escape_def split: if_splits list.splits option.splits)
qed (simp add: read_escape_def)

function read_string :: "str \<Rightarrow> (str \<times> str) option" where
  "read_string [] = None"
| "read_string (c # s) =
     (if c = CHR 0x22 then Some ([], s)
      else if c = CHR 0x5C
      then (case read_escape s of None \<Rightarrow> None
          | Some (x, r) \<Rightarrow> (case read_string r of None \<Rightarrow> None | Some (t, r') \<Rightarrow> Some (x # t, r')))
      else if (of_char c :: nat) < 32 then None
      else (case read_string s of None \<Rightarrow> None | Some (t, r') \<Rightarrow> Some (c # t, r')))"
  by pat_completeness auto
termination
  by (relation "measure length") (auto dest: read_escape_shorter)

definition read_digits :: "str \<Rightarrow> (nat \<times> str) option" where
  "read_digits s =
     (let ds = takeWhile ascii_digit s in
      if ds = [] then None
      else if hd ds = CHR ''0'' then Some (0, tl s)
      else if int (length ds) > digit_limit then None
      else Some (num ds, dropWhile ascii_digit s))"

definition read_number :: "str \<Rightarrow> (int \<times> str) option" where
  "read_number s =
     (if s \<noteq> [] \<and> hd s = CHR ''-'' then map_option (map_prod (\<lambda>n. - int n) id) (read_digits (tl s))
      else map_option (map_prod int id) (read_digits s))"

text \<open>The scanner, with as many steps as the text has characters. A number that goes on as a float is
  left with a rest that nothing accepts.\<close>

fun read_value :: "nat \<Rightarrow> str \<Rightarrow> (json \<times> str) option"
  and read_items :: "nat \<Rightarrow> str \<Rightarrow> (json list \<times> str) option"
  and read_members :: "nat \<Rightarrow> str \<Rightarrow> ((str \<times> json) list \<times> str) option" where
  "read_value 0 s = None"
| "read_value (Suc n) s =
     (if s = [] then None
      else if hd s = CHR 0x22 then map_option (map_prod JStr id) (read_string (tl s))
      else if hd s = CHR ''['' then
        (let r = skip_ws (tl s) in
         if r \<noteq> [] \<and> hd r = CHR '']'' then Some (JArr [], tl r) else map_option (map_prod JArr id) (read_items n r))
      else if hd s = CHR ''{'' then
        (let r = skip_ws (tl s) in
         if r \<noteq> [] \<and> hd r = CHR ''}'' then Some (JObj [], tl r)
         else (case read_members n r of None \<Rightarrow> None
             | Some (kvs, r') \<Rightarrow> if dict_ok kvs then Some (JObj kvs, r') else None))
      else if take 4 s = ''null'' then Some (JNull, drop 4 s)
      else if take 4 s = ''true'' then Some (JBool True, drop 4 s)
      else if take 5 s = ''false'' then Some (JBool False, drop 5 s)
      else map_option (map_prod JInt id) (read_number s))"
| "read_items 0 s = None"
| "read_items (Suc n) s =
     (case read_value n s of None \<Rightarrow> None
      | Some (x, r0) \<Rightarrow>
          let r = skip_ws r0 in
          if r = [] then None
          else if hd r = CHR '']'' then Some ([x], tl r)
          else if hd r = CHR '','' then map_option (map_prod ((#) x) id) (read_items n (skip_ws (tl r)))
          else None)"
| "read_members 0 s = None"
| "read_members (Suc n) s =
     (if s = [] \<or> hd s \<noteq> CHR 0x22 then None
      else (case read_string (tl s) of None \<Rightarrow> None
        | Some (k, r0) \<Rightarrow>
            let r1 = skip_ws r0 in
            if r1 = [] \<or> hd r1 \<noteq> CHR '':'' then None
            else (case read_value n (skip_ws (tl r1)) of None \<Rightarrow> None
              | Some (x, r2) \<Rightarrow>
                  let r = skip_ws r2 in
                  if r = [] then None
                  else if hd r = CHR ''}'' then Some ([(k, x)], tl r)
                  else if hd r = CHR '','' then map_option (map_prod ((#) (k, x)) id) (read_members n (skip_ws (tl r)))
                  else None)))"

definition json_loads :: "str \<Rightarrow> json option" where
  "json_loads text =
     (case read_value (length text) (skip_ws text) of
        Some (v, r) \<Rightarrow> if skip_ws r = [] then Some v else None
      | None \<Rightarrow> None)"

section \<open>Steps of the scanner\<close>

text \<open>The steps of the scanner are enough: what any number of them reads, as many as the characters read do.\<close>

lemma read_string_shorter: "read_string s = Some (t, r) \<Longrightarrow> length r < length s"
proof (induction s arbitrary: t r rule: read_string.induct)
  case (2 c s)
  then show ?case using read_escape_shorter [of s] by (auto split: if_splits option.splits prod.splits) fastforce+
qed simp

lemma read_digits_shorter: "read_digits s = Some (n, r) \<Longrightarrow> length r < length s"
proof -
  assume a: "read_digits s = Some (n, r)"
  then have "takeWhile ascii_digit s \<noteq> []" by (auto simp: read_digits_def Let_def)
  moreover have "length (takeWhile ascii_digit s) + length (dropWhile ascii_digit s) = length s"
    by (metis length_append takeWhile_dropWhile_id)
  moreover have "r = tl s \<or> r = dropWhile ascii_digit s" using a by (auto simp: read_digits_def Let_def split: if_splits)
  ultimately show ?thesis by (cases s) (auto split: if_splits)
qed

lemma read_number_shorter: "read_number s = Some (i, r) \<Longrightarrow> length r < length s"
  using read_digits_shorter by (cases s) (fastforce simp: read_number_def split: if_splits)+

lemma skip_ws_length: "length (skip_ws s) \<le> length s"
  by (simp add: skip_ws_def length_dropWhile_le)

lemma take_shorter: "take k s = p \<Longrightarrow> length p = k \<Longrightarrow> 0 < k \<Longrightarrow> length (drop k s) < length s"
  by (cases s) auto

lemma tl_shorter: "s \<noteq> [] \<Longrightarrow> length (tl s) < length s"
  by (cases s) auto

definition settled :: "(nat \<Rightarrow> str \<Rightarrow> ('a \<times> str) option) \<Rightarrow> str \<Rightarrow> 'a \<Rightarrow> str \<Rightarrow> bool" where
  "settled f s x r = (length r < length s \<and> (\<forall>n. length s - length r \<le> n \<longrightarrow> f n s = Some (x, r)))"

lemma settled_Suc:
  assumes "settled f s' y r'" "length s' < length s" "length r \<le> length r'"
    and "\<And>n. f n s' = Some (y, r') \<Longrightarrow> g (Suc n) s = Some (x, r)"
  shows "settled g s x r"
proof -
  have "g n s = Some (x, r)" if n: "length s - length r \<le> n" for n
  proof -
    obtain k where "n = Suc k" "length s' - length r' \<le> k" using n assms(1-3) by (cases n) (auto simp: settled_def)
    then show ?thesis using assms(1,4) by (simp add: settled_def)
  qed
  then show ?thesis using assms(1-3) by (simp add: settled_def)
qed

lemma settled_more:
  assumes "length r < length r'" "settled f s y r'" "\<And>n. f n s = Some (y, r') \<Longrightarrow> g (Suc n) s = Some (x, r)"
  shows "settled g s x r"
proof -
  have "g n s = Some (x, r)" if n: "length s - length r \<le> n" for n
  proof -
    obtain k where "n = Suc k" "length s - length r' \<le> k" using n assms(1,2) by (cases n) (auto simp: settled_def)
    then show ?thesis using assms(2,3) by (simp add: settled_def)
  qed
  then show ?thesis using assms(1,2) by (simp add: settled_def)
qed

lemma settled_both:
  assumes "settled f s y r'" "settled h u z r" "length u < length r'"
    and "\<And>n. f n s = Some (y, r') \<Longrightarrow> h n u = Some (z, r) \<Longrightarrow> g (Suc n) s = Some (x, r)"
  shows "settled g s x r"
proof -
  have "g n s = Some (x, r)" if n: "length s - length r \<le> n" for n
  proof -
    obtain k where "n = Suc k" "length s - length r' \<le> k" "length u - length r \<le> k"
      using n assms(1-3) by (cases n) (auto simp: settled_def)
    then show ?thesis using assms(1,2,4) by (simp add: settled_def)
  qed
  then show ?thesis using assms(1-3) by (simp add: settled_def)
qed

lemma settled_now: "length r < length s \<Longrightarrow> (\<And>n. g (Suc n) s = Some (x, r)) \<Longrightarrow> settled g s x r"
  by (auto simp: settled_def) (metis Suc_le_D diff_is_0_eq not_less zero_less_diff Suc_leI)

lemma scanner_fuel:
  "read_value m s = Some (v, r) \<Longrightarrow> settled read_value s v r"
  "read_items m s = Some (xs, r) \<Longrightarrow> settled read_items s xs r"
  "read_members m s = Some (kvs, r) \<Longrightarrow> settled read_members s kvs r"
proof (induction m s and m s and m s arbitrary: v r and xs r and kvs r rule: read_value_read_items_read_members.induct)
  case (2 n s)
  note run = 2(3) and items = 2(1) and members = 2(2)
  have s: "s \<noteq> []" using run by (auto split: if_splits)
  let ?t = "skip_ws (tl s)"
  have t: "length ?t < length s" using skip_ws_length [of "tl s"] tl_shorter [OF s] by simp
  consider "hd s = CHR ''[''" "hd s \<noteq> CHR 0x22" "\<not> (?t \<noteq> [] \<and> hd ?t = CHR '']'')"
    | "hd s = CHR ''{''" "hd s \<noteq> CHR 0x22" "hd s \<noteq> CHR ''[''" "\<not> (?t \<noteq> [] \<and> hd ?t = CHR ''}'')"
    | "\<And>k. read_value (Suc k) s = Some (v, r)" using run by (auto simp: Let_def split: if_splits)
  then show "settled read_value s v r"
  proof cases
    case 1
    then obtain ys where ys: "read_items n ?t = Some (ys, r)" "v = JArr ys" using run s by (auto simp: Let_def)
    show ?thesis using items [OF s 1(2,1) refl 1(3) ys(1)] t
      by (rule settled_Suc) (use 1 s ys in \<open>auto simp: Let_def\<close>)
  next
    case 2
    then obtain ys where ys: "read_members n ?t = Some (ys, r)" "v = JObj ys" "dict_ok ys"
      using run s by (auto simp: Let_def split: option.splits if_splits)
    show ?thesis using members [OF s 2(2,3,1) refl 2(4) ys(1)] t
      by (rule settled_Suc) (use 2 s ys in \<open>auto simp: Let_def\<close>)
  next
    case 3
    have "length r < length s"
      using 3 [of 0] s t tl_shorter [OF s] take_shorter [of 4 s] take_shorter [of 5 s] tl_shorter [of ?t]
      by (auto simp: Let_def split: if_splits dest: read_string_shorter read_number_shorter)
    then show ?thesis using 3 by (rule settled_now)
  qed
next
  case (4 n s)
  note val = 4(1) and items = 4(2) and run = 4(3)
  obtain x r0 where x: "read_value n s = Some (x, r0)" using run by (auto split: option.splits)
  let ?t = "skip_ws r0"
  have sx: "settled read_value s x r0" by (rule val [OF x])
  have t: "?t \<noteq> []" "length ?t \<le> length r0" using run x skip_ws_length by (auto simp: Let_def)
  show "settled read_items s xs r"
  proof (cases "hd ?t = CHR '']''")
    case True
    then have r: "xs = [x]" "r = tl ?t" using run x t by (auto simp: Let_def)
    then have "length r < length r0" using t(2) tl_shorter [OF t(1)] by (simp del: length_tl)
    from this sx show ?thesis by (rule settled_more) (use True r t in \<open>simp_all add: Let_def\<close>)
  next
    case False
    then obtain ys where ys: "hd ?t = CHR '',''" "read_items n (skip_ws (tl ?t)) = Some (ys, r)" "xs = x # ys"
      using run x t by (auto simp: Let_def split: if_splits)
    let ?u = "skip_ws (tl ?t)"
    have su: "settled read_items ?u ys r" by (rule items [OF x refl refl t(1) False ys(1,2)])
    have u: "length ?u < length r0" using tl_shorter [OF t(1)] t(2) skip_ws_length [of "tl ?t"] by linarith
    show ?thesis using sx su u by (rule settled_both) (use False ys t in \<open>simp add: Let_def\<close>)
  qed
next
  case (6 n s)
  note val = 6(1) and members = 6(2) and run = 6(3)
  have s: "s \<noteq> [] \<and> hd s = CHR 0x22" using run by (auto split: if_splits)
  obtain k y where k: "read_string (tl s) = Some (k, y)" using run by (auto split: if_splits option.splits)
  let ?c = "skip_ws y"
  have c: "?c \<noteq> [] \<and> hd ?c = CHR '':''" using run k by (auto simp: Let_def split: if_splits)
  let ?w = "skip_ws (tl ?c)"
  obtain x r0 where x: "read_value n ?w = Some (x, r0)" using run k c s by (auto simp: Let_def split: option.splits)
  let ?t = "skip_ws r0"
  have s': "\<not> (s = [] \<or> hd s \<noteq> CHR 0x22)" and c': "\<not> (?c = [] \<or> hd ?c \<noteq> CHR '':'')" using s c by simp_all
  have sx: "settled read_value ?w x r0" by (rule val [OF s' k refl refl c' x])
  have t: "?t \<noteq> []" "length ?t \<le> length r0" using run k c s x skip_ws_length by (auto simp: Let_def)
  have w: "length ?w < length s"
    using read_string_shorter [OF k] skip_ws_length [of y] skip_ws_length [of "tl ?c"] tl_shorter [of ?c] c tl_shorter [of s] s by linarith
  have one: "read_members (Suc m) s = (if hd ?t = CHR ''}'' then Some ([(k, x)], tl ?t)
      else if hd ?t = CHR '','' then map_option (map_prod ((#) (k, x)) id) (read_members m (skip_ws (tl ?t))) else None)"
    if "read_value m ?w = Some (x, r0)" for m using s k c t that by (simp add: Let_def)
  have sx': "settled (\<lambda>m _. read_value m ?w) s x r0" using sx w by (simp add: settled_def)
  show "settled read_members s kvs r"
  proof (cases "hd ?t = CHR ''}''")
    case True
    then have r: "kvs = [(k, x)]" "r = tl ?t" using run [unfolded one [OF x]] by auto
    then have "length r < length r0" using t(2) tl_shorter [OF t(1)] by (simp del: length_tl)
    from this sx' show ?thesis by (rule settled_more) (use True r one in simp_all)
  next
    case False
    then obtain ys where ys: "hd ?t = CHR '',''" "read_members n (skip_ws (tl ?t)) = Some (ys, r)" "kvs = (k, x) # ys"
      using run [unfolded one [OF x]] by (auto split: if_splits)
    let ?u = "skip_ws (tl ?t)"
    have su: "settled read_members ?u ys r" by (rule members [OF s' k refl refl c' x refl refl t(1) False ys(1,2)])
    have u: "length ?u < length r0" using tl_shorter [OF t(1)] t(2) skip_ws_length [of "tl ?t"] by linarith
    show ?thesis using sx' su u by (rule settled_both) (use False ys one in simp)
  qed
qed simp_all

lemma enough_steps:
  assumes "read_value m (skip_ws s) = Some (v, r)"
  shows "read_value (length s) (skip_ws s) = Some (v, r)"
  using scanner_fuel(1) [OF assms] skip_ws_length [of s] by (simp add: settled_def)

section \<open>Bytes and strings\<close>

lemma byte_split:
  fixes n :: nat
  assumes "128 \<le> n" "n < 256"
  shows "n div 64 = 2 \<or> n div 64 = 3" "192 + n div 64 < 256" "128 + n mod 64 < 256"
proof -
  have "128 div 64 \<le> n div 64" using assms(1) by (rule div_le_mono)
  moreover have "n div 64 < 4" using assms(2) by (simp add: less_mult_imp_div_less)
  ultimately show "n div 64 = 2 \<or> n div 64 = 3" "192 + n div 64 < 256" by auto
  have "n mod 64 < 64" by simp
  then show "128 + n mod 64 < 256" by linarith
qed

lemma code_iff: "(of_char c :: nat) = k \<longleftrightarrow> c = d" if "of_char d = k"
  using that of_char_eq_iff [where ?'a = nat, of c d] by auto

lemma utf8_round_trip: "utf8_decode (utf8 s) = Some s"
proof (induction s)
  case (Cons c s)
  let ?n = "of_char c :: nat"
  have n: "?n < 256" by (rule of_char_lt_256)
  have u: "utf8 (c # s) = utf8_char c @ utf8 s" by (simp add: utf8_def)
  show ?case
  proof (cases "?n < 128")
    case True
    then show ?thesis using Cons by (simp add: u utf8_char_def)
  next
    case False
    note q = byte_split(1) [OF leI [OF False] n] and k = byte_split(2,3) [OF leI [OF False] n]
    have b: "of_char (char_of (192 + ?n div 64) :: char) = (192 + ?n div 64 :: nat)"
      "of_char (char_of (128 + ?n mod 64) :: char) = (128 + ?n mod 64 :: nat)"
      using k by (simp_all only: of_char_of mod_less)
    have "utf8_char c = [char_of (192 + ?n div 64), char_of (128 + ?n mod 64)]" using False by (simp add: utf8_char_def Let_def)
    moreover have "64 * (192 + ?n div 64 - 192) + (128 + ?n mod 64 - 128) = ?n" by simp
    ultimately show ?thesis using q Cons unfolding u by (simp add: b del: of_char_of)
  qed
qed (simp add: utf8_def)

lemma hex_round_trip: "hex_value (hex_char n) = Some (n mod 16)"
proof -
  have "m \<in> {0, 1, 2, 3, 4, 5, 6, 7, 8, 9, 10, 11, 12, 13, 14, 15} \<Longrightarrow> hex_value (''0123456789abcdef'' ! m) = Some m" for m
    by (elim insertE) (simp_all add: hex_value_def)
  moreover have "n mod 16 \<in> {0, 1, 2, 3, 4, 5, 6, 7, 8, 9, 10, 11, 12, 13, 14, 15}" by (simp, presburger)
  ultimately show ?thesis by (simp only: hex_char_def)
qed

lemma read_escaped:
  "read_string (json_escape c @ t) = (case read_string t of None \<Rightarrow> None | Some (u, r) \<Rightarrow> Some (c # u, r))"
proof -
  let ?n = "of_char c :: nat"
  have iff: "?n = 34 \<longleftrightarrow> c = CHR 0x22" "?n = 92 \<longleftrightarrow> c = CHR 0x5C" "?n = 8 \<longleftrightarrow> c = CHR 0x08" "?n = 12 \<longleftrightarrow> c = CHR 0x0C"
    "?n = 10 \<longleftrightarrow> c = CHR 0x0A" "?n = 13 \<longleftrightarrow> c = CHR 0x0D" "?n = 9 \<longleftrightarrow> c = CHR 0x09"
    by (rule code_iff, simp)+
  show ?thesis
  proof (cases "c \<in> {CHR 0x22, CHR 0x5C, CHR 0x08, CHR 0x0C, CHR 0x0A, CHR 0x0D, CHR 0x09}")
    case True
    then show ?thesis by (elim insertE) (auto simp: json_escape_def read_escape_def split: option.split)
  next
    case False
    then have other: "?n \<noteq> 34" "?n \<noteq> 92" "?n \<noteq> 8" "?n \<noteq> 12" "?n \<noteq> 10" "?n \<noteq> 13" "?n \<noteq> 9" unfolding iff by simp_all
    show ?thesis
    proof (cases "?n < 32")
      case True
      have e: "json_escape c = CHR 0x5C # ''u00'' @ [hex_char (?n div 16), hex_char ?n]"
        unfolding json_escape_def Let_def using True other by simp
      have "?n div 16 < 16" using True by (simp add: less_mult_imp_div_less)
      then have "16 * (?n div 16 mod 16) + ?n mod 16 = ?n" by simp
      then have "read_escape (''u00'' @ [hex_char (?n div 16), hex_char ?n] @ t) = Some (c, t)"
        by (simp add: read_escape_def hex_round_trip)
      then show ?thesis by (simp add: e)
    next
      case False
      have "c \<noteq> CHR 0x22" "c \<noteq> CHR 0x5C" using other(1,2) unfolding iff by simp_all
      moreover have "json_escape c = [c]" unfolding json_escape_def Let_def using False other by simp
      ultimately show ?thesis using False by simp
    qed
  qed
qed

lemma read_json_string: "read_string (tl (json_string s) @ t) = Some (s, t)"
proof -
  have "read_string (concat (map json_escape s) @ CHR 0x22 # t) = Some (s, t)"
    by (induction s) (simp_all add: read_escaped)
  then show ?thesis by (simp add: json_string_def)
qed

section \<open>Numbers\<close>

lemma nat_text_digits: "list_all ascii_digit (nat_text n) \<and> nat_text n \<noteq> []"
proof (induction n rule: nat_text.induct)
  case (1 n)
  have d: "ascii_digit (char_of (48 + k))" if "k < 10" for k :: nat using that by (simp add: ascii_digit_def)
  show ?case using 1 d [of n] d [of "n mod 10"] by (subst (1 2) nat_text.simps) auto
qed

lemma num_nat_text: "num (nat_text n) = n"
proof (induction n rule: nat_text.induct)
  case (1 n)
  have d: "num [c] = of_char c - 48" for c by (simp add: num_def)
  show ?case
  proof (cases "n < 10")
    case True
    then show ?thesis by (subst nat_text.simps) (simp add: d)
  next
    case False
    have "n mod 10 < 10" by simp
    then have "48 + n mod 10 < 256" by linarith
    then show ?thesis using 1 False by (subst nat_text.simps) (simp add: num_append)
  qed
qed

lemma nat_text_hd: "0 < n \<Longrightarrow> hd (nat_text n) \<noteq> CHR ''0''"
proof (induction n rule: nat_text.induct)
  case (1 n)
  show ?case
  proof (cases "n < 10")
    case True
    have "(of_char (char_of (48 + n) :: char) :: nat) = 48 + n" using True by simp
    then have "char_of (48 + n) \<noteq> CHR ''0''" using 1(2) code_iff [of "CHR ''0''" 48 "char_of (48 + n)"] by simp
    then show ?thesis using True by (subst nat_text.simps) simp
  next
    case False
    then have "hd (nat_text (n div 10)) \<noteq> CHR ''0''" using 1 by simp
    then show ?thesis using False nat_text_digits [of "n div 10"] by (subst nat_text.simps) simp
  qed
qed

definition number_stops :: "str \<Rightarrow> bool" where
  "number_stops t = (t = [] \<or> \<not> ascii_digit (hd t))"

lemma read_nat_text:
  assumes "int (length (nat_text n)) \<le> digit_limit" "number_stops t"
  shows "read_digits (nat_text n @ t) = Some (n, t)"
proof -
  have all: "\<forall>c \<in> set (nat_text n). ascii_digit c" and ne: "nat_text n \<noteq> []" using nat_text_digits [of n] by (simp_all add: list_all_iff)
  have stop: "takeWhile ascii_digit t = []" "dropWhile ascii_digit t = t"
    using assms(2) by (cases t; simp add: number_stops_def)+
  have tw: "takeWhile ascii_digit (nat_text n @ t) = nat_text n" "dropWhile ascii_digit (nat_text n @ t) = t"
    using all stop by simp_all
  show ?thesis
  proof (cases "n = 0")
    case True
    then have "nat_text n = ''0''" by (simp add: nat_text.simps char_of_eq_iff)
    then show ?thesis using tw True by (simp add: read_digits_def)
  next
    case False
    then show ?thesis using tw ne assms(1) nat_text_hd [of n] by (simp add: read_digits_def Let_def num_nat_text)
  qed
qed

lemma read_int_text:
  assumes "int (length (nat_text (nat \<bar>i\<bar>))) \<le> digit_limit" "number_stops t"
  shows "read_number (int_text i @ t) = Some (i, t)"
proof (cases "i < 0")
  case True
  then have "nat \<bar>i\<bar> = nat (- i)" by simp
  then show ?thesis using True read_nat_text [OF assms] by (simp add: read_number_def int_text_def)
next
  case False
  then have e: "nat \<bar>i\<bar> = nat i" "int (nat i) = i" by simp_all
  obtain c r where c: "nat_text (nat i) = c # r" "ascii_digit c"
    using nat_text_digits [of "nat i"] by (cases "nat_text (nat i)") auto
  then have "c \<noteq> CHR ''-''" by (auto simp: ascii_digit_def)
  then show ?thesis using False read_nat_text [OF assms] c by (simp add: read_number_def int_text_def e)
qed


section \<open>Reading what was written\<close>

primrec keys_once :: "json \<Rightarrow> bool" where
  "keys_once JNull = True"
| "keys_once (JBool b) = True"
| "keys_once (JInt i) = True"
| "keys_once (JStr s) = True"
| "keys_once (JArr xs) = list_all id (map keys_once xs)"
| "keys_once (JObj kvs) = (dict_ok kvs \<and> list_all snd (map (map_prod id keys_once) kvs))"

definition starts_value :: "str \<Rightarrow> bool" where
  "starts_value s = (s \<noteq> [] \<and> \<not> json_space (hd s) \<and> hd s \<noteq> CHR '']'' \<and> hd s \<noteq> CHR ''}'')"

lemma starts_value_skip [simp]: "starts_value s \<Longrightarrow> skip_ws (s @ t) = s @ t"
  by (cases s) (auto simp: starts_value_def skip_ws_def)

lemma int_text_hd: "int_text i \<noteq> [] \<and> (hd (int_text i) = CHR ''-'' \<or> ascii_digit (hd (int_text i)))"
  using nat_text_digits [of "nat i"] by (cases "nat_text (nat i)") (auto simp: int_text_def)

lemma compact_text_starts: "starts_value (compact_text v)"
proof (cases v)
  case (JInt i)
  have "ascii_digit c \<Longrightarrow> \<not> json_space c \<and> c \<noteq> CHR '']'' \<and> c \<noteq> CHR ''}''" for c
    by (auto simp: ascii_digit_def json_space_def)
  then show ?thesis using JInt int_text_hd [of i] by (auto simp: starts_value_def json_space_def)
qed (auto simp: starts_value_def json_space_def json_string_def)

lemma read_int_value:
  assumes "ints_ok (JInt i)" "number_stops t"
  shows "read_value (Suc n) (int_text i @ t) = Some (JInt i, t)"
proof -
  obtain c s where c: "int_text i = c # s" "c = CHR ''-'' \<or> ascii_digit c" using int_text_hd [of i] by (cases "int_text i") auto
  then have "c \<notin> {CHR 0x22, CHR ''['', CHR ''{'', CHR ''n'', CHR ''t'', CHR ''f''}" by (auto simp: ascii_digit_def)
  then show ?thesis using c(1) read_int_text [of i t] assms by (auto simp: take_Cons' split: if_splits)
qed

lemma number_stops_simps [simp]:
  "number_stops []" "number_stops (CHR '','' # t)" "number_stops (CHR '']'' # t)" "number_stops (CHR ''}'' # t)"
  by (simp_all add: number_stops_def ascii_digit_def)

lemma items_start: "starts_value (joined '','' (map compact_text (x # xs)))"
  using compact_text_starts [of x] by (cases xs) (simp_all add: starts_value_def)

lemma read_items_text:
  assumes "\<And>x n t. x \<in> set xs \<Longrightarrow> length (compact_text x) \<le> n \<Longrightarrow> number_stops t \<Longrightarrow>
      read_value n (compact_text x @ t) = Some (x, t)"
    and "xs \<noteq> []" "length (joined '','' (map compact_text xs)) < n"
  shows "read_items n (joined '','' (map compact_text xs) @ CHR '']'' # t) = Some (xs, t)"
  using assms
proof (induction xs arbitrary: n rule: induct_list012)
  case (2 x)
  then obtain k where "n = Suc k" by (cases n) auto
  then show ?case using 2 by (simp add: skip_ws_def json_space_def)
next
  case (3 x y zs)
  then obtain k where k: "n = Suc k" by (cases n) auto
  let ?r = "joined '','' (map compact_text (y # zs))"
  have s: "starts_value ?r" by (rule items_start)
  have "read_items k (?r @ CHR '']'' # t) = Some (y # zs, t)" using 3(2-) k by (intro 3(2)) auto
  moreover have "read_value k (compact_text x @ CHR '','' # ?r @ CHR '']'' # t) = Some (x, CHR '','' # ?r @ CHR '']'' # t)"
    using 3(3,5) k by simp
  moreover have "skip_ws (CHR '','' # u) = CHR '','' # u" for u by (simp add: skip_ws_def json_space_def)
  ultimately show ?case using s k by simp
qed simp

definition member_text :: "str \<times> json \<Rightarrow> str" where
  "member_text p = json_string (fst p) @ '':'' @ compact_text (snd p)"

lemma member_text_quote: "member_text p = CHR 0x22 # tl (json_string (fst p)) @ CHR '':'' # compact_text (snd p)"
  by (simp add: member_text_def json_string_def)

lemma compact_text_object: "compact_text (JObj kvs) = ''{'' @ joined '','' (map member_text kvs) @ ''}''"
  by (simp add: member_text_def [abs_def] comp_def)

lemma read_member_text:
  assumes "read_value n (compact_text (snd p) @ t) = Some (snd p, t)" "t \<noteq> []" "\<not> json_space (hd t)"
  shows "read_members (Suc n) (member_text p @ t) =
    (if hd t = CHR ''}'' then Some ([p], tl t)
     else if hd t = CHR '','' then map_option (map_prod ((#) p) id) (read_members n (skip_ws (tl t))) else None)"
proof -
  have "skip_ws t = t" using assms(2,3) by (cases t) (simp_all add: skip_ws_def)
  moreover have "skip_ws (CHR '':'' # u) = CHR '':'' # u" for u by (simp add: skip_ws_def json_space_def)
  ultimately show ?thesis using assms(1,2) compact_text_starts [of "snd p"]
    by (simp add: member_text_quote read_json_string)
qed

lemma members_start: "starts_value (joined '','' (map member_text (p # ps)))"
  by (cases ps) (simp_all add: starts_value_def member_text_quote json_space_def)

lemma read_members_text:
  assumes "\<And>p n t. p \<in> set kvs \<Longrightarrow> length (compact_text (snd p)) \<le> n \<Longrightarrow> number_stops t \<Longrightarrow>
      read_value n (compact_text (snd p) @ t) = Some (snd p, t)"
    and "kvs \<noteq> []" "length (joined '','' (map member_text kvs)) < n"
  shows "read_members n (joined '','' (map member_text kvs) @ CHR ''}'' # t) = Some (kvs, t)"
  using assms
proof (induction kvs arbitrary: n rule: induct_list012)
  case (2 p)
  then obtain k where k: "n = Suc k" by (cases n) auto
  have "read_value k (compact_text (snd p) @ CHR ''}'' # t) = Some (snd p, CHR ''}'' # t)"
    using 2 k by (simp add: member_text_def)
  from read_member_text [OF this] show ?case using k by (simp add: json_space_def)
next
  case (3 p q r)
  then obtain k where k: "n = Suc k" by (cases n) auto
  let ?r = "joined '','' (map member_text (q # r))"
  have s: "starts_value ?r" by (rule members_start)
  have "read_members k (?r @ CHR ''}'' # t) = Some (q # r, t)" using 3(2-) k by (intro 3(2)) auto
  moreover have "read_value k (compact_text (snd p) @ CHR '','' # ?r @ CHR ''}'' # t) = Some (snd p, CHR '','' # ?r @ CHR ''}'' # t)"
    using 3(3,5) k by (simp add: member_text_def)
  from read_member_text [OF this]
  have "read_members (Suc k) (member_text p @ CHR '','' # ?r @ CHR ''}'' # t) =
      map_option (map_prod ((#) p) id) (read_members k (skip_ws (?r @ CHR ''}'' # t)))"
    by (simp add: json_space_def)
  ultimately show ?case using s k by simp
qed simp

lemma read_compact_text:
  assumes "keys_once v" "ints_ok v" "length (compact_text v) \<le> n" "number_stops t"
  shows "read_value n (compact_text v @ t) = Some (v, t)"
  using assms
proof (induction v arbitrary: n t)
  case (JInt i)
  then obtain k where "n = Suc k" using int_text_hd [of i] by (cases n) auto
  then show ?case using JInt read_int_value by simp
next
  case (JStr s)
  then obtain k where "n = Suc k" by (cases n) (auto simp: json_string_def)
  then show ?case using read_json_string [of s t] by (simp add: json_string_def)
next
  case (JArr xs)
  then obtain k where k: "n = Suc k" by (cases n) auto
  have "read_value m (compact_text x @ u) = Some (x, u)"
    if "x \<in> set xs" "length (compact_text x) \<le> m" "number_stops u" for x m u
    using JArr that by (auto simp: list_all_iff)
  note items = read_items_text [OF this, of xs k t]
  show ?case
  proof (cases xs)
    case Nil
    then show ?thesis using k by (simp add: skip_ws_def json_space_def)
  next
    case (Cons x ys)
    let ?r = "joined '','' (map compact_text (x # ys)) @ CHR '']'' # t"
    have "skip_ws ?r = ?r" "?r \<noteq> []" "hd ?r \<noteq> CHR '']''"
      using items_start [of x ys] by (simp_all add: starts_value_def)
    then show ?thesis using items JArr(4) k Cons by simp
  qed
next
  case (JObj kvs)
  then obtain k where k: "n = Suc k" by (cases n) auto
  have "read_value m (compact_text (snd p) @ u) = Some (snd p, u)"
    if "p \<in> set kvs" "length (compact_text (snd p)) \<le> m" "number_stops u" for p m u
    using JObj that by (auto simp: list_all_iff snds.simps)
  note members = read_members_text [OF this, of kvs k t]
  show ?case
  proof (cases kvs)
    case Nil
    then show ?thesis using k by (simp add: skip_ws_def json_space_def)
  next
    case (Cons p ps)
    let ?r = "joined '','' (map member_text (p # ps)) @ CHR ''}'' # t"
    have "skip_ws ?r = ?r" "?r \<noteq> []" "hd ?r \<noteq> CHR ''}''"
      using members_start [of p ps] by (simp_all add: starts_value_def)
    then show ?thesis using members JObj(2,4) k Cons by (simp add: compact_text_object del: compact_text.simps)
  qed
next
  case JNull
  then obtain k where "n = Suc k" by (cases n) auto
  then show ?case by simp
next
  case (JBool b)
  then obtain k where "n = Suc k" by (cases n) (auto split: if_splits)
  then show ?case by (cases b) simp_all
qed

lemma loads_compact_text:
  assumes "keys_once v" "ints_ok v"
  shows "json_loads (compact_text v) = Some v"
  using read_compact_text [OF assms order_refl, of "[]"] compact_text_starts [of v] starts_value_skip [of "compact_text v" "[]"]
  by (simp add: json_loads_def skip_ws_def)


section \<open>Canonical values\<close>

lemma canon_pairs_spec:
  "canon_pairs nfc d m acc kvs = Inr r \<Longrightarrow>
    \<exists>ps. r = acc @ ps \<and> length ps = length kvs \<and>
      (dict_ok acc \<longrightarrow> dict_ok r) \<and>
      list_all2 (\<lambda>p q. fst q = nfc (fst p) \<and> canon nfc d m (snd p) = Inr (snd q)) kvs ps \<and> (kvs \<noteq> [] \<longrightarrow> d \<le> m)"
proof (induction kvs arbitrary: acc)
  case (Cons p kvs)
  obtain k x where p: "p = (k, x)" by (cases p)
  then obtain y where y: "d \<le> m" "map_of acc (nfc k) = None" "canon nfc d m x = Inr y"
      "canon_pairs nfc d m (acc @ [(nfc k, y)]) kvs = Inr r"
    using Cons(2) by (auto split: if_splits sum.splits)
  have "dict_ok acc \<Longrightarrow> dict_ok (acc @ [(nfc k, y)])"
    using y(2) by (auto simp: dict_ok_def map_of_eq_None_iff)
  then show ?case using Cons(1) [OF y(4)] y p by auto
qed simp

lemma canon_pairs_intro:
  assumes "list_all (\<lambda>p. nfc (fst p) = fst p \<and> canon nfc d m (snd p) = Inr (snd p)) kvs" "dict_ok (acc @ kvs)"
    and "kvs \<noteq> [] \<longrightarrow> d \<le> m"
  shows "canon_pairs nfc d m acc kvs = Inr (acc @ kvs)"
  using assms
proof (induction kvs arbitrary: acc)
  case (Cons p kvs)
  then have "map_of acc (fst p) = None" by (auto simp: dict_ok_def map_of_eq_None_iff)
  moreover have "canon_pairs nfc d m (acc @ [p]) kvs = Inr ((acc @ [p]) @ kvs)"
    using Cons by (intro Cons(1)) simp_all
  ultimately show ?case using Cons(2,4) by (cases p) simp
qed simp

lemma list_all2_set2: "list_all2 P xs ys \<Longrightarrow> y \<in> set ys \<Longrightarrow> \<exists>x \<in> set xs. P x y"
  by (induction rule: list_all2_induct) auto

lemma canon_items_spec:
  "canon_items nfc d m xs = Inr ys \<Longrightarrow> list_all2 (\<lambda>x y. canon nfc d m x = Inr y) xs ys"
  by (induction xs arbitrary: ys) (auto split: sum.splits)

lemma canon_items_intro:
  "list_all (\<lambda>x. canon nfc d m x = Inr x) xs \<Longrightarrow> canon_items nfc d m xs = Inr xs"
  by (induction xs) simp_all

lemma canon_object:
  assumes "canon nfc d m (JObj kvs) = Inr r"
  obtains ps where "r = JObj (sort_key (\<lambda>p. utf8 (fst p)) ps)" "dict_ok ps" "d \<le> m" "kvs \<noteq> [] \<longrightarrow> d + 1 \<le> m"
    "list_all2 (\<lambda>p q. fst q = nfc (fst p) \<and> canon nfc (d + 1) m (snd p) = Inr (snd q)) kvs ps"
proof -
  obtain ps where ps: "canon_pairs nfc (d + 1) m [] kvs = Inr ps" "r = JObj (sort_key (\<lambda>p. utf8 (fst p)) ps)" "d \<le> m"
    using assms by (auto simp: canon.simps(1) split: if_splits sum.splits)
  show thesis using canon_pairs_spec [OF ps(1)] ps(2,3) that [of ps] by auto
qed

text \<open>A canonical value has no key twice, and is its own canonical value.\<close>

lemma canon_result:
  assumes "\<And>s. nfc (nfc s) = nfc s" "canon nfc d m v = Inr r"
  shows "keys_once r \<and> canon nfc d m r = Inr r"
  using assms(2)
proof (induction v arbitrary: d r)
  case (JStr s)
  then show ?case using assms(1) by (auto simp: canon.simps(1) split: if_splits)
next
  case (JArr xs)
  then obtain ys where ys: "r = JArr ys" "d \<le> m" "canon_items nfc (d + 1) m xs = Inr ys"
    by (auto simp: canon.simps(1) split: if_splits sum.splits)
  have "list_all (\<lambda>y. keys_once y \<and> canon nfc (d + 1) m y = Inr y) ys"
    using list_all2_set2 [OF canon_items_spec [OF ys(3)]] JArr(1) by (fastforce simp: list_all_iff)
  then show ?case using ys canon_items_intro [of nfc "d + 1" m ys] by (simp add: canon.simps(1) list_all_iff)
next
  case (JObj kvs)
  obtain ps where ps: "r = JObj (sort_key (\<lambda>p. utf8 (fst p)) ps)" "dict_ok ps" "d \<le> m" "kvs \<noteq> [] \<longrightarrow> d + 1 \<le> m"
      "list_all2 (\<lambda>p q. fst q = nfc (fst p) \<and> canon nfc (d + 1) m (snd p) = Inr (snd q)) kvs ps"
    using canon_object [OF JObj(2)] by blast
  let ?s = "sort_key (\<lambda>p. utf8 (fst p)) ps"
  have ok: "nfc (fst q) = fst q \<and> keys_once (snd q) \<and> canon nfc (d + 1) m (snd q) = Inr (snd q)" if q: "q \<in> set ps" for q
  proof -
    obtain p where p: "p \<in> set kvs" "fst q = nfc (fst p)" "canon nfc (d + 1) m (snd p) = Inr (snd q)"
      using list_all2_set2 [OF ps(5)] q by blast
    have "snd p \<in> Basic_BNFs.snds p" by (cases p) (simp add: snds.intros)
    then show ?thesis using JObj(1) [OF p(1) _ p(3)] p(2) assms(1) by simp
  qed
  have "mset (map fst ?s) = mset (map fst ps)" by simp
  then have d: "dict_ok ?s" using ps(2) unfolding dict_ok_def by (rule mset_eq_imp_distinct_iff [THEN iffD2])
  have e: "?s \<noteq> [] \<longrightarrow> d + 1 \<le> m" using ps(4,5) by (cases kvs) auto
  have "canon_pairs nfc (d + 1) m [] ?s = Inr ?s"
    using canon_pairs_intro [of nfc "d + 1" m ?s "[]"] ok d e by (simp add: list_all_iff)
  then show ?case using ps(1,3) ok d by (simp add: canon.simps(1) list_all_iff sort_key_id_if_sorted)
qed (auto simp: canon.simps(1) split: if_splits)

lemma canonical_json_reads_back:
  assumes "\<And>s. nfc (nfc s) = nfc s" "canonical_json nfc m v = Inr wire"
  obtains r where "canon nfc 0 m v = Inr r" "ints_ok r" "wire = utf8 (compact_text r)" "utf8_decode wire = Some (compact_text r)"
    "json_loads (compact_text r) = Some r" "canonical_json nfc m r = Inr wire"
proof -
  obtain r where r: "canon nfc 0 m v = Inr r" "ints_ok r" "wire = utf8 (compact_text r)" "m \<le> max_json_depth"
    using assms(2) by (auto simp: canonical_json_def split: if_splits sum.splits)
  note c = canon_result [OF assms(1) r(1)]
  show thesis using that r c loads_compact_text r(2) utf8_round_trip by (simp add: canonical_json_def)
qed

text \<open>Values with the same canonical bytes have the same canonical value.\<close>

lemma canonical_json_inj:
  assumes "\<And>s. nfc (nfc s) = nfc s" "canonical_json nfc m v = Inr w" "canonical_json nfc m' v' = Inr w"
  shows "canon nfc 0 m v = canon nfc 0 m' v'"
proof -
  obtain r where r: "canon nfc 0 m v = Inr r" "utf8_decode w = Some (compact_text r)" "json_loads (compact_text r) = Some r"
    using canonical_json_reads_back [OF assms(1,2)] by metis
  obtain r' where r': "canon nfc 0 m' v' = Inr r'" "utf8_decode w = Some (compact_text r')" "json_loads (compact_text r') = Some r'"
    using canonical_json_reads_back [OF assms(1,3)] by metis
  show ?thesis using r r' by simp
qed


text \<open>A value that is canonical at some depth is so nearer to the root.\<close>

lemma canon_pairs_mono:
  assumes "\<And>p y. p \<in> set kvs \<Longrightarrow> canon nfc d m (snd p) = Inr y \<Longrightarrow> canon nfc d' m (snd p) = Inr y" "d' \<le> d"
  shows "canon_pairs nfc d m acc kvs = Inr r \<Longrightarrow> canon_pairs nfc d' m acc kvs = Inr r"
  using assms(1)
proof (induction kvs arbitrary: acc)
  case (Cons p kvs)
  then show ?case using assms(2) by (cases p) (fastforce split: if_splits sum.splits)
qed simp

lemma canon_items_mono:
  assumes "\<And>x y. x \<in> set xs \<Longrightarrow> canon nfc d m x = Inr y \<Longrightarrow> canon nfc d' m x = Inr y"
  shows "canon_items nfc d m xs = Inr r \<Longrightarrow> canon_items nfc d' m xs = Inr r"
  using assms
proof (induction xs arbitrary: r)
  case (Cons x xs)
  obtain y ys where y: "canon nfc d m x = Inr y" "canon_items nfc d m xs = Inr ys" "r = y # ys"
    using Cons(2) by (auto split: sum.splits)
  have "canon_items nfc d' m xs = Inr ys" by (rule Cons(1) [OF y(2) Cons(3)]) auto
  moreover have "canon nfc d' m x = Inr y" by (rule Cons(3) [OF _ y(1)]) simp
  ultimately show ?case using y(3) by simp
qed simp

lemma canon_mono: "canon nfc d m v = Inr r \<Longrightarrow> d' \<le> d \<Longrightarrow> canon nfc d' m v = Inr r"
proof (induction v arbitrary: d d' r)
  case (JArr xs)
  have i: "canon nfc (d' + 1) m x = Inr y" if "x \<in> set xs" "canon nfc (d + 1) m x = Inr y" for x y
    using JArr(1) [OF that] JArr(3) by simp
  show ?case using JArr(2,3) canon_items_mono [OF i, of xs]
    by (auto simp: canon.simps(1) split: if_splits sum.splits)
next
  case (JObj kvs)
  have "snd p \<in> Basic_BNFs.snds p" for p :: "str \<times> json" by (cases p) (simp add: snds.intros)
  then have i: "canon nfc (d' + 1) m (snd p) = Inr y" if "p \<in> set kvs" "canon nfc (d + 1) m (snd p) = Inr y" for p y
    using that JObj(1) [of p "snd p" "d + 1" y "d' + 1"] JObj(3) by simp
  show ?case using JObj(2,3) canon_pairs_mono [OF i, of kvs]
    by (auto simp: canon.simps(1) split: if_splits sum.splits)
qed (auto simp: canon.simps(1) split: if_splits)

text \<open>Objects with the same fields have the same canonical order.\<close>

lemma utf8_inj: "inj utf8"
  by (rule inj_on_inverseI [of _ "\<lambda>b. the (utf8_decode b)"]) (simp add: utf8_round_trip)

lemma sorted_fields_unique:
  assumes "dict_ok ps" "dict_ok qs" "map_of ps = map_of qs"
  shows "sort_key (\<lambda>p. utf8 (fst p)) ps = sort_key (\<lambda>p. utf8 (fst p)) qs"
proof -
  have "set ps = set qs" using assms by (auto simp: dict_mem_iff)
  then have "mset ps = mset qs"
    using assms(1,2) by (simp add: dict_ok_def distinct_map set_eq_iff_mset_eq_distinct)
  moreover have "inj_on (\<lambda>p. utf8 (fst p)) (set ps)"
    using assms(1) utf8_inj by (auto simp: dict_ok_def distinct_map inj_on_def)
  ultimately show ?thesis by (intro sort_key_inj_key_eq) simp_all
qed

lemma map_of_canonical_order: "dict_ok ps \<Longrightarrow> map_of (sort_key f ps) = map_of ps"
proof
  fix k
  assume d: "dict_ok ps"
  have "mset (map fst (sort_key f ps)) = mset (map fst ps)" by simp
  then have "dict_ok (sort_key f ps)" using d unfolding dict_ok_def by (rule mset_eq_imp_distinct_iff [THEN iffD2])
  then have iff: "map_of (sort_key f ps) k = Some v \<longleftrightarrow> map_of ps k = Some v" for v
    using d by (simp flip: dict_mem_iff)
  show "map_of (sort_key f ps) k = map_of ps k"
  proof (cases "map_of ps k")
    case None
    then show ?thesis using iff by (metis not_Some_eq)
  next
    case (Some v)
    then show ?thesis using iff [of v] by simp
  qed
qed

lemma canon_fields:
  assumes "canon nfc d m (JObj kvs) = Inr r" "\<And>k. k \<in> fst ` set kvs \<Longrightarrow> nfc k = k"
  obtains ps where "r = JObj (sort_key (\<lambda>p. utf8 (fst p)) ps)" "dict_ok ps" "map fst ps = map fst kvs"
    "\<And>k v. map_of kvs k = Some v \<Longrightarrow> \<exists>y. map_of ps k = Some y \<and> canon nfc (d + 1) m v = Inr y"
proof -
  obtain ps where ps: "r = JObj (sort_key (\<lambda>p. utf8 (fst p)) ps)" "dict_ok ps"
      "list_all2 (\<lambda>p q. fst q = nfc (fst p) \<and> canon nfc (d + 1) m (snd p) = Inr (snd q)) kvs ps"
    using canon_object [OF assms(1)] by blast
  have "map fst ps = map fst kvs \<and>
      (\<forall>k v. map_of kvs k = Some v \<longrightarrow> (\<exists>y. map_of ps k = Some y \<and> canon nfc (d + 1) m v = Inr y))"
    using ps(3) assms(2)
  proof (induction rule: list_all2_induct)
    case (Cons p kvs q ps)
    have "nfc (fst p) = fst p" using Cons(4) by simp
    moreover note Cons(3) [OF Cons(4)]
    ultimately show ?case using Cons(1) by (cases p; cases q) auto
  qed simp
  then show thesis using that ps(1,2) by blast
qed


text \<open>A canonical object is in order, and its values are canonical.\<close>

lemma canonical_object:
  assumes "\<And>s. nfc (nfc s) = nfc s" "canon nfc d m (JObj kvs) = Inr (JObj kvs)"
  shows "dict_ok kvs" "sort_key (\<lambda>p. utf8 (fst p)) kvs = kvs"
    "(k, v) \<in> set kvs \<Longrightarrow> canon nfc (d + 1) m v = Inr v"
proof -
  obtain ps where ps: "kvs = sort_key (\<lambda>p. utf8 (fst p)) ps" "dict_ok ps"
      "list_all2 (\<lambda>p q. fst q = nfc (fst p) \<and> canon nfc (d + 1) m (snd p) = Inr (snd q)) kvs ps"
    using canon_object [OF assms(2)] by blast
  show d: "dict_ok kvs" using canon_result [OF assms] by simp
  show "sort_key (\<lambda>p. utf8 (fst p)) kvs = kvs" by (simp add: ps(1) sort_key_id_if_sorted)
  have keys: "nfc k = k" if k: "k \<in> fst ` set kvs" for k
  proof -
    obtain q where q: "q \<in> set ps" "k = fst q" using k ps(1) by auto
    then show ?thesis using list_all2_set2 [OF ps(3) q(1)] assms(1) by auto
  qed
  have eq: "map_of kvs = map_of ps" by (simp add: ps(1) map_of_canonical_order ps(2))
  show "(k, v) \<in> set kvs \<Longrightarrow> canon nfc (d + 1) m v = Inr v"
  proof -
    assume "(k, v) \<in> set kvs"
    then have kv: "map_of kvs k = Some v" using d by (simp add: dict_mem_iff)
    show ?thesis
    proof (rule canon_fields [OF assms(2) keys])
      fix qs
      assume qs: "JObj kvs = JObj (sort_key (\<lambda>p. utf8 (fst p)) qs)" "dict_ok qs"
        and val: "\<And>k v. map_of kvs k = Some v \<Longrightarrow> \<exists>y. map_of qs k = Some y \<and> canon nfc (d + 1) m v = Inr y"
      have "map_of kvs = map_of qs" using qs(1) map_of_canonical_order [OF qs(2)] by simp
      then show "canon nfc (d + 1) m v = Inr v" using val [OF kv] kv by simp
    qed
  qed
qed

end
