(* ===== verification/Peer_Envelope.thy ===== *)
theory Peer_Envelope
  imports Canonical_Json
begin

text \<open>
  The signed envelopes of \<open>src/agency/peer_envelope.py\<close>: the closed header, the structural decoder of a
  wire, signing, and verification against four checks of the caller.

  Ed25519, SHA-256 and Unicode normalisation are a parameter, \<open>peer_crypto\<close>, with the laws of
  \<open>crypto_ok\<close>. A public key is its 32 raw bytes. A check is given a copy of the envelope and may raise,
  answer, and change its copy; a copy that is no longer of JSON types is \<open>None\<close>.
\<close>

section \<open>Base64 and hex\<close>

definition b64_char :: "nat \<Rightarrow> char" where
  "b64_char n = ''ABCDEFGHIJKLMNOPQRSTUVWXYZabcdefghijklmnopqrstuvwxyz0123456789+/'' ! n"

definition b64_value :: "char \<Rightarrow> nat option" where
  "b64_value c = (let n = (of_char c :: nat) in
     if 65 \<le> n \<and> n \<le> 90 then Some (n - 65) else if 97 \<le> n \<and> n \<le> 122 then Some (n - 71)
     else if 48 \<le> n \<and> n \<le> 57 then Some (n + 4) else if n = 43 then Some 62 else if n = 47 then Some 63 else None)"

fun b64_encode :: "str \<Rightarrow> str" where
  "b64_encode [] = []"
| "b64_encode [a] = (let x = of_char a in [b64_char (x div 4), b64_char (x mod 4 * 16), CHR ''='', CHR ''=''])"
| "b64_encode [a, b] = (let x = of_char a; y = of_char b in
     [b64_char (x div 4), b64_char (x mod 4 * 16 + y div 16), b64_char (y mod 16 * 4), CHR ''=''])"
| "b64_encode (a # b # c # r) = (let x = of_char a; y = of_char b; z = of_char c in
     [b64_char (x div 4), b64_char (x mod 4 * 16 + y div 16), b64_char (y mod 16 * 4 + z div 64), b64_char (z mod 64)]
     @ b64_encode r)"

fun b64_decode :: "str \<Rightarrow> str option" where
  "b64_decode [] = Some []"
| "b64_decode (a # b # c # d # r) =
     (case (b64_value a, b64_value b, b64_value c, b64_value d) of
        (Some w, Some x, Some y, Some z) \<Rightarrow>
          map_option (\<lambda>bs. char_of (4 * w + x div 16) # char_of (x mod 16 * 16 + y div 4) # char_of (y mod 4 * 64 + z) # bs)
            (b64_decode r)
      | (Some w, Some x, Some y, None) \<Rightarrow>
          if d = CHR ''='' \<and> r = [] then Some [char_of (4 * w + x div 16), char_of (x mod 16 * 16 + y div 4)] else None
      | (Some w, Some x, None, None) \<Rightarrow>
          if c = CHR ''='' \<and> d = CHR ''='' \<and> r = [] then Some [char_of (4 * w + x div 16)] else None
      | _ \<Rightarrow> None)"
| "b64_decode _ = None"

definition hex_text :: "str \<Rightarrow> str" where
  "hex_text bs = concat (map (\<lambda>b. [hex_char (of_char b div 16), hex_char (of_char b)]) bs)"

fun from_hex :: "str \<Rightarrow> str option" where
  "from_hex [] = Some []"
| "from_hex (a # b # r) =
     (case (hex_value a, hex_value b) of
        (Some x, Some y) \<Rightarrow> map_option ((#) (char_of (16 * x + y))) (from_hex r)
      | _ \<Rightarrow> None)"
| "from_hex [_] = None"

lemma b64_value_char: "n < 64 \<Longrightarrow> b64_value (b64_char n) = Some n"
proof -
  have "list_all (\<lambda>n. b64_value (b64_char n) = Some n) (0 # [1..<64])"
    by (simp add: upt_rec_numeral upt_conv_Cons b64_char_def b64_value_def)
  then show "n < 64 \<Longrightarrow> b64_value (b64_char n) = Some n" by (cases n) (simp_all add: list_all_iff)
qed

lemma b64_value_pad: "b64_value (CHR ''='') = None" by (simp add: b64_value_def)

lemma carry: "(u * k + v) div k = u" "(u * k + v) mod k = v" if "v < k" for u k v :: nat
  using that by simp_all

lemma div_bound: "x div k < n" if "x < n * k" for x k n :: nat
  using that by (simp add: less_mult_imp_div_less)

lemma sextet_bounds:
  fixes x y z :: nat
  assumes "x < 256" "y < 256" "z < 256"
  shows "x div 4 < 64" "x mod 4 * 16 < 64" "x mod 4 * 16 + y div 16 < 64" "y mod 16 * 4 < 64"
    "y mod 16 * 4 + z div 64 < 64" "z mod 64 < 64"
proof -
  have m: "x mod 4 < 4" "y mod 16 < 16" by simp_all
  have d: "x div 4 < 64" "y div 16 < 16" "z div 64 < 4" using assms by (simp_all add: div_bound)
  show "x div 4 < 64" "x mod 4 * 16 < 64" "x mod 4 * 16 + y div 16 < 64" "y mod 16 * 4 < 64"
    "y mod 16 * 4 + z div 64 < 64" "z mod 64 < 64" using m d by linarith+
qed

lemma sextet_bytes:
  fixes x y z :: nat
  assumes "x < 256" "y < 256" "z < 256"
  shows "4 * (x div 4) + x mod 4 * 16 div 16 = x" "4 * (x div 4) + (x mod 4 * 16 + y div 16) div 16 = x"
    "(x mod 4 * 16 + y div 16) mod 16 * 16 + y mod 16 * 4 div 4 = y"
    "(x mod 4 * 16 + y div 16) mod 16 * 16 + (y mod 16 * 4 + z div 64) div 4 = y"
    "(y mod 16 * 4 + z div 64) mod 4 * 64 + z mod 64 = z"
proof -
  have d: "y div 16 < 16" "z div 64 < 4" using assms by (simp_all add: div_bound)
  show "4 * (x div 4) + x mod 4 * 16 div 16 = x" "4 * (x div 4) + (x mod 4 * 16 + y div 16) div 16 = x"
    "(x mod 4 * 16 + y div 16) mod 16 * 16 + y mod 16 * 4 div 4 = y"
    "(x mod 4 * 16 + y div 16) mod 16 * 16 + (y mod 16 * 4 + z div 64) div 4 = y"
    "(y mod 16 * 4 + z div 64) mod 4 * 64 + z mod 64 = z"
    by (simp_all only: carry [OF d(1)] carry [OF d(2)] mult_div_mod_eq div_mult_mod_eq nonzero_mult_div_cancel_right
        zero_neq_numeral not_False_eq_True simp_thms)
qed

lemma b64_round_trip: "b64_decode (b64_encode bs) = Some bs"
proof -
  note b = sextet_bounds [OF of_char_lt_256 of_char_lt_256 of_char_lt_256]
    and s = sextet_bytes [OF of_char_lt_256 of_char_lt_256 of_char_lt_256]
  note v = b [THEN b64_value_char]
  show ?thesis by (induction bs rule: b64_encode.induct) (simp_all only: b64_encode.simps b64_decode.simps Let_def
        append.simps v s b64_value_pad prod.case option.case option.map char_of_char simp_thms if_True)
qed

lemma from_hex_text: "from_hex (hex_text bs) = Some bs"
proof (induction bs)
  case (Cons b bs)
  have "(of_char b :: nat) div 16 < 16" using of_char_lt_256 [of b] by (simp add: less_mult_imp_div_less)
  then have "16 * ((of_char b :: nat) div 16 mod 16) + of_char b mod 16 = of_char b" by simp
  then show ?case using Cons by (simp add: hex_text_def hex_round_trip)
qed (simp add: hex_text_def)


section \<open>The header\<close>

record peer_crypto =
  pc_nfc :: "str \<Rightarrow> str"
  pc_sha :: "str \<Rightarrow> str"
  pc_public :: "str \<Rightarrow> str"
  pc_sign :: "str \<Rightarrow> str \<Rightarrow> str"
  pc_verify :: "str \<Rightarrow> str \<Rightarrow> str \<Rightarrow> bool"

definition proto :: str where
  "proto = ''agency-known-peer/1''"

definition sig_prefix :: str where
  "sig_prefix = ''agency-known-peer/1|sig-v1|''"

definition envelope_kinds :: "str list" where
  "envelope_kinds = [''proposal'', ''ballot'', ''membership'', ''decision-certificate'', ''grant'', ''heartbeat'',
     ''recovery-request'', ''recovery-response'']"

definition header_fields :: "str list" where
  "header_fields = [''proto'', ''kind'', ''sender_peer_id'', ''membership_epoch'', ''membership_root'', ''msg_id'',
     ''monotonic_seq'', ''issued_at_ms'', ''expires_at_ms'', ''correlation_id'', ''payload_digest'']"

definition input_fields :: "str list" where
  "input_fields = filter (\<lambda>k. k \<noteq> ''payload_digest'') header_fields"

definition envelope_fields :: "str list" where
  "envelope_fields = header_fields @ [''envelope_digest'', ''payload'', ''signature'']"

definition signature_fields :: "str list" where
  "signature_fields = [''alg'', ''key_id'', ''sig'']"

definition max_u64 :: int where
  "max_u64 = 2 ^ 64 - 1"

definition min_i64 :: int where
  "min_i64 = - (2 ^ 63)"

definition max_i64 :: int where
  "max_i64 = 2 ^ 63 - 1"

definition max_wire_bytes :: nat where
  "max_wire_bytes = 65536"

text \<open>\<open>value[key]\<close> of an object whose keys \<open>closed_fields\<close> has checked.\<close>

definition field :: "json \<Rightarrow> str \<Rightarrow> json" where
  "field v k = (case v of JObj kvs \<Rightarrow> (case map_of kvs k of Some x \<Rightarrow> x | None \<Rightarrow> JNull) | _ \<Rightarrow> JNull)"

definition closed_fields :: "json \<Rightarrow> str list \<Rightarrow> bool" where
  "closed_fields v keys = (case v of JObj kvs \<Rightarrow> set (map fst kvs) = set keys | _ \<Rightarrow> False)"

definition lower_hex :: "char \<Rightarrow> bool" where
  "lower_hex c = (let n = (of_char c :: nat) in 48 \<le> n \<and> n \<le> 57 \<or> 97 \<le> n \<and> n \<le> 102)"

definition integer_in :: "json \<Rightarrow> int \<Rightarrow> int \<Rightarrow> bool" where
  "integer_in v lo hi = (case v of JInt i \<Rightarrow> lo \<le> i \<and> i \<le> hi | _ \<Rightarrow> False)"

definition digest_text :: "json \<Rightarrow> bool" where
  "digest_text v = (case v of JStr s \<Rightarrow> length s = 64 \<and> list_all lower_hex s | _ \<Rightarrow> False)"

definition peer_text :: "json \<Rightarrow> bool" where
  "peer_text v = (case v of
     JStr s \<Rightarrow> take 5 s = ''peer_'' \<and> length s = 37 \<and> list_all lower_hex (drop 5 s) | _ \<Rightarrow> False)"

definition bound_msg_id :: "json \<Rightarrow> bool" where
  "bound_msg_id v =
     (case (field v ''sender_peer_id'', field v ''monotonic_seq'') of
        (JStr s, JInt n) \<Rightarrow> field v ''msg_id'' = JStr (s @ '':'' @ int_text n)
      | _ \<Rightarrow> False)"

definition expiry_after_issue :: "json \<Rightarrow> bool" where
  "expiry_after_issue v =
     (case (field v ''issued_at_ms'', field v ''expires_at_ms'') of (JInt i, JInt x) \<Rightarrow> i < x | _ \<Rightarrow> False)"

text \<open>The tests of \<open>_validate_header\<close>, in order, each with the message of its failure.\<close>

definition header_tests :: "bool \<Rightarrow> json \<Rightarrow> (bool \<times> str) list" where
  "header_tests signing v =
     [(closed_fields v (if signing then input_fields else header_fields), ''invalid header fields''),
      (field v ''proto'' = JStr proto \<and> (\<exists>k \<in> set envelope_kinds. field v ''kind'' = JStr k), ''unsupported protocol or kind''),
      (peer_text (field v ''sender_peer_id''), ''invalid sender_peer_id''),
      (integer_in (field v ''membership_epoch'') 0 max_u64, ''invalid membership_epoch''),
      (digest_text (field v ''membership_root''), ''invalid membership_root''),
      (integer_in (field v ''monotonic_seq'') 0 max_u64, ''invalid monotonic_seq''),
      (bound_msg_id v, ''msg_id does not bind sender and sequence''),
      (integer_in (field v ''issued_at_ms'') min_i64 max_i64, ''invalid issued_at_ms''),
      (integer_in (field v ''expires_at_ms'') min_i64 max_i64, ''invalid expires_at_ms''),
      (expiry_after_issue v, ''expiry is not after issue''),
      ((case field v ''correlation_id'' of JStr s \<Rightarrow> s \<noteq> [] | _ \<Rightarrow> False), ''invalid correlation_id'')]
     @ (if signing then [] else [(digest_text (field v ''payload_digest''), ''invalid payload_digest'')])"

primrec first_failure :: "(bool \<times> str) list \<Rightarrow> str option" where
  "first_failure [] = None"
| "first_failure (t # ts) = (if fst t then first_failure ts else Some (snd t))"

definition validate_header :: "bool \<Rightarrow> json \<Rightarrow> str option" where
  "validate_header signing v = first_failure (header_tests signing v)"

definition guarded :: "'e option \<Rightarrow> ('e, 'a) res \<Rightarrow> ('e, 'a) res" where
  "guarded e k = (case e of Some m \<Rightarrow> Inl m | None \<Rightarrow> k)"

section \<open>Decoding\<close>

definition peer_fingerprint :: "str \<Rightarrow> str" where
  "peer_fingerprint pk = hex_text pk"

definition peer_id :: "peer_crypto \<Rightarrow> str \<Rightarrow> str" where
  "peer_id cr pk = ''peer_'' @ take 32 (hex_text (pc_sha cr pk))"

definition signature_bytes :: "json \<Rightarrow> (str, str) res" where
  "signature_bytes v =
     (case v of
        JStr s \<Rightarrow>
          (case b64_decode s of
             None \<Rightarrow> Inl ''invalid signature encoding''
           | Some raw \<Rightarrow>
               if length raw \<noteq> 64 \<or> b64_encode raw \<noteq> s then Inl ''invalid signature length or noncanonical base64''
               else Inr raw)
      | _ \<Rightarrow> Inl ''invalid signature encoding'')"

definition header_of :: "json \<Rightarrow> json" where
  "header_of v = JObj (map (\<lambda>k. (k, field v k)) header_fields)"

definition envelope_tests :: "json \<Rightarrow> (bool \<times> str) list" where
  "envelope_tests v =
     [(closed_fields v envelope_fields, ''invalid envelope fields'')]
     @ header_tests False (header_of v)
     @ [(digest_text (field v ''envelope_digest''), ''invalid envelope_digest''),
        ((case field v ''payload'' of JObj _ \<Rightarrow> True | _ \<Rightarrow> False), ''payload must be an object''),
        (closed_fields (field v ''signature'') signature_fields, ''invalid signature fields''),
        (field (field v ''signature'') ''alg'' = JStr ''Ed25519'', ''unsupported signature algorithm''),
        (digest_text (field (field v ''signature'') ''key_id''), ''invalid key_id'')]"

definition parse_wire :: "peer_crypto \<Rightarrow> nat \<Rightarrow> str \<Rightarrow> json option" where
  "parse_wire cr max_depth wire =
     (case utf8_decode wire of
        None \<Rightarrow> None
      | Some t \<Rightarrow>
          (case json_loads t of
             None \<Rightarrow> None
           | Some v \<Rightarrow> if canonical_json (pc_nfc cr) max_depth v = Inr wire then Some v else None))"

definition decode_envelope :: "peer_crypto \<Rightarrow> nat \<Rightarrow> nat \<Rightarrow> str \<Rightarrow> (str, json) res" where
  "decode_envelope cr max_wire max_depth wire =
     (if max_wire = 0 \<or> max_wire > max_wire_bytes then Inl ''invalid wire or size bound''
      else if wire = [] \<or> length wire > max_wire then Inl ''wire size limit exceeded''
      else case parse_wire cr max_depth wire of
          None \<Rightarrow> Inl ''invalid canonical JSON wire encoding''
        | Some v \<Rightarrow>
            guarded (first_failure (envelope_tests v))
              (case signature_bytes (field (field v ''signature'') ''sig'') of Inl e \<Rightarrow> Inl e | Inr _ \<Rightarrow> Inr v))"

section \<open>Signing\<close>

definition sign_envelope :: "peer_crypto \<Rightarrow> (str \<times> json) list \<Rightarrow> json \<Rightarrow> str \<Rightarrow> (str, str) res" where
  "sign_envelope cr header payload key =
     guarded (validate_header True (JObj header))
      (if field (JObj header) ''sender_peer_id'' \<noteq> JStr (peer_id cr (pc_public cr key)) then Inl ''sender does not match signing key''
       else if (case payload of JObj _ \<Rightarrow> False | _ \<Rightarrow> True) then Inl ''payload must be an object''
       else case canonical_json (pc_nfc cr) max_json_depth payload of
           Inl e \<Rightarrow> Inl e
         | Inr body \<Rightarrow>
             (let fields = header @ [(''payload_digest'', JStr (hex_text (pc_sha cr body)))] in
              case canonical_json (pc_nfc cr) max_json_depth (JObj fields) of
                Inl e \<Rightarrow> Inl e
              | Inr head \<Rightarrow>
                  (let digest = pc_sha cr head;
                       envelope = JObj (fields @
                         [(''envelope_digest'', JStr (hex_text digest)), (''payload'', payload),
                          (''signature'', JObj
                            [(''alg'', JStr ''Ed25519''), (''key_id'', JStr (peer_fingerprint (pc_public cr key))),
                             (''sig'', JStr (b64_encode (pc_sign cr key (sig_prefix @ digest))))])]) in
                   case canonical_json (pc_nfc cr) max_json_depth envelope of
                     Inl e \<Rightarrow> Inl e
                   | Inr wire \<Rightarrow>
                       (case decode_envelope cr max_wire_bytes max_json_depth wire of Inl e \<Rightarrow> Inl e | Inr _ \<Rightarrow> Inr wire))))"

section \<open>Verification\<close>

primrec same_decoded_json :: "json \<Rightarrow> json \<Rightarrow> bool" where
  "same_decoded_json JNull c = (c = JNull)"
| "same_decoded_json (JBool b) c = (c = JBool b)"
| "same_decoded_json (JInt i) c = (c = JInt i)"
| "same_decoded_json (JStr s) c = (c = JStr s)"
| "same_decoded_json (JArr xs) c =
     (case c of JArr ys \<Rightarrow> length xs = length ys \<and> list_all2 (\<lambda>f y. f y) (map same_decoded_json xs) ys | _ \<Rightarrow> False)"
| "same_decoded_json (JObj kvs) c =
     (case c of
        JObj m \<Rightarrow> set (map fst kvs) = set (map fst m) \<and>
          list_all (\<lambda>p. case map_of m (fst p) of Some y \<Rightarrow> snd p y | None \<Rightarrow> False) (map (map_prod id same_decoded_json) kvs)
      | _ \<Rightarrow> False)"

datatype answer =
    Raised str
  | Answered bool "json option"

record validators =
  va_transport :: "(json \<Rightarrow> answer) option"
  va_membership :: "(json \<Rightarrow> str \<Rightarrow> answer) option"
  va_replay :: "(json \<Rightarrow> answer) option"
  va_expiry :: "(json \<Rightarrow> answer) option"

definition checked :: "json \<Rightarrow> answer \<Rightarrow> str option" where
  "checked env a =
     (case a of
        Raised e \<Rightarrow> Some e
      | Answered ok c \<Rightarrow>
          if \<not> ok then Some ''external prerequisite failed''
          else if (case c of None \<Rightarrow> True | Some v \<Rightarrow> \<not> same_decoded_json env v)
          then Some ''validator mutated signed envelope'' else None)"

definition authentication_error :: "peer_crypto \<Rightarrow> str \<Rightarrow> json \<Rightarrow> str option" where
  "authentication_error cr pk env =
     (if field env ''sender_peer_id'' \<noteq> JStr (peer_id cr pk) then Some ''sender does not match public key''
      else if field (field env ''signature'') ''key_id'' \<noteq> JStr (peer_fingerprint pk) then Some ''key fingerprint mismatch''
      else case (case field env ''envelope_digest'' of JStr d \<Rightarrow> from_hex d | _ \<Rightarrow> None) of
          None \<Rightarrow> Some ''non-hexadecimal digest''
        | Some digest \<Rightarrow>
            (case signature_bytes (field (field env ''signature'') ''sig'') of
               Inl e \<Rightarrow> Some e
             | Inr sig \<Rightarrow>
                 if \<not> pc_verify cr pk sig (sig_prefix @ digest) then Some ''invalid Ed25519 signature''
                 else (case canonical_json (pc_nfc cr) max_json_depth (field env ''payload'') of
                     Inl e \<Rightarrow> Some e
                   | Inr body \<Rightarrow>
                       if field env ''payload_digest'' \<noteq> JStr (hex_text (pc_sha cr body)) then Some ''payload digest mismatch''
                       else (case canonical_json (pc_nfc cr) max_json_depth (header_of env) of
                           Inl e \<Rightarrow> Some e
                         | Inr head \<Rightarrow>
                             if field env ''envelope_digest'' \<noteq> JStr (hex_text (pc_sha cr head))
                             then Some ''envelope digest mismatch'' else None))))"

definition verify_envelope :: "peer_crypto \<Rightarrow> validators \<Rightarrow> str \<Rightarrow> str \<Rightarrow> (str, json) res" where
  "verify_envelope cr vs wire pk =
     (case decode_envelope cr max_wire_bytes max_json_depth wire of
        Inl e \<Rightarrow> Inl e
      | Inr env \<Rightarrow>
          (case (va_transport vs, va_membership vs, va_replay vs, va_expiry vs) of
             (Some transport, Some membership, Some replay, Some expiry) \<Rightarrow>
               guarded (checked env (transport env))
                (guarded (checked env (membership env pk))
                  (guarded (authentication_error cr pk env)
                    (guarded (checked env (replay env))
                      (guarded (checked env (expiry env)) (Inr env)))))
           | _ \<Rightarrow> Inl ''all external validators are required''))"


section \<open>What a verified envelope is\<close>

definition plain_ascii :: "str \<Rightarrow> bool" where
  "plain_ascii s = list_all (\<lambda>c. (of_char c :: nat) < 128) s"

definition crypto_ok :: "peer_crypto \<Rightarrow> bool" where
  "crypto_ok cr \<longleftrightarrow>
     (\<forall>s. pc_nfc cr (pc_nfc cr s) = pc_nfc cr s) \<and>
     (\<forall>s. plain_ascii s \<longrightarrow> pc_nfc cr s = s) \<and>
     (\<forall>b. length (pc_sha cr b) = 32) \<and> (\<forall>k. length (pc_public cr k) = 32) \<and>
     (\<forall>k m. length (pc_sign cr k m) = 64 \<and> pc_verify cr (pc_public cr k) (pc_sign cr k m) m)"

lemma guarded_Inr [simp]: "guarded e k = Inr x \<longleftrightarrow> e = None \<and> k = Inr x"
  by (simp add: guarded_def split: option.split)

lemma first_failure_None: "first_failure ts = None \<longleftrightarrow> list_all fst ts"
  by (induction ts) auto

lemma checked_None:
  "checked env a = None \<longleftrightarrow> (\<exists>c. a = Answered True (Some c) \<and> same_decoded_json env c)"
  by (cases a) (auto simp: checked_def split: option.splits)

lemma decoded:
  assumes "decode_envelope cr mw md wire = Inr env"
  shows "parse_wire cr md wire = Some env" "list_all fst (envelope_tests env)" "length wire \<le> max_wire_bytes"
    "\<exists>sig. signature_bytes (field (field env ''signature'') ''sig'') = Inr sig"
  using assms by (auto simp: decode_envelope_def first_failure_None split: if_splits option.splits sum.splits)

lemma decoded_wire: "decode_envelope cr mw md wire = Inr env \<Longrightarrow> canonical_json (pc_nfc cr) md env = Inr wire"
  by (drule decoded(1)) (simp add: parse_wire_def split: option.splits if_splits)

lemma authentic:
  assumes "authentication_error cr pk env = None"
  obtains sig body head where
    "field env ''sender_peer_id'' = JStr (peer_id cr pk)"
    "field (field env ''signature'') ''key_id'' = JStr (peer_fingerprint pk)"
    "signature_bytes (field (field env ''signature'') ''sig'') = Inr sig"
    "canonical_json (pc_nfc cr) max_json_depth (field env ''payload'') = Inr body"
    "field env ''payload_digest'' = JStr (hex_text (pc_sha cr body))"
    "canonical_json (pc_nfc cr) max_json_depth (header_of env) = Inr head"
    "field env ''envelope_digest'' = JStr (hex_text (pc_sha cr head))"
    "pc_verify cr pk sig (sig_prefix @ pc_sha cr head)"
  using assms by (auto simp: authentication_error_def from_hex_text split: if_splits option.splits sum.splits json.splits)

lemma verified:
  assumes "verify_envelope cr vs wire pk = Inr env"
  obtains t m r x where "vs = \<lparr>va_transport = Some t, va_membership = Some m, va_replay = Some r, va_expiry = Some x\<rparr>"
    "decode_envelope cr max_wire_bytes max_json_depth wire = Inr env"
    "checked env (t env) = None" "checked env (m env pk) = None" "authentication_error cr pk env = None"
    "checked env (r env) = None" "checked env (x env) = None"
  using assms by (cases vs) (auto simp: verify_envelope_def split: sum.splits option.splits)

text \<open>C37: A verified envelope is what its sender signed: the wire is its canonical encoding and fits the size
  limit, its sender and key id are those of the given key, the signature in it is valid for the
  prefix and the digest of the canonical header, the header's payload digest is that of the canonical
  payload, and each of the four checks answered yes and left its copy as it was.
\<close>
theorem verified_envelope_is_authentic:
  assumes "verify_envelope cr vs wire pk = Inr env"
  shows "canonical_json (pc_nfc cr) max_json_depth env = Inr wire \<and> length wire \<le> max_wire_bytes \<and>
    list_all fst (envelope_tests env) \<and>
    field env ''sender_peer_id'' = JStr (peer_id cr pk) \<and>
    field (field env ''signature'') ''key_id'' = JStr (peer_fingerprint pk) \<and>
    (\<exists>sig body head.
      field (field env ''signature'') ''sig'' = JStr (b64_encode sig) \<and> length sig = 64 \<and>
      canonical_json (pc_nfc cr) max_json_depth (header_of env) = Inr head \<and>
      pc_verify cr pk sig (sig_prefix @ pc_sha cr head) \<and>
      canonical_json (pc_nfc cr) max_json_depth (field env ''payload'') = Inr body \<and>
      field env ''payload_digest'' = JStr (hex_text (pc_sha cr body))) \<and>
    (\<exists>t m r x. vs = \<lparr>va_transport = Some t, va_membership = Some m, va_replay = Some r, va_expiry = Some x\<rparr> \<and>
      (\<forall>a \<in> {t env, m env pk, r env, x env}. \<exists>c. a = Answered True (Some c) \<and> same_decoded_json env c))"
proof -
  obtain t m r x where v: "vs = \<lparr>va_transport = Some t, va_membership = Some m, va_replay = Some r, va_expiry = Some x\<rparr>"
    "decode_envelope cr max_wire_bytes max_json_depth wire = Inr env"
    "checked env (t env) = None" "checked env (m env pk) = None" "authentication_error cr pk env = None"
    "checked env (r env) = None" "checked env (x env) = None"
    using verified [OF assms] by metis
  have sig: "v = JStr (b64_encode s) \<and> length s = 64" if "signature_bytes v = Inr s" for v s
    using that by (auto simp: signature_bytes_def split: json.splits option.splits if_splits)
  obtain sg body head where a: "field env ''sender_peer_id'' = JStr (peer_id cr pk)"
    "field (field env ''signature'') ''key_id'' = JStr (peer_fingerprint pk)"
    "signature_bytes (field (field env ''signature'') ''sig'') = Inr sg"
    "canonical_json (pc_nfc cr) max_json_depth (field env ''payload'') = Inr body"
    "field env ''payload_digest'' = JStr (hex_text (pc_sha cr body))"
    "canonical_json (pc_nfc cr) max_json_depth (header_of env) = Inr head"
    "pc_verify cr pk sg (sig_prefix @ pc_sha cr head)"
    using authentic [OF v(5)] by metis
  have "\<forall>b \<in> {t env, m env pk, r env, x env}. \<exists>c. b = Answered True (Some c) \<and> same_decoded_json env c"
    using v(3,4,6,7) unfolding checked_None by blast
  then show ?thesis using decoded(2,3) [OF v(2)] decoded_wire [OF v(2)] v(1) a sig [OF a(3)] by blast
qed


section \<open>A wire reads back as what was signed\<close>

lemma crypto_laws:
  assumes "crypto_ok cr"
  shows "pc_nfc cr (pc_nfc cr s) = pc_nfc cr s" "plain_ascii s \<Longrightarrow> pc_nfc cr s = s"
    "length (pc_sha cr b) = 32" "length (pc_public cr k) = 32" "length (pc_sign cr k m) = 64"
    "pc_verify cr (pc_public cr k) (pc_sign cr k m) m"
  using assms by (simp_all add: crypto_ok_def)

lemma plain_ascii_simps [simp]:
  "plain_ascii []" "plain_ascii (c # s) \<longleftrightarrow> (of_char c :: nat) < 128 \<and> plain_ascii s"
  "plain_ascii (s @ t) \<longleftrightarrow> plain_ascii s \<and> plain_ascii t"
  by (simp_all add: plain_ascii_def)

lemma plain_ascii_take: "plain_ascii s \<Longrightarrow> plain_ascii (take n s)"
  unfolding plain_ascii_def list_all_iff by (meson in_set_takeD)

lemma hex_text_ascii: "plain_ascii (hex_text b)"
  by (induction b) (simp_all add: hex_text_def hex_char_ascii)

lemma b64_char_ascii: "n < 64 \<Longrightarrow> (of_char (b64_char n) :: nat) < 128"
proof -
  have "list_all (\<lambda>n. (of_char (b64_char n) :: nat) < 128) (0 # [1..<64])"
    by (simp add: upt_rec_numeral upt_conv_Cons b64_char_def)
  then show "n < 64 \<Longrightarrow> (of_char (b64_char n) :: nat) < 128" by (cases n) (simp_all add: list_all_iff)
qed

lemma b64_ascii: "plain_ascii (b64_encode bs)"
proof -
  note b = sextet_bounds [OF of_char_lt_256 of_char_lt_256 of_char_lt_256]
  note v = b [THEN b64_char_ascii]
  show ?thesis by (induction bs rule: b64_encode.induct) (simp_all add: Let_def v)
qed

lemma hex_text_length: "length (hex_text b) = 2 * length b"
  by (induction b) (simp_all add: hex_text_def)

lemma hex_text_inj: "hex_text a = hex_text b \<Longrightarrow> a = b"
  using from_hex_text by (metis option.inject)

lemma header_ascii: "k \<in> set envelope_fields \<Longrightarrow> plain_ascii k"
  by (auto simp: envelope_fields_def header_fields_def)

lemma signature_ascii: "k \<in> set signature_fields \<Longrightarrow> plain_ascii k"
  by (auto simp: signature_fields_def)

lemma field_obj: "map_of kvs k = Some v \<Longrightarrow> field (JObj kvs) k = v"
  by (simp add: field_def)

text \<open>The fields of a canonical object are the canonical fields.\<close>

lemma canon_field:
  assumes "canon nfc d m (JObj kvs) = Inr r" "\<And>k. k \<in> fst ` set kvs \<Longrightarrow> nfc k = k" "map_of kvs k = Some v"
  shows "canon nfc (d + 1) m v = Inr (field r k)"
proof -
  obtain ps where ps: "r = JObj (sort_key (\<lambda>p. utf8 (fst p)) ps)" "dict_ok ps"
      "\<exists>y. map_of ps k = Some y \<and> canon nfc (d + 1) m v = Inr y"
    using canon_fields [of nfc d m kvs r, OF assms(1)] assms(2,3) by metis
  then show ?thesis by (auto simp: field_def map_of_canonical_order)
qed

text \<open>A decoded envelope is canonical.\<close>

lemma decoded_canon:
  assumes "crypto_ok cr" "decode_envelope cr mw md wire = Inr env"
  shows "canon (pc_nfc cr) 0 md env = Inr env"
proof -
  obtain r where r: "canon (pc_nfc cr) 0 md env = Inr r" "utf8_decode wire = Some (compact_text r)"
      "json_loads (compact_text r) = Some r"
    using canonical_json_reads_back [OF crypto_laws(1) [OF assms(1)] decoded_wire [OF assms(2)]] by metis
  then show ?thesis using decoded(1) [OF assms(2)] by (simp add: parse_wire_def split: if_splits)
qed

lemma canonical_bytes:
  assumes "canon nfc 0 m v = Inr v" "canonical_json nfc m u = Inr b" "canon nfc 0 m u = Inr v"
  shows "canonical_json nfc m v = Inr b"
  using assms by (auto simp: canonical_json_def split: if_splits)


lemma canon_depth: "canon nfc d m v = Inr r \<Longrightarrow> d \<le> m"
  by (simp add: canon.simps(1) split: if_splits)

lemma closed_field:
  assumes "closed_fields v keys" "k \<in> set keys"
  obtains kvs where "v = JObj kvs" "map_of kvs k = Some (field v k)" "fst ` set kvs = set keys"
proof -
  obtain kvs where v: "v = JObj kvs" "fst ` set kvs = set keys"
    using assms(1) by (auto simp: closed_fields_def split: json.splits)
  then obtain x where "map_of kvs k = Some x" using assms(2) by (metis domD dom_map_of_conv_image_fst)
  then show thesis using that v by (simp add: field_def)
qed

lemma field_fixed:
  assumes "crypto_ok cr" "canon (pc_nfc cr) d m v = Inr v" "closed_fields v keys" "\<And>k. k \<in> set keys \<Longrightarrow> plain_ascii k"
    and "k \<in> set keys"
  shows "canon (pc_nfc cr) (d + 1) m (field v k) = Inr (field v k)"
proof -
  obtain kvs where v: "v = JObj kvs" "map_of kvs k = Some (field v k)" "fst ` set kvs = set keys"
    using closed_field [OF assms(3,5)] by metis
  show ?thesis using canon_field [of "pc_nfc cr" d m kvs v k "field v k"] assms(1,2,4) v crypto_laws(2) [OF assms(1)]
    by simp
qed

definition header_pairs :: "json \<Rightarrow> (str \<times> json) list" where
  "header_pairs v = map (\<lambda>k. (k, field v k)) header_fields"

lemma header_keys: "dict_ok (header_pairs v)" "map fst (header_pairs v) = header_fields"
proof -
  show "map fst (header_pairs v) = header_fields" by (simp add: header_pairs_def comp_def)
  then show "dict_ok (header_pairs v)" by (simp add: dict_ok_def header_fields_def)
qed

lemma header_pair: "k \<in> set header_fields \<Longrightarrow> map_of (header_pairs v) k = Some (field v k)"
  using header_keys(1) [of v] by (simp add: header_pairs_def flip: dict_mem_iff)

lemma canon_header:
  assumes "crypto_ok cr" "canon (pc_nfc cr) 0 m env = Inr env" "closed_fields env envelope_fields"
  shows "canon (pc_nfc cr) 0 m (header_of env) = Inr (JObj (sort_key (\<lambda>p. utf8 (fst p)) (header_pairs env)))"
proof -
  have fixed: "canon (pc_nfc cr) 1 m (field env k) = Inr (field env k)" if "k \<in> set header_fields" for k
    using field_fixed [OF assms header_ascii] that by (simp add: envelope_fields_def)
  have nfc: "pc_nfc cr k = k" if "k \<in> set header_fields" for k
    using header_ascii crypto_laws(2) [OF assms(1)] that by (simp add: envelope_fields_def)
  have m: "1 \<le> m" using canon_depth [OF fixed [of "hd header_fields"]] by (simp add: header_fields_def)
  have "list_all (\<lambda>p. pc_nfc cr (fst p) = fst p \<and> canon (pc_nfc cr) 1 m (snd p) = Inr (snd p)) (header_pairs env)"
    using fixed nfc by (simp add: list_all_iff header_pairs_def)
  then have "canon_pairs (pc_nfc cr) 1 m [] (header_pairs env) = Inr (header_pairs env)"
    using canon_pairs_intro [of "pc_nfc cr" 1 m "header_pairs env" "[]"] header_keys(1) m by simp
  then show ?thesis by (simp add: header_of_def canon.simps(1) flip: header_pairs_def)
qed

text \<open>C39: The signature of a verified envelope binds every header field and the payload: two verified
  envelopes with the same envelope digest agree on all of them, unless two different byte strings with
  the same SHA-256 are among their canonical headers and payloads.
\<close>
theorem envelope_digest_binds:
  assumes "crypto_ok cr" "verify_envelope cr vs w pk = Inr e" "verify_envelope cr vs' w' pk' = Inr e'"
    and "field e ''envelope_digest'' = field e' ''envelope_digest''"
  shows "((\<forall>k \<in> set header_fields. field e k = field e' k) \<and> field e ''payload'' = field e' ''payload'') \<or>
    (\<exists>a b. a \<noteq> b \<and> pc_sha cr a = pc_sha cr b \<and>
      ({Inr a, Inr b} = canonical_json (pc_nfc cr) max_json_depth ` {header_of e, header_of e'} \<or>
       {Inr a, Inr b} = canonical_json (pc_nfc cr) max_json_depth ` {field e ''payload'', field e' ''payload''}))"
proof -
  have d: "decode_envelope cr max_wire_bytes max_json_depth w = Inr e" "authentication_error cr pk e = None"
    "decode_envelope cr max_wire_bytes max_json_depth w' = Inr e'" "authentication_error cr pk' e' = None"
    using verified [OF assms(2)] verified [OF assms(3)] by metis+
  note c = decoded_canon [OF assms(1) d(1)] decoded_canon [OF assms(1) d(3)]
  have cl: "closed_fields e envelope_fields" "closed_fields e' envelope_fields"
    using decoded(2) [OF d(1)] decoded(2) [OF d(3)] by (simp_all add: envelope_tests_def)
  obtain body head where a: "field e ''payload_digest'' = JStr (hex_text (pc_sha cr body))"
      "canonical_json (pc_nfc cr) max_json_depth (field e ''payload'') = Inr body"
      "canonical_json (pc_nfc cr) max_json_depth (header_of e) = Inr head"
      "field e ''envelope_digest'' = JStr (hex_text (pc_sha cr head))"
    using authentic [OF d(2)] by metis
  obtain body' head' where a': "field e' ''payload_digest'' = JStr (hex_text (pc_sha cr body'))"
      "canonical_json (pc_nfc cr) max_json_depth (field e' ''payload'') = Inr body'"
      "canonical_json (pc_nfc cr) max_json_depth (header_of e') = Inr head'"
      "field e' ''envelope_digest'' = JStr (hex_text (pc_sha cr head'))"
    using authentic [OF d(4)] by metis
  have h: "pc_sha cr head = pc_sha cr head'" using assms(4) a(4) a'(4) hex_text_inj by simp
  show ?thesis
  proof (cases "head = head'")
    case False
    then show ?thesis using h a(3) a'(3) by (intro disjI2 exI [of _ head] exI [of _ head']) simp
  next
    case True
    note inj = canonical_json_inj [of "pc_nfc cr", OF crypto_laws(1) [OF assms(1)]]
    have "sort_key (\<lambda>p. utf8 (fst p)) (header_pairs e) = sort_key (\<lambda>p. utf8 (fst p)) (header_pairs e')"
      using inj [OF a(3) a'(3) [folded True]] canon_header [OF assms(1) c(1) cl(1)] canon_header [OF assms(1) c(2) cl(2)] by simp
    then have "map_of (header_pairs e) = map_of (header_pairs e')" using map_of_canonical_order header_keys(1) by metis
    then have fields: "\<forall>k \<in> set header_fields. field e k = field e' k" using header_pair by (metis option.inject)
    then have p: "pc_sha cr body = pc_sha cr body'" using a(1) a'(1) hex_text_inj by (simp add: header_fields_def)
    have "canon (pc_nfc cr) 1 max_json_depth (field v ''payload'') = Inr (field v ''payload'')" if "v \<in> {e, e'}" for v
    proof -
      have "canon (pc_nfc cr) 0 max_json_depth v = Inr v" "closed_fields v envelope_fields" using that c cl by blast+
      moreover have "''payload'' \<in> set envelope_fields" by (simp add: envelope_fields_def)
      ultimately show ?thesis using field_fixed [OF assms(1) _ _ header_ascii] by simp
    qed
    then have pay: "canon (pc_nfc cr) 0 max_json_depth (field v ''payload'') = Inr (field v ''payload'')" if "v \<in> {e, e'}" for v
      using that canon_mono [of "pc_nfc cr" 1 max_json_depth "field v ''payload''" _ 0] by blast
    show ?thesis
    proof (cases "body = body'")
      case True
      then show ?thesis using inj [OF a(2) a'(2) [folded True]] pay [of e] pay [of e'] fields by simp
    next
      case False
      then show ?thesis using p a(2) a'(2) by (intro disjI2 exI [of _ body] exI [of _ body']) simp
    qed
  qed
qed


section \<open>Signing and verifying\<close>

lemma same_refl: "keys_once v \<Longrightarrow> same_decoded_json v v"
proof (induction v)
  case (JArr xs)
  then show ?case by (auto simp: list_all_iff list_all2_conv_all_nth)
next
  case (JObj kvs)
  have "case map_of kvs (fst p) of Some y \<Rightarrow> same_decoded_json (snd p) y | None \<Rightarrow> False" if p: "p \<in> set kvs" for p
  proof -
    have "map_of kvs (fst p) = Some (snd p)" using p JObj(2) dict_mem_iff [of kvs "fst p" "snd p"] by simp
    moreover have "keys_once (snd p)" using p JObj(2) by (auto simp: list_all_iff)
    moreover have "snd p \<in> Basic_BNFs.snds p" by (cases p) (simp add: snds.intros)
    ultimately show ?thesis using JObj(1) [OF p] by simp
  qed
  then show ?case by (fastforce simp: list_all_iff split: option.splits)
qed simp_all

definition accepting :: validators where
  "accepting = \<lparr>va_transport = Some (\<lambda>e. Answered True (Some e)), va_membership = Some (\<lambda>e _. Answered True (Some e)),
     va_replay = Some (\<lambda>e. Answered True (Some e)), va_expiry = Some (\<lambda>e. Answered True (Some e))\<rparr>"

definition signed_fields :: "peer_crypto \<Rightarrow> (str \<times> json) list \<Rightarrow> str \<Rightarrow> (str \<times> json) list" where
  "signed_fields cr header body = header @ [(''payload_digest'', JStr (hex_text (pc_sha cr body)))]"

definition signature_object :: "peer_crypto \<Rightarrow> str \<Rightarrow> str \<Rightarrow> json" where
  "signature_object cr key digest = JObj
     [(''alg'', JStr ''Ed25519''), (''key_id'', JStr (peer_fingerprint (pc_public cr key))),
      (''sig'', JStr (b64_encode (pc_sign cr key (sig_prefix @ digest))))]"

definition signed_envelope :: "peer_crypto \<Rightarrow> (str \<times> json) list \<Rightarrow> json \<Rightarrow> str \<Rightarrow> str \<Rightarrow> str \<Rightarrow> (str \<times> json) list" where
  "signed_envelope cr header payload key body digest = signed_fields cr header body @
     [(''envelope_digest'', JStr (hex_text digest)), (''payload'', payload), (''signature'', signature_object cr key digest)]"

lemma signed:
  assumes "sign_envelope cr header payload key = Inr wire"
  obtains body head env where
    "fst ` set header = set input_fields"
    "field (JObj header) ''sender_peer_id'' = JStr (peer_id cr (pc_public cr key))"
    "canonical_json (pc_nfc cr) max_json_depth payload = Inr body"
    "canonical_json (pc_nfc cr) max_json_depth (JObj (signed_fields cr header body)) = Inr head"
    "canonical_json (pc_nfc cr) max_json_depth (JObj (signed_envelope cr header payload key body (pc_sha cr head))) = Inr wire"
    "decode_envelope cr max_wire_bytes max_json_depth wire = Inr env"
proof -
  have "validate_header True (JObj header) = None" using assms by (simp add: sign_envelope_def)
  then have "fst ` set header = set input_fields"
    by (simp add: validate_header_def first_failure_None header_tests_def closed_fields_def split: if_splits)
  then show thesis using assms that
    by (auto simp: sign_envelope_def signed_fields_def signed_envelope_def signature_object_def Let_def
        split: if_splits sum.splits)
qed

lemma signed_lookup:
  assumes "fst ` set header = set input_fields" and kvs_def: "kvs = signed_envelope cr header payload key body digest"
  shows "fst ` set kvs = set envelope_fields" "fst ` set (signed_fields cr header body) = set header_fields"
    "k \<in> set input_fields \<Longrightarrow> map_of kvs k = Some (field (JObj header) k)"
    "k \<in> set header_fields \<Longrightarrow> map_of (signed_fields cr header body) k = map_of kvs k"
    "map_of kvs ''payload_digest'' = Some (JStr (hex_text (pc_sha cr body)))"
    "map_of kvs ''envelope_digest'' = Some (JStr (hex_text digest))"
    "map_of kvs ''payload'' = Some payload" "map_of kvs ''signature'' = Some (signature_object cr key digest)"
proof -
  have none: "map_of header k = None" if "k \<notin> set input_fields" for k
    using that assms(1) by (metis domIff dom_map_of_conv_image_fst)
  have some: "map_of header k = Some (field (JObj header) k)" if k: "k \<in> set input_fields" for k
  proof -
    obtain x where "map_of header k = Some x" using k assms(1) by (metis domD dom_map_of_conv_image_fst)
    then show ?thesis by (simp add: field_def)
  qed
  show "fst ` set kvs = set envelope_fields" "fst ` set (signed_fields cr header body) = set header_fields"
    unfolding kvs_def signed_envelope_def signed_fields_def set_append image_Un assms(1)
    by (auto simp: envelope_fields_def input_fields_def header_fields_def)
  show "map_of kvs k = Some (field (JObj header) k)" if "k \<in> set input_fields"
    using some [OF that] by (simp add: kvs_def signed_envelope_def signed_fields_def map_add_def)
  show "map_of (signed_fields cr header body) k = map_of kvs k" if "k \<in> set header_fields"
  proof (cases "k \<in> set input_fields")
    case True
    then show ?thesis using some by (simp add: kvs_def signed_envelope_def signed_fields_def map_add_def)
  next
    case False
    then have "k = ''payload_digest''" using that by (simp add: input_fields_def)
    then show ?thesis by (simp add: kvs_def signed_envelope_def signed_fields_def map_add_def split: option.split)
  qed
  have "''payload_digest'' \<notin> set input_fields" "''envelope_digest'' \<notin> set input_fields" "''payload'' \<notin> set input_fields"
    "''signature'' \<notin> set input_fields" by (simp_all add: input_fields_def header_fields_def)
  from this [THEN none]
  show "map_of kvs ''payload_digest'' = Some (JStr (hex_text (pc_sha cr body)))"
    "map_of kvs ''envelope_digest'' = Some (JStr (hex_text digest))"
    "map_of kvs ''payload'' = Some payload" "map_of kvs ''signature'' = Some (signature_object cr key digest)"
    by (simp_all add: kvs_def signed_envelope_def signed_fields_def map_add_def)
qed

lemma canonical_json_cong: "canon nfc 0 m u = canon nfc 0 m v \<Longrightarrow> canonical_json nfc m u = canonical_json nfc m v"
  by (simp add: canonical_json_def)

lemma canon_ascii:
  assumes "crypto_ok cr" "plain_ascii s" "canon (pc_nfc cr) d m (JStr s) = Inr v"
  shows "v = JStr s"
  using assms(3) crypto_laws(2) [OF assms(1,2)] by (simp add: canon.simps(1) split: if_splits)


lemma header_recovered:
  assumes "crypto_ok cr" "canon (pc_nfc cr) 0 m env = Inr env" "closed_fields env envelope_fields"
    and "canon (pc_nfc cr) 0 m (JObj f) = Inr r" "fst ` set f = set header_fields"
    and "\<And>k x. k \<in> set header_fields \<Longrightarrow> map_of f k = Some x \<Longrightarrow> canon (pc_nfc cr) 1 m x = Inr (field env k)"
  shows "canon (pc_nfc cr) 0 m (header_of env) = Inr r"
proof -
  have nfc: "pc_nfc cr k = k" if "k \<in> fst ` set f" for k
    using header_ascii [of k] crypto_laws(2) [OF assms(1)] that assms(5) by (simp add: envelope_fields_def)
  obtain ps where ps: "r = JObj (sort_key (\<lambda>p. utf8 (fst p)) ps)" "dict_ok ps" "map fst ps = map fst f"
      "\<And>k v. map_of f k = Some v \<Longrightarrow> \<exists>y. map_of ps k = Some y \<and> canon (pc_nfc cr) (0 + 1) m v = Inr y"
    using canon_fields [OF assms(4) nfc] by blast
  have "map_of ps k = map_of (header_pairs env) k" for k
  proof (cases "k \<in> set header_fields")
    case True
    then obtain x where x: "map_of f k = Some x" using assms(5) by (metis domD dom_map_of_conv_image_fst)
    show ?thesis using ps(4) [OF x] assms(6) [OF True x] header_pair [OF True] by auto
  next
    case False
    then have "k \<notin> fst ` set ps" "k \<notin> fst ` set (header_pairs env)"
      using ps(3) assms(5) header_keys(2) [of env] by (metis list.set_map)+
    then show ?thesis by (metis map_of_eq_None_iff)
  qed
  then have "map_of ps = map_of (header_pairs env)" by blast
  then show ?thesis using canon_header [OF assms(1-3)] sorted_fields_unique [OF ps(2) header_keys(1)] ps(1) by simp
qed

lemma signed_decodes:
  assumes "crypto_ok cr" "sign_envelope cr header payload key = Inr wire"
  shows "\<exists>env. decode_envelope cr max_wire_bytes max_json_depth wire = Inr env \<and>
    authentication_error cr (pc_public cr key) env = None \<and> same_decoded_json env env \<and>
    canon (pc_nfc cr) 1 max_json_depth payload = Inr (field env ''payload'') \<and>
    (\<forall>k \<in> set input_fields. canon (pc_nfc cr) 1 max_json_depth (field (JObj header) k) = Inr (field env k))"
proof -
  let ?m = max_json_depth and ?pk = "pc_public cr key"
  obtain body head env where s: "fst ` set header = set input_fields"
    "field (JObj header) ''sender_peer_id'' = JStr (peer_id cr ?pk)"
    "canonical_json (pc_nfc cr) ?m payload = Inr body"
    "canonical_json (pc_nfc cr) ?m (JObj (signed_fields cr header body)) = Inr head"
    "canonical_json (pc_nfc cr) ?m (JObj (signed_envelope cr header payload key body (pc_sha cr head))) = Inr wire"
    "decode_envelope cr max_wire_bytes ?m wire = Inr env"
    using signed [OF assms(2)] by metis
  let ?F = "signed_fields cr header body" and ?E = "signed_envelope cr header payload key body (pc_sha cr head)"
  have "?E = ?E" by (rule refl)
  note look = signed_lookup [OF s(1) this]
  have nfc: "pc_nfc cr k = k" if "k \<in> set envelope_fields" for k
    using header_ascii [OF that] crypto_laws(2) [OF assms(1)] by simp
  have fixed: "canon (pc_nfc cr) 0 ?m env = Inr env" by (rule decoded_canon [OF assms(1) s(6)])
  have "canon (pc_nfc cr) 0 ?m (JObj ?E) = Inr env"
    using canonical_json_inj [OF crypto_laws(1) [OF assms(1)] s(5) decoded_wire [OF s(6)]] fixed by simp
  then have field: "canon (pc_nfc cr) 1 ?m x = Inr (field env k)" if "map_of ?E k = Some x" for k x
    using canon_field [of "pc_nfc cr" 0 ?m ?E env k x] that nfc look(1) by simp
  have str: "field env k = JStr x" if "map_of ?E k = Some (JStr x)" "plain_ascii x" for k x
    using canon_ascii [OF assms(1) that(2) field [OF that(1)]] .
  have sender: "field env ''sender_peer_id'' = JStr (peer_id cr ?pk)"
    using s(2) by (intro str) (simp_all add: look(3) input_fields_def header_fields_def peer_id_def hex_text_ascii plain_ascii_take)
  have digests: "field env ''payload_digest'' = JStr (hex_text (pc_sha cr body))"
    "field env ''envelope_digest'' = JStr (hex_text (pc_sha cr head))"
    using str look(5,6) hex_text_ascii by blast+
  have sg: "canon (pc_nfc cr) 1 ?m (signature_object cr key (pc_sha cr head)) = Inr (field env ''signature'')"
    by (rule field [OF look(8)])
  have inner: "field (field env ''signature'') k = JStr x"
    if "(k, x) \<in> {(''key_id'', peer_fingerprint ?pk), (''sig'', b64_encode (pc_sign cr key (sig_prefix @ pc_sha cr head)))}" for k x
  proof -
    have "canon (pc_nfc cr) (1 + 1) ?m (JStr x) = Inr (field (field env ''signature'') k)"
      using that crypto_laws(2) [OF assms(1)] by (intro canon_field [OF sg [unfolded signature_object_def]]) auto
    then show ?thesis using that by (intro canon_ascii [OF assms(1)]) (auto simp: peer_fingerprint_def hex_text_ascii b64_ascii)
  qed
  have raw: "signature_bytes (field (field env ''signature'') ''sig'') = Inr (pc_sign cr key (sig_prefix @ pc_sha cr head))"
    using inner by (simp add: signature_bytes_def b64_round_trip crypto_laws(5) [OF assms(1)])
  have pay: "canon (pc_nfc cr) 1 ?m payload = Inr (field env ''payload'')" by (rule field [OF look(7)])
  then have "canonical_json (pc_nfc cr) ?m (field env ''payload'') = Inr body"
    using s(3) canon_result [OF crypto_laws(1) [OF assms(1)]] canon_mono [of _ 1 ?m _ _ 0] by (metis canonical_json_cong zero_le_one)
  moreover have "canonical_json (pc_nfc cr) ?m (header_of env) = Inr head"
  proof -
    obtain r where r: "canon (pc_nfc cr) 0 ?m (JObj ?F) = Inr r" using s(4) by (auto simp: canonical_json_def split: sum.splits)
    have "closed_fields env envelope_fields" using decoded(2) [OF s(6)] by (simp add: envelope_tests_def)
    from header_recovered [OF assms(1) fixed this r look(2)]
    have "canon (pc_nfc cr) 0 ?m (header_of env) = Inr r" using look(4) field by simp
    then show ?thesis using s(4) r canonical_json_cong by metis
  qed
  ultimately have auth: "authentication_error cr ?pk env = None"
    using sender digests inner raw by (simp add: authentication_error_def from_hex_text crypto_laws(6) [OF assms(1)])
  have "same_decoded_json env env" using canon_result [OF crypto_laws(1) [OF assms(1)] fixed] by (blast intro: same_refl)
  then show ?thesis using s(6) auth pay field look(3) by blast
qed

lemma accepted:
  assumes "decode_envelope cr max_wire_bytes max_json_depth wire = Inr env" "authentication_error cr pk env = None"
    and "same_decoded_json env env"
  shows "verify_envelope cr accepting wire pk = Inr env"
  using assms by (simp add: verify_envelope_def accepting_def checked_None)

text \<open>C38: What \<open>sign_envelope\<close> returns, \<open>verify_envelope\<close> accepts under the signer's public key when the four
  checks agree, and the envelope it returns carries the canonical header fields and the payload signed.
\<close>
theorem signed_envelope_verifies:
  assumes "crypto_ok cr" "sign_envelope cr header payload key = Inr wire"
  shows "\<exists>env. verify_envelope cr accepting wire (pc_public cr key) = Inr env \<and>
    canon (pc_nfc cr) 1 max_json_depth payload = Inr (field env ''payload'') \<and>
    (\<forall>k \<in> set input_fields. canon (pc_nfc cr) 1 max_json_depth (field (JObj header) k) = Inr (field env k))"
proof -
  obtain env where e: "decode_envelope cr max_wire_bytes max_json_depth wire = Inr env"
    "authentication_error cr (pc_public cr key) env = None" "same_decoded_json env env"
    "canon (pc_nfc cr) 1 max_json_depth payload = Inr (field env ''payload'')"
    "\<forall>k \<in> set input_fields. canon (pc_nfc cr) 1 max_json_depth (field (JObj header) k) = Inr (field env k)"
    using signed_decodes [OF assms] by blast
  then have "verify_envelope cr accepting wire (pc_public cr key) = Inr env" by (intro accepted)
  then show ?thesis using e(4,5) by blast
qed

section \<open>Copies\<close>

lemma same_canonical_eq:
  assumes "\<And>s. nfc (nfc s) = nfc s"
  shows "same_decoded_json a b \<Longrightarrow> canon nfc d m a = Inr a \<Longrightarrow> canon nfc d m b = Inr b \<Longrightarrow> a = b"
proof (induction a arbitrary: b d)
  case (JArr xs)
  then obtain ys where b: "b = JArr ys" "length xs = length ys" "\<And>i. i < length xs \<Longrightarrow> same_decoded_json (xs ! i) (ys ! i)"
    by (auto simp: list_all2_conv_all_nth split: json.splits)
  have "list_all2 (\<lambda>x y. canon nfc (d + 1) m x = Inr y) zs zs" if "canon nfc d m (JArr zs) = Inr (JArr zs)" for zs
    using that by (intro canon_items_spec) (auto simp: canon.simps(1) split: if_splits sum.splits)
  then have "canon nfc (d + 1) m (xs ! i) = Inr (xs ! i)" "canon nfc (d + 1) m (ys ! i) = Inr (ys ! i)" if "i < length xs" for i
    using JArr(3,4) b(1,2) that unfolding list_all2_conv_all_nth by auto
  then have "xs ! i = ys ! i" if "i < length xs" for i using JArr(1) [OF nth_mem] b(3) that by blast
  then show ?case using b(1,2) by (simp add: list_eq_iff_nth_eq)
next
  case (JObj kvs)
  then obtain qs where b: "b = JObj qs" "fst ` set kvs = fst ` set qs" by (auto split: json.splits)
  note a = canonical_object [of nfc, OF assms JObj(3)] and q = canonical_object [of nfc, OF assms JObj(4) [unfolded b(1)]]
  have same: "v = y" if "map_of kvs k = Some v" "map_of qs k = Some y" for k v y
  proof -
    have kv: "(k, v) \<in> set kvs" and ky: "(k, y) \<in> set qs" using that a(1) q(1) by (simp_all add: dict_mem_iff)
    have "list_all (\<lambda>p. case map_of qs (fst p) of Some y \<Rightarrow> snd p y | None \<Rightarrow> False) (map (map_prod id same_decoded_json) kvs)"
      using JObj(2) b(1) by simp
    then have "same_decoded_json v y" using kv that(2) by (fastforce simp: list_all_iff)
    then show ?thesis using JObj(1) [OF kv, of v y "d + 1"] a(3) [OF kv] q(3) [OF ky] by (simp add: snds.intros)
  qed
  have "map_of kvs k = map_of qs k" for k
  proof (cases "map_of kvs k")
    case None
    then show ?thesis using b(2) by (metis map_of_eq_None_iff)
  next
    case (Some v)
    then obtain y where "map_of qs k = Some y" using b(2) by (metis domD domI dom_map_of_conv_image_fst)
    then show ?thesis using same Some by simp
  qed
  then have "map_of kvs = map_of qs" by blast
  then show ?case using sorted_fields_unique [OF a(1) q(1)] a(2) q(2) b(1) by simp
qed (auto split: json.splits)


text \<open>
  A decoded envelope has one wire: two wires whose decoded values are the same, as the check for a
  changed copy compares them, are the same bytes.
\<close>
lemma envelope_has_one_wire:
  assumes "crypto_ok cr" "decode_envelope cr mw md w = Inr e" "decode_envelope cr mw' md w' = Inr e'"
    and "same_decoded_json e e'"
  shows "w = w' \<and> e = e'"
proof -
  have "e = e'"
    using same_canonical_eq [OF crypto_laws(1) [OF assms(1)] assms(4)] decoded_canon [OF assms(1)] assms(2,3) by blast
  then show ?thesis using decoded_wire [OF assms(2)] decoded_wire [OF assms(3)] by simp
qed

text \<open>
  The replay and expiry checks see only authentic envelopes: of an envelope whose sender, key,
  signature or digests are wrong, the verdict is an error whatever these two checks would do.
\<close>
lemma replay_check_sees_authentic_only:
  assumes "decode_envelope cr max_wire_bytes max_json_depth wire = Inr env" "authentication_error cr pk env = Some e"
  shows "(\<exists>m. verify_envelope cr (vs\<lparr>va_replay := Some r, va_expiry := Some x\<rparr>) wire pk = Inl m \<and>
    verify_envelope cr (vs\<lparr>va_replay := Some r', va_expiry := Some x'\<rparr>) wire pk = Inl m)"
  using assms by (auto simp: verify_envelope_def guarded_def split: option.split)

section \<open>A small envelope\<close>

definition demo_crypto :: peer_crypto where
  "demo_crypto = \<lparr>pc_nfc = (\<lambda>s. s), pc_sha = (\<lambda>_. replicate 32 CHR 0x00), pc_public = (\<lambda>_. replicate 32 CHR 0x00),
     pc_sign = (\<lambda>_ _. replicate 64 CHR 0x00), pc_verify = (\<lambda>_ _ _. True)\<rparr>"

definition demo_sender :: str where
  "demo_sender = ''peer_'' @ replicate 32 CHR ''0''"

definition demo_header :: "(str \<times> json) list" where
  "demo_header = [(''proto'', JStr proto), (''kind'', JStr ''ballot''), (''sender_peer_id'', JStr demo_sender),
     (''membership_epoch'', JInt 1), (''membership_root'', JStr (replicate 64 CHR ''0'')), (''msg_id'', JStr (demo_sender @ '':7'')),
     (''monotonic_seq'', JInt 7), (''issued_at_ms'', JInt 0), (''expires_at_ms'', JInt 5), (''correlation_id'', JStr ''c'')]"


definition demo_fields :: "(str \<times> json) list" where
  "demo_fields = signed_envelope demo_crypto demo_header (JObj []) [] [] (pc_sha demo_crypto [])"

lemma decode_written:
  assumes "crypto_ok cr" "canonical_json (pc_nfc cr) md v = Inr wire" "canon (pc_nfc cr) 0 md v = Inr r"
    and "list_all fst (envelope_tests r)" "signature_bytes (field (field r ''signature'') ''sig'') = Inr sg"
    and "wire \<noteq> []" "length wire \<le> mw" "mw \<le> max_wire_bytes"
  shows "decode_envelope cr mw md wire = Inr r"
proof -
  obtain r' where r': "canon (pc_nfc cr) 0 md v = Inr r'" "utf8_decode wire = Some (compact_text r')"
      "json_loads (compact_text r') = Some r'" "canonical_json (pc_nfc cr) md r' = Inr wire"
    using canonical_json_reads_back [OF crypto_laws(1) [OF assms(1)] assms(2)] by metis
  then have "parse_wire cr md wire = Some r" using assms(3) by (simp add: parse_wire_def)
  then show ?thesis using assms(4-) by (simp add: decode_envelope_def guarded_def first_failure_None [THEN iffD2] max_wire_bytes_def flip: length_greater_0_conv)
qed

lemma demo_ok: "crypto_ok demo_crypto"
  by (simp add: crypto_ok_def demo_crypto_def)

definition demo_canon :: json where
  "demo_canon = (let zeros = JStr (replicate 64 CHR ''0'') in JObj
     [(''correlation_id'', JStr ''c''), (''envelope_digest'', zeros), (''expires_at_ms'', JInt 5), (''issued_at_ms'', JInt 0),
      (''kind'', JStr ''ballot''), (''membership_epoch'', JInt 1), (''membership_root'', zeros), (''monotonic_seq'', JInt 7),
      (''msg_id'', JStr (demo_sender @ '':7'')), (''payload'', JObj []), (''payload_digest'', zeros), (''proto'', JStr proto),
      (''sender_peer_id'', JStr demo_sender),
      (''signature'', JObj [(''alg'', JStr ''Ed25519''), (''key_id'', zeros),
         (''sig'', JStr (replicate 86 CHR ''A'' @ ''==''))])])"

lemma demo_canonical: "canon (pc_nfc demo_crypto) 0 max_json_depth (JObj demo_fields) = Inr demo_canon"
  by code_simp

lemma demo_tests: "ints_ok demo_canon \<and> list_all fst (envelope_tests demo_canon)"
  by code_simp

lemma demo_signature:
  "signature_bytes (field (field demo_canon ''signature'') ''sig'') = Inr (replicate 64 CHR 0x00)"
  by code_simp

lemma demo_text: "compact_text demo_canon \<noteq> [] \<and> int (length (utf8 (compact_text demo_canon))) < 2000"
  by code_simp

lemma demo_parts:
  "validate_header True (JObj demo_header) = None \<and>
    field (JObj demo_header) ''sender_peer_id'' = JStr (peer_id demo_crypto (pc_public demo_crypto [])) \<and>
    (\<forall>v \<in> set [JObj [], JObj (signed_fields demo_crypto demo_header [])].
      case canon (pc_nfc demo_crypto) 0 max_json_depth v of Inr b \<Rightarrow> ints_ok b | _ \<Rightarrow> False)"
  by code_simp

lemma demo_signed: "\<exists>wire. sign_envelope demo_crypto demo_header (JObj []) [] = Inr wire"
proof -
  let ?nfc = "pc_nfc demo_crypto"
  have sha: "pc_sha demo_crypto b = pc_sha demo_crypto []" for b by (simp add: demo_crypto_def)
  have wire: "canonical_json ?nfc max_json_depth (JObj demo_fields) = Inr (utf8 (compact_text demo_canon))"
    using demo_tests by (simp add: canonical_json_def demo_canonical)
  have "utf8 (compact_text demo_canon) \<noteq> []"
    using demo_text by (cases "compact_text demo_canon") (simp_all add: utf8_def utf8_char_def Let_def)
  then have "decode_envelope demo_crypto max_wire_bytes max_json_depth (utf8 (compact_text demo_canon)) = Inr demo_canon"
    using demo_tests demo_text
    by (intro decode_written [OF demo_ok wire demo_canonical _ demo_signature]) (simp_all add: max_wire_bytes_def)
  moreover obtain body head where "canonical_json ?nfc max_json_depth (JObj []) = Inr body"
      "canonical_json ?nfc max_json_depth (JObj (signed_fields demo_crypto demo_header [])) = Inr head"
    using demo_parts by (auto simp: canonical_json_def split: sum.splits)
  ultimately show ?thesis using demo_parts wire sha [of body] sha [of head]
    by (simp add: sign_envelope_def guarded_def Let_def demo_fields_def signed_envelope_def signed_fields_def signature_object_def)
qed

lemma demo_verified:
  "\<exists>wire env. sign_envelope demo_crypto demo_header (JObj []) [] = Inr wire \<and>
    decode_envelope demo_crypto max_wire_bytes max_json_depth wire = Inr env \<and>
    verify_envelope demo_crypto accepting wire (pc_public demo_crypto []) = Inr env \<and> same_decoded_json env env"
  using demo_signed signed_decodes [OF demo_ok] accepted by meson


lemma verified_envelope_is_authentic_witness:
  "\<exists>wire env. verify_envelope demo_crypto accepting wire (pc_public demo_crypto []) = Inr env \<and>
    field env ''sender_peer_id'' = JStr (peer_id demo_crypto (pc_public demo_crypto []))"
  using demo_verified verified_envelope_is_authentic [of demo_crypto accepting] by meson

lemma envelope_digest_binds_witness:
  "\<exists>wire env. verify_envelope demo_crypto accepting wire (pc_public demo_crypto []) = Inr env \<and>
    ((\<forall>k \<in> set header_fields. field env k = field env k) \<and> field env ''payload'' = field env ''payload'' \<or>
     (\<exists>a b. a \<noteq> b \<and> pc_sha demo_crypto a = pc_sha demo_crypto b))"
  using demo_verified envelope_digest_binds [OF demo_ok _ _ refl] by meson

lemma signed_envelope_verifies_witness:
  "\<exists>wire env. sign_envelope demo_crypto demo_header (JObj []) [] = Inr wire \<and>
    verify_envelope demo_crypto accepting wire (pc_public demo_crypto []) = Inr env \<and>
    canon (pc_nfc demo_crypto) 1 max_json_depth (JObj []) = Inr (field env ''payload'')"
  using demo_signed signed_envelope_verifies [OF demo_ok] by meson

end
