(* ===== verification/Spec2Isabelle.thy ===== *)
theory Spec2Isabelle
  imports Kernel_Identity Kernel_Policy Kernel_Tasks Kernel_Audit Rate_Limit Budget_Ledger Budget_Store
    Lattice_Governance Forge_Merge Admission_Pilot Workflow_Recovery Butler_Commands Admission_Lease Tool_Registry
    Memory_Compress Memory_Secrets Peer_Envelope
begin

text \<open>
  A verification library for The Agency, a Python platform that runs autonomous agents under
  human governance. The library models the parts that decide: who may act, how often, what is
  merged, what is published, what is executed again after a crash. Network, model calls and
  files stay outside, and enter the definitions as arguments.

  \<^bold>\<open>The program and its parts.\<close> An agent is known to the registry
  (\<open>kernel/registry.py\<close>); the policy engine (\<open>kernel/policies.py\<close>) decides each of its
  actions from its identity, its trust and the issued permissions; its work is queued in the
  task manager (\<open>kernel/tasks.py\<close>) and written to the audit log (\<open>kernel/audit.py\<close>). A Telegram
  user reaches it through the rate limiter (\<open>telegram/rate_limit.py\<close>) and the durable budget
  ledger (\<open>telegram/budget_store.py\<close>); the owner's pilot keeps its turns in a store of its own
  (\<open>admission/store.py\<close>) and publishes an assessment with every answer
  (\<open>agents/assessment.py\<close>). The lattice scores agents and votes on proposals
  (\<open>lattice/reputation.py\<close>, \<open>lattice/governance.py\<close>). The forge gates what is merged and what
  it costs (\<open>forge/merge_queue.py\<close>, \<open>forge/pipeline.py\<close>, \<open>forge/cost.py\<close>). Workflows are
  versioned step graphs, executed in topological order and recovered after a crash
  (\<open>workflows/registry.py\<close>, \<open>workflows/executor.py\<close>, \<open>workflows/recovery.py\<close>). The butler keeps conversation threads per owner, assembles
  the context of a turn and serves thread commands (\<open>butler/threads.py\<close>, \<open>butler/context.py\<close>,
  \<open>butler/commands.py\<close>). Tools are called through a registry that validates, asks a policy
  and records intent and outcome (\<open>tools/registry.py\<close>); the owner's calls are paid for by a lease of
  the budget adapter (\<open>admission/budget.py\<close>). Agents remember through a store with a full-text index,
  tiers, search and compression, and keep their secrets encrypted (\<open>memory/sms\<close>). Known peers exchange
  signed envelopes (\<open>peer_envelope.py\<close>).

  \<^bold>\<open>The theories.\<close> All paths are under \<open>src/agency\<close>.

  \<^item> \<open>Agency_Prelude\<close>: the fragment of Python that the modules share (strings, dicts, sorting),
    and the interfaces: \<open>op_machine\<close> and \<open>op_progress\<close> (an invariant, and an order in which a
    state only grows, over runs of operations), \<open>unique_store\<close> (a table with a primary key).
    \<open>Json_Text\<close>: the text and the size of \<open>json.dumps\<close>. \<open>Iso_Time\<close>: \<open>isoformat\<close> and its inverse.
    \<open>Sliding_Window\<close>: counting events in a window that moves over a list of instants.
  \<^item> \<open>Kernel_Identity\<close>: \<open>kernel/identity.py\<close>, \<open>kernel/registry.py\<close>; the dict of agents.
    \<open>Kernel_Policy\<close>: \<open>kernel/policies.py\<close>; permissions, globs compiled to regular expressions,
    and \<open>evaluate\<close>. \<open>Kernel_Tasks\<close>: \<open>kernel/tasks.py\<close>; task dict, pending heap, lifecycle.
    \<open>Kernel_Audit\<close>: \<open>kernel/audit.py\<close>; the append-only table and the beta log.
  \<^item> \<open>Rate_Limit\<close>: \<open>telegram/rate_limit.py\<close>. \<open>Budget_Ledger\<close>: the transactions of
    \<open>telegram/budget_store.py\<close> on their three tables. \<open>Budget_Store\<close>: its asynchronous calls, cut
    at their \<open>await\<close> and interleaved.
  \<^item> \<open>Admission_Store\<close>: every operation of \<open>admission/store.py\<close> as a transaction body with
    rollback. \<open>Admission_Spec\<close>: seven abstract steps on the tables with their invariants.
    \<open>Admission_Turns\<close>: each operation refines the steps. \<open>Admission_Pilot\<close>: the properties over
    runs with restarts. \<open>Execution_Assessment\<close>: \<open>agents/assessment.py\<close>.
  \<^item> \<open>Lattice_Governance\<close>: \<open>lattice/reputation.py\<close>, \<open>lattice/governance.py\<close>. \<open>Forge_Merge\<close>:
    \<open>forge/merge_queue.py\<close>, \<open>forge/pipeline.py\<close>, \<open>forge/cost.py\<close>.
  \<^item> \<open>Workflow_Order\<close>: validation (\<open>workflows/registry.py\<close>) and \<open>topological_order\<close>
    (\<open>workflows/executor.py\<close>). \<open>Workflow_Runs\<close>: the three tables and \<open>run\<close>. \<open>Workflow_Recovery\<close>:
    \<open>run_recoverable\<close>, \<open>resume\<close>, \<open>reconcile\<close>.
  \<^item> \<open>Butler_Threads\<close>: \<open>butler/threads.py\<close>, five tables and what one owner sees of them.
    \<open>Butler_Context\<close>: \<open>butler/context.py\<close>, summary and window. \<open>Butler_Commands\<close>:
    \<open>butler/commands.py\<close>, and runs of all three; its locale \<open>store_law\<close> carries what the store's
    methods keep to the commands that call them.
  \<^item> \<open>Admission_Lease\<close>: \<open>admission/budget.py\<close>, a state machine of leases over the owner store and
    the quota ledger, with other code acting at every \<open>await\<close>. \<open>Tool_Policy\<close>: schema validation, the
    beta allowlist and the owner's policy. \<open>Tool_Registry\<close>: \<open>tools/registry.py\<close>, a call in its three
    modes over the audit log and the leases.
  \<^item> \<open>Memory_Store\<close>: \<open>memory/sms/models.py\<close>, \<open>store.py\<close>, \<open>lifecycle.py\<close>; items, their index and the
    aging of tiers. \<open>Memory_Retrieval\<close>: \<open>memory/sms/retrieval.py\<close>, tokens and the four searches.
    \<open>Memory_Compress\<close>: \<open>memory/sms/cpr.py\<close>, the extractive summary. \<open>Memory_Secrets\<close>:
    \<open>memory/sms/secrets.py\<close>, a simulation by an abstract vault.
  \<^item> \<open>Canonical_Json\<close>: the canonical JSON of \<open>peer_envelope.py\<close>, its writer and the reader of
    \<open>json.loads\<close> with their round trip. \<open>Peer_Envelope\<close>: headers, signing, verification.

  \<^bold>\<open>How state and operations correspond.\<close> An object's attributes or a database's tables are a
  record; a dict is an association list in insertion order; a table is a list of rows in rowid
  order. An operation takes the state and returns a result with the state it leaves; a raised
  exception is the left summand of the result, with the state as the code leaves it. A lock or
  \<open>BEGIN IMMEDIATE\<close> makes an operation atomic, so concurrent use is a sequence of operations;
  where calls do interleave, or a process may die, the cuts are explicit: events of
  \<open>Budget_Store\<close>, restarts of \<open>Admission_Pilot\<close>, the number of durable writes a process survives
  in \<open>Workflow_Recovery\<close>. Readings of the clock, random ids and failures of SQLite are arguments,
  one per call site, so theorems hold for all of them. A JSON column is the value its text
  denotes.

  \<^bold>\<open>What the lemmas show.\<close> For each component: every operation keeps its invariant, proved once
  per operation and lifted to runs by an interpretation of \<open>op_machine\<close> or \<open>op_progress\<close>; then the
  behaviour of the operations on every branch; then the properties C1 and following, each with
  an instance at concrete values. The quotas of \<open>Budget_Ledger\<close> are proved in every window of
  every run through \<open>Sliding_Window\<close>; \<open>Budget_Store\<close> refines the ledger and \<open>Admission_Turns\<close> the
  abstract steps; \<open>Workflow_Order\<close> ties the depth-first validation to the topological sort.
  Some lemmas show behaviour that the documentation denies, such as \<open>late_vote_overwrites_outcome\<close>.

  \<^bold>\<open>Bounds.\<close> Python's integers are \<open>int\<close>; floats are exact rationals or reals, so rounding is not
  modelled. Characters are code points below 256. The scanner of JSON has as many steps as its
  text has characters, which \<open>enough_steps\<close> shows to be enough; no other definition uses fuel:
  recursions are structural or have a termination proof (the depth-first search by the nodes not
  yet on the stack, the topological sort by the in-degrees still positive). The budget \<open>life\<close> of
  a recoverable execution counts the durable writes before the process is killed; \<open>killed_run_recovers\<close>
  shows that two per step and two more are enough.

  \<^bold>\<open>Parameters.\<close> The digest \<open>sha\<close>; the codec of the pilot's results (\<open>json.dumps\<close> of values with
  floats); the registered operations and the authorizer of a workflow executor; the results of the
  stages a pipeline composes; how SQLite renders arrays and breaks ties in an order; the search in the shared memory and the ellipsis character of the butler's context; what a tool's body does and where a call is
  cancelled (\<open>call_env\<close>); what other code does to a lease during a wait (\<open>surroundings\<close>); pydantic's
  stripping, the rank of a full-text match and the order of tied rows (\<open>sms_env\<close>); Fernet (\<open>fernet\<close>);
  Ed25519, SHA-256 and Unicode normalisation of the envelopes (\<open>peer_crypto\<close>, with the laws \<open>crypto_ok\<close>).

  \<^bold>\<open>Not modelled.\<close> Logging; best-effort mirrors to the graph backend; creation and permissions of
  files, for which a flag says whether they succeed; cancellation of asyncio tasks outside the budget adapter and the tool registry; type checks that
  Python makes on arguments of another type than the annotated one, where no value of the model
  has it. The remaining packages are HTTP servers, command lines, prompts and calls of model
  providers around the parts above (\<open>api\<close>, \<open>cli\<close>, \<open>gateway\<close>, \<open>bridges\<close>, \<open>voice\<close>, \<open>lab\<close>, \<open>prototype\<close>,
  \<open>factory\<close>, \<open>addons\<close>, \<open>orchestrator.py\<close>, the butler's service), or have not been reached yet: the admission service, the
  lattice's SQL backend, the tool driver, skills, risk scoring and the forge's backlog.
\<close>

section \<open>Registry and policy engine together\<close>

text \<open>C2: Revocation is permanent. Once an agent has been revoked in the registry, whatever
  registry operations follow, the identity the registry holds under that id stays revoked, and the
  policy engine allows it no action, on any target, with any permissions, at any time.\<close>

theorem revoked_agent_never_allowed:
  assumes "registry_ok r" "registry_revoke aid r = (Inr a, r1)" "list_all registry_op_ok ops"
  shows "\<exists>b. registry_get (run_ops registry_step ops r1) aid = Some b \<and> agent_revoked b
    \<and> can_execute action b target now e \<noteq> Inr True"
proof -
  have r1: "registry_ok r1" using registry_revoke_ok [OF assms(1), of aid] assms(2) by simp
  have "map_of r1 aid = Some a" "agent_revoked a"
    using assms(2) by (auto simp: registry_revoke_def Let_def split: sum.splits)
  then obtain b where b: "map_of (run_ops registry_step ops r1) aid = Some b" "agent_revoked b"
    using registry_runs.run_advances [OF assms(3) r1] by (auto simp: registry_below_def retained_def)
  then have "can_execute action b target now e \<noteq> Inr True"
    by (cases "evaluate action b target now e")
      (auto simp: can_execute_def agent_reasons_def dest: evaluate_allowed)
  with b show ?thesis by (auto simp: registry_get_def)
qed

theorem revoked_agent_never_allowed_witness:
  "\<exists>b. registry_get (run_ops registry_step [GrantCapability ''a1'' (CapStr ''deploy'')]
         [(''a1'', (sample_agent TRUSTED L4_PRODUCTION)\<lparr>agent_revoked := True\<rparr>)]) ''a1'' = Some b
     \<and> can_execute L0_OBSERVATION b ''prod/web'' (Aware 9) [] \<noteq> Inr True"
proof -
  let ?a = "sample_agent TRUSTED L4_PRODUCTION"
  have "registry_ok [(''a1'', ?a)]"
    by (simp add: registry_ok_def dict_ok_def agent_ok_def cap_ok_def sample_agent_def py_strip_def
        py_rstrip_def py_lstrip_def py_lower_def py_lower_char_def py_space_def)
  moreover have "registry_revoke ''a1'' [(''a1'', ?a)] = (Inr (?a\<lparr>agent_revoked := True\<rparr>), [(''a1'', ?a\<lparr>agent_revoked := True\<rparr>)])"
    by (simp add: registry_revoke_def get_required_def Let_def)
  moreover have "list_all registry_op_ok [GrantCapability ''a1'' (CapStr ''deploy'')]"
    by simp
  ultimately show ?thesis using revoked_agent_never_allowed by blast
qed

end
